(* ===== verification/Go_Prelude.thy ===== *)
theory Go_Prelude
  imports Main "HOL-Library.Word" "HOL-Library.Monad_Syntax"
begin

text \<open>
  Shared vocabulary of the development: the Go machine types, Go slices and the
  built-in slice operations, and the generic lemmas the component theories use.

  Conventions used in every theory:
  \<^item> a Go \<open>int\<close> is an \<open>int\<close>; \<open>uint64\<close>, \<open>uint32\<close>, \<open>uint16\<close> and \<open>byte\<close> are words, so
    their arithmetic wraps around as in Go;
  \<^item> a byte slice is a list of bytes, and a function that writes through a slice returns
    the new list;
  \<^item> a result of type \<open>'a option\<close> is the result of Go code that may panic: \<open>None\<close> is a
    run-time panic (index out of range, slice bounds out of range, negative \<open>make\<close>,
    division by zero), and \<open>Some r\<close> a normal return;
  \<^item> an \<open>error\<close> return of Go is a value (a sum, or an option of the error type).
\<close>

section \<open>Machine types\<close>

type_synonym byte = "8 word"
type_synonym u16 = "16 word"
type_synonym u32 = "32 word"
type_synonym u64 = "64 word"
type_synonym bytes = "byte list"

named_theorems go_defs \<open>definitions of the Go built-ins\<close>
named_theorems sits_intros \<open>rules that place a block of data in an array\<close>

section \<open>Go slices\<close>

text \<open>\<open>make([]T, n)\<close> with the zero value \<open>z\<close>.\<close>

definition go_make :: "'a \<Rightarrow> int \<Rightarrow> 'a list option" where
  "go_make z n = (if 0 \<le> n then Some (replicate (nat n) z) else None)"

text \<open>\<open>xs[i]\<close> as an expression and as the target of an assignment.\<close>

definition go_nth :: "'a list \<Rightarrow> int \<Rightarrow> 'a option" where
  "go_nth xs i = (if 0 \<le> i \<and> i < int (length xs) then Some (xs ! nat i) else None)"

definition go_upd :: "'a list \<Rightarrow> int \<Rightarrow> 'a \<Rightarrow> 'a list option" where
  "go_upd xs i v = (if 0 \<le> i \<and> i < int (length xs) then Some (xs[nat i := v]) else None)"

text \<open>\<open>xs[i:j]\<close> for a slice whose capacity is its length.\<close>

definition go_slice :: "'a list \<Rightarrow> int \<Rightarrow> int \<Rightarrow> 'a list option" where
  "go_slice xs i j =
     (if 0 \<le> i \<and> i \<le> j \<and> j \<le> int (length xs)
      then Some (take (nat (j - i)) (drop (nat i) xs)) else None)"

text \<open>
  \<open>copy(dst[off:], src)\<close>: the destination afterwards and the number of elements copied.
  The built-in copies as much as fits; only the slice expression \<open>dst[off:]\<close> can panic.
\<close>

definition blit :: "'a list \<Rightarrow> nat \<Rightarrow> 'a list \<Rightarrow> 'a list" where
  "blit dst k src =
     take k dst @ take (length dst - k) src @ drop (k + min (length dst - k) (length src)) dst"

definition go_copy :: "'a list \<Rightarrow> int \<Rightarrow> 'a list \<Rightarrow> ('a list \<times> int) option" where
  "go_copy dst off src =
     (if 0 \<le> off \<and> off \<le> int (length dst)
      then Some (blit dst (nat off) src, min (int (length dst) - off) (int (length src)))
      else None)"

text \<open>\<open>xs[off:]\<close>, and a write through that slice by a callee \<open>f\<close>.\<close>

definition go_from :: "'a list \<Rightarrow> int \<Rightarrow> 'a list option" where
  "go_from xs off = go_slice xs off (int (length xs))"

definition go_write_from :: "'a list \<Rightarrow> int \<Rightarrow> ('a list \<Rightarrow> 'a list option) \<Rightarrow> 'a list option" where
  "go_write_from xs off f = do {
     s \<leftarrow> go_from xs off;
     s \<leftarrow> f s;
     Some (take (nat off) xs @ s)
   }"

text \<open>Go's integer division and remainder truncate towards zero.\<close>

definition go_div :: "int \<Rightarrow> int \<Rightarrow> int option" where
  "go_div a b = (if b = 0 then None else Some (sgn a * sgn b * (\<bar>a\<bar> div \<bar>b\<bar>)))"

definition go_mod :: "int \<Rightarrow> int \<Rightarrow> int option" where
  "go_mod a b = (if b = 0 then None else Some (sgn a * (\<bar>a\<bar> mod \<bar>b\<bar>)))"

text \<open>The conversion to \<open>int64\<close>.\<close>

definition s64 :: "int \<Rightarrow> int" where
  "s64 x = signed_take_bit 63 x"

lemma s64_range: "- (2 ^ 63) \<le> x \<Longrightarrow> x < 2 ^ 63 \<Longrightarrow> s64 x = x"
  by (simp add: s64_def signed_take_bit_int_eq_self)

lemma s64_small: "0 \<le> x \<Longrightarrow> x < 2 ^ 63 \<Longrightarrow> s64 x = x"
  by (simp add: s64_range)

lemmas go_slice_defs [go_defs] = go_make_def go_nth_def go_upd_def go_slice_def go_copy_def

section \<open>Lemmas on slices\<close>

lemma length_blit [simp]: "length (blit dst k src) = length dst" if "k \<le> length dst"
  using that by (auto simp: blit_def min_def)

lemma go_copy_Some_length:
  "go_copy dst off src = Some (dst', n) \<Longrightarrow> length dst' = length dst"
  by (auto simp: go_copy_def split: if_splits)

lemma go_from_eq: "0 \<le> off \<Longrightarrow> off \<le> int (length xs) \<Longrightarrow> go_from xs off = Some (drop (nat off) xs)"
  by (simp add: go_from_def go_slice_def)

lemma blit_suffix: "k \<le> length xs \<Longrightarrow> take k xs @ blit (drop k xs) 0 ys = blit xs k ys"
  by (simp add: blit_def add.commute)

lemma go_write_from_blit:
  assumes "0 \<le> off" "off \<le> int (length xs)" "f (drop (nat off) xs) = Some (blit (drop (nat off) xs) 0 ys)"
  shows "go_write_from xs off f = Some (blit xs (nat off) ys)"
  using assms by (simp add: go_write_from_def go_from_eq blit_suffix)

lemma go_nth_int: "i < length xs \<Longrightarrow> go_nth xs (int i) = Some (xs ! i)"
  by (simp add: go_nth_def)

lemma go_div_nonneg: "0 \<le> a \<Longrightarrow> 0 < b \<Longrightarrow> go_div a b = Some (a div b)"
  by (cases "a = 0") (auto simp: go_div_def sgn_if)

lemma go_mod_nonneg: "0 \<le> a \<Longrightarrow> 0 < b \<Longrightarrow> go_mod a b = Some (a mod b)"
  by (cases "a = 0") (auto simp: go_mod_def sgn_if)

lemma blit_nth:
  assumes "k + length src \<le> length dst" "i < length dst"
  shows "blit dst k src ! i = (if k \<le> i \<and> i < k + length src then src ! (i - k) else dst ! i)"
  using assms by (auto simp: blit_def nth_append min_def)

lemma blit_nth_out:
  assumes "k \<le> length dst" "i < length dst" "i < k \<or> k + length src \<le> i"
  shows "blit dst k src ! i = dst ! i"
  using assms by (auto simp: blit_def nth_append min_def)

lemma blit_blit_append:
  assumes "k + length xs + length ys \<le> length a"
  shows "blit (blit a k xs) (k + length xs) ys = blit a k (xs @ ys)"
  using assms by (auto simp: list_eq_iff_nth_eq blit_nth nth_append)

lemma unat_of_nat_word: "n < 2 ^ LENGTH('a) \<Longrightarrow> unat (of_nat n :: 'a::len word) = n"
  by (simp add: unsigned_of_nat take_bit_nat_eq_self)

subsection \<open>A block of data at an offset\<close>

text \<open>\<open>sits a i bs\<close>: the elements \<open>bs\<close> are stored in \<open>a\<close> from index \<open>i\<close> on.\<close>

definition sits :: "'a list \<Rightarrow> int \<Rightarrow> 'a list \<Rightarrow> bool" where
  "sits a i bs \<longleftrightarrow> 0 \<le> i \<and> i + int (length bs) \<le> int (length a) \<and>
     take (length bs) (drop (nat i) a) = bs"

lemma sits_bounds: "sits a i bs \<Longrightarrow> 0 \<le> i \<and> i + int (length bs) \<le> int (length a)"
  by (simp add: sits_def)

lemma sits_iff_nth:
  "sits a i bs \<longleftrightarrow> 0 \<le> i \<and> i + int (length bs) \<le> int (length a) \<and>
     (\<forall>k < length bs. a ! (nat i + k) = bs ! k)"
  by (auto simp: sits_def list_eq_iff_nth_eq)

lemma sits_Nil [simp]: "sits a i [] \<longleftrightarrow> 0 \<le> i \<and> i \<le> int (length a)"
  by (auto simp: sits_def)

lemma sits_append:
  "sits a i (xs @ ys) \<longleftrightarrow> sits a i xs \<and> sits a (i + int (length xs)) ys"
proof (cases "0 \<le> i \<and> i + int (length xs) + int (length ys) \<le> int (length a)")
  case True
  then have n: "nat (i + int (length xs)) = nat i + length xs" by (simp add: nat_add_distrib)
  have t: "take (length xs + length ys) (drop (nat i) a)
      = take (length xs) (drop (nat i) a) @ take (length ys) (drop (nat i + length xs) a)"
    by (simp add: take_add add.commute)
  have "length (take (length xs) (drop (nat i) a)) = length xs" using True by auto
  with True show ?thesis by (simp add: sits_def n t append_eq_append_conv)
next
  case False
  then show ?thesis by (auto simp: sits_def)
qed

lemma sits_slice: "sits a i bs \<Longrightarrow> go_slice a i (i + int (length bs)) = Some bs"
  by (simp add: sits_def go_slice_def)

lemma sits_drop: "sits a i bs \<Longrightarrow> \<exists>rest. drop (nat i) a = bs @ rest"
  by (metis append_take_drop_id sits_def)

lemma sits_blit_same [sits_intros]:
  assumes "0 \<le> i" "i + int (length bs) \<le> int (length a)"
  shows "sits (blit a (nat i) bs) i bs"
  using assms by (auto simp: sits_iff_nth blit_nth)

lemma sits_blit_other [sits_intros]:
  assumes "sits a i bs" "0 \<le> j" "j \<le> int (length a)"
    "j + int (length cs) \<le> i \<or> i + int (length bs) \<le> j"
  shows "sits (blit a (nat j) cs) i bs"
proof -
  have "blit a (nat j) cs ! (nat i + k) = a ! (nat i + k)" if "k < length bs" for k
    using assms that by (intro blit_nth_out) (auto simp: sits_iff_nth)
  with assms show ?thesis by (auto simp: sits_iff_nth)
qed

lemma sits_blit_prefix [sits_intros]:
  assumes "sits a i bs" "i + int (length bs) \<le> int n" "n \<le> length b" "n \<le> length a"
  shows "sits (blit b 0 (take n a)) i bs"
  using assms by (auto simp: sits_iff_nth blit_nth)

end
