(* ===== verification/Go_Binary.thy ===== *)
theory Go_Binary
  imports Go_Prelude
begin

unbundle bit_operations_syntax

text \<open>
  The part of Go's \<open>encoding/binary\<close> the caches use: little-endian fixed-width integers
  (\<open>binary.go\<close>) and unsigned varints (\<open>varint.go\<close>). The functions write into a buffer
  and panic when it is too small, as the Go ones do; \<open>uvarint_bytes\<close> is the
  buffer-free reference definition of the varint format.
\<close>

section \<open>Little-endian integers\<close>

definition le_Uint16 :: "bytes \<Rightarrow> u16 option" where
  "le_Uint16 b = do {
     b1 \<leftarrow> go_nth b 1;
     b0 \<leftarrow> go_nth b 0;
     Some (ucast b0 OR push_bit 8 (ucast b1))
   }"

definition le_PutUint16 :: "bytes \<Rightarrow> u16 \<Rightarrow> bytes option" where
  "le_PutUint16 b v = do {
     _ \<leftarrow> go_nth b 1;
     b \<leftarrow> go_upd b 0 (ucast v);
     go_upd b 1 (ucast (drop_bit 8 v))
   }"

definition le_Uint64 :: "bytes \<Rightarrow> u64 option" where
  "le_Uint64 b = do {
     b7 \<leftarrow> go_nth b 7; b0 \<leftarrow> go_nth b 0; b1 \<leftarrow> go_nth b 1; b2 \<leftarrow> go_nth b 2;
     b3 \<leftarrow> go_nth b 3; b4 \<leftarrow> go_nth b 4; b5 \<leftarrow> go_nth b 5; b6 \<leftarrow> go_nth b 6;
     Some (ucast b0 OR push_bit 8 (ucast b1) OR push_bit 16 (ucast b2) OR
       push_bit 24 (ucast b3) OR push_bit 32 (ucast b4) OR push_bit 40 (ucast b5) OR
       push_bit 48 (ucast b6) OR push_bit 56 (ucast b7))
   }"

definition le_PutUint64 :: "bytes \<Rightarrow> u64 \<Rightarrow> bytes option" where
  "le_PutUint64 b v = do {
     _ \<leftarrow> go_nth b 7;
     b \<leftarrow> go_upd b 0 (ucast v);
     b \<leftarrow> go_upd b 1 (ucast (drop_bit 8 v));
     b \<leftarrow> go_upd b 2 (ucast (drop_bit 16 v));
     b \<leftarrow> go_upd b 3 (ucast (drop_bit 24 v));
     b \<leftarrow> go_upd b 4 (ucast (drop_bit 32 v));
     b \<leftarrow> go_upd b 5 (ucast (drop_bit 40 v));
     b \<leftarrow> go_upd b 6 (ucast (drop_bit 48 v));
     go_upd b 7 (ucast (drop_bit 56 v))
   }"

text \<open>The byte images, for the layout lemmas.\<close>

definition le16 :: "u16 \<Rightarrow> bytes" where
  "le16 v = [ucast v, ucast (drop_bit 8 v)]"

definition le64 :: "u64 \<Rightarrow> bytes" where
  "le64 v = [ucast v, ucast (drop_bit 8 v), ucast (drop_bit 16 v), ucast (drop_bit 24 v),
     ucast (drop_bit 32 v), ucast (drop_bit 40 v), ucast (drop_bit 48 v), ucast (drop_bit 56 v)]"

section \<open>Unsigned varints\<close>

lemma drop_bit_7_less: "0x80 \<le> x \<Longrightarrow> unat (drop_bit 7 x) < unat x" for x :: u64
  by (simp add: drop_bit_eq_div word_le_nat_alt unat_div)

text \<open>The loop of \<open>PutUvarint\<close>: \<open>buf\<close> is the buffer, \<open>i\<close> the next index.\<close>

function PutUvarint_loop :: "bytes \<Rightarrow> int \<Rightarrow> u64 \<Rightarrow> (bytes \<times> int) option" where
  "PutUvarint_loop buf i x =
     (if 0x80 \<le> x
      then do {
        buf \<leftarrow> go_upd buf i (ucast x OR 0x80);
        PutUvarint_loop buf (i + 1) (drop_bit 7 x)
      }
      else do {
        buf \<leftarrow> go_upd buf i (ucast x);
        Some (buf, i + 1)
      })"
  by pat_completeness auto

termination
  by (relation "measure (\<lambda>(buf, i, x). unat x)") (auto simp: drop_bit_7_less)

definition PutUvarint :: "bytes \<Rightarrow> u64 \<Rightarrow> (bytes \<times> int) option" where
  "PutUvarint buf x = PutUvarint_loop buf 0 x"

text \<open>The loop of \<open>Uvarint\<close> over the remaining bytes, with its variables \<open>x\<close>, \<open>s\<close> and \<open>i\<close>.\<close>

fun Uvarint_loop :: "bytes \<Rightarrow> u64 \<Rightarrow> nat \<Rightarrow> int \<Rightarrow> u64 \<times> int" where
  "Uvarint_loop [] x s i = (0, 0)"
| "Uvarint_loop (b # bs) x s i =
     (if b < 0x80 then
        if i > 9 \<or> i = 9 \<and> b > 1 then (0, - (i + 1))
        else (x OR push_bit s (ucast b), i + 1)
      else Uvarint_loop bs (x OR push_bit s (ucast (b AND 0x7f))) (s + 7) (i + 1))"

definition Uvarint :: "bytes \<Rightarrow> u64 \<times> int" where
  "Uvarint buf = Uvarint_loop buf 0 0 0"

text \<open>Reference definition of the format.\<close>

function uvarint_bytes :: "u64 \<Rightarrow> bytes" where
  "uvarint_bytes x =
     (if 0x80 \<le> x then (ucast x OR 0x80) # uvarint_bytes (drop_bit 7 x) else [ucast x])"
  by pat_completeness auto
termination
  by (relation "measure unat") (auto simp: drop_bit_7_less)

declare PutUvarint_loop.simps [simp del] uvarint_bytes.simps [simp del]

section \<open>Lemmas\<close>

lemma length_le16 [simp]: "length (le16 v) = 2" by (simp add: le16_def)

lemma length_le64 [simp]: "length (le64 v) = 8" by (simp add: le64_def)

lemma two_bytes: "2 \<le> length b \<Longrightarrow> \<exists>b0 b1 r. b = b0 # b1 # r"
  by (auto simp: numeral_eq_Suc Suc_le_length_iff)

lemma eight_bytes:
  "8 \<le> length b \<Longrightarrow> \<exists>b0 b1 b2 b3 b4 b5 b6 b7 r. b = b0 # b1 # b2 # b3 # b4 # b5 # b6 # b7 # r"
  by (auto simp: numeral_eq_Suc Suc_le_length_iff)

lemma le_PutUint16_eq:
  assumes "2 \<le> length b" shows "le_PutUint16 b v = Some (blit b 0 (le16 v))"
proof -
  from two_bytes [OF assms] obtain b0 b1 r where "b = b0 # b1 # r" by blast
  then show ?thesis by (simp add: le_PutUint16_def go_nth_def go_upd_def le16_def blit_def)
qed

lemma le_PutUint64_eq:
  assumes "8 \<le> length b" shows "le_PutUint64 b v = Some (blit b 0 (le64 v))"
proof -
  from eight_bytes [OF assms] obtain b0 b1 b2 b3 b4 b5 b6 b7 r
    where "b = b0 # b1 # b2 # b3 # b4 # b5 # b6 # b7 # r" by blast
  then show ?thesis by (simp add: le_PutUint64_def go_nth_def go_upd_def le64_def blit_def)
qed

lemma word16_bytes: "ucast (ucast v :: byte) OR push_bit 8 (ucast (ucast (drop_bit 8 v) :: byte)) = v"
  for v :: u16
  by (rule bit_word_eqI) (auto simp: bit_simps)

lemma le_Uint16_le16 [simp]: "le_Uint16 (le16 v @ rest) = Some v"
  using word16_bytes [of v] by (simp add: le_Uint16_def go_nth_def le16_def)

lemma ucast_ucast_byte: "ucast (ucast v :: byte) = take_bit 8 v" for v :: u64
  by (rule bit_word_eqI) (auto simp: bit_simps)

lemma take_bit_step:
  "take_bit k v OR push_bit k (take_bit 8 (drop_bit k v)) = take_bit (k + 8) v" for v :: u64
  by (rule bit_word_eqI) (auto simp: bit_simps)

lemma take_bit_step_rest:
  "take_bit k v OR push_bit k (take_bit 8 (drop_bit k v)) OR r = take_bit (k + 8) v OR r" for v :: u64
  by (simp add: take_bit_step or.assoc [symmetric])

lemma word64_bytes:
  "ucast (ucast v :: byte) OR push_bit 8 (ucast (ucast (drop_bit 8 v) :: byte)) OR
   push_bit 16 (ucast (ucast (drop_bit 16 v) :: byte)) OR
   push_bit 24 (ucast (ucast (drop_bit 24 v) :: byte)) OR
   push_bit 32 (ucast (ucast (drop_bit 32 v) :: byte)) OR
   push_bit 40 (ucast (ucast (drop_bit 40 v) :: byte)) OR
   push_bit 48 (ucast (ucast (drop_bit 48 v) :: byte)) OR
   push_bit 56 (ucast (ucast (drop_bit 56 v) :: byte)) = v" for v :: u64
  by (simp add: ucast_ucast_byte or.assoc take_bit_step take_bit_step_rest
      del: push_bit_of_0) (simp add: take_bit_word_eq_self)

lemma le_Uint64_le64 [simp]: "le_Uint64 (le64 v @ rest) = Some v"
  using word64_bytes [of v] by (simp add: le_Uint64_def go_nth_def le64_def)

lemma PutUvarint_loop_eq:
  "0 \<le> i \<Longrightarrow> i + int (length (uvarint_bytes x)) \<le> int (length buf) \<Longrightarrow>
   PutUvarint_loop buf i x =
     Some (blit buf (nat i) (uvarint_bytes x), i + int (length (uvarint_bytes x)))"
proof (induction buf i x rule: PutUvarint_loop.induct)
  case (1 buf i x)
  show ?case
  proof (cases "0x80 \<le> x")
    case True
    then have u: "uvarint_bytes x = (ucast x OR 0x80) # uvarint_bytes (drop_bit 7 x)"
      by (simp add: uvarint_bytes.simps [of x])
    let ?b = "buf[nat i := ucast x OR 0x80]"
    have "go_upd buf i (ucast x OR 0x80) = Some ?b"
      using "1.prems" u by (simp add: go_upd_def)
    moreover have "blit ?b (nat (i + 1)) (uvarint_bytes (drop_bit 7 x)) = blit buf (nat i) (uvarint_bytes x)"
      using "1.prems" u by (auto simp: list_eq_iff_nth_eq blit_nth nth_Cons' nat_add_distrib nth_list_update)
    ultimately show ?thesis
      using "1.IH" [OF True, of ?b] "1.prems" True u by (simp add: PutUvarint_loop.simps [of buf i x])
  next
    case False
    then show ?thesis
      using "1.prems"
      by (auto simp: PutUvarint_loop.simps [of buf i x] uvarint_bytes.simps [of x] go_upd_def
          list_eq_iff_nth_eq blit_nth nth_list_update)
  qed
qed

lemma bit_7f [simp]: "bit (127 :: int) n \<longleftrightarrow> n < 7"
proof -
  have "(127 :: int) = mask 7" by (simp add: mask_eq_exp_minus_1)
  then show ?thesis by (simp only: bit_mask_iff) simp
qed

lemma bit_80 [simp]: "bit (128 :: int) n \<longleftrightarrow> n = 7"
proof -
  have "(128 :: int) = 2 ^ 7" by simp
  then show ?thesis by (simp only: bit_exp_iff) auto
qed

lemma low7_cont: "ucast ((ucast y OR 0x80 :: byte) AND 0x7f) = y AND 0x7f" for y :: u64
  by (rule bit_word_eqI) (auto simp: bit_simps)

lemma split7: "push_bit s (y AND 0x7f) OR push_bit (s + 7) (drop_bit 7 y) = push_bit s y" for y :: u64
proof -
  have "(y AND 0x7f) OR push_bit 7 (drop_bit 7 y) = y"
    by (rule bit_word_eqI, auto simp: bit_simps) (metis le_add_diff_inverse not_less)
  then show ?thesis by (metis push_bit_or push_bit_push_bit)
qed

lemma cont_byte_ge: "\<not> (ucast y OR 0x80 :: byte) < 0x80" for y :: u64
proof -
  have "(0x80 :: byte) \<le> ucast y OR 0x80" by (rule le_word_or1)
  then show ?thesis by (simp only: not_less)
qed

lemma unat_ucast_byte: "unat (ucast y :: byte) = unat y mod 256" for y :: u64
  by (simp only: unsigned_ucast_eq unsigned_take_bit_eq) (simp add: take_bit_eq_mod)

lemma last_byte_less:
  fixes y :: u64
  assumes "\<not> 0x80 \<le> y"
  shows "(ucast y :: byte) < 0x80" "ucast (ucast y :: byte) = y"
proof -
  from assms have "unat y < 128" by (simp add: word_le_nat_alt)
  then show "(ucast y :: byte) < 0x80" by (simp add: word_less_nat_alt unat_ucast_byte)
  from \<open>unat y < 128\<close> have "take_bit 8 y = y"
    by (intro word_unat_eq_iff [THEN iffD2])
      (simp only: unsigned_take_bit_eq, simp add: take_bit_eq_mod)
  then show "ucast (ucast y :: byte) = y" by (simp only: ucast_ucast_byte)
qed

lemma Uvarint_loop_bytes:
  assumes "s = 7 * n" "i = int n" "n \<le> 9" "unat y < 2 ^ (64 - 7 * n)"
  shows "Uvarint_loop (uvarint_bytes y @ rest) x s i =
     (x OR push_bit s y, i + int (length (uvarint_bytes y)))"
  using assms
proof (induction y arbitrary: n s i x rule: uvarint_bytes.induct)
  case (1 y)
  show ?case
  proof (cases "0x80 \<le> y")
    case True
    then have "128 \<le> unat y" by (simp add: word_le_nat_alt)
    with "1.prems" have "(2::nat) ^ 7 < 2 ^ (64 - 7 * n)" by simp
    then have n: "7 < 64 - 7 * n" by (rule power_less_imp_less_exp [rotated]) simp
    have "unat (drop_bit 7 y) < 2 ^ (64 - 7 * (n + 1))"
    proof -
      have "(2::nat) ^ (64 - 7 * n) = 2 ^ (64 - 7 * (n + 1)) * 2 ^ 7"
        using n by (subst power_add [symmetric]) (rule arg_cong [where f = "power 2"], simp)
      with "1.prems"(4) show ?thesis
        by (simp add: drop_bit_eq_div unat_div less_mult_imp_div_less)
    qed
    moreover have "n + 1 \<le> 9" using n by simp
    ultimately show ?thesis
      using "1.IH" [OF True, of "s + 7" "n + 1" "i + 1" "x OR push_bit s (y AND 0x7f)"] "1.prems" True
        split7 [of s y]
      by (simp add: uvarint_bytes.simps [of y] cont_byte_ge low7_cont or.assoc)
  next
    case False
    have "\<not> (n = 9 \<and> (ucast y :: byte) > 1)"
    proof
      assume a: "n = 9 \<and> (ucast y :: byte) > 1"
      with "1.prems" have "unat y < 2" by simp
      moreover from a have "1 < unat (ucast y :: byte)" by (simp add: word_less_nat_alt)
      ultimately show False by (simp add: unat_ucast_byte)
    qed
    with False "1.prems" last_byte_less [OF False] show ?thesis
      by (auto simp: uvarint_bytes.simps [of y])
  qed
qed

lemma unat_drop_bit_7: "unat (drop_bit 7 x) = unat x div 128" for x :: u64
  by (simp add: drop_bit_eq_div unat_div)

lemma length_uvarint_bytes_rec:
  "length (uvarint_bytes x) =
     (if unat x < 128 then 1 else Suc (length (uvarint_bytes (drop_bit 7 x))))"
  by (subst uvarint_bytes.simps) (simp add: word_le_nat_alt)

lemma length_uvarint_bytes:
  assumes "unat x < 2 ^ 32"
  shows "length (uvarint_bytes x) =
    (if unat x < 128 then 1 else if unat x < 16384 then 2 else if unat x < 2097152 then 3
     else if unat x < 268435456 then 4 else 5)"
  using assms
  by (simp add: length_uvarint_bytes_rec [of x] length_uvarint_bytes_rec [of "drop_bit 7 x"]
      length_uvarint_bytes_rec [of "drop_bit 7 (drop_bit 7 x)"]
      length_uvarint_bytes_rec [of "drop_bit 7 (drop_bit 7 (drop_bit 7 x))"]
      length_uvarint_bytes_rec [of "drop_bit 7 (drop_bit 7 (drop_bit 7 (drop_bit 7 x)))"]
      unat_drop_bit_7 div_less_iff_less_mult del: drop_bit_drop_bit)

lemma uvarint_bytes_nonempty [simp]: "uvarint_bytes x \<noteq> []"
  by (subst uvarint_bytes.simps) simp

lemma PutUvarint_eq:
  "length (uvarint_bytes x) \<le> length buf \<Longrightarrow>
   PutUvarint buf x = Some (blit buf 0 (uvarint_bytes x), int (length (uvarint_bytes x)))"
  by (simp add: PutUvarint_def PutUvarint_loop_eq)

lemma Uvarint_roundtrip:
  "Uvarint (uvarint_bytes y @ rest) = (y, int (length (uvarint_bytes y)))"
  using Uvarint_loop_bytes [of 0 0 0 y rest 0] unsigned_less [of y] by (simp add: Uvarint_def)

end
