(* ===== verification/Bytes_Queue.thy ===== *)
theory Bytes_Queue
  imports Go_Binary "HOL-Library.Multiset"
begin

text \<open>
  \<open>bigcache/queue/bytes_queue.go\<close>: the byte FIFO behind a cache shard. Entries are
  stored in one byte array, each preceded by its length as a varint; \<open>Push\<close> returns the
  index of the new entry, which the shard keeps and later passes to \<open>Get\<close>. The array is
  used as a ring (the free space before \<open>head\<close> is reused) and is reallocated when it is
  too small.

  The theory holds the operations as in the source, the representation relation
  \<open>bq_rep\<close> between a queue and the list of its entries with their indices, and the
  refinement lemmas: every operation acts on that list as a queue does, and every index
  handed out stays valid until its entry is popped.
\<close>

section \<open>Data\<close>

record bytes_queue =
  bq_full :: bool
  bq_array :: bytes
  bq_capacity :: int
  bq_maxCapacity :: int
  bq_head :: int
  bq_tail :: int
  bq_count :: int
  bq_rightMargin :: int
  bq_headerBuffer :: bytes
  bq_verbose :: bool

datatype queue_error =
    ErrEmptyQueue
  | ErrInvalidIndex
  | ErrIndexOutOfBounds
  | ErrFullQueue

abbreviation (input) minimumHeaderSize :: int where "minimumHeaderSize \<equiv> 17"
abbreviation (input) leftMarginIndex :: int where "leftMarginIndex \<equiv> 1"
abbreviation (input) MaxVarintLen32 :: int where "MaxVarintLen32 \<equiv> 5"

section \<open>Operations\<close>

definition getUvarintSize :: "u32 \<Rightarrow> int" where
  "getUvarintSize x =
     (if x < 128 then 1 else if x < 16384 then 2 else if x < 2097152 then 3
      else if x < 268435456 then 4 else 5)"

definition NewBytesQueue :: "int \<Rightarrow> int \<Rightarrow> bool \<Rightarrow> bytes_queue option" where
  "NewBytesQueue capacity maxCapacity verbose = do {
     arr \<leftarrow> go_make 0 capacity;
     hb \<leftarrow> go_make 0 MaxVarintLen32;
     Some \<lparr>bq_full = False, bq_array = arr, bq_capacity = capacity, bq_maxCapacity = maxCapacity,
       bq_head = leftMarginIndex, bq_tail = leftMarginIndex, bq_count = 0,
       bq_rightMargin = leftMarginIndex, bq_headerBuffer = hb, bq_verbose = verbose\<rparr>
   }"

definition bq_Reset :: "bytes_queue \<Rightarrow> bytes_queue" where
  "bq_Reset q = q\<lparr>bq_tail := leftMarginIndex, bq_head := leftMarginIndex,
     bq_rightMargin := leftMarginIndex, bq_count := 0, bq_full := False\<rparr>"

definition bq_copy :: "bytes_queue \<Rightarrow> bytes \<Rightarrow> int \<Rightarrow> bytes_queue option" where
  "bq_copy q data len = do {
     src \<leftarrow> go_slice data 0 len;
     (arr, n) \<leftarrow> go_copy (bq_array q) (bq_tail q) src;
     Some (q\<lparr>bq_array := arr, bq_tail := bq_tail q + n\<rparr>)
   }"

definition bq_push :: "bytes_queue \<Rightarrow> bytes \<Rightarrow> int \<Rightarrow> bytes_queue option" where
  "bq_push q data len = do {
     (hb, headerEntrySize) \<leftarrow> PutUvarint (bq_headerBuffer q) (word_of_int len);
     q \<leftarrow> bq_copy (q\<lparr>bq_headerBuffer := hb\<rparr>) hb headerEntrySize;
     q \<leftarrow> bq_copy q data len;
     let q = (if bq_tail q > bq_head q then q\<lparr>bq_rightMargin := bq_tail q\<rparr> else q);
         q = (if bq_tail q = bq_head q then q\<lparr>bq_full := True\<rparr> else q)
     in Some (q\<lparr>bq_count := bq_count q + 1\<rparr>)
   }"

definition canInsertAfterTail :: "bytes_queue \<Rightarrow> int \<Rightarrow> bool" where
  "canInsertAfterTail q need =
     (if bq_full q then False
      else if bq_tail q \<ge> bq_head q then bq_capacity q - bq_tail q \<ge> need
      else bq_head q - bq_tail q = need \<or> bq_head q - bq_tail q \<ge> need + minimumHeaderSize)"

definition canInsertBeforeHead :: "bytes_queue \<Rightarrow> int \<Rightarrow> bool" where
  "canInsertBeforeHead q need =
     (if bq_full q then False
      else if bq_tail q \<ge> bq_head q
        then bq_head q - leftMarginIndex = need \<or>
             bq_head q - leftMarginIndex \<ge> need + minimumHeaderSize
      else bq_head q - bq_tail q = need \<or> bq_head q - bq_tail q \<ge> need + minimumHeaderSize)"

text \<open>The new capacity computed by \<open>allocateAdditionalMemory\<close>.\<close>

definition grownCapacity :: "bytes_queue \<Rightarrow> int \<Rightarrow> int" where
  "grownCapacity q minimum =
     (let c = (if bq_capacity q < minimum then bq_capacity q + minimum else bq_capacity q);
          c = c * 2
      in if c > bq_maxCapacity q \<and> bq_maxCapacity q > 0 then bq_maxCapacity q else c)"

definition allocateAdditionalMemory :: "bytes_queue \<Rightarrow> int \<Rightarrow> bytes_queue option" where
  "allocateAdditionalMemory q minimum = do {
     let oldArray = bq_array q;
     let q = q\<lparr>bq_capacity := grownCapacity q minimum\<rparr>;
     arr \<leftarrow> go_make 0 (bq_capacity q);
     let q = q\<lparr>bq_array := arr\<rparr>;
     q \<leftarrow> (if leftMarginIndex \<noteq> bq_rightMargin q then do {
         old \<leftarrow> go_slice oldArray 0 (bq_rightMargin q);
         (arr, _) \<leftarrow> go_copy (bq_array q) 0 old;
         let q = q\<lparr>bq_array := arr\<rparr>;
         if bq_tail q \<le> bq_head q then do {
           q \<leftarrow> (if bq_tail q \<noteq> bq_head q then do {
               let headerEntrySize = getUvarintSize (word_of_int (bq_head q - bq_tail q));
               let emptyBlobLen = bq_head q - bq_tail q - headerEntrySize;
               blob \<leftarrow> go_make 0 emptyBlobLen;
               bq_push q blob emptyBlobLen
             } else Some q);
           Some (q\<lparr>bq_head := leftMarginIndex, bq_tail := bq_rightMargin q\<rparr>)
         } else Some q
       } else Some q);
     Some (q\<lparr>bq_full := False\<rparr>)
   }"

definition bq_Push :: "bytes_queue \<Rightarrow> bytes \<Rightarrow> ((queue_error + int) \<times> bytes_queue) option" where
  "bq_Push q data = do {
     let dataLen = int (length data);
     let headerEntrySize = getUvarintSize (word_of_int dataLen);
     r \<leftarrow> (if \<not> canInsertAfterTail q (dataLen + headerEntrySize) then
         if canInsertBeforeHead q (dataLen + headerEntrySize)
         then Some (Inr (q\<lparr>bq_tail := leftMarginIndex\<rparr>))
         else if bq_capacity q + headerEntrySize + dataLen \<ge> bq_maxCapacity q \<and> bq_maxCapacity q > 0
         then Some (Inl ErrFullQueue)
         else map_option Inr (allocateAdditionalMemory q (dataLen + headerEntrySize))
       else Some (Inr q));
     case r of
       Inl e \<Rightarrow> Some (Inl e, q)
     | Inr q \<Rightarrow> do {
         let index = bq_tail q;
         q \<leftarrow> bq_push q data dataLen;
         Some (Inr index, q)
       }
   }"

definition peekCheckErr :: "bytes_queue \<Rightarrow> int \<Rightarrow> queue_error option" where
  "peekCheckErr q index =
     (if bq_count q = 0 then Some ErrEmptyQueue
      else if index \<le> 0 then Some ErrInvalidIndex
      else if index \<ge> int (length (bq_array q)) then Some ErrIndexOutOfBounds
      else None)"

text \<open>
  The returned slice aliases the array: it is the region of the array that starts at
  \<open>index + n\<close>, where \<open>n\<close> is the second component of the result.
\<close>

definition bq_peek :: "bytes_queue \<Rightarrow> int \<Rightarrow> (queue_error + bytes \<times> int) option" where
  "bq_peek q index =
     (case peekCheckErr q index of
        Some e \<Rightarrow> Some (Inl e)
      | None \<Rightarrow> do {
          src \<leftarrow> go_slice (bq_array q) index (int (length (bq_array q)));
          let (blockSize, n) = Uvarint src;
          data \<leftarrow> go_slice (bq_array q) (index + n) (index + n + sint blockSize);
          Some (Inr (data, n))
        })"

definition bq_Pop :: "bytes_queue \<Rightarrow> ((queue_error + bytes) \<times> bytes_queue) option" where
  "bq_Pop q = do {
     r \<leftarrow> bq_peek q (bq_head q);
     case r of
       Inl e \<Rightarrow> Some (Inl e, q)
     | Inr (data, headerEntrySize) \<Rightarrow>
         let size = int (length data);
             q = q\<lparr>bq_head := bq_head q + (headerEntrySize + size), bq_count := bq_count q - 1\<rparr>;
             q = (if bq_head q = bq_rightMargin q then
                    let q = q\<lparr>bq_head := leftMarginIndex\<rparr>;
                        q = (if bq_tail q = bq_rightMargin q then q\<lparr>bq_tail := leftMarginIndex\<rparr> else q)
                    in q\<lparr>bq_rightMargin := bq_tail q\<rparr>
                  else q)
         in Some (Inr data, q\<lparr>bq_full := False\<rparr>)
   }"

definition bq_Peek :: "bytes_queue \<Rightarrow> (queue_error + bytes) option" where
  "bq_Peek q = map_option (map_sum id fst) (bq_peek q (bq_head q))"

definition bq_Get :: "bytes_queue \<Rightarrow> int \<Rightarrow> (queue_error + bytes) option" where
  "bq_Get q index = map_option (map_sum id fst) (bq_peek q index)"

definition bq_CheckGet :: "bytes_queue \<Rightarrow> int \<Rightarrow> queue_error option" where
  "bq_CheckGet q index = peekCheckErr q index"

definition bq_Capacity :: "bytes_queue \<Rightarrow> int" where
  "bq_Capacity q = bq_capacity q"

definition bq_Len :: "bytes_queue \<Rightarrow> int" where
  "bq_Len q = bq_count q"

section \<open>Representation\<close>

text \<open>The bytes of an entry: its length as a varint, then its data.\<close>

definition enc :: "bytes \<Rightarrow> bytes" where
  "enc d = uvarint_bytes (of_nat (length d)) @ d"

definition small :: "bytes \<Rightarrow> bool" where
  "small d \<longleftrightarrow> length d < 2 ^ 32"

text \<open>\<open>chain i ps j\<close>: the entries \<open>ps\<close>, given with their indices, fill the range from \<open>i\<close> to \<open>j\<close>.\<close>

fun chain :: "int \<Rightarrow> (int \<times> bytes) list \<Rightarrow> int \<Rightarrow> bool" where
  "chain i [] j \<longleftrightarrow> i = j"
| "chain i ((k, d) # ps) j \<longleftrightarrow> k = i \<and> chain (i + int (length (enc d))) ps j"

definition stored :: "bytes \<Rightarrow> (int \<times> bytes) list \<Rightarrow> bool" where
  "stored arr ps \<longleftrightarrow> (\<forall>(k, d) \<in> set ps. 1 \<le> k \<and> small d \<and> sits arr k (enc d))"

definition bq_base :: "bytes_queue \<Rightarrow> (int \<times> bytes) list \<Rightarrow> bool" where
  "bq_base q ps \<longleftrightarrow> int (length (bq_array q)) = bq_capacity q \<and>
     length (bq_headerBuffer q) = 5 \<and> bq_count q = int (length ps) \<and> stored (bq_array q) ps"

definition bq_unwrapped :: "bytes_queue \<Rightarrow> (int \<times> bytes) list \<Rightarrow> bool" where
  "bq_unwrapped q ps \<longleftrightarrow> \<not> bq_full q \<and> 1 \<le> bq_head q \<and> chain (bq_head q) ps (bq_tail q) \<and>
     bq_rightMargin q = bq_tail q \<and> (ps = [] \<longrightarrow> bq_head q = 1)"

definition bq_wrapped :: "bytes_queue \<Rightarrow> (int \<times> bytes) list \<Rightarrow> (int \<times> bytes) list \<Rightarrow> bool" where
  "bq_wrapped q olds news \<longleftrightarrow> olds \<noteq> [] \<and> news \<noteq> [] \<and> chain 1 news (bq_tail q) \<and>
     bq_tail q \<le> bq_head q \<and> chain (bq_head q) olds (bq_rightMargin q) \<and>
     (bq_full q \<longleftrightarrow> bq_tail q = bq_head q)"

definition bq_rep :: "bytes_queue \<Rightarrow> (int \<times> bytes) list \<Rightarrow> bool" where
  "bq_rep q ps \<longleftrightarrow> bq_base q ps \<and>
     (bq_unwrapped q ps \<or> (\<exists>olds news. ps = olds @ news \<and> bq_wrapped q olds news))"

text \<open>
  What a reallocation may do to the sequence of entries: a wrapped queue is unrolled, so
  that the newer entries, which lie in front of the older ones in the array, come first,
  with a blank entry in the gap between them.
\<close>

definition blank_len :: "int \<Rightarrow> int" where
  "blank_len g = g - getUvarintSize (word_of_int g)"

definition realloc_spec ::
  "bytes_queue \<Rightarrow> (int \<times> bytes) list \<Rightarrow> (int \<times> bytes) list \<Rightarrow> bool" where
  "realloc_spec q ps ps' \<longleftrightarrow> ps' = ps \<or>
     (\<exists>olds news gap. ps = olds @ news \<and> ps' = news @ gap @ olds \<and>
        (gap = [] \<or> bq_tail q < bq_head q \<and>
           gap = [(bq_tail q, replicate (nat (blank_len (bq_head q - bq_tail q))) 0)]))"

text \<open>The sequence after a reallocation: of a wrapped queue, first the entries below \<open>tail\<close>, then the blank entry, then those from \<open>head\<close> on.\<close>

definition gap_entry :: "bytes_queue \<Rightarrow> (int \<times> bytes) list" where
  "gap_entry q = (if bq_tail q < bq_head q then [(bq_tail q, replicate (nat (blank_len (bq_head q - bq_tail q))) 0)] else [])"

definition unrolled :: "bytes_queue \<Rightarrow> (int \<times> bytes) list \<Rightarrow> (int \<times> bytes) list" where
  "unrolled q ps =
     (if bq_head q < bq_tail q then ps
      else filter (\<lambda>(k, d). k < bq_tail q) ps @ gap_entry q @ filter (\<lambda>(k, d). bq_head q \<le> k) ps)"

text \<open>The space between \<open>tail\<close> and \<open>head\<close> of a wrapped queue is empty or holds a header.\<close>

definition bq_gap :: "bytes_queue \<Rightarrow> bool" where
  "bq_gap q \<longleftrightarrow> (bq_tail q < bq_head q \<longrightarrow> minimumHeaderSize \<le> bq_head q - bq_tail q)"

text \<open>
  The gap between \<open>tail\<close> and \<open>head\<close> of a wrapped queue can be filled by one blank entry:
  the varint of the blank entry's length is as long as the varint of the gap.
\<close>

definition gap_ok :: "int \<Rightarrow> bool" where
  "gap_ok g \<longleftrightarrow>
     getUvarintSize (word_of_int (blank_len g)) = getUvarintSize (word_of_int g)"

definition realloc_ok :: "bytes_queue \<Rightarrow> bool" where
  "realloc_ok q \<longleftrightarrow> (bq_tail q < bq_head q \<longrightarrow>
     bq_head q - bq_tail q < 2 ^ 32 \<and> gap_ok (bq_head q - bq_tail q))"

section \<open>Lemmas on the encoding\<close>

lemma unat_of_nat_small: "small d \<Longrightarrow> unat (of_nat (length d) :: u64) = length d"
  by (simp add: small_def unat_of_nat_word)

lemma getUvarintSize_eq:
  assumes "n < 2 ^ 32"
  shows "getUvarintSize (word_of_int (int n)) = int (length (uvarint_bytes (of_nat n)))"
proof -
  have "unat (of_nat n :: u32) = n" "unat (of_nat n :: u64) = n"
    using assms by (auto simp: unat_of_nat_word)
  with assms show ?thesis
    by (auto simp: getUvarintSize_def length_uvarint_bytes word_less_nat_alt)
qed

lemma length_enc: "length (enc d) = length (uvarint_bytes (of_nat (length d))) + length d"
  by (simp add: enc_def)

lemma enc_nonempty [simp]: "enc d \<noteq> []"
  by (simp add: enc_def)

lemma length_enc_pos: "0 < length (enc d)"
  by (simp add: enc_def)

lemma need_eq:
  "small d \<Longrightarrow> int (length d) + getUvarintSize (word_of_int (int (length d))) = int (length (enc d))"
  using getUvarintSize_eq [of "length d"] by (simp add: small_def length_enc del: of_int_of_nat_eq)

lemma header_length: "small d \<Longrightarrow> length (uvarint_bytes (of_nat (length d))) \<le> 5"
  using length_uvarint_bytes [of "of_nat (length d)"] by (simp add: unat_of_nat_small small_def)

section \<open>Lemmas on chains\<close>

lemma chain_le: "chain i ps j \<Longrightarrow> i \<le> j"
  by (induction i ps j rule: chain.induct) auto

lemma chain_less:
  assumes "chain i ps j" "ps \<noteq> []" shows "i < j"
proof -
  from assms obtain d ps' where "chain (i + int (length (enc d))) ps' j" by (cases ps) auto
  from chain_le [OF this] length_enc_pos [of d] show ?thesis by linarith
qed

lemma chain_bounds: "chain i ps j \<Longrightarrow> (k, d) \<in> set ps \<Longrightarrow> i \<le> k \<and> k + int (length (enc d)) \<le> j"
proof (induction i ps j rule: chain.induct)
  case (2 i k' d' ps j)
  then have "chain (i + int (length (enc d'))) ps j" by simp
  with 2 chain_le [OF this] show ?case by force
qed simp

lemma chain_append: "chain i (ps @ qs) j \<longleftrightarrow> (\<exists>m. chain i ps m \<and> chain m qs j)"
  by (induction ps arbitrary: i) (auto simp: split_paired_all)

lemma chain_snoc: "chain i ps j \<Longrightarrow> chain i (ps @ [(j, d)]) (j + int (length (enc d)))"
  by (auto simp: chain_append)

lemma stored_append [simp]: "stored arr (ps @ qs) \<longleftrightarrow> stored arr ps \<and> stored arr qs"
  by (auto simp: stored_def)

lemma stored_Nil [simp]: "stored arr []"
  by (simp add: stored_def)

lemma stored_Cons [simp]:
  "stored arr ((k, d) # ps) \<longleftrightarrow> 1 \<le> k \<and> small d \<and> sits arr k (enc d) \<and> stored arr ps"
  by (auto simp: stored_def)

lemma stored_blit_after:
  assumes "stored arr ps" "chain i ps j" "j \<le> t" "0 \<le> t" "t \<le> int (length arr)"
  shows "stored (blit arr (nat t) bs) ps"
  using assms chain_bounds [OF assms(2)] unfolding stored_def
  by (fastforce intro!: sits_blit_other)

lemma stored_blit_before:
  assumes "stored arr ps" "chain i ps j" "t + int (length bs) \<le> i" "0 \<le> t"
    "t \<le> int (length arr)"
  shows "stored (blit arr (nat t) bs) ps"
  using assms chain_bounds [OF assms(2)] unfolding stored_def
  by (fastforce intro!: sits_blit_other)

lemma stored_blit_prefix:
  assumes "stored arr ps" "chain i ps j" "j \<le> int n" "n \<le> length arr" "n \<le> length b"
  shows "stored (blit b 0 (take n arr)) ps"
  using assms chain_bounds [OF assms(2)] unfolding stored_def
  by (fastforce intro!: sits_blit_prefix)

lemma stored_bound: "stored arr ps \<Longrightarrow> chain i ps j \<Longrightarrow> ps \<noteq> [] \<Longrightarrow> j \<le> int (length arr)"
proof (induction i ps j rule: chain.induct)
  case (2 i k d ps j)
  then show ?case by (cases "ps = []") (auto dest: sits_bounds)
qed simp

section \<open>The steps of \<open>Push\<close>\<close>

lemma bq_copy_eq:
  assumes "0 \<le> bq_tail q" "0 \<le> len" "len \<le> int (length data)"
    "bq_tail q + len \<le> int (length (bq_array q))"
  shows "bq_copy q data len = Some (q\<lparr>bq_array := blit (bq_array q) (nat (bq_tail q)) (take (nat len) data),
    bq_tail := bq_tail q + len\<rparr>)"
  using assms by (auto simp: bq_copy_def go_slice_def go_copy_def)

lemma bq_push_eq:
  assumes "small d" "length (bq_headerBuffer q) = 5" "0 \<le> bq_tail q"
    "bq_tail q + int (length (enc d)) \<le> int (length (bq_array q))"
  shows "bq_push q d (int (length d)) =
    (let t = bq_tail q + int (length (enc d)) in
     Some (q\<lparr>bq_array := blit (bq_array q) (nat (bq_tail q)) (enc d), bq_tail := t,
       bq_headerBuffer := blit (bq_headerBuffer q) 0 (uvarint_bytes (of_nat (length d))),
       bq_rightMargin := (if t > bq_head q then t else bq_rightMargin q),
       bq_full := (t = bq_head q \<or> bq_full q), bq_count := bq_count q + 1\<rparr>))"
proof -
  let ?u = "uvarint_bytes (of_nat (length d))"
  have p: "PutUvarint (bq_headerBuffer q) (of_nat (length d)) =
      Some (blit (bq_headerBuffer q) 0 ?u, int (length ?u))"
    using header_length [OF assms(1)] assms(2) by (simp add: PutUvarint_eq)
  have t: "take (length ?u) (blit (bq_headerBuffer q) 0 ?u) = ?u"
    using header_length [OF assms(1)] assms(2) by (simp add: blit_def)
  have b: "blit (blit (bq_array q) (nat (bq_tail q)) ?u) (nat (bq_tail q + int (length ?u))) d
      = blit (bq_array q) (nat (bq_tail q)) (enc d)"
    using blit_blit_append [of "nat (bq_tail q)" ?u d "bq_array q"] assms(3,4)
    by (simp add: enc_def nat_add_distrib length_enc)
  show ?thesis
    using assms header_length [OF assms(1)]
    by (simp add: bq_push_def p bq_copy_eq t b length_enc Let_def)
qed

lemma base_bound: "bq_base q ps \<Longrightarrow> chain i ps j \<Longrightarrow> ps \<noteq> [] \<Longrightarrow> j \<le> bq_capacity q"
  using stored_bound [of "bq_array q" ps i j] by (auto simp: bq_base_def)

lemma unwrapped_bounds:
  assumes "bq_base q ps" "bq_unwrapped q ps"
  shows "1 \<le> bq_head q" "bq_head q \<le> bq_tail q" "bq_tail q \<le> max 1 (bq_capacity q)"
proof -
  show "1 \<le> bq_head q" using assms by (simp add: bq_unwrapped_def)
  show "bq_head q \<le> bq_tail q" using assms by (auto simp: bq_unwrapped_def dest: chain_le)
  show "bq_tail q \<le> max 1 (bq_capacity q)"
  proof (cases "ps = []")
    case True
    with assms show ?thesis by (auto simp: bq_unwrapped_def)
  next
    case False
    with assms have "bq_tail q \<le> bq_capacity q"
      by (auto simp: bq_unwrapped_def intro: base_bound)
    then show ?thesis by simp
  qed
qed

lemma unwrapped_gap: "bq_base q ps \<Longrightarrow> bq_unwrapped q ps \<Longrightarrow> bq_gap q"
  using unwrapped_bounds(2) [of q ps] by (simp add: bq_gap_def)

lemma wrapped_bounds:
  assumes "bq_base q (olds @ news)" "bq_wrapped q olds news"
  shows "1 < bq_tail q" "bq_tail q \<le> bq_head q" "bq_head q < bq_rightMargin q"
    "bq_rightMargin q \<le> bq_capacity q"
  using assms by (auto simp: bq_wrapped_def bq_base_def intro: chain_less dest: stored_bound)

lemma push_unwrapped:
  assumes "bq_base q ps" "bq_unwrapped q ps" "small d"
    "bq_tail q + int (length (enc d)) \<le> bq_capacity q"
  shows "\<exists>q'. bq_push q d (int (length d)) = Some q' \<and> bq_base q' (ps @ [(bq_tail q, d)]) \<and>
    bq_unwrapped q' (ps @ [(bq_tail q, d)]) \<and> bq_capacity q' = bq_capacity q"
proof -
  note b = unwrapped_bounds [OF assms(1,2)]
  have len: "0 < int (length (enc d))" by simp
  have L: "length (blit (bq_array q) (nat (bq_tail q)) (enc d)) = length (bq_array q)"
    using assms b len by (intro length_blit) (auto simp: bq_base_def)
  have ch: "chain (bq_head q) ps (bq_tail q)" using assms(2) by (simp add: bq_unwrapped_def)
  have "stored (blit (bq_array q) (nat (bq_tail q)) (enc d)) ps"
    using assms b ch len by (intro stored_blit_after [OF _ ch]) (auto simp: bq_base_def)
  moreover have "sits (blit (bq_array q) (nat (bq_tail q)) (enc d)) (bq_tail q) (enc d)"
    using assms b by (intro sits_blit_same) (auto simp: bq_base_def)
  moreover have "bq_head q < bq_tail q + int (length (enc d))"
    using b len by linarith
  ultimately show ?thesis
    using assms b chain_snoc [OF ch, of d] L
    by (auto simp: bq_push_eq bq_base_def bq_unwrapped_def Let_def)
qed

lemma push_wrapped:
  assumes "bq_base q (olds @ news)" "bq_wrapped q olds news" "small d"
    "bq_tail q + int (length (enc d)) \<le> bq_head q"
  shows "\<exists>q'. bq_push q d (int (length d)) = Some q' \<and>
    bq_base q' (olds @ news @ [(bq_tail q, d)]) \<and> bq_wrapped q' olds (news @ [(bq_tail q, d)]) \<and>
    bq_capacity q' = bq_capacity q \<and> bq_head q' = bq_head q \<and> bq_rightMargin q' = bq_rightMargin q \<and>
    bq_tail q' = bq_tail q + int (length (enc d)) \<and> bq_maxCapacity q' = bq_maxCapacity q"
proof -
  note b = wrapped_bounds [OF assms(1,2)]
  have len: "0 < int (length (enc d))" by simp
  have L: "length (blit (bq_array q) (nat (bq_tail q)) (enc d)) = length (bq_array q)"
    using assms b len by (intro length_blit) (auto simp: bq_base_def)
  have nf: "\<not> bq_full q" using assms(2,4) len by (auto simp: bq_wrapped_def)
  have c1: "chain 1 news (bq_tail q)" and c2: "chain (bq_head q) olds (bq_rightMargin q)"
    using assms(2) by (auto simp: bq_wrapped_def)
  have "stored (blit (bq_array q) (nat (bq_tail q)) (enc d)) news"
    using assms b by (intro stored_blit_after [OF _ c1]) (auto simp: bq_base_def)
  moreover have "stored (blit (bq_array q) (nat (bq_tail q)) (enc d)) olds"
    using assms b by (intro stored_blit_before [OF _ c2]) (auto simp: bq_base_def)
  moreover have "sits (blit (bq_array q) (nat (bq_tail q)) (enc d)) (bq_tail q) (enc d)"
    using assms b by (intro sits_blit_same) (auto simp: bq_base_def)
  ultimately show ?thesis
    using assms b nf chain_snoc [OF c1, of d] L
    by (simp add: bq_push_eq bq_base_def bq_wrapped_def Let_def)
qed

lemma push_wrap:
  assumes "bq_base q ps" "bq_unwrapped q ps" "small d" "1 + int (length (enc d)) \<le> bq_head q"
  shows "\<exists>q'. bq_push (q\<lparr>bq_tail := 1\<rparr>) d (int (length d)) = Some q' \<and>
    bq_base q' (ps @ [(1, d)]) \<and> bq_wrapped q' ps [(1, d)] \<and>
    bq_head q' = bq_head q \<and> bq_tail q' = 1 + int (length (enc d))"
proof -
  note b = unwrapped_bounds [OF assms(1,2)]
  have ne: "ps \<noteq> []" using assms(2,4) by (auto simp: bq_unwrapped_def)
  have ch: "chain (bq_head q) ps (bq_tail q)" using assms(2) by (simp add: bq_unwrapped_def)
  have len: "bq_tail q \<le> int (length (bq_array q))"
    using base_bound [OF assms(1) ch ne] assms(1) by (simp add: bq_base_def)
  have "stored (blit (bq_array q) 1 (enc d)) ps"
    using stored_blit_before [OF _ ch, of "bq_array q" 1 "enc d"] assms b len by (auto simp: bq_base_def)
  moreover have "sits (blit (bq_array q) 1 (enc d)) 1 (enc d)"
    using sits_blit_same [of 1 "enc d" "bq_array q"] assms b len by simp
  ultimately show ?thesis
    using assms b len ne ch
    by (auto simp: bq_push_eq bq_base_def bq_wrapped_def bq_unwrapped_def Let_def)
qed

section \<open>Reallocation\<close>

lemma gap_blob:
  assumes "0 < g" "g < 2 ^ 32" "gap_ok g"
  defines "n \<equiv> blank_len g"
  shows "0 \<le> n" "int (length (enc (replicate (nat n) 0))) = g" "small (replicate (nat n) 0)"
proof -
  have u: "unat (word_of_int g :: u32) = nat g"
    using assms(1,2) unat_of_nat_word [of "nat g", where 'a = 32] by simp
  show n: "0 \<le> n"
    using assms(1) by (auto simp: n_def blank_len_def getUvarintSize_def word_less_nat_alt u)
  have pos: "0 < getUvarintSize (word_of_int g)" by (simp add: getUvarintSize_def)
  with assms(2) n show "small (replicate (nat n) 0)" by (simp add: small_def n_def blank_len_def)
  then have "int (length (enc (replicate (nat n) 0))) = n + getUvarintSize (word_of_int n)"
    using need_eq [of "replicate (nat n) 0"] n by simp
  also have "getUvarintSize (word_of_int n) = getUvarintSize (word_of_int g)"
    using assms(3) by (simp add: gap_ok_def n_def)
  finally show "int (length (enc (replicate (nat n) 0))) = g" by (simp add: n_def blank_len_def)
qed

lemma rewind:
  assumes "bq_base q (olds @ news)" "bq_wrapped q olds news" "bq_tail q = bq_head q"
  shows "bq_base (q\<lparr>bq_head := 1, bq_tail := bq_rightMargin q, bq_full := False\<rparr>) (news @ olds)"
    "bq_unwrapped (q\<lparr>bq_head := 1, bq_tail := bq_rightMargin q, bq_full := False\<rparr>) (news @ olds)"
  using assms by (auto simp: bq_base_def bq_unwrapped_def bq_wrapped_def chain_append)

lemma copied_base:
  assumes "bq_base q ps" "bq_capacity q \<le> c"
    "\<And>k d. (k, d) \<in> set ps \<Longrightarrow> k + int (length (enc d)) \<le> bq_rightMargin q"
    "0 \<le> bq_rightMargin q" "bq_rightMargin q \<le> bq_capacity q"
  shows "bq_base (q\<lparr>bq_capacity := c,
    bq_array := blit (replicate (nat c) 0) 0 (take (nat (bq_rightMargin q)) (bq_array q))\<rparr>) ps"
  using assms unfolding bq_base_def stored_def
  by (fastforce intro!: sits_blit_prefix)

lemma allocate_unwrapped:
  assumes "bq_base q ps" "bq_unwrapped q ps" "bq_capacity q \<le> grownCapacity q m"
  shows "\<exists>q'. allocateAdditionalMemory q m = Some q' \<and> bq_base q' ps \<and> bq_unwrapped q' ps \<and>
    bq_capacity q' = grownCapacity q m \<and> bq_tail q' = bq_tail q"
proof (cases "ps = []")
  case True
  with assms show ?thesis
    by (auto simp: allocateAdditionalMemory_def bq_base_def bq_unwrapped_def go_make_def)
next
  case False
  note b = unwrapped_bounds [OF assms(1,2)]
  have ch: "chain (bq_head q) ps (bq_tail q)" and r: "bq_rightMargin q = bq_tail q"
    using assms(2) by (auto simp: bq_unwrapped_def)
  note ht = chain_less [OF ch False] and tc = base_bound [OF assms(1) ch False]
  have "int (length (bq_array q)) = bq_capacity q" using assms(1) by (simp add: bq_base_def)
  moreover have "bq_base (q\<lparr>bq_capacity := grownCapacity q m, bq_array :=
      blit (replicate (nat (grownCapacity q m)) 0) 0 (take (nat (bq_rightMargin q)) (bq_array q))\<rparr>) ps"
    using chain_bounds [OF ch] r b tc by (intro copied_base assms) auto
  ultimately show ?thesis
    using assms b ht tc r
    by (simp add: allocateAdditionalMemory_def go_make_def go_slice_def go_copy_def
        bq_base_def bq_unwrapped_def)
qed

lemma allocate_wrapped:
  assumes base: "bq_base q (olds @ news)" and wr: "bq_wrapped q olds news"
    and c: "bq_capacity q \<le> grownCapacity q m" and ok: "realloc_ok q"
  shows "\<exists>q' gap. allocateAdditionalMemory q m = Some q' \<and> bq_base q' (news @ gap @ olds) \<and>
    bq_unwrapped q' (news @ gap @ olds) \<and> bq_capacity q' = grownCapacity q m \<and>
    bq_tail q' = bq_rightMargin q \<and> gap = gap_entry q"
proof -
  note b = wrapped_bounds [OF base wr]
  have c1: "chain 1 news (bq_tail q)" and c2: "chain (bq_head q) olds (bq_rightMargin q)"
    using wr by (auto simp: bq_wrapped_def)
  have la: "int (length (bq_array q)) = bq_capacity q" using base by (simp add: bq_base_def)
  let ?q = "q\<lparr>bq_capacity := grownCapacity q m, bq_array :=
      blit (replicate (nat (grownCapacity q m)) 0) 0 (take (nat (bq_rightMargin q)) (bq_array q))\<rparr>"
  have base': "bq_base ?q (olds @ news)"
  proof (rule copied_base [OF base c])
    fix k d assume "(k, d) \<in> set (olds @ news)"
    then show "k + int (length (enc d)) \<le> bq_rightMargin q"
      using chain_bounds [OF c1, of k d] chain_bounds [OF c2, of k d] b by auto
  qed (use b in auto)
  have wr': "bq_wrapped ?q olds news" using wr by (simp add: bq_wrapped_def)
  show ?thesis
  proof (cases "bq_tail q = bq_head q")
    case True
    with rewind [OF base' wr'] b c la show ?thesis
      by (intro exI [of _ "?q\<lparr>bq_head := 1, bq_tail := bq_rightMargin q, bq_full := False\<rparr>"] exI [of _ "[]"])
        (simp add: allocateAdditionalMemory_def go_make_def go_slice_def go_copy_def gap_entry_def)
  next
    case False
    let ?g = "bq_head q - bq_tail q"
    let ?n = "blank_len ?g"
    let ?e = "(bq_tail q, replicate (nat ?n) 0)"
    from False b ok have g: "0 < ?g" "?g < 2 ^ 32" "gap_ok ?g" by (auto simp: realloc_ok_def)
    note blob = gap_blob [OF g]
    from push_wrapped [OF base' wr' blob(3)] blob b
    obtain q2 where q2: "bq_push ?q (replicate (nat ?n) 0) ?n = Some q2"
      "bq_base q2 (olds @ news @ [?e])" "bq_wrapped q2 olds (news @ [?e])"
      "bq_capacity q2 = grownCapacity q m" "bq_head q2 = bq_head q" "bq_tail q2 = bq_head q"
      "bq_rightMargin q2 = bq_rightMargin q" by auto
    with rewind [OF q2(2,3)] False b c la blob(1) blank_len_def [of ?g] show ?thesis
      by (intro exI [of _ "q2\<lparr>bq_head := 1, bq_tail := bq_rightMargin q, bq_full := False\<rparr>"] exI [of _ "[?e]"])
        (auto simp: allocateAdditionalMemory_def go_make_def go_slice_def go_copy_def gap_entry_def Let_def)
  qed
qed

lemma unrolled_unwrapped:
  assumes "bq_unwrapped q ps"
  shows "unrolled q ps = ps"
proof (cases "ps = []")
  case False
  with assms show ?thesis by (auto simp: unrolled_def bq_unwrapped_def dest: chain_less)
next
  case True
  with assms show ?thesis by (auto simp: unrolled_def bq_unwrapped_def gap_entry_def)
qed

lemma unrolled_wrapped:
  assumes "bq_wrapped q olds news"
  shows "unrolled q (olds @ news) = news @ gap_entry q @ olds"
proof -
  have c: "chain 1 news (bq_tail q)" "chain (bq_head q) olds (bq_rightMargin q)" "bq_tail q \<le> bq_head q" using assms by (auto simp: bq_wrapped_def)
  have lo: "k < bq_tail q" if "(k, d) \<in> set news" for k d using chain_bounds [OF c(1) that] length_enc_pos [of d] by linarith
  have hi: "bq_head q \<le> k" if "(k, d) \<in> set olds" for k d using chain_bounds [OF c(2) that] by simp
  have "filter (\<lambda>(k, d). k < bq_tail q) news = news" "filter (\<lambda>(k, d). bq_head q \<le> k) olds = olds"
    by (auto simp: filter_id_conv lo hi)
  moreover have "filter (\<lambda>(k, d). k < bq_tail q) olds = []" "filter (\<lambda>(k, d). bq_head q \<le> k) news = []"
    using c(3) by (auto simp: filter_empty_conv not_less not_le dest!: lo hi)
  ultimately show ?thesis using c(3) by (simp add: unrolled_def)
qed

section \<open>The public operations\<close>

lemma grownCapacity_enough:
  assumes "0 < m" "0 \<le> bq_capacity q" "bq_maxCapacity q > 0 \<longrightarrow> bq_capacity q + m < bq_maxCapacity q"
  shows "max 1 (bq_capacity q) + m \<le> grownCapacity q m"
  using assms by (auto simp: grownCapacity_def Let_def)

lemma base_capacity: "bq_base q ps \<Longrightarrow> 0 \<le> bq_capacity q"
  by (auto simp: bq_base_def)

text \<open>The case in which \<open>Push\<close> reports a full queue.\<close>

definition push_rejected :: "bytes_queue \<Rightarrow> bytes \<Rightarrow> bool" where
  "push_rejected q d \<longleftrightarrow> (let need = int (length (enc d)) in
     \<not> canInsertAfterTail q need \<and> \<not> canInsertBeforeHead q need \<and>
     bq_capacity q + need \<ge> bq_maxCapacity q \<and> bq_maxCapacity q > 0)"

lemma Push_rejected:
  assumes "small d" "push_rejected q d"
  shows "bq_Push q d = Some (Inl ErrFullQueue, q)"
  using assms need_eq [OF assms(1)] by (simp add: bq_Push_def push_rejected_def Let_def algebra_simps)

lemma Push_in_place:
  assumes "bq_rep q ps" "small d"
    "canInsertAfterTail q (int (length (enc d))) \<or> canInsertBeforeHead q (int (length (enc d)))"
  shows "\<exists>idx q'. bq_Push q d = Some (Inr idx, q') \<and> bq_rep q' (ps @ [(idx, d)]) \<and> bq_gap q'"
proof (cases "bq_unwrapped q ps")
  case True
  have base: "bq_base q ps" using assms(1) by (simp add: bq_rep_def)
  note b = unwrapped_bounds [OF base True]
  have nf: "\<not> bq_full q" using True by (simp add: bq_unwrapped_def)
  show ?thesis
  proof (cases "canInsertAfterTail q (int (length (enc d)))")
    case after: True
    with b nf push_unwrapped [OF base True assms(2)] need_eq [OF assms(2)] show ?thesis
      by (auto simp: bq_Push_def canInsertAfterTail_def bq_rep_def Let_def intro: unwrapped_gap)
  next
    case False
    with assms(3) b nf have h: "1 + int (length (enc d)) \<le> bq_head q"
      "canInsertBeforeHead q (int (length (enc d)))"
      "bq_head q = 1 + int (length (enc d)) \<or> 1 + int (length (enc d)) + 17 \<le> bq_head q"
      by (auto simp: canInsertBeforeHead_def)
    with push_wrap [OF base True assms(2)] obtain q' where
      "bq_push (q\<lparr>bq_tail := 1\<rparr>) d (int (length d)) = Some q'" "bq_base q' (ps @ [(1, d)])"
      "bq_wrapped q' ps [(1, d)]" "bq_gap q'" by (auto simp: bq_gap_def)
    with False h(2) need_eq [OF assms(2)] show ?thesis
      by (auto simp: bq_Push_def bq_rep_def Let_def)
  qed
next
  case False
  with assms(1) obtain olds news where ps: "ps = olds @ news" and base: "bq_base q (olds @ news)"
    and wr: "bq_wrapped q olds news" by (auto simp: bq_rep_def)
  note b = wrapped_bounds [OF base wr]
  have "\<not> bq_full q" using assms(3) by (auto simp: canInsertAfterTail_def canInsertBeforeHead_def)
  with wr b have "bq_tail q < bq_head q" by (auto simp: bq_wrapped_def)
  with assms(3) have can: "canInsertAfterTail q (int (length (enc d)))"
    "bq_tail q + int (length (enc d)) \<le> bq_head q"
    "bq_tail q + int (length (enc d)) = bq_head q \<or> bq_tail q + int (length (enc d)) + 17 \<le> bq_head q"
    by (auto simp: canInsertAfterTail_def canInsertBeforeHead_def split: if_splits)
  from push_wrapped [OF base wr assms(2) can(2)] can(3) obtain q' where
    "bq_push q d (int (length d)) = Some q'" "bq_base q' (olds @ news @ [(bq_tail q, d)])"
    "bq_wrapped q' olds (news @ [(bq_tail q, d)])" "bq_gap q'" by (auto simp: bq_gap_def)
  with can(1) need_eq [OF assms(2)] ps show ?thesis
    by (fastforce simp: bq_Push_def bq_rep_def Let_def)
qed

lemma allocate_rep:
  assumes "bq_rep q ps" "realloc_ok q" "0 < m"
    "bq_maxCapacity q > 0 \<longrightarrow> bq_capacity q + m < bq_maxCapacity q"
  shows "\<exists>q' ps'. allocateAdditionalMemory q m = Some q' \<and> bq_base q' ps' \<and> bq_unwrapped q' ps' \<and>
    realloc_spec q ps ps' \<and> bq_tail q' + m \<le> bq_capacity q' \<and> ps' = unrolled q ps"
proof -
  have base: "bq_base q ps" using assms(1) by (simp add: bq_rep_def)
  note g = grownCapacity_enough [OF assms(3) base_capacity [OF base] assms(4)]
  then have c: "bq_capacity q \<le> grownCapacity q m" using assms(3) by linarith
  show ?thesis
  proof (cases "bq_unwrapped q ps")
    case True
    from allocate_unwrapped [OF base True c] unwrapped_bounds(3) [OF base True] g show ?thesis
      by (force simp: realloc_spec_def unrolled_unwrapped [OF True])
  next
    case False
    with assms(1) obtain olds news where ps: "ps = olds @ news" and wr: "bq_wrapped q olds news"
      by (auto simp: bq_rep_def)
    from allocate_wrapped [OF base [unfolded ps] wr c assms(2)] obtain q' gap where
      q': "allocateAdditionalMemory q m = Some q'" "bq_base q' (news @ gap @ olds)"
      "bq_unwrapped q' (news @ gap @ olds)" "bq_capacity q' = grownCapacity q m"
      "bq_tail q' = bq_rightMargin q" "gap = gap_entry q" by blast
    moreover have "bq_rightMargin q + m \<le> grownCapacity q m"
      using wrapped_bounds(4) [OF base [unfolded ps] wr] g by linarith
    moreover have "realloc_spec q ps (news @ gap @ olds)"
    proof -
      have "gap = [] \<or> bq_tail q < bq_head q \<and> gap = [(bq_tail q, replicate (nat (blank_len (bq_head q - bq_tail q))) 0)]"
        using q'(6) by (simp add: gap_entry_def)
      with ps show ?thesis unfolding realloc_spec_def by blast
    qed
    moreover have "news @ gap @ olds = unrolled q ps" using unrolled_wrapped [OF wr] q'(6) ps by simp
    ultimately show ?thesis by auto
  qed
qed

lemma Push_realloc:
  assumes "bq_rep q ps" "small d" "realloc_ok q"
    "\<not> canInsertAfterTail q (int (length (enc d)))" "\<not> canInsertBeforeHead q (int (length (enc d)))"
    "\<not> push_rejected q d"
  shows "\<exists>idx q' ps'. bq_Push q d = Some (Inr idx, q') \<and> bq_rep q' (ps' @ [(idx, d)]) \<and>
    realloc_spec q ps ps' \<and> bq_gap q' \<and> ps' = unrolled q ps"
proof -
  let ?m = "int (length (enc d))"
  have "bq_maxCapacity q > 0 \<longrightarrow> bq_capacity q + ?m < bq_maxCapacity q"
    using assms(4-6) by (auto simp: push_rejected_def Let_def)
  with allocate_rep [OF assms(1,3), of ?m] obtain q1 ps' where
    q1: "allocateAdditionalMemory q ?m = Some q1" "bq_base q1 ps'" "bq_unwrapped q1 ps'"
      "realloc_spec q ps ps'" "bq_tail q1 + ?m \<le> bq_capacity q1" "ps' = unrolled q ps" by auto
  from push_unwrapped [OF q1(2,3) assms(2) q1(5)] obtain q2 where
    "bq_push q1 d (int (length d)) = Some q2" "bq_rep q2 (ps' @ [(bq_tail q1, d)])" "bq_gap q2"
    by (auto simp: bq_rep_def intro: unwrapped_gap)
  then show ?thesis
    using assms(4-6) q1(1,4,6) need_eq [OF assms(2)]
    by (auto simp: bq_Push_def push_rejected_def Let_def algebra_simps)
qed

text \<open>
  \<open>Push\<close> is safe if a reallocation would find a gap it can fill, or if the queue has
  reached its maximal size, so that it is never reallocated for this entry.
\<close>

definition push_safe :: "bytes_queue \<Rightarrow> bytes \<Rightarrow> bool" where
  "push_safe q d \<longleftrightarrow> realloc_ok q \<or>
     0 < bq_maxCapacity q \<and> bq_maxCapacity q \<le> bq_capacity q + int (length (enc d))"

definition fits :: "bytes_queue \<Rightarrow> bytes \<Rightarrow> bool" where
  "fits q d \<longleftrightarrow> canInsertAfterTail q (int (length (enc d))) \<or> canInsertBeforeHead q (int (length (enc d)))"

lemma Push_cases:
  assumes "bq_rep q ps" "small d" "push_safe q d"
  obtains (rejected) "push_rejected q d" "bq_Push q d = Some (Inl ErrFullQueue, q)"
    | (pushed) idx q' ps' where "\<not> push_rejected q d" "bq_Push q d = Some (Inr idx, q')"
      "bq_rep q' (ps' @ [(idx, d)])" "realloc_spec q ps ps'" "bq_gap q'" "ps' = (if fits q d then ps else unrolled q ps)"
proof (cases "push_rejected q d")
  case True
  with Push_rejected assms(2) rejected show ?thesis by blast
next
  case False
  show ?thesis
  proof (cases "canInsertAfterTail q (int (length (enc d))) \<or> canInsertBeforeHead q (int (length (enc d)))")
    case True
    with Push_in_place [OF assms(1,2)] pushed [OF False, of _ _ ps] show ?thesis
      by (auto simp: realloc_spec_def fits_def)
  next
    case no: False
    with False assms(3) have "realloc_ok q" by (auto simp: push_safe_def push_rejected_def Let_def)
    with no Push_realloc [OF assms(1,2) _ _ _ False] pushed [OF False] show ?thesis unfolding fits_def by auto
  qed
qed

lemma peek_stored:
  assumes "bq_base q ps" "(k, d) \<in> set ps"
  shows "bq_peek q k = Some (Inr (d, int (length (enc d)) - int (length d)))"
proof -
  from assms have k: "1 \<le> k" "small d" "sits (bq_array q) k (enc d)" "bq_count q \<noteq> 0"
    by (auto simp: bq_base_def stored_def)
  let ?u = "uvarint_bytes (of_nat (length d))"
  from k(3) have s: "sits (bq_array q) (k + int (length ?u)) d" by (simp add: enc_def sits_append)
  from sits_drop [OF k(3)] obtain rest where "drop (nat k) (bq_array q) = ?u @ (d @ rest)"
    by (auto simp: enc_def)
  then have "Uvarint (drop (nat k) (bq_array q)) = (of_nat (length d), int (length ?u))"
    by (simp only: Uvarint_roundtrip)
  moreover have "sint (of_nat (length d) :: u64) = int (length d)"
    using k(2) by (simp add: small_def signed_of_nat signed_take_bit_int_eq_self)
  moreover have "k < int (length (bq_array q))"
    using sits_bounds [OF k(3)] length_enc_pos [of d] by linarith
  ultimately show ?thesis
    using k sits_slice [OF s]
    by (simp add: bq_peek_def peekCheckErr_def go_slice_def [of _ k] length_enc)
qed

lemma Get_stored: "bq_rep q ps \<Longrightarrow> (k, d) \<in> set ps \<Longrightarrow> bq_Get q k = Some (Inr d)"
  by (auto simp: bq_Get_def bq_rep_def dest: peek_stored)

lemma rep_head: "bq_rep q ((k, d) # ps) \<Longrightarrow> bq_head q = k"
  by (auto simp: bq_rep_def bq_unwrapped_def bq_wrapped_def Cons_eq_append_conv)

lemma Peek_head: "bq_rep q ((k, d) # ps) \<Longrightarrow> bq_Peek q = Some (Inr d)"
  using rep_head [of q k d ps] peek_stored [of q "(k, d) # ps" k d]
  by (simp add: bq_Peek_def bq_rep_def)

lemma empty_ops:
  assumes "bq_rep q []"
  shows "bq_Pop q = Some (Inl ErrEmptyQueue, q)" "bq_Peek q = Some (Inl ErrEmptyQueue)"
    "bq_Get q k = Some (Inl ErrEmptyQueue)"
  using assms by (auto simp: bq_rep_def bq_base_def bq_Pop_def bq_Peek_def bq_Get_def bq_peek_def peekCheckErr_def)

lemma Pop_eq:
  assumes "bq_rep q ((k, d) # ps)"
  shows "bq_Pop q = Some (Inr d,
    let h = k + int (length (enc d));
        t = (if bq_tail q = bq_rightMargin q then 1 else bq_tail q)
    in if h = bq_rightMargin q
       then q\<lparr>bq_head := 1, bq_count := bq_count q - 1, bq_tail := t, bq_rightMargin := t, bq_full := False\<rparr>
       else q\<lparr>bq_head := h, bq_count := bq_count q - 1, bq_full := False\<rparr>)"
  using peek_stored [of q "(k, d) # ps" k d] rep_head [OF assms] assms
  by (simp add: bq_Pop_def bq_rep_def Let_def)

lemma Pop_rep:
  assumes "bq_rep q ((k, d) # ps)"
  shows "\<exists>q'. bq_Pop q = Some (Inr d, q') \<and> bq_rep q' ps \<and>
    bq_maxCapacity q' = bq_maxCapacity q \<and> bq_capacity q' = bq_capacity q"
proof (cases "bq_unwrapped q ((k, d) # ps)")
  case True
  have base: "bq_base q ((k, d) # ps)" using assms by (simp add: bq_rep_def)
  show ?thesis
  proof (cases "ps = []")
    case empty: True
    with True base show ?thesis
      by (simp add: Pop_eq [OF assms] bq_rep_def bq_base_def bq_unwrapped_def Let_def)
  next
    case False
    with True have "k + int (length (enc d)) < bq_rightMargin q"
      by (auto simp: bq_unwrapped_def intro: chain_less)
    with False True base show ?thesis
      by (auto simp: Pop_eq [OF assms] bq_rep_def bq_base_def bq_unwrapped_def Let_def)
  qed
next
  case False
  with assms obtain olds news where ps: "(k, d) # ps = olds @ news"
    and base: "bq_base q (olds @ news)" and wr: "bq_wrapped q olds news" by (auto simp: bq_rep_def)
  note b = wrapped_bounds [OF base wr]
  from ps wr obtain olds' where o: "olds = (k, d) # olds'" "ps = olds' @ news"
    by (auto simp: bq_wrapped_def Cons_eq_append_conv)
  have h: "bq_head q = k" by (rule rep_head [OF assms])
  show ?thesis
  proof (cases "olds' = []")
    case True
    with o wr base b h show ?thesis
      by (auto simp: Pop_eq [OF assms] bq_rep_def bq_base_def bq_unwrapped_def bq_wrapped_def Let_def)
  next
    case olds': False
    with o wr have "k + int (length (enc d)) < bq_rightMargin q"
      by (auto simp: bq_wrapped_def intro: chain_less)
    moreover have "k < k + int (length (enc d))" using length_enc_pos [of d] by simp
    ultimately have "bq_wrapped (snd (the (bq_Pop q))) olds' news" "bq_base (snd (the (bq_Pop q))) ps"
      using o wr base b h olds'
      by (auto simp: Pop_eq [OF assms] bq_wrapped_def bq_base_def Let_def)
    with o show ?thesis by (auto simp: Pop_eq [OF assms] bq_rep_def Let_def)
  qed
qed

lemma Pop_gap:
  assumes "bq_rep q ((k, d) # ps)" "bq_gap q" "16 \<le> length d" "bq_Pop q = Some (r, q')"
  shows "bq_gap q'"
proof -
  have "0 < length (uvarint_bytes (of_nat (length d)))" by simp
  with assms(3) length_enc [of d] have "17 \<le> int (length (enc d))" by linarith
  moreover have "1 \<le> bq_tail q"
    using assms(1) unwrapped_bounds [of q "(k, d) # ps"] wrapped_bounds(1) [of q]
    by (fastforce simp: bq_rep_def)
  moreover have "bq_tail q \<le> bq_head q \<or> bq_head q + int (length (enc d)) \<le> bq_tail q"
    using assms(1) chain_le by (auto simp: bq_rep_def bq_unwrapped_def bq_wrapped_def)
  ultimately show ?thesis
    using assms(2,4) rep_head [OF assms(1)]
    by (auto simp: Pop_eq [OF assms(1)] bq_gap_def Let_def split: if_splits)
qed

lemma Reset_rep: "bq_rep q ps \<Longrightarrow> bq_rep (bq_Reset q) []"
  by (auto simp: bq_rep_def bq_base_def bq_Reset_def bq_unwrapped_def)

lemma New_rep: "0 \<le> c \<Longrightarrow> \<exists>q. NewBytesQueue c m v = Some q \<and> bq_rep q [] \<and> bq_maxCapacity q = m \<and> bq_capacity q = c"
  by (simp add: NewBytesQueue_def go_make_def bq_rep_def bq_base_def bq_unwrapped_def)

lemma Len_rep: "bq_rep q ps \<Longrightarrow> bq_Len q = int (length ps)"
  by (simp add: bq_Len_def bq_rep_def bq_base_def)

section \<open>Writing inside an entry\<close>

text \<open>
  The slices returned by \<open>Get\<close> and \<open>Peek\<close> alias the array. The shard writes through
  them; \<open>patch\<close> is the effect of such a write on the list of entries.
\<close>

definition before :: "(int \<times> bytes) \<Rightarrow> (int \<times> bytes) \<Rightarrow> bool" where
  "before x y \<longleftrightarrow> fst x + int (length (enc (snd x))) \<le> fst y"

lemma chain_sorted: "chain i ps j \<Longrightarrow> sorted_wrt before ps"
proof (induction i ps j rule: chain.induct)
  case (2 i k d ps j)
  then show ?case by (auto simp: before_def dest: chain_bounds)
qed simp

lemma rep_sorted: "bq_rep q ps \<Longrightarrow> \<exists>ps'. mset ps' = mset ps \<and> sorted_wrt before ps'"
proof -
  assume rep: "bq_rep q ps"
  show ?thesis
  proof (cases "bq_unwrapped q ps")
    case True
    then show ?thesis by (auto simp: bq_unwrapped_def dest: chain_sorted)
  next
    case False
    with rep obtain olds news where ps: "ps = olds @ news" and wr: "bq_wrapped q olds news"
      by (auto simp: bq_rep_def)
    from wr have c: "chain 1 news (bq_tail q)" "chain (bq_head q) olds (bq_rightMargin q)"
      "bq_tail q \<le> bq_head q" by (auto simp: bq_wrapped_def)
    then have "before x y" if "x \<in> set news" "y \<in> set olds" for x y
      using chain_bounds [OF c(1), of "fst x" "snd x"] chain_bounds [OF c(2), of "fst y" "snd y"] that
      by (auto simp: before_def)
    with c(1,2)[THEN chain_sorted] have "sorted_wrt before (news @ olds)"
      by (simp add: sorted_wrt_append)
    then show ?thesis using ps by (intro exI [of _ "news @ olds"]) simp
  qed
qed

lemma sorted_before_distinct: "sorted_wrt before ps \<Longrightarrow> distinct (map fst ps)"
  by (induction ps) (auto simp: before_def)

lemma sorted_before_disjoint:
  "sorted_wrt before ps \<Longrightarrow> x \<in> set ps \<Longrightarrow> y \<in> set ps \<Longrightarrow> fst x \<noteq> fst y \<Longrightarrow> before x y \<or> before y x"
  by (induction ps) auto

lemma rep_distinct: "bq_rep q ps \<Longrightarrow> distinct (map fst ps)"
  using rep_sorted [of q ps] sorted_before_distinct
  by (metis mset_eq_imp_distinct_iff mset_map)

lemma rep_disjoint:
  "bq_rep q ps \<Longrightarrow> x \<in> set ps \<Longrightarrow> y \<in> set ps \<Longrightarrow> fst x \<noteq> fst y \<Longrightarrow> before x y \<or> before y x"
  using rep_sorted [of q ps] sorted_before_disjoint by (metis mset_eq_setD)

definition patch :: "int \<Rightarrow> bytes \<Rightarrow> (int \<times> bytes) list \<Rightarrow> (int \<times> bytes) list" where
  "patch k d' ps = map (\<lambda>(k2, d2). if k2 = k then (k2, d') else (k2, d2)) ps"

lemma patch_append [simp]: "patch k d' (ps @ qs) = patch k d' ps @ patch k d' qs"
  by (simp add: patch_def)

lemma patch_Nil_iff [simp]: "patch k d' ps = [] \<longleftrightarrow> ps = []"
  by (simp add: patch_def)

lemma length_patch [simp]: "length (patch k d' ps) = length ps"
  by (simp add: patch_def)

lemma map_fst_patch [simp]: "map fst (patch k d' ps) = map fst ps"
  by (auto simp: patch_def)

lemma chain_patch:
  assumes "\<And>d. (k, d) \<in> set ps \<Longrightarrow> length d = length d'"
  shows "chain i (patch k d' ps) j = chain i ps j"
  using assms
  by (induction i ps j rule: chain.induct) (auto simp: patch_def length_enc)

lemma rep_patch:
  assumes rep: "bq_rep q ps" and kd: "(k, d) \<in> set ps" and len: "length d' = length d"
  shows "bq_rep (q\<lparr>bq_array := blit (bq_array q) (nat (k + (int (length (enc d)) - int (length d)))) d'\<rparr>)
    (patch k d' ps)"
proof -
  let ?u = "uvarint_bytes (of_nat (length d))"
  let ?o = "k + int (length ?u)"
  let ?a = "blit (bq_array q) (nat ?o) d'"
  have base: "bq_base q ps" using rep by (simp add: bq_rep_def)
  with kd have k: "1 \<le> k" "small d" "sits (bq_array q) k ?u" "sits (bq_array q) ?o d"
    by (auto simp: bq_base_def stored_def enc_def sits_append)
  note bnd = sits_bounds [OF k(4)]
  have u: "d2 = d" if "(k, d2) \<in> set ps" for d2
    using rep_distinct [OF rep] kd that by (meson eq_key_imp_eq_value)
  have "sits ?a k (enc d')"
    using k len bnd by (auto simp: enc_def sits_append intro!: sits_intros)
  moreover have "sits ?a k2 (enc d2)" if x: "(k2, d2) \<in> set ps" "k2 \<noteq> k" for k2 d2
  proof -
    have "sits (bq_array q) k2 (enc d2)" using base x by (auto simp: bq_base_def stored_def)
    with rep_disjoint [OF rep kd x(1)] x(2) bnd len show ?thesis
      by (intro sits_blit_other) (auto simp: before_def length_enc)
  qed
  ultimately have "stored ?a (patch k d' ps)"
    using base k(1,2) len by (auto simp: stored_def patch_def bq_base_def small_def split: if_splits)
  moreover have "length ?a = length (bq_array q)" using bnd by (intro length_blit) auto
  ultimately have base': "bq_base (q\<lparr>bq_array := ?a\<rparr>) (patch k d' ps)"
    using base by (simp add: bq_base_def)
  have ch: "chain i (patch k d' qs) j = chain i qs j" if "set qs \<subseteq> set ps" for i qs j
    using u that len by (intro chain_patch) auto
  have o: "nat (k + (int (length (enc d)) - int (length d))) = nat ?o" by (simp add: length_enc)
  show ?thesis
  proof (cases "bq_unwrapped q ps")
    case True
    then have "bq_unwrapped (q\<lparr>bq_array := ?a\<rparr>) (patch k d' ps)"
      using ch [of ps] by (simp add: bq_unwrapped_def)
    with base' show ?thesis by (simp only: bq_rep_def o) simp
  next
    case False
    with rep obtain olds news where ps: "ps = olds @ news" and wr: "bq_wrapped q olds news"
      by (auto simp: bq_rep_def)
    then have "bq_wrapped (q\<lparr>bq_array := ?a\<rparr>) (patch k d' olds) (patch k d' news)"
      using ch [of olds] ch [of news] by (simp add: bq_wrapped_def)
    with base' ps show ?thesis by (simp only: bq_rep_def o patch_append) blast
  qed
qed

section \<open>Properties\<close>

text \<open>
  C1. \<open>Push\<close> refines the enqueue of a queue of indexed entries, for data below \<open>2^32\<close> bytes and unless the array has to grow around a gap that the
  blank entry does not fill (\<open>push_safe\<close>). Then it does not panic. If there is room between \<open>tail\<close> and \<open>head\<close> or in front of \<open>head\<close>, the entry is appended
  under the returned index and nothing else changes. If there is none and the array may grow, every entry keeps its index; a queue that wraps around is unrolled, so
  that its newer entries and the blank entry come before the older ones, and the entry is appended after them. Otherwise the
  error is reported and the queue is unchanged.
\<close>

theorem bq_Push_refines:
  assumes "bq_rep q ps" "small d" "push_safe q d"
  shows "(push_rejected q d \<longrightarrow> bq_Push q d = Some (Inl ErrFullQueue, q)) \<and>
    (\<not> push_rejected q d \<longrightarrow> (\<exists>idx q' ps'. bq_Push q d = Some (Inr idx, q') \<and>
       bq_rep q' (ps' @ [(idx, d)]) \<and> ps' = (if fits q d then ps else unrolled q ps) \<and> set ps \<subseteq> set ps' \<and>
       idx \<notin> fst ` set ps))"
  using assms
proof (cases rule: Push_cases)
  case (pushed idx q' ps')
  have sub: "set ps \<subseteq> set ps'" using pushed(4) by (auto simp: realloc_spec_def)
  have "idx \<notin> fst ` set ps'" using rep_distinct [OF pushed(3)] by auto
  with sub pushed show ?thesis by blast
qed simp

lemma new_queue_rep:
  "NewBytesQueue 64 0 False = Some \<lparr>bq_full = False, bq_array = replicate 64 0, bq_capacity = 64,
     bq_maxCapacity = 0, bq_head = 1, bq_tail = 1, bq_count = 0, bq_rightMargin = 1,
     bq_headerBuffer = replicate 5 0, bq_verbose = False\<rparr>"
  by (simp add: NewBytesQueue_def go_make_def)

lemma new_queue_safe: "push_safe (the (NewBytesQueue 64 0 False)) d"
  by (simp add: new_queue_rep push_safe_def realloc_ok_def)

lemma new_queue_rep0: "bq_rep (the (NewBytesQueue 64 0 False)) []"
  using New_rep [of 64 0 False] by auto

theorem bq_Push_refines_witness:
  "bq_rep (the (NewBytesQueue 64 0 False)) [] \<and> small [7, 8] \<and>
   push_safe (the (NewBytesQueue 64 0 False)) [7, 8] \<and>
   (\<exists>idx q' ps'. bq_Push (the (NewBytesQueue 64 0 False)) [7, 8] = Some (Inr idx, q') \<and>
      bq_rep q' (ps' @ [(idx, [7, 8])]))"
proof -
  have s: "small [7, 8]" by (simp add: small_def)
  have n: "\<not> push_rejected (the (NewBytesQueue 64 0 False)) [7, 8]"
    by (simp add: push_rejected_def new_queue_rep)
  from bq_Push_refines [OF new_queue_rep0 s new_queue_safe] n show ?thesis
    using new_queue_rep0 s new_queue_safe by blast
qed

text \<open>
  Indices are stable: after a successful \<open>Push\<close>, even one that reallocates the array,
  \<open>Get\<close> returns the pushed entry at the returned index and every older entry at the index
  it already had.
\<close>

theorem bq_index_stable:
  assumes "bq_rep q ps" "small d" "push_safe q d" "bq_Push q d = Some (Inr idx, q')"
  shows "bq_Get q' idx = Some (Inr d) \<and> (\<forall>(k, e) \<in> set ps. bq_Get q' k = Some (Inr e))"
  using assms(1-3)
proof (cases rule: Push_cases)
  case (pushed idx' q'' ps')
  then have "set ps \<subseteq> set ps'" by (auto simp: realloc_spec_def)
  with pushed assms(4) Get_stored [OF pushed(3)] show ?thesis by auto
qed (use assms(4) in simp)

theorem bq_index_stable_witness:
  "\<exists>idx q'. bq_Push (the (NewBytesQueue 64 0 False)) [7, 8] = Some (Inr idx, q') \<and>
     bq_Get q' idx = Some (Inr [7, 8])"
proof -
  have s: "small [7, 8]" by (simp add: small_def)
  have n: "\<not> push_rejected (the (NewBytesQueue 64 0 False)) [7, 8]"
    by (simp add: push_rejected_def new_queue_rep)
  from new_queue_rep0 s new_queue_safe obtain idx q' where
    "bq_Push (the (NewBytesQueue 64 0 False)) [7, 8] = Some (Inr idx, q')"
    by (cases rule: Push_cases) (use n in auto)
  with bq_index_stable [OF new_queue_rep0 s new_queue_safe] show ?thesis by blast
qed

text \<open>
  C2. \<open>Pop\<close> refines the dequeue: on a nonempty queue it returns the data of the first entry
  and removes exactly that entry, so every other index stays valid; on an empty queue it
  reports the error and changes nothing.
\<close>

theorem bq_Pop_refines:
  assumes "bq_rep q ps"
  shows "case ps of
      [] \<Rightarrow> bq_Pop q = Some (Inl ErrEmptyQueue, q)
    | (k, d) # ps' \<Rightarrow> \<exists>q'. bq_Pop q = Some (Inr d, q') \<and> bq_rep q' ps' \<and>
        (\<forall>(j, e) \<in> set ps'. bq_Get q' j = Some (Inr e))"
proof (cases ps)
  case Nil
  with assms show ?thesis by (simp add: empty_ops)
next
  case (Cons p ps')
  obtain k d where p: "p = (k, d)" by (cases p)
  from Pop_rep [OF assms [unfolded Cons p]] obtain q' where
    "bq_Pop q = Some (Inr d, q')" "bq_rep q' ps'" by blast
  with Get_stored Cons p show ?thesis by auto
qed

theorem bq_Pop_refines_witness:
  "\<exists>idx q' q''. bq_Push (the (NewBytesQueue 64 0 False)) [7, 8] = Some (Inr idx, q') \<and>
     bq_rep q' [(idx, [7, 8])] \<and> bq_Pop q' = Some (Inr [7, 8], q'') \<and> bq_rep q'' []"
proof -
  have s: "small [7, 8]" by (simp add: small_def)
  from new_queue_rep0 s new_queue_safe show ?thesis
  proof (cases rule: Push_cases)
    case rejected
    then show ?thesis by (simp add: push_rejected_def new_queue_rep)
  next
    case (pushed idx q' ps')
    then have "ps' = []" by (auto simp: realloc_spec_def new_queue_rep)
    with pushed bq_Pop_refines [of q' "[(idx, [7, 8])]"] show ?thesis by auto
  qed
qed

text \<open>
  A run of the queue in which a reallocation meets a gap of 128 bytes between \<open>tail\<close> and
  \<open>head\<close>. The unrolled queue is then: the 18 threes, the blank entry, the 20 twos, the 130
  fours. The run pops three entries and returns the third.
\<close>

definition gap_run :: "(queue_error + bytes) option" where
  "gap_run = do {
     q \<leftarrow> NewBytesQueue 170 0 False;
     (_, q) \<leftarrow> bq_Push q (replicate 145 1);
     (_, q) \<leftarrow> bq_Push q (replicate 20 2);
     (_, q) \<leftarrow> bq_Pop q;
     (_, q) \<leftarrow> bq_Push q (replicate 18 3);
     (_, q) \<leftarrow> bq_Push q (replicate 130 4);
     (_, q) \<leftarrow> bq_Pop q;
     (_, q) \<leftarrow> bq_Pop q;
     (r, _) \<leftarrow> bq_Pop q;
     Some r
   }"

text \<open>
  The condition \<open>gap_ok\<close> of the refinement cannot be dropped: for a gap of 128 bytes
  \<open>allocateAdditionalMemory\<close> takes the header size of the blank entry from the gap (2 bytes)
  and not from the blank's own length 126 (1 byte), so the blank is one byte too short and
  the next \<open>Pop\<close> reads its header from the wrong place: it returns the single byte 20
  instead of the 20 bytes that were pushed.
\<close>

theorem bq_realloc_gap_corrupts: "gap_run = Some (Inr [20]) \<and> \<not> gap_ok 128"
proof
  show "gap_run = Some (Inr [20])" by code_simp
  show "\<not> gap_ok 128" by (simp add: gap_ok_def blank_len_def getUvarintSize_def)
qed

text \<open>
  A reallocation of a queue that wraps around breaks the order of the queue: of the entries of ones, twos, threes and
  fours, pushed in this order, and the ones popped, the next \<open>Pop\<close> returns the threes.
\<close>

definition reorder_run :: "(queue_error + bytes) option" where
  "reorder_run = do {
     q \<leftarrow> NewBytesQueue 12 0 False;
     (_, q) \<leftarrow> bq_Push q (replicate 4 1);
     (_, q) \<leftarrow> bq_Push q (replicate 4 2);
     (_, q) \<leftarrow> bq_Pop q;
     (_, q) \<leftarrow> bq_Push q (replicate 4 3);
     (_, q) \<leftarrow> bq_Push q (replicate 4 4);
     (r, _) \<leftarrow> bq_Pop q;
     Some r
   }"

theorem bq_realloc_reorders: "reorder_run = Some (Inr [3, 3, 3, 3])"
  by code_simp

end
