(* ===== verification/Cache_Entry.thy ===== *)
theory Cache_Entry
  imports Bytes_Queue
begin

unbundle bit_operations_syntax

text \<open>
  \<open>bigcache/encoding.go\<close> (the byte layout of a cache entry: timestamp, hash, key length,
  key, value), \<open>bigcache/fnv.go\<close> (the default hash) and \<open>bigcache/bytes.go\<close>.
  Strings are byte lists. The theory shows the round trips of the layout for keys of
  fewer than 65518 bytes, and what happens to longer ones.
\<close>

section \<open>Layout of an entry\<close>

abbreviation (input) timestampSizeInBytes :: int where "timestampSizeInBytes \<equiv> 8"
abbreviation (input) hashSizeInBytes :: int where "hashSizeInBytes \<equiv> 8"
abbreviation (input) keySizeInBytes :: int where "keySizeInBytes \<equiv> 2"
abbreviation (input) headersSizeInBytes :: int where "headersSizeInBytes \<equiv> 18"

text \<open>The entry and the (possibly reallocated) buffer it was built in.\<close>

definition wrapEntry :: "u64 \<Rightarrow> u64 \<Rightarrow> bytes \<Rightarrow> bytes \<Rightarrow> bytes \<Rightarrow> (bytes \<times> bytes) option" where
  "wrapEntry timestamp hash key entry buffer = do {
     let keyLength = int (length key);
     let blobLength = int (length entry) + headersSizeInBytes + keyLength;
     blob \<leftarrow> (if blobLength > int (length buffer) then go_make 0 blobLength else Some buffer);
     blob \<leftarrow> le_PutUint64 blob timestamp;
     blob \<leftarrow> go_write_from blob timestampSizeInBytes (\<lambda>b. le_PutUint64 b hash);
     blob \<leftarrow> go_write_from blob (timestampSizeInBytes + hashSizeInBytes)
               (\<lambda>b. le_PutUint16 b (word_of_int keyLength));
     (blob, _) \<leftarrow> go_copy blob headersSizeInBytes key;
     (blob, _) \<leftarrow> go_copy blob (headersSizeInBytes + keyLength) entry;
     w \<leftarrow> go_slice blob 0 blobLength;
     Some (w, blob)
   }"

definition appendToWrappedEntry :: "u64 \<Rightarrow> bytes \<Rightarrow> bytes \<Rightarrow> bytes \<Rightarrow> (bytes \<times> bytes) option" where
  "appendToWrappedEntry timestamp wrappedEntry entry buffer = do {
     let blobLength = int (length wrappedEntry) + int (length entry);
     blob \<leftarrow> (if blobLength > int (length buffer) then go_make 0 blobLength else Some buffer);
     blob \<leftarrow> le_PutUint64 blob timestamp;
     rest \<leftarrow> go_from wrappedEntry timestampSizeInBytes;
     (blob, _) \<leftarrow> go_copy blob timestampSizeInBytes rest;
     (blob, _) \<leftarrow> go_copy blob (int (length wrappedEntry)) entry;
     w \<leftarrow> go_slice blob 0 blobLength;
     Some (w, blob)
   }"

text \<open>
  \<open>length\<close> is a \<open>uint16\<close> and \<open>headersSizeInBytes\<close> an untyped constant, so the sum
  \<open>headersSizeInBytes + length\<close> is computed modulo \<open>2^16\<close>.
\<close>

definition readKeyLength :: "bytes \<Rightarrow> u16 option" where
  "readKeyLength data = do {
     b \<leftarrow> go_from data (timestampSizeInBytes + hashSizeInBytes);
     le_Uint16 b
   }"

definition bytesToString :: "bytes \<Rightarrow> bytes" where
  "bytesToString b = b"

definition readEntry :: "bytes \<Rightarrow> bytes option" where
  "readEntry data = do {
     len \<leftarrow> readKeyLength data;
     dst \<leftarrow> go_make 0 (int (length data) - uint (18 + len));
     src \<leftarrow> go_from data (uint (18 + len));
     (dst, _) \<leftarrow> go_copy dst 0 src;
     Some dst
   }"

definition readTimestampFromEntry :: "bytes \<Rightarrow> u64 option" where
  "readTimestampFromEntry data = le_Uint64 data"

definition readKeyFromEntry :: "bytes \<Rightarrow> bytes option" where
  "readKeyFromEntry data = do {
     len \<leftarrow> readKeyLength data;
     dst \<leftarrow> go_make 0 (uint len);
     src \<leftarrow> go_slice data headersSizeInBytes (uint (18 + len));
     (dst, _) \<leftarrow> go_copy dst 0 src;
     Some (bytesToString dst)
   }"

definition compareKeyFromEntry :: "bytes \<Rightarrow> bytes \<Rightarrow> bool option" where
  "compareKeyFromEntry data key = do {
     len \<leftarrow> readKeyLength data;
     src \<leftarrow> go_slice data headersSizeInBytes (uint (18 + len));
     Some (bytesToString src = key)
   }"

definition readHashFromEntry :: "bytes \<Rightarrow> u64 option" where
  "readHashFromEntry data = do {
     b \<leftarrow> go_from data timestampSizeInBytes;
     le_Uint64 b
   }"

definition resetKeyFromEntry :: "bytes \<Rightarrow> bytes option" where
  "resetKeyFromEntry data = go_write_from data timestampSizeInBytes (\<lambda>b. le_PutUint64 b 0)"

section \<open>The default hash\<close>

abbreviation (input) offset64 :: u64 where "offset64 \<equiv> 14695981039346656037"
abbreviation (input) prime64 :: u64 where "prime64 \<equiv> 1099511628211"

fun Sum64_loop :: "bytes \<Rightarrow> u64 \<Rightarrow> u64" where
  "Sum64_loop [] hash = hash"
| "Sum64_loop (b # key) hash = Sum64_loop key ((hash XOR ucast b) * prime64)"

definition Sum64 :: "bytes \<Rightarrow> u64" where
  "Sum64 key = Sum64_loop key offset64"

section \<open>Lemmas\<close>

definition entry_bytes :: "u64 \<Rightarrow> u64 \<Rightarrow> bytes \<Rightarrow> bytes \<Rightarrow> bytes" where
  "entry_bytes ts h key v = le64 ts @ le64 h @ le16 (of_nat (length key)) @ key @ v"

lemma length_entry_bytes [simp]: "length (entry_bytes ts h key v) = 18 + length key + length v"
  by (simp add: entry_bytes_def)

lemma take_of_sits0: "sits a 0 bs \<Longrightarrow> take (length bs) a = bs"
  by (simp add: sits_def)

lemma wrapEntry_eq:
  "\<exists>buf'. wrapEntry ts h key v buf = Some (entry_bytes ts h key v, buf')"
proof -
  let ?n = "18 + length key + length v"
  define b where "b = (if int ?n > int (length buf) then replicate ?n (0 :: byte) else buf)"
  have n: "?n \<le> length b" by (auto simp: b_def)
  define b1 where "b1 = blit b 0 (le64 ts)"
  define b2 where "b2 = blit b1 8 (le64 h)"
  define b3 where "b3 = blit b2 16 (le16 (of_nat (length key)))"
  define b4 where "b4 = blit b3 18 key"
  define b5 where "b5 = blit b4 (18 + length key) v"
  have l: "length b1 = length b" "length b2 = length b" "length b3 = length b" "length b4 = length b"
      "length b5 = length b"
    using n by (simp_all add: b1_def b2_def b3_def b4_def b5_def)
  have s1: "sits b1 0 (le64 ts)" unfolding b1_def using n sits_blit_same [of 0 "le64 ts" b] by simp
  have s2: "sits b2 0 (le64 ts @ le64 h)"
    unfolding b2_def sits_append
    using n l s1 sits_blit_same [of 8 "le64 h" b1] sits_blit_other [OF s1, of 8 "le64 h"] by simp
  have s3: "sits b3 0 ((le64 ts @ le64 h) @ le16 (of_nat (length key)))"
    unfolding b3_def sits_append [of _ _ "le64 ts @ le64 h"]
    using n l sits_blit_same [of 16 "le16 (of_nat (length key))" b2]
      sits_blit_other [OF s2, of 16 "le16 (of_nat (length key))"] by simp
  have s4: "sits b4 0 (((le64 ts @ le64 h) @ le16 (of_nat (length key))) @ key)"
    unfolding b4_def sits_append [of _ _ "(le64 ts @ le64 h) @ le16 (of_nat (length key))"]
    using n l sits_blit_same [of 18 key b3] sits_blit_other [OF s3, of 18 key] by simp
  have s5: "sits b5 0 ((((le64 ts @ le64 h) @ le16 (of_nat (length key))) @ key) @ v)"
    unfolding b5_def sits_append [of _ _ "((le64 ts @ le64 h) @ le16 (of_nat (length key))) @ key"]
    using n l sits_blit_same [of "18 + int (length key)" v b4]
      sits_blit_other [OF s4, of "18 + int (length key)" v] by (simp add: nat_add_distrib)
  then have "sits b5 0 (entry_bytes ts h key v)" by (simp add: entry_bytes_def)
  from sits_slice [OF this] have r: "go_slice b5 0 (int ?n) = Some (entry_bytes ts h key v)" by simp
  have w1: "le_PutUint64 b ts = Some b1" using n by (simp add: b1_def le_PutUint64_eq)
  have w2: "go_write_from b1 8 (\<lambda>b. le_PutUint64 b h) = Some b2"
    using go_write_from_blit [of 8 b1 "\<lambda>b. le_PutUint64 b h" "le64 h"] n l by (simp add: b2_def le_PutUint64_eq)
  have w3: "go_write_from b2 16 (\<lambda>b. le_PutUint16 b (of_nat (length key))) = Some b3"
    using go_write_from_blit [of 16 b2 "\<lambda>b. le_PutUint16 b (of_nat (length key))" "le16 (of_nat (length key))"] n l
    by (simp add: b3_def le_PutUint16_eq)
  have "go_copy b3 18 key = Some (b4, int (length key))" using n l by (simp add: go_copy_def b4_def)
  moreover have "go_copy b4 (18 + int (length key)) v = Some (b5, int (length v))"
    using n l by (simp add: go_copy_def b5_def nat_add_distrib)
  ultimately show ?thesis
    using w1 w2 w3 r unfolding wrapEntry_def b_def
    by (auto simp: go_make_def nat_add_distrib algebra_simps split: if_splits)
qed

lemma entry_bytes_sections:
  "entry_bytes ts h key v = le64 ts @ (le64 h @ le16 (of_nat (length key)) @ key @ v)"
  "drop 8 (entry_bytes ts h key v) = le64 h @ (le16 (of_nat (length key)) @ key @ v)"
  "drop 16 (entry_bytes ts h key v) = le16 (of_nat (length key)) @ (key @ v)"
  "drop 18 (entry_bytes ts h key v) = key @ v"
  by (simp_all add: entry_bytes_def)

lemma readTimestamp_entry: "readTimestampFromEntry (entry_bytes ts h key v) = Some ts"
  by (simp only: readTimestampFromEntry_def entry_bytes_sections(1) le_Uint64_le64)

lemma readHash_entry: "readHashFromEntry (entry_bytes ts h key v) = Some h"
  by (simp add: readHashFromEntry_def go_from_eq entry_bytes_sections(2) del: append_assoc)

lemma readKeyLength_entry: "readKeyLength (entry_bytes ts h key v) = Some (of_nat (length key))"
  by (simp add: readKeyLength_def go_from_eq entry_bytes_sections(3) del: append_assoc)

lemma key_end:
  assumes "n < 65518" shows "uint (18 + of_nat n :: u16) = int (18 + n)"
proof -
  have "unat (of_nat (18 + n) :: u16) = 18 + n" using assms by (intro unat_of_nat_word) simp
  then show ?thesis by (metis of_nat_add of_nat_numeral uint_nat)
qed

lemma unat_key_length: "n < 65536 \<Longrightarrow> unat (of_nat n :: u16) = n"
  by (rule unat_of_nat_word) simp

lemma key_slice:
  assumes "length key < 65518"
  shows "go_slice (entry_bytes ts h key v) 18 (uint (18 + of_nat (length key) :: u16)) = Some key"
  using assms by (simp only: key_end) (simp add: go_slice_def entry_bytes_sections(4))

lemma readKey_entry:
  assumes "length key < 65518" shows "readKeyFromEntry (entry_bytes ts h key v) = Some key"
  using assms
  by (simp add: readKeyFromEntry_def readKeyLength_entry key_slice unat_key_length go_make_def
      go_copy_def blit_def bytesToString_def)

lemma compareKey_entry:
  assumes "length key < 65518"
  shows "compareKeyFromEntry (entry_bytes ts h key v) key' = Some (key = key')"
  using assms by (simp add: compareKeyFromEntry_def readKeyLength_entry key_slice bytesToString_def)

lemma readEntry_entry:
  assumes "length key < 65518" shows "readEntry (entry_bytes ts h key v) = Some v"
proof -
  have "drop (18 + length key) (entry_bytes ts h key v) = v" by (simp add: entry_bytes_def)
  then show ?thesis
    using assms key_end [OF assms]
    by (simp add: readEntry_def readKeyLength_entry go_from_eq go_make_def go_copy_def blit_def nat_add_distrib)
qed

lemma resetKey_eq: "16 \<le> length d \<Longrightarrow> resetKeyFromEntry d = Some (blit d 8 (le64 0))"
  using go_write_from_blit [of 8 d "\<lambda>b. le_PutUint64 b 0" "le64 0"]
  by (simp add: resetKeyFromEntry_def le_PutUint64_eq)

lemma readHash_reset: "16 \<le> length d \<Longrightarrow> readHashFromEntry (blit d 8 (le64 h)) = Some h"
proof -
  assume "16 \<le> length d"
  then have "drop 8 (blit d 8 (le64 h)) = le64 h @ drop 16 d" by (simp add: blit_def)
  with \<open>16 \<le> length d\<close> show ?thesis by (simp add: readHashFromEntry_def go_from_eq)
qed

lemma resetKey_entry: "resetKeyFromEntry (entry_bytes ts h key v) = Some (entry_bytes ts 0 key v)"
  by (simp add: resetKey_eq) (simp add: blit_def entry_bytes_def)

lemma readHash_total: "16 \<le> length d \<Longrightarrow> \<exists>h. readHashFromEntry d = Some h"
  by (simp add: readHashFromEntry_def go_from_eq le_Uint64_def go_nth_def)

lemma readTimestamp_total: "8 \<le> length d \<Longrightarrow> \<exists>t. readTimestampFromEntry d = Some t"
  by (cases "d = []") (simp_all add: readTimestampFromEntry_def le_Uint64_def go_nth_def)

lemma readHash_zero: "16 \<le> n \<Longrightarrow> readHashFromEntry (replicate n 0) = Some 0"
  by (simp add: readHashFromEntry_def go_from_eq le_Uint64_def go_nth_def)

lemma append_entry_eq:
  "\<exists>buf'. appendToWrappedEntry ts (entry_bytes ts0 h key v) e buf = Some (entry_bytes ts h key (v @ e), buf')"
proof -
  let ?w = "entry_bytes ts0 h key v"
  let ?n = "length ?w + length e"
  define b where "b = (if int ?n > int (length buf) then replicate ?n (0 :: byte) else buf)"
  have n: "?n \<le> length b" by (auto simp: b_def)
  define b1 where "b1 = blit b 0 (le64 ts)"
  define b2 where "b2 = blit b1 8 (drop 8 ?w)"
  define b3 where "b3 = blit b2 (length ?w) e"
  have l: "length b1 = length b" "length b2 = length b" "length b3 = length b"
    using n by (simp_all add: b1_def b2_def b3_def)
  have s1: "sits b1 0 (le64 ts)" unfolding b1_def using n sits_blit_same [of 0 "le64 ts" b] by simp
  have s2: "sits b2 0 (le64 ts @ drop 8 ?w)"
    unfolding b2_def sits_append
    using n l s1 sits_blit_same [of 8 "drop 8 ?w" b1] sits_blit_other [OF s1, of 8 "drop 8 ?w"] by simp
  have s3: "sits b3 0 ((le64 ts @ drop 8 ?w) @ e)"
    unfolding b3_def sits_append [of _ _ "le64 ts @ drop 8 ?w"]
    using n l sits_blit_same [of "18 + int (length key) + int (length v)" e b2]
      sits_blit_other [OF s2, of "18 + int (length key) + int (length v)" e]
    by (simp add: nat_add_distrib add.assoc)
  then have "sits b3 0 (entry_bytes ts h key (v @ e))" by (simp add: entry_bytes_def)
  from sits_slice [OF this]
  have r: "go_slice b3 0 (int ?n) = Some (entry_bytes ts h key (v @ e))" by (simp add: algebra_simps)
  have "le_PutUint64 b ts = Some b1" using n by (simp add: b1_def le_PutUint64_eq)
  moreover have "go_copy b1 8 (drop 8 ?w) = Some (b2, int (length (drop 8 ?w)))"
    using n l by (simp add: go_copy_def b2_def)
  moreover have "go_copy b2 (int (length ?w)) e = Some (b3, int (length e))"
    using n l by (simp add: go_copy_def b3_def del: length_entry_bytes)
  moreover have "go_from ?w 8 = Some (drop 8 ?w)" by (simp add: go_from_eq)
  ultimately show ?thesis
    using r unfolding appendToWrappedEntry_def b_def
    by (auto simp: go_make_def nat_add_distrib simp del: length_entry_bytes split: if_splits)
qed

section \<open>Properties\<close>

text \<open>
  C7. The entry layout is a round trip for keys of fewer than 65518 bytes: the entry that
  \<open>wrapEntry\<close> builds, in whatever buffer, is read back field by field, and appending to it
  appends to the value and replaces the timestamp only. The bound is the exact one: for the
  lengths from 65518 to 65535 the reader panics (\<open>long_key_panics\<close>).
\<close>

theorem entry_roundtrip:
  assumes "length key < 65518"
  shows "\<exists>w buf'. wrapEntry ts h key v buf = Some (w, buf') \<and>
    readTimestampFromEntry w = Some ts \<and> readHashFromEntry w = Some h \<and>
    readKeyFromEntry w = Some key \<and> readEntry w = Some v \<and>
    (\<forall>key'. compareKeyFromEntry w key' = Some (key = key')) \<and>
    (\<forall>ts' e buf2. \<exists>w' buf2'. appendToWrappedEntry ts' w e buf2 = Some (w', buf2') \<and>
       readTimestampFromEntry w' = Some ts' \<and> readHashFromEntry w' = Some h \<and>
       readKeyFromEntry w' = Some key \<and> readEntry w' = Some (v @ e))"
proof -
  from wrapEntry_eq obtain buf' where w: "wrapEntry ts h key v buf = Some (entry_bytes ts h key v, buf')" by blast
  have a: "\<exists>w' buf2'. appendToWrappedEntry ts' (entry_bytes ts h key v) e buf2 = Some (w', buf2') \<and>
       readTimestampFromEntry w' = Some ts' \<and> readHashFromEntry w' = Some h \<and>
       readKeyFromEntry w' = Some key \<and> readEntry w' = Some (v @ e)" for ts' e buf2
    using append_entry_eq [of ts' ts h key v e buf2] assms
    by (auto simp: readTimestamp_entry readHash_entry readKey_entry readEntry_entry)
  show ?thesis
    using w assms a by (intro exI [of _ "entry_bytes ts h key v"] exI [of _ buf'])
      (simp add: readTimestamp_entry readHash_entry readKey_entry readEntry_entry compareKey_entry)
qed

theorem entry_roundtrip_witness:
  "length ([107, 101, 121] :: bytes) < 65518 \<and> (\<exists>w buf'. wrapEntry 5 9 [107, 101, 121] [1, 2] [] = Some (w, buf') \<and>
     readKeyFromEntry w = Some [107, 101, 121] \<and> readEntry w = Some [1, 2])"
proof -
  have "length ([107, 101, 121] :: bytes) < 65518" by simp
  moreover from entry_roundtrip [OF this, of 5 9 "[1, 2]" "[]"] obtain w buf' where
    "wrapEntry 5 9 [107, 101, 121] [1, 2] [] = Some (w, buf')"
    "readKeyFromEntry w = Some [107, 101, 121]" "readEntry w = Some [1, 2]"
    by (elim exE conjE) (rule that)
  ultimately show ?thesis by (intro conjI exI)
qed

lemma long_key_end:
  assumes "65518 \<le> n" "n < 65536" shows "uint (18 + of_nat n :: u16) = int n - 65518"
proof -
  have "uint (18 + of_nat n :: u16) = uint (word_of_int (18 + int n) :: u16)" by simp
  also have "\<dots> = (18 + int n) mod 65536" by (simp only: uint_word_of_int) simp
  also have "\<dots> = int n - 65518"
    using assms minus_mod_self2 [of "18 + int n" 65536] by (simp add: mod_pos_pos_trivial del: minus_mod_self2)
  finally show ?thesis .
qed

text \<open>
  A key of 65518 to 65535 bytes is accepted by \<open>wrapEntry\<close>, but every function that reads
  the key panics: \<open>headersSizeInBytes + length\<close> is a \<open>uint16\<close> sum and wraps around, so the
  slice bounds are inverted.
\<close>

theorem long_key_panics:
  assumes "65518 \<le> length key" "length key < 65536"
  shows "\<exists>w buf'. wrapEntry ts h key v buf = Some (w, buf') \<and> readKeyFromEntry w = None \<and>
    compareKeyFromEntry w key' = None"
proof -
  from wrapEntry_eq obtain buf' where "wrapEntry ts h key v buf = Some (entry_bytes ts h key v, buf')" by blast
  moreover have "go_slice (entry_bytes ts h key v) 18 (uint (18 + of_nat (length key) :: u16)) = None"
    using assms by (simp only: long_key_end) (simp add: go_slice_def)
  ultimately show ?thesis
    by (simp add: readKeyFromEntry_def compareKeyFromEntry_def readKeyLength_entry go_make_def)
qed

theorem long_key_panics_witness:
  "\<exists>w buf'. wrapEntry 5 9 (replicate 65518 107) [1] [] = Some (w, buf') \<and> readKeyFromEntry w = None"
proof -
  have "65518 \<le> length (replicate 65518 (107 :: byte))" "length (replicate 65518 (107 :: byte)) < 65536"
    by (simp_all only: length_replicate)
  from long_key_panics [OF this, of 5 9 "[1]" "[]" "[]"] show ?thesis by blast
qed

end
