(* ===== verification/Cache_Shard.thy ===== *)
theory Cache_Shard
  imports Cache_Entry "HOL-Library.Mapping" "HOL-Library.AList_Mapping"
begin

text \<open>
  \<open>bigcache/shard.go\<close> (with \<open>bigcache/config.go\<close>, \<open>stats.go\<close> and \<open>utils.go\<close>): one shard of
  the cache, a map from hashes to indices of a \<open>BytesQueue\<close> that holds the entries.

  State: the record \<open>cache_shard\<close>. The clock is an argument (\<open>now\<close>, the value of
  \<open>clock.Epoch()\<close>); the removal callback is a field that maps the statistics, the removed
  entry and the reason to the calls it makes into user code, which are appended to
  \<open>sh_events\<close>. Methods run under the shard's lock, so each is one atomic step; \<open>del\<close>, which
  takes the lock twice, is two steps. The slices the queue hands out alias its array, so
  \<open>resetKeyFromEntry\<close> on such a slice is a write into the array.
\<close>

section \<open>Configuration\<close>

datatype remove_reason = NoReason | Expired | NoSpace | Deleted

fun reason_code :: "remove_reason \<Rightarrow> nat" where
  "reason_code NoReason = 0"
| "reason_code Expired = 1"
| "reason_code NoSpace = 2"
| "reason_code Deleted = 3"

record cache_config =
  cfg_Shards :: int
  cfg_LifeWindowSeconds :: u64
  cfg_CleanWindow :: int
  cfg_MaxEntriesInWindow :: int
  cfg_MaxEntrySize :: int
  cfg_StatsEnabled :: bool
  cfg_Verbose :: bool
  cfg_HardMaxCacheSize :: int
  cfg_hasOnRemove :: bool
  cfg_hasOnRemoveWithMetadata :: bool
  cfg_hasOnRemoveWithReason :: bool
  cfg_onRemoveFilter :: int

definition go_max :: "int \<Rightarrow> int \<Rightarrow> int" where
  "go_max a b = (if a > b then a else b)"

definition go_min :: "int \<Rightarrow> int \<Rightarrow> int" where
  "go_min a b = (if a < b then a else b)"

definition convertMBToBytes :: "int \<Rightarrow> int" where
  "convertMBToBytes value = value * 1024 * 1024"

definition initialShardSize :: "cache_config \<Rightarrow> int option" where
  "initialShardSize c = do {
     n \<leftarrow> go_div (cfg_MaxEntriesInWindow c) (cfg_Shards c);
     Some (go_max n 10)
   }"

definition maximumShardSizeInBytes :: "cache_config \<Rightarrow> int option" where
  "maximumShardSizeInBytes c =
     (if cfg_HardMaxCacheSize c > 0
      then go_div (convertMBToBytes (cfg_HardMaxCacheSize c)) (cfg_Shards c)
      else Some 0)"

section \<open>The shard\<close>

datatype cache_error =
    ErrEntryNotFound
  | ErrQueue queue_error
  | ErrEntryTooBig

datatype callback_event =
    CalledOnRemove bytes bytes
  | CalledOnRemoveWithReason bytes bytes remove_reason
  | CalledOnRemoveWithMetadata bytes bytes u32

record cache_stats =
  st_Hits :: u64
  st_Misses :: u64
  st_DelHits :: u64
  st_DelMisses :: u64
  st_Collisions :: u64

type_synonym on_remove = "(u64, u32) mapping \<Rightarrow> bytes \<Rightarrow> remove_reason \<Rightarrow> callback_event list option"

record cache_shard =
  sh_hashmap :: "(u64, u32) mapping"
  sh_entries :: bytes_queue
  sh_entryBuffer :: bytes
  sh_onRemove :: on_remove
  sh_events :: "callback_event list"
  sh_statsEnabled :: bool
  sh_lifeWindow :: u64
  sh_hashmapStats :: "(u64, u32) mapping"
  sh_stats :: cache_stats

text \<open>Reading a Go map: the zero value for an absent key.\<close>

definition map_get :: "('k, 'v::zero) mapping \<Rightarrow> 'k \<Rightarrow> 'v" where
  "map_get m k = (case Mapping.lookup m k of None \<Rightarrow> 0 | Some v \<Rightarrow> v)"

definition sh_hit :: "cache_shard \<Rightarrow> u64 \<Rightarrow> cache_shard" where
  "sh_hit s key =
     (let s = s\<lparr>sh_stats := (sh_stats s)\<lparr>st_Hits := st_Hits (sh_stats s) + 1\<rparr>\<rparr>
      in if sh_statsEnabled s
         then s\<lparr>sh_hashmapStats := Mapping.update key (map_get (sh_hashmapStats s) key + 1) (sh_hashmapStats s)\<rparr>
         else s)"

definition sh_hitWithoutLock :: "cache_shard \<Rightarrow> u64 \<Rightarrow> cache_shard" where
  "sh_hitWithoutLock s key =
     (let s = s\<lparr>sh_stats := (sh_stats s)\<lparr>st_Hits := st_Hits (sh_stats s) + 1\<rparr>\<rparr>
      in if sh_statsEnabled s
         then s\<lparr>sh_hashmapStats := Mapping.update key (map_get (sh_hashmapStats s) key + 1) (sh_hashmapStats s)\<rparr>
         else s)"

definition sh_miss :: "cache_shard \<Rightarrow> cache_shard" where
  "sh_miss s = s\<lparr>sh_stats := (sh_stats s)\<lparr>st_Misses := st_Misses (sh_stats s) + 1\<rparr>\<rparr>"

definition sh_delhit :: "cache_shard \<Rightarrow> cache_shard" where
  "sh_delhit s = s\<lparr>sh_stats := (sh_stats s)\<lparr>st_DelHits := st_DelHits (sh_stats s) + 1\<rparr>\<rparr>"

definition sh_delmiss :: "cache_shard \<Rightarrow> cache_shard" where
  "sh_delmiss s = s\<lparr>sh_stats := (sh_stats s)\<lparr>st_DelMisses := st_DelMisses (sh_stats s) + 1\<rparr>\<rparr>"

definition sh_collision :: "cache_shard \<Rightarrow> cache_shard" where
  "sh_collision s = s\<lparr>sh_stats := (sh_stats s)\<lparr>st_Collisions := st_Collisions (sh_stats s) + 1\<rparr>\<rparr>"

text \<open>The call \<open>s.onRemove(wrappedEntry, reason)\<close>.\<close>

definition call_onRemove :: "cache_shard \<Rightarrow> bytes \<Rightarrow> remove_reason \<Rightarrow> cache_shard option" where
  "call_onRemove s w reason = do {
     ev \<leftarrow> sh_onRemove s (sh_hashmapStats s) w reason;
     Some (s\<lparr>sh_events := sh_events s @ ev\<rparr>)
   }"

text \<open>A write through a slice of the array that starts at \<open>off\<close>.\<close>

definition write_entry :: "cache_shard \<Rightarrow> int \<Rightarrow> bytes \<Rightarrow> cache_shard" where
  "write_entry s off d =
     s\<lparr>sh_entries := (sh_entries s)\<lparr>bq_array := blit (bq_array (sh_entries s)) (nat off) d\<rparr>\<rparr>"

definition getWrappedEntry :: "cache_shard \<Rightarrow> u64 \<Rightarrow> ((cache_error + bytes) \<times> cache_shard) option" where
  "getWrappedEntry s hashedKey =
     (let itemIndex = map_get (sh_hashmap s) hashedKey
      in if itemIndex = 0 then Some (Inl ErrEntryNotFound, sh_miss s)
         else do {
           r \<leftarrow> bq_Get (sh_entries s) (uint itemIndex);
           case r of
             Inl e \<Rightarrow> Some (Inl (ErrQueue e), sh_miss s)
           | Inr w \<Rightarrow> Some (Inr w, s)
         })"

definition sh_get :: "cache_shard \<Rightarrow> bytes \<Rightarrow> u64 \<Rightarrow> ((cache_error + bytes) \<times> cache_shard) option" where
  "sh_get s key hashedKey = do {
     (r, s) \<leftarrow> getWrappedEntry s hashedKey;
     case r of
       Inl e \<Rightarrow> Some (Inl e, s)
     | Inr wrappedEntry \<Rightarrow> do {
         entryKey \<leftarrow> readKeyFromEntry wrappedEntry;
         if key \<noteq> entryKey then Some (Inl ErrEntryNotFound, sh_collision s)
         else do {
           entry \<leftarrow> readEntry wrappedEntry;
           Some (Inr entry, sh_hit s hashedKey)
         }
       }
   }"

text \<open>The response's \<open>EntryStatus\<close> is its zero value unless the entry has expired.\<close>

definition sh_getWithInfo ::
  "cache_shard \<Rightarrow> bytes \<Rightarrow> u64 \<Rightarrow> u64 \<Rightarrow> ((cache_error + bytes \<times> remove_reason) \<times> cache_shard) option" where
  "sh_getWithInfo s key hashedKey now = do {
     (r, s) \<leftarrow> getWrappedEntry s hashedKey;
     case r of
       Inl e \<Rightarrow> Some (Inl e, s)
     | Inr wrappedEntry \<Rightarrow> do {
         entryKey \<leftarrow> readKeyFromEntry wrappedEntry;
         if key \<noteq> entryKey then Some (Inl ErrEntryNotFound, sh_collision s)
         else do {
           entry \<leftarrow> readEntry wrappedEntry;
           oldestTimeStamp \<leftarrow> readTimestampFromEntry wrappedEntry;
           let s = sh_hit s hashedKey;
           Some (Inr (entry, if now - oldestTimeStamp \<ge> sh_lifeWindow s then Expired else NoReason), s)
         }
       }
   }"

definition getValidWrapEntry ::
  "cache_shard \<Rightarrow> bytes \<Rightarrow> u64 \<Rightarrow> ((cache_error + bytes) \<times> cache_shard) option" where
  "getValidWrapEntry s key hashedKey = do {
     (r, s) \<leftarrow> getWrappedEntry s hashedKey;
     case r of
       Inl e \<Rightarrow> Some (Inl e, s)
     | Inr wrappedEntry \<Rightarrow> do {
         same \<leftarrow> compareKeyFromEntry wrappedEntry key;
         if \<not> same then Some (Inl ErrEntryNotFound, sh_collision s)
         else Some (Inr wrappedEntry, sh_hitWithoutLock s hashedKey)
       }
   }"

definition removeOldestEntry ::
  "cache_shard \<Rightarrow> remove_reason \<Rightarrow> (queue_error option \<times> cache_shard) option" where
  "removeOldestEntry s reason = do {
     (r, q) \<leftarrow> bq_Pop (sh_entries s);
     let s = s\<lparr>sh_entries := q\<rparr>;
     case r of
       Inl e \<Rightarrow> Some (Some e, s)
     | Inr oldest \<Rightarrow> do {
         hash \<leftarrow> readHashFromEntry oldest;
         if hash = 0 then Some (None, s)
         else do {
           let s = s\<lparr>sh_hashmap := Mapping.delete hash (sh_hashmap s)\<rparr>;
           s \<leftarrow> call_onRemove s oldest reason;
           Some (None, if sh_statsEnabled s
             then s\<lparr>sh_hashmapStats := Mapping.delete hash (sh_hashmapStats s)\<rparr> else s)
         }
       }
   }"

definition sh_onEvict ::
  "cache_shard \<Rightarrow> bytes \<Rightarrow> u64 \<Rightarrow> (cache_shard \<Rightarrow> remove_reason \<Rightarrow> (queue_error option \<times> cache_shard) option)
    \<Rightarrow> (bool \<times> cache_shard) option" where
  "sh_onEvict s oldestEntry currentTimestamp evict = do {
     oldestTimestamp \<leftarrow> readTimestampFromEntry oldestEntry;
     if currentTimestamp - oldestTimestamp > sh_lifeWindow s
     then do { (_, s) \<leftarrow> evict s Expired; Some (True, s) }
     else Some (False, s)
   }"

text \<open>The blocks shared by the writing methods: clear the previous entry of the hash, and
  evict the oldest entry if it has expired.\<close>

definition clear_previous :: "cache_shard \<Rightarrow> u64 \<Rightarrow> cache_shard option" where
  "clear_previous s hashedKey =
     (let previousIndex = map_get (sh_hashmap s) hashedKey
      in if previousIndex \<noteq> 0 then do {
           r \<leftarrow> bq_peek (sh_entries s) (uint previousIndex);
           case r of
             Inl _ \<Rightarrow> Some s
           | Inr (previousEntry, n) \<Rightarrow> do {
               d \<leftarrow> resetKeyFromEntry previousEntry;
               Some (write_entry s (uint previousIndex + n) d)
             }
         } else Some s)"

definition evict_expired :: "cache_shard \<Rightarrow> u64 \<Rightarrow> cache_shard option" where
  "evict_expired s currentTimestamp = do {
     r \<leftarrow> bq_Peek (sh_entries s);
     case r of
       Inl _ \<Rightarrow> Some s
     | Inr oldestEntry \<Rightarrow> do {
         (_, s) \<leftarrow> sh_onEvict s oldestEntry currentTimestamp removeOldestEntry;
         Some s
       }
   }"

text \<open>The \<open>for\<close> loop that pushes the entry, removing old entries while the queue is full.
  \<open>None\<close> is a panic or a loop that does not end.\<close>

partial_function (option) push_loop ::
  "cache_shard \<Rightarrow> bytes \<Rightarrow> u64 \<Rightarrow> (cache_error option \<times> cache_shard) option" where
  "push_loop s w hashedKey = do {
     (r, q) \<leftarrow> bq_Push (sh_entries s) w;
     let s = s\<lparr>sh_entries := q\<rparr>;
     case r of
       Inr index \<Rightarrow> Some (None, s\<lparr>sh_hashmap := Mapping.update hashedKey (word_of_int index) (sh_hashmap s)\<rparr>)
     | Inl _ \<Rightarrow> do {
         (e, s) \<leftarrow> removeOldestEntry s NoSpace;
         if e \<noteq> None then Some (Some ErrEntryTooBig, s)
         else push_loop s w hashedKey
       }
   }"

declare push_loop.simps [code]

definition sh_set ::
  "cache_shard \<Rightarrow> bytes \<Rightarrow> u64 \<Rightarrow> bytes \<Rightarrow> u64 \<Rightarrow> (cache_error option \<times> cache_shard) option" where
  "sh_set s key hashedKey entry currentTimestamp = do {
     s \<leftarrow> clear_previous s hashedKey;
     s \<leftarrow> evict_expired s currentTimestamp;
     (w, buf) \<leftarrow> wrapEntry currentTimestamp hashedKey key entry (sh_entryBuffer s);
     push_loop (s\<lparr>sh_entryBuffer := buf\<rparr>) w hashedKey
   }"

definition addNewWithoutLock ::
  "cache_shard \<Rightarrow> bytes \<Rightarrow> u64 \<Rightarrow> bytes \<Rightarrow> u64 \<Rightarrow> (cache_error option \<times> cache_shard) option" where
  "addNewWithoutLock s key hashedKey entry currentTimestamp = do {
     s \<leftarrow> evict_expired s currentTimestamp;
     (w, buf) \<leftarrow> wrapEntry currentTimestamp hashedKey key entry (sh_entryBuffer s);
     push_loop (s\<lparr>sh_entryBuffer := buf\<rparr>) w hashedKey
   }"

definition setWrappedEntryWithoutLock ::
  "cache_shard \<Rightarrow> u64 \<Rightarrow> bytes \<Rightarrow> u64 \<Rightarrow> (cache_error option \<times> cache_shard) option" where
  "setWrappedEntryWithoutLock s currentTimestamp w hashedKey = do {
     s \<leftarrow> clear_previous s hashedKey;
     s \<leftarrow> evict_expired s currentTimestamp;
     push_loop s w hashedKey
   }"

text \<open>\<open>addNewWithoutLock\<close> and \<open>append\<close> read the clock once each; \<open>now\<close> is that reading.\<close>

definition sh_append ::
  "cache_shard \<Rightarrow> bytes \<Rightarrow> u64 \<Rightarrow> bytes \<Rightarrow> u64 \<Rightarrow> (cache_error option \<times> cache_shard) option" where
  "sh_append s key hashedKey entry now = do {
     (r, s) \<leftarrow> getValidWrapEntry s key hashedKey;
     case r of
       Inl e \<Rightarrow> if e = ErrEntryNotFound then addNewWithoutLock s key hashedKey entry now
                else Some (Some e, s)
     | Inr wrappedEntry \<Rightarrow> do {
         (w, buf) \<leftarrow> appendToWrappedEntry now wrappedEntry entry (sh_entryBuffer s);
         setWrappedEntryWithoutLock (s\<lparr>sh_entryBuffer := buf\<rparr>) now w hashedKey
       }
   }"

text \<open>\<open>del\<close> under the read lock: an error ends the call, \<open>None\<close> lets it go on.\<close>

definition sh_del_check :: "cache_shard \<Rightarrow> u64 \<Rightarrow> cache_error option \<times> cache_shard" where
  "sh_del_check s hashedKey =
     (let itemIndex = map_get (sh_hashmap s) hashedKey
      in if itemIndex = 0 then (Some ErrEntryNotFound, sh_delmiss s)
         else case bq_CheckGet (sh_entries s) (uint itemIndex) of
                Some e \<Rightarrow> (Some (ErrQueue e), sh_delmiss s)
              | None \<Rightarrow> (None, s))"

text \<open>\<open>del\<close> under the write lock, on whatever state the shard is in by then.\<close>

definition sh_del_locked :: "cache_shard \<Rightarrow> u64 \<Rightarrow> (cache_error option \<times> cache_shard) option" where
  "sh_del_locked s hashedKey =
     (let itemIndex = map_get (sh_hashmap s) hashedKey
      in if itemIndex = 0 then Some (Some ErrEntryNotFound, sh_delmiss s)
         else do {
           r \<leftarrow> bq_peek (sh_entries s) (uint itemIndex);
           case r of
             Inl e \<Rightarrow> Some (Some (ErrQueue e), sh_delmiss s)
           | Inr (wrappedEntry, n) \<Rightarrow> do {
               let s = s\<lparr>sh_hashmap := Mapping.delete hashedKey (sh_hashmap s)\<rparr>;
               s \<leftarrow> call_onRemove s wrappedEntry Deleted;
               let s = (if sh_statsEnabled s
                 then s\<lparr>sh_hashmapStats := Mapping.delete hashedKey (sh_hashmapStats s)\<rparr> else s);
               d \<leftarrow> resetKeyFromEntry wrappedEntry;
               Some (None, sh_delhit (write_entry s (uint itemIndex + n) d))
             }
         })"

definition sh_del :: "cache_shard \<Rightarrow> u64 \<Rightarrow> (cache_error option \<times> cache_shard) option" where
  "sh_del s hashedKey =
     (case sh_del_check s hashedKey of
        (Some e, s) \<Rightarrow> Some (Some e, s)
      | (None, s) \<Rightarrow> sh_del_locked s hashedKey)"

partial_function (option) sh_cleanUp :: "cache_shard \<Rightarrow> u64 \<Rightarrow> cache_shard option" where
  "sh_cleanUp s currentTimestamp = do {
     r \<leftarrow> bq_Peek (sh_entries s);
     case r of
       Inl _ \<Rightarrow> Some s
     | Inr oldestEntry \<Rightarrow> do {
         (evicted, s) \<leftarrow> sh_onEvict s oldestEntry currentTimestamp removeOldestEntry;
         if \<not> evicted then Some s else sh_cleanUp s currentTimestamp
       }
   }"

declare sh_cleanUp.simps [code]

definition sh_getEntry :: "cache_shard \<Rightarrow> u64 \<Rightarrow> ((cache_error + bytes) \<times> cache_shard) option" where
  "sh_getEntry s hashedKey = getWrappedEntry s hashedKey"

text \<open>\<open>order\<close> is the order in which the runtime iterates over the keys of a map.\<close>

definition copyHashedKeys :: "(u64 set \<Rightarrow> u64 list) \<Rightarrow> cache_shard \<Rightarrow> u64 list \<times> int" where
  "copyHashedKeys order s = (let keys = order (Mapping.keys (sh_hashmap s)) in (keys, int (length keys)))"

definition sh_reset :: "cache_shard \<Rightarrow> cache_config \<Rightarrow> cache_shard option" where
  "sh_reset s config = do {
     _ \<leftarrow> initialShardSize config;
     buf \<leftarrow> go_make 0 (cfg_MaxEntrySize config + headersSizeInBytes);
     Some (s\<lparr>sh_hashmap := Mapping.empty, sh_entryBuffer := buf, sh_entries := bq_Reset (sh_entries s)\<rparr>)
   }"

definition sh_len :: "cache_shard \<Rightarrow> int" where
  "sh_len s = int (Mapping.size (sh_hashmap s))"

definition sh_capacity :: "cache_shard \<Rightarrow> int" where
  "sh_capacity s = bq_Capacity (sh_entries s)"

definition sh_getStats :: "cache_shard \<Rightarrow> cache_stats" where
  "sh_getStats s = \<lparr>st_Hits = st_Hits (sh_stats s), st_Misses = st_Misses (sh_stats s),
     st_DelHits = st_DelHits (sh_stats s), st_DelMisses = st_DelMisses (sh_stats s),
     st_Collisions = st_Collisions (sh_stats s)\<rparr>"

definition getKeyMetadataWithLock :: "cache_shard \<Rightarrow> u64 \<Rightarrow> u32" where
  "getKeyMetadataWithLock s key = map_get (sh_hashmapStats s) key"

definition getKeyMetadata :: "cache_shard \<Rightarrow> u64 \<Rightarrow> u32" where
  "getKeyMetadata s key = map_get (sh_hashmapStats s) key"

definition initNewShard :: "cache_config \<Rightarrow> on_remove \<Rightarrow> cache_shard option" where
  "initNewShard config callback = do {
     n \<leftarrow> initialShardSize config;
     maximumShardSize \<leftarrow> maximumShardSizeInBytes config;
     let cap0 = n * cfg_MaxEntrySize config;
     let cap1 = (if maximumShardSize > 0 \<and> cap0 > maximumShardSize then maximumShardSize else cap0);
     q \<leftarrow> NewBytesQueue cap1 maximumShardSize (cfg_Verbose config);
     buf \<leftarrow> go_make 0 (cfg_MaxEntrySize config + headersSizeInBytes);
     Some \<lparr>sh_hashmap = Mapping.empty, sh_entries = q, sh_entryBuffer = buf, sh_onRemove = callback,
       sh_events = [], sh_statsEnabled = cfg_StatsEnabled config,
       sh_lifeWindow = cfg_LifeWindowSeconds config, sh_hashmapStats = Mapping.empty,
       sh_stats = \<lparr>st_Hits = 0, st_Misses = 0, st_DelHits = 0, st_DelMisses = 0, st_Collisions = 0\<rparr>\<rparr>
   }"

end
