(* ===== verification/Cache_Shard_Inv.thy ===== *)
theory Cache_Shard_Inv
  imports Cache_Shard
begin

text \<open>
  The invariant of a cache shard and what every method does to it. The hash map and the
  queue agree: every hash of the map points to a live entry that carries this hash, and
  every live entry with a nonzero hash is the one the map points to. \<open>shard_map\<close> is the
  abstract view of a shard, the key and the value it holds for a hash; the lemmas show
  the methods as operations on that map, up to evictions.
\<close>

section \<open>Well-formed entries\<close>

definition wf_entry :: "bytes \<Rightarrow> bool" where
  "wf_entry d \<longleftrightarrow> (\<exists>ts h key v. d = entry_bytes ts h key v \<and> length key < 65518)"

definition cell_ok :: "bytes \<Rightarrow> bool" where
  "cell_ok d \<longleftrightarrow> wf_entry d \<or> (\<exists>n \<ge> 16. d = replicate n 0)"

definition cb_total :: "on_remove \<Rightarrow> bool" where
  "cb_total cb \<longleftrightarrow> (\<forall>st w r. wf_entry w \<longrightarrow> (\<exists>ev. cb st w r = Some ev))"

text \<open>
  Agreement of the map and the entries. The hash \<open>x\<close> is exempt: the writing methods clear
  the entry of the hash they are about to set before they push the new one.
\<close>

definition indexed :: "u64 \<Rightarrow> (u64, u32) mapping \<Rightarrow> (int \<times> bytes) list \<Rightarrow> bool" where
  "indexed x hm ps \<longleftrightarrow>
     (\<forall>h i. h \<noteq> x \<longrightarrow> Mapping.lookup hm h = Some i \<longrightarrow>
        h \<noteq> 0 \<and> i \<noteq> 0 \<and> (\<exists>d. (uint i, d) \<in> set ps \<and> wf_entry d \<and> readHashFromEntry d = Some h)) \<and>
     (\<forall>k d h. (k, d) \<in> set ps \<longrightarrow> readHashFromEntry d = Some h \<longrightarrow> h \<noteq> 0 \<longrightarrow>
        h \<noteq> x \<and> (\<exists>i. Mapping.lookup hm h = Some i \<and> uint i = k))"

definition shard_ok :: "u64 \<Rightarrow> cache_shard \<Rightarrow> (int \<times> bytes) list \<Rightarrow> bool" where
  "shard_ok x s ps \<longleftrightarrow> bq_rep (sh_entries s) ps \<and> bq_gap (sh_entries s) \<and>
     (\<forall>(k, d) \<in> set ps. cell_ok d) \<and> indexed x (sh_hashmap s) ps \<and> cb_total (sh_onRemove s)"

definition shard_inv :: "cache_shard \<Rightarrow> (int \<times> bytes) list \<Rightarrow> bool" where
  "shard_inv s ps \<longleftrightarrow> shard_ok 0 s ps \<and> Mapping.lookup (sh_hashmap s) 0 = None"

text \<open>Nothing but removals, outside the hash \<open>x\<close>.\<close>

definition shrinks ::
  "u64 \<Rightarrow> cache_shard \<Rightarrow> (int \<times> bytes) list \<Rightarrow> cache_shard \<Rightarrow> (int \<times> bytes) list \<Rightarrow> bool" where
  "shrinks x s ps s' ps' \<longleftrightarrow>
     (\<forall>h i. h \<noteq> x \<longrightarrow> Mapping.lookup (sh_hashmap s') h = Some i \<longrightarrow> Mapping.lookup (sh_hashmap s) h = Some i) \<and>
     (\<forall>k d h. (k, d) \<in> set ps' \<longrightarrow> readHashFromEntry d = Some h \<longrightarrow> h \<noteq> 0 \<longrightarrow> h \<noteq> x \<longrightarrow> (k, d) \<in> set ps) \<and>
     sh_lifeWindow s' = sh_lifeWindow s \<and> sh_onRemove s' = sh_onRemove s"

text \<open>The abstract view: the key and the value stored under a hash.\<close>

definition shard_map :: "cache_shard \<Rightarrow> u64 \<Rightarrow> (bytes \<times> bytes) option" where
  "shard_map s h = do {
     i \<leftarrow> Mapping.lookup (sh_hashmap s) h;
     r \<leftarrow> bq_Get (sh_entries s) (uint i);
     case r of
       Inl _ \<Rightarrow> None
     | Inr d \<Rightarrow> do {
         key \<leftarrow> readKeyFromEntry d;
         v \<leftarrow> readEntry d;
         Some (key, v)
       }
   }"

section \<open>Lemmas on entries\<close>

lemma lookup_delete_if:
  "Mapping.lookup (Mapping.delete k m) k' = (if k = k' then None else Mapping.lookup m k')"
  by simp

lemma wf_entryE:
  assumes "wf_entry d"
  obtains ts h key v where "d = entry_bytes ts h key v" "length key < 65518"
    "readHashFromEntry d = Some h" "readKeyFromEntry d = Some key" "readEntry d = Some v"
    "readTimestampFromEntry d = Some ts"
  using assms
  by (auto simp: wf_entry_def readHash_entry readKey_entry readEntry_entry readTimestamp_entry)

lemma wf_entry_bytes: "length key < 65518 \<Longrightarrow> wf_entry (entry_bytes ts h key v)"
  by (auto simp: wf_entry_def)

lemma cell_ok_length: "cell_ok d \<Longrightarrow> 16 \<le> length d"
  by (auto simp: cell_ok_def wf_entry_def)

lemma cell_ok_hash: "cell_ok d \<Longrightarrow> readHashFromEntry d = Some h \<Longrightarrow> h \<noteq> 0 \<Longrightarrow> wf_entry d"
  by (auto simp: cell_ok_def readHash_zero)

lemma blank_cell: "17 \<le> g \<Longrightarrow> cell_ok (replicate (nat (blank_len g)) 0)"
proof -
  assume g: "17 \<le> g"
  have "getUvarintSize (word_of_int g) \<le> (if g < 128 then 1 else 5)"
  proof (cases "g < 128")
    case True
    then have "(word_of_int g :: u32) < 128"
      using g unat_of_nat_word [of "nat g", where 'a = 32] by (simp add: word_less_nat_alt)
    then show ?thesis using True by (simp add: getUvarintSize_def)
  qed (simp add: getUvarintSize_def)
  with g have "16 \<le> nat (blank_len g)" by (auto simp: blank_len_def split: if_splits)
  then show ?thesis by (auto simp: cell_ok_def)
qed

lemma realloc_cells:
  assumes "realloc_spec q ps ps'" "bq_gap q" "\<forall>(k, d) \<in> set ps. cell_ok d"
  shows "set ps \<subseteq> set ps'" "\<forall>(k, d) \<in> set ps'. cell_ok d"
    "(k, d) \<in> set ps' \<Longrightarrow> readHashFromEntry d = Some h \<Longrightarrow> h \<noteq> 0 \<Longrightarrow> (k, d) \<in> set ps"
proof -
  have blank: "cell_ok (replicate (nat (blank_len (bq_head q - bq_tail q))) 0)"
    if "bq_tail q < bq_head q"
    using that assms(2) by (intro blank_cell) (auto simp: bq_gap_def)
  show "set ps \<subseteq> set ps'" using assms(1) by (auto simp: realloc_spec_def)
  show "\<forall>(k, d) \<in> set ps'. cell_ok d"
    using assms(1,3) blank by (fastforce simp: realloc_spec_def)
  show "(k, d) \<in> set ps'  \<Longrightarrow> readHashFromEntry d = Some h \<Longrightarrow> h \<noteq> 0 \<Longrightarrow> (k, d) \<in> set ps"
    using assms(1) blank cell_ok_length
    by (fastforce simp: realloc_spec_def readHash_zero)
qed

lemma shrinks_refl: "shrinks x s ps s ps"
  by (auto simp: shrinks_def)

lemma shrinks_trans: "shrinks x s ps s' ps' \<Longrightarrow> shrinks x s' ps' s'' ps'' \<Longrightarrow> shrinks x s ps s'' ps''"
  unfolding shrinks_def by (intro conjI) (blast, blast, simp, simp)

section \<open>Eviction\<close>

lemma removeOldest_empty:
  "shard_ok x s [] \<Longrightarrow> removeOldestEntry s r = Some (Some ErrEmptyQueue, s)"
  by (simp add: shard_ok_def removeOldestEntry_def empty_ops)

lemma indexed_pop_zero:
  assumes "indexed x hm ((k, d) # ps)" "readHashFromEntry d = Some 0"
  shows "indexed x hm ps"
  using assms unfolding indexed_def by (fastforce)

lemma indexedD1:
  assumes "indexed x hm ps" "h \<noteq> x" "Mapping.lookup hm h = Some i"
  obtains d where "h \<noteq> 0" "i \<noteq> 0" "(uint i, d) \<in> set ps" "wf_entry d" "readHashFromEntry d = Some h"
  using assms unfolding indexed_def by blast

lemma indexedD2:
  assumes "indexed x hm ps" "(k, d) \<in> set ps" "readHashFromEntry d = Some h" "h \<noteq> 0"
  obtains i where "h \<noteq> x" "Mapping.lookup hm h = Some i" "uint i = k"
  using assms unfolding indexed_def by blast

lemma indexed_pop:
  assumes ix: "indexed x hm ((k, d) # ps)" and h: "readHashFromEntry d = Some h" "h \<noteq> 0"
    and dist: "distinct (map fst ((k, d) # ps))"
  shows "indexed x (Mapping.delete h hm) ps"
proof -
  from indexedD2 [OF ix _ h] obtain i where i: "h \<noteq> x" "Mapping.lookup hm h = Some i" "uint i = k"
    by auto
  have other: "h' \<noteq> h" if "(k', d') \<in> set ps" "readHashFromEntry d' = Some h'" "h' \<noteq> 0" for k' d' h'
  proof
    assume "h' = h"
    with indexedD2 [OF ix _ that(2,3), of k'] that(1) i have "k' = k" by auto
    with dist that(1) show False by force
  qed
  show ?thesis
    unfolding indexed_def
  proof (intro conjI allI impI)
    fix h' i' assume a: "h' \<noteq> x" "Mapping.lookup (Mapping.delete h hm) h' = Some i'"
    then have "h' \<noteq> h" "Mapping.lookup hm h' = Some i'"
      by (auto simp: lookup_delete_if split: if_splits)
    with a(1) indexedD1 [OF ix] h(1) obtain d' where "h' \<noteq> 0" "i' \<noteq> 0" "(uint i', d') \<in> set ((k, d) # ps)"
      "wf_entry d'" "readHashFromEntry d' = Some h'" by metis
    with h(1) \<open>h' \<noteq> h\<close> show "h' \<noteq> 0" "i' \<noteq> 0"
      "\<exists>d. (uint i', d) \<in> set ps \<and> wf_entry d \<and> readHashFromEntry d = Some h'" by auto
  next
    fix k' d' h' assume a: "(k', d') \<in> set ps" "readHashFromEntry d' = Some h'" "h' \<noteq> 0"
    from indexedD2 [OF ix _ a(2,3), of k'] a(1) show "h' \<noteq> x" by auto
    from indexedD2 [OF ix _ a(2,3), of k'] a(1) other [OF a]
    show "\<exists>i. Mapping.lookup (Mapping.delete h hm) h' = Some i \<and> uint i = k'"
      by (metis list.set_intros(2) lookup_delete_neq)
  qed
qed

lemma removeOldest_ok:
  assumes ok: "shard_ok x s ((k, d) # ps)"
  shows "\<exists>s'. removeOldestEntry s r = Some (None, s') \<and> shard_ok x s' ps \<and>
    shrinks x s ((k, d) # ps) s' ps \<and>
    Mapping.lookup (sh_hashmap s') x = Mapping.lookup (sh_hashmap s) x \<and>
    bq_maxCapacity (sh_entries s') = bq_maxCapacity (sh_entries s) \<and>
    bq_capacity (sh_entries s') = bq_capacity (sh_entries s) \<and>
    bq_Pop (sh_entries s) = Some (Inr d, sh_entries s')"
proof -
  from ok have rep: "bq_rep (sh_entries s) ((k, d) # ps)" and gap: "bq_gap (sh_entries s)"
    and cell: "cell_ok d" and cells: "\<forall>(k, d) \<in> set ps. cell_ok d"
    and ix: "indexed x (sh_hashmap s) ((k, d) # ps)" and cb: "cb_total (sh_onRemove s)"
    by (auto simp: shard_ok_def)
  from Pop_rep [OF rep] obtain q where q: "bq_Pop (sh_entries s) = Some (Inr d, q)" "bq_rep q ps"
    "bq_maxCapacity q = bq_maxCapacity (sh_entries s)" "bq_capacity q = bq_capacity (sh_entries s)" by blast
  note gap' = Pop_gap [OF rep gap cell_ok_length [OF cell] q(1)]
  from readHash_total [OF cell_ok_length [OF cell]] obtain h where h: "readHashFromEntry d = Some h" by blast
  show ?thesis
  proof (cases "h = 0")
    case True
    with h q gap' cells cb indexed_pop_zero [OF ix] show ?thesis
      by (auto simp: removeOldestEntry_def shard_ok_def shrinks_def)
  next
    case False
    from cell_ok_hash [OF cell h False] cb obtain ev where
      ev: "sh_onRemove s (sh_hashmapStats s) d r = Some ev" unfolding cb_total_def by blast
    have hx: "h \<noteq> x" using indexedD2 [OF ix _ h False] by auto
    define s1 where "s1 = s\<lparr>sh_entries := q, sh_hashmap := Mapping.delete h (sh_hashmap s),
      sh_events := sh_events s @ ev, sh_hashmapStats := (if sh_statsEnabled s
        then Mapping.delete h (sh_hashmapStats s) else sh_hashmapStats s)\<rparr>"
    have "removeOldestEntry s r = Some (None, s1)"
      using q(1) h ev False by (simp add: removeOldestEntry_def call_onRemove_def s1_def Let_def)
    moreover have "shard_ok x s1 ps"
      using q gap' cells cb indexed_pop [OF ix h False rep_distinct [OF rep]]
      by (simp add: shard_ok_def s1_def)
    moreover have "shrinks x s ((k, d) # ps) s1 ps"
      by (simp add: shrinks_def s1_def lookup_delete_if)
    ultimately show ?thesis using q(1,3,4) hx by (auto simp: s1_def)
  qed
qed

lemma shard_ok_cong:
  "shard_ok x s ps \<Longrightarrow> sh_entries s' = sh_entries s \<Longrightarrow> sh_hashmap s' = sh_hashmap s \<Longrightarrow>
   sh_onRemove s' = sh_onRemove s \<Longrightarrow> shard_ok x s' ps"
  by (simp add: shard_ok_def)

text \<open>The queue after \<open>evict_expired\<close>.\<close>

definition evicted_queue :: "bytes_queue \<Rightarrow> u64 \<Rightarrow> u64 \<Rightarrow> bytes_queue" where
  "evicted_queue q now life =
     (case bq_Peek q of
        Some (Inr d) \<Rightarrow>
          (case readTimestampFromEntry d of
             Some t \<Rightarrow> if now - t > life then snd (the (bq_Pop q)) else q
           | None \<Rightarrow> q)
      | _ \<Rightarrow> q)"

lemma onEvict_ok:
  assumes ok: "shard_ok x s ((k, d) # ps)"
  shows "\<exists>b s' ps'. sh_onEvict s d now removeOldestEntry = Some (b, s') \<and> shard_ok x s' ps' \<and>
    shrinks x s ((k, d) # ps) s' ps' \<and> ps' = (if b then ps else (k, d) # ps) \<and>
    Mapping.lookup (sh_hashmap s') x = Mapping.lookup (sh_hashmap s) x \<and>
    sh_entries s' = evicted_queue (sh_entries s) now (sh_lifeWindow s) \<and>
    (\<not> b \<longrightarrow> s' = s \<and> (\<exists>t. readTimestampFromEntry d = Some t \<and> now - t \<le> sh_lifeWindow s))"
proof -
  from ok have "cell_ok d" and pk: "bq_Peek (sh_entries s) = Some (Inr d)"
    by (auto simp: shard_ok_def intro: Peek_head)
  with readTimestamp_total [of d] cell_ok_length [of d] obtain t where t: "readTimestampFromEntry d = Some t"
    by fastforce
  show ?thesis
  proof (cases "now - t > sh_lifeWindow s")
    case True
    from removeOldest_ok [OF ok, of Expired] obtain s' where
      "removeOldestEntry s Expired = Some (None, s')" "shard_ok x s' ps"
      "shrinks x s ((k, d) # ps) s' ps"
      "Mapping.lookup (sh_hashmap s') x = Mapping.lookup (sh_hashmap s) x"
      "bq_Pop (sh_entries s) = Some (Inr d, sh_entries s')" by blast
    with t True pk show ?thesis
      by (intro exI [of _ True] exI [of _ s'] exI [of _ ps]) (simp add: sh_onEvict_def evicted_queue_def)
  next
    case False
    then have "sh_onEvict s d now removeOldestEntry = Some (False, s)" "now - t \<le> sh_lifeWindow s"
      using t by (simp_all add: sh_onEvict_def)
    with t ok pk False show ?thesis
      by (intro exI [of _ False] exI [of _ s] exI [of _ "(k, d) # ps"])
        (simp add: shrinks_refl evicted_queue_def)
  qed
qed

lemma evict_expired_ok:
  assumes ok: "shard_ok x s ps"
  shows "\<exists>s' ps'. evict_expired s now = Some s' \<and> shard_ok x s' ps' \<and> shrinks x s ps s' ps' \<and>
    Mapping.lookup (sh_hashmap s') x = Mapping.lookup (sh_hashmap s) x \<and>
    sh_entries s' = evicted_queue (sh_entries s) now (sh_lifeWindow s)"
proof (cases ps)
  case Nil
  with ok show ?thesis
    by (auto simp: evict_expired_def evicted_queue_def shard_ok_def empty_ops shrinks_refl)
next
  case (Cons p ps')
  obtain k d where p: "p = (k, d)" by (cases p)
  have "bq_Peek (sh_entries s) = Some (Inr d)"
    using ok Cons p by (auto simp: shard_ok_def intro: Peek_head)
  moreover from onEvict_ok [of x s k d ps' now] ok Cons p obtain b s' ps'' where
    "sh_onEvict s d now removeOldestEntry = Some (b, s')" "shard_ok x s' ps''"
    "shrinks x s ps s' ps''" "Mapping.lookup (sh_hashmap s') x = Mapping.lookup (sh_hashmap s) x"
    "sh_entries s' = evicted_queue (sh_entries s) now (sh_lifeWindow s)" by blast
  ultimately show ?thesis by (intro exI [of _ s'] exI [of _ ps'']) (simp add: evict_expired_def)
qed

section \<open>Clearing the previous entry\<close>

lemma indexed_exempt:
  assumes "indexed 0 hm ps" "Mapping.lookup hm 0 = None" "Mapping.lookup hm h = None" "h \<noteq> 0"
  shows "indexed h hm ps"
  unfolding indexed_def
proof (intro conjI allI impI)
  fix h' i assume l: "Mapping.lookup hm h' = Some i"
  with assms(2) have "h' \<noteq> 0" by auto
  from indexedD1 [OF assms(1) this l] show "h' \<noteq> 0" "i \<noteq> 0"
    "\<exists>d. (uint i, d) \<in> set ps \<and> wf_entry d \<and> readHashFromEntry d = Some h'" by blast+
next
  fix k d h' assume "(k, d) \<in> set ps" "readHashFromEntry d = Some h'" "h' \<noteq> 0"
  from indexedD2 [OF assms(1) this] obtain i where i: "Mapping.lookup hm h' = Some i" "uint i = k" by blast
  then show "\<exists>i. Mapping.lookup hm h' = Some i \<and> uint i = k" by blast
  from i assms(3) show "h' \<noteq> h" by auto
qed

lemma reset_wf:
  assumes "wf_entry d"
  shows "wf_entry (blit d 8 (le64 0))" "readHashFromEntry (blit d 8 (le64 0)) = Some 0"
    "resetKeyFromEntry d = Some (blit d 8 (le64 0))"
proof -
  from assms obtain ts h key v where d: "d = entry_bytes ts h key v" "length key < 65518"
    by (auto simp: wf_entry_def)
  then show r: "resetKeyFromEntry d = Some (blit d 8 (le64 0))" by (simp add: resetKey_eq)
  with d have "blit d 8 (le64 0) = entry_bytes ts 0 key v" by (simp add: resetKey_entry)
  with d show "wf_entry (blit d 8 (le64 0))" "readHashFromEntry (blit d 8 (le64 0)) = Some 0"
    by (auto simp: wf_entry_def readHash_entry)
qed

lemma in_patch:
  "(k', e) \<in> set (patch k d' ps) \<longleftrightarrow> (k' \<noteq> k \<and> (k', e) \<in> set ps) \<or> (k' = k \<and> e = d' \<and> (\<exists>d. (k, d) \<in> set ps))"
  by (force simp: patch_def split: if_splits)

text \<open>Clearing the hash of the entry of \<open>h\<close> exempts \<open>h\<close> from the agreement.\<close>

lemma indexed_clear:
  assumes ix: "indexed 0 hm ps" and i: "Mapping.lookup hm h = Some i" "h \<noteq> 0"
    and none: "Mapping.lookup hm 0 = None" and dist: "distinct (map fst ps)"
    and d': "readHashFromEntry d' = Some 0"
  shows "indexed h hm (patch (uint i) d' ps)" "indexed 0 (Mapping.delete h hm) (patch (uint i) d' ps)"
proof -
  have a: "\<exists>d. (uint i', d) \<in> set (patch (uint i) d' ps) \<and> wf_entry d \<and> readHashFromEntry d = Some h'"
    "h' \<noteq> 0" "i' \<noteq> 0"
    if l: "h' \<noteq> h" "h' \<noteq> 0" "Mapping.lookup hm h' = Some i'" for h' i'
  proof -
    from indexedD1 [OF ix l(2,3)] obtain d where d: "i' \<noteq> 0" "(uint i', d) \<in> set ps" "wf_entry d"
      "readHashFromEntry d = Some h'" by metis
    have "uint i' \<noteq> uint i"
    proof
      assume e: "uint i' = uint i"
      from indexedD1 [OF ix i(2,1)] obtain d1 where "(uint i, d1) \<in> set ps"
        "readHashFromEntry d1 = Some h" by metis
      with d(2,4) e dist l(1) show False by (metis eq_key_imp_eq_value option.inject)
    qed
    with d l(2) show "\<exists>d. (uint i', d) \<in> set (patch (uint i) d' ps) \<and> wf_entry d \<and> readHashFromEntry d = Some h'"
      "h' \<noteq> 0" "i' \<noteq> 0" by (auto simp: in_patch)
  qed
  have b: "h' \<noteq> h \<and> (\<exists>i'. Mapping.lookup hm h' = Some i' \<and> uint i' = k')"
    if l: "(k', e) \<in> set (patch (uint i) d' ps)" "readHashFromEntry e = Some h'" "h' \<noteq> 0" for k' e h'
  proof -
    from l d' have k: "k' \<noteq> uint i" "(k', e) \<in> set ps" by (auto simp: in_patch)
    from indexedD2 [OF ix k(2) l(2,3)] i k(1) show ?thesis by (metis option.inject)
  qed
  show "indexed h hm (patch (uint i) d' ps)"
    unfolding indexed_def
  proof (intro conjI allI impI)
    fix h' i' assume "h' \<noteq> h" "Mapping.lookup hm h' = Some i'"
    moreover from this none have "h' \<noteq> 0" by auto
    ultimately show "h' \<noteq> 0" "i' \<noteq> 0"
      "\<exists>d. (uint i', d) \<in> set (patch (uint i) d' ps) \<and> wf_entry d \<and> readHashFromEntry d = Some h'"
      using a by blast+
  qed (use b in blast)+
  show "indexed 0 (Mapping.delete h hm) (patch (uint i) d' ps)"
    unfolding indexed_def
  proof (intro conjI allI impI)
    fix h' i' assume "h' \<noteq> 0" "Mapping.lookup (Mapping.delete h hm) h' = Some i'"
    then have "h' \<noteq> h" "h' \<noteq> 0" "Mapping.lookup hm h' = Some i'"
      by (auto simp: lookup_delete_if split: if_splits)
    then show "h' \<noteq> 0" "i' \<noteq> 0"
      "\<exists>d. (uint i', d) \<in> set (patch (uint i) d' ps) \<and> wf_entry d \<and> readHashFromEntry d = Some h'"
      using a by blast+
  next
    fix k' e h' assume "(k', e) \<in> set (patch (uint i) d' ps)" "readHashFromEntry e = Some h'" "h' \<noteq> 0"
    with b show "\<exists>i'. Mapping.lookup (Mapping.delete h hm) h' = Some i' \<and> uint i' = k'"
      by (metis lookup_delete_neq)
  qed
qed

lemma shard_invD:
  assumes "shard_inv s ps"
  shows "bq_rep (sh_entries s) ps" "bq_gap (sh_entries s)" "indexed 0 (sh_hashmap s) ps"
    "Mapping.lookup (sh_hashmap s) 0 = None" "cb_total (sh_onRemove s)" "\<forall>(k, d) \<in> set ps. cell_ok d"
  using assms by (auto simp: shard_inv_def shard_ok_def)

lemma peek_indexed:
  assumes inv: "shard_inv s ps" and i: "Mapping.lookup (sh_hashmap s) h = Some i"
  obtains d n where "h \<noteq> 0" "i \<noteq> 0" "(uint i, d) \<in> set ps" "wf_entry d" "readHashFromEntry d = Some h"
    "bq_peek (sh_entries s) (uint i) = Some (Inr (d, n))" "n = int (length (enc d)) - int (length d)"
proof -
  note I = shard_invD [OF inv]
  have "h \<noteq> 0" using i I(4) by auto
  from indexedD1 [OF I(3) this i] obtain d where d: "i \<noteq> 0" "(uint i, d) \<in> set ps" "wf_entry d"
    "readHashFromEntry d = Some h" by metis
  from peek_stored [of "sh_entries s" ps "uint i" d] I(1) d(2) \<open>h \<noteq> 0\<close> d that show ?thesis
    by (simp add: bq_rep_def)
qed

lemma patch_cells:
  "\<forall>(k, d) \<in> set ps. cell_ok d \<Longrightarrow> cell_ok d' \<Longrightarrow> \<forall>(k, d) \<in> set (patch k' d' ps). cell_ok d"
  by (auto simp: in_patch)

lemma write_reset_rep:
  assumes inv: "shard_inv s ps" and d: "(uint i, d) \<in> set ps" "wf_entry d"
    and n: "n = int (length (enc d)) - int (length d)"
  shows "bq_rep (sh_entries (write_entry s (uint i + n) (blit d 8 (le64 0)))) (patch (uint i) (blit d 8 (le64 0)) ps)"
    "bq_gap (sh_entries (write_entry s (uint i + n) (blit d 8 (le64 0))))"
    "\<forall>(k, d) \<in> set (patch (uint i) (blit d 8 (le64 0)) ps). cell_ok d"
proof -
  note I = shard_invD [OF inv]
  have "8 \<le> length d" using d(2) by (auto simp: wf_entry_def)
  then show "bq_rep (sh_entries (write_entry s (uint i + n) (blit d 8 (le64 0)))) (patch (uint i) (blit d 8 (le64 0)) ps)"
    using rep_patch [OF I(1) d(1)] n by (simp add: write_entry_def)
  show "bq_gap (sh_entries (write_entry s (uint i + n) (blit d 8 (le64 0))))"
    using I(2) by (simp add: write_entry_def bq_gap_def)
  show "\<forall>(k, d) \<in> set (patch (uint i) (blit d 8 (le64 0)) ps). cell_ok d"
    using I(6) reset_wf(1) [OF d(2)] by (intro patch_cells) (auto simp: cell_ok_def)
qed

lemma clear_previous_ok:
  assumes inv: "shard_inv s ps" and h: "h \<noteq> 0"
  shows "\<exists>s' ps'. clear_previous s h = Some s' \<and> shard_ok h s' ps' \<and> shrinks h s ps s' ps' \<and>
    sh_hashmap s' = sh_hashmap s"
proof (cases "Mapping.lookup (sh_hashmap s) h")
  case None
  note I = shard_invD [OF inv]
  have "shard_ok h s ps"
    using I indexed_exempt [OF I(3,4) None h] by (auto simp: shard_ok_def)
  with None show ?thesis by (auto simp: clear_previous_def map_get_def shrinks_refl)
next
  case (Some i)
  note I = shard_invD [OF inv]
  from peek_indexed [OF inv Some] obtain d n where d: "i \<noteq> 0" "(uint i, d) \<in> set ps" "wf_entry d"
    "readHashFromEntry d = Some h" "bq_peek (sh_entries s) (uint i) = Some (Inr (d, n))"
    "n = int (length (enc d)) - int (length d)" by metis
  let ?s = "write_entry s (uint i + n) (blit d 8 (le64 0))"
  let ?ps = "patch (uint i) (blit d 8 (le64 0)) ps"
  have "clear_previous s h = Some ?s"
    using Some d reset_wf(3) [OF d(3)] by (simp add: clear_previous_def map_get_def)
  moreover have "shard_ok h ?s ?ps"
    using write_reset_rep [OF inv d(2,3,6)] I(5)
      indexed_clear(1) [OF I(3) Some h I(4) rep_distinct [OF I(1)] reset_wf(2) [OF d(3)]]
    by (simp add: shard_ok_def) (simp add: write_entry_def)
  moreover have "shrinks h s ps ?s ?ps"
    using reset_wf(2) [OF d(3)] by (auto simp: shrinks_def write_entry_def in_patch)
  moreover have "sh_hashmap ?s = sh_hashmap s" by (simp add: write_entry_def)
  ultimately show ?thesis by blast
qed

section \<open>Pushing the new entry\<close>

lemma index_range:
  assumes "bq_rep q ps" "(k, d) \<in> set ps" "bq_capacity q < 2 ^ 32"
  shows "1 \<le> k" "uint (word_of_int k :: u32) = k" "(word_of_int k :: u32) \<noteq> 0"
proof -
  from assms(1,2) have k: "1 \<le> k" "sits (bq_array q) k (enc d)" "int (length (bq_array q)) = bq_capacity q"
    by (auto simp: bq_rep_def bq_base_def stored_def)
  from sits_bounds [OF k(2)] k(3) assms(3) have "k < 2 ^ 32" by linarith
  with k(1) show u: "uint (word_of_int k :: u32) = k"
    by (simp add: uint_word_of_int take_bit_int_eq_self)
  show "1 \<le> k" by (rule k(1))
  show "(word_of_int k :: u32) \<noteq> 0"
  proof
    assume "(word_of_int k :: u32) = 0"
    with u k(1) show False by simp
  qed
qed

lemma shrinks_none0:
  "shrinks x s ps s' ps' \<Longrightarrow> x \<noteq> 0 \<Longrightarrow> Mapping.lookup (sh_hashmap s) 0 = None \<Longrightarrow>
   Mapping.lookup (sh_hashmap s') 0 = None"
  unfolding shrinks_def by (metis not_None_eq)

lemma pushed_inv:
  assumes ok: "shard_ok x s ps" and x: "x \<noteq> 0" and none: "Mapping.lookup (sh_hashmap s) 0 = None"
    and w: "wf_entry w" "readHashFromEntry w = Some x"
    and q: "bq_rep q (ps' @ [(idx, w)])" "realloc_spec (sh_entries s) ps ps'" "bq_gap q"
    and cap: "bq_capacity q < 2 ^ 32"
  defines "s' \<equiv> s\<lparr>sh_entries := q, sh_hashmap := Mapping.update x (word_of_int idx) (sh_hashmap s)\<rparr>"
  shows "shard_inv s' (ps' @ [(idx, w)])" "shrinks x s ps s' (ps' @ [(idx, w)])"
proof -
  from ok have gap: "bq_gap (sh_entries s)" and cells: "\<forall>(k, d) \<in> set ps. cell_ok d"
    and ix: "indexed x (sh_hashmap s) ps" and cb: "cb_total (sh_onRemove s)"
    by (auto simp: shard_ok_def)
  note rc = realloc_cells [OF q(2) gap cells]
  have i: "uint (word_of_int idx :: u32) = idx" "(word_of_int idx :: u32) \<noteq> 0"
    using index_range [OF q(1) _ cap, of idx w] by auto
  have "indexed 0 (sh_hashmap s') (ps' @ [(idx, w)])"
    unfolding indexed_def
  proof (intro conjI allI impI)
    fix h j assume h: "h \<noteq> 0" "Mapping.lookup (sh_hashmap s') h = Some j"
    have "j \<noteq> 0 \<and> (\<exists>d. (uint j, d) \<in> set (ps' @ [(idx, w)]) \<and> wf_entry d \<and> readHashFromEntry d = Some h)"
    proof (cases "h = x")
      case True
      with h(2) i w show ?thesis by (auto simp: s'_def)
    next
      case False
      with h(2) have "Mapping.lookup (sh_hashmap s) h = Some j" by (simp add: s'_def)
      from indexedD1 [OF ix False this] rc(1) show ?thesis by (metis UnI1 set_append subset_eq)
    qed
    then show "j \<noteq> 0" "\<exists>d. (uint j, d) \<in> set (ps' @ [(idx, w)]) \<and> wf_entry d \<and> readHashFromEntry d = Some h"
      by auto
  next
    fix k d h assume h: "(k, d) \<in> set (ps' @ [(idx, w)])" "readHashFromEntry d = Some h" "h \<noteq> 0"
    show "\<exists>i. Mapping.lookup (sh_hashmap s') h = Some i \<and> uint i = k"
    proof (cases "(k, d) = (idx, w)")
      case True
      with h w i show ?thesis by (auto simp: s'_def)
    next
      case False
      with h rc(3) have "(k, d) \<in> set ps" by auto
      from indexedD2 [OF ix this h(2,3)] obtain i where
        "h \<noteq> x" "Mapping.lookup (sh_hashmap s) h = Some i" "uint i = k" by blast
      then show ?thesis by (simp add: s'_def)
    qed
  qed
  moreover have "Mapping.lookup (sh_hashmap s') 0 = None" using none x by (simp add: s'_def)
  ultimately show "shard_inv s' (ps' @ [(idx, w)])"
    using q(1,3) rc(2) cb w(1) by (auto simp: shard_inv_def shard_ok_def s'_def cell_ok_def)
  show "shrinks x s ps s' (ps' @ [(idx, w)])"
    using rc(3) w(2) by (auto simp: shrinks_def s'_def)
qed

text \<open>What the push loop establishes: the entry is stored, or the queue has been emptied.\<close>

definition push_post ::
  "u64 \<Rightarrow> bytes \<Rightarrow> cache_shard \<Rightarrow> (int \<times> bytes) list \<Rightarrow> cache_error option \<Rightarrow> cache_shard \<Rightarrow> bool" where
  "push_post x w s ps r s' \<longleftrightarrow>
     r = None \<and> (bq_capacity (sh_entries s') < 2 ^ 32 \<longrightarrow>
       (\<exists>ps' i. shard_inv s' ps' \<and> shrinks x s ps s' ps' \<and>
          Mapping.lookup (sh_hashmap s') x = Some i \<and> (uint i, w) \<in> set ps')) \<or>
     r = Some ErrEntryTooBig \<and> shard_ok x s' [] \<and> shrinks x s ps s' [] \<and>
       Mapping.lookup (sh_hashmap s') x = Mapping.lookup (sh_hashmap s) x \<and>
       push_rejected (sh_entries s') w"

lemma push_post_trans:
  assumes "shrinks x s ps s1 ps1" "Mapping.lookup (sh_hashmap s1) x = Mapping.lookup (sh_hashmap s) x"
    "push_post x w s1 ps1 r s'"
  shows "push_post x w s ps r s'"
  using assms(2,3) shrinks_trans [OF assms(1)] unfolding push_post_def by fastforce

lemma push_loop_pushed:
  assumes "shard_ok x s ps" "x \<noteq> 0" "Mapping.lookup (sh_hashmap s) 0 = None"
    "wf_entry w" "readHashFromEntry w = Some x"
    "bq_Push (sh_entries s) w = Some (Inr idx, q')" "bq_rep q' (ps' @ [(idx, w)])"
    "realloc_spec (sh_entries s) ps ps'" "bq_gap q'"
  shows "\<exists>r s'. push_loop s w x = Some (r, s') \<and> push_post x w s ps r s'"
proof -
  let ?s = "s\<lparr>sh_entries := q', sh_hashmap := Mapping.update x (word_of_int idx) (sh_hashmap s)\<rparr>"
  have "push_loop s w x = Some (None, ?s)" using assms(6) by (subst push_loop.simps) simp
  moreover have "push_post x w s ps None ?s"
    unfolding push_post_def
  proof (rule disjI1, intro conjI refl impI)
    assume "bq_capacity (sh_entries ?s) < 2 ^ 32"
    then have cap: "bq_capacity q' < 2 ^ 32" by simp
    note inv = pushed_inv [OF assms(1-5,7-9) cap]
    have "uint (word_of_int idx :: u32) = idx" using index_range [OF assms(7) _ cap, of idx w] by simp
    with inv show "\<exists>ps' i. shard_inv ?s ps' \<and> shrinks x s ps ?s ps' \<and>
        Mapping.lookup (sh_hashmap ?s) x = Some i \<and> (uint i, w) \<in> set ps'"
      by (intro exI [of _ "ps' @ [(idx, w)]"] exI [of _ "word_of_int idx"]) simp
  qed
  ultimately show ?thesis by blast
qed

lemma push_loop_ok:
  assumes "shard_ok x s ps" "x \<noteq> 0" "Mapping.lookup (sh_hashmap s) 0 = None"
    "wf_entry w" "readHashFromEntry w = Some x" "small w" "push_safe (sh_entries s) w"
  shows "\<exists>r s'. push_loop s w x = Some (r, s') \<and> push_post x w s ps r s'"
  using assms(1,3,7)
proof (induction ps arbitrary: s)
  case Nil
  have rep: "bq_rep (sh_entries s) []" using Nil by (simp add: shard_ok_def)
  from rep assms(6) Nil(3) show ?case
  proof (cases rule: Push_cases)
    case rejected
    with removeOldest_empty [OF Nil(1), of NoSpace] have "push_loop s w x = Some (Some ErrEntryTooBig, s)"
      by (subst push_loop.simps) simp
    with Nil(1) rejected(1) show ?thesis by (simp add: push_post_def shrinks_refl)
  next
    case (pushed idx q' ps')
    show ?thesis by (rule push_loop_pushed [OF Nil(1) assms(2) Nil(2) assms(4,5) pushed(2-5)])
  qed
next
  case (Cons p ps)
  obtain k d where p: "p = (k, d)" by (cases p)
  have rep: "bq_rep (sh_entries s) (p # ps)" using Cons.prems by (simp add: shard_ok_def)
  from rep assms(6) Cons.prems(3) show ?case
  proof (cases rule: Push_cases)
    case rejected
    from removeOldest_ok [OF Cons.prems(1) [unfolded p], of NoSpace] obtain s1 where
      s1: "removeOldestEntry s NoSpace = Some (None, s1)" "shard_ok x s1 ps"
        "shrinks x s (p # ps) s1 ps" "Mapping.lookup (sh_hashmap s1) x = Mapping.lookup (sh_hashmap s) x"
        "bq_maxCapacity (sh_entries s1) = bq_maxCapacity (sh_entries s)"
        "bq_capacity (sh_entries s1) = bq_capacity (sh_entries s)" unfolding p by blast
    have safe: "push_safe (sh_entries s1) w"
      using rejected(1) s1(5,6) by (auto simp: push_safe_def push_rejected_def Let_def)
    have "push_loop s w x = push_loop s1 w x"
      using rejected(2) s1(1) by (subst push_loop.simps) simp
    moreover from Cons.IH [OF s1(2) shrinks_none0 [OF s1(3) assms(2) Cons.prems(2)] safe]
    obtain r s' where "push_loop s1 w x = Some (r, s')" "push_post x w s1 ps r s'" by blast
    ultimately show ?thesis using push_post_trans [OF s1(3,4)] by auto
  next
    case (pushed idx q' ps')
    show ?thesis by (rule push_loop_pushed [OF Cons.prems(1) assms(2) Cons.prems(2) assms(4,5) pushed(2-5)])
  qed
qed

section \<open>The abstract map\<close>

lemma shard_map_None: "Mapping.lookup (sh_hashmap s) h = None \<Longrightarrow> shard_map s h = None"
  by (simp add: shard_map_def)

lemma shard_map_entry:
  assumes inv: "shard_inv s ps" and i: "Mapping.lookup (sh_hashmap s) h = Some i"
    and e: "(uint i, entry_bytes ts h' key v) \<in> set ps" "length key < 65518"
  shows "shard_map s h = Some (key, v)"
    "bq_Get (sh_entries s) (uint i) = Some (Inr (entry_bytes ts h' key v))"
proof -
  show g: "bq_Get (sh_entries s) (uint i) = Some (Inr (entry_bytes ts h' key v))"
    by (rule Get_stored [OF shard_invD(1) [OF inv] e(1)])
  show "shard_map s h = Some (key, v)"
    using i g e(2) by (simp add: shard_map_def readKey_entry readEntry_entry)
qed

lemma shard_map_SomeE:
  assumes inv: "shard_inv s ps" and i: "Mapping.lookup (sh_hashmap s) h = Some i"
  obtains ts key v where "h \<noteq> 0" "i \<noteq> 0" "(uint i, entry_bytes ts h key v) \<in> set ps"
    "length key < 65518" "shard_map s h = Some (key, v)"
    "bq_Get (sh_entries s) (uint i) = Some (Inr (entry_bytes ts h key v))"
proof -
  from peek_indexed [OF inv i] obtain d where d: "h \<noteq> 0" "i \<noteq> 0" "(uint i, d) \<in> set ps" "wf_entry d"
    "readHashFromEntry d = Some h" by metis
  from d(4,5) obtain ts key v where "d = entry_bytes ts h key v" "length key < 65518"
    by (auto elim!: wf_entryE)
  with that d(1-3) shard_map_entry [OF inv i, of ts h key v] show ?thesis by simp
qed

lemma shard_map_dom: "shard_inv s ps \<Longrightarrow> shard_map s h = None \<longleftrightarrow> Mapping.lookup (sh_hashmap s) h = None"
proof (cases "Mapping.lookup (sh_hashmap s) h")
  case (Some i)
  moreover assume "shard_inv s ps"
  ultimately show ?thesis by (metis option.distinct(1) shard_map_SomeE)
qed (simp add: shard_map_None)

lemma shrinks_map:
  assumes inv: "shard_inv s ps" "shard_inv s' ps'" and sh: "shrinks x s ps s' ps'" and h: "h \<noteq> x"
    and kv: "shard_map s' h = Some kv"
  shows "shard_map s h = Some kv"
proof -
  from kv obtain i where i: "Mapping.lookup (sh_hashmap s') h = Some i"
    by (cases "Mapping.lookup (sh_hashmap s') h") (auto simp: shard_map_None)
  from shard_map_SomeE [OF inv(2) i] obtain ts key v where e: "h \<noteq> 0"
    "(uint i, entry_bytes ts h key v) \<in> set ps'" "length key < 65518"
    "shard_map s' h = Some (key, v)" by metis
  from sh h i e(1,2) have "Mapping.lookup (sh_hashmap s) h = Some i"
    "(uint i, entry_bytes ts h key v) \<in> set ps" by (auto simp: shrinks_def readHash_entry)
  from shard_map_entry(1) [OF inv(1) this e(3)] e(4) kv show ?thesis by simp
qed

lemma shrinks_map_le:
  assumes "shard_inv s ps" "shard_inv s' ps'" "shrinks x s ps s' ps'" "shard_map s' x = Some kv"
  shows "shard_map s' \<subseteq>\<^sub>m (shard_map s)(x \<mapsto> kv)"
  unfolding map_le_def using assms shrinks_map [OF assms(1-3)] by (auto simp: dom_def)

section \<open>The methods\<close>

lemma shard_map_cong:
  "sh_entries s' = sh_entries s \<Longrightarrow> sh_hashmap s' = sh_hashmap s \<Longrightarrow> shard_map s' h = shard_map s h"
  by (simp add: shard_map_def)

lemma shard_inv_cong:
  "shard_inv s ps \<Longrightarrow> sh_entries s' = sh_entries s \<Longrightarrow> sh_hashmap s' = sh_hashmap s \<Longrightarrow>
   sh_onRemove s' = sh_onRemove s \<Longrightarrow> shard_inv s' ps"
  by (simp add: shard_inv_def shard_ok_def)

lemma stats_frame [simp]:
  "sh_entries (sh_hit s k) = sh_entries s" "sh_hashmap (sh_hit s k) = sh_hashmap s"
  "sh_onRemove (sh_hit s k) = sh_onRemove s"
  "sh_entries (sh_hitWithoutLock s k) = sh_entries s" "sh_hashmap (sh_hitWithoutLock s k) = sh_hashmap s"
  "sh_onRemove (sh_hitWithoutLock s k) = sh_onRemove s"
  "sh_entries (sh_miss s) = sh_entries s" "sh_hashmap (sh_miss s) = sh_hashmap s"
  "sh_onRemove (sh_miss s) = sh_onRemove s"
  "sh_entries (sh_collision s) = sh_entries s" "sh_hashmap (sh_collision s) = sh_hashmap s"
  "sh_onRemove (sh_collision s) = sh_onRemove s"
  "sh_entries (sh_delmiss s) = sh_entries s" "sh_hashmap (sh_delmiss s) = sh_hashmap s"
  "sh_onRemove (sh_delmiss s) = sh_onRemove s"
  "sh_entries (sh_delhit s) = sh_entries s" "sh_hashmap (sh_delhit s) = sh_hashmap s"
  "sh_onRemove (sh_delhit s) = sh_onRemove s"
  by (simp_all add: sh_hit_def sh_hitWithoutLock_def sh_miss_def sh_collision_def sh_delmiss_def
      sh_delhit_def Let_def)

lemma getWrapped_ok:
  assumes "shard_inv s ps"
  shows "getWrappedEntry s h =
    (case Mapping.lookup (sh_hashmap s) h of
       None \<Rightarrow> Some (Inl ErrEntryNotFound, sh_miss s)
     | Some i \<Rightarrow> map_option (\<lambda>r. (map_sum ErrQueue id r, s)) (bq_Get (sh_entries s) (uint i)))"
proof (cases "Mapping.lookup (sh_hashmap s) h")
  case (Some i)
  from shard_map_SomeE [OF assms Some] obtain d where
    "i \<noteq> 0" "bq_Get (sh_entries s) (uint i) = Some (Inr d)" by metis
  with Some show ?thesis by (simp add: getWrappedEntry_def map_get_def)
qed (simp add: getWrappedEntry_def map_get_def)

definition get_result :: "(bytes \<times> bytes) option \<Rightarrow> bytes \<Rightarrow> cache_error + bytes" where
  "get_result e key = (case e of
      Some (key', v) \<Rightarrow> if key = key' then Inr v else Inl ErrEntryNotFound
    | None \<Rightarrow> Inl ErrEntryNotFound)"

lemma get_ok:
  assumes inv: "shard_inv s ps"
  shows "\<exists>s'. sh_get s key h = Some (get_result (shard_map s h) key, s') \<and> shard_inv s' ps \<and>
    shard_map s' = shard_map s"
proof (cases "Mapping.lookup (sh_hashmap s) h")
  case None
  then have "sh_get s key h = Some (get_result (shard_map s h) key, sh_miss s)"
    by (simp add: sh_get_def getWrapped_ok [OF inv] shard_map_None get_result_def)
  moreover have "shard_inv (sh_miss s) ps" "shard_map (sh_miss s) = shard_map s"
    using shard_inv_cong [OF inv, of "sh_miss s"] shard_map_cong [of "sh_miss s" s]
    by (simp_all add: fun_eq_iff)
  ultimately show ?thesis by blast
next
  case (Some i)
  from shard_map_SomeE [OF inv Some] obtain ts key' v where e: "length key' < 65518"
    "shard_map s h = Some (key', v)"
    "bq_Get (sh_entries s) (uint i) = Some (Inr (entry_bytes ts h key' v))" by metis
  then have "sh_get s key h = Some (get_result (shard_map s h) key,
      if key \<noteq> key' then sh_collision s else sh_hit s h)"
    using Some by (simp add: sh_get_def getWrapped_ok [OF inv] get_result_def readKey_entry readEntry_entry)
  moreover have "shard_inv (if key \<noteq> key' then sh_collision s else sh_hit s h) ps"
    "shard_map (if key \<noteq> key' then sh_collision s else sh_hit s h) = shard_map s"
    using shard_inv_cong [OF inv, of "sh_collision s"] shard_map_cong [of "sh_collision s" s]
      shard_inv_cong [OF inv, of "sh_hit s h"] shard_map_cong [of "sh_hit s h" s]
    by (simp_all add: fun_eq_iff)
  ultimately show ?thesis by blast
qed

text \<open>The queue a writing method pushes to, and whether that push is safe.\<close>

definition set_safe :: "cache_shard \<Rightarrow> u64 \<Rightarrow> u64 \<Rightarrow> bytes \<Rightarrow> bool" where
  "set_safe s h now w \<longleftrightarrow>
     (case map_option sh_entries (clear_previous s h) of
        None \<Rightarrow> True
      | Some q \<Rightarrow> push_safe (evicted_queue q now (sh_lifeWindow s)) w)"

lemma clear_previous_entries:
  "sh_hashmap s' = sh_hashmap s \<Longrightarrow> sh_entries s' = sh_entries s \<Longrightarrow>
   map_option sh_entries (clear_previous s' h) = map_option sh_entries (clear_previous s h)"
  by (auto simp: clear_previous_def write_entry_def Let_def map_get_def bind_eq_None_conv
      split: option.splits sum.splits bind_splits)

lemma prepared_ok:
  assumes inv: "shard_inv s ps" and h: "h \<noteq> 0" and safe: "set_safe s h now w"
  shows "\<exists>s0 s1 ps1. clear_previous s h = Some s0 \<and> evict_expired s0 now = Some s1 \<and> shard_ok h s1 ps1 \<and>
    shrinks h s ps s1 ps1 \<and> Mapping.lookup (sh_hashmap s1) h = Mapping.lookup (sh_hashmap s) h \<and>
    push_safe (sh_entries s1) w"
proof -
  from clear_previous_ok [OF inv h] obtain s0 ps0 where s0: "clear_previous s h = Some s0"
    "shard_ok h s0 ps0" "shrinks h s ps s0 ps0" "sh_hashmap s0 = sh_hashmap s" by blast
  from evict_expired_ok [OF s0(2), of now] obtain s1 ps1 where s1: "evict_expired s0 now = Some s1"
    "shard_ok h s1 ps1" "shrinks h s0 ps0 s1 ps1"
    "Mapping.lookup (sh_hashmap s1) h = Mapping.lookup (sh_hashmap s0) h"
    "sh_entries s1 = evicted_queue (sh_entries s0) now (sh_lifeWindow s0)" by blast
  moreover have "sh_lifeWindow s0 = sh_lifeWindow s" using s0(3) by (simp add: shrinks_def)
  ultimately show ?thesis
    using s0 safe shrinks_trans [OF s0(3) s1(3)] by (auto simp: set_safe_def)
qed

lemma setWrapped_ok:
  assumes inv: "shard_inv s ps" and h: "h \<noteq> 0" and w: "wf_entry w" "readHashFromEntry w = Some h" "small w"
    and safe: "set_safe s h now w"
  shows "\<exists>r s'. setWrappedEntryWithoutLock s now w h = Some (r, s') \<and> push_post h w s ps r s'"
proof -
  from prepared_ok [OF inv h safe] obtain s0 s1 ps1 where s1: "clear_previous s h = Some s0"
    "evict_expired s0 now = Some s1" "shard_ok h s1 ps1" "shrinks h s ps s1 ps1"
    "Mapping.lookup (sh_hashmap s1) h = Mapping.lookup (sh_hashmap s) h"
    "push_safe (sh_entries s1) w" by blast
  from push_loop_ok [OF s1(3) h shrinks_none0 [OF s1(4) h shard_invD(4) [OF inv]] w s1(6)] obtain r s' where
    "push_loop s1 w h = Some (r, s')" "push_post h w s1 ps1 r s'" by blast
  with s1(1,2) push_post_trans [OF s1(4,5)] show ?thesis by (simp add: setWrappedEntryWithoutLock_def)
qed

lemma buffer_frame:
  "shard_ok x s ps \<Longrightarrow> shard_ok x (s\<lparr>sh_entryBuffer := b\<rparr>) ps"
  "shrinks x s ps s' ps' \<Longrightarrow> shrinks x s ps (s'\<lparr>sh_entryBuffer := b\<rparr>) ps'"
  by (simp_all add: shard_ok_def shrinks_def)

lemma set_post:
  assumes inv: "shard_inv s ps" and h: "h \<noteq> 0" and key: "length key < 65518"
    and small: "18 + length key + length v < 2 ^ 32"
    and safe: "set_safe s h now (entry_bytes now h key v)"
  shows "\<exists>r s'. sh_set s key h v now = Some (r, s') \<and> push_post h (entry_bytes now h key v) s ps r s'"
proof -
  let ?w = "entry_bytes now h key v"
  from prepared_ok [OF inv h safe] obtain s0 s1 ps1 where s1: "clear_previous s h = Some s0"
    "evict_expired s0 now = Some s1" "shard_ok h s1 ps1" "shrinks h s ps s1 ps1"
    "Mapping.lookup (sh_hashmap s1) h = Mapping.lookup (sh_hashmap s) h"
    "push_safe (sh_entries s1) ?w" by blast
  from wrapEntry_eq obtain buf where w: "wrapEntry now h key v (sh_entryBuffer s1) = Some (?w, buf)" by blast
  let ?s1 = "s1\<lparr>sh_entryBuffer := buf\<rparr>"
  have n0: "Mapping.lookup (sh_hashmap ?s1) 0 = None"
    using shrinks_none0 [OF s1(4) h shard_invD(4) [OF inv]] by simp
  have "small ?w" using small by (simp add: small_def)
  moreover have "push_safe (sh_entries ?s1) ?w" using s1(6) by simp
  ultimately obtain r s' where "push_loop ?s1 ?w h = Some (r, s')" "push_post h ?w ?s1 ps1 r s'"
    using push_loop_ok [OF buffer_frame(1) [OF s1(3)] h n0 wf_entry_bytes [OF key] readHash_entry] by blast
  with s1(1,2) w push_post_trans [OF buffer_frame(2) [OF s1(4), of buf], of ?w r s'] s1(5) show ?thesis
    by (simp add: sh_set_def)
qed

text \<open>From the push loop's postcondition to the abstract map.\<close>

lemma push_post_map:
  assumes inv: "shard_inv s ps" and key: "length key < 65518"
    and post: "push_post h (entry_bytes ts h key v) s ps None s'" and cap: "bq_capacity (sh_entries s') < 2 ^ 32"
  shows "\<exists>ps'. shard_inv s' ps'" "shard_map s' h = Some (key, v)"
    "shard_map s' \<subseteq>\<^sub>m (shard_map s)(h \<mapsto> (key, v))"
proof -
  from post cap obtain ps' i where p: "shard_inv s' ps'" "shrinks h s ps s' ps'"
    "Mapping.lookup (sh_hashmap s') h = Some i" "(uint i, entry_bytes ts h key v) \<in> set ps'"
    by (auto simp: push_post_def)
  show "\<exists>ps'. shard_inv s' ps'" using p(1) by blast
  show m: "shard_map s' h = Some (key, v)" by (rule shard_map_entry(1) [OF p(1,3,4) key])
  show "shard_map s' \<subseteq>\<^sub>m (shard_map s)(h \<mapsto> (key, v))" by (rule shrinks_map_le [OF inv p(1,2) m])
qed

lemma push_post_cases: "push_post h w s ps r s' \<Longrightarrow> r = None \<or> r = Some ErrEntryTooBig"
  by (auto simp: push_post_def)

text \<open>An entry is reported as too big only if an empty queue of that size cannot hold it.\<close>

lemma push_post_too_big:
  assumes "push_post h w s ps (Some ErrEntryTooBig) s'"
  shows "bq_capacity (sh_entries s') \<le> int (length (enc w))"
proof -
  from assms have "bq_rep (sh_entries s') []" and rej: "push_rejected (sh_entries s') w"
    by (auto simp: push_post_def shard_ok_def)
  then have "bq_head (sh_entries s') = 1" "bq_tail (sh_entries s') = 1" "\<not> bq_full (sh_entries s')"
    by (auto simp: bq_rep_def bq_unwrapped_def bq_wrapped_def)
  with rej show ?thesis by (simp add: push_rejected_def canInsertAfterTail_def Let_def)
qed

lemma append_found_post:
  assumes inv: "shard_inv s ps" and m: "shard_map s h = Some (key, v0)"
    and small: "18 + length key + length v0 + length v < 2 ^ 32"
    and safe: "set_safe s h now (entry_bytes now h key (v0 @ v))"
  shows "\<exists>r s'. sh_append s key h v now = Some (r, s') \<and> push_post h (entry_bytes now h key (v0 @ v)) s ps r s'"
proof -
  from m obtain i where i: "Mapping.lookup (sh_hashmap s) h = Some i"
    by (cases "Mapping.lookup (sh_hashmap s) h") (auto simp: shard_map_None)
  from shard_map_SomeE [OF inv i] m obtain ts where e: "h \<noteq> 0" "length key < 65518"
    "bq_Get (sh_entries s) (uint i) = Some (Inr (entry_bytes ts h key v0))" by (metis option.inject prod.inject)
  let ?w = "entry_bytes now h key (v0 @ v)"
  let ?s = "sh_hitWithoutLock s h"
  have g: "getValidWrapEntry s key h = Some (Inr (entry_bytes ts h key v0), ?s)"
    using i e by (simp add: getValidWrapEntry_def getWrapped_ok [OF inv] compareKey_entry)
  from append_entry_eq obtain buf where
    w: "appendToWrappedEntry now (entry_bytes ts h key v0) v (sh_entryBuffer ?s) = Some (?w, buf)" by blast
  let ?s1 = "?s\<lparr>sh_entryBuffer := buf\<rparr>"
  have inv1: "shard_inv ?s1 ps" using shard_inv_cong [OF inv, of ?s1] by simp
  have life: "sh_lifeWindow ?s1 = sh_lifeWindow s" by (simp add: sh_hitWithoutLock_def Let_def)
  have "map_option sh_entries (clear_previous ?s1 h) = map_option sh_entries (clear_previous s h)"
    by (rule clear_previous_entries) simp_all
  with safe have "set_safe ?s1 h now ?w" by (simp only: set_safe_def life)
  moreover have "small ?w" using small by (simp add: small_def)
  ultimately obtain r s' where
    r: "setWrappedEntryWithoutLock ?s1 now ?w h = Some (r, s')" "push_post h ?w ?s1 ps r s'"
    using setWrapped_ok [OF inv1 e(1) wf_entry_bytes [OF e(2)] readHash_entry] by blast
  have "shrinks h s ps ?s1 ps" using life by (simp add: shrinks_def)
  from push_post_trans [OF this _ r(2)] g w r(1) show ?thesis by (simp add: sh_append_def)
qed

lemma append_absent_post:
  assumes inv: "shard_inv s ps" and m: "shard_map s h = None" and h: "h \<noteq> 0" and key: "length key < 65518"
    and small: "18 + length key + length v < 2 ^ 32"
    and safe: "set_safe s h now (entry_bytes now h key v)"
  shows "\<exists>r s'. sh_append s key h v now = Some (r, s') \<and> push_post h (entry_bytes now h key v) s ps r s'"
proof -
  have none: "Mapping.lookup (sh_hashmap s) h = None" using m shard_map_dom [OF inv] by simp
  let ?s = "sh_miss s"
  have life: "sh_lifeWindow ?s = sh_lifeWindow s" by (simp add: sh_miss_def)
  have "map_option sh_entries (clear_previous ?s h) = map_option sh_entries (clear_previous s h)"
    by (rule clear_previous_entries) simp_all
  with safe have "set_safe ?s h now (entry_bytes now h key v)" by (simp only: set_safe_def life)
  moreover have "shard_inv ?s ps" using shard_inv_cong [OF inv, of ?s] by simp
  ultimately obtain r s' where
    r: "sh_set ?s key h v now = Some (r, s')" "push_post h (entry_bytes now h key v) ?s ps r s'"
    using set_post [OF _ h key small] by blast
  have "clear_previous ?s h = Some ?s" using none by (simp add: clear_previous_def map_get_def)
  with r(1) none have "sh_append s key h v now = Some (r, s')"
    by (simp add: sh_append_def getValidWrapEntry_def getWrapped_ok [OF inv] sh_set_def addNewWithoutLock_def)
  moreover have "shrinks h s ps ?s ps" using life by (simp add: shrinks_def)
  ultimately show ?thesis using push_post_trans [OF _ _ r(2)] by fastforce
qed

lemma del_locked_ok:
  assumes inv: "shard_inv s ps"
  shows "\<exists>r s' ps'. sh_del_locked s h = Some (r, s') \<and> shard_inv s' ps' \<and>
    shard_map s' = (shard_map s)(h := None) \<and>
    r = (if shard_map s h = None then Some ErrEntryNotFound else None)"
proof (cases "Mapping.lookup (sh_hashmap s) h")
  case None
  have "sh_del_locked s h = Some (Some ErrEntryNotFound, sh_delmiss s)"
    using None by (simp add: sh_del_locked_def map_get_def)
  moreover have "shard_inv (sh_delmiss s) ps" using shard_inv_cong [OF inv, of "sh_delmiss s"] by simp
  moreover have "shard_map (sh_delmiss s) = (shard_map s)(h := None)"
    using shard_map_cong [of "sh_delmiss s" s] shard_map_None [OF None] by (auto simp: fun_eq_iff)
  ultimately show ?thesis using shard_map_None [OF None] by auto
next
  case (Some i)
  note I = shard_invD [OF inv]
  from peek_indexed [OF inv Some] obtain d n where d: "h \<noteq> 0" "i \<noteq> 0" "(uint i, d) \<in> set ps" "wf_entry d"
    "readHashFromEntry d = Some h" "bq_peek (sh_entries s) (uint i) = Some (Inr (d, n))"
    "n = int (length (enc d)) - int (length d)" by metis
  from I(5) d(4) obtain ev where ev: "sh_onRemove s (sh_hashmapStats s) d Deleted = Some ev"
    unfolding cb_total_def by blast
  let ?d = "blit d 8 (le64 0)"
  let ?ps = "patch (uint i) ?d ps"
  define s1 where "s1 = sh_delhit (write_entry (s\<lparr>sh_hashmap := Mapping.delete h (sh_hashmap s),
     sh_events := sh_events s @ ev, sh_hashmapStats := (if sh_statsEnabled s
        then Mapping.delete h (sh_hashmapStats s) else sh_hashmapStats s)\<rparr>) (uint i + n) ?d)"
  have e: "sh_entries s1 = sh_entries (write_entry s (uint i + n) ?d)"
    "sh_hashmap s1 = Mapping.delete h (sh_hashmap s)" "sh_onRemove s1 = sh_onRemove s"
    by (simp_all add: s1_def write_entry_def)
  have "sh_del_locked s h = Some (None, s1)"
    using Some d reset_wf(3) [OF d(4)] ev
    by (simp add: sh_del_locked_def map_get_def call_onRemove_def s1_def Let_def)
  moreover have inv1: "shard_inv s1 ?ps"
    using write_reset_rep [OF inv d(3,4,7)] I(4,5) e
      indexed_clear(2) [OF I(3) Some d(1) I(4) rep_distinct [OF I(1)] reset_wf(2) [OF d(4)]]
    by (simp add: shard_inv_def shard_ok_def lookup_delete_if)
  moreover have "shard_map s1 = (shard_map s)(h := None)"
  proof
    fix h'
    show "shard_map s1 h' = ((shard_map s)(h := None)) h'"
    proof (cases "h' = h \<or> Mapping.lookup (sh_hashmap s) h' = None")
      case True
      then show ?thesis using e(2) by (auto simp: shard_map_None lookup_delete_if)
    next
      case False
      then obtain j where j: "Mapping.lookup (sh_hashmap s) h' = Some j" "h' \<noteq> h" by auto
      then have j': "Mapping.lookup (sh_hashmap s1) h' = Some j" using e(2) by simp
      from shard_map_SomeE [OF inv1 j'] obtain ts key v where k: "h' \<noteq> 0"
        "(uint j, entry_bytes ts h' key v) \<in> set ?ps" "length key < 65518"
        "shard_map s1 h' = Some (key, v)" by metis
      then have "(uint j, entry_bytes ts h' key v) \<in> set ps"
        using reset_wf(2) [OF d(4)] by (auto simp: in_patch) (metis option.inject readHash_entry)
      from shard_map_entry(1) [OF inv j(1) this k(3)] k(4) j(2) show ?thesis by simp
    qed
  qed
  moreover have "shard_map s h \<noteq> None" using shard_map_dom [OF inv] Some by simp
  ultimately show ?thesis by auto
qed

lemma del_check_ok:
  assumes inv: "shard_inv s ps"
  shows "sh_del_check s h =
    (if shard_map s h = None then (Some ErrEntryNotFound, sh_delmiss s) else (None, s))"
proof (cases "Mapping.lookup (sh_hashmap s) h")
  case None
  then show ?thesis by (simp add: sh_del_check_def map_get_def shard_map_None)
next
  case (Some i)
  from peek_indexed [OF inv Some] obtain d n where d: "i \<noteq> 0"
    "bq_peek (sh_entries s) (uint i) = Some (Inr (d, n))" by metis
  from d(2) have "peekCheckErr (sh_entries s) (uint i) = None"
    by (auto simp: bq_peek_def split: option.splits)
  with Some d(1) shard_map_dom [OF inv] show ?thesis
    by (simp add: sh_del_check_def bq_CheckGet_def map_get_def)
qed

lemma shrinks0_map_le:
  assumes "shard_inv s ps" "shard_inv s' ps'" "shrinks 0 s ps s' ps'"
  shows "shard_map s' \<subseteq>\<^sub>m shard_map s"
proof -
  have "shard_map s' 0 = None" by (rule shard_map_None [OF shard_invD(4) [OF assms(2)]])
  then have "shard_map s h = Some kv" if "shard_map s' h = Some kv" for h kv
    using that shrinks_map [OF assms, of h kv] by (cases "h = 0") auto
  then show ?thesis by (force simp: map_le_def)
qed

text \<open>The oldest entry, if any, has not outlived the life window.\<close>

definition oldest_fresh :: "cache_shard \<Rightarrow> (int \<times> bytes) list \<Rightarrow> u64 \<Rightarrow> bool" where
  "oldest_fresh s ps now \<longleftrightarrow> (case ps of [] \<Rightarrow> True | (k, d) # _ \<Rightarrow>
     \<exists>t. readTimestampFromEntry d = Some t \<and> now - t \<le> sh_lifeWindow s)"

lemma cleanUp_ok:
  assumes "shard_inv s ps"
  shows "\<exists>s' ps'. sh_cleanUp s now = Some s' \<and> shard_inv s' ps' \<and> shrinks 0 s ps s' ps' \<and>
    oldest_fresh s' ps' now \<and> (\<exists>gone. ps = gone @ ps')"
  using assms
proof (induction ps arbitrary: s)
  case Nil
  then have "bq_Peek (sh_entries s) = Some (Inl ErrEmptyQueue)"
    by (auto dest: shard_invD(1) empty_ops)
  then have "sh_cleanUp s now = Some s" by (subst sh_cleanUp.simps) simp
  with Nil show ?case
    by (intro exI [of _ s] exI [of _ "[]"]) (simp add: shrinks_refl oldest_fresh_def)
next
  case (Cons p ps)
  obtain k d where p: "p = (k, d)" by (cases p)
  have ok: "shard_ok 0 s ((k, d) # ps)" and none: "Mapping.lookup (sh_hashmap s) 0 = None"
    using Cons.prems p by (auto simp: shard_inv_def)
  have pk: "bq_Peek (sh_entries s) = Some (Inr d)"
    using ok by (auto simp: shard_ok_def intro: Peek_head)
  from onEvict_ok [OF ok, of now] obtain b s1 ps1 where
    ev: "sh_onEvict s d now removeOldestEntry = Some (b, s1)" "shard_ok 0 s1 ps1"
      "shrinks 0 s ((k, d) # ps) s1 ps1" "ps1 = (if b then ps else (k, d) # ps)"
      "Mapping.lookup (sh_hashmap s1) 0 = Mapping.lookup (sh_hashmap s) 0"
      "\<not> b \<longrightarrow> s1 = s \<and> (\<exists>t. readTimestampFromEntry d = Some t \<and> now - t \<le> sh_lifeWindow s)" by metis
  show ?case
  proof (cases b)
    case False
    with pk ev(1) have "sh_cleanUp s now = Some s1" by (subst sh_cleanUp.simps) simp
    with False ev Cons.prems p show ?thesis
      by (intro exI [of _ s] exI [of _ "p # ps"]) (simp add: shrinks_refl oldest_fresh_def)
  next
    case True
    have inv1: "shard_inv s1 ps" using ev True none by (simp add: shard_inv_def)
    from Cons.IH [OF this] obtain s' ps' gone where
      r: "sh_cleanUp s1 now = Some s'" "shard_inv s' ps'" "shrinks 0 s1 ps s' ps'"
        "oldest_fresh s' ps' now" "ps = gone @ ps'" by blast
    from True pk ev(1) r(1) have "sh_cleanUp s now = Some s'" by (subst sh_cleanUp.simps) simp
    moreover have "shrinks 0 s (p # ps) s' ps'"
      using shrinks_trans [OF ev(3) r(3) [folded ev(4) [simplified True, simplified]]] p by simp
    moreover have "p # ps = (p # gone) @ ps'" using r(5) by simp
    ultimately show ?thesis using r by blast
  qed
qed

lemma initNewShard_inv:
  assumes "0 < cfg_Shards c" "0 \<le> cfg_MaxEntrySize c" "cb_total cb"
  shows "\<exists>s. initNewShard c cb = Some s \<and> shard_inv s [] \<and> shard_map s = Map.empty \<and>
    sh_lifeWindow s = cfg_LifeWindowSeconds c"
proof -
  obtain m where m: "maximumShardSizeInBytes c = Some m"
    using assms(1) that by (cases "0 < cfg_HardMaxCacheSize c")
      (simp_all add: maximumShardSizeInBytes_def go_div_def)
  obtain n where n: "initialShardSize c = Some n" "0 \<le> n"
    using assms(1) by (auto simp: initialShardSize_def go_div_def go_max_def)
  define c1 where "c1 = (if m > 0 \<and> n * cfg_MaxEntrySize c > m then m else n * cfg_MaxEntrySize c)"
  have "0 \<le> c1" using n(2) assms(2) by (simp add: c1_def)
  from New_rep [OF this, of m "cfg_Verbose c"] obtain q where
    q: "NewBytesQueue c1 m (cfg_Verbose c) = Some q" "bq_rep q []" by blast
  have gap: "bq_gap q"
    using q(1) by (auto simp: NewBytesQueue_def go_make_def bq_gap_def split: if_splits)
  obtain b where b: "go_make 0 (cfg_MaxEntrySize c + 18) = Some (b :: bytes)"
    using assms(2) by (simp add: go_make_def)
  show ?thesis
    using m n q gap b assms(3)
    by (auto simp: initNewShard_def c1_def shard_inv_def shard_ok_def indexed_def shard_map_def fun_eq_iff)
qed

lemma reset_inv:
  assumes "shard_inv s ps" "cfg_Shards c \<noteq> 0" "0 \<le> cfg_MaxEntrySize c"
  shows "\<exists>s'. sh_reset s c = Some s' \<and> shard_inv s' [] \<and> shard_map s' = Map.empty"
proof -
  obtain n where n: "initialShardSize c = Some n"
    using assms(2) by (auto simp: initialShardSize_def go_div_def)
  have "bq_gap (bq_Reset (sh_entries s))" by (simp add: bq_gap_def bq_Reset_def)
  with n assms(3) shard_invD [OF assms(1)] Reset_rep show ?thesis
    by (auto simp: sh_reset_def go_make_def shard_inv_def shard_ok_def indexed_def shard_map_def fun_eq_iff)
qed

end
