(* ===== verification/Cache_Fixed_Size.thy ===== *)
theory Cache_Fixed_Size
  imports Cache_Shard_Inv
begin

text \<open>
  Shards that start at their maximal size (\<open>HardMaxCacheSize\<close> is set and the initial size
  reaches it): the array is never reallocated, so every push is safe and the invariant is
  kept by every operation, without conditions on the layout of the queue.
\<close>

definition full_size :: "bytes_queue \<Rightarrow> bool" where
  "full_size q \<longleftrightarrow> 0 < bq_maxCapacity q \<and> bq_maxCapacity q \<le> bq_capacity q \<and> bq_capacity q < 2 ^ 32"

definition same_size :: "bytes_queue \<Rightarrow> bytes_queue \<Rightarrow> bool" where
  "same_size q q' \<longleftrightarrow> bq_maxCapacity q' = bq_maxCapacity q \<and> bq_capacity q' = bq_capacity q"

lemma same_size_refl: "same_size q q"
  by (simp add: same_size_def)

lemma same_size_trans: "same_size q q' \<Longrightarrow> same_size q' q'' \<Longrightarrow> same_size q q''"
  by (simp add: same_size_def)

lemma same_size_full: "same_size q q' \<Longrightarrow> full_size q' = full_size q"
  by (simp add: same_size_def full_size_def)

lemma same_size_write: "same_size (sh_entries s) (sh_entries (write_entry s off d))"
  by (simp add: same_size_def write_entry_def)

lemma copy_size: "bq_copy q d n = Some q' \<Longrightarrow> same_size q q'"
  by (auto simp: bq_copy_def same_size_def split: bind_splits prod.splits)

lemma push_size: "bq_push q d n = Some q' \<Longrightarrow> same_size q q'"
  by (auto simp: bq_push_def Let_def dest!: copy_size split: bind_splits prod.splits if_splits)
    (simp_all add: same_size_def)

lemma Push_size:
  assumes "bq_Push q d = Some (r, q')" "full_size q"
  shows "same_size q q'"
  using assms
  by (auto simp: bq_Push_def Let_def full_size_def getUvarintSize_def same_size_refl dest!: push_size
      split: bind_splits if_splits sum.splits)
    (simp_all add: same_size_def)

lemma Pop_size: "bq_Pop q = Some (r, q') \<Longrightarrow> same_size q q'"
  by (auto simp: bq_Pop_def Let_def same_size_def split: bind_splits sum.splits if_splits)

lemma removeOldest_size: "removeOldestEntry s r = Some (e, s') \<Longrightarrow> same_size (sh_entries s) (sh_entries s')"
  by (auto simp: removeOldestEntry_def call_onRemove_def Let_def dest!: Pop_size
      split: bind_splits sum.splits if_splits)

lemma clear_previous_size: "clear_previous s h = Some s' \<Longrightarrow> same_size (sh_entries s) (sh_entries s')"
  by (auto simp: clear_previous_def Let_def same_size_refl same_size_write
      split: bind_splits sum.splits if_splits)

lemma onEvict_size:
  "sh_onEvict s d now removeOldestEntry = Some (b, s') \<Longrightarrow> same_size (sh_entries s) (sh_entries s')"
  by (auto simp: sh_onEvict_def same_size_refl dest: removeOldest_size split: bind_splits if_splits)

lemma evict_expired_size: "evict_expired s now = Some s' \<Longrightarrow> same_size (sh_entries s) (sh_entries s')"
  by (auto simp: evict_expired_def same_size_refl dest: onEvict_size split: bind_splits sum.splits)

lemma Peek_Pop: "bq_Peek q = Some (Inr d) \<Longrightarrow> \<exists>q'. bq_Pop q = Some (Inr d, q')"
  by (cases "bq_peek q (bq_head q)") (auto simp: bq_Peek_def bq_Pop_def Let_def map_sum_def split: sum.splits)

lemma evicted_queue_size: "same_size q (evicted_queue q now life)"
  by (auto simp: evicted_queue_def same_size_refl dest!: Peek_Pop dest: Pop_size
      split: option.splits sum.splits if_splits)

lemma full_set_safe: "full_size (sh_entries s) \<Longrightarrow> set_safe s h now w"
proof (cases "clear_previous s h")
  case (Some s0)
  assume "full_size (sh_entries s)"
  then have "full_size (evicted_queue (sh_entries s0) now (sh_lifeWindow s))"
    using same_size_full [OF clear_previous_size [OF Some]] same_size_full [OF evicted_queue_size] by blast
  then show ?thesis using Some by (simp add: set_safe_def push_safe_def full_size_def)
qed (simp add: set_safe_def)

lemma push_loop_size:
  assumes "push_loop s w h = Some (r, s')" "full_size (sh_entries s)"
  shows "same_size (sh_entries s) (sh_entries s')"
proof -
  have "full_size (sh_entries s) \<longrightarrow> same_size (sh_entries s) (sh_entries (snd (r, s')))"
    using assms(1)
  proof (induction rule: push_loop.raw_induct [rotated, where P = "\<lambda>s w h y. full_size (sh_entries s) \<longrightarrow>
      same_size (sh_entries s) (sh_entries (snd y))", consumes 1])
    case (1 loop s w h y)
    show ?case
    proof
      assume full: "full_size (sh_entries s)"
      from 1(2) obtain x q where push: "bq_Push (sh_entries s) w = Some (x, q)"
        by (auto split: bind_splits)
      note q = Push_size [OF push full]
      show "same_size (sh_entries s) (sh_entries (snd y))"
      proof (cases x)
        case (Inr i)
        with 1(2) push q show ?thesis by auto
      next
        case (Inl e)
        with 1(2) push obtain e' s1 where
          rm: "removeOldestEntry (s\<lparr>sh_entries := q\<rparr>) NoSpace = Some (e', s1)" by (auto split: bind_splits)
        then have s1: "same_size (sh_entries s) (sh_entries s1)"
          using q removeOldest_size same_size_trans by fastforce
        show ?thesis
        proof (cases "e' = None")
          case True
          then have "loop s1 w h = Some y" using 1(2) push Inl rm by simp
          with 1(1) full s1 show ?thesis using same_size_full same_size_trans by blast
        qed (use 1(2) push Inl rm s1 in auto)
      qed
    qed
  qed
  with assms(2) show ?thesis by simp
qed

section \<open>The methods on a shard of fixed size\<close>

definition fixed_inv :: "cache_shard \<Rightarrow> bool" where
  "fixed_inv s \<longleftrightarrow> (\<exists>ps. shard_inv s ps) \<and> full_size (sh_entries s)"

lemma evict_steps_size:
  assumes "clear_previous s h = Some s0" "evict_expired s0 now = Some s1"
  shows "same_size (sh_entries s) (sh_entries s1)"
  by (rule same_size_trans [OF clear_previous_size [OF assms(1)] evict_expired_size [OF assms(2)]])

lemma set_size:
  assumes "sh_set s key h v now = Some (r, s')" "full_size (sh_entries s)"
  shows "same_size (sh_entries s) (sh_entries s')"
proof -
  from assms(1) obtain s0 s1 w buf where s1: "clear_previous s h = Some s0" "evict_expired s0 now = Some s1"
    "push_loop (s1\<lparr>sh_entryBuffer := buf\<rparr>) w h = Some (r, s')"
    by (auto simp: sh_set_def split: bind_splits)
  note sz = evict_steps_size [OF s1(1,2)]
  with push_loop_size [OF s1(3)] same_size_full [OF sz] assms(2) show ?thesis
    by (auto intro: same_size_trans)
qed

lemma fixed_set:
  assumes inv: "fixed_inv s" and h: "h \<noteq> 0" and key: "length key < 65518"
    and fits: "int (length (enc (entry_bytes now h key v))) < bq_capacity (sh_entries s)"
  shows "\<exists>s'. sh_set s key h v now = Some (None, s') \<and> fixed_inv s' \<and>
    same_size (sh_entries s) (sh_entries s') \<and> shard_map s' h = Some (key, v) \<and>
    shard_map s' \<subseteq>\<^sub>m (shard_map s)(h \<mapsto> (key, v))"
proof -
  from inv obtain ps where ps: "shard_inv s ps" and full: "full_size (sh_entries s)"
    by (auto simp: fixed_inv_def)
  have small: "18 + length key + length v < 2 ^ 32"
    using fits full length_enc [of "entry_bytes now h key v"] by (simp add: full_size_def)
  from set_post [OF ps h key small full_set_safe [OF full]] obtain r s' where
    s': "sh_set s key h v now = Some (r, s')" "push_post h (entry_bytes now h key v) s ps r s'" by blast
  note sz = set_size [OF s'(1) full]
  have "r \<noteq> Some ErrEntryTooBig"
    using push_post_too_big s'(2) sz fits by (fastforce simp: same_size_def)
  with push_post_cases [OF s'(2)] have r: "r = None" by blast
  have cap: "bq_capacity (sh_entries s') < 2 ^ 32"
    using sz full by (simp add: same_size_def full_size_def)
  from push_post_map [OF ps key s'(2) [unfolded r] cap] s'(1) r sz same_size_full [OF sz] full show ?thesis
    by (auto simp: fixed_inv_def)
qed

lemma fixed_get:
  assumes "fixed_inv s"
  shows "\<exists>s'. sh_get s key h = Some (get_result (shard_map s h) key, s') \<and> fixed_inv s' \<and>
    same_size (sh_entries s) (sh_entries s') \<and> shard_map s' = shard_map s"
proof -
  from assms obtain ps where ps: "shard_inv s ps" by (auto simp: fixed_inv_def)
  from get_ok [OF ps, of key h] obtain s' where s': "sh_get s key h = Some (get_result (shard_map s h) key, s')"
    "shard_inv s' ps" "shard_map s' = shard_map s" by blast
  have "sh_entries s' = sh_entries s"
    using s'(1) by (auto simp: sh_get_def getWrappedEntry_def Let_def split: bind_splits sum.splits if_splits)
  with s' assms show ?thesis by (auto simp: fixed_inv_def same_size_refl)
qed

lemma del_size: "sh_del s h = Some (r, s') \<Longrightarrow> same_size (sh_entries s) (sh_entries s')"
  by (auto simp: sh_del_def sh_del_check_def sh_del_locked_def call_onRemove_def Let_def same_size_def
      write_entry_def split: bind_splits sum.splits if_splits option.splits prod.splits)

lemma del_refines:
  assumes "shard_inv s ps"
  shows "\<exists>s' ps'. sh_del s h = Some (if shard_map s h = None then Some ErrEntryNotFound else None, s') \<and>
    shard_inv s' ps' \<and> shard_map s' = (shard_map s)(h := None)"
proof (cases "shard_map s h")
  case None
  have "shard_inv (sh_delmiss s) ps" using shard_inv_cong [OF assms, of "sh_delmiss s"] by simp
  moreover have "shard_map (sh_delmiss s) = (shard_map s)(h := None)"
    using shard_map_cong [of "sh_delmiss s" s] None by (auto simp: fun_eq_iff)
  ultimately show ?thesis using None by (auto simp: sh_del_def del_check_ok [OF assms])
next
  case (Some a)
  with del_locked_ok [OF assms, of h] show ?thesis by (auto simp: sh_del_def del_check_ok [OF assms])
qed

lemma fixed_del:
  assumes "fixed_inv s"
  shows "\<exists>r s'. sh_del s h = Some (r, s') \<and> fixed_inv s' \<and> same_size (sh_entries s) (sh_entries s') \<and>
    shard_map s' = (shard_map s)(h := None)"
proof -
  from assms obtain ps where ps: "shard_inv s ps" and full: "full_size (sh_entries s)"
    by (auto simp: fixed_inv_def)
  from del_refines [OF ps, of h] obtain r s' ps' where "sh_del s h = Some (r, s')" "shard_inv s' ps'"
    "shard_map s' = (shard_map s)(h := None)" by blast
  with del_size [OF this(1)] same_size_full [OF del_size [OF this(1)]] full show ?thesis
    by (auto simp: fixed_inv_def)
qed

lemma cleanUp_size:
  assumes "sh_cleanUp s now = Some s'" shows "same_size (sh_entries s) (sh_entries s')"
  using assms
proof (induction rule: sh_cleanUp.raw_induct [rotated, where P = "\<lambda>s now y. same_size (sh_entries s) (sh_entries y)",
    consumes 1])
  case (1 loop s now y)
  from 1(2) obtain x where pk: "bq_Peek (sh_entries s) = Some x" by (auto split: bind_splits)
  show ?case
  proof (cases x)
    case (Inl e)
    with 1(2) pk show ?thesis by (simp add: same_size_refl)
  next
    case (Inr d)
    with 1(2) pk obtain b s1 where ev: "sh_onEvict s d now removeOldestEntry = Some (b, s1)"
      by (auto split: bind_splits)
    note sz = onEvict_size [OF ev]
    show ?thesis
    proof (cases b)
      case True
      then have "loop s1 now = Some y" using 1(2) pk Inr ev by simp
      with 1(1) sz show ?thesis using same_size_trans by blast
    qed (use 1(2) pk Inr ev sz in auto)
  qed
qed

lemma fixed_cleanUp:
  assumes "fixed_inv s"
  shows "\<exists>s'. sh_cleanUp s now = Some s' \<and> fixed_inv s' \<and> same_size (sh_entries s) (sh_entries s') \<and>
    shard_map s' \<subseteq>\<^sub>m shard_map s"
proof -
  from assms obtain ps where ps: "shard_inv s ps" and full: "full_size (sh_entries s)"
    by (auto simp: fixed_inv_def)
  from cleanUp_ok [OF ps, of now] obtain s' ps' where "sh_cleanUp s now = Some s'" "shard_inv s' ps'"
    "shrinks 0 s ps s' ps'" by blast
  with cleanUp_size [OF this(1)] same_size_full [OF cleanUp_size [OF this(1)]] full
    shrinks0_map_le [OF ps this(2,3)] show ?thesis by (auto simp: fixed_inv_def)
qed

lemma fixed_reset:
  assumes "fixed_inv s" "cfg_Shards c \<noteq> 0" "0 \<le> cfg_MaxEntrySize c"
  shows "\<exists>s'. sh_reset s c = Some s' \<and> fixed_inv s' \<and> same_size (sh_entries s) (sh_entries s') \<and>
    shard_map s' = Map.empty"
proof -
  from assms(1) obtain ps where ps: "shard_inv s ps" and full: "full_size (sh_entries s)"
    by (auto simp: fixed_inv_def)
  from reset_inv [OF ps assms(2,3)] obtain s' where s': "sh_reset s c = Some s'" "shard_inv s' []"
    "shard_map s' = Map.empty" by blast
  have sz: "same_size (sh_entries s) (sh_entries s')"
    using s'(1) by (auto simp: sh_reset_def bq_Reset_def same_size_def split: bind_splits)
  with s' same_size_full [OF sz] full show ?thesis by (auto simp: fixed_inv_def)
qed

end
