(* ===== verification/Cache_Shard_Props.thy ===== *)
theory Cache_Shard_Props
  imports Cache_Fixed_Size
begin

text \<open>
  What the methods of a cache shard promise: \<open>set\<close>, \<open>get\<close>, \<open>del\<close>, \<open>append\<close> and \<open>cleanUp\<close>
  refine operations on the partial map \<open>shard_map\<close>, up to evictions. The witnesses run on
  the shard that \<open>initNewShard\<close> builds from a concrete configuration.
\<close>

section \<open>A concrete shard\<close>

definition demo_config :: cache_config where
  "demo_config = \<lparr>cfg_Shards = 1, cfg_LifeWindowSeconds = 10, cfg_CleanWindow = 0,
     cfg_MaxEntriesInWindow = 1, cfg_MaxEntrySize = 8, cfg_StatsEnabled = True, cfg_Verbose = False,
     cfg_HardMaxCacheSize = 0, cfg_hasOnRemove = False, cfg_hasOnRemoveWithMetadata = False,
     cfg_hasOnRemoveWithReason = False, cfg_onRemoveFilter = 0\<rparr>"

definition demo_shard :: cache_shard where
  "demo_shard = the (initNewShard demo_config (\<lambda>_ _ _. Some []))"

lemma demo_shard: "shard_inv demo_shard []" "shard_map demo_shard = Map.empty"
proof -
  have "cb_total (\<lambda>_ _ _. Some [])" by (simp add: cb_total_def)
  from initNewShard_inv [of demo_config, OF _ _ this]
  show "shard_inv demo_shard []" "shard_map demo_shard = Map.empty"
    by (auto simp: demo_shard_def demo_config_def)
qed

lemma demo_queue: "bq_tail (sh_entries demo_shard) = 1" "bq_head (sh_entries demo_shard) = 1"
  "bq_count (sh_entries demo_shard) = 0" "sh_hashmap demo_shard = Mapping.empty"
  "bq_capacity (sh_entries demo_shard) = 80" "bq_maxCapacity (sh_entries demo_shard) = 0"
  by (auto simp: demo_shard_def initNewShard_def demo_config_def initialShardSize_def
      maximumShardSizeInBytes_def go_div_def go_max_def NewBytesQueue_def go_make_def)

lemma demo_safe: "set_safe demo_shard h now w"
proof -
  have "clear_previous demo_shard h = Some demo_shard"
    by (simp add: clear_previous_def map_get_def demo_queue)
  moreover have "bq_Peek (sh_entries demo_shard) = Some (Inl ErrEmptyQueue)"
    by (simp add: bq_Peek_def bq_peek_def peekCheckErr_def demo_queue)
  ultimately show ?thesis
    by (simp add: set_safe_def evicted_queue_def push_safe_def realloc_ok_def demo_queue)
qed

text \<open>The shard after a first \<open>set\<close>.\<close>

definition demo_shard1 :: cache_shard where
  "demo_shard1 = snd (the (sh_set demo_shard [65] 7 [1, 2] 100))"

lemma demo_set: "sh_set demo_shard [65] 7 [1, 2] 100 = Some (None, demo_shard1)"
  and demo_capacity: "bq_capacity (sh_entries demo_shard1) = 80"
proof -
  have "map_option (\<lambda>(r, s). (r, bq_capacity (sh_entries s))) (sh_set demo_shard [65] 7 [1, 2] 100)
      = Some (None, 80)" by code_simp
  then show "sh_set demo_shard [65] 7 [1, 2] 100 = Some (None, demo_shard1)"
    "bq_capacity (sh_entries demo_shard1) = 80" by (auto simp: demo_shard1_def)
qed

lemma demo_sizes: "(7 :: u64) \<noteq> 0" "length [65 :: byte] < 65518"
  "18 + length [65 :: byte] + length [1, 2 :: byte] < 2 ^ 32"
  by simp_all

lemma demo_shard1: "\<exists>ps. shard_inv demo_shard1 ps" "shard_map demo_shard1 7 = Some ([65], [1, 2])"
proof -
  from set_post [OF demo_shard(1) demo_sizes demo_safe, of 100] demo_set have
    "push_post 7 (entry_bytes 100 7 [65] [1, 2]) demo_shard [] None demo_shard1" by simp
  from push_post_map [OF demo_shard(1) demo_sizes(2) this]
  show "\<exists>ps. shard_inv demo_shard1 ps" "shard_map demo_shard1 7 = Some ([65], [1, 2])"
    by (simp_all add: demo_capacity)
qed

section \<open>What a set evicts\<close>

text \<open>The queue after \<open>n\<close> calls of \<open>Pop\<close>.\<close>

definition pops :: "bytes_queue \<Rightarrow> nat \<Rightarrow> bytes_queue" where
  "pops q n = ((\<lambda>q. snd (the (bq_Pop q))) ^^ n) q"

lemma pops_simps [simp]: "pops q 0 = q" "pops q (Suc n) = pops (snd (the (bq_Pop q))) n"
  by (simp_all add: pops_def funpow_Suc_right del: funpow.simps(2))

lemma pops_add: "pops (pops q m) n = pops q (m + n)"
  by (induction m arbitrary: q) simp_all

definition hashes :: "(int \<times> bytes) list \<Rightarrow> u64 set" where
  "hashes ps = {g. \<exists>k d. (k, d) \<in> set ps \<and> readHashFromEntry d = Some g}"

lemma hashes_simps [simp]: "hashes [] = {}" "hashes ((k, d) # ps) = {g. readHashFromEntry d = Some g} \<union> hashes ps"
  "hashes (ps @ qs) = hashes ps \<union> hashes qs"
  by (auto simp: hashes_def)

text \<open>Outside the hash \<open>x\<close>, exactly the hashes of the first \<open>n\<close> entries are unbound.\<close>

definition loses :: "u64 \<Rightarrow> cache_shard \<Rightarrow> cache_shard \<Rightarrow> (int \<times> bytes) list \<Rightarrow> nat \<Rightarrow> bool" where
  "loses x s s' ps n \<longleftrightarrow> (\<forall>g. g \<noteq> x \<longrightarrow> g \<noteq> 0 \<longrightarrow>
     Mapping.lookup (sh_hashmap s') g = (if g \<in> hashes (take n ps) then None else Mapping.lookup (sh_hashmap s) g))"

lemma loses_0: "sh_hashmap s' = sh_hashmap s \<Longrightarrow> loses x s s' ps 0"
  by (simp add: loses_def)

lemma loses_trans: "loses x s s1 ps m \<Longrightarrow> loses x s1 s' (drop m ps) n \<Longrightarrow> loses x s s' ps (m + n)"
  by (simp add: loses_def take_add)

lemma removeOldest_hashmap:
  assumes "removeOldestEntry s r = Some (None, s')" "bq_Pop (sh_entries s) = Some (Inr d, q)" "readHashFromEntry d = Some h"
  shows "sh_hashmap s' = (if h = 0 then sh_hashmap s else Mapping.delete h (sh_hashmap s))"
  using assms by (auto simp: removeOldestEntry_def call_onRemove_def Let_def bind_eq_Some_conv split: if_splits)

lemma reset_timestamp:
  assumes "wf_entry d"
  shows "readTimestampFromEntry (blit d 8 (le64 0)) = readTimestampFromEntry d"
proof -
  from assms obtain ts h key v where d: "d = entry_bytes ts h key v" "length key < 65518" by (auto simp: wf_entry_def)
  then have "resetKeyFromEntry d = Some (blit d 8 (le64 0))" by (simp add: resetKey_eq)
  with d have "blit d 8 (le64 0) = entry_bytes ts 0 key v" by (simp add: resetKey_entry)
  with d show ?thesis by (simp add: readTimestamp_entry)
qed

lemma removeOldest_loses:
  assumes "shard_ok x s ((k, d) # ps)"
  shows "\<exists>s'. removeOldestEntry s r = Some (None, s') \<and> shard_ok x s' ps \<and> shrinks x s ((k, d) # ps) s' ps \<and> loses x s s' ((k, d) # ps) 1 \<and>
    sh_entries s' = pops (sh_entries s) 1 \<and> bq_maxCapacity (sh_entries s') = bq_maxCapacity (sh_entries s) \<and>
    bq_capacity (sh_entries s') = bq_capacity (sh_entries s)"
proof -
  from removeOldest_ok [OF assms, of r] obtain s' where s': "removeOldestEntry s r = Some (None, s')" "shard_ok x s' ps"
    "shrinks x s ((k, d) # ps) s' ps" "bq_maxCapacity (sh_entries s') = bq_maxCapacity (sh_entries s)"
    "bq_capacity (sh_entries s') = bq_capacity (sh_entries s)" "bq_Pop (sh_entries s) = Some (Inr d, sh_entries s')" by blast
  have "cell_ok d" using assms by (auto simp: shard_ok_def)
  with readHash_total [OF cell_ok_length] obtain h where h: "readHashFromEntry d = Some h" by blast
  have "sh_hashmap s' = (if h = 0 then sh_hashmap s else Mapping.delete h (sh_hashmap s))"
    by (rule removeOldest_hashmap [OF s'(1, 6) h])
  then have "loses x s s' ((k, d) # ps) 1" using h by (auto simp: loses_def)
  with s' show ?thesis by auto
qed

text \<open>The oldest entry has outlived the life window.\<close>

definition expired :: "cache_shard \<Rightarrow> (int \<times> bytes) list \<Rightarrow> u64 \<Rightarrow> bool" where
  "expired s ps now \<longleftrightarrow> (case ps of [] \<Rightarrow> False | (k, d) # _ \<Rightarrow> (\<exists>t. readTimestampFromEntry d = Some t \<and> now - t > sh_lifeWindow s))"

lemma evict_expired_loses:
  assumes "shard_ok x s ps" "evict_expired s now = Some s'"
  shows "loses x s s' ps (of_bool (expired s ps now)) \<and> shard_ok x s' (drop (of_bool (expired s ps now)) ps) \<and>
    sh_entries s' = pops (sh_entries s) (of_bool (expired s ps now))"
proof (cases ps)
  case Nil
  with assms show ?thesis by (auto simp: evict_expired_def shard_ok_def empty_ops expired_def loses_0)
next
  case (Cons p ps')
  obtain k d where p: "p = (k, d)" by (cases p)
  have pk: "bq_Peek (sh_entries s) = Some (Inr d)" and "cell_ok d" using assms(1) Cons p by (auto simp: shard_ok_def intro: Peek_head)
  with readTimestamp_total [of d] cell_ok_length [of d] obtain t where t: "readTimestampFromEntry d = Some t" by fastforce
  from removeOldest_loses [OF assms(1) [unfolded Cons p], of Expired] obtain s1 where
    s1: "removeOldestEntry s Expired = Some (None, s1)" "shard_ok x s1 ps'" "loses x s s1 ps 1" "sh_entries s1 = pops (sh_entries s) 1"
    unfolding Cons p by blast
  show ?thesis
  proof (cases "now - t > sh_lifeWindow s")
    case True
    then have "s' = s1" using assms(2) pk t s1(1) by (simp add: evict_expired_def sh_onEvict_def)
    with True s1 t show ?thesis by (simp add: Cons p expired_def)
  next
    case False
    then have "s' = s" using assms(2) pk t by (simp add: evict_expired_def sh_onEvict_def)
    with False assms(1) t show ?thesis by (simp add: Cons p expired_def loses_0)
  qed
qed

lemma push_loop_loses:
  assumes "shard_ok x s ps" "small w" "push_safe (sh_entries s) w" "push_loop s w x = Some (None, s')"
  shows "\<exists>n. loses x s s' ps n \<and> (\<forall>j < n. push_rejected (pops (sh_entries s) j) w)"
  using assms(1, 3, 4)
proof (induction ps arbitrary: s)
  case Nil
  from Nil.prems(1) have rep: "bq_rep (sh_entries s) []" by (simp add: shard_ok_def)
  from rep assms(2) Nil.prems(2) show ?case
  proof (cases rule: Push_cases)
    case rejected
    with removeOldest_empty [OF Nil.prems(1), of NoSpace] Nil.prems(3) show ?thesis by (subst (asm) push_loop.simps) simp
  next
    case (pushed idx q' ps')
    with Nil.prems(3) show ?thesis by (subst (asm) push_loop.simps) (auto simp: loses_def intro!: exI [of _ 0])
  qed
next
  case (Cons p ps)
  obtain k d where p: "p = (k, d)" by (cases p)
  have rep: "bq_rep (sh_entries s) (p # ps)" using Cons.prems(1) by (simp add: shard_ok_def)
  from rep assms(2) Cons.prems(2) show ?case
  proof (cases rule: Push_cases)
    case rejected
    from removeOldest_loses [OF Cons.prems(1) [unfolded p], of NoSpace] obtain s1 where
      s1: "removeOldestEntry s NoSpace = Some (None, s1)" "shard_ok x s1 ps" "loses x s s1 (p # ps) 1" "sh_entries s1 = pops (sh_entries s) 1"
        "bq_maxCapacity (sh_entries s1) = bq_maxCapacity (sh_entries s)" "bq_capacity (sh_entries s1) = bq_capacity (sh_entries s)"
      unfolding p by blast
    have safe: "push_safe (sh_entries s1) w" using rejected(1) s1(5, 6) by (auto simp: push_safe_def push_rejected_def Let_def)
    have "push_loop s1 w x = Some (None, s')" using Cons.prems(3) rejected(2) s1(1) by (subst (asm) push_loop.simps) simp
    from Cons.IH [OF s1(2) safe this] obtain n where n: "loses x s1 s' ps n" "\<forall>j < n. push_rejected (pops (sh_entries s1) j) w" by blast
    have "loses x s s' (p # ps) (1 + n)" using loses_trans [OF s1(3)] n(1) by simp
    moreover have "push_rejected (pops (sh_entries s) j) w" if "j < 1 + n" for j using that rejected(1) n(2) s1(4) by (cases j) auto
    ultimately show ?thesis by blast
  next
    case (pushed idx q' ps')
    with Cons.prems(3) show ?thesis by (subst (asm) push_loop.simps) (auto simp: loses_def intro!: exI [of _ 0])
  qed
qed

text \<open>Clearing the previous entry of a hash leaves the other hashes and all times.\<close>

lemma clear_previous_patch:
  assumes "shard_inv s ps" "h \<noteq> 0" "clear_previous s h = Some s0"
  shows "\<exists>ps0. shard_ok h s0 ps0 \<and> sh_hashmap s0 = sh_hashmap s \<and> sh_lifeWindow s0 = sh_lifeWindow s \<and>
    (\<forall>n g. g \<noteq> h \<longrightarrow> g \<noteq> 0 \<longrightarrow> g \<in> hashes (take n ps0) \<longleftrightarrow> g \<in> hashes (take n ps)) \<and> expired s0 ps0 now = expired s ps now"
proof (cases "Mapping.lookup (sh_hashmap s) h")
  case None
  then have "s0 = s" using assms(3) by (simp add: clear_previous_def map_get_def)
  moreover have "shard_ok h s ps"
    using shard_invD [OF assms(1)] indexed_exempt [OF shard_invD(3, 4) [OF assms(1)] None assms(2)] by (auto simp: shard_ok_def)
  ultimately show ?thesis by blast
next
  case (Some i)
  note I = shard_invD [OF assms(1)]
  from peek_indexed [OF assms(1) Some] obtain d n where d: "i \<noteq> 0" "(uint i, d) \<in> set ps" "wf_entry d"
    "readHashFromEntry d = Some h" "bq_peek (sh_entries s) (uint i) = Some (Inr (d, n))"
    "n = int (length (enc d)) - int (length d)" by metis
  let ?d = "blit d 8 (le64 0)"
  have s0: "s0 = write_entry s (uint i + n) ?d" using assms(3) Some d reset_wf(3) [OF d(3)] by (simp add: clear_previous_def map_get_def)
  have "shard_ok h s0 (patch (uint i) ?d ps)"
    using write_reset_rep [OF assms(1) d(2, 3, 6)] I(5) indexed_clear(1) [OF I(3) Some assms(2) I(4) rep_distinct [OF I(1)] reset_wf(2) [OF d(3)]]
    by (simp add: shard_ok_def s0) (simp add: write_entry_def)
  moreover have dist: "distinct (map fst ps)" using rep_distinct [OF I(1)] .
  have at: "e = d" if "(uint i, e) \<in> set ps" for e using that d(2) dist by (metis eq_key_imp_eq_value)
  have "g \<in> hashes (take m (patch (uint i) ?d ps)) \<longleftrightarrow> g \<in> hashes (take m ps)" if "g \<noteq> h" "g \<noteq> 0" for m g
  proof -
    have eq: "take m (patch (uint i) ?d ps) = patch (uint i) ?d (take m ps)" by (simp add: patch_def take_map)
    have "e = d" if "(uint i, e) \<in> set (take m ps)" for e using at in_set_takeD [OF that] by blast
    then show ?thesis using that d(4) reset_wf(2) [OF d(3)] unfolding eq hashes_def by (auto simp: in_patch) (metis option.inject)
  qed
  moreover have "expired s0 (patch (uint i) ?d ps) now = expired s ps now"
  proof (cases ps)
    case (Cons p qs)
    obtain k e where p: "p = (k, e)" by (cases p)
    show ?thesis using at [of e] reset_timestamp [OF d(3)]
      by (cases "k = uint i") (simp_all add: Cons p expired_def patch_def s0 write_entry_def)
  qed (simp add: expired_def patch_def)
  moreover have "sh_hashmap s0 = sh_hashmap s" "sh_lifeWindow s0 = sh_lifeWindow s" by (simp_all add: s0 write_entry_def)
  ultimately show ?thesis by blast
qed

lemma set_evicts:
  assumes inv: "shard_inv s ps" and h: "h \<noteq> 0" and key: "length key < 65518" and small: "18 + length key + length v < 2 ^ 32"
    and safe: "set_safe s h now (entry_bytes now h key v)" and set: "sh_set s key h v now = Some (None, s')"
  shows "\<exists>s0 n. clear_previous s h = Some s0 \<and> of_bool (expired s ps now) \<le> n \<and> loses h s s' ps n \<and>
    (\<forall>j. of_bool (expired s ps now) \<le> j \<longrightarrow> j < n \<longrightarrow> push_rejected (pops (sh_entries s0) j) (entry_bytes now h key v))"
proof -
  let ?w = "entry_bytes now h key v"
  from prepared_ok [OF inv h safe] obtain s0 s1 where s1: "clear_previous s h = Some s0" "evict_expired s0 now = Some s1"
    "push_safe (sh_entries s1) ?w" by blast
  from clear_previous_patch [OF inv h s1(1), of now] obtain ps0 where p0: "shard_ok h s0 ps0" "sh_hashmap s0 = sh_hashmap s"
    "\<forall>n g. g \<noteq> h \<longrightarrow> g \<noteq> 0 \<longrightarrow> g \<in> hashes (take n ps0) \<longleftrightarrow> g \<in> hashes (take n ps)" "expired s0 ps0 now = expired s ps now" by blast
  let ?e = "of_bool (expired s ps now) :: nat"
  note e = evict_expired_loses [OF p0(1) s1(2), unfolded p0(4)]
  from wrapEntry_eq obtain buf where w: "wrapEntry now h key v (sh_entryBuffer s1) = Some (?w, buf)" by blast
  let ?s1 = "s1\<lparr>sh_entryBuffer := buf\<rparr>"
  have "push_loop ?s1 ?w h = Some (None, s')" using set s1(1, 2) w by (simp add: sh_set_def)
  moreover have "small ?w" using small by (simp add: small_def)
  ultimately obtain n where n: "loses h ?s1 s' (drop ?e ps0) n" "\<forall>j < n. push_rejected (pops (sh_entries ?s1) j) ?w"
    using push_loop_loses [of h ?s1 "drop ?e ps0" ?w s'] buffer_frame(1) e s1(3) by fastforce
  have "loses h s0 s' ps0 (?e + n)" using e n(1) by (intro loses_trans [of h s0 s1]) (auto simp: loses_def)
  then have "loses h s s' ps (?e + n)" using p0(2, 3) by (simp add: loses_def)
  moreover have "push_rejected (pops (sh_entries s0) j) ?w" if "?e \<le> j" "j < ?e + n" for j
    using n(2) [rule_format, of "j - ?e"] that e by (simp add: pops_add)
  ultimately show ?thesis using s1(1) by (intro exI [of _ s0] exI [of _ "?e + n"]) auto
qed

lemma loses_map:
  assumes "shard_inv s ps" "shard_inv s' ps'" "shrinks h s ps s' ps'" "loses h s s' ps n" "g \<noteq> h"
  shows "shard_map s' g = (if g \<in> hashes (take n ps) then None else shard_map s g)"
proof (cases "shard_map s' g")
  case None
  then have "Mapping.lookup (sh_hashmap s') g = None" using shard_map_dom [OF assms(2)] by simp
  then have "g = 0 \<or> g \<in> hashes (take n ps) \<or> Mapping.lookup (sh_hashmap s) g = None"
    using assms(4, 5) by (auto simp: loses_def split: if_splits)
  then show ?thesis using None shard_map_dom [OF assms(1), of g] shard_invD(4) [OF assms(1)] by auto
next
  case (Some kv)
  then have "Mapping.lookup (sh_hashmap s') g \<noteq> None" "g \<noteq> 0"
    using shard_map_dom [OF assms(2), of g] shard_invD(4) [OF assms(2)] by auto
  then have "g \<notin> hashes (take n ps)" using assms(4, 5) by (auto simp: loses_def)
  with Some shrinks_map [OF assms(1-3, 5) Some] show ?thesis by simp
qed

text \<open>The abstract map is the relation of the hashes to the live entries.\<close>

lemma shard_map_entries:
  assumes "shard_inv s ps"
  shows "shard_map s h = Some (key, v) \<longleftrightarrow>
    h \<noteq> 0 \<and> length key < 65518 \<and> (\<exists>k ts. (k, entry_bytes ts h key v) \<in> set ps)"
proof
  assume m: "shard_map s h = Some (key, v)"
  then obtain i where "Mapping.lookup (sh_hashmap s) h = Some i"
    by (cases "Mapping.lookup (sh_hashmap s) h") (auto simp: shard_map_None)
  from shard_map_SomeE [OF assms this] m show "h \<noteq> 0 \<and> length key < 65518 \<and> (\<exists>k ts. (k, entry_bytes ts h key v) \<in> set ps)"
    by (metis option.inject prod.inject)
next
  assume "h \<noteq> 0 \<and> length key < 65518 \<and> (\<exists>k ts. (k, entry_bytes ts h key v) \<in> set ps)"
  then obtain k ts where e: "h \<noteq> 0" "length key < 65518" "(k, entry_bytes ts h key v) \<in> set ps" by blast
  from shard_invD(3) [OF assms] e(1, 3) readHash_entry obtain i where "Mapping.lookup (sh_hashmap s) h = Some i" "uint i = k"
    unfolding indexed_def by blast
  with shard_map_entry(1) [OF assms _ _ e(2)] e(3) show "shard_map s h = Some (key, v)" by blast
qed

lemma get_exact:
  assumes "shard_inv s ps"
  shows "sh_get s key h = Some (case shard_map s h of
      None \<Rightarrow> (Inl ErrEntryNotFound, sh_miss s)
    | Some (key', v) \<Rightarrow> if key = key' then (Inr v, sh_hit s h) else (Inl ErrEntryNotFound, sh_collision s))"
proof (cases "Mapping.lookup (sh_hashmap s) h")
  case None
  then show ?thesis by (simp add: sh_get_def getWrapped_ok [OF assms] shard_map_None)
next
  case (Some i)
  from shard_map_SomeE [OF assms Some] obtain ts key' v where e: "i \<noteq> 0" "length key' < 65518"
    "shard_map s h = Some (key', v)" "bq_Get (sh_entries s) (uint i) = Some (Inr (entry_bytes ts h key' v))" by metis
  then show ?thesis using Some
    by (auto simp: sh_get_def getWrappedEntry_def map_get_def readKey_entry readEntry_entry)
qed

section \<open>The methods refine a map\<close>

text \<open>
  C4. \<open>set\<close> refines the update of the abstract map. On a shard in its invariant, for a nonzero
  hash, a key below 65518 bytes, an entry below four gigabytes, and a push that does not
  reallocate a queue whose gap before the head is too small to be filled with a blank entry
  (\<open>set_safe\<close>; \<open>bq_realloc_gap_corrupts\<close> shows that such a push corrupts the queue), it
  terminates without a panic; it succeeds, or reports that the entry is too big for an empty
  queue. After a success (and while the array is addressable by the 32-bit indices of the
  hash map) the invariant holds, the hash maps to exactly the given key and value, and the
  other bindings are the old ones, less those of the \<open>n\<close> oldest entries. What is evicted is
  exact too: the oldest entry if it has expired, and then an entry only if the queue at that
  point rejects the new one.
\<close>

theorem shard_set_refines:
  assumes "shard_inv s ps" "h \<noteq> 0" "length key < 65518" "18 + length key + length v < 2 ^ 32"
    "set_safe s h now (entry_bytes now h key v)"
  shows "\<exists>r s'. sh_set s key h v now = Some (r, s') \<and>
    (r = None \<or> r = Some ErrEntryTooBig \<and>
       bq_capacity (sh_entries s') \<le> int (length (enc (entry_bytes now h key v)))) \<and>
    (r = None \<longrightarrow> bq_capacity (sh_entries s') < 2 ^ 32 \<longrightarrow>
       (\<exists>ps'. shard_inv s' ps') \<and> shard_map s' h = Some (key, v) \<and>
       (\<exists>s0 n. clear_previous s h = Some s0 \<and> of_bool (expired s ps now) \<le> n \<and>
          (\<forall>g. g \<noteq> h \<longrightarrow> shard_map s' g = (if g \<in> hashes (take n ps) then None else shard_map s g)) \<and>
          (\<forall>j. of_bool (expired s ps now) \<le> j \<longrightarrow> j < n \<longrightarrow>
             push_rejected (pops (sh_entries s0) j) (entry_bytes now h key v))))"
proof -
  from set_post [OF assms] obtain r s' where
    r: "sh_set s key h v now = Some (r, s')" "push_post h (entry_bytes now h key v) s ps r s'" by blast
  have "\<exists>s0 n. clear_previous s h = Some s0 \<and> of_bool (expired s ps now) \<le> n \<and>
      (\<forall>g. g \<noteq> h \<longrightarrow> shard_map s' g = (if g \<in> hashes (take n ps) then None else shard_map s g)) \<and>
      (\<forall>j. of_bool (expired s ps now) \<le> j \<longrightarrow> j < n \<longrightarrow>
         push_rejected (pops (sh_entries s0) j) (entry_bytes now h key v))"
    if ok: "r = None" "bq_capacity (sh_entries s') < 2 ^ 32"
  proof -
    from r(2) ok obtain ps' where s': "shard_inv s' ps'" "shrinks h s ps s' ps'" by (auto simp: push_post_def)
    from set_evicts [OF assms r(1) [unfolded ok(1)]] loses_map [OF assms(1) s'] show ?thesis by metis
  qed
  with r push_post_map [OF assms(1,3), of h now v s'] push_post_cases push_post_too_big show ?thesis by blast
qed

theorem shard_set_refines_witness:
  "shard_inv demo_shard [] \<and> (\<exists>s'. sh_set demo_shard [65] 7 [1, 2] 100 = Some (None, s') \<and>
     (\<exists>ps'. shard_inv s' ps') \<and> shard_map s' 7 = Some ([65], [1, 2]))"
  using shard_set_refines [OF demo_shard(1) demo_sizes demo_safe, of 100] demo_shard(1) demo_set demo_capacity
  by simp

text \<open>
  C5. \<open>get\<close> never panics and returns what the live entries of the queue say: the value of the
  entry with this hash if it carries this very key, and otherwise (no entry, or another key
  with the same hash) the not-found error. The abstract map \<open>shard_map\<close> is exactly the
  relation of the hashes to the entries. The shard is left as it was but for the statistics:
  one more hit (also in the statistics of the hash, if enabled), collision or miss.
\<close>

theorem shard_get_refines:
  assumes "shard_inv s ps"
  shows "(\<forall>key' v. shard_map s h = Some (key', v) \<longleftrightarrow>
      h \<noteq> 0 \<and> length key' < 65518 \<and> (\<exists>k ts. (k, entry_bytes ts h key' v) \<in> set ps)) \<and>
    sh_get s key h = Some (case shard_map s h of
      None \<Rightarrow> (Inl ErrEntryNotFound, s\<lparr>sh_stats := (sh_stats s)\<lparr>st_Misses := st_Misses (sh_stats s) + 1\<rparr>\<rparr>)
    | Some (key', v) \<Rightarrow>
        if key = key' then (Inr v, s\<lparr>sh_stats := (sh_stats s)\<lparr>st_Hits := st_Hits (sh_stats s) + 1\<rparr>,
          sh_hashmapStats := (if sh_statsEnabled s
            then Mapping.update h (map_get (sh_hashmapStats s) h + 1) (sh_hashmapStats s) else sh_hashmapStats s)\<rparr>)
        else (Inl ErrEntryNotFound, s\<lparr>sh_stats := (sh_stats s)\<lparr>st_Collisions := st_Collisions (sh_stats s) + 1\<rparr>\<rparr>))"
  unfolding get_exact [OF assms] using shard_map_entries [OF assms, of h]
  by (cases "shard_map s h") (auto simp: sh_miss_def sh_hit_def sh_collision_def Let_def)

theorem shard_get_refines_witness:
  "\<exists>ps s'. shard_inv demo_shard1 ps \<and> (\<exists>k ts. (k, entry_bytes ts 7 [65] [1, 2]) \<in> set ps) \<and>
     sh_get demo_shard1 [65] 7 = Some (Inr [1, 2], s') \<and> sh_entries s' = sh_entries demo_shard1"
proof -
  from demo_shard1(1) obtain ps where ps: "shard_inv demo_shard1 ps" by blast
  note get = shard_get_refines [OF ps, of 7 "[65]", unfolded demo_shard1(2)]
  have "\<exists>k ts. (k, entry_bytes ts 7 [65] [1, 2]) \<in> set ps" using get by blast
  moreover have "\<exists>s'. sh_get demo_shard1 [65] 7 = Some (Inr [1, 2], s') \<and> sh_entries s' = sh_entries demo_shard1"
    using get by simp
  ultimately show ?thesis using ps by blast
qed

text \<open>
  What is set can be got: after a successful \<open>set\<close>, \<open>get\<close> of the same key and hash
  returns the value that was set.
\<close>

theorem shard_set_get:
  assumes "shard_inv s ps" "h \<noteq> 0" "length key < 65518" "18 + length key + length v < 2 ^ 32"
    "set_safe s h now (entry_bytes now h key v)"
    "sh_set s key h v now = Some (None, s')" "bq_capacity (sh_entries s') < 2 ^ 32"
  shows "\<exists>s''. sh_get s' key h = Some (Inr v, s'')"
proof -
  from set_post [OF assms(1-5)] assms(6) have "push_post h (entry_bytes now h key v) s ps None s'" by simp
  from push_post_map [OF assms(1,3) this assms(7)] obtain ps' where
    "shard_inv s' ps'" "shard_map s' h = Some (key, v)" by blast
  with get_ok [OF this(1), of key h] show ?thesis by (auto simp: get_result_def)
qed

theorem shard_set_get_witness: "\<exists>s''. sh_get demo_shard1 [65] 7 = Some (Inr [1, 2], s'')"
  using shard_set_get [OF demo_shard(1) demo_sizes demo_safe demo_set] by (simp add: demo_capacity)

text \<open>
  \<open>del\<close> unbinds the hash and nothing else: it reports not-found exactly if the hash is
  unbound, keeps the invariant, and an entry deleted by it is never found again.
\<close>

theorem shard_del_refines:
  assumes "shard_inv s ps"
  shows "\<exists>s' ps'. sh_del s h = Some (if shard_map s h = None then Some ErrEntryNotFound else None, s') \<and>
    shard_inv s' ps' \<and> shard_map s' = (shard_map s)(h := None)"
  by (rule del_refines [OF assms])

theorem shard_del_refines_witness:
  "\<exists>ps s'. shard_inv demo_shard1 ps \<and> sh_del demo_shard1 7 = Some (None, s') \<and> shard_map s' 7 = None"
proof -
  from demo_shard1(1) obtain ps where "shard_inv demo_shard1 ps" by blast
  with shard_del_refines [OF this, of 7] show ?thesis by (auto simp: demo_shard1(2))
qed

text \<open>
  \<open>append\<close> on a key that is present extends its value; on an unbound hash it adds the
  key with the given value. It never panics, and after a success the abstract map is the
  update by the extended value, up to evictions.
\<close>

theorem shard_append_refines:
  assumes "shard_inv s ps" "h \<noteq> 0" "length key < 65518"
    "shard_map s h = None \<and> old = [] \<or> shard_map s h = Some (key, old)"
    "18 + length key + length old + length v < 2 ^ 32"
    "set_safe s h now (entry_bytes now h key (old @ v))"
  shows "\<exists>r s'. sh_append s key h v now = Some (r, s') \<and>
    (r = None \<or> r = Some ErrEntryTooBig \<and>
       bq_capacity (sh_entries s') \<le> int (length (enc (entry_bytes now h key (old @ v))))) \<and>
    (r = None \<longrightarrow> bq_capacity (sh_entries s') < 2 ^ 32 \<longrightarrow>
       (\<exists>ps'. shard_inv s' ps') \<and> shard_map s' h = Some (key, old @ v) \<and>
       shard_map s' \<subseteq>\<^sub>m (shard_map s)(h \<mapsto> (key, old @ v)))"
proof -
  have "\<exists>r s'. sh_append s key h v now = Some (r, s') \<and> push_post h (entry_bytes now h key (old @ v)) s ps r s'"
    using assms append_found_post [OF assms(1), of h key old v now]
      append_absent_post [OF assms(1), of h key v now] by auto
  then obtain r s' where
    r: "sh_append s key h v now = Some (r, s')" "push_post h (entry_bytes now h key (old @ v)) s ps r s'" by blast
  with push_post_map [OF assms(1,3), of h now "old @ v" s'] push_post_cases push_post_too_big show ?thesis by blast
qed

theorem shard_append_refines_witness:
  "\<exists>r s'. sh_append demo_shard [65] 7 [1, 2] 100 = Some (r, s') \<and> (r = None \<or> r = Some ErrEntryTooBig)"
proof -
  have "shard_map demo_shard 7 = None \<and> [] = ([] :: bytes) \<or> shard_map demo_shard 7 = Some ([65], [])"
    by (simp add: demo_shard(2))
  moreover have "18 + length [65 :: byte] + length ([] :: bytes) + length [1, 2 :: byte] < 2 ^ 32" by simp
  ultimately show ?thesis
    using shard_append_refines [OF demo_shard(1) demo_sizes(1,2) _ _ demo_safe, of "[]" "[1, 2]" 100] by fastforce
qed

text \<open>
  \<open>cleanUp\<close> terminates, removes a prefix of the queue (the oldest entries), leaves an
  oldest entry that has not outlived the life window (or none), keeps the invariant and
  adds or changes no binding.
\<close>

theorem shard_cleanUp_fresh:
  assumes "shard_inv s ps"
  shows "\<exists>s' gone ps'. sh_cleanUp s now = Some s' \<and> ps = gone @ ps' \<and> shard_inv s' ps' \<and>
    oldest_fresh s' ps' now \<and> shard_map s' \<subseteq>\<^sub>m shard_map s"
  using cleanUp_ok [OF assms, of now] shrinks0_map_le [OF assms] by blast

theorem shard_cleanUp_fresh_witness:
  "\<exists>ps s' gone ps'. shard_inv demo_shard1 ps \<and> sh_cleanUp demo_shard1 200 = Some s' \<and>
     ps = gone @ ps' \<and> shard_inv s' ps' \<and> oldest_fresh s' ps' 200"
proof -
  from demo_shard1(1) obtain ps where "shard_inv demo_shard1 ps" by blast
  with shard_cleanUp_fresh [OF this, of 200] show ?thesis by blast
qed

section \<open>Two runs outside the contract\<close>

text \<open>A callback that records the key of the removed entry, and a shard of 64 bytes.\<close>

definition record_key :: on_remove where
  "record_key st w r = map_option (\<lambda>k. [CalledOnRemoveWithReason k [] r]) (readKeyFromEntry w)"

definition tiny_config :: cache_config where
  "tiny_config = demo_config\<lparr>cfg_Shards := 16384, cfg_HardMaxCacheSize := 1\<rparr>"

definition too_big_run ::
  "(cache_error option list \<times> (int \<times> int) \<times> (cache_error + bytes) \<times> callback_event list) option" where
  "too_big_run = do {
     s \<leftarrow> initNewShard tiny_config record_key;
     (r1, s) \<leftarrow> sh_set s [65] 7 [1, 2] 100;
     (r2, s) \<leftarrow> sh_set s [65] 7 (replicate 60 3) 101;
     let n = (sh_len s, bq_Len (sh_entries s));
     (g, s) \<leftarrow> sh_get s [65] 7;
     (r3, s) \<leftarrow> sh_set s [66] 8 [4] 102;
     (r4, s) \<leftarrow> sh_del s 7;
     Some ([r1, r2, r3, r4], n, g, sh_events s)
   }"

text \<open>
  A \<open>set\<close> that fails because the entry is too big leaves the hash bound although the
  queue is empty: the hash of the previous entry was cleared before it was evicted, so the
  eviction did not delete the binding. \<open>get\<close> then reports an empty queue instead of a
  missing entry, and once another key has reused the index, \<open>del\<close> of the first hash
  succeeds and announces the removal of the other key.
\<close>

theorem shard_set_too_big_dangles:
  "too_big_run = Some ([None, Some ErrEntryTooBig, None, None], (1, 0),
     Inl (ErrQueue ErrEmptyQueue), [CalledOnRemoveWithReason [66] [] Deleted])"
  by code_simp

definition collision_run ::
  "(cache_error option list \<times> (cache_error + bytes) \<times> (cache_error + bytes) \<times> int) option" where
  "collision_run = do {
     s \<leftarrow> initNewShard demo_config record_key;
     (r1, s) \<leftarrow> sh_set s [65] 7 [1, 2] 100;
     (r2, s) \<leftarrow> sh_append s [66] 7 [3] 100;
     (g1, s) \<leftarrow> sh_get s [66] 7;
     (_, s) \<leftarrow> removeOldestEntry s NoSpace;
     (g2, s) \<leftarrow> sh_get s [66] 7;
     Some ([r1, r2], g1, g2, bq_Len (sh_entries s))
   }"

text \<open>
  \<open>append\<close> of a key whose hash collides with a stored key adds the new entry without
  clearing the hash of the old one (\<open>set\<close> does clear it). When the old entry is evicted, the
  binding of the new one is deleted with it: the new key is not found although its entry is
  still in the queue.
\<close>

theorem shard_append_collision_loses:
  "collision_run = Some ([None, None], Inr [3], Inl ErrEntryNotFound, 1)"
  by code_simp

end
