(* ===== verification/Big_Cache.thy ===== *)
theory Big_Cache
  imports Cache_Shard_Props
begin

unbundle bit_operations_syntax

text \<open>
  \<open>bigcache/bigcache.go\<close> and \<open>bigcache/iterator.go\<close> (with the rest of \<open>config.go\<close>,
  \<open>hash.go\<close> and \<open>utils.go\<close>): the cache as an array of shards, the choice of the shard by the
  low bits of the hash, the removal callbacks, and the iterator.

  The hasher is an argument of the model (\<open>bc_hash\<close>, any function from keys to 64-bit hashes);
  \<open>now\<close> is the reading of the clock. The cleaning goroutine calls \<open>bc_cleanUp\<close> on each tick.
\<close>

section \<open>The cache\<close>

record big_cache =
  bc_shards :: "cache_shard list"
  bc_lifeWindow :: u64
  bc_hash :: "bytes \<Rightarrow> u64"
  bc_config :: cache_config
  bc_shardMask :: u64
  bc_maxShardSize :: u32
  bc_closed :: bool

datatype new_error = ErrShardsNotPowerOfTwo

definition isPowerOfTwo :: "int \<Rightarrow> bool" where
  "isPowerOfTwo number = (let n = (word_of_int number :: u64) in n AND (n - 1) = 0)"

definition DefaultConfig :: "u64 \<Rightarrow> cache_config" where
  "DefaultConfig eviction = \<lparr>cfg_Shards = 1024, cfg_LifeWindowSeconds = eviction, cfg_CleanWindow = 1,
     cfg_MaxEntriesInWindow = 1000 * 10 * 60, cfg_MaxEntrySize = 500, cfg_StatsEnabled = False,
     cfg_Verbose = True, cfg_HardMaxCacheSize = 0, cfg_hasOnRemove = False,
     cfg_hasOnRemoveWithMetadata = False, cfg_hasOnRemoveWithReason = False, cfg_onRemoveFilter = 0\<rparr>"

definition OnRemoveFilterSet :: "cache_config \<Rightarrow> remove_reason list \<Rightarrow> cache_config" where
  "OnRemoveFilterSet c reasons =
     foldl (\<lambda>c r. c\<lparr>cfg_onRemoveFilter := cfg_onRemoveFilter c OR push_bit (reason_code r) 1\<rparr>)
       (c\<lparr>cfg_onRemoveFilter := 0\<rparr>) reasons"

text \<open>
  The callbacks. \<open>providedOnRemoveWithMetadata\<close> hashes the key of the entry, takes the shard of
  that hash and reads its statistics; an entry is stored in the shard of the hash of its key,
  so these are the statistics \<open>st\<close> of the shard that makes the call.
\<close>

definition providedOnRemove :: on_remove where
  "providedOnRemove st w reason = do {
     key \<leftarrow> readKeyFromEntry w;
     entry \<leftarrow> readEntry w;
     Some [CalledOnRemove key entry]
   }"

definition providedOnRemoveWithReason :: "cache_config \<Rightarrow> on_remove" where
  "providedOnRemoveWithReason config st w reason =
     (if cfg_onRemoveFilter config = 0 \<or>
         push_bit (reason_code reason) 1 AND cfg_onRemoveFilter config > 0
      then do {
        key \<leftarrow> readKeyFromEntry w;
        entry \<leftarrow> readEntry w;
        Some [CalledOnRemoveWithReason key entry reason]
      } else Some [])"

definition notProvidedOnRemove :: on_remove where
  "notProvidedOnRemove st w reason = Some []"

definition providedOnRemoveWithMetadata :: "(bytes \<Rightarrow> u64) \<Rightarrow> on_remove" where
  "providedOnRemoveWithMetadata hash st w reason = do {
     hkey \<leftarrow> readKeyFromEntry w;
     key \<leftarrow> readKeyFromEntry w;
     entry \<leftarrow> readEntry w;
     Some [CalledOnRemoveWithMetadata key entry (map_get st (hash hkey))]
   }"

definition selectOnRemove :: "cache_config \<Rightarrow> (bytes \<Rightarrow> u64) \<Rightarrow> on_remove" where
  "selectOnRemove config hash =
     (if cfg_hasOnRemoveWithMetadata config then providedOnRemoveWithMetadata hash
      else if cfg_hasOnRemove config then providedOnRemove
      else if cfg_hasOnRemoveWithReason config then providedOnRemoveWithReason config
      else notProvidedOnRemove)"

fun initShards :: "nat \<Rightarrow> cache_config \<Rightarrow> on_remove \<Rightarrow> cache_shard list option" where
  "initShards 0 config cb = Some []"
| "initShards (Suc n) config cb = do {
     s \<leftarrow> initNewShard config cb;
     ss \<leftarrow> initShards n config cb;
     Some (s # ss)
   }"

text \<open>A missing \<open>Hasher\<close> (\<open>None\<close>) is replaced by the default one.\<close>

definition newBigCache :: "cache_config \<Rightarrow> (bytes \<Rightarrow> u64) option \<Rightarrow> (new_error + big_cache) option" where
  "newBigCache config hasher =
     (if \<not> isPowerOfTwo (cfg_Shards config) then Some (Inl ErrShardsNotPowerOfTwo)
      else do {
        let hash = (case hasher of None \<Rightarrow> Sum64 | Some f \<Rightarrow> f);
        _ \<leftarrow> go_make () (cfg_Shards config);
        m \<leftarrow> maximumShardSizeInBytes config;
        ss \<leftarrow> initShards (nat (cfg_Shards config)) config (selectOnRemove config hash);
        Some (Inr \<lparr>bc_shards = ss, bc_lifeWindow = cfg_LifeWindowSeconds config, bc_hash = hash,
          bc_config = config, bc_shardMask = word_of_int (cfg_Shards config - 1),
          bc_maxShardSize = word_of_int m, bc_closed = False\<rparr>)
      })"

definition bc_Close :: "big_cache \<Rightarrow> big_cache option" where
  "bc_Close c = (if bc_closed c then None else Some (c\<lparr>bc_closed := True\<rparr>))"

text \<open>\<open>getShard\<close> returns a pointer; here the shard's index. \<open>on_shard\<close> runs a method on it.\<close>

definition getShard :: "big_cache \<Rightarrow> u64 \<Rightarrow> nat option" where
  "getShard c hashedKey =
     (let i = unat (hashedKey AND bc_shardMask c)
      in if i < length (bc_shards c) then Some i else None)"

definition on_shard ::
  "big_cache \<Rightarrow> u64 \<Rightarrow> (cache_shard \<Rightarrow> ('r \<times> cache_shard) option) \<Rightarrow> ('r \<times> big_cache) option" where
  "on_shard c hashedKey f = do {
     i \<leftarrow> getShard c hashedKey;
     (r, s) \<leftarrow> f (bc_shards c ! i);
     Some (r, c\<lparr>bc_shards := (bc_shards c)[i := s]\<rparr>)
   }"

definition bc_Get :: "big_cache \<Rightarrow> bytes \<Rightarrow> ((cache_error + bytes) \<times> big_cache) option" where
  "bc_Get c key = (let hashedKey = bc_hash c key in on_shard c hashedKey (\<lambda>s. sh_get s key hashedKey))"

definition bc_GetWithInfo ::
  "big_cache \<Rightarrow> bytes \<Rightarrow> u64 \<Rightarrow> ((cache_error + bytes \<times> remove_reason) \<times> big_cache) option" where
  "bc_GetWithInfo c key now =
     (let hashedKey = bc_hash c key in on_shard c hashedKey (\<lambda>s. sh_getWithInfo s key hashedKey now))"

definition bc_Set :: "big_cache \<Rightarrow> bytes \<Rightarrow> bytes \<Rightarrow> u64 \<Rightarrow> (cache_error option \<times> big_cache) option" where
  "bc_Set c key entry now =
     (let hashedKey = bc_hash c key in on_shard c hashedKey (\<lambda>s. sh_set s key hashedKey entry now))"

definition bc_Append :: "big_cache \<Rightarrow> bytes \<Rightarrow> bytes \<Rightarrow> u64 \<Rightarrow> (cache_error option \<times> big_cache) option" where
  "bc_Append c key entry now =
     (let hashedKey = bc_hash c key in on_shard c hashedKey (\<lambda>s. sh_append s key hashedKey entry now))"

definition bc_Delete :: "big_cache \<Rightarrow> bytes \<Rightarrow> (cache_error option \<times> big_cache) option" where
  "bc_Delete c key = (let hashedKey = bc_hash c key in on_shard c hashedKey (\<lambda>s. sh_del s hashedKey))"

text \<open>The loops \<open>for _, shard := range c.shards\<close>.\<close>

fun each_shard :: "(cache_shard \<Rightarrow> cache_shard option) \<Rightarrow> cache_shard list \<Rightarrow> cache_shard list option" where
  "each_shard f [] = Some []"
| "each_shard f (s # ss) = do { s \<leftarrow> f s; ss \<leftarrow> each_shard f ss; Some (s # ss) }"

definition bc_Reset :: "big_cache \<Rightarrow> big_cache option" where
  "bc_Reset c = do {
     ss \<leftarrow> each_shard (\<lambda>s. sh_reset s (bc_config c)) (bc_shards c);
     Some (c\<lparr>bc_shards := ss\<rparr>)
   }"

definition bc_Len :: "big_cache \<Rightarrow> int" where
  "bc_Len c = foldl (\<lambda>n s. n + sh_len s) 0 (bc_shards c)"

definition bc_Capacity :: "big_cache \<Rightarrow> int" where
  "bc_Capacity c = foldl (\<lambda>n s. n + sh_capacity s) 0 (bc_shards c)"

definition bc_Stats :: "big_cache \<Rightarrow> cache_stats" where
  "bc_Stats c = foldl (\<lambda>t s. let tmp = sh_getStats s in
       \<lparr>st_Hits = st_Hits t + st_Hits tmp, st_Misses = st_Misses t + st_Misses tmp,
        st_DelHits = st_DelHits t + st_DelHits tmp, st_DelMisses = st_DelMisses t + st_DelMisses tmp,
        st_Collisions = st_Collisions t + st_Collisions tmp\<rparr>)
     \<lparr>st_Hits = 0, st_Misses = 0, st_DelHits = 0, st_DelMisses = 0, st_Collisions = 0\<rparr> (bc_shards c)"

definition bc_KeyMetadata :: "big_cache \<Rightarrow> bytes \<Rightarrow> u32 option" where
  "bc_KeyMetadata c key = do {
     let hashedKey = bc_hash c key;
     i \<leftarrow> getShard c hashedKey;
     Some (getKeyMetadataWithLock (bc_shards c ! i) hashedKey)
   }"

definition bc_cleanUp :: "big_cache \<Rightarrow> u64 \<Rightarrow> big_cache option" where
  "bc_cleanUp c currentTimestamp = do {
     ss \<leftarrow> each_shard (\<lambda>s. sh_cleanUp s currentTimestamp) (bc_shards c);
     Some (c\<lparr>bc_shards := ss\<rparr>)
   }"

definition bc_onEvict ::
  "big_cache \<Rightarrow> bytes \<Rightarrow> u64 \<Rightarrow> (remove_reason \<Rightarrow> (queue_error option \<times> big_cache) option)
    \<Rightarrow> (bool \<times> big_cache) option" where
  "bc_onEvict c oldestEntry currentTimestamp evict = do {
     oldestTimestamp \<leftarrow> readTimestampFromEntry oldestEntry;
     if currentTimestamp - oldestTimestamp > bc_lifeWindow c
     then do { (_, c) \<leftarrow> evict Expired; Some (True, c) }
     else Some (False, c)
   }"

section \<open>The iterator\<close>

record entry_info =
  ei_timestamp :: u64
  ei_hash :: u64
  ei_key :: bytes
  ei_value :: bytes
  ei_err :: "cache_error option"

definition emptyEntryInfo :: entry_info where
  "emptyEntryInfo = \<lparr>ei_timestamp = 0, ei_hash = 0, ei_key = [], ei_value = [], ei_err = None\<rparr>"

datatype iterator_error = ErrInvalidIteratorState | ErrOfEntry cache_error

record entry_iterator =
  it_currentShard :: int
  it_currentIndex :: int
  it_currentEntryInfo :: entry_info
  it_elements :: "u64 list"
  it_elementsCount :: int
  it_valid :: bool

definition newIterator :: "(u64 set \<Rightarrow> u64 list) \<Rightarrow> big_cache \<Rightarrow> entry_iterator option" where
  "newIterator order c = do {
     s \<leftarrow> go_nth (bc_shards c) 0;
     let (elements, n) = copyHashedKeys order s;
     Some \<lparr>it_currentShard = 0, it_currentIndex = -1, it_currentEntryInfo = emptyEntryInfo,
       it_elements = elements, it_elementsCount = n, it_valid = False\<rparr>
   }"

definition setCurrentEntry ::
  "entry_iterator \<Rightarrow> big_cache \<Rightarrow> (bool \<times> entry_iterator \<times> big_cache) option" where
  "setCurrentEntry it c = do {
     s \<leftarrow> go_nth (bc_shards c) (it_currentShard it);
     h \<leftarrow> go_nth (it_elements it) (it_currentIndex it);
     (r, s) \<leftarrow> sh_getEntry s h;
     let c = c\<lparr>bc_shards := (bc_shards c)[nat (it_currentShard it) := s]\<rparr>;
     case r of
       Inl e \<Rightarrow>
         if e = ErrEntryNotFound then Some (True, it\<lparr>it_currentEntryInfo := emptyEntryInfo\<rparr>, c)
         else Some (False, it\<lparr>it_currentEntryInfo := emptyEntryInfo\<lparr>ei_err := Some e\<rparr>\<rparr>, c)
     | Inr entry \<Rightarrow> do {
         t \<leftarrow> readTimestampFromEntry entry;
         h' \<leftarrow> readHashFromEntry entry;
         k \<leftarrow> readKeyFromEntry entry;
         v \<leftarrow> readEntry entry;
         Some (False, it\<lparr>it_currentEntryInfo :=
           \<lparr>ei_timestamp = t, ei_hash = h', ei_key = k, ei_value = v, ei_err = None\<rparr>\<rparr>, c)
       }
   }"

text \<open>The loop over the shards after the current one: position at the first nonempty shard.\<close>

fun findShard ::
  "(u64 set \<Rightarrow> u64 list) \<Rightarrow> big_cache \<Rightarrow> int list \<Rightarrow> entry_iterator \<Rightarrow> (bool \<times> entry_iterator) option" where
  "findShard order c [] it = Some (False, it)"
| "findShard order c (i # js) it = do {
     s \<leftarrow> go_nth (bc_shards c) i;
     let (elements, n) = copyHashedKeys order s;
     let it = it\<lparr>it_elements := elements, it_elementsCount := n\<rparr>;
     if n > 0 then Some (True, it\<lparr>it_currentIndex := 0, it_currentShard := i, it_valid := True\<rparr>)
     else findShard order c js it
   }"

partial_function (option) SetNext ::
  "(u64 set \<Rightarrow> u64 list) \<Rightarrow> entry_iterator \<Rightarrow> big_cache \<Rightarrow> (bool \<times> entry_iterator \<times> big_cache) option" where
  "SetNext order it c = do {
     let it = it\<lparr>it_valid := False, it_currentIndex := it_currentIndex it + 1\<rparr>;
     if it_elementsCount it > it_currentIndex it then do {
       (empty, it, c) \<leftarrow> setCurrentEntry (it\<lparr>it_valid := True\<rparr>) c;
       if empty then SetNext order it c else Some (True, it, c)
     } else do {
       (found, it) \<leftarrow> findShard order c [it_currentShard it + 1 .. cfg_Shards (bc_config c) - 1] it;
       if found then do {
         (empty, it, c) \<leftarrow> setCurrentEntry it c;
         if empty then SetNext order it c else Some (True, it, c)
       } else Some (False, it, c)
     }
   }"

declare SetNext.simps [code]

definition it_Value :: "entry_iterator \<Rightarrow> entry_info \<times> iterator_error option" where
  "it_Value it =
     (if \<not> it_valid it then (emptyEntryInfo, Some ErrInvalidIteratorState)
      else (it_currentEntryInfo it, map_option ErrOfEntry (ei_err (it_currentEntryInfo it))))"

end
