(* ===== verification/Evicting_Map.thy ===== *)
theory Evicting_Map
  imports Go_Prelude
begin

text \<open>
  The contract of a cache: a partial map that may lose bindings at any time but never
  invents, confuses or revives one. The locale states it for one step of an implementation;
  its lemmas lift it to runs: every lookup of a run returns nothing or the value that was
  last put under the key and not deleted since.
\<close>

section \<open>Operations and their meaning\<close>

datatype ('k, 'v) map_op = MPut 'k 'v | MDel 'k | MGet 'k | MTick | MClear

fun op_spec :: "('k, 'v) map_op \<Rightarrow> ('k \<Rightarrow> 'v option) \<Rightarrow> ('k \<Rightarrow> 'v option)" where
  "op_spec (MPut k v) m = m(k \<mapsto> v)"
| "op_spec (MDel k) m = m(k := None)"
| "op_spec (MGet k) m = m"
| "op_spec MTick m = m"
| "op_spec MClear m = Map.empty"

text \<open>What a map that never evicts returns: the value of a lookup, nothing otherwise.\<close>

fun op_result :: "('k, 'v) map_op \<Rightarrow> ('k \<Rightarrow> 'v option) \<Rightarrow> 'v option" where
  "op_result (MGet k) m = m k"
| "op_result _ m = None"

fun run_spec :: "('k, 'v) map_op list \<Rightarrow> ('k \<Rightarrow> 'v option) \<Rightarrow> 'v option list \<times> ('k \<Rightarrow> 'v option)" where
  "run_spec [] m = ([], m)"
| "run_spec (op # ops) m =
     (let (rs, m') = run_spec ops (op_spec op m) in (op_result op m # rs, m'))"

text \<open>A run of an implementation; \<open>None\<close> if a step panics.\<close>

fun run_steps :: "('o \<Rightarrow> 's \<Rightarrow> ('v option \<times> 's) option) \<Rightarrow> 'o list \<Rightarrow> 's \<Rightarrow> ('v option list \<times> 's) option" where
  "run_steps step [] s = Some ([], s)"
| "run_steps step (op # ops) s = do {
     (r, s) \<leftarrow> step op s;
     (rs, s) \<leftarrow> run_steps step ops s;
     Some (r # rs, s)
   }"

text \<open>A result of the implementation agrees with the one of the specification.\<close>

definition hit_or_miss :: "'v option \<Rightarrow> 'v option \<Rightarrow> bool" where
  "hit_or_miss r e \<longleftrightarrow> r = None \<or> r = e"

lemma op_spec_mono: "m \<subseteq>\<^sub>m m' \<Longrightarrow> op_spec op m \<subseteq>\<^sub>m op_spec op m'"
  by (cases op) (auto simp: map_le_def dom_def split: if_splits)

lemma map_le_hit: "m \<subseteq>\<^sub>m m' \<Longrightarrow> hit_or_miss (m k) (m' k)"
  by (cases "m k") (auto simp: hit_or_miss_def map_le_def dom_def)

section \<open>The contract\<close>

locale evicting_map =
  fixes inv :: "'s \<Rightarrow> bool"
    and view :: "'s \<Rightarrow> 'k \<Rightarrow> 'v option"
    and step :: "'o \<Rightarrow> 's \<Rightarrow> ('v option \<times> 's) option"
    and den :: "'o \<Rightarrow> ('k, 'v) map_op"
    and ok :: "'s \<Rightarrow> 'o \<Rightarrow> bool"
  assumes step_ok: "\<lbrakk>inv s; ok s op\<rbrakk> \<Longrightarrow> \<exists>r s'. step op s = Some (r, s') \<and> inv s' \<and>
      view s' \<subseteq>\<^sub>m op_spec (den op) (view s) \<and> r = op_result (den op) (view s)"
    and ok_stable: "\<lbrakk>inv s; ok s op; step op s = Some (r, s'); ok s op'\<rbrakk> \<Longrightarrow> ok s' op'"
begin

lemma step_refines:
  assumes "inv s" "ok s op" "view s \<subseteq>\<^sub>m m"
  obtains r s' where "step op s = Some (r, s')" "inv s'" "view s' \<subseteq>\<^sub>m op_spec (den op) m"
    "hit_or_miss r (op_result (den op) m)"
proof -
  from step_ok [OF assms(1,2)] obtain r s' where s': "step op s = Some (r, s')" "inv s'"
    "view s' \<subseteq>\<^sub>m op_spec (den op) (view s)" "r = op_result (den op) (view s)" by blast
  have "hit_or_miss r (op_result (den op) m)"
    using s'(4) map_le_hit [OF assms(3)] by (cases "den op") (auto simp: hit_or_miss_def)
  with s' op_spec_mono [OF assms(3)] that show thesis by (blast intro: map_le_trans)
qed

lemma run_sound:
  assumes "inv s" "\<forall>op \<in> set ops. ok s op" "view s \<subseteq>\<^sub>m m"
  shows "\<exists>rs s'. run_steps step ops s = Some (rs, s') \<and> inv s' \<and>
    list_all2 hit_or_miss rs (fst (run_spec (map den ops) m)) \<and>
    view s' \<subseteq>\<^sub>m snd (run_spec (map den ops) m)"
  using assms
proof (induction ops arbitrary: s m)
  case (Cons op ops)
  from Cons.prems have op: "ok s op" "\<forall>op \<in> set ops. ok s op" by auto
  from step_refines [OF Cons.prems(1) op(1) Cons.prems(3)] obtain r s1 where
    s1: "step op s = Some (r, s1)" "inv s1" "view s1 \<subseteq>\<^sub>m op_spec (den op) m"
      "hit_or_miss r (op_result (den op) m)" by blast
  have "\<forall>op \<in> set ops. ok s1 op" using ok_stable [OF Cons.prems(1) op(1) s1(1)] op(2) by blast
  from Cons.IH [OF s1(2) this s1(3)] s1 show ?case by (fastforce simp: case_prod_unfold Let_def)
qed simp

end

end
