(* ===== verification/Big_Cache_Props.thy ===== *)
theory Big_Cache_Props
  imports Big_Cache Evicting_Map
begin

unbundle bit_operations_syntax

text \<open>
  The cache as a whole: the shard of a hash always exists for a nonzero number of shards,
  the methods of \<open>BigCache\<close> refine operations on one map (\<open>bc_map\<close>), and the iterator visits
  every entry once.
\<close>

section \<open>Choice of the shard\<close>

lemma and_pred_double:
  "2 * m AND (1 + 2 * k) = 2 * (m AND k)" "(2 * m + 1) AND (2 * k) = 2 * (m AND k)" for m k :: nat
  by (subst and_nat_rec; simp)+

lemma and_pred_nat:
  "0 < (n :: nat) \<Longrightarrow> n AND (n - 1) = 0 \<longleftrightarrow> (\<exists>k. n = 2 ^ k)"
proof (induction n rule: less_induct)
  case (less n)
  show ?case
  proof (cases "even n")
    case True
    then obtain m where m: "n = 2 * m" by (auto elim: evenE)
    with less.prems have pos: "0 < m" "m < n" by auto
    have e: "2 * m - 1 = 1 + 2 * (m - 1)" using pos by simp
    have "n AND (n - 1) = 2 * (m AND (m - 1))" unfolding m e by (rule and_pred_double(1))
    also have "\<dots> = 0 \<longleftrightarrow> m AND (m - 1) = 0" by simp
    also have "\<dots> \<longleftrightarrow> (\<exists>k. m = 2 ^ k)" by (rule less.IH [OF pos(2,1)])
    also have "\<dots> \<longleftrightarrow> (\<exists>k. n = 2 ^ k)"
    proof
      assume "\<exists>k. m = 2 ^ k"
      then obtain k where "m = 2 ^ k" by blast
      with m have "n = 2 ^ Suc k" by simp
      then show "\<exists>k. n = 2 ^ k" by blast
    next
      assume "\<exists>k. n = 2 ^ k"
      then obtain k where k: "n = 2 ^ k" by blast
      with m pos have "k \<noteq> 0" by (cases k) auto
      then show "\<exists>k. m = 2 ^ k" using k m by (cases k) auto
    qed
    finally show ?thesis .
  next
    case False
    then obtain m where m: "n = 2 * m + 1" by (auto elim: oddE)
    have "n - 1 = 2 * m" using m by simp
    then have "n AND (n - 1) = 2 * m" using m and_pred_double(2) [of m m] by (simp only: and.idem)
    moreover have "(\<exists>k. n = 2 ^ k) \<longleftrightarrow> m = 0"
    proof
      assume "\<exists>k. n = 2 ^ k"
      then obtain k where "n = 2 ^ k" by blast
      with m have "k = 0" by (cases k) (auto, presburger)
      with m \<open>n = 2 ^ k\<close> show "m = 0" by simp
    next
      assume "m = 0"
      with m have "n = 2 ^ 0" by simp
      then show "\<exists>k. n = 2 ^ k" by blast
    qed
    ultimately show ?thesis by simp
  qed
qed

lemma isPowerOfTwo_iff:
  assumes "0 < n" "n < 2 ^ 63"
  shows "isPowerOfTwo n \<longleftrightarrow> (\<exists>k. n = 2 ^ k)"
proof -
  let ?w = "word_of_int n :: u64"
  have u: "unat ?w = nat n" using assms by (simp add: unat_eq_nat_uint uint_word_of_int_eq take_bit_int_eq_self)
  then have w0: "?w \<noteq> 0" using assms by auto
  then have "unat (?w - 1) = nat n - 1" by (metis u unat_minus_one)
  then have "unat (?w AND (?w - 1)) = nat n AND (nat n - 1)" by (simp add: unsigned_and_eq u)
  then have "isPowerOfTwo n \<longleftrightarrow> nat n AND (nat n - 1) = 0"
    by (metis isPowerOfTwo_def unat_eq_zero)
  also have "\<dots> \<longleftrightarrow> (\<exists>k. nat n = 2 ^ k)" using assms by (intro and_pred_nat) simp
  also have "\<dots> \<longleftrightarrow> (\<exists>k. n = 2 ^ k)" using assms
    by (metis nat_int of_nat_numeral of_nat_power nat_0_le less_imp_le)
  finally show ?thesis .
qed

text \<open>The shape of the cache: \<open>2^k\<close> shards and the mask of \<open>k\<close> bits.\<close>

definition cache_shape :: "big_cache \<Rightarrow> bool" where
  "cache_shape c \<longleftrightarrow> (\<exists>k < 64. length (bc_shards c) = 2 ^ k \<and> bc_shardMask c = mask k \<and>
     cfg_Shards (bc_config c) = 2 ^ k)"

definition cache_inv :: "big_cache \<Rightarrow> bool" where
  "cache_inv c \<longleftrightarrow> cache_shape c \<and> (\<forall>s \<in> set (bc_shards c). \<exists>ps. shard_inv s ps)"

definition shard_index :: "big_cache \<Rightarrow> u64 \<Rightarrow> nat" where
  "shard_index c h = unat (h AND bc_shardMask c)"

definition shard_of :: "big_cache \<Rightarrow> u64 \<Rightarrow> cache_shard" where
  "shard_of c h = bc_shards c ! shard_index c h"

definition put_shard :: "big_cache \<Rightarrow> u64 \<Rightarrow> cache_shard \<Rightarrow> big_cache" where
  "put_shard c h s = c\<lparr>bc_shards := (bc_shards c)[shard_index c h := s]\<rparr>"

text \<open>The abstract view: the key and value stored under a hash.\<close>

definition bc_map :: "big_cache \<Rightarrow> u64 \<Rightarrow> (bytes \<times> bytes) option" where
  "bc_map c h = shard_map (shard_of c h) h"

lemma shard_index_less: "cache_shape c \<Longrightarrow> shard_index c h < length (bc_shards c)"
proof -
  assume "cache_shape c"
  then obtain k where k: "length (bc_shards c) = 2 ^ k" "bc_shardMask c = mask k"
    by (auto simp: cache_shape_def)
  have "h AND mask k = take_bit k h" by (simp add: take_bit_eq_mask)
  then have "shard_index c h = take_bit k (unat h)"
    using k(2) by (simp add: shard_index_def unsigned_take_bit_eq)
  then show ?thesis using k(1) by simp
qed

lemma shard_of_in: "cache_shape c \<Longrightarrow> shard_of c h \<in> set (bc_shards c)"
  using shard_index_less by (simp add: shard_of_def)

lemma on_shard_eq:
  assumes "cache_shape c" "f (shard_of c h) = Some (r, s')"
  shows "on_shard c h f = Some (r, put_shard c h s')"
  using assms(2) shard_index_less [OF assms(1), of h]
  by (simp add: on_shard_def getShard_def shard_index_def [symmetric] shard_of_def put_shard_def)

lemma put_shard_simps [simp]:
  "bc_hash (put_shard c h s) = bc_hash c" "bc_config (put_shard c h s) = bc_config c"
  "cache_shape (put_shard c h s) = cache_shape c" "shard_index (put_shard c h s) = shard_index c"
  by (simp_all add: put_shard_def cache_shape_def shard_index_def fun_eq_iff)

lemma put_shard_set: "set (bc_shards (put_shard c h s)) \<subseteq> insert s (set (bc_shards c))"
  by (simp add: put_shard_def set_update_subset_insert)

lemma shard_of_put:
  "cache_shape c \<Longrightarrow>
   shard_of (put_shard c h s) h' = (if shard_index c h' = shard_index c h then s else shard_of c h')"
  using shard_index_less [of c h] by (simp add: shard_of_def) (simp add: put_shard_def)

lemma bc_map_put:
  "cache_shape c \<Longrightarrow>
   bc_map (put_shard c h s) h' = (if shard_index c h' = shard_index c h then shard_map s h' else bc_map c h')"
  by (simp add: bc_map_def shard_of_put)

lemma put_map_le:
  assumes "cache_shape c" "shard_map s \<subseteq>\<^sub>m (shard_map (shard_of c h))(h := x)"
  shows "bc_map (put_shard c h s) \<subseteq>\<^sub>m (bc_map c)(h := x)"
  unfolding map_le_def
proof
  fix h' assume a: "h' \<in> dom (bc_map (put_shard c h s))"
  show "bc_map (put_shard c h s) h' = ((bc_map c)(h := x)) h'"
  proof (cases "shard_index c h' = shard_index c h")
    case True
    with a assms(1) have "h' \<in> dom (shard_map s)" by (auto simp: bc_map_put)
    with assms(2) have "shard_map s h' = ((shard_map (shard_of c h))(h := x)) h'"
      by (simp add: map_le_def)
    with True bc_map_put [OF assms(1), of h s h'] show ?thesis
      by (simp add: bc_map_def [of c] shard_of_def [of c])
  next
    case False
    with assms(1) show ?thesis by (auto simp: bc_map_put)
  qed
qed

lemma each_shard_ok:
  assumes "\<And>s. s \<in> set ss \<Longrightarrow> \<exists>s'. f s = Some s' \<and> R s s'"
  shows "\<exists>ss'. each_shard f ss = Some ss' \<and> list_all2 R ss ss'"
  using assms
proof (induction ss)
  case (Cons s ss)
  from Cons.prems [of s] obtain s' where "f s = Some s'" "R s s'" by auto
  moreover from Cons obtain ss' where "each_shard f ss = Some ss'" "list_all2 R ss ss'" by auto
  ultimately show ?case by auto
qed simp

section \<open>A new cache\<close>

lemma select_total: "cb_total (selectOnRemove config hash)"
proof -
  have "\<exists>ev. selectOnRemove config hash st w r = Some ev" if "wf_entry w" for st w r
    using that
    by (auto elim!: wf_entryE simp: selectOnRemove_def providedOnRemove_def providedOnRemoveWithReason_def
        providedOnRemoveWithMetadata_def notProvidedOnRemove_def)
  then show ?thesis by (simp add: cb_total_def)
qed

lemma initShards_eq: "initNewShard config cb = Some s \<Longrightarrow> initShards n config cb = Some (replicate n s)"
  by (induction n) simp_all

lemma maximumShardSize_total:
  assumes "0 < cfg_Shards c" shows "\<exists>m. maximumShardSizeInBytes c = Some m"
  using assms by (simp add: maximumShardSizeInBytes_def go_div_def)

lemma newBigCache_ok:
  assumes "0 < cfg_Shards config" "cfg_Shards config < 2 ^ 63" "0 \<le> cfg_MaxEntrySize config"
    "isPowerOfTwo (cfg_Shards config)"
  shows "\<exists>c s. newBigCache config hasher = Some (Inr c) \<and>
    initNewShard config (selectOnRemove config (bc_hash c)) = Some s \<and>
    bc_shards c = replicate (nat (cfg_Shards config)) s \<and> shard_inv s [] \<and> shard_map s = Map.empty \<and>
    cache_shape c \<and> bc_config c = config \<and>
    bc_hash c = (case hasher of None \<Rightarrow> Sum64 | Some f \<Rightarrow> f)"
proof -
  define hash where "hash = (case hasher of None \<Rightarrow> Sum64 | Some f \<Rightarrow> f)"
  from assms isPowerOfTwo_iff obtain k where k: "cfg_Shards config = 2 ^ k" by blast
  have "(2 :: int) ^ k < 2 ^ 63" using assms(2) k by simp
  then have k64: "k < 64" by (simp only: power_strict_increasing_iff)
  from initNewShard_inv [OF assms(1,3) select_total] obtain s where
    s: "initNewShard config (selectOnRemove config hash) = Some s" "shard_inv s []" "shard_map s = Map.empty"
    by blast
  from maximumShardSize_total [OF assms(1)] obtain m where m: "maximumShardSizeInBytes config = Some m" ..
  have mask: "(word_of_int (2 ^ k - 1) :: u64) = mask k" by (simp add: mask_eq_exp_minus_1)
  show ?thesis
    using assms(1,4) s m k k64 mask initShards_eq [OF s(1), of "nat (cfg_Shards config)"]
    by (auto simp: newBigCache_def hash_def [symmetric] go_make_def cache_shape_def nat_power_eq)
qed

section \<open>The cache as a map of keys\<close>

definition cache_view :: "big_cache \<Rightarrow> bytes \<Rightarrow> bytes option" where
  "cache_view c key = (case bc_map c (bc_hash c key) of
     Some (key', v) \<Rightarrow> if key = key' then Some v else None
   | None \<Rightarrow> None)"

lemma view_put:
  assumes "bc_map c' \<subseteq>\<^sub>m (bc_map c)(bc_hash c key := x)" "bc_hash c' = bc_hash c"
    "x = None \<or> x = Some (key, v)"
  shows "cache_view c' \<subseteq>\<^sub>m (cache_view c)(key := map_option snd x)"
  unfolding map_le_def
proof
  fix key' assume "key' \<in> dom (cache_view c')"
  then obtain v' where v': "bc_map c' (bc_hash c key') = Some (key', v')" "cache_view c' key' = Some v'"
    using assms(2) by (auto simp: cache_view_def split: option.splits if_splits)
  then have "((bc_map c)(bc_hash c key := x)) (bc_hash c key') = Some (key', v')"
    using assms(1) by (force simp: map_le_def dom_def)
  with v' assms(3) show "cache_view c' key' = ((cache_view c)(key := map_option snd x)) key'"
    by (auto simp: cache_view_def split: if_splits)
qed

lemma view_mono:
  assumes "bc_map c' \<subseteq>\<^sub>m bc_map c" "bc_hash c' = bc_hash c"
  shows "cache_view c' \<subseteq>\<^sub>m cache_view c"
  unfolding map_le_def
proof
  fix key assume "key \<in> dom (cache_view c')"
  then obtain v where v: "bc_map c' (bc_hash c key) = Some (key, v)" "cache_view c' key = Some v"
    using assms(2) by (auto simp: cache_view_def split: option.splits if_splits)
  then have "bc_map c (bc_hash c key) = Some (key, v)" using assms(1) by (force simp: map_le_def dom_def)
  with v show "cache_view c' key = cache_view c key" by (simp add: cache_view_def)
qed

section \<open>A cache of fixed size meets the contract of a cache\<close>

definition fixed_cache :: "big_cache \<Rightarrow> bool" where
  "fixed_cache c \<longleftrightarrow> cache_shape c \<and> (\<forall>s \<in> set (bc_shards c). fixed_inv s) \<and>
     0 \<le> cfg_MaxEntrySize (bc_config c)"

datatype cache_op =
    OpSet bytes bytes u64
  | OpGet bytes
  | OpDelete bytes
  | OpCleanUp u64
  | OpReset

fun cache_step :: "cache_op \<Rightarrow> big_cache \<Rightarrow> (bytes option \<times> big_cache) option" where
  "cache_step (OpSet key v now) c = map_option (\<lambda>(r, c). (None, c)) (bc_Set c key v now)"
| "cache_step (OpGet key) c = map_option (\<lambda>(r, c). (case r of Inl _ \<Rightarrow> None | Inr v \<Rightarrow> Some v, c)) (bc_Get c key)"
| "cache_step (OpDelete key) c = map_option (\<lambda>(r, c). (None, c)) (bc_Delete c key)"
| "cache_step (OpCleanUp now) c = map_option (\<lambda>c. (None, c)) (bc_cleanUp c now)"
| "cache_step OpReset c = map_option (\<lambda>c. (None, c)) (bc_Reset c)"

fun op_den :: "cache_op \<Rightarrow> (bytes, bytes) map_op" where
  "op_den (OpSet key v now) = MPut key v"
| "op_den (OpGet key) = MGet key"
| "op_den (OpDelete key) = MDel key"
| "op_den (OpCleanUp now) = MTick"
| "op_den OpReset = MClear"

text \<open>An entry fits if every shard is larger than its encoding.\<close>

fun op_ok :: "big_cache \<Rightarrow> cache_op \<Rightarrow> bool" where
  "op_ok c (OpSet key v now) \<longleftrightarrow> bc_hash c key \<noteq> 0 \<and> length key < 65518 \<and>
     (\<forall>s \<in> set (bc_shards c). int (length (enc (entry_bytes now (bc_hash c key) key v))) < bq_capacity (sh_entries s))"
| "op_ok c _ \<longleftrightarrow> True"

text \<open>What every operation keeps.\<close>

definition same_frame :: "big_cache \<Rightarrow> big_cache \<Rightarrow> bool" where
  "same_frame c c' \<longleftrightarrow> bc_hash c' = bc_hash c \<and>
     list_all2 (\<lambda>s s'. same_size (sh_entries s) (sh_entries s')) (bc_shards c) (bc_shards c')"

lemma same_frame_ok: "same_frame c c' \<Longrightarrow> op_ok c op \<Longrightarrow> op_ok c' op"
  by (cases op) (fastforce simp: same_frame_def list_all2_conv_all_nth in_set_conv_nth same_size_def)+

lemma put_frame:
  assumes "cache_shape c" "same_size (sh_entries (shard_of c h)) (sh_entries s)"
  shows "same_frame c (put_shard c h s)"
proof -
  have "same_size (sh_entries (bc_shards c ! i)) (sh_entries ((bc_shards c)[shard_index c h := s] ! i))" for i
    using assms shard_index_less [OF assms(1), of h]
    by (cases "i = shard_index c h") (simp_all add: shard_of_def same_size_refl)
  then show ?thesis by (simp add: same_frame_def put_shard_def list_all2_conv_all_nth)
qed

lemma put_fixed: "fixed_cache c \<Longrightarrow> fixed_inv s \<Longrightarrow> fixed_cache (put_shard c h s)"
  using put_shard_set [of c h s] by (auto simp: fixed_cache_def)

lemma shards_frame:
  assumes "fixed_cache c"
    "list_all2 (\<lambda>s s'. fixed_inv s' \<and> same_size (sh_entries s) (sh_entries s') \<and> shard_map s' \<subseteq>\<^sub>m shard_map s)
      (bc_shards c) ss"
  shows "fixed_cache (c\<lparr>bc_shards := ss\<rparr>)" "same_frame c (c\<lparr>bc_shards := ss\<rparr>)"
    "bc_map (c\<lparr>bc_shards := ss\<rparr>) \<subseteq>\<^sub>m bc_map c"
proof -
  note all = assms(2) [unfolded list_all2_conv_all_nth]
  show "fixed_cache (c\<lparr>bc_shards := ss\<rparr>)"
    using assms(1) all by (auto simp: fixed_cache_def cache_shape_def in_set_conv_nth)
  show "same_frame c (c\<lparr>bc_shards := ss\<rparr>)"
    using all by (simp add: same_frame_def list_all2_conv_all_nth)
  have i: "shard_index (c\<lparr>bc_shards := ss\<rparr>) h = shard_index c h" for h by (simp add: shard_index_def)
  have le: "shard_map (ss ! shard_index c h) \<subseteq>\<^sub>m shard_map (bc_shards c ! shard_index c h)" for h
    using all shard_index_less [of c h] assms(1) by (simp add: fixed_cache_def)
  show "bc_map (c\<lparr>bc_shards := ss\<rparr>) \<subseteq>\<^sub>m bc_map c"
    unfolding map_le_def
  proof
    fix h assume "h \<in> dom (bc_map (c\<lparr>bc_shards := ss\<rparr>))"
    then have "h \<in> dom (shard_map (ss ! shard_index c h))" by (simp add: bc_map_def shard_of_def i dom_def)
    with le [of h] have "shard_map (ss ! shard_index c h) h = shard_map (bc_shards c ! shard_index c h) h"
      by (simp add: map_le_def)
    then show "bc_map (c\<lparr>bc_shards := ss\<rparr>) h = bc_map c h" by (simp add: bc_map_def shard_of_def i)
  qed
qed

lemma step_Set:
  assumes inv: "fixed_cache c" and ok: "op_ok c (OpSet key v now)"
  shows "\<exists>c'. bc_Set c key v now = Some (None, c') \<and> fixed_cache c' \<and> same_frame c c' \<and>
    cache_view c' \<subseteq>\<^sub>m (cache_view c)(key \<mapsto> v)"
proof -
  have sh: "cache_shape c" using inv by (simp add: fixed_cache_def)
  let ?h = "bc_hash c key"
  have s: "fixed_inv (shard_of c ?h)" using inv shard_of_in [OF sh] by (simp add: fixed_cache_def)
  from ok shard_of_in [OF sh, of ?h] fixed_set [OF s, of ?h key now v] obtain s' where
    s': "sh_set (shard_of c ?h) key ?h v now = Some (None, s')" "fixed_inv s'"
      "same_size (sh_entries (shard_of c ?h)) (sh_entries s')"
      "shard_map s' \<subseteq>\<^sub>m (shard_map (shard_of c ?h))(?h \<mapsto> (key, v))" by auto
  have "bc_Set c key v now = Some (None, put_shard c ?h s')"
    using on_shard_eq [OF sh, of "\<lambda>s. sh_set s key ?h v now"] s'(1) by (simp add: bc_Set_def Let_def)
  moreover have "cache_view (put_shard c ?h s') \<subseteq>\<^sub>m (cache_view c)(key \<mapsto> v)"
    using view_put [OF put_map_le [OF sh s'(4)], of v] by simp
  ultimately show ?thesis using put_fixed [OF inv s'(2)] put_frame [OF sh s'(3)] by blast
qed

lemma step_Get:
  assumes inv: "fixed_cache c"
  shows "\<exists>c'. bc_Get c key = Some (case cache_view c key of None \<Rightarrow> Inl ErrEntryNotFound | Some v \<Rightarrow> Inr v, c') \<and>
    fixed_cache c' \<and> same_frame c c' \<and> cache_view c' = cache_view c"
proof -
  have sh: "cache_shape c" using inv by (simp add: fixed_cache_def)
  let ?h = "bc_hash c key"
  have s: "fixed_inv (shard_of c ?h)" using inv shard_of_in [OF sh] by (simp add: fixed_cache_def)
  from fixed_get [OF s, of key ?h] obtain s' where
    s': "sh_get (shard_of c ?h) key ?h = Some (get_result (bc_map c ?h) key, s')" "fixed_inv s'"
      "same_size (sh_entries (shard_of c ?h)) (sh_entries s')" "shard_map s' = shard_map (shard_of c ?h)"
    by (auto simp: bc_map_def)
  have "bc_Get c key = Some (get_result (bc_map c ?h) key, put_shard c ?h s')"
    using on_shard_eq [OF sh, of "\<lambda>s. sh_get s key ?h"] s'(1) by (simp add: bc_Get_def Let_def)
  moreover have "get_result (bc_map c ?h) key =
      (case cache_view c key of None \<Rightarrow> Inl ErrEntryNotFound | Some v \<Rightarrow> Inr v)"
    by (auto simp: get_result_def cache_view_def split: option.splits)
  moreover have "bc_map (put_shard c ?h s') = bc_map c"
  proof
    fix h' show "bc_map (put_shard c ?h s') h' = bc_map c h'"
      unfolding bc_map_put [OF sh] using s'(4) by (simp add: bc_map_def shard_of_def)
  qed
  ultimately show ?thesis using put_fixed [OF inv s'(2)] put_frame [OF sh s'(3)]
    by (auto simp: cache_view_def)
qed

lemma step_Delete:
  assumes inv: "fixed_cache c"
  shows "\<exists>r c'. bc_Delete c key = Some (r, c') \<and> fixed_cache c' \<and> same_frame c c' \<and>
    cache_view c' \<subseteq>\<^sub>m (cache_view c)(key := None)"
proof -
  have sh: "cache_shape c" using inv by (simp add: fixed_cache_def)
  let ?h = "bc_hash c key"
  have s: "fixed_inv (shard_of c ?h)" using inv shard_of_in [OF sh] by (simp add: fixed_cache_def)
  from fixed_del [OF s, of ?h] obtain r s' where
    s': "sh_del (shard_of c ?h) ?h = Some (r, s')" "fixed_inv s'"
      "same_size (sh_entries (shard_of c ?h)) (sh_entries s')"
      "shard_map s' \<subseteq>\<^sub>m (shard_map (shard_of c ?h))(?h := None)" by auto
  have "bc_Delete c key = Some (r, put_shard c ?h s')"
    using on_shard_eq [OF sh, of "\<lambda>s. sh_del s ?h"] s'(1) by (simp add: bc_Delete_def Let_def)
  moreover have "cache_view (put_shard c ?h s') \<subseteq>\<^sub>m (cache_view c)(key := None)"
    using view_put [OF put_map_le [OF sh s'(4)]] by simp
  ultimately show ?thesis using put_fixed [OF inv s'(2)] put_frame [OF sh s'(3)] by blast
qed

lemma step_shards:
  assumes inv: "fixed_cache c"
    and f: "\<And>s. fixed_inv s \<Longrightarrow> \<exists>s'. f s = Some s' \<and> fixed_inv s' \<and> same_size (sh_entries s) (sh_entries s') \<and>
      shard_map s' \<subseteq>\<^sub>m shard_map s"
  shows "\<exists>ss. each_shard f (bc_shards c) = Some ss \<and> fixed_cache (c\<lparr>bc_shards := ss\<rparr>) \<and>
    same_frame c (c\<lparr>bc_shards := ss\<rparr>) \<and> cache_view (c\<lparr>bc_shards := ss\<rparr>) \<subseteq>\<^sub>m cache_view c"
proof -
  let ?R = "\<lambda>s s'. fixed_inv s' \<and> same_size (sh_entries s) (sh_entries s') \<and> shard_map s' \<subseteq>\<^sub>m shard_map s"
  have "\<exists>s'. f s = Some s' \<and> ?R s s'" if "s \<in> set (bc_shards c)" for s
    using inv that by (intro f) (auto simp: fixed_cache_def)
  from each_shard_ok [where ss = "bc_shards c" and R = ?R, OF this] obtain ss where
    "each_shard f (bc_shards c) = Some ss" "list_all2 ?R (bc_shards c) ss" by blast
  with shards_frame [OF inv this(2)] view_mono [of "c\<lparr>bc_shards := ss\<rparr>" c] show ?thesis by simp
qed

lemma step_cleanUp:
  assumes inv: "fixed_cache c"
  shows "\<exists>c'. bc_cleanUp c now = Some c' \<and> fixed_cache c' \<and> same_frame c c' \<and> cache_view c' \<subseteq>\<^sub>m cache_view c"
  using step_shards [OF inv, of "\<lambda>s. sh_cleanUp s now"] fixed_cleanUp [of _ now]
  by (fastforce simp: bc_cleanUp_def)

lemma step_Reset:
  assumes inv: "fixed_cache c"
  shows "\<exists>c'. bc_Reset c = Some c' \<and> fixed_cache c' \<and> same_frame c c' \<and> cache_view c' = Map.empty"
proof -
  have cfg: "cfg_Shards (bc_config c) \<noteq> 0" "0 \<le> cfg_MaxEntrySize (bc_config c)"
    using inv by (auto simp: fixed_cache_def cache_shape_def)
  let ?R = "\<lambda>s s'. fixed_inv s' \<and> same_size (sh_entries s) (sh_entries s') \<and> shard_map s' = Map.empty"
  have "\<exists>s'. sh_reset s (bc_config c) = Some s' \<and> ?R s s'" if "s \<in> set (bc_shards c)" for s
    using inv that by (intro fixed_reset cfg) (auto simp: fixed_cache_def)
  from each_shard_ok [where ss = "bc_shards c" and R = ?R, OF this] obtain ss where
    ss: "each_shard (\<lambda>s. sh_reset s (bc_config c)) (bc_shards c) = Some ss" "list_all2 ?R (bc_shards c) ss"
    by blast
  then have "shard_of (c\<lparr>bc_shards := ss\<rparr>) h \<in> set ss" for h
    using shard_index_less [of c h] inv list_all2_lengthD [OF ss(2)]
    by (simp add: shard_of_def shard_index_def fixed_cache_def)
  moreover have "shard_map s' = Map.empty" if "s' \<in> set ss" for s'
    using ss(2) that by (auto simp: list_all2_conv_all_nth in_set_conv_nth)
  ultimately have "bc_map (c\<lparr>bc_shards := ss\<rparr>) h = None" for h by (simp add: bc_map_def)
  then have "cache_view (c\<lparr>bc_shards := ss\<rparr>) = Map.empty" by (simp add: cache_view_def fun_eq_iff)
  moreover have "list_all2 (\<lambda>s s'. fixed_inv s' \<and> same_size (sh_entries s) (sh_entries s') \<and>
      shard_map s' \<subseteq>\<^sub>m shard_map s) (bc_shards c) ss"
    using ss(2) by (rule list_all2_mono) auto
  ultimately show ?thesis using shards_frame [OF inv] ss(1) by (auto simp: bc_Reset_def)
qed

lemma cache_step_ok:
  assumes "fixed_cache c" "op_ok c op"
  shows "\<exists>r c'. cache_step op c = Some (r, c') \<and> fixed_cache c' \<and> same_frame c c' \<and>
    cache_view c' \<subseteq>\<^sub>m op_spec (op_den op) (cache_view c) \<and> r = op_result (op_den op) (cache_view c)"
proof (cases op)
  case (OpSet key v now)
  with step_Set [OF assms(1)] assms(2) show ?thesis by fastforce
next
  case (OpGet key)
  with step_Get [OF assms(1), of key] show ?thesis by (cases "cache_view c key") auto
next
  case (OpDelete key)
  with step_Delete [OF assms(1), of key] show ?thesis by fastforce
next
  case (OpCleanUp now)
  with step_cleanUp [OF assms(1), of now] show ?thesis by fastforce
next
  case OpReset
  with step_Reset [OF assms(1)] show ?thesis by auto
qed

interpretation fixed_bigcache: evicting_map fixed_cache cache_view cache_step op_den op_ok
proof
  fix c op assume "fixed_cache c" "op_ok c op"
  from cache_step_ok [OF this] show "\<exists>r c'. cache_step op c = Some (r, c') \<and> fixed_cache c' \<and>
    cache_view c' \<subseteq>\<^sub>m op_spec (op_den op) (cache_view c) \<and> r = op_result (op_den op) (cache_view c)" by blast
next
  fix c op r c' op' assume a: "fixed_cache c" "op_ok c op" "cache_step op c = Some (r, c')" "op_ok c op'"
  from cache_step_ok [OF a(1,2)] a(3) have "same_frame c c'" by auto
  from same_frame_ok [OF this a(4)] show "op_ok c' op'" .
qed

section \<open>Properties of the cache\<close>

lemma initNewShard_full:
  assumes "initNewShard config cb = Some s" "maximumShardSizeInBytes config = Some m"
    "initialShardSize config = Some n" "0 < m" "m < 2 ^ 32" "m \<le> n * cfg_MaxEntrySize config"
  shows "full_size (sh_entries s)"
  using assms
  by (auto simp: initNewShard_def NewBytesQueue_def full_size_def Let_def split: bind_splits if_splits)

lemma newBigCache_fixed:
  assumes "0 < cfg_Shards config" "cfg_Shards config < 2 ^ 63" "isPowerOfTwo (cfg_Shards config)"
    "0 \<le> cfg_MaxEntrySize config" "maximumShardSizeInBytes config = Some m"
    "initialShardSize config = Some n" "0 < m" "m < 2 ^ 32" "m \<le> n * cfg_MaxEntrySize config"
  shows "\<exists>c. newBigCache config hasher = Some (Inr c) \<and> fixed_cache c \<and> cache_view c = Map.empty \<and>
    bc_hash c = (case hasher of None \<Rightarrow> Sum64 | Some f \<Rightarrow> f) \<and>
    (\<forall>s \<in> set (bc_shards c). bq_capacity (sh_entries s) \<ge> m)"
proof -
  from newBigCache_ok [OF assms(1,2,4,3), of hasher] obtain c s where
    c: "newBigCache config hasher = Some (Inr c)" "initNewShard config (selectOnRemove config (bc_hash c)) = Some s"
      "bc_shards c = replicate (nat (cfg_Shards config)) s" "shard_inv s []" "shard_map s = Map.empty"
      "cache_shape c" "bc_config c = config" "bc_hash c = (case hasher of None \<Rightarrow> Sum64 | Some f \<Rightarrow> f)" by blast
  note full = initNewShard_full [OF c(2) assms(5-9)]
  have "bq_maxCapacity (sh_entries s) = m"
    using c(2) assms(5) by (auto simp: initNewShard_def NewBytesQueue_def Let_def split: bind_splits)
  with full have cap: "bq_capacity (sh_entries s) \<ge> m" by (simp add: full_size_def)
  have "bc_map c h = None" for h
    using shard_index_less [OF c(6), of h] c(3,5) by (simp add: bc_map_def shard_of_def)
  with c full cap assms(4) show ?thesis
    by (auto simp: fixed_cache_def fixed_inv_def cache_view_def fun_eq_iff)
qed

text \<open>
  C3. A cache of fixed size (\<open>HardMaxCacheSize\<close> set, initial shard size at least the maximal
  one) meets the contract of a cache for every sequence of \<open>Set\<close>, \<open>Get\<close>, \<open>Delete\<close>, \<open>Reset\<close> and
  cleaning ticks whose \<open>Set\<close>s meet \<open>op_ok\<close>: the key does not hash to zero and is shorter than
  65518 bytes, and the encoded entry fits into an empty shard. Then nothing panics, and every
  \<open>Get\<close> of the run returns nothing or the value last set under this very key and not deleted
  since. Each condition is needed: \<open>long_key_panics\<close> and \<open>shard_set_too_big_dangles\<close> show
  what a longer key and an entry that does not fit do, and the code takes the hash zero for
  a deleted entry.
\<close>

theorem bigcache_run_sound:
  assumes "0 < cfg_Shards config" "cfg_Shards config < 2 ^ 63" "isPowerOfTwo (cfg_Shards config)"
    "0 \<le> cfg_MaxEntrySize config" "maximumShardSizeInBytes config = Some m"
    "initialShardSize config = Some n" "0 < m" "m < 2 ^ 32" "m \<le> n * cfg_MaxEntrySize config"
  shows "\<exists>c. newBigCache config hasher = Some (Inr c) \<and>
    (\<forall>ops. (\<forall>op \<in> set ops. op_ok c op) \<longrightarrow> (\<exists>rs c'. run_steps cache_step ops c = Some (rs, c') \<and>
       list_all2 hit_or_miss rs (fst (run_spec (map op_den ops) Map.empty)) \<and>
       cache_view c' \<subseteq>\<^sub>m snd (run_spec (map op_den ops) Map.empty)))"
proof -
  from newBigCache_fixed [OF assms, of hasher] obtain c where
    c: "newBigCache config hasher = Some (Inr c)" "fixed_cache c" "cache_view c = Map.empty" by blast
  have "cache_view c \<subseteq>\<^sub>m Map.empty" using c(3) by simp
  from fixed_bigcache.run_sound [OF c(2) _ this] c(1) show ?thesis by blast
qed

definition fixed_config :: cache_config where
  "fixed_config = demo_config\<lparr>cfg_Shards := 2, cfg_HardMaxCacheSize := 1, cfg_MaxEntrySize := 524288\<rparr>"

theorem bigcache_run_sound_witness:
  "\<exists>c rs c'. newBigCache fixed_config None = Some (Inr c) \<and>
     run_steps cache_step [OpSet [65] [1] 100, OpGet [65]] c = Some (rs, c') \<and>
     list_all2 hit_or_miss rs [None, Some [1]]"
proof -
  let ?ops = "[OpSet [65] [1] 100, OpGet [65]]"
  have cfg: "0 < cfg_Shards fixed_config" "cfg_Shards fixed_config < 2 ^ 63"
    "isPowerOfTwo (cfg_Shards fixed_config)" "0 \<le> cfg_MaxEntrySize fixed_config"
    "maximumShardSizeInBytes fixed_config = Some 524288" "initialShardSize fixed_config = Some 10"
    "0 < (524288 :: int)" "(524288 :: int) < 2 ^ 32" "524288 \<le> 10 * cfg_MaxEntrySize fixed_config"
    by (code_simp)+
  from newBigCache_fixed [OF cfg, of None] obtain c0 where
    c0: "newBigCache fixed_config None = Some (Inr c0)" "bc_hash c0 = Sum64"
      "\<forall>s \<in> set (bc_shards c0). bq_capacity (sh_entries s) \<ge> 524288" by auto
  have "Sum64 [65] \<noteq> 0" "int (length (enc (entry_bytes 100 (Sum64 [65]) [65] [1]))) < 524288"
    by code_simp+
  with c0 have "\<forall>op \<in> set ?ops. op_ok c0 op" by force
  moreover obtain c where c: "newBigCache fixed_config None = Some (Inr c)"
    "\<forall>ops. (\<forall>op \<in> set ops. op_ok c op) \<longrightarrow> (\<exists>rs c'. run_steps cache_step ops c = Some (rs, c') \<and>
       list_all2 hit_or_miss rs (fst (run_spec (map op_den ops) Map.empty)) \<and>
       cache_view c' \<subseteq>\<^sub>m snd (run_spec (map op_den ops) Map.empty))"
    using bigcache_run_sound [OF cfg, of None] by (elim exE conjE) (rule that)
  moreover have "c = c0" using c(1) c0(1) by simp
  ultimately have "\<exists>rs c'. run_steps cache_step ?ops c0 = Some (rs, c') \<and>
       list_all2 hit_or_miss rs (fst (run_spec (map op_den ?ops) Map.empty))" by (simp only:) blast
  then obtain rs c' where r: "run_steps cache_step ?ops c0 = Some (rs, c')"
    "list_all2 hit_or_miss rs (fst (run_spec (map op_den ?ops) Map.empty))" by blast
  from r(2) have "list_all2 hit_or_miss rs [None, Some [1]]" by simp
  with c0(1) r(1) show ?thesis by blast
qed

text \<open>
  For a positive power of two, the constructor succeeds and the shard of a hash is given
  by its low bits: the index is the hash modulo the number of shards, so it never leaves
  the array; a positive number that is not a power of two is rejected.
\<close>

theorem getShard_low_bits:
  assumes "0 < cfg_Shards config" "cfg_Shards config < 2 ^ 63" "0 \<le> cfg_MaxEntrySize config"
  shows "if \<exists>k. cfg_Shards config = 2 ^ k
    then \<exists>c. newBigCache config hasher = Some (Inr c) \<and> length (bc_shards c) = nat (cfg_Shards config) \<and>
      (\<forall>h. getShard c h = Some (unat h mod nat (cfg_Shards config)))
    else newBigCache config hasher = Some (Inl ErrShardsNotPowerOfTwo)"
proof (cases "\<exists>k. cfg_Shards config = 2 ^ k")
  case True
  then obtain k where k: "cfg_Shards config = 2 ^ k" by blast
  with assms isPowerOfTwo_iff have "isPowerOfTwo (cfg_Shards config)" by blast
  from newBigCache_ok [OF assms this, of hasher] obtain c s where
    c: "newBigCache config hasher = Some (Inr c)" "bc_shards c = replicate (nat (cfg_Shards config)) s"
      "cache_shape c" "bc_config c = config" by blast
  from c(3,4) k obtain j where j: "j < 64" "bc_shardMask c = mask j" "(2 :: int) ^ j = 2 ^ k"
    by (auto simp: cache_shape_def)
  have "getShard c h = Some (unat h mod nat (cfg_Shards config))" for h
  proof -
    have "unat (h AND mask j) = unat h mod 2 ^ j"
      using unsigned_take_bit_eq [of j h, where 'a = nat]
      by (simp add: take_bit_eq_mask [symmetric]) (simp add: take_bit_eq_mod)
    moreover have n: "nat (cfg_Shards config) = 2 ^ j" using k j(3) by (simp add: nat_power_eq)
    ultimately show ?thesis using j(2) c(2) by (simp only: getShard_def Let_def n length_replicate) simp
  qed
  with c True show ?thesis by auto
next
  case False
  with assms isPowerOfTwo_iff show ?thesis by (simp add: newBigCache_def)
qed

theorem getShard_low_bits_witness:
  "newBigCache (demo_config\<lparr>cfg_Shards := 3\<rparr>) None = Some (Inl ErrShardsNotPowerOfTwo) \<and>
   (\<exists>c. newBigCache (demo_config\<lparr>cfg_Shards := 4\<rparr>) None = Some (Inr c) \<and> getShard c 7 = Some 3)"
proof
  have "\<not> (\<exists>k. (3 :: int) = 2 ^ k)"
  proof
    assume "\<exists>k. (3 :: int) = 2 ^ k"
    then obtain k where "(3 :: int) = 2 ^ k" by blast
    then show False by (cases k) (simp_all, presburger)
  qed
  with getShard_low_bits [of "demo_config\<lparr>cfg_Shards := 3\<rparr>" None]
  show "newBigCache (demo_config\<lparr>cfg_Shards := 3\<rparr>) None = Some (Inl ErrShardsNotPowerOfTwo)"
    by (simp add: demo_config_def)
  have "\<exists>k. (4 :: int) = 2 ^ k" by (rule exI [of _ 2]) simp
  with getShard_low_bits [of "demo_config\<lparr>cfg_Shards := 4\<rparr>" None]
  show "\<exists>c. newBigCache (demo_config\<lparr>cfg_Shards := 4\<rparr>) None = Some (Inr c) \<and> getShard c 7 = Some 3"
    by (force simp: demo_config_def)
qed

text \<open>
  Zero shards pass the power-of-two check: the constructor returns a cache without
  shards, and every method that looks up a shard panics.
\<close>

theorem zero_shards_accepted:
  assumes "cfg_Shards config = 0" "cfg_HardMaxCacheSize config \<le> 0"
  shows "\<exists>c. newBigCache config hasher = Some (Inr c) \<and> bc_shards c = [] \<and>
    (\<forall>key v now. bc_Get c key = None \<and> bc_Set c key v now = None \<and> bc_Delete c key = None)"
  using assms
  by (simp add: newBigCache_def isPowerOfTwo_def maximumShardSizeInBytes_def go_make_def
      bc_Get_def bc_Set_def bc_Delete_def on_shard_def getShard_def Let_def)

theorem zero_shards_accepted_witness:
  "\<exists>c. newBigCache (demo_config\<lparr>cfg_Shards := 0\<rparr>) None = Some (Inr c) \<and> bc_Get c [65] = None"
  using zero_shards_accepted [of "demo_config\<lparr>cfg_Shards := 0\<rparr>" None] by (auto simp: demo_config_def)

end
