(* ===== verification/Cache_Iterator.thy ===== *)
theory Cache_Iterator
  imports Big_Cache_Props
begin

text \<open>
  The iterator of the cache: the loop \<open>for it.SetNext() { it.Value() }\<close> on a cache that is not
  modified meanwhile ends and visits every entry of every shard exactly once, in the order
  of the shards and, within a shard, in the order in which the runtime enumerates the map.
\<close>

text \<open>The client loop.\<close>

partial_function (option) it_all ::
  "(u64 set \<Rightarrow> u64 list) \<Rightarrow> entry_iterator \<Rightarrow> big_cache \<Rightarrow> (entry_info \<times> iterator_error option) list option" where
  "it_all order it c = do {
     (more, it, c) \<leftarrow> SetNext order it c;
     if more then do { rest \<leftarrow> it_all order it c; Some (it_Value it # rest) } else Some []
   }"

text \<open>What the runtime guarantees for \<open>range\<close> over a map: every key once, in some order.\<close>

definition enumerates :: "(u64 set \<Rightarrow> u64 list) \<Rightarrow> bool" where
  "enumerates order \<longleftrightarrow> (\<forall>S. finite S \<longrightarrow> set (order S) = S \<and> distinct (order S))"

definition hashes :: "(u64 set \<Rightarrow> u64 list) \<Rightarrow> cache_shard \<Rightarrow> u64 list" where
  "hashes order s = order (Mapping.keys (sh_hashmap s))"

definition contents ::
  "(u64 set \<Rightarrow> u64 list) \<Rightarrow> cache_shard \<Rightarrow> (u64 \<times> (bytes \<times> bytes) option \<times> iterator_error option) list" where
  "contents order s = map (\<lambda>h. (h, shard_map s h, None)) (hashes order s)"

definition seen :: "entry_info \<times> iterator_error option \<Rightarrow> u64 \<times> (bytes \<times> bytes) option \<times> iterator_error option" where
  "seen = (\<lambda>(e, err). (ei_hash e, Some (ei_key e, ei_value e), err))"

text \<open>The iterator has returned \<open>p\<close> entries of shard \<open>i\<close>.\<close>

definition at_pos :: "(u64 set \<Rightarrow> u64 list) \<Rightarrow> big_cache \<Rightarrow> entry_iterator \<Rightarrow> nat \<Rightarrow> nat \<Rightarrow> bool" where
  "at_pos order c it i p \<longleftrightarrow> i < length (bc_shards c) \<and> it_currentShard it = int i \<and>
     it_currentIndex it = int p - 1 \<and> it_elements it = hashes order (bc_shards c ! i) \<and>
     it_elementsCount it = int (length (hashes order (bc_shards c ! i)))"

definition remaining where
  "remaining order c i p = drop p (contents order (bc_shards c ! i)) @
     concat (map (contents order) (drop (Suc i) (bc_shards c)))"

lemma finite_keys: "finite (Mapping.keys (sh_hashmap s))" if "shard_inv s ps"
proof -
  have "finite (UNIV :: u64 set)" by simp
  then show ?thesis by (rule finite_subset [rotated]) simp
qed

lemma setCurrentEntry_ok:
  assumes inv: "cache_inv c" and o: "enumerates order" and i: "i < length (bc_shards c)"
    and it: "it_currentShard it = int i" "it_elements it = hashes order (bc_shards c ! i)"
      "it_currentIndex it = int p" "p < length (it_elements it)" "it_valid it"
  shows "\<exists>it'. setCurrentEntry it c = Some (False, it', c) \<and> seen (it_Value it') = contents order (bc_shards c ! i) ! p \<and>
    it_currentShard it' = int i \<and> it_elements it' = it_elements it \<and> it_elementsCount it' = it_elementsCount it \<and>
    it_currentIndex it' = int p"
proof -
  let ?s = "bc_shards c ! i"
  let ?h = "hashes order ?s ! p"
  from inv nth_mem [OF i] obtain ps where ps: "shard_inv ?s ps" by (auto simp: cache_inv_def)
  have "?h \<in> Mapping.keys (sh_hashmap ?s)"
    using o it(2,4) finite_keys [OF ps] by (auto simp: enumerates_def hashes_def dest: nth_mem)
  then obtain j where j: "Mapping.lookup (sh_hashmap ?s) ?h = Some j"
    by (auto simp: keys_dom_lookup)
  from shard_map_SomeE [OF ps j] obtain ts key v where e: "length key < 65518"
    "bq_Get (sh_entries ?s) (uint j) = Some (Inr (entry_bytes ts ?h key v))"
    "shard_map ?s ?h = Some (key, v)" by metis
  have "sh_getEntry ?s ?h = Some (Inr (entry_bytes ts ?h key v), ?s)"
    using j e by (simp add: sh_getEntry_def getWrapped_ok [OF ps])
  then have "setCurrentEntry it c = Some (False, it\<lparr>it_currentEntryInfo :=
      \<lparr>ei_timestamp = ts, ei_hash = ?h, ei_key = key, ei_value = v, ei_err = None\<rparr>\<rparr>, c)"
    using it i e(1) by (simp add: setCurrentEntry_def go_nth_int readTimestamp_entry readHash_entry
        readKey_entry readEntry_entry)
  then show ?thesis using it e(3) by (simp add: it_Value_def seen_def contents_def)
qed

lemma findShard_ok:
  assumes "a \<le> length (bc_shards c)"
  shows "(\<exists>it'. findShard order c [int a..int (length (bc_shards c)) - 1] it = Some (False, it') \<and>
      concat (map (contents order) (drop a (bc_shards c))) = []) \<or>
    (\<exists>j it'. findShard order c [int a..int (length (bc_shards c)) - 1] it = Some (True, it') \<and>
      at_pos order c it' j 1 \<and> it_valid it' \<and> hashes order (bc_shards c ! j) \<noteq> [] \<and>
      concat (map (contents order) (drop a (bc_shards c))) =
        contents order (bc_shards c ! j) @ concat (map (contents order) (drop (Suc j) (bc_shards c))))"
  using assms
proof (induction "length (bc_shards c) - a" arbitrary: a it)
  case 0
  then show ?case by simp
next
  case (Suc n)
  then have a: "a < length (bc_shards c)" by simp
  have up: "[int a..int (length (bc_shards c)) - 1] = int a # [int (Suc a)..int (length (bc_shards c)) - 1]"
    using a by (simp add: upto_rec1 add.commute)
  have dr: "drop a (bc_shards c) = bc_shards c ! a # drop (Suc a) (bc_shards c)"
    using a by (simp add: Cons_nth_drop_Suc)
  show ?case
  proof (cases "hashes order (bc_shards c ! a) = []")
    case True
    let ?it = "it\<lparr>it_elements := [], it_elementsCount := 0\<rparr>"
    have "findShard order c [int a..int (length (bc_shards c)) - 1] it =
        findShard order c [int (Suc a)..int (length (bc_shards c)) - 1] ?it"
      using True a unfolding up by (simp add: go_nth_int copyHashedKeys_def hashes_def Let_def)
    moreover have "contents order (bc_shards c ! a) = []" using True by (simp add: contents_def)
    ultimately show ?thesis using Suc(1) [of "Suc a" ?it] Suc(2) a unfolding dr by simp
  next
    case False
    let ?it = "it\<lparr>it_elements := hashes order (bc_shards c ! a),
      it_elementsCount := int (length (hashes order (bc_shards c ! a))),
      it_currentIndex := 0, it_currentShard := int a, it_valid := True\<rparr>"
    have "findShard order c [int a..int (length (bc_shards c)) - 1] it = Some (True, ?it)"
      using False a unfolding up by (simp add: go_nth_int copyHashedKeys_def hashes_def Let_def)
    moreover have "at_pos order c ?it a 1" using a by (simp add: at_pos_def)
    ultimately show ?thesis using False unfolding dr by fastforce
  qed
qed

text \<open>One step of the iterator.\<close>

lemma SetNext_ok:
  assumes inv: "cache_inv c" and o: "enumerates order" and pos: "at_pos order c it i p"
    and p: "p \<le> length (hashes order (bc_shards c ! i))"
  shows "(\<exists>it'. SetNext order it c = Some (False, it', c) \<and> remaining order c i p = []) \<or>
    (\<exists>it' i' p'. SetNext order it c = Some (True, it', c) \<and> at_pos order c it' i' p' \<and>
       p' \<le> length (hashes order (bc_shards c ! i')) \<and>
       remaining order c i p = seen (it_Value it') # remaining order c i' p')"
proof (cases "p < length (hashes order (bc_shards c ! i))")
  case True
  let ?it = "it\<lparr>it_currentIndex := int p, it_valid := True\<rparr>"
  have i: "i < length (bc_shards c)" using pos by (simp add: at_pos_def)
  from setCurrentEntry_ok [OF inv o i, of ?it p] pos True obtain it' where
    it': "setCurrentEntry ?it c = Some (False, it', c)" "seen (it_Value it') = contents order (bc_shards c ! i) ! p"
      "at_pos order c it' i (Suc p)" by (auto simp: at_pos_def)
  have "SetNext order it c = Some (True, it', c)"
    using pos True it'(1) by (subst SetNext.simps) (simp add: at_pos_def)
  moreover have "remaining order c i p = seen (it_Value it') # remaining order c i (Suc p)"
    using True it'(2) by (simp add: remaining_def contents_def Cons_nth_drop_Suc [symmetric])
  ultimately show ?thesis using it'(3) Suc_leI [OF True] by blast
next
  case False
  have i: "i < length (bc_shards c)" and cfg: "cfg_Shards (bc_config c) = int (length (bc_shards c))"
    using pos inv by (auto simp: at_pos_def cache_inv_def cache_shape_def)
  let ?it = "it\<lparr>it_valid := False, it_currentIndex := int p\<rparr>"
  have r: "remaining order c i p = concat (map (contents order) (drop (Suc i) (bc_shards c)))"
    using False p by (simp add: remaining_def contents_def)
  from i have "Suc i \<le> length (bc_shards c)" by simp
  from findShard_ok [OF this, of order ?it] show ?thesis
  proof (elim disjE exE conjE)
    fix it' assume f: "findShard order c [int (Suc i)..int (length (bc_shards c)) - 1] ?it = Some (False, it')"
      "concat (map (contents order) (drop (Suc i) (bc_shards c))) = []"
    have "SetNext order it c = Some (False, it', c)"
      using pos False f(1) cfg by (subst SetNext.simps) (simp add: at_pos_def add.commute)
    with r f(2) show ?thesis by simp
  next
    fix j it' assume f: "findShard order c [int (Suc i)..int (length (bc_shards c)) - 1] ?it = Some (True, it')"
      "at_pos order c it' j 1" "it_valid it'" "hashes order (bc_shards c ! j) \<noteq> []"
      "concat (map (contents order) (drop (Suc i) (bc_shards c))) =
        contents order (bc_shards c ! j) @ concat (map (contents order) (drop (Suc j) (bc_shards c)))"
    have j: "j < length (bc_shards c)" using f(2) by (simp add: at_pos_def)
    from setCurrentEntry_ok [OF inv o j, of it' 0] f(2-4) obtain it2 where
      it2: "setCurrentEntry it' c = Some (False, it2, c)" "seen (it_Value it2) = contents order (bc_shards c ! j) ! 0"
        "at_pos order c it2 j 1" by (auto simp: at_pos_def)
    have "SetNext order it c = Some (True, it2, c)"
      using pos False f(1) it2(1) cfg by (subst SetNext.simps) (simp add: at_pos_def add.commute)
    moreover have "remaining order c i p = seen (it_Value it2) # remaining order c j 1"
      using r f(4,5) it2(2) by (cases "hashes order (bc_shards c ! j)") (simp_all add: remaining_def contents_def)
    moreover have "1 \<le> length (hashes order (bc_shards c ! j))" using f(4) by (cases "hashes order (bc_shards c ! j)") auto
    ultimately show ?thesis using it2(3) by blast
  qed
qed

lemma it_all_ok:
  assumes "cache_inv c" "enumerates order" "at_pos order c it i p" "p \<le> length (hashes order (bc_shards c ! i))"
  shows "\<exists>es. it_all order it c = Some es \<and> map seen es = remaining order c i p"
  using assms(3,4)
proof (induction "remaining order c i p" arbitrary: it i p)
  case Nil
  with SetNext_ok [OF assms(1,2) Nil(2,3)] obtain it' where "SetNext order it c = Some (False, it', c)" by fastforce
  then have "it_all order it c = Some []" by (subst it_all.simps) simp
  with Nil(1) show ?case by (auto simp: Nil(1) [symmetric])
next
  case (Cons x xs)
  with SetNext_ok [OF assms(1,2) Cons(3,4)] obtain it' i' p' where
    n: "SetNext order it c = Some (True, it', c)" "at_pos order c it' i' p'"
      "p' \<le> length (hashes order (bc_shards c ! i'))"
      "x # xs = seen (it_Value it') # remaining order c i' p'" by fastforce
  from n(4) have xs: "xs = remaining order c i' p'" by simp
  from Cons(1) [OF xs n(2,3)] obtain es where es: "it_all order it' c = Some es"
    "map seen es = remaining order c i' p'" by blast
  have "it_all order it c = Some (it_Value it' # es)" using n(1) es(1) by (subst it_all.simps) simp
  moreover have "map seen (it_Value it' # es) = remaining order c i p"
    using n(4) es(2) Cons(2) by simp
  ultimately show ?case by blast
qed

text \<open>
  C6. Iterating over an unmodified cache ends and returns, without errors, exactly the
  entries of the shards: every hash of every shard once, with the key and the value that
  the shard holds for it.
\<close>

theorem iterator_complete:
  assumes "cache_inv c" "enumerates order"
  shows "\<exists>it es. newIterator order c = Some it \<and> it_all order it c = Some es \<and>
    map (\<lambda>(e, err). (ei_hash e, Some (ei_key e, ei_value e), err)) es =
    concat (map (\<lambda>s. map (\<lambda>h. (h, shard_map s h, None)) (order (Mapping.keys (sh_hashmap s)))) (bc_shards c))"
proof -
  have len: "0 < length (bc_shards c)" using assms(1) by (auto simp: cache_inv_def cache_shape_def)
  then obtain it where it: "newIterator order c = Some it" "at_pos order c it 0 0"
    by (simp add: newIterator_def go_nth_def copyHashedKeys_def at_pos_def hashes_def Let_def)
  from it_all_ok [OF assms it(2)] obtain es where es: "it_all order it c = Some es"
    "map seen es = remaining order c 0 0" by auto
  have "remaining order c 0 0 = concat (map (contents order) (bc_shards c))"
    using len by (cases "bc_shards c") (simp_all add: remaining_def)
  moreover have "contents order = (\<lambda>s. map (\<lambda>h. (h, shard_map s h, None)) (order (Mapping.keys (sh_hashmap s))))"
    by (simp add: fun_eq_iff contents_def hashes_def)
  ultimately show ?thesis using es it(1) by (auto simp: seen_def)
qed

theorem iterator_complete_witness:
  "\<exists>c it es. newBigCache demo_config None = Some (Inr c) \<and> newIterator sorted_list_of_set c = Some it \<and>
     it_all sorted_list_of_set it c = Some es"
proof -
  have "0 < cfg_Shards demo_config" "cfg_Shards demo_config < 2 ^ 63" "0 \<le> cfg_MaxEntrySize demo_config"
    "isPowerOfTwo (cfg_Shards demo_config)" by code_simp+
  from newBigCache_ok [OF this, of None] obtain c s where c: "newBigCache demo_config None = Some (Inr c)"
    "bc_shards c = replicate (nat (cfg_Shards demo_config)) s" "shard_inv s []" "cache_shape c" by blast
  then have "cache_inv c" by (auto simp: cache_inv_def)
  moreover have "enumerates sorted_list_of_set" by (simp add: enumerates_def)
  ultimately show ?thesis using iterator_complete [of c sorted_list_of_set] c(1) by blast
qed

end
