(* ===== verification/Bounded_Fifo.thy ===== *)
theory Bounded_Fifo
  imports Go_Prelude
begin

text \<open>
  Bounded first-in first-out queues: the view of a circular array as a list, which the ring
  buffer and the worker queue of \<open>ants\<close> share, and the contract of a bounded queue as a
  locale. Its lemmas lift the laws of the two operations to runs: an implementation returns
  exactly what a list of bounded length would.
\<close>

section \<open>The contents of a circular array\<close>

text \<open>The \<open>n\<close> elements from index \<open>r\<close> on, going round at the end of the array.\<close>

definition ring_view :: "'a list \<Rightarrow> nat \<Rightarrow> nat \<Rightarrow> 'a list" where
  "ring_view xs r n = map (\<lambda>i. xs ! ((r + i) mod length xs)) [0..<n]"

lemma length_ring_view [simp]: "length (ring_view xs r n) = n"
  by (simp add: ring_view_def)

lemma ring_view_0 [simp]: "ring_view xs r 0 = []"
  by (simp add: ring_view_def)

lemma nth_ring_view: "i < n \<Longrightarrow> ring_view xs r n ! i = xs ! ((r + i) mod length xs)"
  by (simp add: ring_view_def)

lemma ring_view_add:
  "ring_view xs r (m + n) = ring_view xs r m @ ring_view xs ((r + m) mod length xs) n"
proof (rule nth_equalityI)
  fix i assume i: "i < length (ring_view xs r (m + n))"
  show "ring_view xs r (m + n) ! i = (ring_view xs r m @ ring_view xs ((r + m) mod length xs) n) ! i"
  proof (cases "i < m")
    case False
    then obtain k where k: "i = m + k" using le_Suc_ex not_less by blast
    then have "(r + i) mod length xs = ((r + m) mod length xs + k) mod length xs"
      by (simp add: mod_add_left_eq add.assoc)
    with i k show ?thesis by (simp add: nth_ring_view nth_append)
  qed (use i in \<open>simp add: nth_ring_view nth_append\<close>)
qed simp

lemma ring_view_mod [simp]: "ring_view xs (r mod length xs) n = ring_view xs r n"
  by (simp add: ring_view_def mod_add_left_eq)

lemma drop_ring_view: "m \<le> n \<Longrightarrow> drop m (ring_view xs r n) = ring_view xs (r + m) (n - m)"
  by (rule nth_equalityI) (auto simp: nth_ring_view ac_simps)

lemma take_ring_view: "m \<le> n \<Longrightarrow> take m (ring_view xs r n) = ring_view xs r m"
  by (rule nth_equalityI) (auto simp: nth_ring_view)

text \<open>A view that does not go round is a slice of the array.\<close>

lemma ring_view_slice: "r + n \<le> length xs \<Longrightarrow> ring_view xs r n = take n (drop r xs)"
  by (rule nth_equalityI) (auto simp: nth_ring_view)

lemma ring_view_wrap:
  assumes "r \<le> length xs" "length xs \<le> r + n" "n \<le> length xs"
  shows "ring_view xs r n = drop r xs @ take (r + n - length xs) xs"
proof (rule nth_equalityI)
  show "length (ring_view xs r n) = length (drop r xs @ take (r + n - length xs) xs)" using assms by simp
  fix i assume i: "i < length (ring_view xs r n)"
  show "ring_view xs r n ! i = (drop r xs @ take (r + n - length xs) xs) ! i"
  proof (cases "r + i < length xs")
    case True
    then have "i < length xs - r" by simp
    with True i show ?thesis by (simp add: nth_ring_view nth_append)
  next
    case False
    then have "(r + i) mod length xs = r + i - length xs"
      using i assms by (simp add: mod_if)
    moreover have "\<not> i < length xs - r" "i - (length xs - r) = r + i - length xs"
      using False assms(1) by auto
    ultimately show ?thesis using i by (simp add: nth_ring_view nth_append)
  qed
qed

lemma ring_view_Cons:
  assumes "0 < n" "r < length xs"
  shows "ring_view xs r n = xs ! r # ring_view xs (r + 1) (n - 1)"
proof -
  have "ring_view xs r (1 + (n - 1)) = ring_view xs r 1 @ ring_view xs ((r + 1) mod length xs) (n - 1)"
    by (rule ring_view_add)
  moreover have "ring_view xs r 1 = [xs ! r]" using assms by (simp add: ring_view_def)
  ultimately show ?thesis using assms by simp
qed

text \<open>Cells outside the view may change.\<close>

lemma ring_view_cong:
  assumes "length ys = length xs" "\<And>i. i < n \<Longrightarrow> ys ! ((r + i) mod length xs) = xs ! ((r + i) mod length xs)"
  shows "ring_view ys r n = ring_view xs r n"
  using assms by (simp add: ring_view_def)

lemma mod_neq:
  assumes "i < j" "j < i + s" shows "(r + i) mod s \<noteq> (r + j) mod (s :: nat)"
proof
  assume "(r + i) mod s = (r + j) mod s"
  then have "s dvd (r + j) - (r + i)" using mod_eq_dvd_iff_nat [of "r + i" "r + j" s] assms by simp
  then have "s dvd j - i" by simp
  with assms show False by (auto dest: dvd_imp_le)
qed

lemma ring_view_push:
  assumes "n < length xs"
  shows "ring_view (xs[(r + n) mod length xs := x]) r (Suc n) = ring_view xs r n @ [x]"
proof -
  let ?ys = "xs[(r + n) mod length xs := x]"
  have "ring_view ?ys r (n + 1) = ring_view ?ys r n @ ring_view ?ys ((r + n) mod length xs) 1"
    using ring_view_add [of ?ys r n 1] by simp
  moreover have "ring_view ?ys r n = ring_view xs r n"
  proof (rule ring_view_cong)
    fix i assume "i < n"
    then have "(r + n) mod length xs \<noteq> (r + i) mod length xs"
      using mod_neq [of i n "length xs" r] assms by auto
    then show "?ys ! ((r + i) mod length xs) = xs ! ((r + i) mod length xs)" by simp
  qed simp
  moreover have "(r + n) mod length xs < length xs" using assms by (intro mod_less_divisor) auto
  then have "ring_view ?ys ((r + n) mod length xs) 1 = [x]" by (simp add: ring_view_def)
  ultimately show ?thesis by simp
qed

section \<open>The positions of a circular array\<close>

text \<open>\<open>n\<close> elements from position \<open>r\<close> on in an array of length \<open>L\<close>, as the read position, the write
  position and the full flag of an implementation encode it.\<close>

definition ring_at :: "nat \<Rightarrow> int \<Rightarrow> int \<Rightarrow> bool \<Rightarrow> nat \<Rightarrow> nat \<Rightarrow> bool" where
  "ring_at L rp wp full r n \<longleftrightarrow> r < L \<and> n \<le> L \<and> rp = int r \<and> wp = int ((r + n) mod L) \<and> (full \<longleftrightarrow> n = L)"

lemma wrap_mod: "r < L \<Longrightarrow> n \<le> L \<Longrightarrow> (r + n) mod L = (if r + n < L then r + n else r + n - L)" for r :: nat
  by (simp add: mod_if)

lemma wrap_succ: "k < L \<Longrightarrow> (if int k + 1 = int L then 0 else int k + 1) = int ((k + 1) mod L)"
  using wrap_mod [of k L 1] by auto

lemma ring_at_empty: "ring_at L rp wp full r n \<Longrightarrow> wp = rp \<and> \<not> full \<longleftrightarrow> n = 0"
  using wrap_mod [of r L n] by (auto simp: ring_at_def split: if_splits)

lemma ring_at_length:
  "ring_at L rp wp full r n \<Longrightarrow>
   (if rp = wp then if full then int L else 0 else if wp > rp then wp - rp else int L - rp + wp) = int n"
  using wrap_mod [of r L n] by (auto simp: ring_at_def split: if_splits)

lemma ring_at_push:
  assumes "ring_at L rp wp full r n" "n < L" "wp' = (if wp + 1 = int L then 0 else wp + 1)"
  shows "ring_at L rp wp' (if wp' = rp then True else full) r (n + 1)"
proof -
  let ?w = "(r + n) mod L"
  have r: "r < L" "wp = int ?w" "rp = int r" "\<not> full" using assms(1,2) by (auto simp: ring_at_def)
  have "?w < L" using r(1) by (intro mod_less_divisor) auto
  then have "wp' = int ((?w + 1) mod L)" unfolding assms(3) r(2) by (rule wrap_succ)
  also have "(?w + 1) mod L = (r + (n + 1)) mod L" by (simp only: mod_add_left_eq add.assoc)
  finally have w: "wp' = int ((r + (n + 1)) mod L)" .
  moreover have "wp' = rp \<longleftrightarrow> n + 1 = L"
    unfolding w using wrap_mod [of r L "n + 1"] assms(2) r by auto
  ultimately show ?thesis using assms(2) r by (auto simp: ring_at_def)
qed

lemma ring_at_pop:
  assumes "ring_at L rp wp full r n" "0 < n" "rp' = (if rp + 1 = int L then 0 else rp + 1)"
  shows "ring_at L rp' wp False ((r + 1) mod L) (n - 1)" "rp' = int ((r + 1) mod L)"
proof -
  have r: "r < L" "rp = int r" "n \<le> L" "wp = int ((r + n) mod L)" using assms(1) by (auto simp: ring_at_def)
  show rp: "rp' = int ((r + 1) mod L)" unfolding assms(3) r(2) by (rule wrap_succ [OF r(1)])
  have "((r + 1) mod L + (n - 1)) mod L = (r + n) mod L"
    using assms(2) mod_add_left_eq [of "r + 1" L "n - 1"] by simp
  moreover have "(r + 1) mod L < L" using r(1) by (intro mod_less_divisor) auto
  ultimately show "ring_at L rp' wp False ((r + 1) mod L) (n - 1)"
    using r rp assms(2) by (auto simp: ring_at_def)
qed

section \<open>The contract\<close>

datatype 'a fifo_op = Enq 'a | Deq

text \<open>A list of bounded length: the result of each operation and the list afterwards.\<close>

fun fifo_spec :: "nat \<Rightarrow> 'a fifo_op \<Rightarrow> 'a list \<Rightarrow> (bool + 'a option) \<times> 'a list" where
  "fifo_spec c (Enq x) xs = (if length xs < c then (Inl True, xs @ [x]) else (Inl False, xs))"
| "fifo_spec c Deq xs = (case xs of [] \<Rightarrow> (Inr None, []) | x # xs \<Rightarrow> (Inr (Some x), xs))"

fun fifo_runs :: "nat \<Rightarrow> 'a fifo_op list \<Rightarrow> 'a list \<Rightarrow> (bool + 'a option) list \<times> 'a list" where
  "fifo_runs c [] xs = ([], xs)"
| "fifo_runs c (op # ops) xs =
     (let (r, xs) = fifo_spec c op xs; (rs, xs) = fifo_runs c ops xs in (r # rs, xs))"

locale bounded_fifo =
  fixes inv :: "'q \<Rightarrow> bool"
    and contents :: "'q \<Rightarrow> 'a list"
    and cap :: "'q \<Rightarrow> nat"
    and enq :: "'a \<Rightarrow> 'q \<Rightarrow> (bool \<times> 'q) option"
    and deq :: "'q \<Rightarrow> ('a option \<times> 'q) option"
  assumes bound: "inv q \<Longrightarrow> length (contents q) \<le> cap q"
    and enq_room: "\<lbrakk>inv q; length (contents q) < cap q\<rbrakk> \<Longrightarrow>
      \<exists>q'. enq x q = Some (True, q') \<and> inv q' \<and> contents q' = contents q @ [x] \<and> cap q' = cap q"
    and enq_full: "\<lbrakk>inv q; length (contents q) = cap q\<rbrakk> \<Longrightarrow> enq x q = Some (False, q)"
    and deq_empty: "\<lbrakk>inv q; contents q = []\<rbrakk> \<Longrightarrow> deq q = Some (None, q)"
    and deq_first: "\<lbrakk>inv q; contents q = x # xs\<rbrakk> \<Longrightarrow>
      \<exists>q'. deq q = Some (Some x, q') \<and> inv q' \<and> contents q' = xs \<and> cap q' = cap q"
begin

fun step :: "'a fifo_op \<Rightarrow> 'q \<Rightarrow> ((bool + 'a option) \<times> 'q) option" where
  "step (Enq x) q = map_option (map_prod Inl id) (enq x q)"
| "step Deq q = map_option (map_prod Inr id) (deq q)"

fun runs :: "'a fifo_op list \<Rightarrow> 'q \<Rightarrow> ((bool + 'a option) list \<times> 'q) option" where
  "runs [] q = Some ([], q)"
| "runs (op # ops) q = do { (r, q) \<leftarrow> step op q; (rs, q) \<leftarrow> runs ops q; Some (r # rs, q) }"

lemma step_refines:
  assumes "inv q"
  shows "\<exists>q'. step op q = Some (fst (fifo_spec (cap q) op (contents q)), q') \<and> inv q' \<and>
    contents q' = snd (fifo_spec (cap q) op (contents q)) \<and> cap q' = cap q"
proof (cases op)
  case (Enq x)
  then show ?thesis
    using enq_room [OF assms, of x] enq_full [OF assms, of x] bound [OF assms] assms
    by (cases "length (contents q) < cap q") auto
next
  case Deq
  then show ?thesis using deq_empty [OF assms] deq_first [OF assms] assms
    by (cases "contents q") fastforce+
qed

lemma runs_refine:
  "inv q \<Longrightarrow> \<exists>q'. runs ops q = Some (fst (fifo_runs (cap q) ops (contents q)), q') \<and> inv q' \<and>
    contents q' = snd (fifo_runs (cap q) ops (contents q)) \<and> cap q' = cap q"
proof (induction ops arbitrary: q)
  case (Cons op ops)
  from step_refines [OF Cons.prems, of op] obtain q1 where
    q1: "step op q = Some (fst (fifo_spec (cap q) op (contents q)), q1)" "inv q1"
      "contents q1 = snd (fifo_spec (cap q) op (contents q))" "cap q1 = cap q" by blast
  from Cons.IH [OF q1(2)] obtain q2 where
    "runs ops q1 = Some (fst (fifo_runs (cap q) ops (contents q1)), q2)" "inv q2"
      "contents q2 = snd (fifo_runs (cap q) ops (contents q1))" "cap q2 = cap q" using q1(4) by auto
  with q1 show ?case by (simp add: case_prod_unfold Let_def)
qed simp

text \<open>Enqueueing a list that fits and dequeueing it gives the list back.\<close>

fun enq_all :: "'a list \<Rightarrow> 'q \<Rightarrow> 'q option" where
  "enq_all [] q = Some q"
| "enq_all (x # xs) q = do { (_, q) \<leftarrow> enq x q; enq_all xs q }"

lemma enq_all_ok:
  "inv q \<Longrightarrow> length (contents q) + length xs \<le> cap q \<Longrightarrow>
   \<exists>q'. enq_all xs q = Some q' \<and> inv q' \<and> contents q' = contents q @ xs \<and> cap q' = cap q"
proof (induction xs arbitrary: q)
  case (Cons x xs)
  from Cons.prems enq_room [of q x] obtain q1 where
    "enq x q = Some (True, q1)" "inv q1" "contents q1 = contents q @ [x]" "cap q1 = cap q" by auto
  with Cons show ?case by fastforce
qed simp

end

end
