(* ===== verification/Ring_Buffer.thy ===== *)
theory Ring_Buffer
  imports Bounded_Fifo
begin

text \<open>
  \<open>ringbuffer/ring_buffer.go\<close>: a circular byte buffer of fixed size. State: the record
  \<open>ring_buffer\<close> with the read and write positions and the flag that tells a full buffer from an
  empty one. Every method runs under the mutex and is one step. \<open>Read\<close> fills a caller's slice
  \<open>p\<close>, which does not overlap the buffer. The theory shows that the methods refine operations
  on the list of unread bytes.
\<close>

section \<open>The buffer\<close>

datatype ring_error = ErrTooManyDataToWrite | ErrIsFull | ErrIsEmpty

record ring_buffer =
  rb_buf :: bytes
  rb_size :: int
  rb_r :: int
  rb_w :: int
  rb_isFull :: bool

definition rb_New :: "int \<Rightarrow> ring_buffer option" where
  "rb_New n = do {
     buf \<leftarrow> go_make 0 n;
     Some \<lparr>rb_buf = buf, rb_size = n, rb_r = 0, rb_w = 0, rb_isFull = False\<rparr>
   }"

text \<open>The slice \<open>p\<close> afterwards, the number of bytes read, the error, and the buffer.\<close>

definition rb_Read :: "ring_buffer \<Rightarrow> bytes \<Rightarrow> (bytes \<times> int \<times> ring_error option \<times> ring_buffer) option" where
  "rb_Read b p =
     (if length p = 0 then Some (p, 0, None, b)
      else if rb_w b = rb_r b \<and> \<not> rb_isFull b then Some (p, 0, Some ErrIsEmpty, b)
      else if rb_w b > rb_r b then do {
        let n = rb_w b - rb_r b;
        let n = (if n > int (length p) then int (length p) else n);
        src \<leftarrow> go_slice (rb_buf b) (rb_r b) (rb_r b + n);
        (p, _) \<leftarrow> go_copy p 0 src;
        r \<leftarrow> go_mod (rb_r b + n) (rb_size b);
        Some (p, n, None, b\<lparr>rb_r := r\<rparr>)
      } else do {
        let n = rb_size b - rb_r b + rb_w b;
        let n = (if n > int (length p) then int (length p) else n);
        p \<leftarrow> (if rb_r b + n \<le> rb_size b then do {
            src \<leftarrow> go_slice (rb_buf b) (rb_r b) (rb_r b + n);
            (p, _) \<leftarrow> go_copy p 0 src;
            Some p
          } else do {
            let c1 = rb_size b - rb_r b;
            src \<leftarrow> go_slice (rb_buf b) (rb_r b) (rb_size b);
            (p, _) \<leftarrow> go_copy p 0 src;
            let c2 = n - c1;
            src \<leftarrow> go_slice (rb_buf b) 0 c2;
            (p, _) \<leftarrow> go_copy p c1 src;
            Some p
          });
        r \<leftarrow> go_mod (rb_r b + n) (rb_size b);
        Some (p, n, None, b\<lparr>rb_r := r, rb_isFull := False\<rparr>)
      })"

definition rb_ReadByte :: "ring_buffer \<Rightarrow> (byte \<times> ring_error option \<times> ring_buffer) option" where
  "rb_ReadByte b =
     (if rb_w b = rb_r b \<and> \<not> rb_isFull b then Some (0, Some ErrIsEmpty, b)
      else do {
        c \<leftarrow> go_nth (rb_buf b) (rb_r b);
        let r = rb_r b + 1;
        let r = (if r = rb_size b then 0 else r);
        Some (c, None, b\<lparr>rb_r := r, rb_isFull := False\<rparr>)
      })"

text \<open>The copying part of \<open>Write\<close>: the buffer and the write position (before its reset to 0).\<close>

definition rb_put :: "ring_buffer \<Rightarrow> bytes \<Rightarrow> (bytes \<times> int) option" where
  "rb_put b p =
     (let n = int (length p)
      in if rb_w b \<ge> rb_r b then
           let c1 = rb_size b - rb_w b
           in if c1 \<ge> n then do {
                (buf, _) \<leftarrow> go_copy (rb_buf b) (rb_w b) p;
                Some (buf, rb_w b + n)
              } else do {
                p1 \<leftarrow> go_slice p 0 c1;
                (buf, _) \<leftarrow> go_copy (rb_buf b) (rb_w b) p1;
                let c2 = n - c1;
                p2 \<leftarrow> go_from p c1;
                (buf, _) \<leftarrow> go_copy buf 0 p2;
                Some (buf, c2)
              }
         else do {
           (buf, _) \<leftarrow> go_copy (rb_buf b) (rb_w b) p;
           Some (buf, rb_w b + n)
         })"

definition rb_Write :: "ring_buffer \<Rightarrow> bytes \<Rightarrow> (int \<times> ring_error option \<times> ring_buffer) option" where
  "rb_Write b p =
     (if length p = 0 then Some (0, None, b)
      else if rb_isFull b then Some (0, Some ErrIsFull, b)
      else do {
        let avail = (if rb_w b \<ge> rb_r b then rb_size b - rb_w b + rb_r b else rb_r b - rb_w b);
        (p, err) \<leftarrow> (if int (length p) > avail then do {
            p \<leftarrow> go_slice p 0 avail;
            Some (p, Some ErrTooManyDataToWrite)
          } else Some (p, None));
        (buf, w) \<leftarrow> rb_put b p;
        let w = (if w = rb_size b then 0 else w);
        let full = (if w = rb_r b then True else rb_isFull b);
        Some (int (length p), err, b\<lparr>rb_buf := buf, rb_w := w, rb_isFull := full\<rparr>)
      })"

definition rb_WriteByte :: "ring_buffer \<Rightarrow> byte \<Rightarrow> (ring_error option \<times> ring_buffer) option" where
  "rb_WriteByte b c =
     (if rb_w b = rb_r b \<and> rb_isFull b then Some (Some ErrIsFull, b)
      else do {
        buf \<leftarrow> go_upd (rb_buf b) (rb_w b) c;
        let w = rb_w b + 1;
        let w = (if w = rb_size b then 0 else w);
        let full = (if w = rb_r b then True else rb_isFull b);
        Some (None, b\<lparr>rb_buf := buf, rb_w := w, rb_isFull := full\<rparr>)
      })"

definition rb_Length :: "ring_buffer \<Rightarrow> int" where
  "rb_Length b =
     (if rb_w b = rb_r b then if rb_isFull b then rb_size b else 0
      else if rb_w b > rb_r b then rb_w b - rb_r b
      else rb_size b - rb_r b + rb_w b)"

definition rb_Capacity :: "ring_buffer \<Rightarrow> int" where
  "rb_Capacity b = rb_size b"

definition rb_Free :: "ring_buffer \<Rightarrow> int" where
  "rb_Free b =
     (if rb_w b = rb_r b then if rb_isFull b then 0 else rb_size b
      else if rb_w b < rb_r b then rb_r b - rb_w b
      else rb_size b - rb_w b + rb_r b)"

text \<open>The bytes of a string are written without a copy.\<close>

definition rb_WriteString :: "ring_buffer \<Rightarrow> bytes \<Rightarrow> (int \<times> ring_error option \<times> ring_buffer) option" where
  "rb_WriteString b s = rb_Write b s"

text \<open>\<open>nil\<close> is the empty slice.\<close>

definition rb_Bytes :: "ring_buffer \<Rightarrow> bytes option" where
  "rb_Bytes b =
     (if rb_w b = rb_r b then
        if rb_isFull b then do {
          buf \<leftarrow> go_make 0 (rb_size b);
          src \<leftarrow> go_from (rb_buf b) (rb_r b);
          (buf, _) \<leftarrow> go_copy buf 0 src;
          src \<leftarrow> go_slice (rb_buf b) 0 (rb_w b);
          (buf, _) \<leftarrow> go_copy buf (rb_size b - rb_r b) src;
          Some buf
        } else Some []
      else if rb_w b > rb_r b then do {
        buf \<leftarrow> go_make 0 (rb_w b - rb_r b);
        src \<leftarrow> go_slice (rb_buf b) (rb_r b) (rb_w b);
        (buf, _) \<leftarrow> go_copy buf 0 src;
        Some buf
      } else do {
        let n = rb_size b - rb_r b + rb_w b;
        buf \<leftarrow> go_make 0 n;
        if rb_r b + n < rb_size b then do {
          src \<leftarrow> go_slice (rb_buf b) (rb_r b) (rb_r b + n);
          (buf, _) \<leftarrow> go_copy buf 0 src;
          Some buf
        } else do {
          let c1 = rb_size b - rb_r b;
          src \<leftarrow> go_slice (rb_buf b) (rb_r b) (rb_size b);
          (buf, _) \<leftarrow> go_copy buf 0 src;
          let c2 = n - c1;
          src \<leftarrow> go_slice (rb_buf b) 0 c2;
          (buf, _) \<leftarrow> go_copy buf c1 src;
          Some buf
        }
      })"

definition rb_IsFull :: "ring_buffer \<Rightarrow> bool" where
  "rb_IsFull b = rb_isFull b"

definition rb_IsEmpty :: "ring_buffer \<Rightarrow> bool" where
  "rb_IsEmpty b \<longleftrightarrow> \<not> rb_isFull b \<and> rb_w b = rb_r b"

definition rb_Reset :: "ring_buffer \<Rightarrow> ring_buffer" where
  "rb_Reset b = b\<lparr>rb_r := 0, rb_w := 0, rb_isFull := False\<rparr>"

section \<open>Representation\<close>

text \<open>\<open>n\<close> unread bytes from position \<open>r\<close> on.\<close>

definition rb_at :: "ring_buffer \<Rightarrow> nat \<Rightarrow> nat \<Rightarrow> bool" where
  "rb_at b r n \<longleftrightarrow> rb_size b = int (length (rb_buf b)) \<and> r < length (rb_buf b) \<and> n \<le> length (rb_buf b) \<and>
     rb_r b = int r \<and> rb_w b = int ((r + n) mod length (rb_buf b)) \<and>
     (rb_isFull b \<longleftrightarrow> n = length (rb_buf b))"

definition rb_inv :: "ring_buffer \<Rightarrow> bool" where
  "rb_inv b \<longleftrightarrow> (\<exists>r n. rb_at b r n)"

definition rb_contents :: "ring_buffer \<Rightarrow> bytes" where
  "rb_contents b = ring_view (rb_buf b) (nat (rb_r b)) (nat (rb_Length b))"

lemma rb_atE:
  assumes "rb_at b r n"
  obtains "rb_size b = int (length (rb_buf b))" "r < length (rb_buf b)" "n \<le> length (rb_buf b)"
    "rb_r b = int r" "rb_isFull b \<longleftrightarrow> n = length (rb_buf b)"
    "r + n < length (rb_buf b) \<and> rb_w b = int r + int n \<or>
     length (rb_buf b) \<le> r + n \<and> rb_w b = int r + int n - int (length (rb_buf b))"
  using assms wrap_mod [of r "length (rb_buf b)" n] by (auto simp: rb_at_def split: if_splits)

lemma rb_Length_at: "rb_at b r n \<Longrightarrow> rb_Length b = int n"
  by (erule rb_atE) (auto simp: rb_Length_def)

lemma rb_Free_at: "rb_at b r n \<Longrightarrow> rb_Free b = int (length (rb_buf b)) - int n"
  by (erule rb_atE) (auto simp: rb_Free_def)

lemma rb_contents_at: "rb_at b r n \<Longrightarrow> rb_contents b = ring_view (rb_buf b) r n"
  by (simp add: rb_contents_def rb_Length_at) (simp add: rb_at_def)

lemma rb_IsEmpty_at: "rb_at b r n \<Longrightarrow> rb_w b = rb_r b \<and> \<not> rb_isFull b \<longleftrightarrow> n = 0"
  by (erule rb_atE) auto

lemma rb_at_advance:
  assumes "rb_at b r n" "m \<le> n" "0 < m" "r' = (r + m) mod length (rb_buf b)"
  shows "rb_at (b\<lparr>rb_r := int r', rb_isFull := False\<rparr>) r' (n - m)"
proof -
  let ?L = "length (rb_buf b)"
  have "(r' + (n - m)) mod ?L = (r + m + (n - m)) mod ?L"
    unfolding assms(4) by (rule mod_add_left_eq)
  also have "r + m + (n - m) = r + n" using assms(2) by simp
  finally have "(r' + (n - m)) mod ?L = (r + n) mod ?L" .
  moreover have "0 < ?L" using assms(1) by (auto simp: rb_at_def)
  then have "r' < ?L" unfolding assms(4) by (rule mod_less_divisor)
  ultimately show ?thesis using assms(1-3) by (auto simp: rb_at_def)
qed

text \<open>A block written behind the contents.\<close>

lemma ring_view_write:
  assumes "length ys = length xs" "n + length p \<le> length xs"
    "\<And>j. j < length p \<Longrightarrow> ys ! ((r + n + j) mod length xs) = p ! j"
    "\<And>i. i < n \<Longrightarrow> ys ! ((r + i) mod length xs) = xs ! ((r + i) mod length xs)"
  shows "ring_view ys r (n + length p) = ring_view xs r n @ p"
proof -
  have "ring_view ys ((r + n) mod length ys) (length p) = p"
    using assms(1,3) by (intro nth_equalityI) (auto simp: nth_ring_view mod_add_left_eq)
  with ring_view_cong [OF assms(1,4)] show ?thesis by (simp add: ring_view_add)
qed

lemma blit_straight:
  assumes "r < length xs" "n + length p \<le> length xs" "w = (r + n) mod length xs" "w + length p \<le> length xs"
  shows "ring_view (blit xs w p) r (n + length p) = ring_view xs r n @ p"
proof (rule ring_view_write)
  show "length (blit xs w p) = length xs" using assms(4) by simp
  show "n + length p \<le> length xs" by fact
  have L: "0 < length xs" using assms(1) by auto
  have wj: "(r + n + j) mod length xs = w + j" if "j < length p" for j
    using assms(3,4) that by (metis add_lessD1 less_le_trans mod_add_left_eq mod_less nat_add_left_cancel_less)
  show "blit xs w p ! ((r + n + j) mod length xs) = p ! j" if "j < length p" for j
    using wj [OF that] that assms(4) by (simp add: blit_nth)
  show "blit xs w p ! ((r + i) mod length xs) = xs ! ((r + i) mod length xs)" if i: "i < n" for i
  proof -
    let ?c = "(r + i) mod length xs"
    have "\<not> (w \<le> ?c \<and> ?c < w + length p)"
    proof
      assume c: "w \<le> ?c \<and> ?c < w + length p"
      then have j: "?c - w < length p" by auto
      have "(r + (n + (?c - w))) mod length xs = ?c" using wj [OF j] c by (simp add: add.assoc)
      moreover have "(r + i) mod length xs \<noteq> (r + (n + (?c - w))) mod length xs"
        using i j assms(2) by (intro mod_neq) auto
      ultimately show False by simp
    qed
    moreover have "?c < length xs" by (rule mod_less_divisor [OF L])
    ultimately show ?thesis using blit_nth [OF assms(4), of ?c] by (simp only: if_False)
  qed
qed

lemma blit_round:
  assumes "r < length xs" "n + length p \<le> length xs" "w = (r + n) mod length xs"
    "length xs < w + length p"
  shows "ring_view (blit (blit xs w (take (length xs - w) p)) 0 (drop (length xs - w) p)) r (n + length p) =
    ring_view xs r n @ p"
proof (rule ring_view_write)
  let ?L = "length xs"
  let ?c1 = "?L - w"
  let ?ys = "blit xs w (take ?c1 p)"
  let ?zs = "blit ?ys 0 (drop ?c1 p)"
  have L: "0 < ?L" using assms(1) by auto
  have w: "w < ?L" unfolding assms(3) by (rule mod_less_divisor [OF L])
  note L = L w
  have y: "length ?ys = ?L" using L by simp
  then show "length ?zs = ?L" by simp
  show "n + length p \<le> ?L" by fact
  have m: "length (drop ?c1 p) \<le> w" using assms(2,4) L by simp
  have zs: "?zs ! c = (if c < length p - ?c1 then p ! (?c1 + c) else if w \<le> c then p ! (c - w) else xs ! c)"
    if "c < ?L" for c
    using that y m assms(4) L by (simp add: blit_nth)
  have wj: "(r + n + j) mod ?L = (if w + j < ?L then w + j else w + j - ?L)" if "j < length p" for j
  proof -
    have "(r + n + j) mod ?L = (w + j) mod ?L" using assms(3) by (simp add: mod_add_left_eq)
    also have "\<dots> = (if w + j < ?L then w + j else w + j - ?L)"
      using that assms(2) L by (intro wrap_mod) auto
    finally show ?thesis .
  qed
  show "?zs ! ((r + n + j) mod ?L) = p ! j" if j: "j < length p" for j
    using wj [OF j] zs m j L assms(2) by (auto simp: less_diff_conv)
  show "?zs ! ((r + i) mod ?L) = xs ! ((r + i) mod ?L)" if i: "i < n" for i
  proof -
    let ?c = "(r + i) mod ?L"
    have c: "?c < ?L" using L by simp
    have ne: "?c \<noteq> (r + n + j) mod ?L" if "j < length p" for j
      using mod_neq [of i "n + j" ?L r] i that assms(2) by (simp add: add.assoc)
    have "\<not> ?c < length p - ?c1"
    proof
      assume a: "?c < length p - ?c1"
      then have j: "?c1 + ?c < length p" by simp
      have e: "w + (?c1 + ?c) = ?L + ?c" using w by simp
      have "(r + n + (?c1 + ?c)) mod ?L = ?c" using wj [OF j] unfolding e by simp
      with ne [OF j] show False by simp
    qed
    moreover have "\<not> w \<le> ?c"
    proof
      assume a: "w \<le> ?c"
      with c assms(4) have j: "?c - w < length p" by linarith
      have "(r + n + (?c - w)) mod ?L = ?c" using wj [OF j] a c by simp
      with ne [OF j] show False by simp
    qed
    ultimately show ?thesis using zs [OF c] by simp
  qed
qed

section \<open>The operations\<close>

lemma go_copy_fits:
  "0 \<le> off \<Longrightarrow> off + int (length src) \<le> int (length dst) \<Longrightarrow>
   go_copy dst off src = Some (blit dst (nat off) src, int (length src))"
  by (simp add: go_copy_def)

lemma rb_at_written:
  assumes "rb_at b r n" "n + m \<le> length (rb_buf b)" "0 < m" "length buf = length (rb_buf b)"
    "w = int ((r + (n + m)) mod length (rb_buf b))"
  shows "rb_at (b\<lparr>rb_buf := buf, rb_w := w, rb_isFull := (if w = rb_r b then True else rb_isFull b)\<rparr>) r (n + m)"
proof -
  have r: "r < length (rb_buf b)" "rb_r b = int r" and nf: "\<not> rb_isFull b" using assms(1-3) by (auto simp: rb_at_def)
  have "w = rb_r b \<longleftrightarrow> n + m = length (rb_buf b)"
    using wrap_mod [OF r(1) assms(2)] assms(2,3,5) r by auto
  with assms(1,2,4,5) nf show ?thesis by (auto simp: rb_at_def)
qed

lemma put_ok:
  assumes at: "rb_at b r n" and fits: "n + length p \<le> length (rb_buf b)"
  shows "\<exists>buf w. rb_put b p = Some (buf, w) \<and> length buf = length (rb_buf b) \<and>
    (if w = rb_size b then 0 else w) = int ((r + (n + length p)) mod length (rb_buf b)) \<and>
    ring_view buf r (n + length p) = ring_view (rb_buf b) r n @ p"
proof -
  let ?L = "length (rb_buf b)"
  let ?w = "(r + n) mod ?L"
  have b: "rb_size b = int ?L" "r < ?L" "rb_r b = int r" "rb_w b = int ?w" using at by (auto simp: rb_at_def)
  have L: "0 < ?L" using b(2) by auto
  have w: "?w < ?L" by (rule mod_less_divisor [OF L])
  have wm: "(r + (n + length p)) mod ?L = (if ?w + length p < ?L then ?w + length p else ?w + length p - ?L)"
    using wrap_mod [OF w, of "length p"] fits by (simp add: mod_add_left_eq add.assoc)
  show ?thesis
  proof (cases "?w + length p \<le> ?L")
    case True
    have "go_copy (rb_buf b) (rb_w b) p = Some (blit (rb_buf b) ?w p, int (length p))"
      using go_copy_fits [of "rb_w b" p "rb_buf b"] True b(4) by simp
    then have "rb_put b p = Some (blit (rb_buf b) ?w p, rb_w b + int (length p))"
      using True b(1,4) by (simp add: rb_put_def Let_def)
    moreover have "(if rb_w b + int (length p) = rb_size b then 0 else rb_w b + int (length p)) =
        int ((r + (n + length p)) mod ?L)"
      using True b(1,4) unfolding wm by simp
    ultimately show ?thesis using blit_straight [OF b(2) fits refl True] True
      by (intro exI [of _ "blit (rb_buf b) ?w p"] exI [of _ "rb_w b + int (length p)"] conjI) simp_all
  next
    case False
    have ge: "rb_r b \<le> rb_w b"
      using False fits b wrap_mod [of r ?L n] by (auto split: if_splits)
    let ?c1 = "?L - ?w"
    have c1: "rb_size b - rb_w b = int ?c1" using b w by simp
    have 1: "go_slice p 0 (int ?c1) = Some (take ?c1 p)" using False by (simp add: go_slice_def)
    have 2: "go_copy (rb_buf b) (rb_w b) (take ?c1 p) = Some (blit (rb_buf b) ?w (take ?c1 p), int ?c1)"
      using go_copy_fits [of "rb_w b" "take ?c1 p" "rb_buf b"] False w b(4) by simp
    have 3: "go_from p (int ?c1) = Some (drop ?c1 p)" using False by (simp add: go_from_eq)
    have 4: "go_copy (blit (rb_buf b) ?w (take ?c1 p)) 0 (drop ?c1 p) =
        Some (blit (blit (rb_buf b) ?w (take ?c1 p)) 0 (drop ?c1 p), int (length p - ?c1))"
      using go_copy_fits [of 0 "drop ?c1 p" "blit (rb_buf b) ?w (take ?c1 p)"] False w fits by simp
    have 5: "\<not> int (length p) \<le> int ?c1" using False w by linarith
    have 6: "int (length p) - int ?c1 = int (length p - ?c1)" using False by simp
    have "rb_put b p = Some (blit (blit (rb_buf b) ?w (take ?c1 p)) 0 (drop ?c1 p), int (length p - ?c1))"
      unfolding rb_put_def Let_def c1
      by (simp only: ge 1 2 3 4 5 6 if_True if_False bind.bind_lunit prod.case)
    moreover have "(if int (length p - ?c1) = rb_size b then 0 else int (length p - ?c1)) =
        int ((r + (n + length p)) mod ?L)"
      using False fits w b(1) unfolding wm by auto
    moreover have "?L < ?w + length p" using False by simp
    moreover have "length (blit (blit (rb_buf b) ?w (take ?c1 p)) 0 (drop ?c1 p)) = ?L" using w by simp
    ultimately show ?thesis using blit_round [OF b(2) fits refl]
      by (intro exI [of _ "blit (blit (rb_buf b) ?w (take ?c1 p)) 0 (drop ?c1 p)"]
          exI [of _ "int (length p - ?c1)"] conjI)
  qed
qed

lemma Write_ok:
  assumes at: "rb_at b r n" and p: "p \<noteq> []" and room: "n < length (rb_buf b)"
  defines "k \<equiv> min (length p) (length (rb_buf b) - n)"
  shows "\<exists>b'. rb_Write b p = Some (int k,
      if length p > length (rb_buf b) - n then Some ErrTooManyDataToWrite else None, b') \<and>
    rb_at b' r (n + k) \<and> length (rb_buf b') = length (rb_buf b) \<and>
    ring_view (rb_buf b') r (n + k) = ring_view (rb_buf b) r n @ take k p"
proof -
  let ?L = "length (rb_buf b)"
  have nf: "\<not> rb_isFull b" using at room by (simp add: rb_at_def)
  have avail: "(if rb_w b \<ge> rb_r b then rb_size b - rb_w b + rb_r b else rb_r b - rb_w b) = int (?L - n)"
    by (rule rb_atE [OF at]) (use room in auto)
  have k: "0 < k" "n + k \<le> ?L" "length (take k p) = k" using p room by (auto simp: k_def)
  have cut: "(if int (length p) > int (?L - n) then do {
            p \<leftarrow> go_slice p 0 (int (?L - n));
            Some (p, Some ErrTooManyDataToWrite)
          } else Some (p, None)) =
        Some (take k p, if length p > ?L - n then Some ErrTooManyDataToWrite else None)"
    by (auto simp: k_def go_slice_def min_def)
  from put_ok [OF at, of "take k p"] k obtain buf w where
    put: "rb_put b (take k p) = Some (buf, w)" and len: "length buf = ?L"
      and w: "(if w = rb_size b then 0 else w) = int ((r + (n + k)) mod ?L)"
      and view: "ring_view buf r (n + k) = ring_view (rb_buf b) r n @ take k p" by auto
  let ?w = "if w = rb_size b then 0 else w"
  let ?b = "b\<lparr>rb_buf := buf, rb_w := ?w, rb_isFull := (if ?w = rb_r b then True else rb_isFull b)\<rparr>"
  have "rb_Write b p = Some (int k, if length p > ?L - n then Some ErrTooManyDataToWrite else None, ?b)"
    unfolding rb_Write_def Let_def avail cut using p nf k(3)
    by (simp only: length_0_conv if_False bind.bind_lunit prod.case put)
  moreover have "rb_at ?b r (n + k)" by (rule rb_at_written [OF at k(2,1) len w])
  ultimately show ?thesis using len view by auto
qed

lemma blit_prefix: "length src \<le> length p \<Longrightarrow> blit p 0 src = src @ drop (length src) p"
  by (simp add: blit_def min_def)

lemma two_copies:
  assumes "length s1 + length s2 \<le> length p"
  shows "blit (blit p 0 s1) (length s1) s2 = (s1 @ s2) @ drop (length s1 + length s2) p"
proof -
  have "blit (blit p 0 s1) (0 + length s1) s2 = blit p 0 (s1 @ s2)"
    using assms by (intro blit_blit_append) simp
  with blit_prefix [of "s1 @ s2" p] assms show ?thesis by simp
qed

lemma Read_slice:
  assumes at: "rb_at b r n" and p: "p \<noteq> []" and n: "0 < n"
  defines "k \<equiv> min n (length p)"
  shows "rb_Read b p = Some (ring_view (rb_buf b) r k @ drop k p, int k, None,
    b\<lparr>rb_r := int ((r + k) mod length (rb_buf b)), rb_isFull := False\<rparr>)"
proof -
  let ?L = "length (rb_buf b)"
  from at have b: "rb_size b = int ?L" "r < ?L" "n \<le> ?L" "rb_r b = int r" "rb_isFull b \<longleftrightarrow> n = ?L"
    by (auto simp: rb_at_def)
  have ne: "\<not> (rb_w b = rb_r b \<and> \<not> rb_isFull b)" using rb_IsEmpty_at [OF at] n by simp
  have md: "go_mod (rb_r b + int k) (rb_size b) = Some (int ((r + k) mod ?L))"
    using b(2) unfolding b(1,4) by (subst go_mod_nonneg) (auto simp: zmod_int)
  have one: "go_slice (rb_buf b) (rb_r b) (rb_r b + int k) = Some (ring_view (rb_buf b) r k)"
      "go_copy p 0 (ring_view (rb_buf b) r k) = Some (ring_view (rb_buf b) r k @ drop k p, int k)" if "r + k \<le> ?L"
    using that b by (simp_all add: go_slice_def go_copy_def blit_prefix ring_view_slice k_def)
  have cut: "(if int n > int (length p) then int (length p) else int n) = int k" by (simp add: k_def)
  show ?thesis
  proof (cases "rb_w b > rb_r b")
    case True
    then have w: "rb_w b = int r + int n" "r + n < ?L" 
      by - (rule rb_atE [OF at], auto)+
    then have "rb_w b - rb_r b = int n" "r + k \<le> ?L" "\<not> rb_isFull b" using b by (auto simp: k_def)
    with True ne p md one cut show ?thesis by (simp add: rb_Read_def Let_def)
  next
    case False
    then have w: "rb_w b = int r + int n - int ?L" 
      by - (rule rb_atE [OF at], use n in auto)
    then have len: "rb_size b - rb_r b + rb_w b = int n" using b by simp
    show ?thesis
    proof (cases "r + k \<le> ?L")
      case True
      then have "rb_r b + int k \<le> rb_size b" using b by simp
      with False ne p md one [OF True] cut len show ?thesis by (simp add: rb_Read_def Let_def)
    next
      case over: False
      let ?s1 = "drop r (rb_buf b)"
      let ?s2 = "take (r + k - ?L) (rb_buf b)"
      have "go_slice (rb_buf b) (rb_r b) (rb_size b) = Some ?s1" using b by (simp add: go_slice_def)
      moreover have "go_copy p 0 ?s1 = Some (blit p 0 ?s1, int (?L - r))"
        using over b by (simp add: go_copy_def k_def)
      moreover have "go_slice (rb_buf b) 0 (int k - (rb_size b - rb_r b)) = Some ?s2"
      proof -
        have "int k - (rb_size b - rb_r b) = int (r + k - ?L)" "r + k - ?L \<le> ?L"
          using over b by (simp, simp add: k_def)
        then show ?thesis by (simp only: go_slice_def) simp
      qed
      moreover have "go_copy (blit p 0 ?s1) (rb_size b - rb_r b) ?s2 =
          Some (ring_view (rb_buf b) r k @ drop k p, int (r + k - ?L))"
      proof -
        have l: "length ?s1 + length ?s2 = k" "length ?s1 = nat (rb_size b - rb_r b)" "k \<le> length p"
          using over b by (auto simp: k_def)
        have "ring_view (rb_buf b) r k = ?s1 @ ?s2"
          using over b by (intro ring_view_wrap) (auto simp: k_def)
        with two_copies [of ?s1 ?s2 p] l over b show ?thesis
          by (simp add: go_copy_def)
      qed
      moreover have "\<not> rb_r b + int k \<le> rb_size b" using over b by simp
      ultimately show ?thesis using False ne p md cut len by (simp add: rb_Read_def Let_def)
    qed
  qed
qed

lemma ReadByte_ok:
  assumes at: "rb_at b r n"
  shows "rb_ReadByte b = (if n = 0 then Some (0, Some ErrIsEmpty, b)
    else Some (rb_buf b ! r, None, b\<lparr>rb_r := int ((r + 1) mod length (rb_buf b)), rb_isFull := False\<rparr>))"
proof -
  from at have b: "rb_size b = int (length (rb_buf b))" "r < length (rb_buf b)" "rb_r b = int r"
    by (auto simp: rb_at_def)
  have "(r + 1) mod length (rb_buf b) = (if r + 1 = length (rb_buf b) then 0 else r + 1)"
    using b(2) by (auto simp: mod_if)
  then have "int ((r + 1) mod length (rb_buf b)) = (if int r + 1 = int (length (rb_buf b)) then 0 else int r + 1)"
    by auto
  with b rb_IsEmpty_at [OF at] show ?thesis by (auto simp: rb_ReadByte_def go_nth_def Let_def)
qed

lemma WriteByte_ok:
  assumes at: "rb_at b r n"
  shows "n = length (rb_buf b) \<Longrightarrow> rb_WriteByte b c = Some (Some ErrIsFull, b)"
    "n < length (rb_buf b) \<Longrightarrow> \<exists>b'. rb_WriteByte b c = Some (None, b') \<and> rb_at b' r (n + 1) \<and>
      length (rb_buf b') = length (rb_buf b) \<and> ring_view (rb_buf b') r (n + 1) = ring_view (rb_buf b) r n @ [c]"
proof -
  let ?L = "length (rb_buf b)"
  let ?w = "(r + n) mod ?L"
  from at have b: "rb_size b = int ?L" "r < ?L" "rb_r b = int r" "rb_w b = int ?w" "rb_isFull b \<longleftrightarrow> n = ?L"
    by (auto simp: rb_at_def)
  show "rb_WriteByte b c = Some (Some ErrIsFull, b)" if "n = ?L"
    using that b by (simp add: rb_WriteByte_def)
  assume n: "n < ?L"
  have w: "?w < ?L" using b(2) by (intro mod_less_divisor) auto
  have "(?w + 1) mod ?L = (r + (n + 1)) mod ?L" by (simp only: mod_add_left_eq add.assoc)
  moreover have "(?w + 1) mod ?L = (if ?w + 1 = ?L then 0 else ?w + 1)"
    by (subst wrap_mod [OF w, of 1]) (use w in auto)
  ultimately have w1: "(if rb_w b + 1 = rb_size b then 0 else rb_w b + 1) = int ((r + (n + 1)) mod ?L)"
    using b(1,4) by auto
  let ?b = "b\<lparr>rb_buf := (rb_buf b)[?w := c], rb_w := int ((r + (n + 1)) mod ?L),
    rb_isFull := (if int ((r + (n + 1)) mod ?L) = rb_r b then True else rb_isFull b)\<rparr>"
  have "go_upd (rb_buf b) (rb_w b) c = Some ((rb_buf b)[?w := c])" using b(4) w by (simp add: go_upd_def)
  then have "rb_WriteByte b c = Some (None, ?b)"
    unfolding rb_WriteByte_def Let_def w1 using b(5) n by simp
  moreover have "rb_at ?b r (n + 1)" using n by (intro rb_at_written [OF at]) auto
  moreover have "ring_view (rb_buf ?b) r (n + 1) = ring_view (rb_buf b) r n @ [c]"
    using ring_view_push [OF n, of r c] by simp
  ultimately show "\<exists>b'. rb_WriteByte b c = Some (None, b') \<and> rb_at b' r (n + 1) \<and>
      length (rb_buf b') = ?L \<and> ring_view (rb_buf b') r (n + 1) = ring_view (rb_buf b) r n @ [c]" by auto
qed

lemma New_at: "0 < n \<Longrightarrow> \<exists>b. rb_New n = Some b \<and> rb_at b 0 0 \<and> length (rb_buf b) = nat n \<and> rb_contents b = []"
  by (simp add: rb_New_def go_make_def rb_at_def rb_contents_def rb_Length_def)

lemma Reset_at: "rb_at b r n \<Longrightarrow> rb_at (rb_Reset b) 0 0"
  by (auto simp: rb_at_def rb_Reset_def)

lemma Bytes_ok:
  assumes at: "rb_at b r n"
  shows "rb_Bytes b = Some (ring_view (rb_buf b) r n)"
proof -
  let ?L = "length (rb_buf b)"
  let ?z = "replicate n (0 :: byte)"
  from at have b: "rb_size b = int ?L" "r < ?L" "n \<le> ?L" "rb_r b = int r" "rb_isFull b \<longleftrightarrow> n = ?L"
    by (auto simp: rb_at_def)
  have len: "rb_Length b = int n" by (rule rb_Length_at [OF at])
  have mk: "go_make 0 (int n) = Some ?z" by (simp add: go_make_def)
  have fill: "blit ?z 0 src = src @ drop (length src) ?z" if "length src \<le> n" for src
    using that by (intro blit_prefix) simp
  have wrapped: "go_slice (rb_buf b) (rb_r b) (rb_size b) = Some (drop r (rb_buf b))"
    "go_copy ?z 0 (drop r (rb_buf b)) = Some (blit ?z 0 (drop r (rb_buf b)), int (?L - r))"
    "go_slice (rb_buf b) 0 (int (r + n - ?L)) = Some (take (r + n - ?L) (rb_buf b))"
    "go_copy (blit ?z 0 (drop r (rb_buf b))) (rb_size b - rb_r b) (take (r + n - ?L) (rb_buf b)) =
       Some (ring_view (rb_buf b) r n, int (r + n - ?L))" if rn: "?L \<le> r + n"
  proof -
    show "go_slice (rb_buf b) (rb_r b) (rb_size b) = Some (drop r (rb_buf b))" using b by (simp add: go_slice_def)
    show "go_copy ?z 0 (drop r (rb_buf b)) = Some (blit ?z 0 (drop r (rb_buf b)), int (?L - r))"
      using rn b by (simp add: go_copy_def)
    show "go_slice (rb_buf b) 0 (int (r + n - ?L)) = Some (take (r + n - ?L) (rb_buf b))"
    proof -
      have "r + n - ?L \<le> ?L" using b by simp
      then show ?thesis unfolding go_slice_def by (simp del: of_nat_diff)
    qed
    have "ring_view (rb_buf b) r n = drop r (rb_buf b) @ take (r + n - ?L) (rb_buf b)"
      using rn b by (intro ring_view_wrap) auto
    moreover have "nat (rb_size b - rb_r b) = ?L - r" using b by simp
    ultimately show "go_copy (blit ?z 0 (drop r (rb_buf b))) (rb_size b - rb_r b) (take (r + n - ?L) (rb_buf b)) =
       Some (ring_view (rb_buf b) r n, int (r + n - ?L))"
      using two_copies [of "drop r (rb_buf b)" "take (r + n - ?L) (rb_buf b)" ?z] rn b
      by (simp add: go_copy_def)
  qed
  show ?thesis
  proof (cases "r + n < ?L")
    case True
    then have w: "rb_w b = int r + int n" by - (rule rb_atE [OF at], auto)
    show ?thesis
    proof (cases "n = 0")
      case True
      then show ?thesis using w b by (auto simp: rb_Bytes_def)
    next
      case False
      have "go_slice (rb_buf b) (rb_r b) (rb_w b) = Some (ring_view (rb_buf b) r n)"
        using True b w by (simp add: go_slice_def ring_view_slice)
      moreover have "go_copy ?z 0 (ring_view (rb_buf b) r n) = Some (ring_view (rb_buf b) r n, int n)"
        using fill [of "ring_view (rb_buf b) r n"] by (simp add: go_copy_def)
      moreover have "rb_w b - rb_r b = int n" "rb_w b > rb_r b" using w b False by auto
      ultimately show ?thesis using mk by (simp add: rb_Bytes_def)
    qed
  next
    case False
    then have rn: "?L \<le> r + n" by simp
    have w: "rb_w b = int (r + n - ?L)" by (rule rb_atE [OF at]) (use False in auto)
    have nz: "rb_size b - rb_r b + rb_w b = int n" using w b rn by simp
    have c2: "int n - (rb_size b - rb_r b) = int (r + n - ?L)" using b rn by simp
    show ?thesis
    proof (cases "n = ?L")
      case True
      have "go_from (rb_buf b) (rb_r b) = Some (drop r (rb_buf b))" using b by (simp add: go_from_eq)
      moreover have "rb_w b = rb_r b" "rb_isFull b" "rb_size b = int n" using True w b by auto
      ultimately show ?thesis using mk wrapped [OF rn] w by (simp add: rb_Bytes_def)
    next
      case nf: False
      then have "\<not> rb_w b = rb_r b" "\<not> rb_w b > rb_r b" "\<not> rb_r b + int n < rb_size b" using w b rn by auto
      then show ?thesis using mk wrapped [OF rn] nz c2 by (simp only: rb_Bytes_def Let_def if_False bind.bind_lunit prod.case)
    qed
  qed
qed

section \<open>The byte operations form a bounded queue\<close>

definition rb_cap :: "ring_buffer \<Rightarrow> nat" where
  "rb_cap b = length (rb_buf b)"

definition rb_enq :: "byte \<Rightarrow> ring_buffer \<Rightarrow> (bool \<times> ring_buffer) option" where
  "rb_enq c b = map_option (\<lambda>(e, b). (e = None, b)) (rb_WriteByte b c)"

definition rb_deq :: "ring_buffer \<Rightarrow> (byte option \<times> ring_buffer) option" where
  "rb_deq b = map_option (\<lambda>(c, e, b). (if e = None then Some c else None, b)) (rb_ReadByte b)"

interpretation ring: bounded_fifo rb_inv rb_contents rb_cap rb_enq rb_deq
proof
  fix b c assume "rb_inv b"
  then obtain r n where at: "rb_at b r n" by (auto simp: rb_inv_def)
  then have n: "n \<le> rb_cap b" and cont: "rb_contents b = ring_view (rb_buf b) r n"
    by (auto simp: rb_at_def rb_cap_def rb_contents_at [OF at])
  then show "length (rb_contents b) \<le> rb_cap b" by simp
  show "rb_enq c b = Some (False, b)" if "length (rb_contents b) = rb_cap b"
    using WriteByte_ok(1) [OF at] that cont by (simp add: rb_enq_def rb_cap_def)
  show "\<exists>b'. rb_enq c b = Some (True, b') \<and> rb_inv b' \<and> rb_contents b' = rb_contents b @ [c] \<and> rb_cap b' = rb_cap b"
    if "length (rb_contents b) < rb_cap b"
  proof -
    from WriteByte_ok(2) [OF at, of c] that cont obtain b' where
      "rb_WriteByte b c = Some (None, b')" "rb_at b' r (n + 1)" "rb_cap b' = rb_cap b"
      "ring_view (rb_buf b') r (n + 1) = ring_view (rb_buf b) r n @ [c]" by (auto simp: rb_cap_def)
    with rb_contents_at [OF this(2)] cont show ?thesis by (auto simp: rb_enq_def rb_inv_def)
  qed
  show "rb_deq b = Some (None, b)" if "rb_contents b = []"
    using ReadByte_ok [OF at] that cont by (simp add: rb_deq_def ring_view_def)
  show "\<exists>b'. rb_deq b = Some (Some x, b') \<and> rb_inv b' \<and> rb_contents b' = xs \<and> rb_cap b' = rb_cap b"
    if xs: "rb_contents b = x # xs" for x xs
  proof -
    have n0: "0 < n" and r: "r < length (rb_buf b)" using xs cont at by (auto simp: rb_at_def intro: gr0I)
    let ?b = "b\<lparr>rb_r := int ((r + 1) mod length (rb_buf b)), rb_isFull := False\<rparr>"
    have at': "rb_at ?b ((r + 1) mod length (rb_buf b)) (n - 1)"
      using n0 by (intro rb_at_advance [OF at]) auto
    have "rb_contents b = rb_buf b ! r # ring_view (rb_buf b) (r + 1) (n - 1)"
      unfolding cont by (rule ring_view_Cons [OF n0 r])
    then have "x = rb_buf b ! r" "xs = rb_contents ?b" using xs rb_contents_at [OF at'] by simp_all
    moreover have "rb_deq b = Some (Some (rb_buf b ! r), ?b)"
      using ReadByte_ok [OF at] n0 by (simp add: rb_deq_def)
    ultimately show ?thesis using at' by (auto simp: rb_inv_def rb_cap_def)
  qed
qed

section \<open>Properties\<close>

text \<open>
  C8. \<open>Write\<close> appends to the unread bytes as much of its argument as fits, reports the number
  of bytes written, and reports an error exactly if something was left out: that the buffer was full, or else that there was
  too much to write. It panics for no buffer of positive size.
\<close>

theorem rb_Write_appends:
  assumes "rb_inv b"
  shows "\<exists>k err b'. rb_Write b p = Some (int k, err, b') \<and> rb_inv b' \<and>
    k = min (length p) (nat (rb_Free b)) \<and> rb_contents b' = rb_contents b @ take k p \<and>
    rb_size b' = rb_size b \<and>
    err = (if k = length p then None else if rb_Free b = 0 then Some ErrIsFull else Some ErrTooManyDataToWrite)"
proof -
  from assms obtain r n where at: "rb_at b r n" by (auto simp: rb_inv_def)
  let ?L = "length (rb_buf b)"
  have n: "n \<le> ?L" "rb_isFull b \<longleftrightarrow> n = ?L" "rb_size b = int ?L" using at by (auto simp: rb_at_def)
  have free: "rb_Free b = int (?L - n)" using rb_Free_at [OF at] n by simp
  consider "p = []" | "p \<noteq> []" "n = ?L" | "p \<noteq> []" "n < ?L" using n by linarith
  then show ?thesis
  proof cases
    case 3
    from Write_ok [OF at 3] obtain b' where b': "rb_Write b p = Some (int (min (length p) (?L - n)),
        if length p > ?L - n then Some ErrTooManyDataToWrite else None, b')"
      "rb_at b' r (n + min (length p) (?L - n))" "length (rb_buf b') = ?L"
      "ring_view (rb_buf b') r (n + min (length p) (?L - n)) = ring_view (rb_buf b) r n @ take (min (length p) (?L - n)) p"
      by blast
    have "rb_size b' = int ?L" using b'(2,3) by (simp add: rb_at_def)
    with 3 b' rb_contents_at [OF b'(2)] rb_contents_at [OF at] free n(3) show ?thesis by (auto simp: rb_inv_def)
  qed (use assms n free in \<open>auto simp: rb_Write_def\<close>)
qed

theorem rb_Write_appends_witness:
  "\<exists>b err b'. rb_New 3 = Some b \<and> rb_inv b \<and> rb_Write b [1, 2, 3, 4] = Some (3, err, b') \<and>
     rb_contents b' = [1, 2, 3] \<and> err = Some ErrTooManyDataToWrite"
proof -
  from New_at [of 3] obtain b where b: "rb_New 3 = Some b" "rb_at b 0 0" "rb_contents b = []" "length (rb_buf b) = 3" by auto
  then have inv: "rb_inv b" by (auto simp: rb_inv_def)
  have "rb_Free b = 3" using rb_Free_at [OF b(2)] b(4) by simp
  with rb_Write_appends [OF inv, of "[1, 2, 3, 4]"] b(1,3) inv show ?thesis by (auto simp: min_def)
qed

text \<open>
  C9. \<open>Read\<close> copies the first unread bytes into the caller's slice, as many as both have
  room for, and consumes exactly these; an empty buffer is an error and changes nothing.
\<close>

theorem rb_Read_consumes:
  assumes "rb_inv b" "p \<noteq> []"
  shows "if rb_contents b = [] then rb_Read b p = Some (p, 0, Some ErrIsEmpty, b)
    else \<exists>k b'. rb_Read b p = Some (take k (rb_contents b) @ drop k p, int k, None, b') \<and> rb_inv b' \<and>
      k = min (length p) (length (rb_contents b)) \<and> rb_contents b' = drop k (rb_contents b) \<and>
      rb_size b' = rb_size b"
proof -
  from assms(1) obtain r n where at: "rb_at b r n" by (auto simp: rb_inv_def)
  note cont = rb_contents_at [OF at]
  show ?thesis
  proof (cases "n = 0")
    case True
    then have "rb_contents b = []" using cont by simp
    moreover have "rb_Read b p = Some (p, 0, Some ErrIsEmpty, b)"
      using rb_IsEmpty_at [OF at] True assms(2) by (simp add: rb_Read_def)
    ultimately show ?thesis by simp
  next
    case False
    let ?L = "length (rb_buf b)"
    let ?k = "min n (length p)"
    let ?b = "b\<lparr>rb_r := int ((r + ?k) mod ?L), rb_isFull := False\<rparr>"
    have k: "?k \<le> n" "0 < ?k" using False assms(2) by auto
    have at': "rb_at ?b ((r + ?k) mod ?L) (n - ?k)" by (rule rb_at_advance [OF at k refl])
    have "rb_contents ?b = drop ?k (rb_contents b)"
      using rb_contents_at [OF at'] cont drop_ring_view [OF k(1), of "rb_buf b" r] by simp
    moreover have "rb_Read b p = Some (take ?k (rb_contents b) @ drop ?k p, int ?k, None, ?b)"
      using Read_slice [OF at assms(2)] False cont take_ring_view [OF k(1), of "rb_buf b" r] by simp
    moreover have "length (rb_contents b) = n" using cont by simp
    ultimately show ?thesis using at' False by (auto simp: rb_inv_def min.commute)
  qed
qed

theorem rb_Read_consumes_witness:
  "\<exists>b. rb_New 3 = Some b \<and> rb_inv b \<and> rb_Read b [9, 9] = Some ([9, 9], 0, Some ErrIsEmpty, b)"
proof -
  from New_at [of 3] obtain b where b: "rb_New 3 = Some b" "rb_at b 0 0" "rb_contents b = []" by auto
  then have inv: "rb_inv b" by (auto simp: rb_inv_def)
  with rb_Read_consumes [OF inv, of "[9, 9]"] b show ?thesis by auto
qed

text \<open>
  Any sequence of \<open>WriteByte\<close> and \<open>ReadByte\<close> calls on a new buffer of positive size returns
  what a list of bounded length returns: a byte is refused exactly if the buffer is full, and
  bytes come out in the order they went in.
\<close>

theorem rb_bytes_fifo:
  assumes "0 < n"
  shows "\<exists>b b'. rb_New n = Some b \<and>
    ring.runs ops b = Some (fst (fifo_runs (nat n) ops []), b') \<and>
    rb_contents b' = snd (fifo_runs (nat n) ops [])"
proof -
  from New_at [OF assms] obtain b where b: "rb_New n = Some b" "rb_inv b" "rb_contents b = []" "rb_cap b = nat n"
    by (auto simp: rb_inv_def rb_cap_def)
  with ring.runs_refine [OF b(2), of ops] show ?thesis by auto
qed

theorem rb_bytes_fifo_witness:
  "\<exists>b b'. rb_New 1 = Some b \<and>
     ring.runs [Enq 5, Enq 6, Deq, Deq] b = Some ([Inl True, Inl False, Inr (Some 5), Inr None], b')"
  using rb_bytes_fifo [of 1 "[Enq 5, Enq 6, Deq, Deq]"] by auto

text \<open>
  The observers agree with the contents: \<open>Bytes\<close> is the list of unread bytes, \<open>Length\<close> its
  length, and \<open>Free\<close> is what is left of \<open>Capacity\<close>.
\<close>

theorem rb_observers:
  assumes "rb_inv b"
  shows "rb_Bytes b = Some (rb_contents b) \<and> rb_Length b = int (length (rb_contents b)) \<and>
    rb_Length b + rb_Free b = rb_Capacity b \<and> (rb_IsEmpty b \<longleftrightarrow> rb_contents b = []) \<and>
    (rb_IsFull b \<longleftrightarrow> rb_Free b = 0) \<and> rb_contents (rb_Reset b) = []"
proof -
  from assms obtain r n where at: "rb_at b r n" by (auto simp: rb_inv_def)
  have "rb_IsEmpty b \<longleftrightarrow> n = 0" using rb_IsEmpty_at [OF at] by (auto simp: rb_IsEmpty_def)
  moreover have "rb_contents b = [] \<longleftrightarrow> n = 0" using rb_contents_at [OF at] by (metis length_0_conv length_ring_view)
  moreover have "rb_IsFull b \<longleftrightarrow> n = length (rb_buf b)" "rb_size b = int (length (rb_buf b))"
    using at by (auto simp: rb_at_def rb_IsFull_def)
  ultimately show ?thesis
    using Bytes_ok [OF at] rb_contents_at [OF at] rb_Length_at [OF at] rb_Free_at [OF at]
      rb_contents_at [OF Reset_at [OF at]]
    by (auto simp: rb_Capacity_def)
qed

theorem rb_observers_witness: "\<exists>b. rb_New 3 = Some b \<and> rb_inv b \<and> rb_Bytes b = Some [] \<and> rb_Free b = 3"
proof -
  from New_at [of 3] obtain b where b: "rb_New 3 = Some b" "rb_at b 0 0" "rb_contents b = []" by auto
  then have inv: "rb_inv b" by (auto simp: rb_inv_def)
  have "rb_Capacity b = 3" using b(1) by (auto simp: rb_New_def go_make_def rb_Capacity_def)
  with rb_observers [OF inv] b inv show ?thesis by auto
qed

text \<open>
  A buffer of size 0 can be created, and writing to it makes it full although nothing
  was written; the next \<open>Read\<close> divides by the size and panics.
\<close>

theorem rb_size_zero_panics:
  "\<exists>b b'. rb_New 0 = Some b \<and> rb_Write b [1] = Some (0, Some ErrTooManyDataToWrite, b') \<and>
     rb_isFull b' \<and> rb_Read b' [0] = None"
  by (simp add: rb_New_def go_make_def rb_Write_def rb_put_def rb_Read_def go_slice_def go_copy_def blit_def
      go_mod_def Let_def)

end
