(* ===== verification/Worker_Array.thy ===== *)
theory Worker_Array
  imports Bounded_Fifo
begin

text \<open>
  \<open>ants/worker_array.go\<close>, \<open>ants/worker_loop_queue.go\<close> and \<open>ants/worker_stack.go\<close>: the two
  containers of idle workers behind the interface \<open>workerArray\<close>. A worker is the record
  \<open>worker\<close> (its identity and the time it was put back); a \<open>nil\<close> pointer is \<open>None\<close>. \<open>now\<close> is the
  reading of the clock. Sending \<open>nil\<close> to a worker's task channel, which stops it, is recorded
  in the list of workers that \<open>reset\<close> returns.
\<close>

record worker =
  wk_id :: nat
  wk_recycleTime :: int

datatype worker_error = errQueueIsFull | errQueueIsReleased

text \<open>A worker has expired: \<open>!expiryTime.Before(recycleTime)\<close>.\<close>

definition expired :: "int \<Rightarrow> worker \<Rightarrow> bool" where
  "expired expiryTime w \<longleftrightarrow> \<not> expiryTime < wk_recycleTime w"

section \<open>The circular queue\<close>

record loop_queue =
  lq_items :: "worker option list"
  lq_expiry :: "worker list"
  lq_head :: int
  lq_tail :: int
  lq_size :: int
  lq_isFull :: bool

definition newWorkerLoopQueue :: "int \<Rightarrow> loop_queue option" where
  "newWorkerLoopQueue n = do {
     items \<leftarrow> go_make None n;
     Some \<lparr>lq_items = items, lq_expiry = [], lq_head = 0, lq_tail = 0, lq_size = n, lq_isFull = False\<rparr>
   }"

definition lq_len :: "loop_queue \<Rightarrow> int" where
  "lq_len q =
     (if lq_size q = 0 then 0
      else if lq_head q = lq_tail q then if lq_isFull q then lq_size q else 0
      else if lq_tail q > lq_head q then lq_tail q - lq_head q
      else lq_size q - lq_head q + lq_tail q)"

definition lq_isEmpty :: "loop_queue \<Rightarrow> bool" where
  "lq_isEmpty q \<longleftrightarrow> lq_head q = lq_tail q \<and> \<not> lq_isFull q"

definition lq_insert :: "loop_queue \<Rightarrow> worker \<Rightarrow> (worker_error option \<times> loop_queue) option" where
  "lq_insert q worker =
     (if lq_size q = 0 then Some (Some errQueueIsReleased, q)
      else if lq_isFull q then Some (Some errQueueIsFull, q)
      else do {
        items \<leftarrow> go_upd (lq_items q) (lq_tail q) (Some worker);
        let tail = lq_tail q + 1;
        let tail = (if tail = lq_size q then 0 else tail);
        Some (None, q\<lparr>lq_items := items, lq_tail := tail,
          lq_isFull := (if tail = lq_head q then True else lq_isFull q)\<rparr>)
      })"

definition lq_detach :: "loop_queue \<Rightarrow> (worker option \<times> loop_queue) option" where
  "lq_detach q =
     (if lq_isEmpty q then Some (None, q)
      else do {
        w \<leftarrow> go_nth (lq_items q) (lq_head q);
        items \<leftarrow> go_upd (lq_items q) (lq_head q) None;
        let head = lq_head q + 1;
        let head = (if head = lq_size q then 0 else head);
        Some (w, q\<lparr>lq_items := items, lq_head := head, lq_isFull := False\<rparr>)
      })"

text \<open>The loop of \<open>retrieveExpiry\<close>; \<open>None\<close> is a panic (a nil worker) or a loop that does not end.\<close>

partial_function (option) lq_expire :: "int \<Rightarrow> loop_queue \<Rightarrow> loop_queue option" where
  "lq_expire expiryTime q =
     (if lq_isEmpty q then Some q
      else do {
        w \<leftarrow> go_nth (lq_items q) (lq_head q);
        case w of
          None \<Rightarrow> None
        | Some w \<Rightarrow>
            if expiryTime < wk_recycleTime w then Some q
            else do {
              items \<leftarrow> go_upd (lq_items q) (lq_head q) None;
              let head = lq_head q + 1;
              let head = (if head = lq_size q then 0 else head);
              lq_expire expiryTime (q\<lparr>lq_expiry := lq_expiry q @ [w], lq_items := items,
                lq_head := head, lq_isFull := False\<rparr>)
            }
      })"

declare lq_expire.simps [code]

definition lq_retrieveExpiry :: "loop_queue \<Rightarrow> int \<Rightarrow> int \<Rightarrow> (worker list \<times> loop_queue) option" where
  "lq_retrieveExpiry q duration now =
     (if lq_isEmpty q then Some ([], q)
      else do {
        q \<leftarrow> lq_expire (now - duration) (q\<lparr>lq_expiry := []\<rparr>);
        Some (lq_expiry q, q)
      })"

text \<open>The \<open>Releasing\<close> loop of \<open>reset\<close>: the workers that were sent \<open>nil\<close>.\<close>

partial_function (option) lq_release :: "loop_queue \<Rightarrow> worker list \<Rightarrow> (worker list \<times> loop_queue) option" where
  "lq_release q stopped = do {
     (w, q) \<leftarrow> lq_detach q;
     case w of
       None \<Rightarrow> Some (stopped, q)
     | Some w \<Rightarrow> lq_release q (stopped @ [w])
   }"

declare lq_release.simps [code]

definition lq_reset :: "loop_queue \<Rightarrow> (worker list \<times> loop_queue) option" where
  "lq_reset q =
     (if lq_isEmpty q then Some ([], q)
      else do {
        (stopped, q) \<leftarrow> lq_release q [];
        Some (stopped, q\<lparr>lq_items := [], lq_size := 0, lq_head := 0, lq_tail := 0\<rparr>)
      })"

section \<open>The stack\<close>

text \<open>The slots below the length never hold \<open>nil\<close>: only workers are appended.\<close>

record worker_stack =
  ws_items :: "worker list"
  ws_expiry :: "worker list"
  ws_size :: int

definition newWorkerStack :: "int \<Rightarrow> worker_stack option" where
  "newWorkerStack n = (if 0 \<le> n then Some \<lparr>ws_items = [], ws_expiry = [], ws_size = n\<rparr> else None)"

definition ws_len :: "worker_stack \<Rightarrow> int" where
  "ws_len q = int (length (ws_items q))"

definition ws_isEmpty :: "worker_stack \<Rightarrow> bool" where
  "ws_isEmpty q \<longleftrightarrow> ws_len q = 0"

definition ws_insert :: "worker_stack \<Rightarrow> worker \<Rightarrow> worker_error option \<times> worker_stack" where
  "ws_insert q worker = (None, q\<lparr>ws_items := ws_items q @ [worker]\<rparr>)"

definition ws_detach :: "worker_stack \<Rightarrow> (worker option \<times> worker_stack) option" where
  "ws_detach q =
     (let l = ws_len q
      in if l = 0 then Some (None, q)
         else do {
           w \<leftarrow> go_nth (ws_items q) (l - 1);
           items \<leftarrow> go_slice (ws_items q) 0 (l - 1);
           Some (Some w, q\<lparr>ws_items := items\<rparr>)
         })"

lemma go_mid: "l \<le> r \<Longrightarrow> go_div (l + r) 2 = Some mid \<Longrightarrow> l \<le> mid \<and> mid \<le> r"
  by (auto simp: go_div_def sgn_if abs_if split: if_splits)

function (sequential) ws_binarySearch :: "worker_stack \<Rightarrow> int \<Rightarrow> int \<Rightarrow> int \<Rightarrow> int option" where
  "ws_binarySearch q l r expiryTime =
     (if l \<le> r then do {
        mid \<leftarrow> go_div (l + r) 2;
        w \<leftarrow> go_nth (ws_items q) mid;
        if expiryTime < wk_recycleTime w then ws_binarySearch q l (mid - 1) expiryTime
        else ws_binarySearch q (mid + 1) r expiryTime
      } else Some r)"
  by pat_completeness auto
termination by (relation "measure (\<lambda>(q, l, r, t). nat (r + 1 - l))") (auto dest: go_mid)

definition ws_retrieveExpiry :: "worker_stack \<Rightarrow> int \<Rightarrow> int \<Rightarrow> (worker list \<times> worker_stack) option" where
  "ws_retrieveExpiry q duration now =
     (let n = ws_len q
      in if n = 0 then Some ([], q)
         else do {
           index \<leftarrow> ws_binarySearch q 0 (n - 1) (now - duration);
           if index \<noteq> -1 then do {
             dead \<leftarrow> go_slice (ws_items q) 0 (index + 1);
             live \<leftarrow> go_from (ws_items q) (index + 1);
             (items, m) \<leftarrow> go_copy (ws_items q) 0 live;
             items \<leftarrow> go_slice items 0 m;
             Some (dead, q\<lparr>ws_expiry := dead, ws_items := items\<rparr>)
           } else Some ([], q\<lparr>ws_expiry := []\<rparr>)
         })"

definition ws_reset :: "worker_stack \<Rightarrow> worker list \<times> worker_stack" where
  "ws_reset q = (ws_items q, q\<lparr>ws_items := []\<rparr>)"

section \<open>The circular queue refines a list\<close>

text \<open>The idle workers, from the one waiting longest on, are not \<open>nil\<close>.\<close>

definition lq_at :: "loop_queue \<Rightarrow> nat \<Rightarrow> worker list \<Rightarrow> bool" where
  "lq_at q r ws \<longleftrightarrow> lq_size q = int (length (lq_items q)) \<and>
     ring_at (length (lq_items q)) (lq_head q) (lq_tail q) (lq_isFull q) r (length ws) \<and>
     ring_view (lq_items q) r (length ws) = map Some ws"

definition lq_inv :: "loop_queue \<Rightarrow> bool" where
  "lq_inv q \<longleftrightarrow> (\<exists>r ws. lq_at q r ws)"

definition lq_contents :: "loop_queue \<Rightarrow> worker list" where
  "lq_contents q = map the (ring_view (lq_items q) (nat (lq_head q)) (nat (lq_len q)))"

definition lq_cap :: "loop_queue \<Rightarrow> nat" where
  "lq_cap q = length (lq_items q)"

lemma lq_atD:
  assumes "lq_at q r ws"
  shows "lq_len q = int (length ws)" "lq_contents q = ws" "lq_isEmpty q \<longleftrightarrow> ws = []" "length ws \<le> lq_cap q"
    "0 < length (lq_items q)" "lq_inv q" "lq_head q = int r" "r < length (lq_items q)"
proof -
  from assms have r: "ring_at (length (lq_items q)) (lq_head q) (lq_tail q) (lq_isFull q) r (length ws)"
    "lq_size q = int (length (lq_items q))" "ring_view (lq_items q) r (length ws) = map Some ws"
    by (auto simp: lq_at_def)
  then show L: "0 < length (lq_items q)" "lq_head q = int r" "length ws \<le> lq_cap q" "r < length (lq_items q)"
    by (auto simp: ring_at_def lq_cap_def)
  have nz: "(int (length (lq_items q)) = 0) = False" using L(1) by auto
  show len: "lq_len q = int (length ws)"
    unfolding lq_len_def r(2) nz if_False by (rule ring_at_length [OF r(1)])
  show "lq_contents q = ws" using L(2) len r(3) by (simp add: lq_contents_def comp_def)
  show "lq_isEmpty q \<longleftrightarrow> ws = []" using ring_at_empty [OF r(1)] by (auto simp: lq_isEmpty_def)
  show "lq_inv q" using assms by (auto simp: lq_inv_def)
qed

lemma lq_insert_ok:
  assumes at: "lq_at q r ws"
  shows "length ws = lq_cap q \<Longrightarrow> lq_insert q w = Some (Some errQueueIsFull, q)"
    "length ws < lq_cap q \<Longrightarrow> \<exists>q'. lq_insert q w = Some (None, q') \<and> lq_at q' r (ws @ [w]) \<and> lq_cap q' = lq_cap q"
proof -
  let ?L = "length (lq_items q)"
  from at have r: "ring_at ?L (lq_head q) (lq_tail q) (lq_isFull q) r (length ws)" "lq_size q = int ?L"
    "ring_view (lq_items q) r (length ws) = map Some ws" by (auto simp: lq_at_def)
  show "lq_insert q w = Some (Some errQueueIsFull, q)" if "length ws = lq_cap q"
    using r that lq_atD(5) [OF at] by (auto simp: lq_insert_def ring_at_def lq_cap_def)
  assume n: "length ws < lq_cap q"
  define t where "t = (if lq_tail q + 1 = lq_size q then 0 else lq_tail q + 1)"
  let ?w = "(r + length ws) mod ?L"
  have tl: "lq_tail q = int ?w" "?w < ?L" using r lq_atD(5) [OF at] by (auto simp: ring_at_def)
  then have "go_upd (lq_items q) (lq_tail q) (Some w) = Some ((lq_items q)[?w := Some w])" by (simp add: go_upd_def)
  moreover have "\<not> lq_isFull q" "lq_size q \<noteq> 0" using r n lq_atD(5) [OF at] by (auto simp: ring_at_def lq_cap_def)
  ultimately have "lq_insert q w = Some (None, q\<lparr>lq_items := (lq_items q)[?w := Some w], lq_tail := t,
      lq_isFull := (if t = lq_head q then True else lq_isFull q)\<rparr>)"
    by (simp add: lq_insert_def t_def Let_def)
  moreover have "ring_at ?L (lq_head q) t (if t = lq_head q then True else lq_isFull q) r (length ws + 1)"
    using n r(2) by (intro ring_at_push [OF r(1)]) (auto simp: lq_cap_def t_def)
  moreover have "ring_view ((lq_items q)[?w := Some w]) r (Suc (length ws)) = map Some (ws @ [w])"
    using ring_view_push [of "length ws" "lq_items q" r "Some w"] n r(3) by (simp add: lq_cap_def)
  ultimately show "\<exists>q'. lq_insert q w = Some (None, q') \<and> lq_at q' r (ws @ [w]) \<and> lq_cap q' = lq_cap q"
    using r(2) by (auto simp: lq_at_def lq_cap_def)
qed

text \<open>Taking the head off, as \<open>detach\<close> and \<open>retrieveExpiry\<close> do it.\<close>

definition lq_drop :: "loop_queue \<Rightarrow> loop_queue" where
  "lq_drop q = q\<lparr>lq_items := (lq_items q)[nat (lq_head q) := None],
     lq_head := (if lq_head q + 1 = lq_size q then 0 else lq_head q + 1), lq_isFull := False\<rparr>"

lemma lq_drop_ok:
  assumes at: "lq_at q r (w # ws)"
  shows "go_nth (lq_items q) (lq_head q) = Some (Some w)"
    "go_upd (lq_items q) (lq_head q) None = Some ((lq_items q)[nat (lq_head q) := None])"
    "\<exists>r'. lq_at (lq_drop q) r' ws" "lq_cap (lq_drop q) = lq_cap q"
proof -
  let ?L = "length (lq_items q)"
  from at have r: "ring_at ?L (lq_head q) (lq_tail q) (lq_isFull q) r (Suc (length ws))" "lq_size q = int ?L"
    "ring_view (lq_items q) r (Suc (length ws)) = Some w # map Some ws" by (auto simp: lq_at_def)
  note hd = lq_atD(7,8) [OF at]
  have v: "lq_items q ! r = Some w" "ring_view (lq_items q) (r + 1) (length ws) = map Some ws"
    using ring_view_Cons [of "Suc (length ws)" r "lq_items q"] r(3) hd by auto
  show "go_nth (lq_items q) (lq_head q) = Some (Some w)"
    "go_upd (lq_items q) (lq_head q) None = Some ((lq_items q)[nat (lq_head q) := None])"
    using hd v by (simp_all add: go_nth_def go_upd_def)
  show "lq_cap (lq_drop q) = lq_cap q" by (simp add: lq_cap_def lq_drop_def)
  define h where "h = (if lq_head q + 1 = lq_size q then 0 else lq_head q + 1)"
  have "ring_at ?L h (lq_tail q) False ((r + 1) mod ?L) (length ws)"
    using ring_at_pop(1) [OF r(1), of h] r(2) by (simp add: h_def)
  moreover have "ring_view ((lq_items q)[r := None]) ((r + 1) mod ?L) (length ws) = map Some ws"
  proof -
    have "ring_view ((lq_items q)[r := None]) (r + 1) (length ws) = ring_view (lq_items q) (r + 1) (length ws)"
    proof (rule ring_view_cong)
      fix i assume i: "i < length ws"
      have "Suc i < ?L" using i r(1) by (simp add: ring_at_def)
      then have "(r + 0) mod ?L \<noteq> (r + Suc i) mod ?L" by (intro mod_neq) auto
      then have "(r + 1 + i) mod ?L \<noteq> r" using hd(2) by simp
      then show "(lq_items q)[r := None] ! ((r + 1 + i) mod ?L) = lq_items q ! ((r + 1 + i) mod ?L)" by simp
    qed simp
    with v(2) ring_view_mod [of "(lq_items q)[r := None]" "r + 1"] show ?thesis by simp
  qed
  ultimately show "\<exists>r'. lq_at (lq_drop q) r' ws" using r(2) hd(1)
    by (intro exI [of _ "(r + 1) mod ?L"]) (simp add: lq_at_def lq_drop_def h_def)
qed

lemma lq_detach_ok:
  assumes "lq_at q r ws"
  shows "lq_detach q = (case ws of [] \<Rightarrow> Some (None, q) | w # _ \<Rightarrow> Some (Some w, lq_drop q))"
proof (cases ws)
  case Nil
  then show ?thesis using lq_atD(3) [OF assms] by (simp add: lq_detach_def)
next
  case (Cons w ws')
  with lq_drop_ok(1,2) [of q r w ws'] assms lq_atD(3) [OF assms] show ?thesis
    by (simp add: lq_detach_def lq_drop_def Let_def)
qed

definition lq_enq :: "worker \<Rightarrow> loop_queue \<Rightarrow> (bool \<times> loop_queue) option" where
  "lq_enq w q = map_option (\<lambda>(e, q). (e = None, q)) (lq_insert q w)"

interpretation idle: bounded_fifo lq_inv lq_contents lq_cap lq_enq lq_detach
proof
  fix q w assume "lq_inv q"
  then obtain r ws where at: "lq_at q r ws" by (auto simp: lq_inv_def)
  note cont = lq_atD(2) [OF at]
  show "length (lq_contents q) \<le> lq_cap q" using cont lq_atD(4) [OF at] by simp
  show "lq_enq w q = Some (False, q)" if "length (lq_contents q) = lq_cap q"
    using lq_insert_ok(1) [OF at] that cont by (simp add: lq_enq_def)
  show "\<exists>q'. lq_enq w q = Some (True, q') \<and> lq_inv q' \<and> lq_contents q' = lq_contents q @ [w] \<and> lq_cap q' = lq_cap q"
    if "length (lq_contents q) < lq_cap q"
  proof -
    from lq_insert_ok(2) [OF at] that cont obtain q' where
      "lq_insert q w = Some (None, q')" "lq_at q' r (ws @ [w])" "lq_cap q' = lq_cap q" by auto
    with lq_atD(2,6) [OF this(2)] cont show ?thesis by (auto simp: lq_enq_def)
  qed
  show "lq_detach q = Some (None, q)" if "lq_contents q = []"
    using lq_detach_ok [OF at] that cont by simp
  show "\<exists>q'. lq_detach q = Some (Some x, q') \<and> lq_inv q' \<and> lq_contents q' = xs \<and> lq_cap q' = lq_cap q"
    if "lq_contents q = x # xs" for x xs
  proof -
    have ws: "ws = x # xs" using that cont by simp
    with lq_drop_ok(3,4) [of q r x xs] at obtain r' where
      "lq_at (lq_drop q) r' xs" "lq_cap (lq_drop q) = lq_cap q" by blast
    with lq_atD(2,6) [OF this(1)] lq_detach_ok [OF at] ws show ?thesis by auto
  qed
qed

section \<open>Expiry and release\<close>

lemma lq_expire_ok:
  assumes "lq_at q r ws"
  shows "\<exists>q' r'. lq_expire t q = Some q' \<and> lq_at q' r' (dropWhile (expired t) ws) \<and>
    lq_expiry q' = lq_expiry q @ takeWhile (expired t) ws \<and> lq_cap q' = lq_cap q"
  using assms
proof (induction ws arbitrary: q r)
  case Nil
  then have "lq_expire t q = Some q" using lq_atD(3) [OF Nil] by (subst lq_expire.simps) simp
  with Nil show ?case by auto
next
  case (Cons w ws)
  note d = lq_drop_ok [OF Cons.prems]
  have ne: "\<not> lq_isEmpty q" using lq_atD(3) [OF Cons.prems] by simp
  show ?case
  proof (cases "expired t w")
    case False
    then have "lq_expire t q = Some q" using ne d(1) by (subst lq_expire.simps) (simp add: expired_def)
    with Cons.prems False show ?thesis by auto
  next
    case True
    let ?e = "q\<lparr>lq_expiry := lq_expiry q @ [w]\<rparr>"
    let ?q = "lq_drop ?e"
    have "lq_at ?e r (w # ws)" using Cons.prems by (simp add: lq_at_def)
    note e = lq_drop_ok(3,4) [OF this]
    have "lq_expire t q = lq_expire t ?q"
      using ne d(1,2) True by (subst lq_expire.simps) (simp add: expired_def lq_drop_def Let_def)
    moreover from e(1) obtain r' where "lq_at ?q r' ws" by blast
    from Cons.IH [OF this] obtain q' r'' where "lq_expire t ?q = Some q'"
      "lq_at q' r'' (dropWhile (expired t) ws)" "lq_expiry q' = lq_expiry ?q @ takeWhile (expired t) ws"
      "lq_cap q' = lq_cap ?q" by blast
    moreover have "lq_cap ?q = lq_cap q" using e(2) by (simp add: lq_cap_def)
    moreover have "lq_expiry ?q = lq_expiry q @ [w]" by (simp add: lq_drop_def)
    ultimately show ?thesis using True by auto
  qed
qed

lemma lq_release_ok:
  assumes "lq_at q r ws"
  shows "\<exists>q' r'. lq_release q acc = Some (acc @ ws, q') \<and> lq_at q' r' []"
  using assms
proof (induction ws arbitrary: q r acc)
  case Nil
  then have "lq_release q acc = Some (acc, q)" using lq_detach_ok [OF Nil] by (subst lq_release.simps) simp
  with Nil show ?case by auto
next
  case (Cons w ws)
  from lq_drop_ok(3) [OF Cons.prems] obtain r' where "lq_at (lq_drop q) r' ws" by blast
  from Cons.IH [OF this, of "acc @ [w]"] obtain q' r'' where
    "lq_release (lq_drop q) (acc @ [w]) = Some (acc @ w # ws, q')" "lq_at q' r'' []" by auto
  moreover have "lq_release q acc = lq_release (lq_drop q) (acc @ [w])"
    using lq_detach_ok [OF Cons.prems] by (subst lq_release.simps) simp
  ultimately show ?case by auto
qed

text \<open>The binary search on a stack sorted by recycle time.\<close>

definition by_age :: "worker list \<Rightarrow> bool" where
  "by_age ws \<longleftrightarrow> sorted (map wk_recycleTime ws)"

lemma by_age_nth: "by_age ws \<Longrightarrow> i \<le> j \<Longrightarrow> j < length ws \<Longrightarrow> expired t (ws ! j) \<Longrightarrow> expired t (ws ! i)"
  using sorted_nth_mono [of "map wk_recycleTime ws" i j] by (auto simp: by_age_def expired_def)

lemma binarySearch_ok:
  assumes "by_age (ws_items q)" "0 \<le> l" "r < int (length (ws_items q))" "l \<le> r + 1"
    "\<And>i. 0 \<le> i \<Longrightarrow> i < l \<Longrightarrow> expired t (ws_items q ! nat i)"
    "\<And>i. r < i \<Longrightarrow> i < int (length (ws_items q)) \<Longrightarrow> \<not> expired t (ws_items q ! nat i)"
  shows "\<exists>k. ws_binarySearch q l r t = Some k \<and> -1 \<le> k \<and> k < int (length (ws_items q)) \<and>
    (\<forall>i. 0 \<le> i \<longrightarrow> i \<le> k \<longrightarrow> expired t (ws_items q ! nat i)) \<and>
    (\<forall>i. k < i \<longrightarrow> i < int (length (ws_items q)) \<longrightarrow> \<not> expired t (ws_items q ! nat i))"
  using assms
proof (induction q l r t rule: ws_binarySearch.induct)
  case (1 q l r t)
  show ?case
  proof (cases "l \<le> r")
    case False
    with "1.prems" have "r = l - 1" by simp
    with False "1.prems" show ?thesis by auto
  next
    case True
    define mid where "mid = (l + r) div 2"
    have d: "go_div (l + r) 2 = Some mid" using True "1.prems"(2) by (simp add: go_div_nonneg mid_def)
    have m: "l \<le> mid" "mid \<le> r" using go_mid [OF True d] by auto
    let ?w = "ws_items q ! nat mid"
    have n: "go_nth (ws_items q) mid = Some ?w" using m "1.prems" by (simp add: go_nth_def)
    show ?thesis
    proof (cases "expired t ?w")
      case False
      then have lt: "t < wk_recycleTime ?w" by (simp add: expired_def)
      have step: "ws_binarySearch q l r t = ws_binarySearch q l (mid - 1) t"
        using True d n lt by simp
      have "\<not> expired t (ws_items q ! nat i)" if "mid - 1 < i" "i < int (length (ws_items q))" for i
        using by_age_nth [OF "1.prems"(1), of "nat mid" "nat i" t] False that m "1.prems"(2)
        by (auto simp: nat_le_iff nat_less_iff)
      with "1.IH"(1) [OF True d n lt "1.prems"(1,2)] "1.prems"(3,5) m step show ?thesis by simp
    next
      case ex: True
      then have ge: "\<not> t < wk_recycleTime ?w" by (simp add: expired_def)
      have step: "ws_binarySearch q l r t = ws_binarySearch q (mid + 1) r t"
        using True d n ge by simp
      have "expired t (ws_items q ! nat i)" if "0 \<le> i" "i < mid + 1" for i
        using by_age_nth [OF "1.prems"(1), of "nat i" "nat mid" t] ex that m "1.prems"(3)
        by (auto simp: nat_le_iff nat_less_iff)
      with "1.IH"(2) [OF True d n ge "1.prems"(1)] "1.prems"(2,3,6) m step show ?thesis by simp
    qed
  qed
qed

lemma split_while:
  "\<forall>x \<in> set xs. P x \<Longrightarrow> ys = [] \<or> \<not> P (hd ys) \<Longrightarrow> takeWhile P (xs @ ys) = xs \<and> dropWhile P (xs @ ys) = ys"
  by (induction xs) (cases ys; auto)+

lemma split_at_index:
  assumes "k \<le> length ws" "\<And>i. i < k \<Longrightarrow> P (ws ! i)" "k < length ws \<Longrightarrow> \<not> P (ws ! k)"
  shows "takeWhile P ws = take k ws" "dropWhile P ws = drop k ws"
proof -
  have "\<forall>x \<in> set (take k ws). P x" using assms(1,2) by (auto simp: in_set_conv_nth)
  moreover have "drop k ws = [] \<or> \<not> P (hd (drop k ws))"
    using assms(3) by (cases "k < length ws") (auto simp: hd_drop_conv_nth)
  ultimately show "takeWhile P ws = take k ws" "dropWhile P ws = drop k ws"
    using split_while [of "take k ws" P "drop k ws"] by simp_all
qed

lemma ws_retrieve_ok:
  assumes "by_age (ws_items q)"
  shows "\<exists>q'. ws_retrieveExpiry q duration now = Some (takeWhile (expired (now - duration)) (ws_items q), q') \<and>
    ws_items q' = dropWhile (expired (now - duration)) (ws_items q)"
proof (cases "ws_items q = []")
  case True
  then show ?thesis by (simp add: ws_retrieveExpiry_def ws_len_def)
next
  case False
  let ?t = "now - duration"
  let ?n = "length (ws_items q)"
  from binarySearch_ok [OF assms, of 0 "int ?n - 1" ?t] obtain k where
    k: "ws_binarySearch q 0 (int ?n - 1) ?t = Some k" "-1 \<le> k" "k < int ?n"
      "\<And>i. 0 \<le> i \<Longrightarrow> i \<le> k \<Longrightarrow> expired ?t (ws_items q ! nat i)"
      "\<And>i. k < i \<Longrightarrow> i < int ?n \<Longrightarrow> \<not> expired ?t (ws_items q ! nat i)" by auto
  define m where "m = nat (k + 1)"
  have m: "k = int m - 1" "m \<le> ?n" using k(2,3) by (auto simp: m_def)
  have sp: "takeWhile (expired ?t) (ws_items q) = take m (ws_items q)"
    "dropWhile (expired ?t) (ws_items q) = drop m (ws_items q)"
    using split_at_index [OF m(2), of "expired ?t"] k(4) [of "int _"] k(5) [of "int m"] m by auto
  show ?thesis
  proof (cases "m = 0")
    case True
    then show ?thesis using k(1) m False sp by (simp add: ws_retrieveExpiry_def ws_len_def)
  next
    case m0: False
    let ?live = "drop m (ws_items q)"
    have "go_slice (ws_items q) 0 (int m) = Some (take m (ws_items q))" "go_from (ws_items q) (int m) = Some ?live"
      using m by (simp_all add: go_slice_def go_from_eq)
    moreover have "go_copy (ws_items q) 0 ?live = Some (?live @ drop (?n - m) (ws_items q), int (?n - m))"
      using m by (simp add: go_copy_def blit_def)
    moreover have "go_slice (?live @ drop (?n - m) (ws_items q)) 0 (int (?n - m)) = Some ?live"
      using m by (simp add: go_slice_def)
    ultimately show ?thesis using k(1) m m0 False sp by (simp add: ws_retrieveExpiry_def ws_len_def Let_def)
  qed
qed

section \<open>Properties\<close>

text \<open>
  C10. The circular worker queue refines a list of bounded length: any sequence of inserts and
  detaches returns what the list returns; workers leave in the order they came and an insert
  fails exactly if the queue is full.
\<close>

theorem loop_queue_fifo:
  assumes "0 < n"
  shows "\<exists>q q'. newWorkerLoopQueue n = Some q \<and> idle.runs ops q = Some (fst (fifo_runs (nat n) ops []), q') \<and>
    lq_contents q' = snd (fifo_runs (nat n) ops [])"
proof -
  let ?q = "\<lparr>lq_items = replicate (nat n) None, lq_expiry = [], lq_head = 0, lq_tail = 0, lq_size = n, lq_isFull = False\<rparr>"
  have q: "newWorkerLoopQueue n = Some ?q" using assms by (simp add: newWorkerLoopQueue_def go_make_def)
  have at: "lq_at ?q 0 []" using assms by (simp add: lq_at_def ring_at_def)
  have "lq_cap ?q = nat n" by (simp add: lq_cap_def)
  with idle.runs_refine [OF lq_atD(6) [OF at], of ops] lq_atD(2) [OF at] q show ?thesis by auto
qed

theorem loop_queue_fifo_witness:
  "\<exists>q q'. newWorkerLoopQueue 1 = Some q \<and>
     idle.runs [Enq \<lparr>wk_id = 1, wk_recycleTime = 5\<rparr>, Enq \<lparr>wk_id = 2, wk_recycleTime = 6\<rparr>, Deq, Deq] q =
       Some ([Inl True, Inl False, Inr (Some \<lparr>wk_id = 1, wk_recycleTime = 5\<rparr>), Inr None], q')"
  using loop_queue_fifo [of 1 "[Enq \<lparr>wk_id = 1, wk_recycleTime = 5\<rparr>, Enq \<lparr>wk_id = 2, wk_recycleTime = 6\<rparr>, Deq, Deq]"]
  by auto

text \<open>
  Both containers implement \<open>retrieveExpiry\<close> alike, the queue by walking from its head and
  the stack by binary search: on workers ordered by recycle time they return exactly the
  expired ones and keep exactly the others.
\<close>

theorem retrieveExpiry_equiv:
  assumes "lq_inv q" "lq_contents q = ws" "ws_items s = ws" "by_age ws"
  shows "\<exists>q' s'. lq_retrieveExpiry q duration now = Some (filter (expired (now - duration)) ws, q') \<and>
    ws_retrieveExpiry s duration now = Some (filter (expired (now - duration)) ws, s') \<and>
    lq_contents q' = filter (\<lambda>w. \<not> expired (now - duration) w) ws \<and> lq_inv q' \<and>
    ws_items s' = filter (\<lambda>w. \<not> expired (now - duration) w) ws"
proof -
  let ?e = "expired (now - duration)"
  from assms(1,2) obtain r where at: "lq_at q r ws" using lq_atD(2) by (auto simp: lq_inv_def)
  have f: "takeWhile ?e ws = filter ?e ws \<and> dropWhile ?e ws = filter (\<lambda>w. \<not> ?e w) ws"
    using assms(4)
  proof (induction ws)
    case (Cons w ws)
    then have "\<forall>x \<in> set ws. ?e x \<longrightarrow> ?e w" "by_age ws" by (auto simp: by_age_def expired_def)
    with Cons.IH show ?case by (cases "?e w") (auto simp: filter_empty_conv intro!: filter_True [symmetric])
  qed simp
  have "lq_at (q\<lparr>lq_expiry := []\<rparr>) r ws" using at by (simp add: lq_at_def)
  from lq_expire_ok [OF this, of "now - duration"] obtain q' r' where
    q': "lq_expire (now - duration) (q\<lparr>lq_expiry := []\<rparr>) = Some q'" "lq_at q' r' (dropWhile ?e ws)"
      "lq_expiry q' = takeWhile ?e ws" by auto
  have "\<exists>q'. lq_retrieveExpiry q duration now = Some (takeWhile ?e ws, q') \<and> lq_contents q' = dropWhile ?e ws \<and> lq_inv q'"
  proof (cases "ws = []")
    case True
    then show ?thesis using lq_atD(2,3,6) [OF at] by (simp add: lq_retrieveExpiry_def)
  next
    case False
    then show ?thesis using q' lq_atD(2,6) [OF q'(2)] lq_atD(3) [OF at] by (simp add: lq_retrieveExpiry_def)
  qed
  with ws_retrieve_ok [of s duration now] assms(3,4) f show ?thesis by auto
qed

lemma demo_queue_inv:
  "lq_inv \<lparr>lq_items = [Some \<lparr>wk_id = 1, wk_recycleTime = 5\<rparr>, None], lq_expiry = [], lq_head = 0, lq_tail = 1,
     lq_size = 2, lq_isFull = False\<rparr>" (is "lq_inv ?q")
  "lq_contents \<lparr>lq_items = [Some \<lparr>wk_id = 1, wk_recycleTime = 5\<rparr>, None], lq_expiry = [], lq_head = 0, lq_tail = 1,
     lq_size = 2, lq_isFull = False\<rparr> = [\<lparr>wk_id = 1, wk_recycleTime = 5\<rparr>]"
proof -
  have "lq_at ?q 0 [\<lparr>wk_id = 1, wk_recycleTime = 5\<rparr>]" by (simp add: lq_at_def ring_at_def ring_view_def)
  from lq_atD(2,6) [OF this] show "lq_inv ?q" "lq_contents ?q = [\<lparr>wk_id = 1, wk_recycleTime = 5\<rparr>]" by blast+
qed

theorem retrieveExpiry_equiv_witness:
  "\<exists>q' s'. lq_retrieveExpiry \<lparr>lq_items = [Some \<lparr>wk_id = 1, wk_recycleTime = 5\<rparr>, None], lq_expiry = [], lq_head = 0,
       lq_tail = 1, lq_size = 2, lq_isFull = False\<rparr> 10 20 = Some ([\<lparr>wk_id = 1, wk_recycleTime = 5\<rparr>], q') \<and>
     ws_retrieveExpiry \<lparr>ws_items = [\<lparr>wk_id = 1, wk_recycleTime = 5\<rparr>], ws_expiry = [], ws_size = 2\<rparr> 10 20 =
       Some ([\<lparr>wk_id = 1, wk_recycleTime = 5\<rparr>], s')"
  using retrieveExpiry_equiv [OF demo_queue_inv, of "\<lparr>ws_items = [\<lparr>wk_id = 1, wk_recycleTime = 5\<rparr>], ws_expiry = [], ws_size = 2\<rparr>" 10 20]
  by (auto simp: by_age_def expired_def)

text \<open>
  \<open>reset\<close> stops every idle worker exactly once, in queue order, and releases the queue: later
  inserts are refused. An empty queue, however, is left as it is and still accepts workers.
\<close>

theorem loop_queue_reset:
  assumes "lq_inv q"
  shows "\<exists>q'. lq_reset q = Some (lq_contents q, q') \<and>
    (if lq_contents q = [] then q' = q
     else lq_isEmpty q' \<and> lq_insert q' w = Some (Some errQueueIsReleased, q'))"
proof -
  from assms obtain r ws where at: "lq_at q r ws" by (auto simp: lq_inv_def)
  note c = lq_atD(2,3) [OF at]
  show ?thesis
  proof (cases "ws = []")
    case True
    then show ?thesis using c by (simp add: lq_reset_def)
  next
    case False
    from lq_release_ok [OF at, of "[]"] obtain q' r' where
      q': "lq_release q [] = Some (ws, q')" "lq_at q' r' []" by auto
    moreover have "\<not> lq_isFull q'" using lq_atD(3) [OF q'(2)] by (simp add: lq_isEmpty_def)
    ultimately show ?thesis using False c by (simp add: lq_reset_def lq_insert_def lq_isEmpty_def)
  qed
qed

theorem loop_queue_reset_witness:
  "\<exists>q'. lq_reset \<lparr>lq_items = [Some \<lparr>wk_id = 1, wk_recycleTime = 5\<rparr>, None], lq_expiry = [], lq_head = 0,
     lq_tail = 1, lq_size = 2, lq_isFull = False\<rparr> = Some ([\<lparr>wk_id = 1, wk_recycleTime = 5\<rparr>], q') \<and> lq_isEmpty q'"
  using loop_queue_reset [OF demo_queue_inv(1)] demo_queue_inv(2) by auto

end
