(* ===== verification/Ants_Pool.thy ===== *)
theory Ants_Pool
  imports Worker_Array
begin

text \<open>
  \<open>ants/pool.go\<close> and \<open>ants/worker.go\<close>: a pool of goroutines as a concurrent program. The goroutines are those that call
  \<open>Submit\<close>, the workers, the scavengers and those that call \<open>Release\<close>; each is at one of the points
  where another one can interfere, and a critical section under \<open>p.lock\<close> is one step, except that \<open>cond.Wait\<close> is a step of its own
  while the lock is held, since the workers change the number of running workers and signal without the lock.
  A task is the number of the call of \<open>Submit\<close>. The task channel of a worker has room for one task; the unbuffered channel of a single
  processor is the case in which the worker receives at once. The number of running workers is an integer, the capacity
  is cut to 32 bits as in the code. The clock is an argument.
\<close>

section \<open>worker\_array.go\<close>

datatype worker_array = Stack worker_stack | Loop loop_queue

definition newWorkerArray :: "bool \<Rightarrow> int \<Rightarrow> worker_array option" where
  "newWorkerArray loop n = (if loop then map_option Loop (newWorkerLoopQueue n) else map_option Stack (newWorkerStack n))"

definition wa_insert :: "worker_array \<Rightarrow> worker \<Rightarrow> (worker_error option \<times> worker_array) option" where
  "wa_insert a w =
     (case a of
        Stack q \<Rightarrow> (case ws_insert q w of (e, q) \<Rightarrow> Some (e, Stack q))
      | Loop q \<Rightarrow> map_option (\<lambda>(e, q). (e, Loop q)) (lq_insert q w))"

definition wa_detach :: "worker_array \<Rightarrow> (worker option \<times> worker_array) option" where
  "wa_detach a =
     (case a of
        Stack q \<Rightarrow> map_option (\<lambda>(w, q). (w, Stack q)) (ws_detach q)
      | Loop q \<Rightarrow> map_option (\<lambda>(w, q). (w, Loop q)) (lq_detach q))"

definition wa_retrieveExpiry :: "worker_array \<Rightarrow> int \<Rightarrow> int \<Rightarrow> (worker list \<times> worker_array) option" where
  "wa_retrieveExpiry a duration now =
     (case a of
        Stack q \<Rightarrow> map_option (\<lambda>(ws, q). (ws, Stack q)) (ws_retrieveExpiry q duration now)
      | Loop q \<Rightarrow> map_option (\<lambda>(ws, q). (ws, Loop q)) (lq_retrieveExpiry q duration now))"

definition wa_reset :: "worker_array \<Rightarrow> (worker list \<times> worker_array) option" where
  "wa_reset a =
     (case a of
        Stack q \<Rightarrow> (case ws_reset q of (ws, q) \<Rightarrow> Some (ws, Stack q))
      | Loop q \<Rightarrow> map_option (\<lambda>(ws, q). (ws, Loop q)) (lq_reset q))"

section \<open>The state\<close>

datatype ants_error = ErrPoolClosed | ErrPoolOverload | ErrInvalidPoolExpiry | ErrInvalidPreAllocSize

record options =
  o_ExpiryDuration :: int
  o_PreAlloc :: bool
  o_MaxBlockingTasks :: int
  o_Nonblocking :: bool

text \<open>A call of \<open>Submit\<close>: in front of the first critical section of \<open>retrieveWorker\<close>, about to spawn a worker, about to wait with the
  lock held, waiting, woken up, in front of the test of the state after it found no worker running, about to send the task to the worker it got, or returned. The waiting calls keep the
  capacity they have read.\<close>

datatype sub_pc =
  SNone | STry | SSpawn | SToWait int | SWaiting int | SWoken int | SNoWorker | SSend nat | SAccepted | SFailed ants_error

text \<open>The goroutine of a worker: not started or ended, receiving from its channel, running a task, at the
  start of \<open>revertWorker\<close>, in front of its critical section, or in the deferred function.\<close>

datatype wk_pc = WDead | WRecv | WRun nat | WRevert | WInsert int | WExit

text \<open>In the channel \<open>None\<close> is the nil that stops the worker.\<close>

record wk =
  wk_pc :: wk_pc
  wk_chan :: "nat option list"

text \<open>\<open>an_waiting\<close> is the list of the goroutines in \<open>cond.Wait\<close>, \<open>an_signals\<close> the number of workers that have yet to signal before
  they end, \<open>an_expiring\<close> the workers to which a scavenger will send nil. \<open>an_purgers\<close> counts the scavengers that wait for the
  next tick, \<open>an_purging\<close> those that have retrieved workers; \<open>an_resetting\<close> and \<open>an_broadcasting\<close> the calls of \<open>Release\<close>
  in front of their second and third part. \<open>an_done\<close> logs the tasks that have been executed.\<close>

record ants =
  an_options :: options
  an_capacity :: int
  an_running :: int
  an_workers :: worker_array
  an_closed :: bool
  an_blockingNum :: int
  an_lock :: "nat option"
  an_waiting :: "nat list"
  an_signals :: nat
  an_cache :: "nat list"
  an_next :: nat
  an_subs :: "nat \<Rightarrow> sub_pc"
  an_wk :: "nat \<Rightarrow> wk"
  an_expiring :: "nat list"
  an_purgers :: nat
  an_purging :: nat
  an_resetting :: nat
  an_broadcasting :: nat
  an_done :: "nat list"

text \<open>The conversion \<open>int32(size)\<close>.\<close>

definition s32 :: "int \<Rightarrow> int" where
  "s32 x = signed_take_bit 31 x"

definition NewPool :: "int \<Rightarrow> options \<Rightarrow> (ants_error + ants) option" where
  "NewPool n opts =
     (let n = (if n \<le> 0 then -1 else n)
      in if o_ExpiryDuration opts < 0 then Some (Inl ErrInvalidPoolExpiry)
         else let opts = (if o_ExpiryDuration opts = 0 then opts\<lparr>o_ExpiryDuration := 1000000000\<rparr> else opts)
           in if o_PreAlloc opts \<and> n = -1 then Some (Inl ErrInvalidPreAllocSize)
              else do {
                ws \<leftarrow> (if o_PreAlloc opts then newWorkerArray True n else newWorkerArray False 0);
                Some (Inr \<lparr>an_options = opts, an_capacity = s32 n, an_running = 0, an_workers = ws, an_closed = False,
                  an_blockingNum = 0, an_lock = None, an_waiting = [], an_signals = 0, an_cache = [], an_next = 0,
                  an_subs = (\<lambda>_. SNone), an_wk = (\<lambda>_. \<lparr>wk_pc = WDead, wk_chan = []\<rparr>), an_expiring = [], an_purgers = 1,
                  an_purging = 0, an_resetting = 0, an_broadcasting = 0, an_done = []\<rparr>)
              })"

definition set_sub :: "nat \<Rightarrow> sub_pc \<Rightarrow> ants \<Rightarrow> ants" where
  "set_sub t pc s = s\<lparr>an_subs := (an_subs s)(t := pc)\<rparr>"

definition set_wk :: "nat \<Rightarrow> wk_pc \<Rightarrow> nat option list \<Rightarrow> ants \<Rightarrow> ants" where
  "set_wk w pc ch s = s\<lparr>an_wk := (an_wk s)(w := \<lparr>wk_pc = pc, wk_chan = ch\<rparr>)\<rparr>"

section \<open>Condition variable\<close>

definition woken :: "sub_pc \<Rightarrow> sub_pc" where
  "woken pc = (case pc of SWaiting c \<Rightarrow> SWoken c | _ \<Rightarrow> pc)"

definition Signal :: "ants \<Rightarrow> ants" where
  "Signal s =
     (case an_waiting s of
        [] \<Rightarrow> s
      | t # ts \<Rightarrow> s\<lparr>an_waiting := ts, an_subs := (an_subs s)(t := woken (an_subs s t))\<rparr>)"

definition Broadcast :: "ants \<Rightarrow> ants" where
  "Broadcast s = s\<lparr>an_waiting := [], an_subs := (\<lambda>t. if t \<in> set (an_waiting s) then woken (an_subs s t) else an_subs s t)\<rparr>"

section \<open>Submit\<close>

definition Submit_begin :: "nat \<Rightarrow> ants \<Rightarrow> ants" where
  "Submit_begin t s = set_sub t (if an_closed s then SFailed ErrPoolClosed else STry) s"

text \<open>The label \<open>retry\<close>, with the lock held.\<close>

definition retry :: "nat \<Rightarrow> int \<Rightarrow> ants \<Rightarrow> ants" where
  "retry t cap s =
     (if o_MaxBlockingTasks (an_options s) \<noteq> 0 \<and> an_blockingNum s \<ge> o_MaxBlockingTasks (an_options s)
      then set_sub t (SFailed ErrPoolOverload) s
      else set_sub t (SToWait cap) (s\<lparr>an_blockingNum := an_blockingNum s + 1, an_lock := Some t\<rparr>))"

text \<open>\<open>retrieveWorker\<close> from its start.\<close>

definition retrieve_first :: "nat \<Rightarrow> ants \<Rightarrow> ants option" where
  "retrieve_first t s = do {
     (w, ws) \<leftarrow> wa_detach (an_workers s);
     let s = s\<lparr>an_workers := ws\<rparr>;
     Some (case w of
       Some w \<Rightarrow> set_sub t (SSend (wk_id w)) s
     | None \<Rightarrow>
         let capacity = an_capacity s
         in if capacity = -1 \<or> capacity > an_running s then set_sub t SSpawn s
            else if o_Nonblocking (an_options s) then set_sub t (SFailed ErrPoolOverload) s
            else retry t capacity s)
   }"

definition cond_Wait :: "nat \<Rightarrow> int \<Rightarrow> ants \<Rightarrow> ants" where
  "cond_Wait t cap s = set_sub t (SWaiting cap) (s\<lparr>an_waiting := an_waiting s @ [t], an_lock := None\<rparr>)"

text \<open>\<open>retrieveWorker\<close> after it was woken up.\<close>

definition retrieve_again :: "nat \<Rightarrow> int \<Rightarrow> ants \<Rightarrow> ants option" where
  "retrieve_again t cap s =
     (let s = s\<lparr>an_blockingNum := an_blockingNum s - 1\<rparr>;
          nw = an_running s
      in if nw = 0 then Some (set_sub t SNoWorker s)
         else do {
           (w, ws) \<leftarrow> wa_detach (an_workers s);
           let s = s\<lparr>an_workers := ws\<rparr>;
           Some (case w of
             Some w \<Rightarrow> set_sub t (SSend (wk_id w)) s
           | None \<Rightarrow> if nw < cap then set_sub t SSpawn s else retry t cap s)
         })"

definition retrieve_last :: "nat \<Rightarrow> ants \<Rightarrow> ants" where
  "retrieve_last t s = set_sub t (if \<not> an_closed s then SSpawn else SFailed ErrPoolOverload) s"

text \<open>\<open>spawnWorker\<close>: \<open>workerCache.Get\<close> returns a worker of the cache or a new one, and \<open>run\<close> starts its goroutine.\<close>

definition spawnWorker :: "nat \<Rightarrow> nat option \<Rightarrow> ants \<Rightarrow> ants option" where
  "spawnWorker t choice s =
     (let start = (\<lambda>w s. set_sub t (SSend w) (set_wk w WRecv (wk_chan (an_wk s w)) (s\<lparr>an_running := an_running s + 1\<rparr>)))
      in case choice of
           None \<Rightarrow> Some (start (an_next s) (s\<lparr>an_next := an_next s + 1\<rparr>))
         | Some w \<Rightarrow> if w \<in> set (an_cache s) then Some (start w (s\<lparr>an_cache := remove1 w (an_cache s)\<rparr>)) else None)"

text \<open>\<open>w.task <- task\<close>; \<open>None\<close> while the channel is full.\<close>

definition send_task :: "nat \<Rightarrow> nat option \<Rightarrow> ants \<Rightarrow> ants option" where
  "send_task w x s =
     (if wk_chan (an_wk s w) = [] then Some (set_wk w (wk_pc (an_wk s w)) [x] s) else None)"

definition Submit_step :: "nat \<Rightarrow> nat option \<Rightarrow> ants \<Rightarrow> ants option" where
  "Submit_step t choice s =
     (case an_subs s t of
        SNone \<Rightarrow> Some (Submit_begin t s)
      | STry \<Rightarrow> if an_lock s = None then retrieve_first t s else None
      | SSpawn \<Rightarrow> spawnWorker t choice s
      | SToWait cap \<Rightarrow> Some (cond_Wait t cap s)
      | SWoken cap \<Rightarrow> if an_lock s = None then retrieve_again t cap s else None
      | SNoWorker \<Rightarrow> Some (retrieve_last t s)
      | SSend w \<Rightarrow> map_option (set_sub t SAccepted) (send_task w (Some t) s)
      | _ \<Rightarrow> None)"

section \<open>Workers\<close>

text \<open>\<open>revertWorker\<close>: its first test and its critical section.\<close>

definition revert_refused :: "ants \<Rightarrow> bool" where
  "revert_refused s \<longleftrightarrow> (an_capacity s > 0 \<and> an_running s > an_capacity s) \<or> an_closed s"

definition revert_insert :: "nat \<Rightarrow> int \<Rightarrow> ants \<Rightarrow> ants option" where
  "revert_insert w recycleTime s =
     (let ch = wk_chan (an_wk s w)
      in if an_closed s then Some (set_wk w WExit ch s)
         else do {
           (e, ws) \<leftarrow> wa_insert (an_workers s) \<lparr>wk_id = w, wk_recycleTime = recycleTime\<rparr>;
           let s = s\<lparr>an_workers := ws\<rparr>;
           Some (if e \<noteq> None then set_wk w WExit ch s else Signal (set_wk w WRecv ch s))
         })"

text \<open>A step of the goroutine of worker \<open>w\<close>; \<open>now\<close> is the time. Whether the task panics does not matter to the pool
  beyond that the worker then ends.\<close>

definition worker_step :: "nat \<Rightarrow> int \<Rightarrow> bool \<Rightarrow> ants \<Rightarrow> ants option" where
  "worker_step w now panics s =
     (let ch = wk_chan (an_wk s w)
      in case wk_pc (an_wk s w) of
           WDead \<Rightarrow> None
         | WRecv \<Rightarrow>
             (case ch of
                [] \<Rightarrow> None
              | None # ch \<Rightarrow> Some (set_wk w WExit ch s)
              | Some t # ch \<Rightarrow> Some (set_wk w (WRun t) ch s))
         | WRun t \<Rightarrow> Some (set_wk w (if panics then WExit else WRevert) ch (s\<lparr>an_done := an_done s @ [t]\<rparr>))
         | WRevert \<Rightarrow>
             Some (set_wk w (if revert_refused s then WExit else WInsert now) ch s)
         | WInsert recycleTime \<Rightarrow>
             if an_lock s \<noteq> None then None else revert_insert w recycleTime s
         | WExit \<Rightarrow>
             Some (set_wk w WDead ch (s\<lparr>an_running := an_running s - 1, an_cache := an_cache s @ [w], an_signals := an_signals s + 1\<rparr>)))"

definition late_signal :: "ants \<Rightarrow> ants option" where
  "late_signal s = (if an_signals s > 0 then Some (Signal (s\<lparr>an_signals := an_signals s - 1\<rparr>)) else None)"

section \<open>The scavenger and the owner of the pool\<close>

text \<open>The expired workers are copied into \<open>an_expiring\<close>. The code iterates over the slice \<open>expiry\<close> of the container, which the
  next call of \<open>retrieveExpiry\<close> reuses: that a second scavenger, started by \<open>Reboot\<close> while the first one is still sending, overwrites the
  slice under the first one is not modelled.\<close>

definition purge_tick :: "int \<Rightarrow> ants \<Rightarrow> ants option" where
  "purge_tick now s =
     (if an_purgers s = 0 then None
      else if an_closed s then Some (s\<lparr>an_purgers := an_purgers s - 1\<rparr>)
      else if an_lock s \<noteq> None then None
      else do {
        (expired, ws) \<leftarrow> wa_retrieveExpiry (an_workers s) (o_ExpiryDuration (an_options s)) now;
        Some (s\<lparr>an_workers := ws, an_expiring := an_expiring s @ map wk_id expired,
          an_purgers := an_purgers s - 1, an_purging := an_purging s + 1\<rparr>)
      })"

definition purge_send :: "nat \<Rightarrow> ants \<Rightarrow> ants option" where
  "purge_send w s =
     (if w \<in> set (an_expiring s) then send_task w None (s\<lparr>an_expiring := remove1 w (an_expiring s)\<rparr>) else None)"

definition purge_check :: "ants \<Rightarrow> ants option" where
  "purge_check s =
     (if an_purging s = 0 then None
      else let s = s\<lparr>an_purging := an_purging s - 1, an_purgers := an_purgers s + 1\<rparr>
           in Some (if an_running s = 0 then Broadcast s else s))"

definition Tune :: "int \<Rightarrow> ants \<Rightarrow> ants" where
  "Tune n s =
     (if an_capacity s = -1 \<or> n \<le> 0 \<or> n = an_capacity s \<or> o_PreAlloc (an_options s) then s else s\<lparr>an_capacity := s32 n\<rparr>)"

definition an_Free :: "ants \<Rightarrow> int" where
  "an_Free s = (if an_capacity s < 0 then -1 else an_capacity s - an_running s)"

definition Release_close :: "ants \<Rightarrow> ants" where
  "Release_close s = s\<lparr>an_closed := True, an_resetting := an_resetting s + 1\<rparr>"

text \<open>\<open>reset\<close> sends nil to every idle worker.\<close>

definition Release_reset :: "ants \<Rightarrow> ants option" where
  "Release_reset s =
     (if an_resetting s = 0 \<or> an_lock s \<noteq> None then None
      else do {
        (stopped, ws) \<leftarrow> wa_reset (an_workers s);
        Some (s\<lparr>an_workers := ws, an_resetting := an_resetting s - 1, an_broadcasting := an_broadcasting s + 1,
          an_wk := (\<lambda>w. if w \<in> wk_id ` set stopped then (an_wk s w)\<lparr>wk_chan := wk_chan (an_wk s w) @ [None]\<rparr> else an_wk s w)\<rparr>)
      })"

definition Release_broadcast :: "ants \<Rightarrow> ants option" where
  "Release_broadcast s =
     (if an_broadcasting s = 0 then None else Some (Broadcast (s\<lparr>an_broadcasting := an_broadcasting s - 1\<rparr>)))"

definition Reboot :: "ants \<Rightarrow> ants" where
  "Reboot s = (if an_closed s then s\<lparr>an_closed := False, an_purgers := an_purgers s + 1\<rparr> else s)"

datatype an_event =
  ESubmit nat "nat option" | EWorker nat int bool | ESignal | EPurgeTick int | EPurgeSend nat | EPurgeCheck
| ETune int | ERelease | EReset | EBroadcast | EReboot

definition an_step :: "an_event \<Rightarrow> ants \<Rightarrow> ants option" where
  "an_step e s =
     (case e of
        ESubmit t choice \<Rightarrow> Submit_step t choice s
      | EWorker w now panics \<Rightarrow> worker_step w now panics s
      | ESignal \<Rightarrow> late_signal s
      | EPurgeTick now \<Rightarrow> purge_tick now s
      | EPurgeSend w \<Rightarrow> purge_send w s
      | EPurgeCheck \<Rightarrow> purge_check s
      | ETune n \<Rightarrow> Some (Tune n s)
      | ERelease \<Rightarrow> Some (Release_close s)
      | EReset \<Rightarrow> Release_reset s
      | EBroadcast \<Rightarrow> Release_broadcast s
      | EReboot \<Rightarrow> Some (Reboot s))"

inductive an_reach :: "ants \<Rightarrow> ants \<Rightarrow> bool" for s0 where
  reach_start: "an_reach s0 s0"
| reach_step: "an_reach s0 s \<Longrightarrow> an_step e s = Some s' \<Longrightarrow> an_reach s0 s'"

end
