(* ===== verification/Ants_Pool_Props.thy ===== *)
theory Ants_Pool_Props
  imports Ants_Pool "HOL-Library.Multiset"
begin

text \<open>
  Every task that the pool accepts is executed exactly once: each worker has one owner at any time, the container of idle workers, a call
  of \<open>Submit\<close>, a scavenger, itself or the cache. Two schedules end the theory: one in which the pool exceeds its
  capacity, and one in which a call of \<open>Submit\<close> sleeps for good after \<open>Release\<close>.
\<close>

section \<open>The containers\<close>

text \<open>The workers in a container; the circular queue is empty once it is released.\<close>

definition wa_at :: "worker_array \<Rightarrow> worker list \<Rightarrow> bool" where
  "wa_at a ws = (case a of
     Stack q \<Rightarrow> ws_items q = ws
   | Loop q \<Rightarrow> (\<exists>r. lq_at q r ws) \<or> lq_size q = 0 \<and> lq_isEmpty q \<and> ws = [])"

lemma wa_detach_ok:
  assumes "wa_at a ws"
  shows "(ws = [] \<and> wa_detach a = Some (None, a)) \<or>
    (\<exists>w a' ws'. wa_detach a = Some (Some w, a') \<and> wa_at a' ws' \<and> mset ws = add_mset w (mset ws'))"
proof (cases a)
  case (Stack q)
  show ?thesis
  proof (cases "ws_items q" rule: rev_cases)
    case Nil
    with Stack assms show ?thesis by (simp add: wa_at_def wa_detach_def ws_detach_def ws_len_def)
  next
    case (snoc xs x)
    then have "ws_detach q = Some (Some x, q\<lparr>ws_items := xs\<rparr>)"
      by (simp add: ws_detach_def ws_len_def go_nth_def go_slice_def nat_add_distrib)
    with Stack assms snoc show ?thesis by (auto simp: wa_at_def wa_detach_def)
  qed
next
  case (Loop q)
  show ?thesis
  proof (cases "\<exists>r. lq_at q r ws")
    case True
    then obtain r where at: "lq_at q r ws" by blast
    show ?thesis
    proof (cases ws)
      case Nil
      with lq_detach_ok [OF at] Loop show ?thesis by (simp add: wa_detach_def)
    next
      case (Cons w ws')
      with lq_detach_ok [OF at] lq_drop_ok(3) [of q r w ws'] at Loop show ?thesis by (auto simp: wa_detach_def wa_at_def)
    qed
  next
    case False
    with Loop assms show ?thesis by (simp add: wa_at_def wa_detach_def lq_detach_def)
  qed
qed

lemma wa_insert_ok:
  assumes "wa_at a ws"
  shows "\<exists>e a'. wa_insert a w = Some (e, a') \<and> (if e = None then wa_at a' (ws @ [w]) else a' = a)"
proof (cases a)
  case (Stack q)
  with assms show ?thesis by (simp add: wa_at_def wa_insert_def ws_insert_def)
next
  case (Loop q)
  show ?thesis
  proof (cases "\<exists>r. lq_at q r ws")
    case True
    then obtain r where at: "lq_at q r ws" by blast
    show ?thesis
    proof (cases "length ws = lq_cap q")
      case True
      with lq_insert_ok(1) [OF at] Loop show ?thesis by (simp add: wa_insert_def)
    next
      case False
      with lq_atD(4) [OF at] lq_insert_ok(2) [OF at, of w] Loop show ?thesis by (fastforce simp: wa_insert_def wa_at_def)
    qed
  next
    case False
    with Loop assms show ?thesis by (simp add: wa_at_def wa_insert_def lq_insert_def)
  qed
qed

text \<open>Without any assumption on the order of the stack its expiry splits it at some index.\<close>

lemma binarySearch_range:
  assumes "0 \<le> l" "r < int (length (ws_items q))" "l \<le> r + 1"
  shows "\<exists>k. ws_binarySearch q l r t = Some k \<and> l - 1 \<le> k \<and> k \<le> r"
  using assms
proof (induction q l r t rule: ws_binarySearch.induct)
  case (1 q l r t)
  show ?case
  proof (cases "l \<le> r")
    case False
    with "1.prems" show ?thesis by simp
  next
    case True
    define mid where "mid = (l + r) div 2"
    have d: "go_div (l + r) 2 = Some mid" using True "1.prems"(1) by (simp add: go_div_nonneg mid_def)
    have m: "l \<le> mid" "mid \<le> r" using go_mid [OF True d] by auto
    have n: "go_nth (ws_items q) mid = Some (ws_items q ! nat mid)" using m "1.prems" by (simp add: go_nth_def)
    show ?thesis
    proof (cases "t < wk_recycleTime (ws_items q ! nat mid)")
      case lt: True
      with "1.IH"(1) [OF True d n lt] True d n "1.prems" m show ?thesis by fastforce
    next
      case ge: False
      with "1.IH"(2) [OF True d n ge] True d n "1.prems" m show ?thesis by fastforce
    qed
  qed
qed

lemma ws_retrieve_splits: "\<exists>dead q'. ws_retrieveExpiry q duration now = Some (dead, q') \<and> ws_items q = dead @ ws_items q'"
proof (cases "ws_items q = []")
  case True
  then show ?thesis by (simp add: ws_retrieveExpiry_def ws_len_def)
next
  case False
  let ?n = "length (ws_items q)"
  from binarySearch_range [of 0 "int ?n - 1" q "now - duration"] obtain k where
    k: "ws_binarySearch q 0 (int ?n - 1) (now - duration) = Some k" "-1 \<le> k" "k \<le> int ?n - 1" by auto
  define m where "m = nat (k + 1)"
  have m: "k = int m - 1" "m \<le> ?n" using k(2,3) by (auto simp: m_def)
  show ?thesis
  proof (cases "m = 0")
    case True
    then show ?thesis using k(1) m False by (simp add: ws_retrieveExpiry_def ws_len_def)
  next
    case m0: False
    let ?live = "drop m (ws_items q)"
    have "go_slice (ws_items q) 0 (int m) = Some (take m (ws_items q))" "go_from (ws_items q) (int m) = Some ?live"
      using m by (simp_all add: go_slice_def go_from_eq)
    moreover have "go_copy (ws_items q) 0 ?live = Some (?live @ drop (?n - m) (ws_items q), int (?n - m))"
      using m by (simp add: go_copy_def blit_def)
    moreover have "go_slice (?live @ drop (?n - m) (ws_items q)) 0 (int (?n - m)) = Some ?live"
      using m by (simp add: go_slice_def)
    ultimately show ?thesis using k(1) m m0 False by (simp add: ws_retrieveExpiry_def ws_len_def Let_def)
  qed
qed

lemma wa_retrieve_ok:
  assumes "wa_at a ws"
  shows "\<exists>dead a' ws'. wa_retrieveExpiry a duration now = Some (dead, a') \<and> wa_at a' ws' \<and> ws = dead @ ws'"
proof (cases a)
  case (Stack q)
  with ws_retrieve_splits [of q duration now] assms show ?thesis by (auto simp: wa_at_def wa_retrieveExpiry_def)
next
  case (Loop q)
  show ?thesis
  proof (cases "\<exists>r. lq_at q r ws \<and> ws \<noteq> []")
    case True
    then obtain r where at: "lq_at q r ws" "ws \<noteq> []" by blast
    let ?t = "now - duration"
    have "lq_at (q\<lparr>lq_expiry := []\<rparr>) r ws" using at(1) by (simp add: lq_at_def)
    from lq_expire_ok [OF this, of ?t] obtain q' r' where
      "lq_expire ?t (q\<lparr>lq_expiry := []\<rparr>) = Some q'" "lq_at q' r' (dropWhile (expired ?t) ws)" "lq_expiry q' = takeWhile (expired ?t) ws" by auto
    moreover have "\<not> lq_isEmpty q" using lq_atD(3) [OF at(1)] at(2) by simp
    ultimately have "wa_retrieveExpiry a duration now = Some (takeWhile (expired ?t) ws, Loop q') \<and> wa_at (Loop q') (dropWhile (expired ?t) ws)"
      using Loop by (auto simp: wa_retrieveExpiry_def lq_retrieveExpiry_def wa_at_def)
    then show ?thesis using takeWhile_dropWhile_id [of "expired ?t" ws] by metis
  next
    case False
    then have "lq_isEmpty q" "ws = []" using Loop assms lq_atD(3) by (auto simp: wa_at_def)
    with Loop assms show ?thesis by (simp add: wa_retrieveExpiry_def lq_retrieveExpiry_def)
  qed
qed

lemma wa_reset_ok:
  assumes "wa_at a ws"
  shows "\<exists>a'. wa_reset a = Some (ws, a') \<and> wa_at a' []"
proof (cases a)
  case (Stack q)
  with assms show ?thesis by (simp add: wa_at_def wa_reset_def ws_reset_def)
next
  case (Loop q)
  show ?thesis
  proof (cases "\<exists>r. lq_at q r ws \<and> ws \<noteq> []")
    case True
    then obtain r where at: "lq_at q r ws" "ws \<noteq> []" by blast
    from lq_release_ok [OF at(1), of "[]"] obtain q' r' where q': "lq_release q [] = Some (ws, q')" "lq_at q' r' []" by auto
    have ne: "\<not> lq_isEmpty q" "\<not> lq_isFull q'" using lq_atD(3) [OF at(1)] at(2) lq_atD(3) [OF q'(2)] by (simp_all add: lq_isEmpty_def)
    let ?q = "q'\<lparr>lq_items := [], lq_size := 0, lq_head := 0, lq_tail := 0\<rparr>"
    have "wa_reset a = Some (ws, Loop ?q)" using q'(1) Loop ne(1) by (simp add: wa_reset_def lq_reset_def)
    moreover have "wa_at (Loop ?q) []" using ne(2) by (simp add: wa_at_def lq_isEmpty_def)
    ultimately show ?thesis by blast
  next
    case False
    then have "lq_isEmpty q" "ws = []" using Loop assms lq_atD(3) by (auto simp: wa_at_def)
    with Loop assms show ?thesis by (simp add: wa_reset_def lq_reset_def)
  qed
qed

section \<open>The invariant\<close>

text \<open>The owner of a worker.\<close>

datatype owner = ONone | OIdle | OSub nat | OExpiring | OSelf | OCache

definition wk_fits :: "owner \<Rightarrow> wk \<Rightarrow> bool" where
  "wk_fits ow k \<longleftrightarrow>
     (case ow of
        ONone \<Rightarrow> wk_pc k = WDead \<and> wk_chan k = []
      | OCache \<Rightarrow> wk_pc k = WDead \<and> wk_chan k = []
      | OSelf \<Rightarrow> wk_pc k = WRecv \<and> (\<exists>x. wk_chan k = [x]) \<or> wk_pc k \<noteq> WDead \<and> wk_pc k \<noteq> WRecv \<and> wk_chan k = []
      | _ \<Rightarrow> wk_pc k = WRecv \<and> wk_chan k = [])"

text \<open>Each place that refers to workers refers to those it owns, once.\<close>

definition owned_by :: "(nat \<Rightarrow> owner) \<Rightarrow> ants \<Rightarrow> bool" where
  "owned_by own s \<longleftrightarrow>
     (\<exists>ws. wa_at (an_workers s) ws \<and> distinct (map wk_id ws) \<and> wk_id ` set ws = {w. own w = OIdle}) \<and>
     (\<forall>t w. an_subs s t = SSend w \<longleftrightarrow> own w = OSub t) \<and>
     distinct (an_expiring s) \<and> set (an_expiring s) = {w. own w = OExpiring} \<and>
     distinct (an_cache s) \<and> set (an_cache s) = {w. own w = OCache} \<and>
     (\<forall>w. own w = ONone \<longleftrightarrow> an_next s \<le> w) \<and>
     (\<forall>w. wk_fits (own w) (an_wk s w))"

text \<open>The worker has the task: in its channel or running.\<close>

definition has_task :: "wk \<Rightarrow> nat \<Rightarrow> bool" where
  "has_task k t \<longleftrightarrow> wk_pc k = WRun t \<or> Some t \<in> set (wk_chan k)"

definition tasks_ok :: "ants \<Rightarrow> bool" where
  "tasks_ok s \<longleftrightarrow>
     distinct (an_done s) \<and> (\<forall>t \<in> set (an_done s). an_subs s t = SAccepted) \<and>
     (\<forall>w t. has_task (an_wk s w) t \<longrightarrow> an_subs s t = SAccepted \<and> t \<notin> set (an_done s)) \<and>
     (\<forall>w w' t. has_task (an_wk s w) t \<longrightarrow> has_task (an_wk s w') t \<longrightarrow> w = w') \<and>
     (\<forall>t. an_subs s t = SAccepted \<longrightarrow> t \<in> set (an_done s) \<or> (\<exists>w. has_task (an_wk s w) t))"

definition live :: "ants \<Rightarrow> nat set" where
  "live s = {w. wk_pc (an_wk s w) \<noteq> WDead}"

definition an_ok :: "ants \<Rightarrow> bool" where
  "an_ok s \<longleftrightarrow> (\<exists>own. owned_by own s) \<and> tasks_ok s \<and> finite (live s) \<and> an_running s = int (card (live s))"

text \<open>Steps that change only what the invariant does not look at.\<close>

lemma an_ok_cong:
  assumes "an_ok s" "an_workers s' = an_workers s" "an_expiring s' = an_expiring s" "an_cache s' = an_cache s" "an_next s' = an_next s"
    "an_wk s' = an_wk s" "an_done s' = an_done s" "an_running s' = an_running s"
    "\<And>t w. an_subs s' t = SSend w \<longleftrightarrow> an_subs s t = SSend w" "\<And>t. an_subs s' t = SAccepted \<longleftrightarrow> an_subs s t = SAccepted"
  shows "an_ok s'"
  using assms unfolding an_ok_def owned_by_def tasks_ok_def live_def by auto

lemma an_okD:
  assumes "an_ok s"
  shows "tasks_ok s" "finite (live s)" "an_running s = int (card (live s))"
  using assms by (auto simp only: an_ok_def)

lemma an_okI: "owned_by own s \<Longrightarrow> tasks_ok s \<Longrightarrow> finite (live s) \<Longrightarrow> an_running s = int (card (live s)) \<Longrightarrow> an_ok s"
  unfolding an_ok_def by blast

lemma an_ok_keep: "an_ok s0 \<Longrightarrow> owned_by own s \<Longrightarrow> tasks_ok s \<Longrightarrow> live s = live s0 \<Longrightarrow> an_running s = an_running s0 \<Longrightarrow> an_ok s"
  using an_okD(2, 3) [of s0] by (intro an_okI) simp_all

lemma woken_simps [simp]: "woken pc = SSend w \<longleftrightarrow> pc = SSend w" "woken pc = SAccepted \<longleftrightarrow> pc = SAccepted"
  by (cases pc; simp add: woken_def)+

lemma Signal_ok: "an_ok s \<Longrightarrow> an_ok (Signal s)"
  by (rule an_ok_cong [of s]) (auto simp: Signal_def split: list.splits)

lemma Broadcast_ok: "an_ok s \<Longrightarrow> an_ok (Broadcast s)"
  by (rule an_ok_cong [of s]) (auto simp: Broadcast_def)

text \<open>A call of \<open>Submit\<close> moves between points that hold nothing.\<close>

definition plain :: "sub_pc \<Rightarrow> bool" where
  "plain pc \<longleftrightarrow> (\<forall>w. pc \<noteq> SSend w) \<and> pc \<noteq> SAccepted"

lemma set_sub_ok: "an_ok s \<Longrightarrow> plain (an_subs s t) \<Longrightarrow> plain pc \<Longrightarrow> an_ok (set_sub t pc s)"
  by (rule an_ok_cong [of s]) (auto simp: set_sub_def plain_def)

lemma plain_simps [simp]:
  "plain SNone" "plain STry" "plain SSpawn" "plain (SToWait c)" "plain (SWaiting c)" "plain (SWoken c)" "plain SNoWorker" "plain (SFailed e)"
  "\<not> plain (SSend w)" "\<not> plain SAccepted"
  by (simp_all add: plain_def)

section \<open>Steps that pass workers on\<close>

lemma owners_upd: "{v. (own(w := ow)) v = x} = (if ow = x then insert w {v. own v = x} else {v. own v = x} - {w})"
  by auto

lemma owned_byD:
  assumes "owned_by own s"
  shows "\<exists>ws. wa_at (an_workers s) ws \<and> distinct (map wk_id ws) \<and> wk_id ` set ws = {w. own w = OIdle}"
    "an_subs s t = SSend w \<longleftrightarrow> own w = OSub t" "distinct (an_expiring s)" "set (an_expiring s) = {w. own w = OExpiring}"
    "distinct (an_cache s)" "set (an_cache s) = {w. own w = OCache}" "own w = ONone \<longleftrightarrow> an_next s \<le> w" "wk_fits (own w) (an_wk s w)"
  using assms by (auto simp: owned_by_def)

lemma owned_byI:
  assumes "wa_at (an_workers s) ws" "distinct (map wk_id ws)" "wk_id ` set ws = {w. own w = OIdle}"
    "\<And>t w. an_subs s t = SSend w \<longleftrightarrow> own w = OSub t" "distinct (an_expiring s)" "set (an_expiring s) = {w. own w = OExpiring}"
    "distinct (an_cache s)" "set (an_cache s) = {w. own w = OCache}" "\<And>w. own w = ONone \<longleftrightarrow> an_next s \<le> w" "\<And>w. wk_fits (own w) (an_wk s w)"
  shows "owned_by own s"
  using assms unfolding owned_by_def by blast

lemma tasks_cong:
  assumes "tasks_ok s" "\<And>w t. has_task (an_wk s' w) t \<longleftrightarrow> has_task (an_wk s w) t" "an_done s' = an_done s"
    "\<And>t. an_subs s' t = SAccepted \<longleftrightarrow> an_subs s t = SAccepted"
  shows "tasks_ok s'"
  using assms unfolding tasks_ok_def by auto

lemma detach_ok:
  assumes ok: "an_ok s" and t: "plain (an_subs s t)" and d: "wa_detach (an_workers s) = Some (x, a)"
  shows "an_ok (s\<lparr>an_workers := a\<rparr>) \<and> x = None \<or> (\<exists>w. x = Some w \<and> an_ok (set_sub t (SSend (wk_id w)) (s\<lparr>an_workers := a\<rparr>)))"
proof -
  from ok obtain own ws where own: "owned_by own s" "wa_at (an_workers s) ws" "distinct (map wk_id ws)" "wk_id ` set ws = {w. own w = OIdle}"
    by (auto simp: an_ok_def owned_by_def)
  from wa_detach_ok [OF own(2)] show ?thesis
  proof (elim disjE exE conjE)
    assume "wa_detach (an_workers s) = Some (None, an_workers s)"
    with d an_ok_cong [OF ok, of "s\<lparr>an_workers := a\<rparr>"] show ?thesis by auto
  next
    fix w a' ws' assume w: "wa_detach (an_workers s) = Some (Some w, a')" "wa_at a' ws'" "mset ws = add_mset w (mset ws')"
    let ?s = "set_sub t (SSend (wk_id w)) (s\<lparr>an_workers := a'\<rparr>)" and ?own = "own(wk_id w := OSub t)"
    have "mset (map wk_id ws) = mset (map wk_id (w # ws'))" using w(3) by simp
    from mset_eq_imp_distinct_iff [OF this] own(3) have ds: "wk_id w \<notin> wk_id ` set ws'" "distinct (map wk_id ws')" by simp_all
    have "set ws = insert w (set ws')" using w(3) by (metis set_mset_add_mset_insert set_mset_mset)
    then have ids: "wk_id ` set ws = insert (wk_id w) (wk_id ` set ws')" by simp
    have idle: "own (wk_id w) = OIdle" "wk_id ` set ws' = {v. ?own v = OIdle}" using ids own(4) ds(1) unfolding owners_upd by auto
    have fresh: "own v \<noteq> OSub t" for v using t own(1) by (auto simp: owned_by_def plain_def)
    have n: "own (wk_id w) \<noteq> OExpiring" "own (wk_id w) \<noteq> OCache" "own (wk_id w) \<noteq> ONone" "\<And>u. own (wk_id w) \<noteq> OSub u" using idle(1) by simp_all
    have "owned_by ?own ?s"
    proof (rule owned_byI [of _ ws'])
      show "wa_at (an_workers ?s) ws'" using w(2) by (simp add: set_sub_def)
      show "wk_id ` set ws' = {v. ?own v = OIdle}" by (rule idle(2))
      show "set (an_expiring ?s) = {v. ?own v = OExpiring}" unfolding owners_upd using owned_byD(4) [OF own(1)] n(1) by (simp add: set_sub_def)
      show "set (an_cache ?s) = {v. ?own v = OCache}" unfolding owners_upd using owned_byD(6) [OF own(1)] n(2) by (simp add: set_sub_def)
      show "?own v = ONone \<longleftrightarrow> an_next ?s \<le> v" for v using owned_byD(7) [OF own(1), of v] n(3) by (auto simp: set_sub_def)
      show "an_subs ?s u = SSend v \<longleftrightarrow> ?own v = OSub u" for u v
        using owned_byD(2) [OF own(1), of u v] n(4) fresh t by (cases "v = wk_id w"; cases "u = t") (simp_all add: set_sub_def plain_def)
      show "wk_fits (?own v) (an_wk ?s v)" for v
        using owned_byD(8) [OF own(1), of v] idle(1) by (cases "v = wk_id w") (simp_all add: wk_fits_def set_sub_def)
    qed (use ds(2) owned_byD(3, 5) [OF own(1)] in \<open>simp_all add: set_sub_def\<close>)
    moreover have "tasks_ok ?s" by (rule tasks_cong [OF an_okD(1) [OF ok]]) (use t in \<open>auto simp: set_sub_def plain_def\<close>)
    ultimately have "an_ok ?s" by (rule an_ok_keep [OF ok]) (simp_all add: live_def set_sub_def)
    with w(1) d show ?thesis by auto
  qed
qed

lemma spawn_ok:
  assumes ok: "an_ok s" and t: "plain (an_subs s t)" and sp: "spawnWorker t choice s = Some s'"
  shows "an_ok s'"
proof -
  from ok obtain own where own: "owned_by own s" by (auto simp: an_ok_def)
  have fresh: "own v \<noteq> OSub t" for v using t own by (auto simp: owned_by_def plain_def)
  define w where "w = (case choice of None \<Rightarrow> an_next s | Some w \<Rightarrow> w)"
  have w: "own w = (case choice of None \<Rightarrow> ONone | Some _ \<Rightarrow> OCache)"
    using owned_byD(6, 7) [OF own] sp by (auto simp: w_def spawnWorker_def split: option.splits if_splits)
  then have dead: "wk_pc (an_wk s w) = WDead" "wk_chan (an_wk s w) = []"
    using owned_byD(8) [OF own, of w] by (auto simp: wk_fits_def split: option.splits)
  let ?own = "own(w := OSub t)"
  have s': "an_wk s' = (an_wk s)(w := \<lparr>wk_pc = WRecv, wk_chan = []\<rparr>)" "an_subs s' = (an_subs s)(t := SSend w)"
    "an_running s' = an_running s + 1" "an_workers s' = an_workers s" "an_expiring s' = an_expiring s" "an_done s' = an_done s"
    "an_cache s' = (case choice of None \<Rightarrow> an_cache s | Some w \<Rightarrow> remove1 w (an_cache s))"
    "an_next s' = (case choice of None \<Rightarrow> an_next s + 1 | Some _ \<Rightarrow> an_next s)"
    using sp dead by (auto simp: w_def spawnWorker_def set_sub_def set_wk_def Let_def split: option.splits if_splits)
  have n: "own w \<noteq> OIdle" "own w \<noteq> OExpiring" "\<And>u. own w \<noteq> OSub u" using w by (auto split: option.splits)
  from owned_byD(1) [OF own] obtain ws where ws: "wa_at (an_workers s) ws" "distinct (map wk_id ws)" "wk_id ` set ws = {w. own w = OIdle}" by blast
  have "owned_by ?own s'"
  proof (rule owned_byI [of _ ws])
    show "wk_id ` set ws = {v. ?own v = OIdle}" unfolding owners_upd using ws(3) n(1) by simp
    show "set (an_expiring s') = {v. ?own v = OExpiring}" unfolding owners_upd s'(5) using owned_byD(4) [OF own] n(2) by simp
    show "set (an_cache s') = {v. ?own v = OCache}"
      unfolding owners_upd s'(7) using owned_byD(5, 6) [OF own] w by (cases choice) (auto simp: w_def)
    show "?own v = ONone \<longleftrightarrow> an_next s' \<le> v" for v
      unfolding s'(8) using owned_byD(7) [OF own, of v] w by (cases choice) (auto simp: w_def)
    show "an_subs s' u = SSend v \<longleftrightarrow> ?own v = OSub u" for u v
      unfolding s'(2) using owned_byD(2) [OF own, of u v] n(3) fresh t by (cases "v = w"; cases "u = t") (auto simp: plain_def)
    show "distinct (an_cache s')" unfolding s'(7) using owned_byD(5) [OF own] by (cases choice) auto
    show "wk_fits (?own v) (an_wk s' v)" for v using owned_byD(8) [OF own, of v] by (simp add: s'(1) wk_fits_def)
  qed (use ws owned_byD(3) [OF own] in \<open>simp_all add: s'\<close>)
  moreover have "tasks_ok s'"
    by (rule tasks_cong [OF an_okD(1) [OF ok]]) (use t in \<open>auto simp: s'(1, 2, 6) plain_def has_task_def dead\<close>)
  moreover have "live s' = insert w (live s)" "w \<notin> live s" by (auto simp: live_def s'(1) dead)
  ultimately show ?thesis using an_okD(2, 3) [OF ok] by (intro an_okI) (simp_all add: s'(3))
qed

text \<open>A worker that is owned by itself moves on and stays its own.\<close>

lemma self_moves:
  assumes own: "owned_by own s" "own w \<in> {OSelf, OExpiring, OSub t}" and k: "wk_fits OSelf k"
    and s': "an_wk s' = (an_wk s)(w := k)" "an_workers s' = an_workers s" "an_cache s' = an_cache s" "an_next s' = an_next s"
      "an_expiring s' = (if own w = OExpiring then remove1 w (an_expiring s) else an_expiring s)"
      "\<And>u v. an_subs s' u = SSend v \<longleftrightarrow> an_subs s u = SSend v \<and> v \<noteq> w"
  shows "owned_by (own(w := OSelf)) s'"
proof -
  let ?own = "own(w := OSelf)"
  have n: "own w \<noteq> OIdle" "own w \<noteq> OCache" "own w \<noteq> ONone" using own(2) by auto
  from owned_byD(1) [OF own(1)] obtain ws where ws: "wa_at (an_workers s) ws" "distinct (map wk_id ws)" "wk_id ` set ws = {w. own w = OIdle}" by blast
  show ?thesis
  proof (rule owned_byI [of _ ws])
    show "wk_id ` set ws = {v. ?own v = OIdle}" unfolding owners_upd using ws(3) n(1) by simp
    show "set (an_cache s') = {v. ?own v = OCache}" unfolding owners_upd s'(3) using owned_byD(6) [OF own(1)] n(2) by simp
    show "distinct (an_expiring s')" unfolding s'(5) using owned_byD(3) [OF own(1)] by simp
    show "set (an_expiring s') = {v. ?own v = OExpiring}"
      unfolding owners_upd s'(5) using owned_byD(3, 4) [OF own(1)] by simp
    show "?own v = ONone \<longleftrightarrow> an_next s' \<le> v" for v unfolding s'(4) using owned_byD(7) [OF own(1), of v] n(3) by auto
    show "an_subs s' u = SSend v \<longleftrightarrow> ?own v = OSub u" for u v using owned_byD(2) [OF own(1), of u v] s'(6) by simp
    show "wk_fits (?own v) (an_wk s' v)" for v using owned_byD(8) [OF own(1), of v] k by (simp add: s'(1))
  qed (use ws owned_byD(5) [OF own(1)] in \<open>simp_all add: s'\<close>)
qed

lemma self_owner:
  assumes "owned_by own s" "wk_pc (an_wk s w) \<noteq> WDead" "wk_pc (an_wk s w) \<noteq> WRecv \<or> wk_chan (an_wk s w) \<noteq> []"
  shows "own w = OSelf" "wk_pc (an_wk s w) \<noteq> WRecv \<Longrightarrow> wk_chan (an_wk s w) = []"
proof -
  have "wk_fits (own w) (an_wk s w)" using assms(1) by (simp add: owned_by_def)
  with assms(2, 3) show "own w = OSelf" "wk_pc (an_wk s w) \<noteq> WRecv \<Longrightarrow> wk_chan (an_wk s w) = []"
    by (auto simp: wk_fits_def split: owner.splits)
qed

lemma live_same: "an_wk s' = (an_wk s)(w := k) \<Longrightarrow> w \<in> live s \<Longrightarrow> wk_pc k \<noteq> WDead \<Longrightarrow> live s' = live s"
  by (auto simp: live_def)

lemma send_own_task_ok:
  assumes ok: "an_ok s" and t: "an_subs s t = SSend w" and sent: "send_task w (Some t) s = Some s1"
  shows "an_ok (set_sub t SAccepted s1)"
proof -
  from ok obtain own where own: "owned_by own s" by (auto simp: an_ok_def)
  then have w: "own w = OSub t" using t by (simp add: owned_by_def)
  then have k: "wk_pc (an_wk s w) = WRecv" "wk_chan (an_wk s w) = []" using owned_byD(8) [OF own, of w] by (simp_all add: wk_fits_def)
  let ?k = "\<lparr>wk_pc = WRecv, wk_chan = [Some t]\<rparr>" and ?s = "set_sub t SAccepted s1"
  have s1: "s1 = set_wk w WRecv [Some t] s" using sent k by (simp add: send_task_def)
  have only: "an_subs s u = SSend w \<longleftrightarrow> u = t" for u using own w by (auto simp: owned_by_def)
  have "owned_by (own(w := OSelf)) ?s"
  proof (rule self_moves [OF own, of w t ?k])
    show "an_subs ?s u = SSend v \<longleftrightarrow> an_subs s u = SSend v \<and> v \<noteq> w" for u v
      using t only [of u] by (cases "u = t") (auto simp: s1 set_sub_def set_wk_def)
  qed (simp_all add: w s1 set_sub_def set_wk_def wk_fits_def)
  moreover have "tasks_ok ?s"
  proof -
    have tk: "tasks_ok s" using ok by (simp add: an_ok_def)
    then have none: "\<not> has_task (an_wk s v) t" "t \<notin> set (an_done s)" for v using t by (fastforce simp: tasks_ok_def)+
    have "has_task (an_wk ?s v) u \<longleftrightarrow> has_task (an_wk s v) u \<or> v = w \<and> u = t" for v u
      using k by (auto simp: s1 set_sub_def set_wk_def has_task_def)
    with tk none show ?thesis by (auto simp: tasks_ok_def s1 set_sub_def set_wk_def)
  qed
  moreover have "live ?s = live s" using k by (auto simp: live_def s1 set_sub_def set_wk_def)
  ultimately show ?thesis by (rule an_ok_keep [OF ok]) (simp add: s1 set_sub_def set_wk_def)
qed

lemma purge_send_ok:
  assumes ok: "an_ok s" and st: "purge_send w s = Some s'"
  shows "an_ok s'"
proof -
  from ok obtain own where own: "owned_by own s" by (auto simp: an_ok_def)
  from st have mem: "w \<in> set (an_expiring s)" by (auto simp: purge_send_def split: if_splits)
  then have w: "own w = OExpiring" using owned_byD(4) [OF own] by blast
  then have k: "wk_pc (an_wk s w) = WRecv" "wk_chan (an_wk s w) = []" using owned_byD(8) [OF own, of w] by (simp_all add: wk_fits_def)
  let ?k = "\<lparr>wk_pc = WRecv, wk_chan = [None]\<rparr>"
  have s': "s' = set_wk w WRecv [None] (s\<lparr>an_expiring := remove1 w (an_expiring s)\<rparr>)" using st k mem by (simp add: purge_send_def send_task_def)
  have "owned_by (own(w := OSelf)) s'"
  proof (rule self_moves [OF own, of w 0 ?k])
    show "an_subs s' u = SSend v \<longleftrightarrow> an_subs s u = SSend v \<and> v \<noteq> w" for u v using owned_byD(2) [OF own, of u v] w by (auto simp: s' set_wk_def)
  qed (simp_all add: w s' set_wk_def wk_fits_def)
  moreover have "tasks_ok s'" by (rule tasks_cong [OF an_okD(1) [OF ok]]) (use k in \<open>auto simp: s' set_wk_def has_task_def\<close>)
  moreover have "live s' = live s" using k by (auto simp: live_def s' set_wk_def)
  ultimately show ?thesis by (rule an_ok_keep [OF ok]) (simp add: s' set_wk_def)
qed

text \<open>A worker that holds a message or runs moves to its next point with the same task.\<close>

lemma self_step_ok:
  assumes ok: "an_ok s" and w: "wk_pc (an_wk s w) \<noteq> WDead" "wk_pc (an_wk s w) \<noteq> WRecv \<or> wk_chan (an_wk s w) \<noteq> []"
    and k: "wk_fits OSelf \<lparr>wk_pc = pc, wk_chan = ch\<rparr>" and tk: "\<And>t. has_task \<lparr>wk_pc = pc, wk_chan = ch\<rparr> t \<longleftrightarrow> has_task (an_wk s w) t"
  shows "an_ok (set_wk w pc ch s)"
proof -
  from ok obtain own where own: "owned_by own s" by (auto simp: an_ok_def)
  have self: "own w = OSelf" by (rule self_owner(1) [OF own w])
  have "owned_by (own(w := OSelf)) (set_wk w pc ch s)"
  proof (rule self_moves [OF own, of w 0, OF _ k])
    show "an_subs (set_wk w pc ch s) u = SSend v \<longleftrightarrow> an_subs s u = SSend v \<and> v \<noteq> w" for u v
      using owned_byD(2) [OF own, of u v] self by (auto simp: set_wk_def)
  qed (simp_all add: self set_wk_def)
  moreover have "tasks_ok (set_wk w pc ch s)"
    by (rule tasks_cong [OF an_okD(1) [OF ok]]) (simp_all add: set_wk_def tk)
  moreover have "live (set_wk w pc ch s) = live s"
    by (rule live_same [where w = w and k = "\<lparr>wk_pc = pc, wk_chan = ch\<rparr>"]) (use k w(1) in \<open>auto simp: set_wk_def live_def wk_fits_def\<close>)
  ultimately show ?thesis by (rule an_ok_keep [OF ok]) (simp add: set_wk_def)
qed

lemma recv_ok:
  assumes "an_ok s" "wk_pc (an_wk s w) = WRecv" "wk_chan (an_wk s w) = x # ch"
  shows "an_ok (set_wk w (case x of None \<Rightarrow> WExit | Some t \<Rightarrow> WRun t) ch s)"
proof -
  from assms(1) obtain own where own: "owned_by own s" by (auto simp: an_ok_def)
  have "own w = OSelf" by (rule self_owner(1) [OF own]) (simp_all add: assms)
  with owned_byD(8) [OF own, of w] assms have "ch = []" by (auto simp: wk_fits_def)
  then show ?thesis
    by (intro self_step_ok [OF assms(1)]) (auto simp: assms wk_fits_def has_task_def split: option.splits)
qed

lemma run_ok:
  assumes ok: "an_ok s" and w: "wk_pc (an_wk s w) = WRun t" and pc: "pc \<in> {WExit, WRevert}"
  shows "an_ok (set_wk w pc (wk_chan (an_wk s w)) (s\<lparr>an_done := an_done s @ [t]\<rparr>))" (is "an_ok ?s")
proof -
  from ok obtain own where own: "owned_by own s" by (auto simp: an_ok_def)
  have self: "own w = OSelf" "wk_chan (an_wk s w) = []" by (rule self_owner [OF own]; simp add: w)+
  have "owned_by (own(w := OSelf)) ?s"
  proof (rule self_moves [OF own, of w 0 "\<lparr>wk_pc = pc, wk_chan = []\<rparr>"])
    show "an_subs ?s u = SSend v \<longleftrightarrow> an_subs s u = SSend v \<and> v \<noteq> w" for u v
      using owned_byD(2) [OF own, of u v] self by (auto simp: set_wk_def)
    show "wk_fits OSelf \<lparr>wk_pc = pc, wk_chan = []\<rparr>" using pc by (auto simp: wk_fits_def)
  qed (simp_all add: self set_wk_def)
  moreover have "tasks_ok ?s"
  proof -
    have tk: "tasks_ok s" by (rule an_okD(1) [OF ok])
    have has: "has_task (an_wk s w) u \<longleftrightarrow> u = t" for u using w self by (auto simp: has_task_def)
    then have t: "an_subs s t = SAccepted" "t \<notin> set (an_done s)" "\<And>v. has_task (an_wk s v) t \<Longrightarrow> v = w" using tk unfolding tasks_ok_def by metis+
    have "has_task (an_wk ?s v) u \<longleftrightarrow> has_task (an_wk s v) u \<and> u \<noteq> t" for v u
      using has [of u] t(3) [of v] pc self(2) by (cases "v = w") (auto simp: set_wk_def has_task_def)
    moreover have "an_subs ?s = an_subs s" "an_done ?s = an_done s @ [t]" by (simp_all add: set_wk_def)
    ultimately show ?thesis using tk t(1, 2) unfolding tasks_ok_def by auto
  qed
  moreover have "live ?s = live s" using pc w by (auto simp: live_def set_wk_def)
  ultimately show ?thesis by (rule an_ok_keep [OF ok]) (simp add: set_wk_def)
qed

lemma insert_ok:
  assumes ok: "an_ok s" and w: "wk_pc (an_wk s w) = WInsert r" and e: "wa_insert (an_workers s) \<lparr>wk_id = w, wk_recycleTime = r\<rparr> = Some (e, a)"
  shows "an_ok (if e \<noteq> None then set_wk w WExit (wk_chan (an_wk s w)) (s\<lparr>an_workers := a\<rparr>)
    else set_wk w WRecv (wk_chan (an_wk s w)) (s\<lparr>an_workers := a\<rparr>))"
proof -
  from ok obtain own where own: "owned_by own s" by (auto simp: an_ok_def)
  have self: "own w = OSelf" "wk_chan (an_wk s w) = []" by (rule self_owner [OF own]; simp add: w)+
  from owned_byD(1) [OF own] obtain ws where ws: "wa_at (an_workers s) ws" "distinct (map wk_id ws)" "wk_id ` set ws = {w. own w = OIdle}" by blast
  show ?thesis
  proof (cases "e = None")
    case False
    with wa_insert_ok [OF ws(1), of "\<lparr>wk_id = w, wk_recycleTime = r\<rparr>"] e have "s\<lparr>an_workers := a\<rparr> = s" by simp
    with False show ?thesis by (simp add: self_step_ok [OF ok] w self wk_fits_def has_task_def)
  next
    case True
    let ?s = "set_wk w WRecv [] (s\<lparr>an_workers := a\<rparr>)" and ?own = "own(w := OIdle)" and ?ws = "ws @ [\<lparr>wk_id = w, wk_recycleTime = r\<rparr>]"
    have "owned_by ?own ?s"
    proof (rule owned_byI [of _ ?ws])
      show "wa_at (an_workers ?s) ?ws" using wa_insert_ok [OF ws(1), of "\<lparr>wk_id = w, wk_recycleTime = r\<rparr>"] e True by (simp add: set_wk_def)
      show "distinct (map wk_id ?ws)" using ws(2, 3) self(1) by auto
      show "wk_id ` set ?ws = {v. ?own v = OIdle}" unfolding owners_upd using ws(3) by simp
      show "set (an_expiring ?s) = {v. ?own v = OExpiring}" unfolding owners_upd using owned_byD(4) [OF own] self(1) by (simp add: set_wk_def)
      show "set (an_cache ?s) = {v. ?own v = OCache}" unfolding owners_upd using owned_byD(6) [OF own] self(1) by (simp add: set_wk_def)
      show "?own v = ONone \<longleftrightarrow> an_next ?s \<le> v" for v using owned_byD(7) [OF own, of v] self(1) by (auto simp: set_wk_def)
      show "an_subs ?s u = SSend v \<longleftrightarrow> ?own v = OSub u" for u v using owned_byD(2) [OF own, of u v] self(1) by (auto simp: set_wk_def)
      show "wk_fits (?own v) (an_wk ?s v)" for v using owned_byD(8) [OF own, of v] by (auto simp: set_wk_def wk_fits_def)
    qed (use owned_byD(3, 5) [OF own] in \<open>simp_all add: set_wk_def\<close>)
    moreover have "tasks_ok ?s" by (rule tasks_cong [OF an_okD(1) [OF ok]]) (auto simp: set_wk_def has_task_def w self)
    moreover have "live ?s = live s" using w by (auto simp: live_def set_wk_def)
    ultimately have "an_ok ?s" by (rule an_ok_keep [OF ok]) (simp add: set_wk_def)
    with True self(2) show ?thesis by simp
  qed
qed

lemma exit_ok:
  assumes ok: "an_ok s" and w: "wk_pc (an_wk s w) = WExit"
  shows "an_ok (set_wk w WDead (wk_chan (an_wk s w))
    (s\<lparr>an_running := an_running s - 1, an_cache := an_cache s @ [w], an_signals := an_signals s + 1\<rparr>))" (is "an_ok ?s")
proof -
  from ok obtain own where own: "owned_by own s" by (auto simp: an_ok_def)
  have self: "own w = OSelf" "wk_chan (an_wk s w) = []" by (rule self_owner [OF own]; simp add: w)+
  from owned_byD(1) [OF own] obtain ws where ws: "wa_at (an_workers s) ws" "distinct (map wk_id ws)" "wk_id ` set ws = {w. own w = OIdle}" by blast
  let ?own = "own(w := OCache)"
  have "owned_by ?own ?s"
  proof (rule owned_byI [of _ ws])
    show "wk_id ` set ws = {v. ?own v = OIdle}" unfolding owners_upd using ws(3) self(1) by simp
    show "set (an_expiring ?s) = {v. ?own v = OExpiring}" unfolding owners_upd using owned_byD(4) [OF own] self(1) by (simp add: set_wk_def)
    show "set (an_cache ?s) = {v. ?own v = OCache}" unfolding owners_upd using owned_byD(6) [OF own] by (simp add: set_wk_def)
    show "distinct (an_cache ?s)" using owned_byD(5, 6) [OF own] self(1) by (simp add: set_wk_def)
    show "?own v = ONone \<longleftrightarrow> an_next ?s \<le> v" for v using owned_byD(7) [OF own, of v] self(1) by (auto simp: set_wk_def)
    show "an_subs ?s u = SSend v \<longleftrightarrow> ?own v = OSub u" for u v using owned_byD(2) [OF own, of u v] self(1) by (auto simp: set_wk_def)
    show "wk_fits (?own v) (an_wk ?s v)" for v using owned_byD(8) [OF own, of v] self(2) by (auto simp: set_wk_def wk_fits_def)
  qed (use ws owned_byD(3) [OF own] in \<open>simp_all add: set_wk_def\<close>)
  moreover have "tasks_ok ?s" by (rule tasks_cong [OF an_okD(1) [OF ok]]) (auto simp: set_wk_def has_task_def w self)
  moreover have "live ?s = live s - {w}" "w \<in> live s" using w by (auto simp: live_def set_wk_def)
  moreover have "0 < card (live s)" using an_okD(2) [OF ok] \<open>w \<in> live s\<close> card_gt_0_iff by blast
  ultimately show ?thesis using an_okD(2, 3) [OF ok] by (intro an_okI) (simp_all add: set_wk_def of_nat_diff)
qed

lemma worker_step_ok:
  assumes ok: "an_ok s" and st: "worker_step w now panics s = Some s'"
  shows "an_ok s'"
proof (cases "wk_pc (an_wk s w)")
  case WRecv
  with st recv_ok [OF ok WRecv] show ?thesis by (auto simp: worker_step_def revert_insert_def Let_def split: list.splits option.splits)
next
  case (WRun t)
  with st run_ok [OF ok WRun] show ?thesis by (auto simp: worker_step_def revert_insert_def Let_def split: if_splits)
next
  case WRevert
  from ok obtain own where "owned_by own s" by (auto simp: an_ok_def)
  from self_owner(2) [OF this, of w] WRevert have "wk_chan (an_wk s w) = []" by simp
  with st WRevert show ?thesis
    by (auto simp: worker_step_def revert_insert_def Let_def wk_fits_def has_task_def split: if_splits intro!: self_step_ok [OF ok])
next
  case (WInsert r)
  from ok obtain own where "owned_by own s" by (auto simp: an_ok_def)
  from self_owner(2) [OF this, of w] WInsert have ch: "wk_chan (an_wk s w) = []" by simp
  show ?thesis
  proof (cases "an_closed s")
    case True
    with st WInsert ch show ?thesis
      by (auto simp: worker_step_def revert_insert_def Let_def wk_fits_def has_task_def split: if_splits intro!: self_step_ok [OF ok])
  next
    case False
    with st WInsert obtain e a where e: "wa_insert (an_workers s) \<lparr>wk_id = w, wk_recycleTime = r\<rparr> = Some (e, a)"
      by (auto simp: worker_step_def revert_insert_def Let_def bind_eq_Some_conv split: if_splits)
    from insert_ok [OF ok WInsert e] e st WInsert False show ?thesis
      by (cases "e = None") (auto simp: worker_step_def revert_insert_def Let_def intro: Signal_ok split: if_splits)
  qed
next
  case WExit
  with st exit_ok [OF ok WExit] show ?thesis by (simp add: worker_step_def revert_insert_def Let_def)
qed (use st in \<open>simp add: worker_step_def revert_insert_def Let_def\<close>)

text \<open>The idle workers \<open>D\<close> leave the container together for the owner \<open>ow\<close>.\<close>

lemma leave_ok:
  assumes ok: "an_ok s" and own: "owned_by own s" "\<And>v. v \<in> D \<Longrightarrow> own v = OIdle"
    and ws: "wa_at (an_workers s') ws" "distinct (map wk_id ws)" "wk_id ` set ws = {v. own v = OIdle} - D"
    and ow: "ow \<in> {OExpiring, OSelf}" and ex: "distinct (an_expiring s')" "set (an_expiring s') = set (an_expiring s) \<union> (if ow = OExpiring then D else {})"
    and wk: "\<And>v. an_wk s' v = (if v \<in> D \<and> ow = OSelf then (an_wk s v)\<lparr>wk_chan := wk_chan (an_wk s v) @ [None]\<rparr> else an_wk s v)"
    and same: "an_subs s' = an_subs s" "an_cache s' = an_cache s" "an_next s' = an_next s" "an_done s' = an_done s" "an_running s' = an_running s"
  shows "an_ok s'"
proof -
  let ?own = "\<lambda>v. if v \<in> D then ow else own v"
  have "owned_by ?own s'"
  proof (rule owned_byI [OF ws(1, 2)])
    show "wk_id ` set ws = {v. ?own v = OIdle}" using ws(3) ow by auto
    show "set (an_expiring s') = {v. ?own v = OExpiring}" using ex(2) owned_byD(4) [OF own(1)] own(2) ow by auto
    show "set (an_cache s') = {v. ?own v = OCache}" using owned_byD(6) [OF own(1)] own(2) ow by (auto simp: same)
    show "?own v = ONone \<longleftrightarrow> an_next s' \<le> v" for v using owned_byD(7) [OF own(1), of v] own(2) [of v] ow by (auto simp: same)
    show "an_subs s' u = SSend v \<longleftrightarrow> ?own v = OSub u" for u v using owned_byD(2) [OF own(1), of u v] own(2) [of v] ow by (auto simp: same)
    show "wk_fits (?own v) (an_wk s' v)" for v using owned_byD(8) [OF own(1), of v] own(2) [of v] ow by (auto simp: wk wk_fits_def)
  qed (use ex(1) owned_byD(5) [OF own(1)] in \<open>simp_all add: same\<close>)
  moreover have "tasks_ok s'" by (rule tasks_cong [OF an_okD(1) [OF ok]]) (simp_all add: same wk has_task_def)
  moreover have "live s' = live s" by (auto simp: live_def wk)
  ultimately show ?thesis by (rule an_ok_keep [OF ok]) (simp add: same)
qed

lemma purge_tick_ok:
  assumes ok: "an_ok s" and st: "purge_tick now s = Some s'"
  shows "an_ok s'"
proof (cases "an_closed s")
  case True
  with st show ?thesis by (intro an_ok_cong [OF ok]) (auto simp: purge_tick_def split: if_splits)
next
  case False
  from ok obtain own where own: "owned_by own s" by (auto simp: an_ok_def)
  from owned_byD(1) [OF own] obtain ws where ws: "wa_at (an_workers s) ws" "distinct (map wk_id ws)" "wk_id ` set ws = {w. own w = OIdle}" by blast
  from wa_retrieve_ok [OF ws(1)] obtain dead a ws' where
    r: "wa_retrieveExpiry (an_workers s) (o_ExpiryDuration (an_options s)) now = Some (dead, a)" "wa_at a ws'" "ws = dead @ ws'" by blast
  with st False have s': "s' = s\<lparr>an_workers := a, an_expiring := an_expiring s @ map wk_id dead,
      an_purgers := an_purgers s - 1, an_purging := an_purging s + 1\<rparr>"
    by (auto simp: purge_tick_def split: if_splits)
  have idle: "own v = OIdle" if "v \<in> wk_id ` set dead" for v using that ws(3) r(3) by auto
  show ?thesis
  proof (rule leave_ok [OF ok own idle, where ws = ws' and ow = OExpiring])
    show "wk_id ` set ws' = {v. own v = OIdle} - wk_id ` set dead" using ws(2) ws(3) [symmetric] r(3) by auto
    show "distinct (an_expiring s')" using ws(2) r(3) owned_byD(3, 4) [OF own] idle by (fastforce simp: s')
  qed (use ws(2) r in \<open>auto simp: s'\<close>)
qed

lemma Release_reset_ok:
  assumes ok: "an_ok s" and st: "Release_reset s = Some s'"
  shows "an_ok s'"
proof -
  from ok obtain own where own: "owned_by own s" by (auto simp: an_ok_def)
  from owned_byD(1) [OF own] obtain ws where ws: "wa_at (an_workers s) ws" "distinct (map wk_id ws)" "wk_id ` set ws = {w. own w = OIdle}" by blast
  from wa_reset_ok [OF ws(1)] obtain a where r: "wa_reset (an_workers s) = Some (ws, a)" "wa_at a []" by blast
  with st have s': "s' = s\<lparr>an_workers := a, an_resetting := an_resetting s - 1, an_broadcasting := an_broadcasting s + 1,
      an_wk := (\<lambda>w. if w \<in> wk_id ` set ws then (an_wk s w)\<lparr>wk_chan := wk_chan (an_wk s w) @ [None]\<rparr> else an_wk s w)\<rparr>"
    by (auto simp: Release_reset_def split: if_splits)
  have idle: "own v = OIdle" if "v \<in> wk_id ` set ws" for v using that ws(3) by auto
  show ?thesis
  proof (rule leave_ok [OF ok own idle, where ws = "[]" and ow = OSelf])
    show "wk_id ` set [] = {v. own v = OIdle} - wk_id ` set ws" using ws(3) by simp
  qed (use r(2) owned_byD(3) [OF own] in \<open>simp_all add: s'\<close>)
qed

section \<open>Every step\<close>

lemma blocking_ok: "an_ok s \<Longrightarrow> an_ok (s\<lparr>an_blockingNum := b, an_lock := l\<rparr>)"
  by (rule an_ok_cong [of s]) simp_all

lemma retry_ok: "an_ok s \<Longrightarrow> plain (an_subs s t) \<Longrightarrow> an_ok (retry t cap s)"
  unfolding retry_def by (auto intro!: set_sub_ok blocking_ok)

lemma retrieve_first_ok:
  assumes "an_ok s" "plain (an_subs s t)" "retrieve_first t s = Some s'"
  shows "an_ok s'"
proof -
  from assms(3) obtain x a where d: "wa_detach (an_workers s) = Some (x, a)" by (auto simp: retrieve_first_def bind_eq_Some_conv)
  from detach_ok [OF assms(1, 2) d] assms(2, 3) d show ?thesis
    by (auto simp: retrieve_first_def Let_def intro!: set_sub_ok retry_ok)
qed

lemma retrieve_again_ok:
  assumes "an_ok s" "plain (an_subs s t)" "retrieve_again t cap s = Some s'"
  shows "an_ok s'"
proof -
  let ?s = "s\<lparr>an_blockingNum := an_blockingNum s - 1\<rparr>"
  have ok: "an_ok ?s" by (rule an_ok_cong [OF assms(1)]) simp_all
  show ?thesis
  proof (cases "an_running s = 0")
    case True
    with assms(2, 3) ok show ?thesis by (auto simp: retrieve_again_def Let_def intro!: set_sub_ok)
  next
    case False
    with assms(3) obtain x a where d: "wa_detach (an_workers ?s) = Some (x, a)" by (auto simp: retrieve_again_def bind_eq_Some_conv Let_def)
    from detach_ok [OF ok _ d, of t] assms(2, 3) d False show ?thesis
      by (auto simp: retrieve_again_def Let_def intro!: set_sub_ok retry_ok)
  qed
qed

lemma Submit_step_ok:
  assumes ok: "an_ok s" and st: "Submit_step t choice s = Some s'"
  shows "an_ok s'"
proof (cases "an_subs s t")
  case SNone
  with st ok show ?thesis by (auto simp: Submit_step_def Submit_begin_def intro!: set_sub_ok)
next
  case STry
  with st retrieve_first_ok [OF ok, of t] show ?thesis by (auto simp: Submit_step_def split: if_splits)
next
  case SSpawn
  with st spawn_ok [OF ok, of t] show ?thesis by (auto simp: Submit_step_def)
next
  case (SToWait cap)
  then have "an_ok (set_sub t (SWaiting cap) s)" using ok by (intro set_sub_ok) simp_all
  then have "an_ok (cond_Wait t cap s)" by (rule an_ok_cong) (simp_all add: cond_Wait_def set_sub_def)
  with st SToWait show ?thesis by (simp add: Submit_step_def)
next
  case (SWoken cap)
  with st retrieve_again_ok [OF ok, of t] show ?thesis by (auto simp: Submit_step_def split: if_splits)
next
  case SNoWorker
  with st ok show ?thesis by (auto simp: Submit_step_def retrieve_last_def intro!: set_sub_ok)
next
  case (SSend w)
  with st ok show ?thesis by (auto simp: Submit_step_def intro: send_own_task_ok)
qed (use st in \<open>simp_all add: Submit_step_def\<close>)

lemma an_step_ok:
  assumes ok: "an_ok s" and st: "an_step e s = Some s'"
  shows "an_ok s'"
proof (cases e)
  case (ESubmit t choice)
  with st show ?thesis by (auto simp: an_step_def intro: Submit_step_ok [OF ok])
next
  case (EWorker w now p)
  with st show ?thesis by (auto simp: an_step_def intro: worker_step_ok [OF ok])
next
  case ESignal
  have "an_ok (s\<lparr>an_signals := n\<rparr>)" for n by (rule an_ok_cong [OF ok]) simp_all
  with st ESignal show ?thesis by (auto simp: an_step_def late_signal_def intro!: Signal_ok split: if_splits)
next
  case (EPurgeTick now)
  with st show ?thesis by (auto simp: an_step_def intro: purge_tick_ok [OF ok])
next
  case (EPurgeSend w)
  with st show ?thesis by (auto simp: an_step_def intro: purge_send_ok [OF ok])
next
  case EPurgeCheck
  have "an_ok (s\<lparr>an_purging := m, an_purgers := n\<rparr>)" for m n by (rule an_ok_cong [OF ok]) simp_all
  with st EPurgeCheck show ?thesis by (auto simp: an_step_def purge_check_def Let_def intro!: Broadcast_ok split: if_splits)
next
  case (ETune n)
  with st show ?thesis by (intro an_ok_cong [OF ok]) (auto simp: an_step_def Tune_def split: if_splits)
next
  case ERelease
  with st show ?thesis by (intro an_ok_cong [OF ok]) (auto simp: an_step_def Release_close_def)
next
  case EReset
  with st show ?thesis by (auto simp: an_step_def intro: Release_reset_ok [OF ok])
next
  case EBroadcast
  have "an_ok (s\<lparr>an_broadcasting := n\<rparr>)" for n by (rule an_ok_cong [OF ok]) simp_all
  with st EBroadcast show ?thesis by (auto simp: an_step_def Release_broadcast_def intro!: Broadcast_ok split: if_splits)
next
  case EReboot
  with st show ?thesis by (intro an_ok_cong [OF ok]) (auto simp: an_step_def Reboot_def split: if_splits)
qed

lemma NewPool_ok:
  assumes "NewPool n opts = Some (Inr s)"
  shows "an_ok s"
proof -
  from assms obtain a m c opts' where a: "(if o_PreAlloc opts then newWorkerArray True m else newWorkerArray False 0) = Some a" "o_PreAlloc opts \<Longrightarrow> 0 < m"
    and s: "s = \<lparr>an_options = opts', an_capacity = c, an_running = 0, an_workers = a, an_closed = False,
        an_blockingNum = 0, an_lock = None, an_waiting = [], an_signals = 0, an_cache = [], an_next = 0,
        an_subs = (\<lambda>_. SNone), an_wk = (\<lambda>_. \<lparr>wk_pc = WDead, wk_chan = []\<rparr>), an_expiring = [], an_purgers = 1,
        an_purging = 0, an_resetting = 0, an_broadcasting = 0, an_done = []\<rparr>"
    by (fastforce simp: NewPool_def Let_def bind_eq_Some_conv split: if_splits)
  have "lq_at \<lparr>lq_items = replicate (nat m) None, lq_expiry = [], lq_head = 0, lq_tail = 0, lq_size = m, lq_isFull = False\<rparr> 0 []" if "0 < m"
    using that by (simp add: lq_at_def ring_at_def ring_view_def)
  with a have "wa_at a []"
    by (auto simp: newWorkerArray_def wa_at_def newWorkerStack_def newWorkerLoopQueue_def go_make_def split: if_splits)
  then have "owned_by (\<lambda>_. ONone) s" by (intro owned_byI [of _ "[]"]) (simp_all add: s wk_fits_def)
  then show ?thesis by (rule an_okI) (simp_all add: s tasks_ok_def has_task_def live_def)
qed

lemma reach_ok: "an_reach s0 s \<Longrightarrow> an_ok s0 \<Longrightarrow> an_ok s"
  by (induction rule: an_reach.induct) (auto intro: an_step_ok)

section \<open>Properties\<close>

text \<open>
  C24. Pool accounting: from a new pool and under any interleaving of \<open>Submit\<close>, the workers, the scavengers, \<open>Tune\<close>, \<open>Release\<close> and \<open>Reboot\<close>, no task is
  executed twice, the accepted calls of \<open>Submit\<close> are the tasks that were executed together with those one worker still has, a task is
  at one worker at most and not also executed, and \<open>running\<close> is the number of worker goroutines.\<close>

theorem ants_exactly_once:
  assumes "NewPool n opts = Some (Inr s0)" "an_reach s0 s"
  shows "distinct (an_done s) \<and>
    {t. an_subs s t = SAccepted} = set (an_done s) \<union> {t. \<exists>w. has_task (an_wk s w) t} \<and>
    set (an_done s) \<inter> {t. \<exists>w. has_task (an_wk s w) t} = {} \<and>
    (\<forall>v w t. has_task (an_wk s v) t \<and> has_task (an_wk s w) t \<longrightarrow> v = w) \<and>
    an_running s = int (card {w. wk_pc (an_wk s w) \<noteq> WDead})"
proof -
  have ok: "an_ok s" by (rule reach_ok [OF assms(2) NewPool_ok [OF assms(1)]])
  have tk: "distinct (an_done s)" "\<And>t. t \<in> set (an_done s) \<Longrightarrow> an_subs s t = SAccepted"
    "\<And>w t. has_task (an_wk s w) t \<Longrightarrow> an_subs s t = SAccepted \<and> t \<notin> set (an_done s)"
    "\<And>v w t. has_task (an_wk s v) t \<Longrightarrow> has_task (an_wk s w) t \<Longrightarrow> v = w"
    "\<And>t. an_subs s t = SAccepted \<Longrightarrow> t \<in> set (an_done s) \<or> (\<exists>w. has_task (an_wk s w) t)"
    using an_okD(1) [OF ok] unfolding tasks_ok_def by blast+
  show ?thesis
  proof (intro conjI)
    show "{t. an_subs s t = SAccepted} = set (an_done s) \<union> {t. \<exists>w. has_task (an_wk s w) t}" using tk(2, 3, 5) by blast
    show "set (an_done s) \<inter> {t. \<exists>w. has_task (an_wk s w) t} = {}" using tk(3) by blast
    show "\<forall>v w t. has_task (an_wk s v) t \<and> has_task (an_wk s w) t \<longrightarrow> v = w" using tk(4) by blast
    show "an_running s = int (card {w. wk_pc (an_wk s w) \<noteq> WDead})" using an_okD(3) [OF ok] by (simp add: live_def)
  qed (rule tk(1))
qed

text \<open>A task that the pool has accepted is executed after at most two more steps of the goroutine of its worker, whatever
  the other goroutines hold.\<close>

theorem ants_task_progress:
  assumes "NewPool n opts = Some (Inr s0)" "an_reach s0 s" "an_subs s t = SAccepted" "t \<notin> set (an_done s)"
  shows "\<exists>w s1. worker_step w now panics s = Some s1 \<and>
    (t \<in> set (an_done s1) \<or> (\<exists>s2. worker_step w now panics s1 = Some s2 \<and> t \<in> set (an_done s2)))"
proof -
  have ok: "an_ok s" by (rule reach_ok [OF assms(2) NewPool_ok [OF assms(1)]])
  with assms(3, 4) obtain w where w: "has_task (an_wk s w) t" using an_okD(1) [OF ok] unfolding tasks_ok_def by blast
  from ok obtain own where own: "owned_by own s" by (auto simp: an_ok_def)
  from w owned_byD(8) [OF own, of w] have "wk_pc (an_wk s w) = WRun t \<or> wk_pc (an_wk s w) = WRecv \<and> wk_chan (an_wk s w) = [Some t]"
    by (auto simp: has_task_def wk_fits_def split: owner.splits)
  then show ?thesis
  proof
    assume "wk_pc (an_wk s w) = WRun t"
    then have "\<exists>s1. worker_step w now panics s = Some s1 \<and> t \<in> set (an_done s1)" by (simp add: worker_step_def set_wk_def)
    then show ?thesis by blast
  next
    assume "wk_pc (an_wk s w) = WRecv \<and> wk_chan (an_wk s w) = [Some t]"
    then have "worker_step w now panics s = Some (set_wk w (WRun t) [] s)" by (simp add: worker_step_def)
    moreover have "\<exists>s2. worker_step w now panics (set_wk w (WRun t) [] s) = Some s2 \<and> t \<in> set (an_done s2)"
      by (simp add: worker_step_def set_wk_def)
    ultimately show ?thesis by blast
  qed
qed

section \<open>Schedules\<close>

primrec an_run :: "an_event list \<Rightarrow> ants \<Rightarrow> ants option" where
  "an_run [] s = Some s"
| "an_run (e # es) s = Option.bind (an_step e s) (an_run es)"

lemma an_run_reach: "an_run es s = Some s' \<Longrightarrow> an_reach s0 s \<Longrightarrow> an_reach s0 s'"
  by (induction es arbitrary: s) (auto simp: bind_eq_Some_conv intro: reach_step)

definition plain_options :: options where
  "plain_options = \<lparr>o_ExpiryDuration = 0, o_PreAlloc = False, o_MaxBlockingTasks = 0, o_Nonblocking = False\<rparr>"

definition small_pool :: ants where
  "small_pool = (case NewPool 1 plain_options of Some (Inr s) \<Rightarrow> s | _ \<Rightarrow> undefined)"

lemma small_pool_new: "NewPool 1 plain_options = Some (Inr small_pool)"
  by (simp add: small_pool_def NewPool_def plain_options_def newWorkerArray_def newWorkerStack_def)

definition overfull :: "an_event list" where
  "overfull = [ESubmit 0 None, ESubmit 1 None, ESubmit 0 None, ESubmit 1 None, ESubmit 0 None, ESubmit 1 None, ESubmit 0 None, ESubmit 1 None]"

definition sleeper :: "an_event list" where
  "sleeper = [ESubmit 0 None, ESubmit 0 None, ESubmit 0 None, ESubmit 0 None, EWorker 0 0 False,
     ESubmit 1 None, ERelease, EReset, EBroadcast, EPurgeTick 1, ESubmit 1 None, EWorker 0 0 False, EWorker 0 0 False, EWorker 0 0 False, ESignal, ESubmit 1 None]"

lemma overfull_run: "map_option (\<lambda>s. (an_running s, an_capacity s, an_subs s 0, an_subs s 1, an_done s)) (an_run overfull small_pool) = Some (2, 1, SAccepted, SAccepted, [])"
  by code_simp

lemma sleeper_run: "map_option (\<lambda>s. (an_subs s 1, an_waiting s, an_running s, an_closed s, an_signals s, an_purgers s + an_purging s, an_resetting s + an_broadcasting s)) (an_run sleeper small_pool) = Some (SWaiting 1, [1], 0, True, 0, 0, 0)"
  by code_simp

theorem ants_exactly_once_witness:
  "\<exists>s. an_run overfull small_pool = Some s \<and> distinct (an_done s) \<and>
    {t. an_subs s t = SAccepted} = set (an_done s) \<union> {t. \<exists>w. has_task (an_wk s w) t} \<and>
    an_running s = int (card {w. wk_pc (an_wk s w) \<noteq> WDead})"
proof -
  from overfull_run obtain s where s: "an_run overfull small_pool = Some s" by auto
  from ants_exactly_once [OF small_pool_new an_run_reach [OF s reach_start]] s show ?thesis by blast
qed

text \<open>Two calls of \<open>Submit\<close> that find the pool below its capacity leave the critical section before either has started its worker, and the
  pool runs two workers with a capacity of one.\<close>

theorem capacity_exceeded:
  "\<exists>s0 s. NewPool 1 plain_options = Some (Inr s0) \<and> an_reach s0 s \<and> an_capacity s = 1 \<and> an_running s = 2"
proof -
  from overfull_run obtain s where s: "an_run overfull small_pool = Some s" "an_capacity s = 1" "an_running s = 2" by auto
  from an_run_reach [OF s(1) reach_start] s(2, 3) small_pool_new show ?thesis by blast
qed

text \<open>A size of \<open>2^32\<close> is cut to a capacity of zero: the pool is not unlimited, and a call of \<open>Submit\<close> on the idle pool waits until the scavenger wakes it up.\<close>

theorem capacity_truncated:
  "\<exists>s s'. NewPool (2 ^ 32) plain_options = Some (Inr s) \<and> an_capacity s = 0 \<and> an_run (replicate 3 (ESubmit 0 None)) s = Some s' \<and>
    an_subs s' 0 = SWaiting 0 \<and> an_running s' = 0"
proof -
  have "(case NewPool (2 ^ 32) plain_options of Some (Inr s) \<Rightarrow> map_option (\<lambda>s'. (an_capacity s, an_subs s' 0, an_running s')) (an_run (replicate 3 (ESubmit 0 None)) s)
     | _ \<Rightarrow> None) = Some (0, SWaiting 0, 0)" by code_simp
  then show ?thesis by (auto split: option.splits sum.splits)
qed

text \<open>A call of \<open>Submit\<close> that passed the test of the state before \<open>Release\<close> decides to wait while the last worker runs; the worker ends and
  signals before the call waits. The call then waits in a closed pool with no worker, no scavenger and no signal to come.\<close>

theorem submit_sleeps_after_release:
  "\<exists>s0 s. NewPool 1 plain_options = Some (Inr s0) \<and> an_reach s0 s \<and> an_subs s 1 = SWaiting 1 \<and> an_closed s \<and> an_running s = 0 \<and>
    an_signals s = 0 \<and> an_purgers s + an_purging s = 0 \<and> an_resetting s + an_broadcasting s = 0"
proof -
  from sleeper_run obtain s where s: "an_run sleeper small_pool = Some s" "an_subs s 1 = SWaiting 1" "an_closed s" "an_running s = 0"
    "an_signals s = 0" "an_purgers s + an_purging s = 0" "an_resetting s + an_broadcasting s = 0" by auto
  from an_run_reach [OF s(1) reach_start] s(2-) small_pool_new show ?thesis by blast
qed

end
