(* ===== verification/Linked_List_Props.thy ===== *)
theory Linked_List_Props
  imports Linked_List
begin

text \<open>
  The operations of \<open>container/list\<close> on the ring of elements are the operations on sequences.
  \<open>seg h a xs b\<close> is a doubly linked path from \<open>a\<close> through \<open>xs\<close> to \<open>b\<close>; a list is a path from its
  root back to its root.
\<close>

section \<open>Linked paths\<close>

fun seg :: "'a dl_heap \<Rightarrow> addr \<Rightarrow> addr list \<Rightarrow> addr \<Rightarrow> bool" where
  "seg h a [] b \<longleftrightarrow> dl_next h a = Some b \<and> dl_prev h b = Some a"
| "seg h a (x # xs) b \<longleftrightarrow> dl_next h a = Some x \<and> dl_prev h x = Some a \<and> seg h x xs b"

lemma seg_append: "seg h a (xs @ x # ys) b \<longleftrightarrow> seg h a xs x \<and> seg h x ys b"
  by (induction xs arbitrary: a) auto

lemma seg_first: "seg h a xs b \<Longrightarrow> dl_next h a = Some (hd (xs @ [b]))"
  by (cases xs) auto

lemma seg_last: "seg h a xs b \<Longrightarrow> dl_prev h b = Some (last (a # xs))"
  by (induction xs arbitrary: a) auto

lemma seg_end: "seg h a xs b \<Longrightarrow> dl_next h (last (a # xs)) = Some b"
  by (induction xs arbitrary: a) auto

lemma seg_cong:
  assumes "seg h a xs b" "\<And>e. e \<in> set (a # xs) \<Longrightarrow> dl_next h' e = dl_next h e"
    "\<And>e. e \<in> set (xs @ [b]) \<Longrightarrow> dl_prev h' e = dl_prev h e"
  shows "seg h' a xs b"
  using assms by (induction xs arbitrary: a) auto

text \<open>Redirecting the end of a path.\<close>

lemma seg_redirect:
  assumes "seg h a xs b" "distinct (a # xs)" "c \<notin> set xs"
    "\<And>e. e \<in> set (a # xs) \<Longrightarrow> dl_next h' e = (if e = last (a # xs) then Some c else dl_next h e)"
    "\<And>e. e \<in> set (xs @ [c]) \<Longrightarrow> dl_prev h' e = (if e = c then Some (last (a # xs)) else dl_prev h e)"
  shows "seg h' a xs c"
  using assms
proof (induction xs arbitrary: a)
  case (Cons x xs)
  have l: "last (a # x # xs) = last (x # xs)" by simp
  have "a \<noteq> last (x # xs)" using Cons.prems(2) last_in_set [of "x # xs"] by auto
  then have "dl_next h' a = Some x" "dl_prev h' x = Some a"
    using Cons.prems(1,3) Cons.prems(4) [of a] Cons.prems(5) [of x] by auto
  moreover have "seg h' x xs c"
    using Cons.prems by (intro Cons.IH) (auto simp: l)
  ultimately show ?case by simp
qed simp

lemma seg_unlink:
  assumes "seg h a xs e" "seg h e ys b" "distinct (a # xs @ e # ys)" "b \<notin> set (xs @ e # ys)"
    "dl_next h' = (dl_next h)(last (a # xs) := Some (hd (ys @ [b])))"
    "dl_prev h' = (dl_prev h)(hd (ys @ [b]) := Some (last (a # xs)))"
  shows "seg h' a (xs @ ys) b"
proof (cases ys)
  case Nil
  have "seg h' a xs b" using Nil assms by (intro seg_redirect [OF assms(1)]) auto
  then show ?thesis using Nil by simp
next
  case (Cons n zs)
  have p: "last (a # xs) \<in> set (a # xs)" by (rule last_in_set) simp
  have "seg h' a xs n" using Cons assms by (intro seg_redirect [OF assms(1)]) auto
  moreover have "seg h n zs b" using Cons assms(2) by simp
  then have "seg h' n zs b" using Cons assms(3-6) p by (elim seg_cong) auto
  ultimately show ?thesis using Cons by (simp add: seg_append)
qed

lemma seg_link:
  assumes "seg h a (xs @ ys) b" "distinct (a # xs @ ys)" "b \<notin> set (xs @ ys)" "e \<notin> set (a # b # xs @ ys)"
    "dl_next h' = (dl_next h)(last (a # xs) := Some e, e := Some (hd (ys @ [b])))"
    "dl_prev h' = (dl_prev h)(e := Some (last (a # xs)), hd (ys @ [b]) := Some e)"
  shows "seg h' a (xs @ e # ys) b"
proof -
  have p: "last (a # xs) \<in> set (a # xs)" by (rule last_in_set) simp
  have n: "hd (ys @ [b]) \<in> set (ys @ [b])" by (cases ys) auto
  have s: "seg h a xs (hd (ys @ [b]))" using assms(1) by (cases ys) (auto simp: seg_append)
  have "seg h' a xs e"
    using assms p n by (intro seg_redirect [OF s]) auto
  moreover have "seg h' e ys b"
  proof (cases ys)
    case Nil
    then show ?thesis using assms(4-6) p by auto
  next
    case (Cons m zs)
    have "seg h m zs b" using Cons assms(1) by (simp add: seg_append)
    then have "seg h' m zs b" using Cons assms(2-6) p by (elim seg_cong) auto
    then show ?thesis using Cons assms(4-6) by auto
  qed
  ultimately show ?thesis by (simp add: seg_append)
qed

section \<open>Lists\<close>

text \<open>The store is well formed: an element belongs to an allocated list.\<close>

definition dl_wf :: "'a dl_heap \<Rightarrow> bool" where
  "dl_wf h \<longleftrightarrow> (\<forall>e l. dl_list h e = Some l \<longrightarrow> l < dl_fresh h)"

definition dl_at :: "'a dl_heap \<Rightarrow> addr \<Rightarrow> addr list \<Rightarrow> bool" where
  "dl_at h l as \<longleftrightarrow> seg h l as l \<and> distinct (l # as) \<and> (\<forall>e. dl_list h e = Some l \<longleftrightarrow> e \<in> set as) \<and>
     dl_len h l = int (length as) \<and> (\<forall>e \<in> set (l # as). e < dl_fresh h) \<and> dl_wf h"

lemma dl_atD:
  assumes "dl_at h l as"
  shows "seg h l as l" "distinct (l # as)" "dl_list h e = Some l \<longleftrightarrow> e \<in> set as" "dl_len h l = int (length as)"
    "e \<in> set (l # as) \<Longrightarrow> e < dl_fresh h" "dl_next h l = Some (hd (as @ [l]))" "dl_prev h l = Some (last (l # as))"
    "dl_fresh h \<notin> set (l # as)" "dl_wf h"
  using assms seg_first [of h l as l] seg_last [of h l as l] by (auto simp: dl_at_def)

lemma dl_New_at: "dl_wf h \<Longrightarrow> \<exists>l h'. dl_New h = (l, h') \<and> dl_at h' l []"
  by (auto simp: dl_New_def new_element_def dl_Init_def dl_at_def dl_wf_def Let_def less_Suc_eq split: if_splits)

lemma insert_at:
  assumes "dl_at h l (xs @ ys)" "e \<notin> set (l # xs @ ys)" "e < dl_fresh h"
  shows "\<exists>h'. dl_insert h l e (Some (last (l # xs))) = Some h' \<and> dl_at h' l (xs @ e # ys) \<and>
    dl_value h' = dl_value h \<and> dl_fresh h' = dl_fresh h"
proof -
  let ?p = "last (l # xs)" and ?n = "hd (ys @ [l])"
  note d = dl_atD [OF assms(1)]
  have p: "?p \<in> set (l # xs)" by (rule last_in_set) simp
  have n: "?n \<in> set (ys @ [l])" by (cases ys) auto
  have "seg h l xs ?n" using d(1) by (cases ys) (auto simp: seg_append)
  then have next_p: "dl_next h ?p = Some ?n" by (rule seg_end)
  let ?h = "h\<lparr>dl_next := (dl_next h)(?p := Some e, e := Some ?n), dl_prev := (dl_prev h)(e := Some ?p, ?n := Some e),
    dl_list := (dl_list h)(e := Some l), dl_len := (dl_len h)(l := dl_len h l + 1)\<rparr>"
  have "dl_insert h l e (Some ?p) = Some ?h"
    using next_p by (simp add: dl_insert_def set_next_def set_prev_def Let_def)
  moreover have "seg ?h l (xs @ e # ys) l" using d(1,2) assms(2) by (intro seg_link [of h]) auto
  then have "dl_at ?h l (xs @ e # ys)"
    using assms(1,2,3) by (auto simp: dl_at_def dl_wf_def)
  ultimately show ?thesis by simp
qed

lemma new_element_at:
  assumes "dl_at h l as" "new_element h v = (e, h')"
  shows "e = dl_fresh h" "dl_at h' l as" "e \<notin> set (l # as)" "e < dl_fresh h'" "dl_value h' = (dl_value h)(e := v)"
    "dl_fresh h' = dl_fresh h + 1"
proof -
  note d = dl_atD [OF assms(1)]
  show e: "e = dl_fresh h" "e < dl_fresh h'" "dl_value h' = (dl_value h)(e := v)" "dl_fresh h' = dl_fresh h + 1"
    using assms(2) by (auto simp: new_element_def Let_def)
  show ne: "e \<notin> set (l # as)" using d(8) e by simp
  have "seg h' l as l" by (rule seg_cong [OF d(1)]) (use ne assms(2) in \<open>auto simp: new_element_def Let_def\<close>)
  then show "dl_at h' l as"
    using assms ne by (auto simp: dl_at_def new_element_def dl_wf_def Let_def less_Suc_eq split: if_splits)
qed

lemma insertValue_at:
  assumes "dl_at h l (xs @ ys)"
  shows "\<exists>h'. dl_insertValue h l v (Some (last (l # xs))) = Some (dl_fresh h, h') \<and>
    dl_at h' l (xs @ dl_fresh h # ys) \<and> dl_value h' = (dl_value h)(dl_fresh h := v) \<and> dl_fresh h' = dl_fresh h + 1"
proof -
  obtain e h1 where e: "new_element h v = (e, h1)" by (cases "new_element h v")
  note n = new_element_at [OF assms e]
  from insert_at [OF n(2,3,4)] n e show ?thesis by (auto simp: dl_insertValue_def)
qed

lemma remove_at:
  assumes "dl_at h l (xs @ e # ys)"
  shows "\<exists>h'. dl_remove h l e = Some h' \<and> dl_at h' l (xs @ ys) \<and> dl_value h' = dl_value h \<and> dl_fresh h' = dl_fresh h"
proof -
  let ?p = "last (l # xs)" and ?n = "hd (ys @ [l])"
  note d = dl_atD [OF assms]
  have p: "?p \<in> set (l # xs)" by (rule last_in_set) simp
  have n: "?n \<in> set (ys @ [l])" by (cases ys) auto
  have s: "seg h l xs e" "seg h e ys l" using d(1) by (simp_all add: seg_append)
  have pe: "?p \<noteq> e" "?n \<noteq> e" using p n d(2) by auto
  let ?h = "h\<lparr>dl_next := (dl_next h)(?p := Some ?n, e := None), dl_prev := (dl_prev h)(?n := Some ?p, e := None),
    dl_list := (dl_list h)(e := None), dl_len := (dl_len h)(l := dl_len h l - 1)\<rparr>"
  let ?g = "h\<lparr>dl_next := (dl_next h)(?p := Some ?n), dl_prev := (dl_prev h)(?n := Some ?p)\<rparr>"
  have "dl_remove h l e = Some ?h"
    using seg_last [OF s(1)] seg_first [OF s(2)] pe by (simp add: dl_remove_def set_next_def set_prev_def)
  moreover have "seg ?g l (xs @ ys) l" using d(2) by (intro seg_unlink [OF s]) auto
  then have "seg ?h l (xs @ ys) l" by (rule seg_cong) (use d(2) in auto)
  then have "dl_at ?h l (xs @ ys)"
    using assms by (auto simp: dl_at_def dl_wf_def)
  ultimately show ?thesis by simp
qed

lemma dl_move_eq:
  fixes h :: "'a dl_heap"
  defines "g \<equiv> \<lambda>p n. h\<lparr>dl_next := (dl_next h)(p := Some n), dl_prev := (dl_prev h)(n := Some p)\<rparr>"
  assumes "p \<noteq> e" "n \<noteq> e" "a \<noteq> e" "dl_prev h e = Some p" "dl_next h e = Some n" "dl_next (g p n) a = Some m"
  shows "dl_move h e (Some a) =
    Some ((g p n)\<lparr>dl_next := (dl_next (g p n))(a := Some e, e := Some m), dl_prev := (dl_prev (g p n))(e := Some a, m := Some e)\<rparr>)"
  using assms(2-6) assms(7) unfolding g_def
  by (auto simp: dl_move_def set_next_def set_prev_def)

lemma move_at:
  assumes "dl_at h l (xs @ e # ys)" "xs @ ys = us @ ws"
  shows "\<exists>h'. dl_move h e (Some (last (l # us))) = Some h' \<and> dl_at h' l (us @ e # ws) \<and>
    dl_value h' = dl_value h \<and> dl_fresh h' = dl_fresh h"
proof -
  let ?p = "last (l # xs)" and ?n = "hd (ys @ [l])" and ?a = "last (l # us)" and ?m = "hd (ws @ [l])"
  note d = dl_atD [OF assms(1)]
  have n: "?n \<in> set (ys @ [l])" by (cases ys) auto
  have dist: "distinct (l # us @ ws)" "e \<notin> set (l # us @ ws)" unfolding assms(2) [symmetric] using d(2) by auto
  have s: "seg h l xs e" "seg h e ys l" using d(1) by (simp_all add: seg_append)
  have pe: "?p \<noteq> e" "?n \<noteq> e" "?a \<noteq> e"
    using last_in_set [of "l # xs"] last_in_set [of "l # us"] n d(2) dist(2) by auto
  let ?g = "h\<lparr>dl_next := (dl_next h)(?p := Some ?n), dl_prev := (dl_prev h)(?n := Some ?p)\<rparr>"
  have g: "seg ?g l (us @ ws) l" unfolding assms(2) [symmetric] using d(2) by (intro seg_unlink [OF s]) auto
  then have "seg ?g l us ?m" by (cases ws) (auto simp: seg_append)
  then have next_a: "dl_next ?g ?a = Some ?m" by (rule seg_end)
  let ?h = "?g\<lparr>dl_next := (dl_next ?g)(?a := Some e, e := Some ?m), dl_prev := (dl_prev ?g)(e := Some ?a, ?m := Some e)\<rparr>"
  have mv: "dl_move h e (Some ?a) = Some ?h"
    using seg_last [OF s(1)] seg_first [OF s(2)] next_a by (intro dl_move_eq pe)
  have "seg ?h l (us @ e # ws) l" using dist g by (intro seg_link [of ?g]) auto
  moreover have "set (us @ e # ws) = set (xs @ e # ys)" "length (us @ e # ws) = length (xs @ e # ys)"
    using arg_cong [OF assms(2), of set] arg_cong [OF assms(2), of length] by auto
  then have "(dl_list h x = Some l) = (x \<in> set (us @ e # ws))" "dl_len h l = int (length (us @ e # ws))"
      "x \<in> set (l # us @ e # ws) \<Longrightarrow> x < dl_fresh h" for x
    using d(3) [of x] d(4) d(5) [of x] by auto
  ultimately have "dl_at ?h l (us @ e # ws)"
    using dist d(9) unfolding dl_at_def dl_wf_def by simp
  with mv show ?thesis by simp
qed

section \<open>The public operations\<close>

lemma not_lazy: "dl_at h l as \<Longrightarrow> dl_lazyInit h l = h"
  using dl_atD(6) by (fastforce simp: dl_lazyInit_def)

lemma PushFront_at:
  assumes "dl_at h l as"
  shows "\<exists>h'. dl_PushFront h l v = Some (dl_fresh h, h') \<and> dl_at h' l (dl_fresh h # as) \<and>
    dl_value h' = (dl_value h)(dl_fresh h := v) \<and> dl_fresh h' = dl_fresh h + 1"
  using insertValue_at [of h l "[]" as v] assms by (simp add: dl_PushFront_def not_lazy)

lemma PushBack_at:
  assumes "dl_at h l as"
  shows "\<exists>h'. dl_PushBack h l v = Some (dl_fresh h, h') \<and> dl_at h' l (as @ [dl_fresh h]) \<and>
    dl_value h' = (dl_value h)(dl_fresh h := v) \<and> dl_fresh h' = dl_fresh h + 1"
  using insertValue_at [of h l as "[]" v] dl_atD(7) [OF assms] assms
  by (simp add: dl_PushBack_def not_lazy del: last.simps)

lemma Back_at: "dl_at h l as \<Longrightarrow> dl_Back h l = (if as = [] then None else Some (last as))"
  using dl_atD(4,7) [of h l as] by (auto simp: dl_Back_def)

lemma Front_at: "dl_at h l as \<Longrightarrow> dl_Front h l = (if as = [] then None else Some (hd as))"
  using dl_atD(4,6) [of h l as] by (auto simp: dl_Front_def)

lemma Remove_at:
  assumes "dl_at h l (xs @ e # ys)"
  shows "\<exists>h'. dl_Remove h l e = Some (dl_value h e, h') \<and> dl_at h' l (xs @ ys) \<and> dl_value h' = dl_value h \<and>
    dl_fresh h' = dl_fresh h"
  using remove_at [OF assms] dl_atD(3) [OF assms, of e] by (auto simp: dl_Remove_def)

lemma MoveToFront_at:
  assumes "dl_at h l (xs @ e # ys)"
  shows "\<exists>h'. dl_MoveToFront h l e = Some h' \<and> dl_at h' l (e # xs @ ys) \<and> dl_value h' = dl_value h \<and>
    dl_fresh h' = dl_fresh h"
proof (cases "xs = []")
  case True
  then have "dl_next h l = Some e" using dl_atD(6) [OF assms] by simp
  with True assms show ?thesis by (simp add: dl_MoveToFront_def)
next
  case False
  then have "dl_next h l \<noteq> Some e" using dl_atD(2,6) [OF assms] by (cases xs) auto
  with move_at [OF assms, of "[]" "xs @ ys"] dl_atD(3) [OF assms, of e] show ?thesis
    by (simp add: dl_MoveToFront_def)
qed

lemma MoveToBack_at:
  assumes "dl_at h l (xs @ e # ys)"
  shows "\<exists>h'. dl_MoveToBack h l e = Some h' \<and> dl_at h' l (xs @ ys @ [e]) \<and> dl_value h' = dl_value h \<and>
    dl_fresh h' = dl_fresh h"
proof (cases "ys = []")
  case True
  then have "dl_prev h l = Some e" using dl_atD(7) [OF assms] by simp
  with True assms show ?thesis by (simp add: dl_MoveToBack_def)
next
  case False
  then have p: "dl_prev h l = Some (last (l # xs @ ys))" using dl_atD(7) [OF assms] by auto
  have "last ys \<noteq> e" using dl_atD(2) [OF assms] last_in_set [OF False] by auto
  with move_at [OF assms, of "xs @ ys" "[]"] dl_atD(3) [OF assms, of e] p False show ?thesis
    by (simp add: dl_MoveToBack_def)
qed

lemma prev_at: "dl_at h l (xs @ e # ys) \<Longrightarrow> dl_prev h e = Some (last (l # xs))"
  using dl_atD(1) [of h l "xs @ e # ys"] seg_last by (fastforce simp: seg_append)

lemma InsertAfter_at:
  assumes "dl_at h l (xs @ mark # ys)"
  shows "\<exists>h'. dl_InsertAfter h l v mark = Some (Some (dl_fresh h), h') \<and> dl_at h' l (xs @ mark # dl_fresh h # ys) \<and>
    dl_value h' = (dl_value h)(dl_fresh h := v)"
  using insertValue_at [of h l "xs @ [mark]" ys v] dl_atD(3) [OF assms, of mark] assms by (auto simp: dl_InsertAfter_def)

lemma InsertBefore_at:
  assumes "dl_at h l (xs @ mark # ys)"
  shows "\<exists>h'. dl_InsertBefore h l v mark = Some (Some (dl_fresh h), h') \<and> dl_at h' l (xs @ dl_fresh h # mark # ys) \<and>
    dl_value h' = (dl_value h)(dl_fresh h := v)"
  using insertValue_at [of h l xs "mark # ys" v] dl_atD(3) [OF assms, of mark] prev_at [OF assms] assms
  by (auto simp: dl_InsertBefore_def simp del: last.simps)

text \<open>Where the predecessor of \<open>mark\<close> is, relative to the sequence without \<open>e\<close>.\<close>

lemma prev_without:
  assumes "dl_at h l (xs @ e # ys)" "xs @ ys = us @ mark # ws"
  shows "dl_prev h mark = Some (last (l # us)) \<or> dl_prev h mark = Some e \<and> xs = us \<and> ys = mark # ws"
proof -
  from assms(2) consider zs where "xs = us @ zs" "zs @ ys = mark # ws" | zs where "us = xs @ zs" "ys = zs @ mark # ws"
    by (auto simp: append_eq_append_conv2)
  then show ?thesis
  proof cases
    case (1 zs)
    then show ?thesis
      using prev_at [of h l us mark "tl zs @ e # ys"] prev_at [of h l "xs @ [e]" mark ws] assms(1) by (cases zs) auto
  next
    case (2 zs)
    then show ?thesis using prev_at [of h l "xs @ e # zs" mark ws] assms(1) by (cases "zs = []") auto
  qed
qed

lemma marked:
  assumes "dl_at h l (xs @ e # ys)" "xs @ ys = us @ mark # ws"
  shows "dl_list h e = Some l" "dl_list h mark = Some l" "e \<noteq> mark"
proof -
  have "mark \<in> set (xs @ ys)" using assms(2) by simp
  then show "dl_list h e = Some l" "dl_list h mark = Some l" "e \<noteq> mark"
    using dl_atD(2,3) [OF assms(1)] by auto
qed

lemma MoveAfter_at:
  assumes "dl_at h l (xs @ e # ys)" "xs @ ys = us @ mark # ws"
  shows "\<exists>h'. dl_MoveAfter h l e mark = Some h' \<and> dl_at h' l (us @ mark # e # ws) \<and> dl_value h' = dl_value h"
  using move_at [OF assms(1), of "us @ [mark]" ws] marked [OF assms] assms(2) by (auto simp: dl_MoveAfter_def)

lemma MoveBefore_at:
  assumes "dl_at h l (xs @ e # ys)" "xs @ ys = us @ mark # ws"
  shows "\<exists>h'. dl_MoveBefore h l e mark = Some h' \<and> dl_at h' l (us @ e # mark # ws) \<and> dl_value h' = dl_value h"
proof -
  from prev_without [OF assms] show ?thesis
  proof
    assume "dl_prev h mark = Some (last (l # us))"
    with move_at [OF assms(1), of us "mark # ws"] marked [OF assms] assms(2) show ?thesis
      by (auto simp: dl_MoveBefore_def simp del: last.simps)
  next
    assume "dl_prev h mark = Some e \<and> xs = us \<and> ys = mark # ws"
    with assms(1) marked [OF assms] show ?thesis by (simp add: dl_MoveBefore_def dl_move_def)
  qed
qed

section \<open>Properties\<close>

text \<open>
  The pointer manipulations of \<open>container/list\<close> implement sequences: on a list whose elements
  are \<open>xs @ e # ys\<close>, no operation panics; \<open>PushFront\<close> and \<open>PushBack\<close> add a new element at the
  end they name, \<open>InsertBefore\<close> and \<open>InsertAfter\<close> next to \<open>e\<close>, \<open>Remove\<close> takes \<open>e\<close> out and returns
  its value, \<open>MoveToFront\<close> and \<open>MoveToBack\<close> move \<open>e\<close>, all other elements keep their order
  and every element keeps its value; \<open>Front\<close>, \<open>Back\<close> and \<open>Len\<close> read the sequence.
\<close>

theorem container_list_refines:
  assumes "dl_at h l (xs @ e # ys)"
  defines "n \<equiv> dl_fresh h"
  shows "(\<exists>h'. dl_PushFront h l v = Some (n, h') \<and> dl_at h' l (n # xs @ e # ys) \<and> dl_value h' = (dl_value h)(n := v)) \<and>
    (\<exists>h'. dl_PushBack h l v = Some (n, h') \<and> dl_at h' l (xs @ e # ys @ [n]) \<and> dl_value h' = (dl_value h)(n := v)) \<and>
    (\<exists>h'. dl_InsertBefore h l v e = Some (Some n, h') \<and> dl_at h' l (xs @ n # e # ys) \<and> dl_value h' = (dl_value h)(n := v)) \<and>
    (\<exists>h'. dl_InsertAfter h l v e = Some (Some n, h') \<and> dl_at h' l (xs @ e # n # ys) \<and> dl_value h' = (dl_value h)(n := v)) \<and>
    (\<exists>h'. dl_Remove h l e = Some (dl_value h e, h') \<and> dl_at h' l (xs @ ys) \<and> dl_value h' = dl_value h) \<and>
    (\<exists>h'. dl_MoveToFront h l e = Some h' \<and> dl_at h' l (e # xs @ ys) \<and> dl_value h' = dl_value h) \<and>
    (\<exists>h'. dl_MoveToBack h l e = Some h' \<and> dl_at h' l (xs @ ys @ [e]) \<and> dl_value h' = dl_value h) \<and>
    dl_Front h l = Some (hd (xs @ [e])) \<and> dl_Back h l = Some (last (e # ys)) \<and> dl_Len h l = int (length xs + length ys + 1)"
proof (intro conjI)
  show "dl_Front h l = Some (hd (xs @ [e]))" using Front_at [OF assms(1)] by (cases xs) auto
  show "dl_Back h l = Some (last (e # ys))" using Back_at [OF assms(1)] by simp
  show "dl_Len h l = int (length xs + length ys + 1)" using dl_atD(4) [OF assms(1)] by (simp add: dl_Len_def)
qed (unfold n_def, use PushFront_at [OF assms(1), of v] PushBack_at [OF assms(1), of v] InsertBefore_at [OF assms(1), of v]
  InsertAfter_at [OF assms(1), of v] Remove_at [OF assms(1)] MoveToFront_at [OF assms(1)] MoveToBack_at [OF assms(1)] in auto)

text \<open>The list with the elements 1 and 2 of a fresh store.\<close>

definition sample_list :: "char dl_heap" where
  "sample_list = \<lparr>dl_next = [0 \<mapsto> 1, 1 \<mapsto> 2, 2 \<mapsto> 0], dl_prev = [0 \<mapsto> 2, 1 \<mapsto> 0, 2 \<mapsto> 1], dl_list = [1 \<mapsto> 0, 2 \<mapsto> 0],
     dl_value = [1 \<mapsto> CHR ''a'', 2 \<mapsto> CHR ''b''], dl_len = (\<lambda>_. 0)(0 := 2), dl_fresh = 3\<rparr>"

lemma sample_list_at: "dl_at sample_list 0 ([1] @ 2 # [])"
  by (auto simp: sample_list_def dl_at_def dl_wf_def split: if_splits)

theorem container_list_refines_witness:
  "\<exists>h'. dl_MoveToFront sample_list 0 2 = Some h' \<and> dl_at h' 0 [2, 1] \<and> dl_value h' = dl_value sample_list"
  using container_list_refines [OF sample_list_at] by simp

end
