(* ===== verification/Lru_Cache.thy ===== *)
theory Lru_Cache
  imports Linked_List_Props Evicting_Map
begin

text \<open>
  The LRU cache of \<open>groupcache/lru/lru.go\<close>: a map from keys to the elements of a
  \<open>container/list\<close>, the most recently used entry first. The state holds the store of the list
  elements and the log of the calls of \<open>OnEvicted\<close>; whether this callback is set is
  \<open>lru_OnEvicted\<close>. The lemmas show that the cache is a list of entries ordered by recency.
\<close>

section \<open>The cache\<close>

record ('k, 'v) lru_cache =
  lru_MaxEntries :: int
  lru_OnEvicted :: bool
  lru_ll :: "addr option"
  lru_map :: "('k \<Rightarrow> addr option) option"
  lru_heap :: "('k \<times> 'v) dl_heap"
  lru_evicted :: "('k \<times> 'v) list"

definition lru_New :: "('k \<times> 'v) dl_heap \<Rightarrow> int \<Rightarrow> ('k, 'v) lru_cache" where
  "lru_New h maxEntries =
     (let (l, h) = dl_New h
      in \<lparr>lru_MaxEntries = maxEntries, lru_OnEvicted = False, lru_ll = Some l, lru_map = Some Map.empty,
          lru_heap = h, lru_evicted = []\<rparr>)"

definition lru_removeElement :: "('k, 'v) lru_cache \<Rightarrow> addr \<Rightarrow> ('k, 'v) lru_cache option" where
  "lru_removeElement c e = do {
     l \<leftarrow> lru_ll c;
     (_, h) \<leftarrow> dl_Remove (lru_heap c) l e;
     kv \<leftarrow> dl_value h e;
     let c = c\<lparr>lru_heap := h, lru_map := map_option (\<lambda>m. m(fst kv := None)) (lru_map c)\<rparr>;
     Some (if lru_OnEvicted c then c\<lparr>lru_evicted := lru_evicted c @ [kv]\<rparr> else c)
   }"

definition lru_RemoveOldest :: "('k, 'v) lru_cache \<Rightarrow> ('k, 'v) lru_cache option" where
  "lru_RemoveOldest c =
     (case lru_map c of
        None \<Rightarrow> Some c
      | Some _ \<Rightarrow> do {
          l \<leftarrow> lru_ll c;
          case dl_Back (lru_heap c) l of
            None \<Rightarrow> Some c
          | Some ele \<Rightarrow> lru_removeElement c ele
        })"

text \<open>\<open>ee.Value.(*entry).value = value\<close>: a type assertion on nil panics.\<close>

definition set_entry_value :: "('k \<times> 'v) dl_heap \<Rightarrow> addr \<Rightarrow> 'v \<Rightarrow> ('k \<times> 'v) dl_heap option" where
  "set_entry_value h e v = do {
     kv \<leftarrow> dl_value h e;
     Some (h\<lparr>dl_value := (dl_value h)(e := Some (fst kv, v))\<rparr>)
   }"

definition lru_Add :: "('k, 'v) lru_cache \<Rightarrow> 'k \<Rightarrow> 'v \<Rightarrow> ('k, 'v) lru_cache option" where
  "lru_Add c key v = do {
     let c = (case lru_map c of
         None \<Rightarrow> (let (l, h) = dl_New (lru_heap c) in c\<lparr>lru_map := Some Map.empty, lru_ll := Some l, lru_heap := h\<rparr>)
       | Some _ \<Rightarrow> c);
     m \<leftarrow> lru_map c;
     l \<leftarrow> lru_ll c;
     case m key of
       Some ee \<Rightarrow> do {
         h \<leftarrow> dl_MoveToFront (lru_heap c) l ee;
         h \<leftarrow> set_entry_value h ee v;
         Some (c\<lparr>lru_heap := h\<rparr>)
       }
     | None \<Rightarrow> do {
         (ele, h) \<leftarrow> dl_PushFront (lru_heap c) l (Some (key, v));
         let c = c\<lparr>lru_heap := h, lru_map := Some (m(key \<mapsto> ele))\<rparr>;
         if lru_MaxEntries c \<noteq> 0 \<and> dl_Len h l > lru_MaxEntries c then lru_RemoveOldest c else Some c
       }
   }"

definition lru_Get :: "('k, 'v) lru_cache \<Rightarrow> 'k \<Rightarrow> ('v option \<times> ('k, 'v) lru_cache) option" where
  "lru_Get c key =
     (case lru_map c of
        None \<Rightarrow> Some (None, c)
      | Some m \<Rightarrow>
          (case m key of
             None \<Rightarrow> Some (None, c)
           | Some ele \<Rightarrow> do {
               l \<leftarrow> lru_ll c;
               h \<leftarrow> dl_MoveToFront (lru_heap c) l ele;
               kv \<leftarrow> dl_value h ele;
               Some (Some (snd kv), c\<lparr>lru_heap := h\<rparr>)
             }))"

definition lru_Remove :: "('k, 'v) lru_cache \<Rightarrow> 'k \<Rightarrow> ('k, 'v) lru_cache option" where
  "lru_Remove c key =
     (case lru_map c of
        None \<Rightarrow> Some c
      | Some m \<Rightarrow> (case m key of None \<Rightarrow> Some c | Some ele \<Rightarrow> lru_removeElement c ele))"

definition lru_Len :: "('k, 'v) lru_cache \<Rightarrow> int option" where
  "lru_Len c = (case lru_map c of None \<Rightarrow> Some 0 | Some _ \<Rightarrow> do { l \<leftarrow> lru_ll c; Some (dl_Len (lru_heap c) l) })"

text \<open>\<open>Clear\<close>: the map is ranged over in an order that Go does not fix; it is the argument
  \<open>order\<close>, a list of all keys of the map.\<close>

fun lru_announce :: "('k, 'v) lru_cache \<Rightarrow> 'k list \<Rightarrow> ('k, 'v) lru_cache option" where
  "lru_announce c [] = Some c"
| "lru_announce c (k # ks) = do {
     m \<leftarrow> lru_map c;
     e \<leftarrow> m k;
     kv \<leftarrow> dl_value (lru_heap c) e;
     lru_announce (c\<lparr>lru_evicted := lru_evicted c @ [kv]\<rparr>) ks
   }"

definition lru_Clear :: "('k, 'v) lru_cache \<Rightarrow> 'k list \<Rightarrow> ('k, 'v) lru_cache option" where
  "lru_Clear c order = do {
     c \<leftarrow> (if lru_OnEvicted c then lru_announce c order else Some c);
     Some (c\<lparr>lru_ll := None, lru_map := None\<rparr>)
   }"

section \<open>The specification: entries in the order of their last use\<close>

definition without :: "'k \<Rightarrow> ('k \<times> 'v) list \<Rightarrow> ('k \<times> 'v) list" where
  "without k kvs = filter (\<lambda>kv. fst kv \<noteq> k) kvs"

text \<open>The entries after an operation, and the entries it evicts.\<close>

definition spec_Add :: "int \<Rightarrow> 'k \<Rightarrow> 'v \<Rightarrow> ('k \<times> 'v) list \<Rightarrow> ('k \<times> 'v) list \<times> ('k \<times> 'v) list" where
  "spec_Add mx k v kvs =
     (if k \<in> fst ` set kvs then ((k, v) # without k kvs, [])
      else if mx \<noteq> 0 \<and> int (length kvs) + 1 > mx then (butlast ((k, v) # kvs), [last ((k, v) # kvs)])
      else ((k, v) # kvs, []))"

definition spec_Get :: "'k \<Rightarrow> ('k \<times> 'v) list \<Rightarrow> 'v option \<times> ('k \<times> 'v) list" where
  "spec_Get k kvs =
     (case map_of kvs k of None \<Rightarrow> (None, kvs) | Some v \<Rightarrow> (Some v, (k, v) # without k kvs))"

definition spec_Remove :: "'k \<Rightarrow> ('k \<times> 'v) list \<Rightarrow> ('k \<times> 'v) list \<times> ('k \<times> 'v) list" where
  "spec_Remove k kvs = (without k kvs, filter (\<lambda>kv. fst kv = k) kvs)"

definition spec_RemoveOldest :: "('k \<times> 'v) list \<Rightarrow> ('k \<times> 'v) list \<times> ('k \<times> 'v) list" where
  "spec_RemoveOldest kvs = (if kvs = [] then ([], []) else (butlast kvs, [last kvs]))"

section \<open>The cache represents a list of entries\<close>

definition keyv :: "'k \<times> 'v \<times> addr \<Rightarrow> 'k \<times> 'v" where
  "keyv p = (case p of (k, v, a) \<Rightarrow> (k, v))"

definition node :: "'k \<times> 'v \<times> addr \<Rightarrow> addr" where
  "node p = (case p of (k, v, a) \<Rightarrow> a)"

definition slot :: "'k \<times> 'v \<times> addr \<Rightarrow> 'k \<times> addr" where
  "slot p = (case p of (k, v, a) \<Rightarrow> (k, a))"

lemma triple_simps [simp]: "keyv (k, v, a) = (k, v)" "node (k, v, a) = a" "slot (k, v, a) = (k, a)"
  by (simp_all add: keyv_def node_def slot_def)

lemma fst_slot [simp]: "fst (slot p) = fst (keyv p)"
  by (cases p) simp

definition lru_at :: "('k, 'v) lru_cache \<Rightarrow> addr \<Rightarrow> ('k \<times> 'v \<times> addr) list \<Rightarrow> bool" where
  "lru_at c l ps \<longleftrightarrow> lru_ll c = Some l \<and> lru_map c = Some (map_of (map slot ps)) \<and>
     dl_at (lru_heap c) l (map node ps) \<and> (\<forall>p \<in> set ps. dl_value (lru_heap c) (node p) = Some (keyv p)) \<and>
     distinct (map (fst \<circ> keyv) ps)"

definition lru_rep :: "('k, 'v) lru_cache \<Rightarrow> ('k \<times> 'v) list \<Rightarrow> bool" where
  "lru_rep c kvs \<longleftrightarrow> (lru_map c = None \<and> kvs = [] \<and> dl_wf (lru_heap c)) \<or> (\<exists>l ps. lru_at c l ps \<and> kvs = map keyv ps)"

text \<open>An operation leaves the configuration alone and logs the evicted entries if there is a
  callback.\<close>

definition lru_step :: "('k, 'v) lru_cache \<Rightarrow> ('k, 'v) lru_cache \<Rightarrow> ('k \<times> 'v) list \<Rightarrow> bool" where
  "lru_step c c' evs \<longleftrightarrow> lru_MaxEntries c' = lru_MaxEntries c \<and> lru_OnEvicted c' = lru_OnEvicted c \<and>
     lru_evicted c' = lru_evicted c @ (if lru_OnEvicted c then evs else [])"

lemma lru_New_rep: "dl_wf h \<Longrightarrow> lru_rep (lru_New h mx) []"
  using dl_New_at [of h] by (auto simp: lru_New_def lru_rep_def lru_at_def)

lemma lru_atD:
  assumes "lru_at c l ps"
  shows "lru_ll c = Some l" "lru_map c = Some (map_of (map slot ps))" "dl_at (lru_heap c) l (map node ps)"
    "p \<in> set ps \<Longrightarrow> dl_value (lru_heap c) (node p) = Some (keyv p)" "distinct (map (fst \<circ> keyv) ps)"
  using assms by (auto simp: lru_at_def)

lemma without_absent: "k \<notin> fst ` set kvs \<Longrightarrow> without k kvs = kvs"
  by (force simp: without_def filter_id_conv)

lemma without_split:
  "distinct (map (fst \<circ> keyv) (us @ (k, v, a) # ws)) \<Longrightarrow>
     without k (map keyv (us @ (k, v, a) # ws)) = map keyv (us @ ws)"
  using without_absent [of k "map keyv us"] without_absent [of k "map keyv ws"]
  by (auto simp: without_def image_image)

lemma slots_perm:
  "distinct (map (fst \<circ> keyv) ps) \<Longrightarrow> distinct (map (fst \<circ> keyv) qs) \<Longrightarrow> set ps = set qs \<Longrightarrow>
     map_of (map slot ps) = map_of (map slot qs)"
  by (subst map_of_inject_set) (auto simp: comp_def)

lemma slot_found:
  assumes "lru_at c l ps" "map_of (map slot ps) k = Some a"
  obtains us v ws where "ps = us @ (k, v, a) # ws"
proof -
  have "(k, a) \<in> set (map slot ps)" using assms(2) by (rule map_of_SomeD)
  then obtain v where "(k, v, a) \<in> set ps" by (auto simp: slot_def split: prod.splits)
  then show thesis using that by (auto dest: split_list)
qed

lemma removeElement_at:
  assumes "lru_at c l (us @ (k, v, a) # ws)"
  shows "\<exists>c'. lru_removeElement c a = Some c' \<and> lru_at c' l (us @ ws) \<and> lru_step c c' [(k, v)]"
proof -
  note d = lru_atD [OF assms]
  have "dl_at (lru_heap c) l (map node us @ a # map node ws)" using d(3) by simp
  from Remove_at [OF this] obtain h where
    h: "dl_Remove (lru_heap c) l a = Some (dl_value (lru_heap c) a, h)" "dl_at h l (map node (us @ ws))"
      "dl_value h = dl_value (lru_heap c)" by auto
  have val: "dl_value h a = Some (k, v)" using d(4) [of "(k, v, a)"] h(3) by simp
  have k: "k \<notin> fst ` set (map slot (us @ ws))" using d(5) by (simp add: image_image image_Un)
  have m: "(map_of (map slot (us @ (k, v, a) # ws)))(k := None) = map_of (map slot (us @ ws))"
  proof
    fix x
    have "map_of (map slot (us @ ws)) k = None" using k by (simp only: map_of_eq_None_iff not_False_eq_True)
    then show "((map_of (map slot (us @ (k, v, a) # ws)))(k := None)) x = map_of (map slot (us @ ws)) x"
      by (auto simp: map_add_def split: option.splits)
  qed
  let ?c = "c\<lparr>lru_heap := h, lru_map := Some (map_of (map slot (us @ ws)))\<rparr>"
  have "lru_removeElement c a = Some (if lru_OnEvicted c then ?c\<lparr>lru_evicted := lru_evicted c @ [(k, v)]\<rparr> else ?c)"
    using d(1,2) h val m by (simp add: lru_removeElement_def del: map_append)
  moreover have "lru_at ?c l (us @ ws)" using h d(1,4,5) by (auto simp: lru_at_def)
  ultimately show ?thesis by (auto simp: lru_at_def lru_step_def)
qed

lemma RemoveOldest_at:
  assumes "lru_at c l ps"
  shows "\<exists>c' qs. lru_RemoveOldest c = Some c' \<and> lru_at c' l qs \<and>
    (map keyv qs, if ps = [] then [] else [keyv (last ps)]) = spec_RemoveOldest (map keyv ps) \<and>
    lru_step c c' (snd (spec_RemoveOldest (map keyv ps)))"
proof (cases ps rule: rev_cases)
  case Nil
  then have "lru_RemoveOldest c = Some c"
    using Back_at [OF lru_atD(3) [OF assms]] lru_atD(1,2) [OF assms] by (simp add: lru_RemoveOldest_def)
  with Nil assms show ?thesis by (auto simp: spec_RemoveOldest_def lru_step_def intro!: exI [of _ "[]"])
next
  case (snoc us p)
  obtain k v a where p: "p = (k, v, a)" by (cases p)
  have "lru_RemoveOldest c = lru_removeElement c a"
    using Back_at [OF lru_atD(3) [OF assms]] lru_atD(1,2) [OF assms] snoc p by (simp add: lru_RemoveOldest_def)
  with removeElement_at [of c l us k v a "[]"] assms snoc p show ?thesis
    by (auto simp: spec_RemoveOldest_def butlast_append)
qed

lemma move_front_at:
  assumes "lru_at c l (us @ (k, v, a) # ws)"
  shows "\<exists>h. dl_MoveToFront (lru_heap c) l a = Some h \<and> dl_value h = dl_value (lru_heap c) \<and>
    lru_at (c\<lparr>lru_heap := h\<rparr>) l ((k, v, a) # us @ ws) \<and>
    lru_at (c\<lparr>lru_heap := h\<lparr>dl_value := (dl_value h)(a := Some (k, w))\<rparr>\<rparr>) l ((k, w, a) # us @ ws)"
proof -
  note d = lru_atD [OF assms]
  have "dl_at (lru_heap c) l (map node us @ a # map node ws)" using d(3) by simp
  from MoveToFront_at [OF this] obtain h where
    h: "dl_MoveToFront (lru_heap c) l a = Some h" "dl_at h l (map node ((k, v, a) # us @ ws))"
      "dl_value h = dl_value (lru_heap c)" by auto
  have dist: "distinct (map (fst \<circ> keyv) ((k, v, a) # us @ ws))" using d(5) by auto
  then have m: "map_of (map slot (us @ (k, v, a) # ws)) = map_of (map slot ((k, v, a) # us @ ws))"
    using d(5) by (intro slots_perm) auto
  have 1: "lru_at (c\<lparr>lru_heap := h\<rparr>) l ((k, v, a) # us @ ws)"
    unfolding lru_at_def using d(1,2,4) h m dist by auto
  have same: "seg (h\<lparr>dl_value := x\<rparr>) b xs e = seg h b xs e" for x b xs e
    by (induction xs arbitrary: b) auto
  then have "dl_at (h\<lparr>dl_value := x\<rparr>) l xs = dl_at h l xs" for x xs
    by (simp add: dl_at_def dl_wf_def)
  moreover have "a \<notin> node ` set (us @ ws)" using dl_atD(2) [OF h(2)] by auto
  ultimately have "lru_at (c\<lparr>lru_heap := h\<lparr>dl_value := (dl_value h)(a := Some (k, w))\<rparr>\<rparr>) l ((k, w, a) # us @ ws)"
    using 1 by (auto simp: lru_at_def)
  with 1 h show ?thesis by auto
qed

section \<open>Every operation follows the specification\<close>

lemma lru_Add_at:
  assumes "lru_at c l ps"
  shows "\<exists>c' qs. lru_Add c k v = Some c' \<and> lru_at c' l qs \<and>
    map keyv qs = fst (spec_Add (lru_MaxEntries c) k v (map keyv ps)) \<and>
    lru_step c c' (snd (spec_Add (lru_MaxEntries c) k v (map keyv ps)))"
proof (cases "map_of (map slot ps) k")
  case None
  note d = lru_atD [OF assms]
  have kn: "k \<notin> fst ` set (map keyv ps)" using None by (simp add: map_of_eq_None_iff image_image)
  from PushFront_at [OF d(3), of "Some (k, v)"] obtain e h where
    h: "dl_PushFront (lru_heap c) l (Some (k, v)) = Some (e, h)" "dl_at h l (map node ((k, v, e) # ps))"
      "dl_value h = (dl_value (lru_heap c))(e := Some (k, v))" by auto
  let ?c = "c\<lparr>lru_heap := h, lru_map := Some ((map_of (map slot ps))(k \<mapsto> e))\<rparr>"
  have "e \<notin> node ` set ps" using dl_atD(2) [OF h(2)] by auto
  then have at: "lru_at ?c l ((k, v, e) # ps)"
    using d(1,4,5) h kn by (auto simp: lru_at_def image_image)
  have add: "lru_Add c k v = (if lru_MaxEntries c \<noteq> 0 \<and> int (length ps) + 1 > lru_MaxEntries c
      then lru_RemoveOldest ?c else Some ?c)"
    using d(1,2) None h(1) dl_atD(4) [OF h(2)] by (simp add: lru_Add_def dl_Len_def)
  show ?thesis
  proof (cases "lru_MaxEntries c \<noteq> 0 \<and> int (length ps) + 1 > lru_MaxEntries c")
    case True
    from RemoveOldest_at [OF at] obtain c' qs where
      "lru_RemoveOldest ?c = Some c'" "lru_at c' l qs" "map keyv qs = butlast ((k, v) # map keyv ps)"
      "lru_step ?c c' [last ((k, v) # map keyv ps)]" by (auto simp: spec_RemoveOldest_def)
    with True add kn show ?thesis by (auto simp: spec_Add_def lru_step_def)
  next
    case False
    then show ?thesis using at add kn by (auto simp: spec_Add_def lru_step_def intro!: exI [of _ "(k, v, e) # ps"])
  qed
next
  case (Some a)
  from slot_found [OF assms Some] obtain us v0 ws where ps: "ps = us @ (k, v0, a) # ws" .
  note d = lru_atD [OF assms]
  from move_front_at [of c l us k v0 a ws v] assms ps obtain h where
    h: "dl_MoveToFront (lru_heap c) l a = Some h" "dl_value h = dl_value (lru_heap c)"
      "lru_at (c\<lparr>lru_heap := h\<lparr>dl_value := (dl_value h)(a := Some (k, v))\<rparr>\<rparr>) l ((k, v, a) # us @ ws)" by blast
  have "dl_value h a = Some (k, v0)" using d(4) [of "(k, v0, a)"] h(2) ps by simp
  then have "lru_Add c k v = Some (c\<lparr>lru_heap := h\<lparr>dl_value := (dl_value h)(a := Some (k, v))\<rparr>\<rparr>)"
    using d(1,2) Some h(1) by (simp add: lru_Add_def set_entry_value_def)
  moreover have "without k (map keyv ps) = map keyv (us @ ws)" using d(5) unfolding ps by (rule without_split)
  moreover have "k \<in> fst ` set (map keyv ps)" using ps by simp
  ultimately show ?thesis using h(3) ps
    by (auto simp: spec_Add_def lru_step_def intro!: exI [of _ "(k, v, a) # us @ ws"])
qed

lemma lru_Get_at:
  assumes "lru_at c l ps"
  shows "\<exists>c' qs. lru_Get c k = Some (fst (spec_Get k (map keyv ps)), c') \<and> lru_at c' l qs \<and>
    map keyv qs = snd (spec_Get k (map keyv ps)) \<and> lru_step c c' []"
proof (cases "map_of (map slot ps) k")
  case None
  then have "map_of (map keyv ps) k = None" by (simp add: map_of_eq_None_iff image_image)
  with None lru_atD(2) [OF assms] assms show ?thesis by (auto simp: lru_Get_def spec_Get_def lru_step_def)
next
  case (Some a)
  from slot_found [OF assms Some] obtain us v ws where ps: "ps = us @ (k, v, a) # ws" .
  note d = lru_atD [OF assms]
  from move_front_at [of c l us k v a ws v] assms ps obtain h where
    h: "dl_MoveToFront (lru_heap c) l a = Some h" "dl_value h = dl_value (lru_heap c)"
      "lru_at (c\<lparr>lru_heap := h\<rparr>) l ((k, v, a) # us @ ws)" by blast
  have "dl_value h a = Some (k, v)" using d(4) [of "(k, v, a)"] h(2) ps by simp
  then have "lru_Get c k = Some (Some v, c\<lparr>lru_heap := h\<rparr>)" using d(1,2) Some h(1) by (simp add: lru_Get_def)
  moreover have "without k (map keyv ps) = map keyv (us @ ws)" using d(5) unfolding ps by (rule without_split)
  moreover have "map_of (map keyv ps) k = Some v"
    using d(5) ps by (intro map_of_is_SomeI) (auto simp: comp_def)
  ultimately show ?thesis using h(3)
    by (auto simp: spec_Get_def lru_step_def intro!: exI [of _ "(k, v, a) # us @ ws"])
qed

lemma lru_Remove_at:
  assumes "lru_at c l ps"
  shows "\<exists>c' qs. lru_Remove c k = Some c' \<and> lru_at c' l qs \<and> map keyv qs = fst (spec_Remove k (map keyv ps)) \<and>
    lru_step c c' (snd (spec_Remove k (map keyv ps)))"
proof (cases "map_of (map slot ps) k")
  case None
  then have "k \<notin> fst ` set (map keyv ps)" by (simp add: map_of_eq_None_iff image_image)
  then have "without k (map keyv ps) = map keyv ps" "filter (\<lambda>kv. fst kv = k) (map keyv ps) = []"
    by (auto simp: without_absent filter_empty_conv)
  with None lru_atD(2) [OF assms] assms show ?thesis by (auto simp: lru_Remove_def spec_Remove_def lru_step_def)
next
  case (Some a)
  from slot_found [OF assms Some] obtain us v ws where ps: "ps = us @ (k, v, a) # ws" .
  note d = lru_atD [OF assms]
  have "filter (\<lambda>kv. fst kv = k) (map keyv us) = []" "filter (\<lambda>kv. fst kv = k) (map keyv ws) = []"
    using d(5) ps by (auto simp: filter_empty_conv)
  then have "filter (\<lambda>kv. fst kv = k) (map keyv ps) = [(k, v)]" using ps by simp
  moreover have "without k (map keyv ps) = map keyv (us @ ws)" using d(5) unfolding ps by (rule without_split)
  ultimately show ?thesis using removeElement_at [of c l us k v a ws] assms ps d(2) Some
    by (fastforce simp: lru_Remove_def spec_Remove_def)
qed

text \<open>The zero cache and a cleared cache have no map; \<open>Add\<close> creates it.\<close>

lemma lru_Add_nil:
  assumes "lru_map c = None" "dl_wf (lru_heap c)"
  shows "\<exists>c1 l. lru_at c1 l [] \<and> lru_Add c k v = lru_Add c1 k v \<and> lru_step c c1 []"
proof -
  from dl_New_at [OF assms(2)] obtain l h where h: "dl_New (lru_heap c) = (l, h)" "dl_at h l []" by blast
  let ?c = "c\<lparr>lru_map := Some Map.empty, lru_ll := Some l, lru_heap := h\<rparr>"
  have "lru_at ?c l []" "lru_Add c k v = lru_Add ?c k v" "lru_step c ?c []"
    using assms(1) h by (simp_all add: lru_at_def lru_Add_def lru_step_def)
  then show ?thesis by blast
qed

lemma lru_step_trans: "lru_step c c1 [] \<Longrightarrow> lru_step c1 c' evs \<Longrightarrow> lru_step c c' evs"
  by (simp add: lru_step_def)

lemma lru_rep_at: "lru_at c l ps \<Longrightarrow> lru_rep c (map keyv ps)"
  by (auto simp: lru_rep_def)

lemma lru_rep_nil: "lru_map c = None \<Longrightarrow> dl_wf (lru_heap c) \<Longrightarrow> lru_rep c []"
  by (simp add: lru_rep_def)

lemma lru_repE:
  assumes "lru_rep c kvs"
  obtains (no_map) "lru_map c = None" "kvs = []" "dl_wf (lru_heap c)" | (listed) l ps where "lru_at c l ps" "kvs = map keyv ps"
  using assms by (auto simp: lru_rep_def)

lemma lru_Add_rep:
  assumes "lru_rep c kvs"
  shows "\<exists>c'. lru_Add c k v = Some c' \<and> lru_rep c' (fst (spec_Add (lru_MaxEntries c) k v kvs)) \<and>
    lru_step c c' (snd (spec_Add (lru_MaxEntries c) k v kvs))"
proof -
  from assms obtain c1 l ps where
    1: "lru_at c1 l ps" "kvs = map keyv ps" "lru_Add c k v = lru_Add c1 k v" "lru_step c c1 []"
    using lru_Add_nil [of c k v] by (fastforce simp: lru_rep_def lru_step_def)
  have "lru_MaxEntries c1 = lru_MaxEntries c" using 1(4) by (simp add: lru_step_def)
  with lru_Add_at [OF 1(1), of k v] 1 show ?thesis by (metis lru_rep_at lru_step_trans)
qed

lemma lru_Get_rep:
  assumes "lru_rep c kvs"
  shows "\<exists>c'. lru_Get c k = Some (fst (spec_Get k kvs), c') \<and> lru_rep c' (snd (spec_Get k kvs)) \<and> lru_step c c' []"
  using assms(1)
proof (cases rule: lru_repE)
  case (listed l ps)
  with lru_Get_at [of c l ps k] show ?thesis by (metis lru_rep_at)
qed (auto simp: lru_rep_nil lru_Get_def spec_Get_def lru_step_def)

lemma lru_Remove_rep:
  assumes "lru_rep c kvs"
  shows "\<exists>c'. lru_Remove c k = Some c' \<and> lru_rep c' (fst (spec_Remove k kvs)) \<and> lru_step c c' (snd (spec_Remove k kvs))"
  using assms(1)
proof (cases rule: lru_repE)
  case (listed l ps)
  with lru_Remove_at [of c l ps k] show ?thesis by (metis lru_rep_at)
qed (auto simp: lru_rep_nil lru_Remove_def spec_Remove_def lru_step_def without_def)

lemma lru_RemoveOldest_rep:
  assumes "lru_rep c kvs"
  shows "\<exists>c'. lru_RemoveOldest c = Some c' \<and> lru_rep c' (fst (spec_RemoveOldest kvs)) \<and>
    lru_step c c' (snd (spec_RemoveOldest kvs))"
  using assms(1)
proof (cases rule: lru_repE)
  case (listed l ps)
  with RemoveOldest_at [of c l ps] show ?thesis by (metis fst_conv lru_rep_at)
qed (auto simp: lru_rep_nil lru_RemoveOldest_def spec_RemoveOldest_def lru_step_def)

lemma lru_Len_rep: "lru_rep c kvs \<Longrightarrow> lru_Len c = Some (int (length kvs))"
  using dl_atD(4) lru_atD(1,2,3) by (fastforce simp: lru_rep_def lru_Len_def dl_Len_def)

lemma announce_at:
  assumes "lru_map c = Some m" "\<And>k. k \<in> set ks \<Longrightarrow> \<exists>e. m k = Some e \<and> dl_value (lru_heap c) e = Some (k, f k)"
  shows "lru_announce c ks = Some (c\<lparr>lru_evicted := lru_evicted c @ map (\<lambda>k. (k, f k)) ks\<rparr>)"
  using assms
proof (induction ks arbitrary: c)
  case (Cons k ks)
  from Cons.prems(2) [of k] obtain e where "m k = Some e" "dl_value (lru_heap c) e = Some (k, f k)" by auto
  moreover have "lru_announce (c\<lparr>lru_evicted := lru_evicted c @ [(k, f k)]\<rparr>) ks =
      Some (c\<lparr>lru_evicted := lru_evicted c @ (k, f k) # map (\<lambda>k. (k, f k)) ks\<rparr>)"
    by (subst Cons.IH) (use Cons.prems in simp_all)
  ultimately show ?case using Cons.prems(1) by simp
qed simp

lemma lru_value:
  assumes "lru_at c l ps" "map_of (map keyv ps) k = Some v"
  shows "\<exists>e. map_of (map slot ps) k = Some e \<and> dl_value (lru_heap c) e = Some (k, v)"
proof -
  have "(k, v) \<in> set (map keyv ps)" using assms(2) by (rule map_of_SomeD)
  then obtain a where a: "(k, v, a) \<in> set ps" by (auto simp: keyv_def split: prod.splits)
  have "map_of (map slot ps) k = Some a"
    using a lru_atD(5) [OF assms(1)] by (intro map_of_is_SomeI) (force simp: comp_def)+
  with lru_atD(4) [OF assms(1) a] show ?thesis by simp
qed

lemma lru_Clear_rep:
  assumes "lru_rep c kvs" "set order = fst ` set kvs"
  shows "\<exists>c'. lru_Clear c order = Some c' \<and> lru_rep c' [] \<and> lru_step c c' (map (\<lambda>k. (k, the (map_of kvs k))) order)"
  using assms(1)
proof (cases rule: lru_repE)
  case (listed l ps)
  note at = listed(1) and kvs = listed(2)
  have "map_of kvs k = Some (the (map_of kvs k))" if "k \<in> set order" for k
    using that assms(2) by (cases "map_of kvs k") (auto simp: map_of_eq_None_iff)
  then have "lru_announce c order = Some (c\<lparr>lru_evicted := lru_evicted c @ map (\<lambda>k. (k, the (map_of kvs k))) order\<rparr>)"
    using lru_atD(2) [OF at] lru_value [OF at] kvs by (intro announce_at) auto
  then show ?thesis using dl_atD(9) [OF lru_atD(3) [OF at]] by (auto simp: lru_Clear_def lru_step_def lru_rep_nil)
qed (use assms(2) in \<open>auto simp: lru_Clear_def lru_step_def lru_rep_nil\<close>)

end
