(* ===== verification/Lru_Props.thy ===== *)
theory Lru_Props
  imports Lru_Cache
begin

text \<open>
  Runs of the LRU cache: it meets the contract of a cache (\<open>evicting_map\<close>), never holds more
  than \<open>MaxEntries\<close> entries, and keeps what was used recently.
\<close>

section \<open>Operations as values\<close>

datatype ('k, 'v) lru_op = LAdd 'k 'v | LGet 'k | LRemove 'k | LOldest

fun lru_do :: "('k, 'v) lru_op \<Rightarrow> ('k, 'v) lru_cache \<Rightarrow> ('v option \<times> ('k, 'v) lru_cache) option" where
  "lru_do (LAdd k v) c = map_option (Pair None) (lru_Add c k v)"
| "lru_do (LGet k) c = lru_Get c k"
| "lru_do (LRemove k) c = map_option (Pair None) (lru_Remove c k)"
| "lru_do LOldest c = map_option (Pair None) (lru_RemoveOldest c)"

fun lru_den :: "('k, 'v) lru_op \<Rightarrow> ('k, 'v) map_op" where
  "lru_den (LAdd k v) = MPut k v"
| "lru_den (LGet k) = MGet k"
| "lru_den (LRemove k) = MDel k"
| "lru_den LOldest = MTick"

text \<open>The effect of an operation on the entries.\<close>

fun spec_do :: "int \<Rightarrow> ('k, 'v) lru_op \<Rightarrow> ('k \<times> 'v) list \<Rightarrow> ('k \<times> 'v) list" where
  "spec_do mx (LAdd k v) kvs = fst (spec_Add mx k v kvs)"
| "spec_do mx (LGet k) kvs = snd (spec_Get k kvs)"
| "spec_do mx (LRemove k) kvs = fst (spec_Remove k kvs)"
| "spec_do mx LOldest kvs = fst (spec_RemoveOldest kvs)"

lemma lru_do_rep:
  assumes "lru_rep c kvs"
  shows "\<exists>c'. lru_do op c = Some (op_result (lru_den op) (map_of kvs), c') \<and>
    lru_rep c' (spec_do (lru_MaxEntries c) op kvs) \<and> lru_MaxEntries c' = lru_MaxEntries c"
proof (cases op)
  case (LAdd k v)
  with lru_Add_rep [OF assms, of k v] show ?thesis by (auto simp: lru_step_def)
next
  case (LGet k)
  have "fst (spec_Get k kvs) = map_of kvs k" by (simp add: spec_Get_def split: option.splits)
  with LGet lru_Get_rep [OF assms, of k] show ?thesis by (auto simp: lru_step_def)
next
  case (LRemove k)
  with lru_Remove_rep [OF assms, of k] show ?thesis by (auto simp: lru_step_def)
next
  case LOldest
  with lru_RemoveOldest_rep [OF assms] show ?thesis by (auto simp: lru_step_def)
qed

lemma max_New [simp]: "lru_MaxEntries (lru_New h mx) = mx"
  by (simp add: lru_New_def case_prod_unfold Let_def)

section \<open>The contract of a cache\<close>

definition lru_view :: "('k, 'v) lru_cache \<Rightarrow> 'k \<Rightarrow> 'v option" where
  "lru_view c k = do { m \<leftarrow> lru_map c; e \<leftarrow> m k; map_option snd (dl_value (lru_heap c) e) }"

lemma map_of_slot_None: "map_of (map keyv ps) k = None \<longleftrightarrow> map_of (map slot ps) k = None"
  by (simp add: map_of_eq_None_iff image_image)

lemma lru_view_rep: "lru_rep c kvs \<Longrightarrow> lru_view c = map_of kvs"
proof (erule lru_repE)
  fix l ps assume at: "lru_at c l ps" and kvs: "kvs = map keyv ps"
  show "lru_view c = map_of kvs"
  proof
    fix k
    show "lru_view c k = map_of kvs k"
      using lru_value [OF at, of k] map_of_slot_None [of ps k] lru_atD(2) [OF at]
      by (cases "map_of kvs k") (auto simp: lru_view_def kvs)
  qed
qed (simp add: lru_view_def fun_eq_iff)

lemma lru_rep_distinct: "lru_rep c kvs \<Longrightarrow> distinct (map fst kvs)"
  using lru_atD(5) by (fastforce elim!: lru_repE)

lemma map_of_without: "map_of (without k kvs) = (map_of kvs)(k := None)"
  by (induction kvs) (auto simp: without_def fun_eq_iff)

lemma map_of_butlast: "map_of (butlast kvs) \<subseteq>\<^sub>m map_of kvs"
proof (cases kvs rule: rev_cases)
  case (snoc ys y)
  then show ?thesis by (simp add: map_add_def map_le_def dom_def split: option.splits)
qed simp

lemma spec_do_map: "map_of (spec_do mx op kvs) \<subseteq>\<^sub>m op_spec (lru_den op) (map_of kvs)"
proof (cases op)
  case (LAdd k v)
  then show ?thesis using map_of_butlast [of "(k, v) # kvs"]
    by (auto simp: spec_Add_def map_of_without)
next
  case (LGet k)
  then show ?thesis by (auto simp: spec_Get_def map_of_without map_le_def split: option.splits)
qed (auto simp: spec_Remove_def spec_RemoveOldest_def map_of_without map_of_butlast)

lemma without_mid: "distinct (map fst (us @ (k, v) # ws)) \<Longrightarrow> without k (us @ (k, v) # ws) = us @ ws"
  using without_absent [of k us] without_absent [of k ws] by (auto simp: without_def)

lemma length_without:
  assumes "distinct (map fst kvs)" "k \<in> fst ` set kvs" shows "Suc (length (without k kvs)) = length kvs"
proof -
  from assms(2) obtain v where "(k, v) \<in> set kvs" by force
  then obtain us ws where kvs: "kvs = us @ (k, v) # ws" by (auto dest: split_list)
  from without_mid [of us k v ws] assms(1) kvs show ?thesis by simp
qed

lemma length_spec_Get: "distinct (map fst kvs) \<Longrightarrow> length (snd (spec_Get k kvs)) = length kvs"
proof (cases "map_of kvs k")
  case (Some v)
  assume "distinct (map fst kvs)"
  moreover have "k \<in> fst ` set kvs" using map_of_SomeD [OF Some] by force
  ultimately show ?thesis using length_without [of kvs k] Some by (simp add: spec_Get_def)
qed (simp add: spec_Get_def)

lemma spec_do_length:
  assumes "distinct (map fst kvs)" "int (length kvs) \<le> mx" "0 < mx"
  shows "int (length (spec_do mx op kvs)) \<le> mx"
proof (cases op)
  case (LAdd k v)
  show ?thesis
  proof (cases "k \<in> fst ` set kvs")
    case True
    then show ?thesis using assms(2) length_without [OF assms(1) True] LAdd by (simp add: spec_Add_def)
  next
    case False
    then show ?thesis using assms(2,3) LAdd by (simp add: spec_Add_def)
  qed
next
  case (LGet k)
  then show ?thesis using assms length_spec_Get [OF assms(1), of k] by simp
next
  case (LRemove k)
  have "length (without k kvs) \<le> length kvs" by (simp add: without_def)
  then show ?thesis using assms(2) LRemove by (simp add: spec_Remove_def)
next
  case LOldest
  then show ?thesis using assms by (auto simp: spec_RemoveOldest_def)
qed

definition lru_inv :: "('k, 'v) lru_cache \<Rightarrow> bool" where
  "lru_inv c \<longleftrightarrow> (\<exists>kvs. lru_rep c kvs \<and> (0 < lru_MaxEntries c \<longrightarrow> int (length kvs) \<le> lru_MaxEntries c))"

lemma lru_do_inv:
  assumes "lru_inv c"
  shows "\<exists>c'. lru_do op c = Some (op_result (lru_den op) (lru_view c), c') \<and> lru_inv c' \<and>
    lru_view c' \<subseteq>\<^sub>m op_spec (lru_den op) (lru_view c)"
proof -
  from assms obtain kvs where kvs: "lru_rep c kvs" "0 < lru_MaxEntries c \<longrightarrow> int (length kvs) \<le> lru_MaxEntries c"
    by (auto simp: lru_inv_def)
  from lru_do_rep [OF kvs(1), of op] obtain c' where
    c': "lru_do op c = Some (op_result (lru_den op) (map_of kvs), c')" "lru_MaxEntries c' = lru_MaxEntries c"
    "lru_rep c' (spec_do (lru_MaxEntries c) op kvs)" by blast
  have "lru_inv c'" unfolding lru_inv_def
    using c'(2,3) kvs(2) spec_do_length [OF lru_rep_distinct [OF kvs(1)], of "lru_MaxEntries c" op] by auto
  moreover have "lru_view c' \<subseteq>\<^sub>m op_spec (lru_den op) (map_of kvs)"
    using lru_view_rep [OF c'(3)] spec_do_map [of "lru_MaxEntries c" op kvs] by simp
  ultimately show ?thesis using c'(1) lru_view_rep [OF kvs(1)] by auto
qed

interpretation lru: evicting_map lru_inv lru_view lru_do lru_den "\<lambda>_ _. True"
proof
  show "\<exists>r s'. lru_do op s = Some (r, s') \<and> lru_inv s' \<and> lru_view s' \<subseteq>\<^sub>m op_spec (lru_den op) (lru_view s) \<and>
      r = op_result (lru_den op) (lru_view s)" if "lru_inv s" for s :: "('a, 'b) lru_cache" and op
    using lru_do_inv [OF that, of op] by auto
qed simp

lemma run_max:
  "lru_rep c kvs \<Longrightarrow> run_steps lru_do ops c = Some (rs, c') \<Longrightarrow> lru_MaxEntries c' = lru_MaxEntries c"
proof (induction ops arbitrary: c kvs rs)
  case (Cons op ops)
  from lru_do_rep [OF Cons.prems(1), of op] obtain r c1 where
    "lru_do op c = Some (r, c1)" "lru_rep c1 (spec_do (lru_MaxEntries c) op kvs)" "lru_MaxEntries c1 = lru_MaxEntries c"
    by blast
  with Cons.IH [of c1] Cons.prems(2) show ?case by (auto split: bind_splits)
qed simp

section \<open>Recently used entries stay\<close>

fun op_key :: "('k, 'v) lru_op \<Rightarrow> 'k option" where
  "op_key (LAdd k v) = Some k"
| "op_key (LGet k) = Some k"
| "op_key (LRemove k) = Some k"
| "op_key LOldest = None"

text \<open>The entry is there and only the keys of \<open>S\<close> were used after it.\<close>

definition behind :: "'k set \<Rightarrow> 'k \<Rightarrow> 'v \<Rightarrow> ('k \<times> 'v) list \<Rightarrow> bool" where
  "behind S k v kvs \<longleftrightarrow> (\<exists>us ws. kvs = us @ (k, v) # ws \<and> fst ` set us \<subseteq> S)"

lemma behind_lookup: "behind S k v kvs \<Longrightarrow> distinct (map fst kvs) \<Longrightarrow> map_of kvs k = Some v"
  by (auto simp: behind_def intro: map_of_is_SomeI)

lemma behind_without:
  assumes "behind S k v kvs" "j \<noteq> k" shows "behind S k v (without j kvs)"
proof -
  from assms(1) obtain us ws where kvs: "kvs = us @ (k, v) # ws" "fst ` set us \<subseteq> S" by (auto simp: behind_def)
  have "without j kvs = without j us @ (k, v) # without j ws" "fst ` set (without j us) \<subseteq> S"
    using kvs assms(2) by (auto simp: without_def)
  then show ?thesis by (auto simp: behind_def)
qed

lemma behind_front: "behind S k v ((k, v) # kvs)"
  unfolding behind_def by (rule exI [of _ "[]"]) simp

lemma behind_Cons: "behind S k v kvs \<Longrightarrow> j \<in> S \<Longrightarrow> behind S k v ((j, w) # kvs)"
  unfolding behind_def by (metis (no_types, lifting) append_Cons fst_conv image_insert insert_subset list.simps(15))

lemma behind_do:
  assumes "behind S k v kvs" "distinct (map fst kvs)" "op_key op = Some j" "j \<in> S" "j \<noteq> k" "finite S" "int (card S) < mx"
  shows "behind S k v (spec_do mx op kvs)"
proof (cases op)
  case (LAdd i w)
  show ?thesis
  proof (cases "j \<in> fst ` set kvs \<or> \<not> (mx \<noteq> 0 \<and> int (length kvs) + 1 > mx)")
    case True
    with LAdd assms behind_without [OF assms(1,5)] show ?thesis by (auto simp: spec_Add_def behind_Cons)
  next
    case False
    from behind_Cons [OF assms(1,4), of w] obtain us ws where
      u: "(j, w) # kvs = us @ (k, v) # ws" "fst ` set us \<subseteq> S" by (auto simp: behind_def)
    have "distinct (map fst ((j, w) # kvs))" using False assms(2) by simp
    then have "distinct (map fst us)" unfolding u(1) by simp
    then have "length us = card (fst ` set us)" using distinct_card [of "map fst us"] by simp
    also have "\<dots> \<le> card S" using u(2) assms(6) by (rule card_mono [rotated])
    finally have "ws \<noteq> []" using False assms(7) arg_cong [OF u(1), of length] by auto
    then have "butlast ((j, w) # kvs) = us @ (k, v) # butlast ws" unfolding u(1) by (simp add: butlast_append)
    with False LAdd assms(3) u(2) show ?thesis by (auto simp: spec_Add_def behind_def)
  qed
next
  case (LGet i)
  then show ?thesis using assms behind_without [OF assms(1,5)]
    by (auto simp: spec_Get_def behind_Cons split: option.splits)
next
  case (LRemove i)
  then show ?thesis using assms behind_without [OF assms(1,5)] by (simp add: spec_Remove_def)
qed (use assms(3) in simp)

lemma behind_run:
  assumes "lru_rep c kvs" "behind S k v kvs" "finite S" "int (card S) < lru_MaxEntries c"
    "\<forall>op \<in> set ops. \<exists>j. op_key op = Some j \<and> j \<in> S \<and> j \<noteq> k"
  shows "\<exists>rs c' kvs'. run_steps lru_do ops c = Some (rs, c') \<and> lru_rep c' kvs' \<and> behind S k v kvs'"
  using assms
proof (induction ops arbitrary: c kvs)
  case (Cons op ops)
  from lru_do_rep [OF Cons.prems(1), of op] obtain r c1 where
    c1: "lru_do op c = Some (r, c1)" "lru_rep c1 (spec_do (lru_MaxEntries c) op kvs)" "lru_MaxEntries c1 = lru_MaxEntries c"
    by blast
  from Cons.prems(5) obtain j where "op_key op = Some j" "j \<in> S" "j \<noteq> k" by auto
  then have "behind S k v (spec_do (lru_MaxEntries c) op kvs)"
    using Cons.prems by (intro behind_do) (auto dest: lru_rep_distinct)
  from Cons.IH [OF c1(2) this Cons.prems(3)] c1 Cons.prems(4,5) obtain rs c' kvs' where
    "run_steps lru_do ops c1 = Some (rs, c')" "lru_rep c' kvs'" "behind S k v kvs'" by auto
  with c1(1) show ?case by auto
qed auto

section \<open>Properties\<close>

text \<open>
  C28. The LRU cache implements a list of entries in the order of their last use: \<open>Add\<close> puts its
  entry first and evicts the last one exactly if the number of entries would exceed a
  nonzero \<open>MaxEntries\<close>, \<open>Get\<close> returns the value and moves the entry to the front, \<open>Remove\<close>
  and \<open>RemoveOldest\<close> take out the named and the last entry, \<open>Clear\<close> all; the callback is
  called for exactly the evicted entries. No operation panics, also on a cleared cache.
\<close>

theorem lru_refines:
  assumes "lru_rep c kvs" "set order = fst ` set kvs"
  shows "(\<exists>c'. lru_Add c k v = Some c' \<and> lru_rep c' (fst (spec_Add (lru_MaxEntries c) k v kvs)) \<and>
      lru_step c c' (snd (spec_Add (lru_MaxEntries c) k v kvs))) \<and>
    (\<exists>c'. lru_Get c k = Some (map_of kvs k, c') \<and> lru_rep c' (snd (spec_Get k kvs)) \<and> lru_step c c' []) \<and>
    (\<exists>c'. lru_Remove c k = Some c' \<and> lru_rep c' (fst (spec_Remove k kvs)) \<and> lru_step c c' (snd (spec_Remove k kvs))) \<and>
    (\<exists>c'. lru_RemoveOldest c = Some c' \<and> lru_rep c' (fst (spec_RemoveOldest kvs)) \<and>
      lru_step c c' (snd (spec_RemoveOldest kvs))) \<and>
    (\<exists>c'. lru_Clear c order = Some c' \<and> lru_rep c' [] \<and> lru_step c c' (map (\<lambda>k. (k, the (map_of kvs k))) order)) \<and>
    lru_Len c = Some (int (length kvs))"
proof -
  have "fst (spec_Get k kvs) = map_of kvs k" by (simp add: spec_Get_def split: option.splits)
  then show ?thesis
    using lru_Add_rep [OF assms(1), of k v] lru_Get_rep [OF assms(1), of k] lru_Remove_rep [OF assms(1), of k]
      lru_RemoveOldest_rep [OF assms(1)] lru_Clear_rep [OF assms] lru_Len_rep [OF assms(1)] by simp
qed

lemma empty_heap_wf: "dl_wf empty_heap"
  by (simp add: dl_wf_def empty_heap_def)

theorem lru_refines_witness:
  "\<exists>c'. lru_Add (lru_New empty_heap 2) ''a'' (1 :: nat) = Some c' \<and> lru_rep c' [(''a'', 1)]"
  using lru_refines [OF lru_New_rep [OF empty_heap_wf, of 2], of "[]" "''a''" "1 :: nat"]
  by (auto simp: spec_Add_def)

text \<open>
  The LRU cache meets the contract of a cache over every run of \<open>Add\<close>, \<open>Get\<close>, \<open>Remove\<close> and
  \<open>RemoveOldest\<close> on a new cache: no panic, every \<open>Get\<close> returns nothing or the value last added
  under its key and not removed since, and with a positive \<open>MaxEntries\<close> the cache never holds
  more entries than that.
\<close>

theorem lru_run_sound:
  assumes "dl_wf h"
  shows "\<exists>rs c n. run_steps lru_do ops (lru_New h mx) = Some (rs, c) \<and>
    list_all2 hit_or_miss rs (fst (run_spec (map lru_den ops) Map.empty)) \<and>
    lru_Len c = Some n \<and> (0 < mx \<longrightarrow> n \<le> mx)"
proof -
  have rep: "lru_rep (lru_New h mx) []" by (rule lru_New_rep [OF assms])
  then have "lru_inv (lru_New h mx)" by (auto simp: lru_inv_def intro!: exI [of _ "[]"])
  moreover have "lru_view (lru_New h mx) \<subseteq>\<^sub>m Map.empty" using lru_view_rep [OF rep] by simp
  ultimately obtain rs c where c: "run_steps lru_do ops (lru_New h mx) = Some (rs, c)" "lru_inv c"
    "list_all2 hit_or_miss rs (fst (run_spec (map lru_den ops) Map.empty))"
    using lru.run_sound [of "lru_New h mx" ops Map.empty] by auto
  have mx: "lru_MaxEntries c = mx"
    using run_max [OF rep c(1)] by simp
  from c(2) obtain kvs where "lru_rep c kvs" "0 < lru_MaxEntries c \<longrightarrow> int (length kvs) \<le> lru_MaxEntries c"
    by (auto simp: lru_inv_def)
  with c mx lru_Len_rep show ?thesis by fastforce
qed

theorem lru_run_sound_witness:
  "\<exists>rs c n. run_steps lru_do [LAdd ''a'' 1, LAdd ''b'' 2, LGet ''a''] (lru_New empty_heap 1) = Some (rs, c) \<and>
     list_all2 hit_or_miss rs [None, None, Some (1 :: nat)] \<and> lru_Len c = Some n \<and> n \<le> 1"
  using lru_run_sound [OF empty_heap_wf, of "[LAdd ''a'' 1, LAdd ''b'' 2, LGet ''a'' :: (string, nat) lru_op]" 1] by simp

text \<open>
  An entry stays as long as fewer than \<open>MaxEntries\<close> other keys are used: after \<open>Add\<close> of a
  key, any sequence of operations on other keys that touches fewer than \<open>MaxEntries\<close> distinct
  ones leaves the entry in the cache, and \<open>Get\<close> returns its value.
\<close>

theorem lru_keeps_recent:
  assumes "lru_rep c kvs" "0 < lru_MaxEntries c"
    "\<forall>op \<in> set ops. op_key op \<noteq> None \<and> op_key op \<noteq> Some k"
    "int (card (op_key ` set ops)) < lru_MaxEntries c"
  shows "\<exists>c1 rs c2 c3. lru_Add c k v = Some c1 \<and> run_steps lru_do ops c1 = Some (rs, c2) \<and>
    lru_Get c2 k = Some (Some v, c3)"
proof -
  let ?S = "(\<lambda>op. the (op_key op)) ` set ops"
  have "?S = the ` (op_key ` set ops)" by (simp add: image_image)
  then have S: "int (card ?S) < lru_MaxEntries c"
    using assms(4) card_image_le [of "op_key ` set ops" the] by auto
  from lru_Add_rep [OF assms(1), of k v] obtain c1 where
    c1: "lru_Add c k v = Some c1" "lru_rep c1 (fst (spec_Add (lru_MaxEntries c) k v kvs))"
      "lru_MaxEntries c1 = lru_MaxEntries c" by (auto simp: lru_step_def)
  have "behind ?S k v (fst (spec_Add (lru_MaxEntries c) k v kvs))"
    using assms(2) behind_front [of ?S k v] by (auto simp: spec_Add_def)
  moreover have "\<forall>op \<in> set ops. \<exists>j. op_key op = Some j \<and> j \<in> ?S \<and> j \<noteq> k"
  proof
    fix op assume op: "op \<in> set ops"
    with assms(3) have "op_key op \<noteq> None" "op_key op \<noteq> Some k" by auto
    then show "\<exists>j. op_key op = Some j \<and> j \<in> ?S \<and> j \<noteq> k"
      using imageI [OF op, of "\<lambda>op. the (op_key op)"] by auto
  qed
  ultimately obtain rs c2 kvs2 where c2: "run_steps lru_do ops c1 = Some (rs, c2)" "lru_rep c2 kvs2" "behind ?S k v kvs2"
    using behind_run [OF c1(2), of ?S k v ops] S c1(3) by auto
  have "map_of kvs2 k = Some v" using behind_lookup [OF c2(3) lru_rep_distinct [OF c2(2)]] .
  with lru_Get_rep [OF c2(2), of k] c1(1) c2(1) show ?thesis by (auto simp: spec_Get_def)
qed

theorem lru_keeps_recent_witness:
  "\<exists>c1 rs c2 c3. lru_Add (lru_New empty_heap 2) ''a'' (1 :: nat) = Some c1 \<and>
     run_steps lru_do [LAdd ''b'' 2, LGet ''b''] c1 = Some (rs, c2) \<and> lru_Get c2 ''a'' = Some (Some 1, c3)"
  by (rule lru_keeps_recent [OF lru_New_rep [OF empty_heap_wf]]) auto

end
