(* ===== verification/Byte_View.thy ===== *)
theory Byte_View
  imports Go_Prelude
begin

text \<open>
  \<open>groupcache/byteview.go\<close> and \<open>groupcache/sinks.go\<close>. A Go string is a list of bytes. A byte
  slice in a \<open>ByteView\<close> is the record \<open>go_bytes\<close>: its elements and the rest of the backing array up
  to its capacity, which a slice expression can reach. The encoding of protocol buffer
  messages is a parameter of the sinks: \<open>marshal\<close> returns an error or the bytes, \<open>unmarshal\<close>
  an error and the new contents of the destination message.
\<close>

section \<open>byteview.go\<close>

record go_bytes =
  gb_data :: bytes
  gb_rest :: bytes

record byte_view =
  bv_b :: "go_bytes option"
  bv_s :: bytes

definition exact :: "bytes \<Rightarrow> go_bytes" where
  "exact xs = \<lparr>gb_data = xs, gb_rest = []\<rparr>"

text \<open>The conversion of a string to a slice may allocate more than its length: \<open>spare\<close> bytes, which are zero.\<close>

definition string_bytes :: "nat \<Rightarrow> bytes \<Rightarrow> go_bytes" where
  "string_bytes spare s = \<lparr>gb_data = s, gb_rest = replicate spare 0\<rparr>"

text \<open>\<open>b[from:to]\<close> with \<open>to\<close> up to the capacity.\<close>

definition gb_slice :: "go_bytes \<Rightarrow> int \<Rightarrow> int \<Rightarrow> go_bytes option" where
  "gb_slice b i j =
     (let a = gb_data b @ gb_rest b
      in if 0 \<le> i \<and> i \<le> j \<and> j \<le> int (length a)
         then Some \<lparr>gb_data = take (nat (j - i)) (drop (nat i) a), gb_rest = drop (nat j) a\<rparr> else None)"

definition cloneBytes :: "bytes \<Rightarrow> go_bytes" where
  "cloneBytes b = exact b"

definition bv_Len :: "byte_view \<Rightarrow> int" where
  "bv_Len v = (case bv_b v of Some b \<Rightarrow> int (length (gb_data b)) | None \<Rightarrow> int (length (bv_s v)))"

definition bv_ByteSlice :: "nat \<Rightarrow> byte_view \<Rightarrow> go_bytes" where
  "bv_ByteSlice spare v = (case bv_b v of Some b \<Rightarrow> cloneBytes (gb_data b) | None \<Rightarrow> string_bytes spare (bv_s v))"

definition bv_String :: "byte_view \<Rightarrow> bytes" where
  "bv_String v = (case bv_b v of Some b \<Rightarrow> gb_data b | None \<Rightarrow> bv_s v)"

definition bv_At :: "byte_view \<Rightarrow> int \<Rightarrow> byte option" where
  "bv_At v i = (case bv_b v of Some b \<Rightarrow> go_nth (gb_data b) i | None \<Rightarrow> go_nth (bv_s v) i)"

definition bv_Slice :: "byte_view \<Rightarrow> int \<Rightarrow> int \<Rightarrow> byte_view option" where
  "bv_Slice v from to =
     (case bv_b v of
        Some b \<Rightarrow> map_option (\<lambda>b. \<lparr>bv_b = Some b, bv_s = []\<rparr>) (gb_slice b from to)
      | None \<Rightarrow> map_option (\<lambda>s. \<lparr>bv_b = None, bv_s = s\<rparr>) (go_slice (bv_s v) from to))"

definition bv_SliceFrom :: "byte_view \<Rightarrow> int \<Rightarrow> byte_view option" where
  "bv_SliceFrom v from =
     (case bv_b v of
        Some b \<Rightarrow> map_option (\<lambda>b. \<lparr>bv_b = Some b, bv_s = []\<rparr>) (gb_slice b from (int (length (gb_data b))))
      | None \<Rightarrow> map_option (\<lambda>s. \<lparr>bv_b = None, bv_s = s\<rparr>) (go_from (bv_s v) from))"

text \<open>\<open>Copy\<close>: the destination afterwards and the number of bytes.\<close>

definition bv_Copy :: "byte_view \<Rightarrow> bytes \<Rightarrow> (bytes \<times> int) option" where
  "bv_Copy v dest = (case bv_b v of Some b \<Rightarrow> go_copy dest 0 (gb_data b) | None \<Rightarrow> go_copy dest 0 (bv_s v))"

text \<open>The comparison loop of \<open>EqualString\<close> and \<open>EqualBytes\<close>: \<open>xs\<close> is ranged over from index \<open>i\<close>
  and compared with \<open>ys[i]\<close>.\<close>

fun equal_loop :: "bytes \<Rightarrow> int \<Rightarrow> bytes \<Rightarrow> bool option" where
  "equal_loop [] i ys = Some True"
| "equal_loop (x # xs) i ys = do {
     y \<leftarrow> go_nth ys i;
     if x \<noteq> y then Some False else equal_loop xs (i + 1) ys
   }"

definition bv_EqualString :: "byte_view \<Rightarrow> bytes \<Rightarrow> bool option" where
  "bv_EqualString v s =
     (case bv_b v of
        None \<Rightarrow> Some (bv_s v = s)
      | Some b \<Rightarrow> if int (length s) \<noteq> bv_Len v then Some False else equal_loop (gb_data b) 0 s)"

definition bv_EqualBytes :: "byte_view \<Rightarrow> bytes \<Rightarrow> bool option" where
  "bv_EqualBytes v b2 =
     (case bv_b v of
        Some b \<Rightarrow> Some (gb_data b = b2)
      | None \<Rightarrow> if int (length b2) \<noteq> bv_Len v then Some False else equal_loop b2 0 (bv_s v))"

definition bv_Equal :: "byte_view \<Rightarrow> byte_view \<Rightarrow> bool option" where
  "bv_Equal v b2 =
     (case bv_b b2 of None \<Rightarrow> bv_EqualString v (bv_s b2) | Some b \<Rightarrow> bv_EqualBytes v (gb_data b))"

datatype view_error = invalid_offset | EOF | ErrShortWrite

definition bv_ReadAt :: "byte_view \<Rightarrow> bytes \<Rightarrow> int \<Rightarrow> (bytes \<times> int \<times> view_error option) option" where
  "bv_ReadAt v p off =
     (if off < 0 then Some (p, 0, Some invalid_offset)
      else if off \<ge> bv_Len v then Some (p, 0, Some EOF)
      else do {
        w \<leftarrow> bv_SliceFrom v off;
        (p', n) \<leftarrow> bv_Copy w p;
        Some (p', n, if n < int (length p) then Some EOF else None)
      })"

text \<open>\<open>Reader\<close> returns a \<open>bytes.Reader\<close> or a \<open>strings.Reader\<close>, with the data and the reading index, of which the
  interface offers \<open>Read\<close> and \<open>Seek\<close>. The messages of the errors of \<open>Seek\<close>, which name the package, are left out.\<close>

datatype view_reader = BytesReader go_bytes int | StringReader bytes int

datatype seek_error = InvalidWhence | NegativePosition

definition bv_Reader :: "byte_view \<Rightarrow> view_reader" where
  "bv_Reader v = (case bv_b v of Some b \<Rightarrow> BytesReader b 0 | None \<Rightarrow> StringReader (bv_s v) 0)"

definition rd_Read :: "view_reader \<Rightarrow> bytes \<Rightarrow> (bytes \<times> int \<times> view_error option \<times> view_reader) option" where
  "rd_Read r p =
     (case r of
        BytesReader s i \<Rightarrow>
          if i \<ge> int (length (gb_data s)) then Some (p, 0, Some EOF, r)
          else do {
            t \<leftarrow> gb_slice s i (int (length (gb_data s)));
            (p, n) \<leftarrow> go_copy p 0 (gb_data t);
            Some (p, n, None, BytesReader s (i + n))
          }
      | StringReader s i \<Rightarrow>
          if i \<ge> int (length s) then Some (p, 0, Some EOF, r)
          else do {
            t \<leftarrow> go_from s i;
            (p, n) \<leftarrow> go_copy p 0 t;
            Some (p, n, None, StringReader s (i + n))
          })"

definition seek_index :: "int \<Rightarrow> int \<Rightarrow> int \<Rightarrow> int \<Rightarrow> seek_error + int" where
  "seek_index len i offset whence =
     (if whence \<notin> {0, 1, 2} then Inl InvalidWhence
      else let a = (if whence = 0 then offset else if whence = 1 then s64 (i + offset) else s64 (len + offset))
           in if a < 0 then Inl NegativePosition else Inr a)"

definition rd_Seek :: "view_reader \<Rightarrow> int \<Rightarrow> int \<Rightarrow> (seek_error + int) \<times> view_reader" where
  "rd_Seek r offset whence =
     (case r of
        BytesReader s i \<Rightarrow>
          (case seek_index (int (length (gb_data s))) i offset whence of Inl e \<Rightarrow> (Inl e, r) | Inr a \<Rightarrow> (Inr a, BytesReader s a))
      | StringReader s i \<Rightarrow>
          (case seek_index (int (length s)) i offset whence of Inl e \<Rightarrow> (Inl e, r) | Inr a \<Rightarrow> (Inr a, StringReader s a)))"

text \<open>What a client of the reader sees of a sequence of calls.\<close>

datatype rd_call = CallRead bytes | CallSeek int int

datatype rd_answer = Got bytes int "view_error option" | Moved "seek_error + int"

fun rd_session :: "view_reader \<Rightarrow> rd_call list \<Rightarrow> rd_answer list option" where
  "rd_session r [] = Some []"
| "rd_session r (CallRead p # cs) = do {
     (p, n, e, r) \<leftarrow> rd_Read r p;
     as \<leftarrow> rd_session r cs;
     Some (Got p n e # as)
   }"
| "rd_session r (CallSeek offset whence # cs) = (let (a, r) = rd_Seek r offset whence in map_option ((#) (Moved a)) (rd_session r cs))"

text \<open>\<open>WriteTo\<close>; the writer is given by the results of \<open>Write\<close> and of \<open>io.WriteString\<close>.\<close>

definition bv_WriteTo ::
  "byte_view \<Rightarrow> (bytes \<Rightarrow> int \<times> 'e option) \<Rightarrow> (bytes \<Rightarrow> int \<times> 'e option) \<Rightarrow> int \<times> (view_error + 'e) option" where
  "bv_WriteTo v write writeString =
     (let (m, err) = (case bv_b v of Some b \<Rightarrow> write (gb_data b) | None \<Rightarrow> writeString (bv_s v))
      in (m, case err of Some e \<Rightarrow> Some (Inr e) | None \<Rightarrow> if m < bv_Len v then Some (Inl ErrShortWrite) else None))"

section \<open>sinks.go\<close>

datatype 'e sink_error = NilDst | ProtoError 'e

text \<open>The sinks; a destination pointer that is nil is \<open>None\<close>.\<close>

datatype 'm sink =
    StringSink "bytes option" byte_view
  | ByteViewSink byte_view
  | ProtoSink 'm byte_view
  | AllocBytesSink "bytes option" byte_view
  | TruncBytesSink "bytes option" byte_view

text \<open>The result of a method: \<open>None\<close> is a panic, otherwise the returned error and the sink
  afterwards.\<close>

type_synonym ('m, 'e) sink_result = "('e sink_error option \<times> 'm sink) option"

definition stringSink_SetString :: "bytes option \<Rightarrow> byte_view \<Rightarrow> bytes \<Rightarrow> ('m, 'e) sink_result" where
  "stringSink_SetString sp v s =
     (let v = v\<lparr>bv_b := None, bv_s := s\<rparr>
      in case sp of None \<Rightarrow> None | Some _ \<Rightarrow> Some (None, StringSink (Some s) v))"

definition stringSink_SetProto ::
  "('m \<Rightarrow> 'e + go_bytes) \<Rightarrow> bytes option \<Rightarrow> byte_view \<Rightarrow> 'm \<Rightarrow> ('m, 'e) sink_result" where
  "stringSink_SetProto marshal sp v m =
     (case marshal m of
        Inl e \<Rightarrow> Some (Some (ProtoError e), StringSink sp v)
      | Inr b \<Rightarrow> (case sp of None \<Rightarrow> None | Some _ \<Rightarrow> Some (None, StringSink (Some (gb_data b)) (v\<lparr>bv_b := Some b\<rparr>))))"

definition protoSink_Set ::
  "(bytes \<Rightarrow> 'm \<Rightarrow> 'e option \<times> 'm) \<Rightarrow> 'm \<Rightarrow> byte_view \<Rightarrow> go_bytes \<Rightarrow> ('m, 'e) sink_result" where
  "protoSink_Set unmarshal dst v b =
     (case unmarshal (gb_data b) dst of
        (Some e, dst) \<Rightarrow> Some (Some (ProtoError e), ProtoSink dst v)
      | (None, dst) \<Rightarrow> Some (None, ProtoSink dst (v\<lparr>bv_b := Some b, bv_s := []\<rparr>)))"

definition allocBytesSink_setBytesOwned :: "bytes option \<Rightarrow> byte_view \<Rightarrow> go_bytes \<Rightarrow> ('m, 'e) sink_result" where
  "allocBytesSink_setBytesOwned dst v b =
     (case dst of
        None \<Rightarrow> Some (Some NilDst, AllocBytesSink dst v)
      | Some _ \<Rightarrow> Some (None, AllocBytesSink (Some (gb_data (cloneBytes (gb_data b)))) (v\<lparr>bv_b := Some b, bv_s := []\<rparr>)))"

definition allocBytesSink_SetString :: "bytes option \<Rightarrow> byte_view \<Rightarrow> bytes \<Rightarrow> ('m, 'e) sink_result" where
  "allocBytesSink_SetString dst v s =
     (case dst of
        None \<Rightarrow> Some (Some NilDst, AllocBytesSink dst v)
      | Some _ \<Rightarrow> Some (None, AllocBytesSink (Some s) (v\<lparr>bv_b := None, bv_s := s\<rparr>)))"

definition allocBytesSink_setView :: "bytes option \<Rightarrow> byte_view \<Rightarrow> byte_view \<Rightarrow> ('m, 'e) sink_result" where
  "allocBytesSink_setView dst v w =
     (case dst of
        None \<Rightarrow> None
      | Some _ \<Rightarrow>
          Some (None, AllocBytesSink (Some (case bv_b w of Some b \<Rightarrow> gb_data (cloneBytes (gb_data b)) | None \<Rightarrow> bv_s w)) w))"

text \<open>\<open>n := copy(*s.dst, b)\<close> and the truncation to \<open>n\<close> bytes.\<close>

definition trunc_copy :: "bytes \<Rightarrow> bytes \<Rightarrow> bytes option" where
  "trunc_copy dst b = do {
     (dst, n) \<leftarrow> go_copy dst 0 b;
     if n < int (length dst) then go_slice dst 0 n else Some dst
   }"

definition truncBytesSink_setBytesOwned :: "bytes option \<Rightarrow> byte_view \<Rightarrow> go_bytes \<Rightarrow> ('m, 'e) sink_result" where
  "truncBytesSink_setBytesOwned dst v b =
     (case dst of
        None \<Rightarrow> Some (Some NilDst, TruncBytesSink dst v)
      | Some d \<Rightarrow> do {
          d \<leftarrow> trunc_copy d (gb_data b);
          Some (None, TruncBytesSink (Some d) (v\<lparr>bv_b := Some b, bv_s := []\<rparr>))
        })"

definition truncBytesSink_SetString :: "bytes option \<Rightarrow> byte_view \<Rightarrow> bytes \<Rightarrow> ('m, 'e) sink_result" where
  "truncBytesSink_SetString dst v s =
     (case dst of
        None \<Rightarrow> Some (Some NilDst, TruncBytesSink dst v)
      | Some d \<Rightarrow> do {
          d \<leftarrow> trunc_copy d s;
          Some (None, TruncBytesSink (Some d) (v\<lparr>bv_b := None, bv_s := s\<rparr>))
        })"

text \<open>The methods of the interface \<open>Sink\<close>.\<close>

definition sink_view :: "'m sink \<Rightarrow> byte_view" where
  "sink_view s =
     (case s of
        StringSink _ v \<Rightarrow> v
      | ByteViewSink dst \<Rightarrow> dst
      | ProtoSink _ v \<Rightarrow> v
      | AllocBytesSink _ v \<Rightarrow> v
      | TruncBytesSink _ v \<Rightarrow> v)"

definition sink_SetString ::
  "nat \<Rightarrow> (bytes \<Rightarrow> 'm \<Rightarrow> 'e option \<times> 'm) \<Rightarrow> 'm sink \<Rightarrow> bytes \<Rightarrow> ('m, 'e) sink_result" where
  "sink_SetString spare unmarshal s x =
     (case s of
        StringSink sp v \<Rightarrow> stringSink_SetString sp v x
      | ByteViewSink dst \<Rightarrow> Some (None, ByteViewSink \<lparr>bv_b = None, bv_s = x\<rparr>)
      | ProtoSink dst v \<Rightarrow> protoSink_Set unmarshal dst v (string_bytes spare x)
      | AllocBytesSink dst v \<Rightarrow> allocBytesSink_SetString dst v x
      | TruncBytesSink dst v \<Rightarrow> truncBytesSink_SetString dst v x)"

definition sink_SetBytes ::
  "(bytes \<Rightarrow> 'm \<Rightarrow> 'e option \<times> 'm) \<Rightarrow> 'm sink \<Rightarrow> bytes \<Rightarrow> ('m, 'e) sink_result" where
  "sink_SetBytes unmarshal s x =
     (case s of
        StringSink sp v \<Rightarrow> stringSink_SetString sp v x
      | ByteViewSink dst \<Rightarrow> Some (None, ByteViewSink \<lparr>bv_b = Some (cloneBytes x), bv_s = []\<rparr>)
      | ProtoSink dst v \<Rightarrow> protoSink_Set unmarshal dst v (cloneBytes x)
      | AllocBytesSink dst v \<Rightarrow> allocBytesSink_setBytesOwned dst v (cloneBytes x)
      | TruncBytesSink dst v \<Rightarrow> truncBytesSink_setBytesOwned dst v (cloneBytes x))"

definition sink_SetProto ::
  "('m \<Rightarrow> 'e + go_bytes) \<Rightarrow> (bytes \<Rightarrow> 'm \<Rightarrow> 'e option \<times> 'm) \<Rightarrow> 'm sink \<Rightarrow> 'm \<Rightarrow> ('m, 'e) sink_result" where
  "sink_SetProto marshal unmarshal s m =
     (case s of
        StringSink sp v \<Rightarrow> stringSink_SetProto marshal sp v m
      | _ \<Rightarrow>
          (case marshal m of
             Inl e \<Rightarrow> Some (Some (ProtoError e), s)
           | Inr b \<Rightarrow>
               (case s of
                  ByteViewSink dst \<Rightarrow> Some (None, ByteViewSink \<lparr>bv_b = Some b, bv_s = []\<rparr>)
                | ProtoSink dst v \<Rightarrow> protoSink_Set unmarshal dst v b
                | AllocBytesSink dst v \<Rightarrow> allocBytesSink_setBytesOwned dst v b
                | TruncBytesSink dst v \<Rightarrow> truncBytesSink_setBytesOwned dst v b
                | StringSink sp v \<Rightarrow> stringSink_SetProto marshal sp v m)))"

text \<open>\<open>setSinkView\<close>: the byte view sink and the allocating sink implement \<open>viewSetter\<close>.\<close>

definition setSinkView ::
  "nat \<Rightarrow> (bytes \<Rightarrow> 'm \<Rightarrow> 'e option \<times> 'm) \<Rightarrow> 'm sink \<Rightarrow> byte_view \<Rightarrow> ('m, 'e) sink_result" where
  "setSinkView spare unmarshal s v =
     (case s of
        ByteViewSink dst \<Rightarrow> Some (None, ByteViewSink v)
      | AllocBytesSink dst w \<Rightarrow> allocBytesSink_setView dst w v
      | _ \<Rightarrow>
          (case bv_b v of
             Some b \<Rightarrow> sink_SetBytes unmarshal s (gb_data b)
           | None \<Rightarrow> sink_SetString spare unmarshal s (bv_s v)))"

end
