(* ===== verification/Byte_View_Props.thy ===== *)
theory Byte_View_Props
  imports Byte_View
begin

text \<open>
  A \<open>ByteView\<close> behaves like its bytes, whichever of its two representations it uses, as long as
  slices stay within it; every sink that accepts a view ends up with the bytes of the view.
\<close>

section \<open>Views are their bytes\<close>

lemma equal_loop_eq:
  "length pre + length xs = length ys \<Longrightarrow> take (length pre) ys = pre \<Longrightarrow>
     equal_loop xs (int (length pre)) ys = Some (pre @ xs = ys)"
proof (induction xs arbitrary: pre)
  case Nil
  then show ?case by auto
next
  case (Cons x xs)
  have n: "length pre < length ys" using Cons.prems(1) by simp
  have t: "take (Suc (length pre)) ys = pre @ [ys ! length pre]" using n Cons.prems(2) by (simp add: take_Suc_conv_app_nth)
  show ?case
  proof (cases "x = ys ! length pre")
    case True
    with Cons.IH [of "pre @ [x]"] Cons.prems(1) t n show ?thesis by (simp add: go_nth_int add.commute)
  next
    case False
    have "pre @ x # xs \<noteq> ys" using False by (metis nth_append_length)
    with False n show ?thesis by (simp add: go_nth_int)
  qed
qed

lemma equal_loop_0: "length xs = length ys \<Longrightarrow> equal_loop xs 0 ys = Some (xs = ys)"
  using equal_loop_eq [of "[]" xs ys] by simp

lemma bv_EqualString_eq: "bv_EqualString v s = Some (bv_String v = s)"
  by (auto simp: bv_EqualString_def bv_String_def bv_Len_def equal_loop_0 split: option.splits)

lemma bv_EqualBytes_eq: "bv_EqualBytes v b = Some (bv_String v = b)"
  by (auto simp: bv_EqualBytes_def bv_String_def bv_Len_def equal_loop_0 split: option.splits)

lemma bv_Equal_eq: "bv_Equal v w = Some (bv_String v = bv_String w)"
  by (auto simp: bv_Equal_def bv_EqualString_eq bv_EqualBytes_eq bv_String_def split: option.splits)

lemma gb_slice_within:
  "j \<le> int (length (gb_data b)) \<Longrightarrow> map_option gb_data (gb_slice b i j) = go_slice (gb_data b) i j"
  by (auto simp: gb_slice_def go_slice_def Let_def)

lemma bv_Slice_eq: "to \<le> bv_Len v \<Longrightarrow> map_option bv_String (bv_Slice v from to) = go_slice (bv_String v) from to"
  using gb_slice_within
  by (auto simp: bv_Slice_def bv_String_def bv_Len_def option.map_comp comp_def option.map_ident split: option.splits)

lemma bv_SliceFrom_eq: "map_option bv_String (bv_SliceFrom v from) = go_from (bv_String v) from"
  using gb_slice_within
  by (auto simp: bv_SliceFrom_def bv_String_def go_from_def option.map_comp comp_def option.map_ident split: option.splits)

lemma bv_simple_eqs:
  "bv_Len v = int (length (bv_String v))" "gb_data (bv_ByteSlice spare v) = bv_String v" "bv_At v i = go_nth (bv_String v) i"
  "bv_Copy v dest = go_copy dest 0 (bv_String v)"
  by (auto simp: bv_Len_def bv_ByteSlice_def bv_At_def bv_Copy_def bv_String_def cloneBytes_def exact_def string_bytes_def split: option.splits)

text \<open>What \<open>ReadAt\<close> does, on the bytes.\<close>

definition read_at :: "bytes \<Rightarrow> bytes \<Rightarrow> int \<Rightarrow> bytes \<times> int \<times> view_error option" where
  "read_at xs p off =
     (if off < 0 then (p, 0, Some invalid_offset)
      else if off \<ge> int (length xs) then (p, 0, Some EOF)
      else (let ys = take (length p) (drop (nat off) xs)
            in (ys @ drop (length ys) p, int (length ys), if length ys < length p then Some EOF else None)))"

lemma bv_ReadAt_eq: "bv_ReadAt v p off = Some (read_at (bv_String v) p off)"
proof (cases "off < 0 \<or> off \<ge> bv_Len v")
  case True
  then show ?thesis by (auto simp: bv_ReadAt_def read_at_def bv_simple_eqs)
next
  case False
  then have f: "go_from (bv_String v) off = Some (drop (nat off) (bv_String v))"
    by (intro go_from_eq) (auto simp: bv_simple_eqs)
  with bv_SliceFrom_eq [of v off] obtain w where w: "bv_SliceFrom v off = Some w" "bv_String w = drop (nat off) (bv_String v)"
    by auto
  have "bv_Copy w p = Some (blit p 0 (bv_String w), min (int (length p)) (int (length (bv_String w))))"
    by (simp add: bv_simple_eqs go_copy_def)
  with False w show ?thesis
    by (auto simp: bv_ReadAt_def read_at_def bv_simple_eqs blit_def min_def Let_def)
qed

text \<open>A reader, on the bytes and the index.\<close>

fun rd_state :: "view_reader \<Rightarrow> bytes \<times> int" where
  "rd_state (BytesReader s i) = (gb_data s, i)"
| "rd_state (StringReader s i) = (s, i)"

definition read_from :: "bytes \<times> int \<Rightarrow> bytes \<Rightarrow> bytes \<times> int \<times> view_error option \<times> bytes \<times> int" where
  "read_from st p =
     (let (xs, i) = st
      in if i \<ge> int (length xs) then (p, 0, Some EOF, xs, i)
         else let ys = take (length p) (drop (nat i) xs) in (ys @ drop (length ys) p, int (length ys), None, xs, i + int (length ys)))"

lemma rd_Read_eq:
  assumes "0 \<le> snd (rd_state r)"
  shows "map_option (\<lambda>(p, n, e, r). (p, n, e, rd_state r)) (rd_Read r p) = Some (read_from (rd_state r) p)"
  using assms
  by (cases r) (auto simp: rd_Read_def read_from_def gb_slice_def go_from_def go_slice_def go_copy_def blit_def min_def Let_def)

lemma read_from_pos: "0 \<le> snd x \<Longrightarrow> read_from x p = (p', n, e, st) \<Longrightarrow> 0 \<le> snd st"
  by (cases x) (auto simp: read_from_def Let_def split: if_splits)

lemma rd_Seek_eq:
  "rd_state r = rd_state r' \<Longrightarrow> rd_Seek r off w = (a, q) \<Longrightarrow> rd_Seek r' off w = (a', q') \<Longrightarrow> a = a' \<and> rd_state q = rd_state q'"
  by (cases r; cases r') (auto simp: rd_Seek_def split: sum.splits)

lemma rd_Seek_pos: "0 \<le> snd (rd_state r) \<Longrightarrow> rd_Seek r off w = (a, q) \<Longrightarrow> 0 \<le> snd (rd_state q)"
  by (cases r) (auto simp: rd_Seek_def seek_index_def Let_def split: sum.splits if_splits)

lemma rd_session_eq:
  "rd_state r = rd_state r' \<Longrightarrow> 0 \<le> snd (rd_state r) \<Longrightarrow> \<exists>as. rd_session r cs = Some as \<and> rd_session r' cs = Some as"
proof (induction cs arbitrary: r r')
  case (Cons c cs)
  show ?case
  proof (cases c)
    case (CallRead p)
    obtain p' n e st where st: "read_from (rd_state r) p = (p', n, e, st)" by (cases "read_from (rd_state r) p")
    from rd_Read_eq [of r p] Cons.prems st obtain q where q1: "rd_Read r p = Some (p', n, e, q)" "rd_state q = st" by auto
    from rd_Read_eq [of r' p] Cons.prems st obtain q' where q2: "rd_Read r' p = Some (p', n, e, q')" "rd_state q' = st" by auto
    from q1 q2 have q: "rd_Read r p = Some (p', n, e, q)" "rd_Read r' p = Some (p', n, e, q')" "rd_state q = rd_state q'" by simp_all
    have "0 \<le> snd (rd_state q)" using read_from_pos [OF Cons.prems(2) st] q1(2) by simp
    with Cons.IH [OF q(3)] q CallRead show ?thesis by auto
  next
    case (CallSeek off w)
    obtain a q a' q' where q: "rd_Seek r off w = (a, q)" "rd_Seek r' off w = (a', q')" by fastforce
    with Cons.IH [of q q'] rd_Seek_eq [OF Cons.prems(1) q] rd_Seek_pos [OF Cons.prems(2) q(1)] CallSeek show ?thesis by auto
  qed
qed simp

lemma rd_session_views: "bv_String v = bv_String w \<Longrightarrow> \<exists>as. rd_session (bv_Reader v) cs = Some as \<and> rd_session (bv_Reader w) cs = Some as"
  by (intro rd_session_eq) (auto simp: bv_Reader_def bv_String_def split: option.splits)

lemma bv_WriteTo_eq:
  "bv_WriteTo v write write = (let (m, err) = write (bv_String v)
     in (m, case err of Some e \<Rightarrow> Some (Inr e) | None \<Rightarrow> if m < int (length (bv_String v)) then Some (Inl ErrShortWrite) else None))"
  by (cases "bv_b v"; cases "write (bv_String v)") (auto simp: bv_WriteTo_def bv_String_def bv_Len_def Let_def)

section \<open>Properties of views\<close>

text \<open>
  C29. The representation of a \<open>ByteView\<close> is invisible: two views with the same bytes, one backed by
  a slice and the other by a string, give the same results for \<open>Len\<close>, \<open>ByteSlice\<close>, \<open>At\<close>, \<open>Copy\<close>,
  \<open>ReadAt\<close>, \<open>SliceFrom\<close> and for \<open>Slice\<close> within the view; the comparisons decide exactly
  whether the bytes are the same; every sequence of \<open>Read\<close> and \<open>Seek\<close> on the two readers returns, with the same answers; and \<open>WriteTo\<close> hands the bytes to a
  writer that treats strings like slices, reporting what it returns and a short write.
\<close>

theorem byteview_invisible:
  assumes "bv_String v = bv_String w" "to \<le> bv_Len v"
  shows "bv_Len v = bv_Len w \<and> gb_data (bv_ByteSlice spare v) = bv_String w \<and> bv_At v i = bv_At w i \<and>
    bv_Copy v dest = bv_Copy w dest \<and> bv_ReadAt v p off = bv_ReadAt w p off \<and>
    map_option bv_String (bv_SliceFrom v i) = map_option bv_String (bv_SliceFrom w i) \<and>
    map_option bv_String (bv_Slice v i to) = map_option bv_String (bv_Slice w i to) \<and>
    bv_Equal v u = Some (bv_String v = bv_String u) \<and> bv_EqualString v s = Some (bv_String v = s) \<and>
    bv_EqualBytes v s = Some (bv_String v = s) \<and>
    (\<exists>as. rd_session (bv_Reader v) cs = Some as \<and> rd_session (bv_Reader w) cs = Some as) \<and>
    bv_WriteTo v write write = (let (m, err) = write (bv_String w)
      in (m, case err of Some e \<Rightarrow> Some (Inr e) | None \<Rightarrow> if m < bv_Len w then Some (Inl ErrShortWrite) else None))"
  using assms bv_Slice_eq [of to v i] bv_Slice_eq [of to w i] rd_session_views [OF assms(1), of cs]
  by (cases "write (bv_String w)") (simp add: bv_simple_eqs bv_ReadAt_eq bv_SliceFrom_eq bv_Equal_eq bv_EqualString_eq bv_EqualBytes_eq bv_WriteTo_eq Let_def)

theorem byteview_invisible_witness:
  "bv_ReadAt \<lparr>bv_b = Some \<lparr>gb_data = [1, 2, 3], gb_rest = [9]\<rparr>, bv_s = []\<rparr> [0, 0] 1 =
     bv_ReadAt \<lparr>bv_b = None, bv_s = [1, 2, 3]\<rparr> [0, 0] 1"
  using byteview_invisible [of "\<lparr>bv_b = Some \<lparr>gb_data = [1, 2, 3], gb_rest = [9]\<rparr>, bv_s = []\<rparr>"
      "\<lparr>bv_b = None, bv_s = [1, 2, 3]\<rparr>" 0 0 0 "[]" "[0, 0]" 1 "\<lparr>bv_b = None, bv_s = []\<rparr>" "[]" "[]"
      "\<lambda>_. (0, None :: unit option)"]
  by (simp add: bv_String_def bv_Len_def)

text \<open>
  The representation is visible to \<open>Slice\<close> with an upper index beyond the end: with the same
  bytes, a view of a string panics, but a view of a slice with spare capacity returns bytes
  that were not part of it.
\<close>

theorem byteview_slice_beyond_end:
  "\<exists>v w. bv_String v = bv_String w \<and> bv_Slice w 0 3 = None \<and>
     (\<exists>u. bv_Slice v 0 3 = Some u \<and> bv_String u = [1, 2, 9] \<and> bv_String v = [1, 2])"
proof -
  let ?v = "\<lparr>bv_b = Some \<lparr>gb_data = [1, 2], gb_rest = [9]\<rparr>, bv_s = []\<rparr>"
  let ?w = "\<lparr>bv_b = None, bv_s = [1, 2]\<rparr>"
  have "bv_String ?v = bv_String ?w" "bv_Slice ?w 0 3 = None"
    "bv_Slice ?v 0 3 = Some \<lparr>bv_b = Some \<lparr>gb_data = [1, 2, 9], gb_rest = []\<rparr>, bv_s = []\<rparr>"
    by (simp_all add: bv_String_def bv_Slice_def gb_slice_def go_slice_def Let_def)
  then show ?thesis by (intro exI [of _ ?v] exI [of _ ?w]) (simp add: bv_String_def)
qed

section \<open>Sinks\<close>

text \<open>The value a sink has delivered to its destination, given what was there before.\<close>

fun delivered :: "(bytes \<Rightarrow> 'm \<Rightarrow> 'e option \<times> 'm) \<Rightarrow> 'm sink \<Rightarrow> bytes \<Rightarrow> 'm sink \<Rightarrow> bool" where
  "delivered unmarshal (StringSink sp _) x s' = (\<exists>v. s' = StringSink (Some x) v)"
| "delivered unmarshal (ByteViewSink _) x s' = (\<exists>v. s' = ByteViewSink v \<and> bv_String v = x)"
| "delivered unmarshal (ProtoSink m _) x s' = (\<exists>m' v. s' = ProtoSink m' v \<and> unmarshal x m = (None, m'))"
| "delivered unmarshal (AllocBytesSink _ _) x s' = (\<exists>v. s' = AllocBytesSink (Some x) v)"
| "delivered unmarshal (TruncBytesSink d _) x s' = (\<exists>v. s' = TruncBytesSink (Some (take (length (the d)) x)) v)"

fun has_dst :: "'m sink \<Rightarrow> bool" where
  "has_dst (StringSink sp _) = (sp \<noteq> None)"
| "has_dst (AllocBytesSink d _) = (d \<noteq> None)"
| "has_dst (TruncBytesSink d _) = (d \<noteq> None)"
| "has_dst _ = True"

lemma trunc_copy_eq: "trunc_copy d b = Some (take (length d) b)"
  by (auto simp: trunc_copy_def go_copy_def go_slice_def blit_def min_def)

definition accepts :: "(bytes \<Rightarrow> 'm \<Rightarrow> 'e option \<times> 'm) \<Rightarrow> 'm sink \<Rightarrow> bytes \<Rightarrow> ('m, 'e) sink_result \<Rightarrow> bool" where
  "accepts unmarshal s x r \<longleftrightarrow>
     (\<exists>err s'. r = Some (err, s') \<and>
       (case err of
          None \<Rightarrow> bv_String (sink_view s') = x \<and> delivered unmarshal s x s'
        | Some e \<Rightarrow> (\<exists>m v pe m'. s = ProtoSink m v \<and> e = ProtoError pe \<and> unmarshal x m = (Some pe, m'))))"

lemma sink_set_ok:
  assumes "has_dst s"
  shows "accepts unmarshal s x (sink_SetString spare unmarshal s x)" "accepts unmarshal s x (sink_SetBytes unmarshal s x)"
  using assms
  by (cases s; auto simp: accepts_def sink_SetString_def sink_SetBytes_def stringSink_SetString_def protoSink_Set_def
      allocBytesSink_SetString_def allocBytesSink_setBytesOwned_def truncBytesSink_SetString_def
      truncBytesSink_setBytesOwned_def trunc_copy_eq sink_view_def bv_String_def exact_def cloneBytes_def string_bytes_def
      split: prod.splits option.splits)+

lemma setSinkView_ok:
  assumes "has_dst s"
  shows "accepts unmarshal s (bv_String v) (setSinkView spare unmarshal s v)"
proof -
  note o = sink_set_ok [OF assms, of unmarshal]
  show ?thesis
  proof (cases s)
    case (ByteViewSink d)
    then show ?thesis by (simp add: setSinkView_def accepts_def sink_view_def)
  next
    case (AllocBytesSink d w)
    then show ?thesis using assms
      by (auto simp: setSinkView_def accepts_def sink_view_def allocBytesSink_setView_def bv_String_def cloneBytes_def exact_def
          split: option.splits)
  qed (use o [of "bv_String v"] in \<open>auto simp: setSinkView_def bv_String_def split: option.splits\<close>)
qed

text \<open>
  \<open>setSinkView\<close> delivers a cached view faithfully to every kind of sink that has a destination:
  it does not panic, the sink's own view has exactly the bytes of the cached one, and the
  destination holds them (a truncating sink as many as fit, a protobuf sink the decoded
  message); the only error is the one of decoding a message.
\<close>

theorem sink_view_roundtrip:
  assumes "has_dst s"
  shows "accepts unmarshal s (bv_String v) (setSinkView spare unmarshal s v)"
  using assms by (rule setSinkView_ok)

theorem sink_view_roundtrip_witness:
  "accepts (\<lambda>b m. (None :: nat option, m + length b)) (TruncBytesSink (Some [0, 0]) \<lparr>bv_b = None, bv_s = []\<rparr>) [7, 8, 9]
     (setSinkView 0 (\<lambda>b m. (None, m + length b)) (TruncBytesSink (Some [0, 0]) \<lparr>bv_b = None, bv_s = []\<rparr>) \<lparr>bv_b = None, bv_s = [7, 8, 9]\<rparr>)"
  using sink_view_roundtrip [of "TruncBytesSink (Some [0, 0]) \<lparr>bv_b = None, bv_s = []\<rparr>" "\<lambda>b m. (None, m + length b)" "\<lparr>bv_b = None, bv_s = [7, 8, 9]\<rparr>"]
  by (simp add: bv_String_def)

text \<open>
  An allocating sink without a destination reports an error to \<open>SetBytes\<close> and \<open>SetString\<close>,
  but \<open>setSinkView\<close>, which serves cache hits, panics.
\<close>

theorem alloc_sink_nil_dst:
  "sink_SetBytes unmarshal (AllocBytesSink None v) x = Some (Some NilDst, AllocBytesSink None v) \<and>
   sink_SetString spare unmarshal (AllocBytesSink None v) x = Some (Some NilDst, AllocBytesSink None v) \<and>
   setSinkView spare unmarshal (AllocBytesSink None v) w = None"
  by (simp add: sink_SetBytes_def sink_SetString_def setSinkView_def allocBytesSink_setBytesOwned_def
      allocBytesSink_SetString_def allocBytesSink_setView_def)

end
