(* ===== verification/Group_Cache.thy ===== *)
theory Group_Cache
  imports Lru_Props Byte_View_Props
begin

text \<open>
  \<open>groupcache/groupcache.go\<close> and \<open>groupcache/peers.go\<close>: the byte-counting cache around the LRU
  cache, groups with their main and hot caches, and the registry of groups.

  Parameters: the user's \<open>getter\<close> (a key and a sink to the returned error and the sink
  afterwards), the peers (a picker maps a key to the peer that owns it; a peer maps a group
  name and a key to an error or the returned bytes, \<open>None\<close> for a nil value), the decoding of
  messages, and the coin \<open>hot\<close>, the outcome of \<open>rand.Intn(10) == 0\<close>. A call of \<open>Get\<close> is one
  step: without an overlapping call for the same key, \<open>loadGroup.Do\<close> calls the function once
  and returns its result. Byte counts and statistics are unbounded integers.
\<close>

section \<open>The cache with its byte count\<close>

record gcache =
  gc_nbytes :: int
  gc_lru :: "(bytes, byte_view) lru_cache option"
  gc_nhit :: int
  gc_nget :: int
  gc_nevict :: int

record gcache_stats =
  cs_Bytes :: int
  cs_Items :: int
  cs_Gets :: int
  cs_Hits :: int
  cs_Evictions :: int

definition zero_cache :: gcache where
  "zero_cache = \<lparr>gc_nbytes = 0, gc_lru = None, gc_nhit = 0, gc_nget = 0, gc_nevict = 0\<rparr>"

text \<open>The size of an entry, and the callback \<open>OnEvicted\<close>.\<close>

definition entry_size :: "bytes \<times> byte_view \<Rightarrow> int" where
  "entry_size kv = int (length (fst kv)) + bv_Len (snd kv)"

definition gc_onEvicted :: "bytes \<times> byte_view \<Rightarrow> gcache \<Rightarrow> gcache" where
  "gc_onEvicted kv c = c\<lparr>gc_nbytes := gc_nbytes c - entry_size kv, gc_nevict := gc_nevict c + 1\<rparr>"

text \<open>The cache after an operation of its LRU cache: the logged calls of the callback take
  effect.\<close>

definition gc_after :: "gcache \<Rightarrow> (bytes, byte_view) lru_cache \<Rightarrow> gcache" where
  "gc_after c l = (fold gc_onEvicted (lru_evicted l) c)\<lparr>gc_lru := Some (l\<lparr>lru_evicted := []\<rparr>)\<rparr>"

definition gc_newLru :: "(bytes, byte_view) lru_cache" where
  "gc_newLru = \<lparr>lru_MaxEntries = 0, lru_OnEvicted = True, lru_ll = None, lru_map = None, lru_heap = empty_heap, lru_evicted = []\<rparr>"

definition gc_add :: "gcache \<Rightarrow> bytes \<Rightarrow> byte_view \<Rightarrow> gcache option" where
  "gc_add c key v = do {
     let l = (case gc_lru c of None \<Rightarrow> gc_newLru | Some l \<Rightarrow> l);
     l \<leftarrow> lru_Add l key v;
     let c = gc_after c l;
     Some (c\<lparr>gc_nbytes := gc_nbytes c + (int (length key) + bv_Len v)\<rparr>)
   }"

definition gc_get :: "gcache \<Rightarrow> bytes \<Rightarrow> (byte_view option \<times> gcache) option" where
  "gc_get c key =
     (let c = c\<lparr>gc_nget := gc_nget c + 1\<rparr>
      in case gc_lru c of
           None \<Rightarrow> Some (None, c)
         | Some l \<Rightarrow> do {
             (vi, l) \<leftarrow> lru_Get l key;
             let c = gc_after c l;
             case vi of
               None \<Rightarrow> Some (None, c)
             | Some v \<Rightarrow> Some (Some v, c\<lparr>gc_nhit := gc_nhit c + 1\<rparr>)
           })"

definition gc_removeOldest :: "gcache \<Rightarrow> gcache option" where
  "gc_removeOldest c =
     (case gc_lru c of
        None \<Rightarrow> Some c
      | Some l \<Rightarrow> do { l \<leftarrow> lru_RemoveOldest l; Some (gc_after c l) })"

definition gc_bytes :: "gcache \<Rightarrow> int" where
  "gc_bytes c = gc_nbytes c"

definition gc_items :: "gcache \<Rightarrow> int option" where
  "gc_items c = (case gc_lru c of None \<Rightarrow> Some 0 | Some l \<Rightarrow> lru_Len l)"

definition gc_stats :: "gcache \<Rightarrow> gcache_stats option" where
  "gc_stats c = do {
     n \<leftarrow> gc_items c;
     Some \<lparr>cs_Bytes = gc_nbytes c, cs_Items = n, cs_Gets = gc_nget c, cs_Hits = gc_nhit c, cs_Evictions = gc_nevict c\<rparr>
   }"

section \<open>Peers\<close>

type_synonym 'e peer = "bytes \<Rightarrow> bytes \<Rightarrow> 'e + go_bytes option"
type_synonym 'e picker = "bytes \<Rightarrow> 'e peer option"

definition NoPeers :: "'e picker" where
  "NoPeers key = None"

text \<open>The registered function that returns the picker of a group; registering twice panics.\<close>

definition RegisterPeerPicker ::
  "(bytes \<Rightarrow> 'e picker option) option \<Rightarrow> 'e picker option \<Rightarrow> (bytes \<Rightarrow> 'e picker option) option option" where
  "RegisterPeerPicker portPicker fn = (if portPicker \<noteq> None then None else Some (Some (\<lambda>_. fn)))"

definition RegisterPerGroupPeerPicker ::
  "(bytes \<Rightarrow> 'e picker option) option \<Rightarrow> (bytes \<Rightarrow> 'e picker option) \<Rightarrow> (bytes \<Rightarrow> 'e picker option) option option" where
  "RegisterPerGroupPeerPicker portPicker fn = (if portPicker \<noteq> None then None else Some (Some fn))"

definition getPeers :: "(bytes \<Rightarrow> 'e picker option) option \<Rightarrow> bytes \<Rightarrow> 'e picker" where
  "getPeers portPicker groupName =
     (case portPicker of
        None \<Rightarrow> NoPeers
      | Some f \<Rightarrow> (case f groupName of None \<Rightarrow> NoPeers | Some pk \<Rightarrow> pk))"

section \<open>Groups\<close>

record group_stats =
  st_Gets :: int
  st_CacheHits :: int
  st_PeerLoads :: int
  st_PeerErrors :: int
  st_Loads :: int
  st_LoadsDeduped :: int
  st_LocalLoads :: int
  st_LocalLoadErrs :: int
  st_ServerRequests :: int

definition zero_stats :: group_stats where
  "zero_stats = \<lparr>st_Gets = 0, st_CacheHits = 0, st_PeerLoads = 0, st_PeerErrors = 0, st_Loads = 0, st_LoadsDeduped = 0,
     st_LocalLoads = 0, st_LocalLoadErrs = 0, st_ServerRequests = 0\<rparr>"

datatype cache_type = MainCache | HotCache

record 'e group =
  g_name :: bytes
  g_peersOnce :: bool
  g_peers :: "'e picker option"
  g_cacheBytes :: int
  g_mainCache :: gcache
  g_hotCache :: gcache
  g_Stats :: group_stats

definition g_count :: "(group_stats \<Rightarrow> group_stats) \<Rightarrow> 'e group \<Rightarrow> 'e group" where
  "g_count f g = g\<lparr>g_Stats := f (g_Stats g)\<rparr>"

definition initPeers :: "(bytes \<Rightarrow> 'e picker option) option \<Rightarrow> 'e group \<Rightarrow> 'e group" where
  "initPeers portPicker g =
     (case g_peers g of None \<Rightarrow> g\<lparr>g_peers := Some (getPeers portPicker (g_name g))\<rparr> | Some _ \<Rightarrow> g)"

definition lookupCache :: "'e group \<Rightarrow> bytes \<Rightarrow> (byte_view option \<times> 'e group) option" where
  "lookupCache g key =
     (if g_cacheBytes g \<le> 0 then Some (None, g)
      else do {
        (r, c) \<leftarrow> gc_get (g_mainCache g) key;
        let g = g\<lparr>g_mainCache := c\<rparr>;
        case r of
          Some v \<Rightarrow> Some (Some v, g)
        | None \<Rightarrow> do {
            (r, c) \<leftarrow> gc_get (g_hotCache g) key;
            Some (r, g\<lparr>g_hotCache := c\<rparr>)
          }
      })"

text \<open>The eviction loop of \<open>populateCache\<close>; \<open>None\<close> if it does not end.\<close>

partial_function (option) evictLoop :: "'e group \<Rightarrow> 'e group option" where
  "evictLoop g =
     (let mainBytes = gc_bytes (g_mainCache g); hotBytes = gc_bytes (g_hotCache g)
      in if mainBytes + hotBytes \<le> g_cacheBytes g then Some g
         else do {
           q \<leftarrow> go_div mainBytes 8;
           g \<leftarrow> (if hotBytes > q then do { c \<leftarrow> gc_removeOldest (g_hotCache g); Some (g\<lparr>g_hotCache := c\<rparr>) }
                 else do { c \<leftarrow> gc_removeOldest (g_mainCache g); Some (g\<lparr>g_mainCache := c\<rparr>) });
           evictLoop g
         })"

declare evictLoop.simps [code]

definition populateCache :: "'e group \<Rightarrow> bytes \<Rightarrow> byte_view \<Rightarrow> cache_type \<Rightarrow> 'e group option" where
  "populateCache g key v which =
     (if g_cacheBytes g \<le> 0 then Some g
      else do {
        g \<leftarrow> (case which of
            MainCache \<Rightarrow> do { c \<leftarrow> gc_add (g_mainCache g) key v; Some (g\<lparr>g_mainCache := c\<rparr>) }
          | HotCache \<Rightarrow> do { c \<leftarrow> gc_add (g_hotCache g) key v; Some (g\<lparr>g_hotCache := c\<rparr>) });
        evictLoop g
      })"

datatype ('e, 's) group_error = NilDestSink | LoadError 'e | SinkError "'s sink_error"

text \<open>\<open>getFromPeer\<close>: an error or the value.\<close>

definition getFromPeer :: "bool \<Rightarrow> 'e group \<Rightarrow> 'e peer \<Rightarrow> bytes \<Rightarrow> (('e + byte_view) \<times> 'e group) option" where
  "getFromPeer hot g peer key =
     (case peer (g_name g) key of
        Inl e \<Rightarrow> Some (Inl e, g)
      | Inr b \<Rightarrow> do {
          let v = \<lparr>bv_b = b, bv_s = []\<rparr>;
          g \<leftarrow> (if hot then populateCache g key v HotCache else Some g);
          Some (Inr v, g)
        })"

definition getLocally ::
  "(bytes \<Rightarrow> 'm sink \<Rightarrow> 'e option \<times> 'm sink) \<Rightarrow> bytes \<Rightarrow> 'm sink \<Rightarrow> ('e + byte_view) \<times> 'm sink" where
  "getLocally getter key dest =
     (case getter key dest of
        (Some e, dest) \<Rightarrow> (Inl e, dest)
      | (None, dest) \<Rightarrow> (Inr (sink_view dest), dest))"

text \<open>The local part of the function that \<open>load\<close> passes to \<open>loadGroup.Do\<close>: the getter is called
  and the value put into the main cache.\<close>

definition load_local ::
  "(bytes \<Rightarrow> 'm sink \<Rightarrow> 'e option \<times> 'm sink) \<Rightarrow> 'e group \<Rightarrow> bytes \<Rightarrow> 'm sink \<Rightarrow>
     (('e + byte_view) \<times> bool \<times> 'm sink \<times> 'e group) option" where
  "load_local getter g key dest =
     (case getLocally getter key dest of
        (Inl e, dest) \<Rightarrow> Some (Inl e, False, dest, g_count (\<lambda>s. s\<lparr>st_LocalLoadErrs := st_LocalLoadErrs s + 1\<rparr>) g)
      | (Inr v, dest) \<Rightarrow> do {
          let g = g_count (\<lambda>s. s\<lparr>st_LocalLoads := st_LocalLoads s + 1\<rparr>) g;
          g \<leftarrow> populateCache g key v MainCache;
          Some (Inr v, True, dest, g)
        })"

text \<open>\<open>load\<close>: the value or the error, whether the sink was filled, the sink and the group. The
  peers have been initialised before, a nil picker panics.\<close>

definition group_load ::
  "(bytes \<Rightarrow> 'm sink \<Rightarrow> 'e option \<times> 'm sink) \<Rightarrow> bool \<Rightarrow> 'e group \<Rightarrow> bytes \<Rightarrow> 'm sink \<Rightarrow>
     (('e + byte_view) \<times> bool \<times> 'm sink \<times> 'e group) option" where
  "group_load getter hot g key dest = do {
     let g = g_count (\<lambda>s. s\<lparr>st_Loads := st_Loads s + 1\<rparr>) g;
     (r, g) \<leftarrow> lookupCache g key;
     case r of
       Some v \<Rightarrow> Some (Inr v, False, dest, g_count (\<lambda>s. s\<lparr>st_CacheHits := st_CacheHits s + 1\<rparr>) g)
     | None \<Rightarrow> do {
         let g = g_count (\<lambda>s. s\<lparr>st_LoadsDeduped := st_LoadsDeduped s + 1\<rparr>) g;
         picker \<leftarrow> g_peers g;
         case picker key of
           None \<Rightarrow> load_local getter g key dest
         | Some peer \<Rightarrow> do {
             (r, g) \<leftarrow> getFromPeer hot g peer key;
             case r of
               Inr v \<Rightarrow> Some (Inr v, False, dest, g_count (\<lambda>s. s\<lparr>st_PeerLoads := st_PeerLoads s + 1\<rparr>) g)
             | Inl e \<Rightarrow> load_local getter (g_count (\<lambda>s. s\<lparr>st_PeerErrors := st_PeerErrors s + 1\<rparr>) g) key dest
           }
       }
   }"

text \<open>\<open>Get\<close>: the returned error, the sink and the group afterwards; \<open>dest\<close> may be nil.\<close>

definition group_Get ::
  "nat \<Rightarrow> (bytes \<Rightarrow> 'm \<Rightarrow> 's option \<times> 'm) \<Rightarrow> (bytes \<Rightarrow> 'm sink \<Rightarrow> 'e option \<times> 'm sink) \<Rightarrow> (bytes \<Rightarrow> 'e picker option) option \<Rightarrow>
     bool \<Rightarrow> 'e group \<Rightarrow> bytes \<Rightarrow> 'm sink option \<Rightarrow>
     (('e, 's) group_error option \<times> 'm sink option \<times> 'e group) option" where
  "group_Get spare unmarshal getter portPicker hot g key dest = do {
     let g = (if g_peersOnce g then g else (initPeers portPicker g)\<lparr>g_peersOnce := True\<rparr>);
     let g = g_count (\<lambda>s. s\<lparr>st_Gets := st_Gets s + 1\<rparr>) g;
     case dest of
       None \<Rightarrow> Some (Some NilDestSink, None, g)
     | Some d \<Rightarrow> do {
         (r, g) \<leftarrow> lookupCache g key;
         case r of
           Some v \<Rightarrow> do {
             let g = g_count (\<lambda>s. s\<lparr>st_CacheHits := st_CacheHits s + 1\<rparr>) g;
             (e, d) \<leftarrow> setSinkView spare unmarshal d v;
             Some (map_option SinkError e, Some d, g)
           }
         | None \<Rightarrow> do {
             (r, populated, d, g) \<leftarrow> group_load getter hot g key d;
             case r of
               Inl e \<Rightarrow> Some (Some (LoadError e), Some d, g)
             | Inr v \<Rightarrow>
                 if populated then Some (None, Some d, g)
                 else do {
                   (e, d) \<leftarrow> setSinkView spare unmarshal d v;
                   Some (map_option SinkError e, Some d, g)
                 }
           }
       }
   }"

text \<open>The argument of \<open>CacheStats\<close> is an integer: \<open>MainCache\<close> is 1 and \<open>HotCache\<close> is 2.\<close>

definition group_CacheStats :: "'e group \<Rightarrow> int \<Rightarrow> gcache_stats option" where
  "group_CacheStats g which =
     (if which = 1 then gc_stats (g_mainCache g)
      else if which = 2 then gc_stats (g_hotCache g)
      else Some \<lparr>cs_Bytes = 0, cs_Items = 0, cs_Gets = 0, cs_Hits = 0, cs_Evictions = 0\<rparr>)"

section \<open>The registry of groups\<close>

text \<open>The package variables; the hooks are user code, their calls are logged.\<close>

datatype hook_call = ServerStart | NewGroupHook bytes

record 'e registry =
  rg_groups :: "bytes \<Rightarrow> 'e group option"
  rg_initOnce :: bool
  rg_initPeerServer :: bool
  rg_newGroupHook :: bool
  rg_calls :: "hook_call list"

definition RegisterNewGroupHook :: "'e registry \<Rightarrow> 'e registry option" where
  "RegisterNewGroupHook r = (if rg_newGroupHook r then None else Some (r\<lparr>rg_newGroupHook := True\<rparr>))"

definition RegisterServerStart :: "'e registry \<Rightarrow> 'e registry option" where
  "RegisterServerStart r = (if rg_initPeerServer r then None else Some (r\<lparr>rg_initPeerServer := True\<rparr>))"

definition callInitPeerServer :: "'e registry \<Rightarrow> 'e registry" where
  "callInitPeerServer r = (if rg_initPeerServer r then r\<lparr>rg_calls := rg_calls r @ [ServerStart]\<rparr> else r)"

definition GetGroup :: "'e registry \<Rightarrow> bytes \<Rightarrow> 'e group option" where
  "GetGroup r name = rg_groups r name"

definition newGroup :: "'e registry \<Rightarrow> bytes \<Rightarrow> int \<Rightarrow> bool \<Rightarrow> 'e picker option \<Rightarrow> ('e group \<times> 'e registry) option" where
  "newGroup r name cacheBytes getterNil peers =
     (if getterNil then None
      else
        (let r = (if rg_initOnce r then r else (callInitPeerServer r)\<lparr>rg_initOnce := True\<rparr>)
         in if rg_groups r name \<noteq> None then None
            else
              (let g = \<lparr>g_name = name, g_peersOnce = False, g_peers = peers, g_cacheBytes = cacheBytes,
                     g_mainCache = zero_cache, g_hotCache = zero_cache, g_Stats = zero_stats\<rparr>;
                   r = (if rg_newGroupHook r then r\<lparr>rg_calls := rg_calls r @ [NewGroupHook name]\<rparr> else r)
               in Some (g, r\<lparr>rg_groups := (rg_groups r)(name \<mapsto> g)\<rparr>))))"

definition NewGroup :: "'e registry \<Rightarrow> bytes \<Rightarrow> int \<Rightarrow> bool \<Rightarrow> ('e group \<times> 'e registry) option" where
  "NewGroup r name cacheBytes getterNil = newGroup r name cacheBytes getterNil None"

end
