(* ===== verification/Group_Cache_Props.thy ===== *)
theory Group_Cache_Props
  imports Group_Cache
begin

text \<open>
  The byte count of a cache is the total size of its entries; with this invariant the
  eviction loop of a group terminates and keeps the group within its limit, and \<open>Get\<close> is
  transparent: it delivers what the getter would.
\<close>

section \<open>The byte count\<close>

definition total :: "(bytes \<times> byte_view) list \<Rightarrow> int" where
  "total kvs = sum_list (map entry_size kvs)"

definition gc_rep :: "gcache \<Rightarrow> (bytes \<times> byte_view) list \<Rightarrow> bool" where
  "gc_rep c kvs \<longleftrightarrow> gc_nbytes c = total kvs \<and>
     (case gc_lru c of
        None \<Rightarrow> kvs = []
      | Some l \<Rightarrow> lru_rep l kvs \<and> lru_MaxEntries l = 0 \<and> lru_OnEvicted l \<and> lru_evicted l = [])"

lemma entry_size_nonneg: "0 \<le> entry_size kv"
  by (simp add: entry_size_def bv_Len_def split: option.splits)

lemma total_simps [simp]: "total [] = 0" "total (kv # kvs) = entry_size kv + total kvs" "total (xs @ ys) = total xs + total ys"
  by (simp_all add: total_def)

lemma total_nonneg: "0 \<le> total kvs"
  by (induction kvs) (simp_all add: entry_size_nonneg)

lemma total_without:
  assumes "distinct (map fst kvs)" "map_of kvs k = Some v"
  shows "total kvs = entry_size (k, v) + total (without k kvs)"
proof -
  obtain us ws where kvs: "kvs = us @ (k, v) # ws" using map_of_SomeD [OF assms(2)] by (auto dest: split_list)
  have "without k kvs = us @ ws" using assms(1) unfolding kvs by (rule without_mid)
  with kvs show ?thesis by simp
qed

lemma total_spec_Get: "distinct (map fst kvs) \<Longrightarrow> total (snd (spec_Get k kvs)) = total kvs"
  using total_without [of kvs k] by (simp add: spec_Get_def split: option.splits)

lemma gc_rep_lru:
  "lru_rep l kvs \<Longrightarrow> lru_step l0 l evs \<Longrightarrow> lru_MaxEntries l0 = 0 \<Longrightarrow> lru_OnEvicted l0 \<Longrightarrow> lru_evicted l0 = [] \<Longrightarrow>
     lru_evicted l = evs \<and> lru_MaxEntries l = 0 \<and> lru_OnEvicted l \<and> lru_rep (l\<lparr>lru_evicted := []\<rparr>) kvs"
  by (auto simp: lru_step_def lru_rep_def lru_at_def)

lemma gc_after_0: "lru_evicted l = [] \<Longrightarrow> gc_after c l = c\<lparr>gc_lru := Some (l\<lparr>lru_evicted := []\<rparr>)\<rparr>"
  by (simp add: gc_after_def)

lemma gc_newLru_rep: "lru_rep gc_newLru []"
  by (simp add: lru_rep_def gc_newLru_def empty_heap_wf)

lemma gc_add_rep:
  assumes "gc_rep c kvs" "key \<notin> fst ` set kvs"
  shows "\<exists>c'. gc_add c key v = Some c' \<and> gc_rep c' ((key, v) # kvs)"
proof -
  let ?l = "case gc_lru c of None \<Rightarrow> gc_newLru | Some l \<Rightarrow> l"
  have l: "lru_rep ?l kvs" "lru_MaxEntries ?l = 0" "lru_OnEvicted ?l" "lru_evicted ?l = []"
    using assms(1) gc_newLru_rep by (auto simp: gc_rep_def gc_newLru_def split: option.splits)
  have s: "spec_Add 0 key v kvs = ((key, v) # kvs, [])" using assms(2) by (simp add: spec_Add_def)
  from lru_Add_rep [OF l(1), of key v] l(2) s obtain l' where
    l': "lru_Add ?l key v = Some l'" "lru_rep l' ((key, v) # kvs)" "lru_step ?l l' []" by auto
  from gc_rep_lru [OF l'(2,3) l(2-4)] have
    e: "lru_evicted l' = []" "lru_MaxEntries l' = 0" "lru_OnEvicted l'" "lru_rep (l'\<lparr>lru_evicted := []\<rparr>) ((key, v) # kvs)" by auto
  have "gc_add c key v = Some (c\<lparr>gc_lru := Some (l'\<lparr>lru_evicted := []\<rparr>), gc_nbytes := gc_nbytes c + entry_size (key, v)\<rparr>)"
    using l'(1) by (simp add: gc_add_def Let_def gc_after_0 [OF e(1)] entry_size_def)
  then show ?thesis using e assms(1) by (simp add: gc_rep_def)
qed

lemma gc_get_rep:
  assumes "gc_rep c kvs"
  shows "\<exists>c'. gc_get c key = Some (map_of kvs key, c') \<and> gc_rep c' (snd (spec_Get key kvs)) \<and> gc_nbytes c' = gc_nbytes c"
proof (cases "gc_lru c")
  case None
  with assms have "kvs = []" by (simp add: gc_rep_def)
  with None assms show ?thesis by (simp add: gc_get_def gc_rep_def spec_Get_def)
next
  case (Some l)
  with assms have l: "lru_rep l kvs" "lru_MaxEntries l = 0" "lru_OnEvicted l" "lru_evicted l = []" by (simp_all add: gc_rep_def)
  have f: "fst (spec_Get key kvs) = map_of kvs key" by (simp add: spec_Get_def split: option.splits)
  from lru_Get_rep [OF l(1), of key] f obtain l' where
    l': "lru_Get l key = Some (map_of kvs key, l')" "lru_rep l' (snd (spec_Get key kvs))" "lru_step l l' []" by auto
  from gc_rep_lru [OF l'(2,3) l(2-4)] have
    e: "lru_evicted l' = []" "lru_MaxEntries l' = 0" "lru_OnEvicted l'" "lru_rep (l'\<lparr>lru_evicted := []\<rparr>) (snd (spec_Get key kvs))" by auto
  have "total (snd (spec_Get key kvs)) = gc_nbytes c"
    using total_spec_Get [OF lru_rep_distinct [OF l(1)]] assms by (simp add: gc_rep_def)
  with Some l'(1) e show ?thesis
    by (cases "map_of kvs key") (simp_all add: gc_get_def gc_after_0 gc_rep_def)
qed

lemma gc_removeOldest_rep:
  assumes "gc_rep c kvs"
  shows "\<exists>c'. gc_removeOldest c = Some c' \<and> gc_rep c' (butlast kvs)"
proof (cases "gc_lru c")
  case None
  with assms show ?thesis by (simp add: gc_removeOldest_def gc_rep_def)
next
  case (Some l)
  with assms have l: "lru_rep l kvs" "lru_MaxEntries l = 0" "lru_OnEvicted l" "lru_evicted l = []" by (simp_all add: gc_rep_def)
  from lru_RemoveOldest_rep [OF l(1)] obtain l' where
    l': "lru_RemoveOldest l = Some l'" "lru_rep l' (fst (spec_RemoveOldest kvs))" "lru_step l l' (snd (spec_RemoveOldest kvs))" by blast
  have f: "fst (spec_RemoveOldest kvs) = butlast kvs" by (simp add: spec_RemoveOldest_def)
  from gc_rep_lru [OF l'(2,3) l(2-4)] f have
    e: "lru_evicted l' = snd (spec_RemoveOldest kvs)" "lru_MaxEntries l' = 0" "lru_OnEvicted l'"
       "lru_rep (l'\<lparr>lru_evicted := []\<rparr>) (butlast kvs)" by auto
  have t: "total kvs = total (butlast kvs) + total (snd (spec_RemoveOldest kvs))"
    by (cases kvs rule: rev_cases) (simp_all add: spec_RemoveOldest_def)
  have "gc_nbytes (fold gc_onEvicted xs c) = gc_nbytes c - total xs" for xs
    by (induction xs arbitrary: c) (simp_all add: gc_onEvicted_def)
  with Some l'(1) e t assms show ?thesis by (simp add: gc_removeOldest_def gc_after_def gc_rep_def)
qed

section \<open>The eviction loop\<close>

definition g_rep :: "'e group \<Rightarrow> (bytes \<times> byte_view) list \<Rightarrow> (bytes \<times> byte_view) list \<Rightarrow> bool" where
  "g_rep g ms hs \<longleftrightarrow> gc_rep (g_mainCache g) ms \<and> gc_rep (g_hotCache g) hs"

definition same_group :: "'e group \<Rightarrow> 'e group \<Rightarrow> bool" where
  "same_group g g' \<longleftrightarrow> g_name g' = g_name g \<and> g_cacheBytes g' = g_cacheBytes g \<and> g_peers g' = g_peers g \<and>
     g_peersOnce g' = g_peersOnce g"

lemma same_group_trans: "same_group g g' \<Longrightarrow> same_group g' g'' \<Longrightarrow> same_group g g''"
  by (simp add: same_group_def)

lemma evict_step:
  assumes "g_rep g ms hs" "g_cacheBytes g < total ms + total hs" "0 < g_cacheBytes g"
  shows "\<exists>g' ms' hs'. evictLoop g = evictLoop g' \<and> g_rep g' ms' hs' \<and> same_group g g' \<and>
    (ms' = butlast ms \<and> hs' = hs \<or> ms' = ms \<and> hs' = butlast hs) \<and> length ms' + length hs' < length ms + length hs"
proof -
  have b: "gc_bytes (g_mainCache g) = total ms" "gc_bytes (g_hotCache g) = total hs"
    using assms(1) by (simp_all add: g_rep_def gc_rep_def gc_bytes_def)
  have q: "go_div (total ms) 8 = Some (total ms div 8)" using total_nonneg [of ms] by (simp add: go_div_nonneg)
  show ?thesis
  proof (cases "total hs > total ms div 8")
    case True
    then have "hs \<noteq> []" using total_nonneg [of ms] by (auto simp: not_less)
    from gc_removeOldest_rep [of "g_hotCache g" hs] assms(1) obtain c where
      c: "gc_removeOldest (g_hotCache g) = Some c" "gc_rep c (butlast hs)" by (auto simp: g_rep_def)
    have "evictLoop g = evictLoop (g\<lparr>g_hotCache := c\<rparr>)"
      using b q c(1) True assms(2) by (subst evictLoop.simps) (simp add: Let_def)
    then show ?thesis using c(2) assms(1) \<open>hs \<noteq> []\<close>
      by (intro exI [of _ "g\<lparr>g_hotCache := c\<rparr>"] exI [of _ ms] exI [of _ "butlast hs"]) (simp add: g_rep_def same_group_def)
  next
    case False
    have "ms \<noteq> []" using False assms(2,3) total_nonneg [of hs] by auto
    from gc_removeOldest_rep [of "g_mainCache g" ms] assms(1) obtain c where
      c: "gc_removeOldest (g_mainCache g) = Some c" "gc_rep c (butlast ms)" by (auto simp: g_rep_def)
    have "evictLoop g = evictLoop (g\<lparr>g_mainCache := c\<rparr>)"
      using b q c(1) False assms(2) by (subst evictLoop.simps) (simp add: Let_def)
    then show ?thesis using c(2) assms(1) \<open>ms \<noteq> []\<close>
      by (intro exI [of _ "g\<lparr>g_mainCache := c\<rparr>"] exI [of _ "butlast ms"] exI [of _ hs]) (simp add: g_rep_def same_group_def)
  qed
qed

text \<open>What is left are the most recently used entries of each cache.\<close>

lemma evictLoop_ok:
  assumes "g_rep g ms hs" "0 < g_cacheBytes g"
  shows "\<exists>g' m h. evictLoop g = Some g' \<and> g_rep g' (take m ms) (take h hs) \<and> same_group g g' \<and>
    total (take m ms) + total (take h hs) \<le> g_cacheBytes g"
  using assms
proof (induction "length ms + length hs" arbitrary: g ms hs rule: less_induct)
  case less
  show ?case
  proof (cases "total ms + total hs \<le> g_cacheBytes g")
    case True
    then have "evictLoop g = Some g"
      using less.prems(1) by (subst evictLoop.simps) (simp add: g_rep_def gc_rep_def gc_bytes_def)
    with True less.prems(1) show ?thesis
      by (intro exI [of _ g] exI [of _ "length ms"] exI [of _ "length hs"]) (simp add: same_group_def)
  next
    case False
    then obtain g1 ms1 hs1 where
      g1: "evictLoop g = evictLoop g1" "g_rep g1 ms1 hs1" "same_group g g1"
        "ms1 = butlast ms \<and> hs1 = hs \<or> ms1 = ms \<and> hs1 = butlast hs" "length ms1 + length hs1 < length ms + length hs"
      using evict_step [OF less.prems(1) _ less.prems(2)] by auto
    have cb: "g_cacheBytes g1 = g_cacheBytes g" using g1(3) by (simp add: same_group_def)
    from less.hyps [OF g1(5,2)] cb less.prems(2) obtain g' m h where
      g': "evictLoop g1 = Some g'" "g_rep g' (take m ms1) (take h hs1)" "same_group g1 g'"
        "total (take m ms1) + total (take h hs1) \<le> g_cacheBytes g" by auto
    have "\<exists>m' h'. take m ms1 = take m' ms \<and> take h hs1 = take h' hs"
      using g1(4) by (metis butlast_conv_take take_take)
    then obtain m' h' where "take m ms1 = take m' ms" "take h hs1 = take h' hs" by blast
    with g1(1,3) g' show ?thesis using same_group_trans by (metis (no_types, lifting))
  qed
qed

lemma populateCache_ok:
  assumes "g_rep g ms hs" "0 < g_cacheBytes g"
    "case which of MainCache \<Rightarrow> key \<notin> fst ` set ms | HotCache \<Rightarrow> key \<notin> fst ` set hs"
  shows "\<exists>g' m h. populateCache g key v which = Some g' \<and> same_group g g' \<and>
    (case which of
       MainCache \<Rightarrow> g_rep g' (take m ((key, v) # ms)) (take h hs)
     | HotCache \<Rightarrow> g_rep g' (take m ms) (take h ((key, v) # hs))) \<and>
    gc_bytes (g_mainCache g') + gc_bytes (g_hotCache g') \<le> g_cacheBytes g"
proof (cases which)
  case MainCache
  from gc_add_rep [of "g_mainCache g" ms key v] assms(1,3) MainCache obtain c where
    c: "gc_add (g_mainCache g) key v = Some c" "gc_rep c ((key, v) # ms)" by (auto simp: g_rep_def)
  have "g_rep (g\<lparr>g_mainCache := c\<rparr>) ((key, v) # ms) hs" using c(2) assms(1) by (simp add: g_rep_def)
  from evictLoop_ok [OF this] assms(2) MainCache c(1) show ?thesis
    by (fastforce simp: populateCache_def same_group_def g_rep_def gc_rep_def gc_bytes_def)
next
  case HotCache
  from gc_add_rep [of "g_hotCache g" hs key v] assms(1,3) HotCache obtain c where
    c: "gc_add (g_hotCache g) key v = Some c" "gc_rep c ((key, v) # hs)" by (auto simp: g_rep_def)
  have "g_rep (g\<lparr>g_hotCache := c\<rparr>) ms ((key, v) # hs)" using c(2) assms(1) by (simp add: g_rep_def)
  from evictLoop_ok [OF this] assms(2) HotCache c(1) show ?thesis
    by (fastforce simp: populateCache_def same_group_def g_rep_def gc_rep_def gc_bytes_def)
qed

section \<open>Transparency of Get\<close>

definition faithful :: "(bytes \<Rightarrow> bytes) \<Rightarrow> (bytes \<times> byte_view) list \<Rightarrow> bool" where
  "faithful f kvs \<longleftrightarrow> (\<forall>(k, v) \<in> set kvs. bv_String v = f k)"

text \<open>The invariant of a group whose keys stand for the values \<open>f\<close>.\<close>

definition g_ok :: "(bytes \<Rightarrow> bytes) \<Rightarrow> 'e group \<Rightarrow> bool" where
  "g_ok f g \<longleftrightarrow> (\<exists>ms hs. g_rep g ms hs \<and> faithful f (ms @ hs)) \<and> (g_peersOnce g \<longrightarrow> g_peers g \<noteq> None) \<and>
     (0 < g_cacheBytes g \<longrightarrow> gc_bytes (g_mainCache g) + gc_bytes (g_hotCache g) \<le> g_cacheBytes g)"

definition getter_ok ::
  "(bytes \<Rightarrow> 'm \<Rightarrow> 's option \<times> 'm) \<Rightarrow> (bytes \<Rightarrow> 'm sink \<Rightarrow> 'e option \<times> 'm sink) \<Rightarrow> (bytes \<Rightarrow> bytes) \<Rightarrow> bool" where
  "getter_ok unmarshal getter f \<longleftrightarrow> (\<forall>k s s'. has_dst s \<longrightarrow> getter k s = (None, s') \<longrightarrow>
     bv_String (sink_view s') = f k \<and> delivered unmarshal s (f k) s')"

definition peers_ok :: "'e picker \<Rightarrow> (bytes \<Rightarrow> bytes) \<Rightarrow> bool" where
  "peers_ok pk f \<longleftrightarrow> (\<forall>k p n b. pk k = Some p \<longrightarrow> p n k = Inr b \<longrightarrow> (case b of None \<Rightarrow> [] | Some b \<Rightarrow> gb_data b) = f k)"

definition g_picker :: "(bytes \<Rightarrow> 'e picker option) option \<Rightarrow> 'e group \<Rightarrow> 'e picker" where
  "g_picker portPicker g = (case g_peers g of Some pk \<Rightarrow> pk | None \<Rightarrow> getPeers portPicker (g_name g))"

text \<open>The outcome of \<open>Get\<close>: the value is delivered, or the getter failed, or the value is not an
  encoding of the message the sink expects.\<close>

definition served ::
  "(bytes \<Rightarrow> 'm \<Rightarrow> 's option \<times> 'm) \<Rightarrow> (bytes \<Rightarrow> 'm sink \<Rightarrow> 'e option \<times> 'm sink) \<Rightarrow> bytes \<Rightarrow> bytes \<Rightarrow> 'm sink \<Rightarrow>
     ('e, 's) group_error option \<Rightarrow> 'm sink \<Rightarrow> bool" where
  "served unmarshal getter key x d err d' \<longleftrightarrow>
     (case err of
        None \<Rightarrow> bv_String (sink_view d') = x \<and> delivered unmarshal d x d'
      | Some NilDestSink \<Rightarrow> False
      | Some (LoadError e) \<Rightarrow> fst (getter key d) = Some e
      | Some (SinkError e) \<Rightarrow> (\<exists>m v pe m'. d = ProtoSink m v \<and> e = ProtoError pe \<and> unmarshal x m = (Some pe, m')))"

lemma set_served:
  assumes "has_dst d" "bv_String v = x"
  shows "\<exists>e d'. setSinkView spare unmarshal d v = Some (e, d') \<and> served unmarshal getter key x d (map_option SinkError e) d'"
proof -
  from setSinkView_ok [OF assms(1), of unmarshal v spare] obtain e d' where
    "setSinkView spare unmarshal d v = Some (e, d')"
    "case e of None \<Rightarrow> bv_String (sink_view d') = bv_String v \<and> delivered unmarshal d (bv_String v) d'
     | Some e \<Rightarrow> (\<exists>m w pe m'. d = ProtoSink m w \<and> e = ProtoError pe \<and> unmarshal (bv_String v) m = (Some pe, m'))"
    by (auto simp: accepts_def)
  with assms(2) show ?thesis by (cases e) (auto simp: served_def)
qed

lemma set_spec_Get: "distinct (map fst kvs) \<Longrightarrow> set (snd (spec_Get k kvs)) = set kvs"
proof (cases "map_of kvs k")
  case (Some v)
  assume d: "distinct (map fst kvs)"
  obtain us ws where kvs: "kvs = us @ (k, v) # ws" using map_of_SomeD [OF Some] by (auto dest: split_list)
  have "without k kvs = us @ ws" using d unfolding kvs by (rule without_mid)
  with Some kvs show ?thesis by (auto simp: spec_Get_def)
qed (simp add: spec_Get_def)

lemma gc_rep_distinct: "gc_rep c kvs \<Longrightarrow> distinct (map fst kvs)"
  by (auto simp: gc_rep_def lru_rep_distinct split: option.splits)

lemma lookupCache_ok:
  assumes "g_rep g ms hs" "0 < g_cacheBytes g"
  shows "\<exists>g' ms' hs'. lookupCache g key = Some (case map_of ms key of Some v \<Rightarrow> Some v | None \<Rightarrow> map_of hs key, g') \<and>
    g_rep g' ms' hs' \<and> set ms' = set ms \<and> set hs' = set hs \<and> same_group g g' \<and>
    gc_bytes (g_mainCache g') = gc_bytes (g_mainCache g) \<and> gc_bytes (g_hotCache g') = gc_bytes (g_hotCache g)"
proof -
  have r: "gc_rep (g_mainCache g) ms" "gc_rep (g_hotCache g) hs" using assms(1) by (simp_all add: g_rep_def)
  from gc_get_rep [OF r(1), of key] obtain c where
    c: "gc_get (g_mainCache g) key = Some (map_of ms key, c)" "gc_rep c (snd (spec_Get key ms))" "gc_nbytes c = gc_nbytes (g_mainCache g)" by blast
  from gc_get_rep [OF r(2), of key] obtain d where
    d: "gc_get (g_hotCache g) key = Some (map_of hs key, d)" "gc_rep d (snd (spec_Get key hs))" "gc_nbytes d = gc_nbytes (g_hotCache g)" by blast
  have s: "set (snd (spec_Get key ms)) = set ms" "set (snd (spec_Get key hs)) = set hs"
    using set_spec_Get [OF gc_rep_distinct [OF r(1)]] set_spec_Get [OF gc_rep_distinct [OF r(2)]] by simp_all
  show ?thesis
  proof (cases "map_of ms key")
    case None
    then have "lookupCache g key = Some (map_of hs key, g\<lparr>g_mainCache := c, g_hotCache := d\<rparr>)"
      using c(1) d(1) assms(2) by (simp add: lookupCache_def)
    then show ?thesis using None c d s
      by (intro exI [of _ "g\<lparr>g_mainCache := c, g_hotCache := d\<rparr>"] exI [of _ "snd (spec_Get key ms)"] exI [of _ "snd (spec_Get key hs)"])
        (simp add: g_rep_def same_group_def gc_bytes_def)
  next
    case (Some v)
    then have "lookupCache g key = Some (Some v, g\<lparr>g_mainCache := c\<rparr>)" using c(1) assms(2) by (simp add: lookupCache_def)
    then show ?thesis using Some c s r
      by (intro exI [of _ "g\<lparr>g_mainCache := c\<rparr>"] exI [of _ "snd (spec_Get key ms)"] exI [of _ hs])
        (simp add: g_rep_def same_group_def gc_bytes_def)
  qed
qed

text \<open>The key is in neither cache.\<close>

definition absent :: "(bytes \<Rightarrow> bytes) \<Rightarrow> 'e group \<Rightarrow> bytes \<Rightarrow> bool" where
  "absent f g key \<longleftrightarrow> (0 < g_cacheBytes g \<longrightarrow> (\<exists>ms hs. g_rep g ms hs \<and> faithful f (ms @ hs) \<and> key \<notin> fst ` set (ms @ hs)))"

lemma same_group_refl [simp]: "same_group g g"
  by (simp add: same_group_def)

text \<open>A lookup keeps the invariant, and returns the value or says that the key is nowhere.\<close>

lemma lookup_g_ok:
  assumes "g_ok f g"
  shows "\<exists>r g'. lookupCache g key = Some (r, g') \<and> g_ok f g' \<and> same_group g g' \<and>
    (case r of Some v \<Rightarrow> bv_String v = f key | None \<Rightarrow> absent f g' key)"
proof (cases "0 < g_cacheBytes g")
  case False
  then show ?thesis using assms by (simp add: lookupCache_def absent_def)
next
  case True
  from assms obtain ms hs where mh: "g_rep g ms hs" "faithful f (ms @ hs)" by (auto simp: g_ok_def)
  from lookupCache_ok [OF mh(1) True, of key] obtain g' ms' hs' where
    g': "lookupCache g key = Some (case map_of ms key of Some v \<Rightarrow> Some v | None \<Rightarrow> map_of hs key, g')" "g_rep g' ms' hs'"
      "set ms' = set ms" "set hs' = set hs" "same_group g g'"
      "gc_bytes (g_mainCache g') = gc_bytes (g_mainCache g)" "gc_bytes (g_hotCache g') = gc_bytes (g_hotCache g)" by blast
  have f': "faithful f (ms' @ hs')" using mh(2) g'(3,4) by (simp add: faithful_def)
  have "g_ok f g'" using assms g' f' by (auto simp: g_ok_def same_group_def)
  moreover have "bv_String v = f key" if "map_of ms key = Some v \<or> map_of hs key = Some v" for v
    using that mh(2) by (auto simp: faithful_def dest!: map_of_SomeD)
  moreover have "key \<notin> fst ` set (ms' @ hs')" if "map_of ms key = None" "map_of hs key = None"
    using that g'(3,4) by (auto simp: map_of_eq_None_iff)
  ultimately show ?thesis using g'(1,2,5) f'
    by (cases "map_of ms key"; cases "map_of hs key") (auto simp: absent_def)
qed

lemma populate_g_ok:
  assumes "g_ok f g" "0 < g_cacheBytes g \<Longrightarrow> \<exists>ms hs. g_rep g ms hs \<and> faithful f (ms @ hs) \<and> key \<notin> fst ` set (ms @ hs)"
    "bv_String v = f key"
  shows "\<exists>g'. populateCache g key v which = Some g' \<and> g_ok f g' \<and> same_group g g'"
proof (cases "0 < g_cacheBytes g")
  case False
  then show ?thesis using assms(1) by (simp add: populateCache_def same_group_def)
next
  case True
  from assms(2) [OF True] obtain ms hs where mh: "g_rep g ms hs" "faithful f (ms @ hs)" "key \<notin> fst ` set (ms @ hs)" by blast
  have "case which of MainCache \<Rightarrow> key \<notin> fst ` set ms | HotCache \<Rightarrow> key \<notin> fst ` set hs"
    using mh(3) by (cases which) auto
  from populateCache_ok [OF mh(1) True this, of v] obtain g' m h where
    g': "populateCache g key v which = Some g'" "same_group g g'"
      "case which of MainCache \<Rightarrow> g_rep g' (take m ((key, v) # ms)) (take h hs)
       | HotCache \<Rightarrow> g_rep g' (take m ms) (take h ((key, v) # hs))"
      "gc_bytes (g_mainCache g') + gc_bytes (g_hotCache g') \<le> g_cacheBytes g" by blast
  have "faithful f (take m xs)" if "faithful f xs" for m xs
    using that in_set_takeD by (fastforce simp: faithful_def)
  moreover have "faithful f ms" "faithful f hs" "faithful f ((key, v) # ms)" "faithful f ((key, v) # hs)"
    using mh(2) assms(3) by (auto simp: faithful_def)
  moreover have "faithful f (xs @ ys) \<longleftrightarrow> faithful f xs \<and> faithful f ys" for xs ys
    by (auto simp: faithful_def)
  ultimately have "\<exists>xs ys. g_rep g' xs ys \<and> faithful f (xs @ ys)" using g'(3) by (cases which) auto
  then have "g_ok f g'" using assms(1) g'(2,4) by (simp add: g_ok_def same_group_def)
  with g' show ?thesis by blast
qed

lemma g_count_ok [simp]:
  "g_ok f (g_count u g) = g_ok f g" "g_rep (g_count u g) ms hs = g_rep g ms hs" "same_group g0 (g_count u g) = same_group g0 g"
  "same_group (g_count u g) g0 = same_group g g0" "g_cacheBytes (g_count u g) = g_cacheBytes g" "g_peers (g_count u g) = g_peers g"
  "g_name (g_count u g) = g_name g"
  by (simp_all add: g_count_def g_ok_def g_rep_def same_group_def)

lemma absent_count [simp]: "absent f (g_count u g) key = absent f g key"
  by (simp add: absent_def)

lemma load_local_ok:
  assumes "g_ok f g" "absent f g key" "getter_ok unmarshal getter f" "has_dst d"
  shows "\<exists>r p d' g'. load_local getter g key d = Some (r, p, d', g') \<and> g_ok f g' \<and> same_group g g' \<and>
    (case r of Inl e \<Rightarrow> fst (getter key d) = Some e
     | Inr v \<Rightarrow> p \<and> bv_String (sink_view d') = f key \<and> delivered unmarshal d (f key) d')"
proof -
  obtain e d' where gd: "getter key d = (e, d')" by (cases "getter key d")
  show ?thesis
  proof (cases e)
    case (Some e)
    then show ?thesis using gd assms(1) by (auto simp: load_local_def getLocally_def)
  next
    case None
    then have ok: "bv_String (sink_view d') = f key" "delivered unmarshal d (f key) d'"
      using assms(3,4) gd by (auto simp: getter_ok_def)
    let ?g = "g_count (\<lambda>s. s\<lparr>st_LocalLoads := st_LocalLoads s + 1\<rparr>) g"
    have "\<exists>g'. populateCache ?g key (sink_view d') MainCache = Some g' \<and> g_ok f g' \<and> same_group ?g g'"
      using assms(1,2) ok(1) by (intro populate_g_ok) (auto simp: absent_def)
    then show ?thesis using gd None ok by (auto simp: load_local_def getLocally_def)
  qed
qed

lemma getFromPeer_ok:
  assumes "g_ok f g" "absent f g key" "peers_ok pk f" "pk key = Some peer"
  shows "\<exists>r g'. getFromPeer hot g peer key = Some (r, g') \<and> g_ok f g' \<and> same_group g g' \<and>
    (case r of Inl e \<Rightarrow> g' = g | Inr v \<Rightarrow> bv_String v = f key)"
proof (cases "peer (g_name g) key")
  case (Inl e)
  then show ?thesis using assms(1) by (simp add: getFromPeer_def)
next
  case (Inr b)
  have "(case b of None \<Rightarrow> [] | Some b \<Rightarrow> gb_data b) = f key"
    using assms(3) [unfolded peers_ok_def, rule_format, OF assms(4) Inr] .
  then have v: "bv_String \<lparr>bv_b = b, bv_s = []\<rparr> = f key" by (cases b) (simp_all add: bv_String_def)
  have "\<exists>g'. populateCache g key \<lparr>bv_b = b, bv_s = []\<rparr> HotCache = Some g' \<and> g_ok f g' \<and> same_group g g'"
    using assms(1,2) v by (intro populate_g_ok) (auto simp: absent_def)
  with Inr v assms(1) show ?thesis by (cases hot) (auto simp: getFromPeer_def Let_def)
qed

lemma group_load_ok:
  assumes "g_ok f g" "getter_ok unmarshal getter f" "has_dst d" "g_peers g = Some pk" "peers_ok pk f"
  shows "\<exists>r p d' g'. group_load getter hot g key d = Some (r, p, d', g') \<and> g_ok f g' \<and>
    (case r of Inl e \<Rightarrow> fst (getter key d) = Some e
     | Inr v \<Rightarrow> if p then bv_String (sink_view d') = f key \<and> delivered unmarshal d (f key) d' else d' = d \<and> bv_String v = f key)"
proof -
  let ?g = "g_count (\<lambda>s. s\<lparr>st_Loads := st_Loads s + 1\<rparr>) g"
  from lookup_g_ok [of f ?g key] assms(1) obtain r g1 where
    g1: "lookupCache ?g key = Some (r, g1)" "g_ok f g1" "same_group g g1"
      "case r of Some v \<Rightarrow> bv_String v = f key | None \<Rightarrow> absent f g1 key" by auto
  have pk: "g_peers g1 = Some pk" using g1(3) assms(4) by (simp add: same_group_def)
  show ?thesis
  proof (cases r)
    case (Some v)
    then show ?thesis using g1 by (auto simp: group_load_def)
  next
    case None
    then have ab: "absent f g1 key" using g1(4) by simp
    let ?g1 = "g_count (\<lambda>s. s\<lparr>st_LoadsDeduped := st_LoadsDeduped s + 1\<rparr>) g1"
    show ?thesis
    proof (cases "pk key")
      case None
      with load_local_ok [of f ?g1 key unmarshal getter d] g1 ab pk assms(2,3) \<open>r = None\<close> show ?thesis
        by (fastforce simp: group_load_def split: sum.splits)
    next
      case (Some peer)
      from getFromPeer_ok [of f ?g1 key pk peer hot] g1(2) ab assms(5) Some obtain r2 g2 where
        g2: "getFromPeer hot ?g1 peer key = Some (r2, g2)" "g_ok f g2"
          "case r2 of Inl e \<Rightarrow> g2 = ?g1 | Inr v \<Rightarrow> bv_String v = f key" by auto
      show ?thesis
      proof (cases r2)
        case (Inl e)
        then have "absent f g2 key" using g2(3) ab by simp
        with load_local_ok [of f "g_count (\<lambda>s. s\<lparr>st_PeerErrors := st_PeerErrors s + 1\<rparr>) g2" key unmarshal getter d]
          g2 Inl g1 pk Some assms(2,3) \<open>r = None\<close> show ?thesis
          by (fastforce simp: group_load_def split: sum.splits)
      next
        case (Inr v)
        then show ?thesis using g2 g1 pk Some \<open>r = None\<close> by (auto simp: group_load_def)
      qed
    qed
  qed
qed

lemma init_peers_ok:
  fixes portPicker :: "(bytes \<Rightarrow> 'e picker option) option" and g :: "'e group"
  assumes "g_ok f g"
  defines "g1 \<equiv> if g_peersOnce g then g else (initPeers portPicker g)\<lparr>g_peersOnce := True\<rparr>"
  shows "g_ok f g1" "g_peers g1 = Some (g_picker portPicker g)"
  using assms(1) unfolding g1_def
  by (auto simp: g_ok_def g_rep_def initPeers_def g_picker_def split: option.splits)

section \<open>Properties\<close>

text \<open>
  C30. \<open>populateCache\<close> terminates: for a key that is not in the cache it adds the entry and then
  evicts least recently used entries of the two caches until their total size is within the
  limit of the group; what stays are the most recently used entries of each cache, and the
  byte counts stay the exact sizes of the entries.
\<close>

theorem populateCache_within_limit:
  assumes "g_rep g ms hs" "0 < g_cacheBytes g" "key \<notin> fst ` set (ms @ hs)"
  shows "\<exists>g' m h. populateCache g key v MainCache = Some g' \<and> g_rep g' (take m ((key, v) # ms)) (take h hs) \<and>
    gc_bytes (g_mainCache g') + gc_bytes (g_hotCache g') \<le> g_cacheBytes g \<and>
    gc_bytes (g_mainCache g') = total (take m ((key, v) # ms)) \<and> gc_bytes (g_hotCache g') = total (take h hs)"
  using populateCache_ok [OF assms(1,2), where which = MainCache and key = key and v = v] assms(3)
  by (fastforce simp: g_rep_def gc_rep_def gc_bytes_def)

definition sample_group :: "nat group" where
  "sample_group = \<lparr>g_name = [], g_peersOnce = False, g_peers = None, g_cacheBytes = 4, g_mainCache = zero_cache,
     g_hotCache = zero_cache, g_Stats = zero_stats\<rparr>"

lemma sample_group_rep: "g_rep sample_group [] []"
  by (simp add: sample_group_def g_rep_def gc_rep_def zero_cache_def)

theorem populateCache_within_limit_witness:
  "\<exists>g'. populateCache sample_group [1] \<lparr>bv_b = None, bv_s = [2, 3]\<rparr> MainCache = Some g' \<and>
     gc_bytes (g_mainCache g') + gc_bytes (g_hotCache g') \<le> 4"
  using populateCache_within_limit [OF sample_group_rep, of "[1]" "\<lparr>bv_b = None, bv_s = [2, 3]\<rparr>"]
  by (auto simp: sample_group_def)

text \<open>
  C31. \<open>Get\<close> is transparent: if the getter and the peers return the value \<open>f key\<close> of a key, as
  \<open>Getter\<close> requires of unversioned data, and the destination of the sink is not nil, then whatever is cached, evicted or loaded from a
  peer, \<open>Get\<close> does not panic and delivers exactly \<open>f key\<close> to the destination; the only other
  outcomes are the getter's own error and a value the sink cannot decode. The group keeps
  its byte limit.
\<close>

theorem group_get_transparent:
  assumes "g_ok f g" "has_dst d" "getter_ok unmarshal getter f" "peers_ok (g_picker portPicker g) f"
  shows "\<exists>err d' g'. group_Get spare unmarshal getter portPicker hot g key (Some d) = Some (err, Some d', g') \<and> g_ok f g' \<and>
    served unmarshal getter key (f key) d err d'"
proof -
  let ?g0 = "if g_peersOnce g then g else (initPeers portPicker g)\<lparr>g_peersOnce := True\<rparr>"
  let ?g = "g_count (\<lambda>s. s\<lparr>st_Gets := st_Gets s + 1\<rparr>) ?g0"
  note i = init_peers_ok [OF assms(1), of portPicker]
  from lookup_g_ok [of f ?g key] i(1) obtain r g1 where
    g1: "lookupCache ?g key = Some (r, g1)" "g_ok f g1" "same_group ?g g1" "\<forall>v. r = Some v \<longrightarrow> bv_String v = f key"
    by (auto simp del: g_count_ok(3,4) split: option.splits)
  have pk: "g_peers g1 = Some (g_picker portPicker g)" using g1(3) i(2) by (simp add: same_group_def)
  show ?thesis
  proof (cases r)
    case (Some v)
    with set_served [OF assms(2), of v "f key" spare unmarshal getter key] g1 show ?thesis
      by (auto simp: group_Get_def Let_def)
  next
    case None
    from group_load_ok [OF g1(2) assms(3,2) pk assms(4), of hot key] obtain r2 p d2 g2 where
      g2: "group_load getter hot g1 key d = Some (r2, p, d2, g2)" "g_ok f g2"
        "case r2 of Inl e \<Rightarrow> fst (getter key d) = Some e
         | Inr v \<Rightarrow> if p then bv_String (sink_view d2) = f key \<and> delivered unmarshal d (f key) d2 else d2 = d \<and> bv_String v = f key"
      by blast
    show ?thesis
    proof (cases r2)
      case (Inl e)
      then show ?thesis using g1(1) None g2 by (auto simp: group_Get_def Let_def served_def)
    next
      case (Inr v)
      show ?thesis
      proof (cases p)
        case True
        then show ?thesis using g1(1) None g2 Inr by (auto simp: group_Get_def Let_def served_def)
      next
        case False
        with set_served [OF assms(2), of v "f key" spare unmarshal getter key] g1(1) None g2 Inr show ?thesis
          by (auto simp: group_Get_def Let_def)
      qed
    qed
  qed
qed

text \<open>A getter that stores the key followed by 7.\<close>

definition sample_getter :: "bytes \<Rightarrow> nat sink \<Rightarrow> nat option \<times> nat sink" where
  "sample_getter k s =
     (case sink_SetString 0 (\<lambda>b m. (None :: nat option, length b)) s (k @ [7]) of
        Some (None, s') \<Rightarrow> (None, s') | _ \<Rightarrow> (Some 0, s))"

lemma sample_getter_ok: "getter_ok (\<lambda>b m. (None :: nat option, length b)) sample_getter (\<lambda>k. k @ [7])"
  unfolding getter_ok_def
proof (intro allI impI)
  fix k and s s' :: "nat sink"
  let ?u = "\<lambda>b m. (None :: nat option, length b)"
  assume a: "has_dst s" "sample_getter k s = (None, s')"
  from sink_set_ok(1) [OF a(1), of ?u "k @ [7]" 0] obtain e s2 where
    "sink_SetString 0 ?u s (k @ [7]) = Some (e, s2)"
    "case e of None \<Rightarrow> bv_String (sink_view s2) = k @ [7] \<and> delivered ?u s (k @ [7]) s2 | Some e \<Rightarrow> False"
    by (auto simp: accepts_def split: option.splits)
  with a(2) show "bv_String (sink_view s') = k @ [7] \<and> delivered ?u s (k @ [7]) s'"
    by (auto simp: sample_getter_def split: option.splits)
qed

theorem group_get_transparent_witness:
  "\<exists>err d' g'. group_Get 0 (\<lambda>b m. (None :: nat option, length b)) sample_getter None True sample_group [1]
       (Some (StringSink (Some []) \<lparr>bv_b = None, bv_s = []\<rparr>)) = Some (err, Some d', g') \<and>
     served (\<lambda>b m. (None, length b)) sample_getter [1] [1, 7] (StringSink (Some []) \<lparr>bv_b = None, bv_s = []\<rparr>) err d'"
proof -
  have "g_ok (\<lambda>k. k @ [7]) sample_group"
    unfolding g_ok_def using sample_group_rep
    by (auto simp: sample_group_def faithful_def gc_bytes_def zero_cache_def intro!: exI [of _ "[]"])
  moreover have "peers_ok (g_picker None sample_group) (\<lambda>k. k @ [7])"
    by (simp add: peers_ok_def g_picker_def sample_group_def getPeers_def NoPeers_def)
  ultimately show ?thesis
    using group_get_transparent [OF _ _ sample_getter_ok, of sample_group "StringSink (Some []) \<lparr>bv_b = None, bv_s = []\<rparr>" None 0 True "[1]"]
    by auto
qed

end
