(* ===== verification/Consistent_Hash.thy ===== *)
theory Consistent_Hash
  imports Go_Prelude
begin

text \<open>
  \<open>groupcache/consistenthash/consistenthash.go\<close> with the binary search of the library
  (\<open>go1.13-src/sort/search.go\<close>). The hash function is a field of the map, a parameter; a Go string
  is a list of bytes. \<open>sort.Ints\<close> is \<open>sort\<close>, \<open>strconv.Itoa\<close> is \<open>itoa\<close>.
\<close>

section \<open>Library routines\<close>

text \<open>The loop of \<open>sort.Search\<close>; a predicate may panic.\<close>

function search_loop :: "(int \<Rightarrow> bool option) \<Rightarrow> int \<Rightarrow> int \<Rightarrow> int option" where
  "search_loop f i j =
     (if i < j then do {
        let h = (i + j) div 2;
        b \<leftarrow> f h;
        if \<not> b then search_loop f (h + 1) j else search_loop f i h
      } else Some i)"
  by pat_completeness auto
termination by (relation "measure (\<lambda>(f, i, j). nat (j - i))") auto

declare search_loop.simps [simp del]

definition sort_Search :: "int \<Rightarrow> (int \<Rightarrow> bool option) \<Rightarrow> int option" where
  "sort_Search n f = search_loop f 0 n"

fun itoa :: "nat \<Rightarrow> bytes" where
  "itoa n = (if n < 10 then [of_nat (48 + n)] else itoa (n div 10) @ [of_nat (48 + n mod 10)])"

declare itoa.simps [simp del]

section \<open>The map\<close>

record hash_map =
  ch_hash :: "bytes \<Rightarrow> u32"
  ch_replicas :: int
  ch_keys :: "int list"
  ch_hashMap :: "int \<Rightarrow> bytes option"

text \<open>\<open>New\<close>; without a function it uses \<open>crc32.ChecksumIEEE\<close>, here the argument \<open>crc32\<close>.\<close>

definition ch_New :: "(bytes \<Rightarrow> u32) \<Rightarrow> int \<Rightarrow> (bytes \<Rightarrow> u32) option \<Rightarrow> hash_map" where
  "ch_New crc32 replicas fn =
     \<lparr>ch_hash = (case fn of None \<Rightarrow> crc32 | Some f \<Rightarrow> f), ch_replicas = replicas, ch_keys = [], ch_hashMap = Map.empty\<rparr>"

definition ch_IsEmpty :: "hash_map \<Rightarrow> bool" where
  "ch_IsEmpty m \<longleftrightarrow> length (ch_keys m) = 0"

text \<open>The point of replica \<open>i\<close> of a key, the loop over the replicas and the loop over the keys.\<close>

definition ch_point :: "hash_map \<Rightarrow> bytes \<Rightarrow> nat \<Rightarrow> int" where
  "ch_point m key i = uint (ch_hash m (itoa i @ key))"

fun ch_Add_replicas :: "hash_map \<Rightarrow> bytes \<Rightarrow> nat list \<Rightarrow> hash_map" where
  "ch_Add_replicas m key [] = m"
| "ch_Add_replicas m key (i # js) =
     (let h = ch_point m key i
      in ch_Add_replicas (m\<lparr>ch_keys := ch_keys m @ [h], ch_hashMap := (ch_hashMap m)(h \<mapsto> key)\<rparr>) key js)"

fun ch_Add_keys :: "hash_map \<Rightarrow> bytes list \<Rightarrow> hash_map" where
  "ch_Add_keys m [] = m"
| "ch_Add_keys m (key # keys) = ch_Add_keys (ch_Add_replicas m key [0..<nat (ch_replicas m)]) keys"

definition ch_Add :: "hash_map \<Rightarrow> bytes list \<Rightarrow> hash_map" where
  "ch_Add m keys = (let m = ch_Add_keys m keys in m\<lparr>ch_keys := sort (ch_keys m)\<rparr>)"

definition ch_Get :: "hash_map \<Rightarrow> bytes \<Rightarrow> bytes option" where
  "ch_Get m key =
     (if ch_IsEmpty m then Some []
      else do {
        let h = uint (ch_hash m key);
        idx \<leftarrow> sort_Search (int (length (ch_keys m))) (\<lambda>i. map_option (\<lambda>k. k \<ge> h) (go_nth (ch_keys m) i));
        let idx = (if idx = int (length (ch_keys m)) then 0 else idx);
        k \<leftarrow> go_nth (ch_keys m) idx;
        Some (case ch_hashMap m k of None \<Rightarrow> [] | Some s \<Rightarrow> s)
      })"

section \<open>Binary search\<close>

lemma search_loop_ok:
  assumes f: "\<And>h. 0 \<le> h \<Longrightarrow> h < n \<Longrightarrow> f h = Some (p h)" and mono: "\<And>a b. 0 \<le> a \<Longrightarrow> a \<le> b \<Longrightarrow> b < n \<Longrightarrow> p a \<Longrightarrow> p b"
  shows "0 \<le> i \<Longrightarrow> i \<le> j \<Longrightarrow> j \<le> n \<Longrightarrow> \<forall>h. 0 \<le> h \<and> h < i \<longrightarrow> \<not> p h \<Longrightarrow> \<forall>h. j \<le> h \<and> h < n \<longrightarrow> p h \<Longrightarrow>
    \<exists>r. search_loop f i j = Some r \<and> 0 \<le> r \<and> r \<le> n \<and> (\<forall>h. 0 \<le> h \<and> h < r \<longrightarrow> \<not> p h) \<and> (\<forall>h. r \<le> h \<and> h < n \<longrightarrow> p h)"
proof (induction "nat (j - i)" arbitrary: i j rule: less_induct)
  case less
  show ?case
  proof (cases "i < j")
    case False
    with less.prems show ?thesis by (subst search_loop.simps) auto
  next
    case True
    let ?h = "(i + j) div 2"
    have h: "i \<le> ?h" "?h < j" "0 \<le> ?h" "?h < n" using True less.prems(1,3) by auto
    have fh: "f ?h = Some (p ?h)" by (rule f) (use h in auto)
    show ?thesis
    proof (cases "p ?h")
      case True
      have "\<forall>k. ?h \<le> k \<and> k < n \<longrightarrow> p k" using mono [OF h(3) _ _ True] by blast
      then have "\<exists>r. search_loop f i ?h = Some r \<and> 0 \<le> r \<and> r \<le> n \<and> (\<forall>h. 0 \<le> h \<and> h < r \<longrightarrow> \<not> p h) \<and> (\<forall>h. r \<le> h \<and> h < n \<longrightarrow> p h)"
        using less.prems(1,4) h by (intro less.hyps) auto
      with \<open>i < j\<close> fh True show ?thesis by (subst search_loop.simps) (simp add: Let_def)
    next
      case False
      have "\<forall>k. 0 \<le> k \<and> k < ?h + 1 \<longrightarrow> \<not> p k" using mono [of _ ?h] h(4) False by (metis zle_add1_eq_le)
      then have "\<exists>r. search_loop f (?h + 1) j = Some r \<and> 0 \<le> r \<and> r \<le> n \<and> (\<forall>h. 0 \<le> h \<and> h < r \<longrightarrow> \<not> p h) \<and> (\<forall>h. r \<le> h \<and> h < n \<longrightarrow> p h)"
        using less.prems(3,5) h by (intro less.hyps) auto
      with \<open>i < j\<close> fh False show ?thesis by (subst search_loop.simps) (simp add: Let_def)
    qed
  qed
qed

lemma sort_Search_sorted:
  assumes "sorted xs"
  shows "\<exists>r. sort_Search (int (length xs)) (\<lambda>i. map_option (\<lambda>k. k \<ge> h) (go_nth xs i)) = Some (int r) \<and> r \<le> length xs \<and>
    (\<forall>k < r. xs ! k < h) \<and> (\<forall>k. r \<le> k \<longrightarrow> k < length xs \<longrightarrow> h \<le> xs ! k)"
proof -
  let ?p = "\<lambda>i. h \<le> xs ! nat i"
  have "\<exists>r. search_loop (\<lambda>i. map_option (\<lambda>k. k \<ge> h) (go_nth xs i)) 0 (int (length xs)) = Some r \<and> 0 \<le> r \<and> r \<le> int (length xs) \<and>
      (\<forall>i. 0 \<le> i \<and> i < r \<longrightarrow> \<not> ?p i) \<and> (\<forall>i. r \<le> i \<and> i < int (length xs) \<longrightarrow> ?p i)"
  proof (rule search_loop_ok)
    show "?p b" if "0 \<le> a" "a \<le> b" "b < int (length xs)" "?p a" for a b
      using that(4) by (rule order_trans) (rule sorted_nth_mono [OF assms], use that in auto)
  qed (auto simp: go_nth_def)
  then obtain r where r: "sort_Search (int (length xs)) (\<lambda>i. map_option (\<lambda>k. k \<ge> h) (go_nth xs i)) = Some r" "0 \<le> r"
    "r \<le> int (length xs)" "\<forall>i. 0 \<le> i \<and> i < r \<longrightarrow> \<not> ?p i" "\<forall>i. r \<le> i \<and> i < int (length xs) \<longrightarrow> ?p i"
    by (auto simp: sort_Search_def)
  have "xs ! k < h" if "k < nat r" for k using r(4) [rule_format, of "int k"] that by (auto simp: zless_nat_eq_int_zless not_le)
  moreover have "h \<le> xs ! k" if "nat r \<le> k" "k < length xs" for k using r(5) [rule_format, of "int k"] that by (auto simp: nat_le_iff)
  ultimately show ?thesis using r(1-3) by (intro exI [of _ "nat r"]) auto
qed

section \<open>The ring\<close>

definition ch_inv :: "hash_map \<Rightarrow> bool" where
  "ch_inv m \<longleftrightarrow> sorted (ch_keys m) \<and> dom (ch_hashMap m) = set (ch_keys m)"

text \<open>The first point of \<open>P\<close> clockwise from \<open>h\<close>.\<close>

definition clockwise :: "int set \<Rightarrow> int \<Rightarrow> int \<Rightarrow> bool" where
  "clockwise P h x \<longleftrightarrow> x \<in> P \<and> (if \<exists>y \<in> P. h \<le> y then h \<le> x \<and> (\<forall>y \<in> P. h \<le> y \<longrightarrow> x \<le> y) else (\<forall>y \<in> P. x \<le> y))"

lemma clockwise_unique: "clockwise P h x \<Longrightarrow> clockwise P h y \<Longrightarrow> x = y"
  by (fastforce simp: clockwise_def split: if_splits)

lemma clockwise_mono: "clockwise Q h x \<Longrightarrow> P \<subseteq> Q \<Longrightarrow> x \<in> P \<Longrightarrow> clockwise P h x"
  by (auto simp: clockwise_def split: if_splits)

lemma ch_Get_clockwise:
  assumes "ch_inv m" "ch_keys m \<noteq> []"
  shows "\<exists>x s. clockwise (set (ch_keys m)) (uint (ch_hash m key)) x \<and> ch_hashMap m x = Some s \<and> ch_Get m key = Some s"
proof -
  let ?xs = "ch_keys m" and ?h = "uint (ch_hash m key)"
  have s: "sorted ?xs" using assms(1) by (simp add: ch_inv_def)
  from sort_Search_sorted [OF s, of ?h] obtain r where
    r: "sort_Search (int (length ?xs)) (\<lambda>i. map_option (\<lambda>k. k \<ge> ?h) (go_nth ?xs i)) = Some (int r)" "r \<le> length ?xs"
      "\<forall>k < r. ?xs ! k < ?h" "\<forall>k. r \<le> k \<longrightarrow> k < length ?xs \<longrightarrow> ?h \<le> ?xs ! k" by blast
  let ?i = "if r = length ?xs then 0 else r"
  have i: "?i < length ?xs" using r(2) assms(2) by auto
  have cw: "clockwise (set ?xs) ?h (?xs ! ?i)"
  proof (cases "r = length ?xs")
    case True
    have "y < ?h" if "y \<in> set ?xs" for y using that r(3) True by (auto simp: in_set_conv_nth)
    moreover have "?xs ! 0 \<le> y" if "y \<in> set ?xs" for y using that sorted_nth_mono [OF s, of 0] by (auto simp: in_set_conv_nth)
    ultimately show ?thesis using True i by (fastforce simp: clockwise_def)
  next
    case False
    have "?xs ! r \<le> y" if "y \<in> set ?xs" "?h \<le> y" for y
    proof -
      from that(1) obtain k where k: "k < length ?xs" "y = ?xs ! k" by (auto simp: in_set_conv_nth)
      then have "r \<le> k" using r(3) that(2) by (metis linorder_not_less)
      then show ?thesis using sorted_nth_mono [OF s] k by simp
    qed
    then show ?thesis using False i r(4) by (auto simp: clockwise_def)
  qed
  have "?xs ! ?i \<in> dom (ch_hashMap m)" using assms(1) i by (simp add: ch_inv_def)
  then obtain s where "ch_hashMap m (?xs ! ?i) = Some s" by auto
  moreover have "(if int r = int (length ?xs) then 0 else int r) = int ?i" by simp
  then have "go_nth ?xs (if int r = int (length ?xs) then 0 else int r) = Some (?xs ! ?i)"
    using go_nth_int [OF i] by (simp only:)
  ultimately have "ch_Get m key = Some s" using assms(2) r(1) by (simp add: ch_Get_def ch_IsEmpty_def)
  with cw \<open>ch_hashMap m (?xs ! ?i) = Some s\<close> show ?thesis by blast
qed

lemma ch_Add_replicas_eq:
  "ch_keys (ch_Add_replicas m key js) = ch_keys m @ map (ch_point m key) js \<and>
   ch_hashMap (ch_Add_replicas m key js) = (\<lambda>x. if x \<in> ch_point m key ` set js then Some key else ch_hashMap m x) \<and>
   ch_hash (ch_Add_replicas m key js) = ch_hash m \<and> ch_replicas (ch_Add_replicas m key js) = ch_replicas m"
proof (induction js arbitrary: m)
  case (Cons i js)
  let ?m = "m\<lparr>ch_keys := ch_keys m @ [ch_point m key i], ch_hashMap := (ch_hashMap m)(ch_point m key i \<mapsto> key)\<rparr>"
  have "ch_point ?m key = ch_point m key" by (simp add: ch_point_def fun_eq_iff)
  with Cons [of ?m] show ?case by (auto simp: Let_def fun_eq_iff)
qed simp

definition points :: "hash_map \<Rightarrow> bytes \<Rightarrow> int set" where
  "points m key = ch_point m key ` {0..<nat (ch_replicas m)}"

lemma ch_Add_keys_inv:
  "dom (ch_hashMap m) = set (ch_keys m) \<Longrightarrow> dom (ch_hashMap (ch_Add_keys m keys)) = set (ch_keys (ch_Add_keys m keys)) \<and>
     ch_hash (ch_Add_keys m keys) = ch_hash m \<and> ch_replicas (ch_Add_keys m keys) = ch_replicas m"
proof (induction keys arbitrary: m)
  case (Cons key keys)
  let ?m = "ch_Add_replicas m key [0..<nat (ch_replicas m)]"
  have "dom (ch_hashMap ?m) = set (ch_keys ?m)"
    using ch_Add_replicas_eq [of m key "[0..<nat (ch_replicas m)]"] Cons.prems by (auto simp: dom_def split: if_splits)
  with Cons.IH [of ?m] ch_Add_replicas_eq [of m key "[0..<nat (ch_replicas m)]"] show ?case by simp
qed simp

lemma ch_Add_inv: "ch_inv m \<Longrightarrow> ch_inv (ch_Add m keys)"
  using ch_Add_keys_inv [of m keys] by (simp add: ch_inv_def ch_Add_def Let_def)

lemma ch_Add_one:
  "set (ch_keys (ch_Add m [k])) = set (ch_keys m) \<union> points m k"
  "ch_hashMap (ch_Add m [k]) = (\<lambda>x. if x \<in> points m k then Some k else ch_hashMap m x)"
  "ch_hash (ch_Add m [k]) = ch_hash m"
  using ch_Add_replicas_eq [of m k "[0..<nat (ch_replicas m)]"] by (simp_all add: ch_Add_def Let_def points_def)

section \<open>Properties\<close>

text \<open>
  C32. \<open>Get\<close> returns the key whose point is the first one clockwise on the ring from the hash of
  its argument, for every map built with \<open>New\<close> and \<open>Add\<close>; it does not panic.
\<close>

theorem consistent_hash_get:
  assumes "ch_inv m" "ch_keys (ch_Add m ks) \<noteq> []"
  shows "ch_inv (ch_Add m ks) \<and> (\<exists>x s. clockwise (set (ch_keys (ch_Add m ks))) (uint (ch_hash (ch_Add m ks) key)) x \<and>
    ch_hashMap (ch_Add m ks) x = Some s \<and> ch_Get (ch_Add m ks) key = Some s)"
  using ch_Get_clockwise [OF ch_Add_inv [OF assms(1), of ks] assms(2)] ch_Add_inv [OF assms(1), of ks] by blast

text \<open>A hash function for the witnesses: the sum of the bytes times 20, modulo 100.\<close>

definition sample_hash :: "bytes \<Rightarrow> u32" where
  "sample_hash b = of_int ((20 * sum_list (map uint b)) mod 100)"

lemma ch_New_inv: "ch_inv (ch_New crc32 r fn)"
  by (simp add: ch_New_def ch_inv_def)

theorem consistent_hash_get_witness:
  "\<exists>s. ch_Get (ch_Add (ch_New sample_hash 1 None) [[1], [2]]) [3] = Some s"
proof -
  have "ch_keys (ch_Add (ch_New sample_hash 1 None) [[1], [2]]) \<noteq> []"
    by (simp add: ch_Add_def ch_New_def Let_def sort_key_def split: if_splits)
  from consistent_hash_get [OF ch_New_inv this, of "[3]"] show ?thesis by blast
qed

text \<open>
  C33. Adding a node moves keys only to the new node: for every argument, \<open>Get\<close> returns what it
  returned before or the added key, whatever the hash function and even if points collide.
\<close>

theorem consistent_hash_add_moves_to_new:
  assumes "ch_inv m" "ch_keys m \<noteq> []"
  shows "ch_Get (ch_Add m [k]) key = ch_Get m key \<or> ch_Get (ch_Add m [k]) key = Some k"
proof -
  let ?m = "ch_Add m [k]"
  have ne: "ch_keys ?m \<noteq> []" using ch_Add_one(1) [of m k] assms(2) by auto
  from ch_Get_clockwise [OF assms, of key] obtain x s where
    x: "clockwise (set (ch_keys m)) (uint (ch_hash m key)) x" "ch_hashMap m x = Some s" "ch_Get m key = Some s" by blast
  from ch_Get_clockwise [OF ch_Add_inv [OF assms(1)] ne, of key] obtain y t where
    y: "clockwise (set (ch_keys ?m)) (uint (ch_hash ?m key)) y" "ch_hashMap ?m y = Some t" "ch_Get ?m key = Some t" by blast
  show ?thesis
  proof (cases "y \<in> points m k")
    case True
    then show ?thesis using y ch_Add_one(2) [of m k] by simp
  next
    case False
    have "y \<in> set (ch_keys m)" using y(1) False ch_Add_one(1) [of m k] by (auto simp: clockwise_def)
    then have "clockwise (set (ch_keys m)) (uint (ch_hash m key)) y"
      using clockwise_mono [OF y(1)] ch_Add_one(1,3) [of m k] by auto
    then have "y = x" using x(1) clockwise_unique by blast
    then show ?thesis using False x y ch_Add_one(2) [of m k] by simp
  qed
qed

theorem consistent_hash_add_moves_to_new_witness:
  "ch_Get (ch_Add \<lparr>ch_hash = sample_hash, ch_replicas = 2, ch_keys = [60], ch_hashMap = [60 \<mapsto> [1]]\<rparr> [[2]]) [3] =
     ch_Get \<lparr>ch_hash = sample_hash, ch_replicas = 2, ch_keys = [60], ch_hashMap = [60 \<mapsto> [1]]\<rparr> [3] \<or>
   ch_Get (ch_Add \<lparr>ch_hash = sample_hash, ch_replicas = 2, ch_keys = [60], ch_hashMap = [60 \<mapsto> [1]]\<rparr> [[2]]) [3] = Some [2]"
  by (rule consistent_hash_add_moves_to_new) (simp_all add: ch_inv_def)

end
