(* ===== verification/Single_Flight.thy ===== *)
theory Single_Flight
  imports Go_Prelude
begin

text \<open>
  \<open>groupcache/singleflight/singleflight.go\<close> as a concurrent program. The state is the group (the
  map from keys to calls in flight), the calls and the invocations of \<open>Do\<close>, each at one of the
  points where it can be interrupted. The critical sections under \<open>g.mu\<close> are single steps; the
  assignment of the result and \<open>wg.Done\<close> are one step, since a waiter reads the result only after
  \<open>Done\<close>. The result of \<open>fn\<close>, a value and an error, is an arbitrary \<open>'v\<close>.
\<close>

section \<open>The program\<close>

record 'v sf_call =
  call_wg :: int
  call_res :: "'v option"

text \<open>Where an invocation is: waiting for the call of another one, running \<open>fn\<close>, after \<open>Done\<close> and
  before the deletion of the key, or returned.\<close>

datatype 'v sf_pc = Waiting nat | Running nat | Leaving nat | Returned nat 'v

record ('k, 'v) sf_state =
  sf_m :: "'k \<Rightarrow> nat option"
  sf_calls :: "nat \<Rightarrow> 'v sf_call option"
  sf_next :: nat
  sf_pcs :: "nat \<Rightarrow> ('k \<times> 'v sf_pc) option"

definition sf_init :: "('k, 'v) sf_state" where
  "sf_init = \<lparr>sf_m = Map.empty, sf_calls = Map.empty, sf_next = 0, sf_pcs = Map.empty\<rparr>"

definition set_pc :: "('k, 'v) sf_state \<Rightarrow> nat \<Rightarrow> 'k \<Rightarrow> 'v sf_pc \<Rightarrow> ('k, 'v) sf_state" where
  "set_pc s t key pc = s\<lparr>sf_pcs := (sf_pcs s)(t \<mapsto> (key, pc))\<rparr>"

text \<open>The first critical section.\<close>

definition sf_enter :: "('k, 'v) sf_state \<Rightarrow> nat \<Rightarrow> 'k \<Rightarrow> ('k, 'v) sf_state" where
  "sf_enter s t key =
     (case sf_m s key of
        Some c \<Rightarrow> set_pc s t key (Waiting c)
      | None \<Rightarrow>
          (let c = sf_next s
           in set_pc (s\<lparr>sf_calls := (sf_calls s)(c \<mapsto> \<lparr>call_wg = 1, call_res = None\<rparr>), sf_m := (sf_m s)(key \<mapsto> c),
                sf_next := c + 1\<rparr>) t key (Running c)))"

text \<open>\<open>c.wg.Wait()\<close> returns when the counter is zero; the result of the call is returned.\<close>

definition sf_wake :: "('k, 'v) sf_state \<Rightarrow> nat \<Rightarrow> ('k, 'v) sf_state option" where
  "sf_wake s t = do {
     (key, pc) \<leftarrow> sf_pcs s t;
     case pc of
       Waiting c \<Rightarrow> do {
         call \<leftarrow> sf_calls s c;
         if call_wg call \<noteq> 0 then None
         else do { v \<leftarrow> call_res call; Some (set_pc s t key (Returned c v)) }
       }
     | _ \<Rightarrow> None
   }"

text \<open>\<open>c.val, c.err = fn()\<close> and \<open>c.wg.Done()\<close>.\<close>

definition sf_finish :: "('k, 'v) sf_state \<Rightarrow> nat \<Rightarrow> 'v \<Rightarrow> ('k, 'v) sf_state option" where
  "sf_finish s t v = do {
     (key, pc) \<leftarrow> sf_pcs s t;
     case pc of
       Running c \<Rightarrow> do {
         call \<leftarrow> sf_calls s c;
         Some (set_pc (s\<lparr>sf_calls := (sf_calls s)(c \<mapsto> \<lparr>call_wg = call_wg call - 1, call_res = Some v\<rparr>)\<rparr>) t key (Leaving c))
       }
     | _ \<Rightarrow> None
   }"

text \<open>The second critical section and the return.\<close>

definition sf_leave :: "('k, 'v) sf_state \<Rightarrow> nat \<Rightarrow> ('k, 'v) sf_state option" where
  "sf_leave s t = do {
     (key, pc) \<leftarrow> sf_pcs s t;
     case pc of
       Leaving c \<Rightarrow> do {
         call \<leftarrow> sf_calls s c;
         v \<leftarrow> call_res call;
         Some (set_pc (s\<lparr>sf_m := (sf_m s)(key := None)\<rparr>) t key (Returned c v))
       }
     | _ \<Rightarrow> None
   }"

text \<open>The steps of invocations in progress, and with new invocations.\<close>

inductive sf_int :: "('k, 'v) sf_state \<Rightarrow> ('k, 'v) sf_state \<Rightarrow> bool" where
  wake: "sf_wake s t = Some s' \<Longrightarrow> sf_int s s'"
| finish: "sf_finish s t v = Some s' \<Longrightarrow> sf_int s s'"
| leave: "sf_leave s t = Some s' \<Longrightarrow> sf_int s s'"

inductive sf_step :: "('k, 'v) sf_state \<Rightarrow> ('k, 'v) sf_state \<Rightarrow> bool" where
  enter: "sf_pcs s t = None \<Longrightarrow> sf_step s (sf_enter s t key)"
| internal: "sf_int s s' \<Longrightarrow> sf_step s s'"

inductive sf_reachable :: "('k, 'v) sf_state \<Rightarrow> bool" where
  start: "sf_reachable sf_init"
| step: "sf_reachable s \<Longrightarrow> sf_step s s' \<Longrightarrow> sf_reachable s'"

inductive_cases sf_intE: "sf_int s s'"
inductive_cases sf_stepE: "sf_step s s'"

section \<open>What the steps do\<close>

lemma sf_wakeD:
  assumes "sf_wake s t = Some s'"
  obtains key c v where "sf_pcs s t = Some (key, Waiting c)" "sf_calls s c = Some \<lparr>call_wg = 0, call_res = Some v\<rparr>"
    "s' = s\<lparr>sf_pcs := (sf_pcs s)(t \<mapsto> (key, Returned c v))\<rparr>"
proof -
  from assms obtain key pc where p: "sf_pcs s t = Some (key, pc)" by (cases "sf_pcs s t") (auto simp: sf_wake_def)
  with assms obtain c where c: "pc = Waiting c" by (cases pc) (auto simp: sf_wake_def)
  with assms p obtain call where call: "sf_calls s c = Some call" by (cases "sf_calls s c") (auto simp: sf_wake_def)
  with assms p c obtain v where "call_wg call = 0" "call_res call = Some v" by (cases "call_res call") (auto simp: sf_wake_def split: if_splits)
  moreover from this have "call = \<lparr>call_wg = 0, call_res = Some v\<rparr>" by (cases call) simp
  ultimately show thesis using that [of key c v] assms p c call by (simp add: sf_wake_def set_pc_def)
qed

lemma sf_finishD:
  assumes "sf_finish s t v = Some s'"
  obtains key c call where "sf_pcs s t = Some (key, Running c)" "sf_calls s c = Some call"
    "s' = s\<lparr>sf_calls := (sf_calls s)(c \<mapsto> \<lparr>call_wg = call_wg call - 1, call_res = Some v\<rparr>), sf_pcs := (sf_pcs s)(t \<mapsto> (key, Leaving c))\<rparr>"
proof -
  from assms obtain key pc where p: "sf_pcs s t = Some (key, pc)" by (cases "sf_pcs s t") (auto simp: sf_finish_def)
  with assms obtain c where c: "pc = Running c" by (cases pc) (auto simp: sf_finish_def)
  with assms p obtain call where "sf_calls s c = Some call" by (cases "sf_calls s c") (auto simp: sf_finish_def)
  then show thesis using that [of key c call] assms p c by (simp add: sf_finish_def set_pc_def)
qed

lemma sf_leaveD:
  assumes "sf_leave s t = Some s'"
  obtains key c call v where "sf_pcs s t = Some (key, Leaving c)" "sf_calls s c = Some call" "call_res call = Some v"
    "s' = s\<lparr>sf_m := (sf_m s)(key := None), sf_pcs := (sf_pcs s)(t \<mapsto> (key, Returned c v))\<rparr>"
proof -
  from assms obtain key pc where p: "sf_pcs s t = Some (key, pc)" by (cases "sf_pcs s t") (auto simp: sf_leave_def)
  with assms obtain c where c: "pc = Leaving c" by (cases pc) (auto simp: sf_leave_def)
  with assms p obtain call where call: "sf_calls s c = Some call" by (cases "sf_calls s c") (auto simp: sf_leave_def)
  with assms p c obtain v where "call_res call = Some v" by (cases "call_res call") (auto simp: sf_leave_def)
  then show thesis using that [of key c call v] assms p c call by (simp add: sf_leave_def set_pc_def)
qed

section \<open>The invariant\<close>

text \<open>The invocation \<open>t\<close> executes the call \<open>c\<close> for \<open>key\<close>.\<close>

definition owns :: "('k, 'v) sf_state \<Rightarrow> nat \<Rightarrow> 'k \<Rightarrow> nat \<Rightarrow> bool" where
  "owns s t key c \<longleftrightarrow> sf_pcs s t = Some (key, Running c) \<or> sf_pcs s t = Some (key, Leaving c)"

text \<open>What holds of an invocation at its point, given the calls and the owners of keys.\<close>

fun pc_ok :: "('k, 'v) sf_state \<Rightarrow> 'k \<Rightarrow> 'v sf_pc \<Rightarrow> bool" where
  "pc_ok s key (Running c) \<longleftrightarrow> sf_m s key = Some c \<and> sf_calls s c = Some \<lparr>call_wg = 1, call_res = None\<rparr>"
| "pc_ok s key (Leaving c) \<longleftrightarrow> sf_m s key = Some c \<and> (\<exists>v. sf_calls s c = Some \<lparr>call_wg = 0, call_res = Some v\<rparr>)"
| "pc_ok s key (Waiting c) \<longleftrightarrow> (\<exists>v. sf_calls s c = Some \<lparr>call_wg = 0, call_res = Some v\<rparr>) \<or>
     sf_m s key = Some c \<and> sf_calls s c = Some \<lparr>call_wg = 1, call_res = None\<rparr>"
| "pc_ok s key (Returned c v) \<longleftrightarrow> sf_calls s c = Some \<lparr>call_wg = 0, call_res = Some v\<rparr>"

definition sf_inv :: "('k, 'v) sf_state \<Rightarrow> bool" where
  "sf_inv s \<longleftrightarrow>
     (\<forall>t key pc. sf_pcs s t = Some (key, pc) \<longrightarrow> pc_ok s key pc) \<and>
     (\<forall>t key t' key' c. owns s t key c \<longrightarrow> owns s t' key' c \<longrightarrow> t = t') \<and>
     (\<forall>key c. sf_m s key = Some c \<longrightarrow> (\<exists>t. owns s t key c)) \<and>
     (\<forall>c call. sf_calls s c = Some call \<longrightarrow> c < sf_next s) \<and> finite (dom (sf_pcs s))"

lemma sf_invI:
  assumes "\<And>t key pc. sf_pcs s t = Some (key, pc) \<Longrightarrow> pc_ok s key pc"
    "\<And>t key t' key' c. owns s t key c \<Longrightarrow> owns s t' key' c \<Longrightarrow> t = t'"
    "\<And>key c. sf_m s key = Some c \<Longrightarrow> \<exists>t. owns s t key c"
    "\<And>c call. sf_calls s c = Some call \<Longrightarrow> c < sf_next s" "finite (dom (sf_pcs s))"
  shows "sf_inv s"
  using assms unfolding sf_inv_def by blast

lemma sf_invD:
  assumes "sf_inv s"
  shows "\<And>t key pc. sf_pcs s t = Some (key, pc) \<Longrightarrow> pc_ok s key pc"
    "\<And>t key t' key' c. owns s t key c \<Longrightarrow> owns s t' key' c \<Longrightarrow> t = t'"
    "\<And>key c. sf_m s key = Some c \<Longrightarrow> \<exists>t. owns s t key c"
    "\<And>c call. sf_calls s c = Some call \<Longrightarrow> c < sf_next s" "finite (dom (sf_pcs s))"
  using assms unfolding sf_inv_def by blast+

lemma init_inv: "sf_inv sf_init"
  by (auto simp: sf_inv_def sf_init_def owns_def)

text \<open>A key whose call is in the map is owned by exactly one invocation.\<close>

lemma owner_key: "sf_inv s \<Longrightarrow> owns s t key c \<Longrightarrow> sf_m s key = Some c"
  using sf_invD(1) [of s t key] by (auto simp: owns_def)

lemma enter_inv:
  assumes "sf_inv s" "sf_pcs s t = None"
  shows "sf_inv (sf_enter s t key)"
proof (cases "sf_m s key")
  case (Some c)
  let ?s = "s\<lparr>sf_pcs := (sf_pcs s)(t \<mapsto> (key, Waiting c))\<rparr>"
  have e: "sf_enter s t key = ?s" using Some by (simp add: sf_enter_def set_pc_def)
  have ow: "owns ?s t' k d \<longleftrightarrow> owns s t' k d" for t' k d using assms(2) by (auto simp: owns_def)
  have ok: "pc_ok ?s k pc \<longleftrightarrow> pc_ok s k pc" for k pc by (cases pc) auto
  from sf_invD(3) [OF assms(1) Some] obtain u where "owns s u key c" by blast
  then have "pc_ok s key (Waiting c)" using sf_invD(1) [OF assms(1), of u key] by (auto simp: owns_def)
  with e ow ok sf_invD [OF assms(1)] show ?thesis
    by (intro sf_invI) (auto simp del: pc_ok.simps split: if_splits)
next
  case None
  let ?c = "sf_next s"
  let ?s = "s\<lparr>sf_calls := (sf_calls s)(?c \<mapsto> \<lparr>call_wg = 1, call_res = None\<rparr>), sf_m := (sf_m s)(key \<mapsto> ?c), sf_next := ?c + 1,
    sf_pcs := (sf_pcs s)(t \<mapsto> (key, Running ?c))\<rparr>"
  have e: "sf_enter s t key = ?s" using None by (simp add: sf_enter_def set_pc_def Let_def)
  have fresh: "sf_calls s ?c = None" using sf_invD(4) [OF assms(1), of ?c] by (cases "sf_calls s ?c") auto
  have nk: "sf_m s k \<noteq> Some ?c" for k
  proof
    assume m: "sf_m s k = Some ?c"
    from sf_invD(3) [OF assms(1) m] obtain u where "owns s u k ?c" by blast
    then show False using sf_invD(1) [OF assms(1), of u k] fresh by (auto simp: owns_def)
  qed
  have ow: "owns ?s t' k d \<longleftrightarrow> (if t' = t then k = key \<and> d = ?c else owns s t' k d)" for t' k d
    using assms(2) by (auto simp: owns_def)
  have own: "d \<noteq> ?c" if "owns s t' k d" for t' k d
    using owner_key [OF assms(1) that] nk by auto
  have ok: "pc_ok ?s k pc" if "pc_ok s k pc" for k pc
    using that None fresh by (cases pc) auto
  show ?thesis unfolding e
  proof (rule sf_invI)
    show "pc_ok ?s k pc" if "sf_pcs ?s t' = Some (k, pc)" for t' k pc
      using that sf_invD(1) [OF assms(1), of t' k pc] ok by (cases "t' = t") auto
    show "t1 = t2" if "owns ?s t1 k1 d" "owns ?s t2 k2 d" for t1 k1 t2 k2 d
      using that sf_invD(2) [OF assms(1), of t1 k1 d t2 k2] own ow by (auto split: if_splits)
    show "\<exists>u. owns ?s u k d" if "sf_m ?s k = Some d" for k d
    proof (cases "k = key")
      case True
      with that ow show ?thesis by auto
    next
      case False
      with that sf_invD(3) [OF assms(1), of k d] obtain u where u: "owns s u k d" by auto
      then have "u \<noteq> t" using assms(2) by (auto simp: owns_def)
      with u ow show ?thesis by auto
    qed
    show "d < sf_next ?s" if "sf_calls ?s d = Some call" for d call
      using that sf_invD(4) [OF assms(1), of d call] by (auto split: if_splits)
  qed (use sf_invD(5) [OF assms(1)] in simp)
qed

lemma wake_inv:
  assumes "sf_inv s" "sf_wake s t = Some s'"
  shows "sf_inv s'"
proof -
  from sf_wakeD [OF assms(2)] obtain key c v where
    w: "sf_pcs s t = Some (key, Waiting c)" "sf_calls s c = Some \<lparr>call_wg = 0, call_res = Some v\<rparr>"
      "s' = s\<lparr>sf_pcs := (sf_pcs s)(t \<mapsto> (key, Returned c v))\<rparr>" .
  have ow: "owns s' t' k d \<longleftrightarrow> owns s t' k d" for t' k d using w(1,3) by (auto simp: owns_def)
  have ok: "pc_ok s' k pc \<longleftrightarrow> pc_ok s k pc" for k pc using w(3) by (cases pc) auto
  have m: "sf_m s' = sf_m s" "sf_calls s' = sf_calls s" "sf_next s' = sf_next s"
    "sf_pcs s' = (sf_pcs s)(t \<mapsto> (key, Returned c v))" using w(3) by simp_all
  have "pc_ok s key (Returned c v)" using w(2) by simp
  with ow ok m sf_invD [OF assms(1)] show ?thesis
    by (intro sf_invI) (auto simp del: pc_ok.simps split: if_splits)
qed

lemma finish_inv:
  assumes "sf_inv s" "sf_finish s t v = Some s'"
  shows "sf_inv s'"
proof -
  from sf_finishD [OF assms(2)] obtain key c call where
    f: "sf_pcs s t = Some (key, Running c)" "sf_calls s c = Some call"
      "s' = s\<lparr>sf_calls := (sf_calls s)(c \<mapsto> \<lparr>call_wg = call_wg call - 1, call_res = Some v\<rparr>), sf_pcs := (sf_pcs s)(t \<mapsto> (key, Leaving c))\<rparr>" .
  have run: "sf_m s key = Some c" "call = \<lparr>call_wg = 1, call_res = None\<rparr>" using sf_invD(1) [OF assms(1) f(1)] f(2) by auto
  have m: "sf_m s' = sf_m s" "sf_calls s' = (sf_calls s)(c \<mapsto> \<lparr>call_wg = 0, call_res = Some v\<rparr>)" "sf_next s' = sf_next s"
    "sf_pcs s' = (sf_pcs s)(t \<mapsto> (key, Leaving c))" using f(3) run(2) by simp_all
  have ow: "owns s' t' k d \<longleftrightarrow> owns s t' k d" for t' k d using f(1) m(4) by (auto simp: owns_def)
  have ot: "owns s t key c" using f(1) by (simp add: owns_def)
  show ?thesis
  proof (rule sf_invI)
    show "pc_ok s' k pc" if p: "sf_pcs s' u = Some (k, pc)" for u k pc
    proof (cases "u = t")
      case True
      with p m run show ?thesis by auto
    next
      case False
      then have "sf_pcs s u = Some (k, pc)" using p m(4) by simp
      moreover from this have "\<not> owns s u k c" using False sf_invD(2) [OF assms(1) ot] by blast
      ultimately show ?thesis using sf_invD(1) [OF assms(1), of u k pc] m f(2) run(2)
        by (cases pc) (auto simp: owns_def)
    qed
    show "t1 = t2" if "owns s' t1 k1 d" "owns s' t2 k2 d" for t1 k1 t2 k2 d
      using that sf_invD(2) [OF assms(1)] ow by blast
    show "\<exists>u. owns s' u k d" if "sf_m s' k = Some d" for k d
      using that sf_invD(3) [OF assms(1)] ow m(1) by simp
    show "d < sf_next s'" if "sf_calls s' d = Some cl" for d cl
      using that m(2,3) f(2) sf_invD(4) [OF assms(1)] by (auto split: if_splits)
  qed (use sf_invD(5) [OF assms(1)] m(4) in simp)
qed

lemma leave_inv:
  assumes "sf_inv s" "sf_leave s t = Some s'"
  shows "sf_inv s'"
proof -
  from sf_leaveD [OF assms(2)] obtain key c call v where
    f: "sf_pcs s t = Some (key, Leaving c)" "sf_calls s c = Some call" "call_res call = Some v"
      "s' = s\<lparr>sf_m := (sf_m s)(key := None), sf_pcs := (sf_pcs s)(t \<mapsto> (key, Returned c v))\<rparr>" .
  have lv: "sf_m s key = Some c" "sf_calls s c = Some \<lparr>call_wg = 0, call_res = Some v\<rparr>"
    using sf_invD(1) [OF assms(1) f(1)] f(2,3) by auto
  have m: "sf_m s' = (sf_m s)(key := None)" "sf_calls s' = sf_calls s" "sf_next s' = sf_next s"
    "sf_pcs s' = (sf_pcs s)(t \<mapsto> (key, Returned c v))" using f(4) by simp_all
  have ot: "owns s t key c" using f(1) by (simp add: owns_def)
  have ow: "owns s' u k d \<longleftrightarrow> u \<noteq> t \<and> owns s u k d" for u k d using m(4) by (auto simp: owns_def)
  have nk: "k \<noteq> key" if "owns s u k d" "u \<noteq> t" for u k d
  proof
    assume "k = key"
    then have "d = c" using owner_key [OF assms(1) that(1)] lv(1) by simp
    with that ot sf_invD(2) [OF assms(1)] show False by blast
  qed
  show ?thesis
  proof (rule sf_invI)
    show "pc_ok s' k pc" if p: "sf_pcs s' u = Some (k, pc)" for u k pc
    proof (cases "u = t")
      case True
      with p m lv show ?thesis by auto
    next
      case False
      then have u: "sf_pcs s u = Some (k, pc)" using p m(4) by simp
      then have "owns s u k d \<longrightarrow> k \<noteq> key" for d using nk False by blast
      with u sf_invD(1) [OF assms(1) u] m lv show ?thesis
        by (cases pc) (auto simp: owns_def)
    qed
    show "t1 = t2" if "owns s' t1 k1 d" "owns s' t2 k2 d" for t1 k1 t2 k2 d
      using that sf_invD(2) [OF assms(1)] ow by blast
    show "\<exists>u. owns s' u k d" if k: "sf_m s' k = Some d" for k d
    proof -
      have "k \<noteq> key" "sf_m s k = Some d" using k m(1) by (auto split: if_splits)
      then obtain u where u: "owns s u k d" using sf_invD(3) [OF assms(1)] by blast
      then have "u \<noteq> t" using f(1) \<open>k \<noteq> key\<close> by (auto simp: owns_def)
      with u ow show ?thesis by blast
    qed
    show "d < sf_next s'" if "sf_calls s' d = Some cl" for d cl
      using that m(2,3) sf_invD(4) [OF assms(1)] by simp
  qed (use sf_invD(5) [OF assms(1)] m(4) in simp)
qed

lemma int_inv: "sf_inv s \<Longrightarrow> sf_int s s' \<Longrightarrow> sf_inv s'"
  by (auto elim!: sf_intE intro: wake_inv finish_inv leave_inv)

lemma reachable_inv: "sf_reachable s \<Longrightarrow> sf_inv s"
  by (induction rule: sf_reachable.induct) (auto simp: init_inv elim!: sf_stepE intro: enter_inv int_inv)

section \<open>Progress\<close>

fun rank :: "'v sf_pc \<Rightarrow> nat" where
  "rank (Running c) = 2"
| "rank (Leaving c) = 1"
| "rank (Waiting c) = 1"
| "rank (Returned c v) = 0"

definition work :: "('k, 'v) sf_state \<Rightarrow> nat" where
  "work s = (\<Sum>t \<in> dom (sf_pcs s). rank (snd (the (sf_pcs s t))))"

lemma work_update:
  assumes "finite (dom (sf_pcs s))" "sf_pcs s t = Some (key, pc)" "sf_pcs s' = (sf_pcs s)(t \<mapsto> (key, pc'))" "rank pc' < rank pc"
  shows "work s' < work s"
proof -
  let ?D = "dom (sf_pcs s)"
  have t: "t \<in> ?D" using assms(2) by auto
  have d: "dom (sf_pcs s') = ?D" using assms(2,3) by auto
  have "(\<Sum>u \<in> ?D - {t}. rank (snd (the (sf_pcs s' u)))) = (\<Sum>u \<in> ?D - {t}. rank (snd (the (sf_pcs s u))))"
    using assms(3) by (intro sum.cong) auto
  then show ?thesis
    using sum.remove [OF assms(1) t, of "\<lambda>u. rank (snd (the (sf_pcs s' u)))"]
      sum.remove [OF assms(1) t, of "\<lambda>u. rank (snd (the (sf_pcs s u)))"] assms(2-4) d
    by (simp add: work_def)
qed

lemma int_work:
  assumes "sf_inv s" "sf_int s s'" shows "work s' < work s"
proof -
  note u = work_update [OF sf_invD(5) [OF assms(1)], where s' = s']
  from assms(2) show ?thesis
  proof (cases rule: sf_int.cases)
    case (wake t)
    from sf_wakeD [OF wake] obtain key c v where
      "sf_pcs s t = Some (key, Waiting c)" "sf_calls s c = Some \<lparr>call_wg = 0, call_res = Some v\<rparr>"
      "s' = s\<lparr>sf_pcs := (sf_pcs s)(t \<mapsto> (key, Returned c v))\<rparr>" .
    then show ?thesis by (intro u) auto
  next
    case (finish t v)
    from sf_finishD [OF finish] obtain key c call where
      "sf_pcs s t = Some (key, Running c)" "sf_calls s c = Some call"
      "s' = s\<lparr>sf_calls := (sf_calls s)(c \<mapsto> \<lparr>call_wg = call_wg call - 1, call_res = Some v\<rparr>), sf_pcs := (sf_pcs s)(t \<mapsto> (key, Leaving c))\<rparr>" .
    then show ?thesis by (intro u) auto
  next
    case (leave t)
    from sf_leaveD [OF leave] obtain key c call v where
      "sf_pcs s t = Some (key, Leaving c)" "sf_calls s c = Some call" "call_res call = Some v"
      "s' = s\<lparr>sf_m := (sf_m s)(key := None), sf_pcs := (sf_pcs s)(t \<mapsto> (key, Returned c v))\<rparr>" .
    then show ?thesis by (intro u) auto
  qed
qed

text \<open>An invocation that has not returned can step, or the one it waits for can.\<close>

lemma can_step:
  assumes "sf_inv s" "sf_pcs s t = Some (key, pc)" "rank pc \<noteq> 0"
  shows "\<exists>s'. sf_int s s'"
proof -
  have run: "\<exists>s'. sf_int s s'" if "sf_pcs s u = Some (k, Running c)" for u k c
    using that sf_invD(1) [OF assms(1) that] finish [of s u undefined] by (fastforce simp: sf_finish_def)
  have lv: "\<exists>s'. sf_int s s'" if "sf_pcs s u = Some (k, Leaving c)" for u k c
    using that sf_invD(1) [OF assms(1) that] leave [of s u] by (fastforce simp: sf_leave_def)
  show ?thesis
  proof (cases pc)
    case (Waiting c)
    with sf_invD(1) [OF assms(1,2)] consider v where "sf_calls s c = Some \<lparr>call_wg = 0, call_res = Some v\<rparr>" | "sf_m s key = Some c"
      by auto
    then show ?thesis
    proof cases
      case (1 v)
      then show ?thesis using assms(2) Waiting wake [of s t] by (fastforce simp: sf_wake_def)
    next
      case 2
      from sf_invD(3) [OF assms(1) 2] obtain u where "owns s u key c" by blast
      then show ?thesis using run lv by (auto simp: owns_def)
    qed
  qed (use assms run lv in auto)
qed

section \<open>Properties\<close>

text \<open>
  C34. At most one execution per key is in flight: in every reachable state of concurrent
  invocations of \<open>Do\<close>, two invocations that run \<open>fn\<close> for the same key are the same; and all
  invocations that share a call return the same result, the one its only execution produced.
\<close>

theorem singleflight_once:
  assumes "sf_reachable s"
  shows "(\<forall>t t' key c c'. sf_pcs s t = Some (key, Running c) \<longrightarrow> sf_pcs s t' = Some (key, Running c') \<longrightarrow> t = t') \<and>
    (\<forall>t t' key key' c v v'. sf_pcs s t = Some (key, Returned c v) \<longrightarrow> sf_pcs s t' = Some (key', Returned c v') \<longrightarrow> v = v') \<and>
    (\<forall>t key c v. sf_pcs s t = Some (key, Returned c v) \<longrightarrow> (\<exists>call. sf_calls s c = Some call \<and> call_res call = Some v))"
proof -
  note i = reachable_inv [OF assms]
  have "t = t'" if "sf_pcs s t = Some (key, Running c)" "sf_pcs s t' = Some (key, Running c')" for t t' key c c'
  proof -
    have o: "owns s t key c" "owns s t' key c'" using that by (simp_all add: owns_def)
    then have "c = c'" using owner_key [OF i o(1)] owner_key [OF i o(2)] by simp
    with o show ?thesis using sf_invD(2) [OF i] by blast
  qed
  moreover have "sf_calls s c = Some \<lparr>call_wg = 0, call_res = Some v\<rparr>" if "sf_pcs s t = Some (key, Returned c v)" for t key c v
    using sf_invD(1) [OF i that] by simp
  ultimately show ?thesis by (intro conjI allI impI) (metis, metis option.inject sf_call.ext_inject, simp)
qed

definition sf_demo :: "(string, nat) sf_state" where
  "sf_demo = sf_enter (sf_enter sf_init 0 ''k'') 1 ''k''"

lemma sf_demo_reachable: "sf_reachable sf_demo"
proof -
  have "sf_reachable (sf_enter sf_init 0 ''k'' :: (string, nat) sf_state)"
    using sf_reachable.step [OF sf_reachable.start enter [of sf_init 0]] by (simp add: sf_init_def)
  then show ?thesis unfolding sf_demo_def
    by (rule sf_reachable.step) (rule enter, simp add: sf_enter_def sf_init_def set_pc_def)
qed

lemma sf_demo_run:
  "\<exists>s1 s2. sf_finish sf_demo 0 7 = Some s1 \<and> sf_leave s1 0 = Some s2 \<and> sf_pcs s2 0 = Some (''k'', Returned 0 7)"
  by (simp add: sf_demo_def sf_finish_def sf_leave_def sf_enter_def sf_init_def set_pc_def Let_def)

theorem singleflight_once_witness:
  "\<exists>s1 s2 call. sf_finish sf_demo 0 7 = Some s1 \<and> sf_leave s1 0 = Some s2 \<and>
     sf_pcs s2 0 = Some (''k'', Returned 0 7) \<and> sf_calls s2 0 = Some call \<and> call_res call = Some 7"
proof -
  from sf_demo_run obtain s1 s2 where
    s: "sf_finish sf_demo 0 7 = Some s1" "sf_leave s1 0 = Some s2" "sf_pcs s2 0 = Some (''k'', Returned 0 7)" by blast
  have "sf_reachable s2"
    using sf_demo_reachable s(1,2) by (meson finish internal leave sf_reachable.step)
  from singleflight_once [OF this] s show ?thesis by blast
qed

text \<open>
  C35. No invocation of \<open>Do\<close> waits forever, if \<open>fn\<close> returns: from a reachable state only boundedly
  many steps can follow without a new invocation, and if no step is possible any more, every
  invocation has returned.
\<close>

theorem singleflight_live:
  assumes "sf_reachable s" "(sf_int ^^ n) s s'"
  shows "n \<le> work s \<and> ((\<nexists>s''. sf_int s' s'') \<longrightarrow> (\<forall>t key pc. sf_pcs s' t = Some (key, pc) \<longrightarrow> (\<exists>c v. pc = Returned c v)))"
proof -
  have "sf_inv s' \<and> n + work s' \<le> work s"
    using assms(2) reachable_inv [OF assms(1)]
  proof (induction n arbitrary: s')
    case (Suc n)
    from Suc.prems(1) obtain s1 where s1: "(sf_int ^^ n) s s1" "sf_int s1 s'" by auto
    with Suc.IH [OF s1(1) Suc.prems(2)] int_inv [of s1 s'] int_work [of s1 s'] show ?case by auto
  qed simp
  moreover have "\<exists>c v. pc = Returned c v" if "sf_inv s'" "\<nexists>s''. sf_int s' s''" "sf_pcs s' t = Some (key, pc)" for t key pc
    using can_step [OF that(1,3)] that(2) by (cases pc) auto
  ultimately show ?thesis by auto
qed

theorem singleflight_live_witness: "\<exists>s'. sf_finish sf_demo 0 7 = Some s' \<and> 1 \<le> work sf_demo"
proof -
  obtain s' where s': "sf_finish sf_demo 0 7 = Some s'"
    by (simp add: sf_demo_def sf_finish_def sf_enter_def sf_init_def set_pc_def Let_def)
  then have "(sf_int ^^ 1) sf_demo s'" by (auto intro: finish)
  with s' singleflight_live [OF sf_demo_reachable this] show ?thesis by blast
qed

end
