(* ===== verification/Go_Float.thy ===== *)
theory Go_Float
  imports Complex_Main Go_Prelude "HOL-Library.Log_Nat"
begin

text \<open>
  Go's \<open>float64\<close> arithmetic on the nonnegative normal range: a value is the rational number it
  stands for, and every operation rounds the exact result to 53 significant bits, ties to
  even. Exponents are not bounded: the programs compute with counters and percentages, far from
  overflow and from subnormal numbers.
\<close>

definition round_even :: "rat \<Rightarrow> int" where
  "round_even y =
     (let f = \<lfloor>y\<rfloor>; r = y - of_int f
      in if r < 1 / 2 then f else if r > 1 / 2 then f + 1 else if even f then f else f + 1)"

text \<open>The exponent \<open>e\<close> with \<open>2^e \<le> x < 2^(e+1)\<close>.\<close>

definition fl_exponent :: "rat \<Rightarrow> int" where
  "fl_exponent x =
     (let (n, d) = quotient_of x; k = bitlen n - bitlen d
      in if x \<ge> 2 powi k then k else k - 1)"

definition fl :: "rat \<Rightarrow> rat" where
  "fl x = (if x \<le> 0 then 0 else let u = 2 powi (fl_exponent x - 52) in of_int (round_even (x / u)) * u)"

section \<open>The rounding error\<close>

lemma round_even_error: "\<bar>of_int (round_even y) - y\<bar> \<le> 1 / 2"
proof -
  have "of_int \<lfloor>y\<rfloor> \<le> y" "y < of_int \<lfloor>y\<rfloor> + 1" by linarith+
  then show ?thesis unfolding round_even_def Let_def by (cases "y - of_int \<lfloor>y\<rfloor> < 1 / 2"; cases "y - of_int \<lfloor>y\<rfloor> > 1 / 2") (auto simp: abs_le_iff)
qed

lemma fl_exponent_le:
  assumes "x > 0" shows "2 powi fl_exponent x \<le> x"
proof -
  obtain n d where q: "quotient_of x = (n, d)" by (cases "quotient_of x")
  have d: "d > 0" using q by (rule quotient_of_denom_pos)
  have x: "x = of_int n / of_int d" using q by (rule quotient_of_div)
  with assms d have n: "n > 0" by (simp add: zero_less_divide_iff)
  let ?k = "bitlen n - bitlen d"
  have n1: "2 ^ nat (bitlen n - 1) \<le> n" using bitlen_bounds [OF n] by simp
  have d1: "d < 2 ^ nat (bitlen d)" using bitlen_bounds [OF d] by simp
  have bn: "bitlen n \<ge> 1" and bd: "bitlen d \<ge> 0" using n bitlen_nonneg [of n] bitlen_eq_zero_iff [of n] bitlen_nonneg [of d] by linarith+
  have "(2 :: rat) powi (?k - 1) \<le> x"
  proof -
    have "(2 :: rat) powi (bitlen n - 1) = of_int (2 ^ nat (bitlen n - 1))" using bn by (simp add: power_int_def)
    also have "\<dots> \<le> of_int n" using n1 by (simp only: of_int_le_iff)
    finally have a: "(2 :: rat) powi (bitlen n - 1) \<le> of_int n" .
    have "of_int d \<le> (of_int (2 ^ nat (bitlen d)) :: rat)" using d1 by (simp only: of_int_le_iff)
    also have "\<dots> = 2 powi bitlen d" using bd by (simp add: power_int_def)
    finally have b: "(of_int d :: rat) \<le> 2 powi bitlen d" .
    have "(2 :: rat) powi (?k - 1) = 2 powi (bitlen n - 1) / 2 powi bitlen d"
      by (simp add: power_int_diff [symmetric] algebra_simps)
    also have "\<dots> \<le> of_int n / of_int d" using a b d n by (intro frac_le) auto
    finally show ?thesis by (simp add: x)
  qed
  then show ?thesis by (simp add: fl_exponent_def q Let_def)
qed

text \<open>The relative error of one operation is at most \<open>2^-53\<close>.\<close>

lemma fl_error:
  assumes "x \<ge> 0" shows "\<bar>fl x - x\<bar> \<le> x / 2 ^ 53"
proof (cases "x = 0")
  case True
  then show ?thesis by (simp add: fl_def)
next
  case False
  with assms have x: "x > 0" by simp
  let ?u = "2 powi (fl_exponent x - 52) :: rat"
  have u: "?u > 0" by simp
  have "fl x - x = (of_int (round_even (x / ?u)) - x / ?u) * ?u" using x u by (simp add: fl_def Let_def algebra_simps)
  then have "\<bar>fl x - x\<bar> = \<bar>of_int (round_even (x / ?u)) - x / ?u\<bar> * ?u" using u by (simp add: abs_mult)
  also have "\<dots> \<le> 1 / 2 * ?u" using u by (intro mult_right_mono round_even_error) simp
  also have "?u = 2 powi fl_exponent x / 2 ^ 52" by (simp add: power_int_diff)
  also have "1 / 2 * (2 powi fl_exponent x / 2 ^ 52) \<le> 1 / 2 * (x / 2 ^ 52)"
    using fl_exponent_le [OF x] by (intro mult_left_mono divide_right_mono) auto
  finally show ?thesis by simp
qed

lemma fl_pos: "x > 0 \<Longrightarrow> fl x > 0"
proof -
  assume x: "x > 0"
  then have "x / 2 ^ 53 < x" by (simp add: field_simps)
  then show ?thesis using fl_error [of x] x by linarith
qed

text \<open>Rounding does not cross an integer.\<close>

lemma round_even_le: "y \<le> of_int k \<Longrightarrow> round_even y \<le> k"
proof -
  assume y: "y \<le> of_int k"
  have "of_int (round_even y) \<le> y + 1 / 2" using round_even_error [of y] by linarith
  with y have "(of_int (round_even y) :: rat) < of_int (k + 1)" by simp
  then show ?thesis by (simp only: of_int_less_iff)
qed

lemma fl_le_int:
  assumes "x \<le> of_int n" "0 \<le> n" "n < 2 ^ 53"
  shows "fl x \<le> of_int n"
proof (cases "x \<le> 0")
  case True
  with assms show ?thesis by (simp add: fl_def)
next
  case False
  then have x: "x > 0" by simp
  let ?e = "fl_exponent x"
  have "(2 :: rat) powi ?e \<le> of_int n" using fl_exponent_le [OF x] assms(1) by linarith
  also have "\<dots> < of_int (2 ^ 53)" using assms(3) by (simp only: of_int_less_iff)
  also have "\<dots> = 2 powi 53" by (simp add: power_int_def)
  finally have "\<not> (2 :: rat) powi 53 \<le> 2 powi ?e" by simp
  then have e: "?e \<le> 52" using power_int_increasing [of 53 ?e "2 :: rat"] by fastforce
  let ?u = "2 powi (?e - 52) :: rat"
  have u: "?u > 0" by simp
  have iu: "1 / ?u = of_int (2 ^ nat (52 - ?e))" using e by (simp add: power_int_def power_one_over)
  have "x / ?u \<le> of_int n * (1 / ?u)" using assms(1) u by (simp add: divide_right_mono)
  also have "\<dots> = of_int (n * 2 ^ nat (52 - ?e))" by (simp add: iu)
  finally have "round_even (x / ?u) \<le> n * 2 ^ nat (52 - ?e)" by (rule round_even_le)
  then have "of_int (round_even (x / ?u)) * ?u \<le> of_int (n * 2 ^ nat (52 - ?e)) * ?u"
    using u by (intro mult_right_mono) (simp_all only: of_int_le_iff less_imp_le)
  also have "\<dots> = of_int n * (1 / ?u) * ?u" by (simp only: iu of_int_mult mult.assoc)
  also have "\<dots> = of_int n" using u by simp
  finally show ?thesis using x by (simp add: fl_def Let_def)
qed

lemma fl_nonneg: "x \<ge> 0 \<Longrightarrow> fl x \<ge> 0"
proof -
  assume "x \<ge> 0"
  then have "x / 2 ^ 53 \<le> x" by (simp add: field_simps)
  then show ?thesis using fl_error [OF \<open>x \<ge> 0\<close>] by linarith
qed

section \<open>Signed values and exact operations\<close>

text \<open>Rounding is symmetric.\<close>

definition flt :: "rat \<Rightarrow> rat" where
  "flt x = (if x < 0 then - fl (- x) else fl x)"

text \<open>The multiples of \<open>2^-k\<close> with at most 53 significant bits are represented exactly.\<close>

definition dyadic :: "nat \<Rightarrow> rat \<Rightarrow> bool" where
  "dyadic k x \<longleftrightarrow> x * 2 ^ k \<in> \<int>"

lemma dyadic_add: "dyadic k x \<Longrightarrow> dyadic k y \<Longrightarrow> dyadic k (x + y)"
  by (simp add: dyadic_def distrib_right)

lemma dyadic_0 [simp]: "dyadic k 0"
  by (simp add: dyadic_def)

lemma dyadic_of_int [simp]: "dyadic k (of_int n)"
  by (simp add: dyadic_def)

lemma round_even_int [simp]: "round_even (of_int n) = n"
  by (simp add: round_even_def)

lemma fl_exact:
  assumes "dyadic k x" "0 \<le> x" "x * 2 ^ k < 2 ^ 53"
  shows "fl x = x"
proof (cases "x = 0")
  case False
  with assms(2) have x: "x > 0" by simp
  let ?e = "fl_exponent x"
  let ?u = "2 powi (?e - 52) :: rat"
  from assms(1) obtain n where n: "x * 2 ^ k = of_int n" by (auto simp: dyadic_def elim: Ints_cases)
  have "(2 :: rat) powi (?e + int k) = 2 powi ?e * 2 ^ k" by (simp add: power_int_add)
  also have "\<dots> \<le> x * 2 ^ k" using fl_exponent_le [OF x] by simp
  also have "\<dots> < 2 powi 53" using assms(3) by (simp add: power_int_def)
  finally have "\<not> (2 :: rat) powi 53 \<le> 2 powi (?e + int k)" by simp
  then have e: "?e + int k \<le> 52" using power_int_increasing [of 53 "?e + int k" "2 :: rat"] by fastforce
  have "x / ?u = x * 2 ^ k * 2 powi (52 - ?e - int k)" by (simp add: power_int_diff power_int_add field_simps)
  also have "\<dots> = of_int (n * 2 ^ nat (52 - ?e - int k))" using e by (simp add: n power_int_def)
  finally have m: "x / ?u = of_int (n * 2 ^ nat (52 - ?e - int k))" .
  have "fl x = of_int (round_even (x / ?u)) * ?u" using x by (simp add: fl_def Let_def)
  also have "\<dots> = x / ?u * ?u" unfolding m round_even_int ..
  finally show ?thesis by simp
qed (simp add: fl_def)

lemma flt_exact: "dyadic k x \<Longrightarrow> \<bar>x\<bar> * 2 ^ k < 2 ^ 53 \<Longrightarrow> flt x = x"
  using fl_exact [of k x] fl_exact [of k "- x"] by (auto simp: flt_def dyadic_def)

text \<open>A sum of floats in any order is exact if the sum of their absolute values is small enough.\<close>

lemma flt_fold:
  assumes "\<And>x. x \<in> set xs \<Longrightarrow> dyadic k x" "dyadic k a" "(\<bar>a\<bar> + sum_list (map abs xs)) * 2 ^ k < 2 ^ 53"
  shows "fold (\<lambda>x s. flt (s + x)) xs a = a + sum_list xs"
  using assms
proof (induction xs arbitrary: a)
  case (Cons x xs)
  have d: "dyadic k (a + x)" using Cons.prems(1, 2) by (intro dyadic_add) simp_all
  have nn: "0 \<le> sum_list (map abs xs)" by (intro sum_list_nonneg) auto
  have le: "\<bar>a + x\<bar> + sum_list (map abs xs) \<le> \<bar>a\<bar> + sum_list (map abs (x # xs))" by simp
  have b: "(\<bar>a + x\<bar> + sum_list (map abs xs)) * 2 ^ k < 2 ^ 53"
    by (rule le_less_trans [OF mult_right_mono [OF le] Cons.prems(3)]) simp
  have "\<bar>a + x\<bar> * 2 ^ k \<le> (\<bar>a + x\<bar> + sum_list (map abs xs)) * 2 ^ k" using nn by (intro mult_right_mono) simp_all
  then have "flt (a + x) = a + x" using b by (intro flt_exact [OF d]) (rule le_less_trans)
  with Cons.IH [OF _ d b] Cons.prems(1) show ?case by (simp add: add.assoc)
qed simp

lemma flt_nonneg_eq [simp]: "0 \<le> x \<Longrightarrow> flt x = fl x"
  by (simp add: flt_def)

text \<open>The conversion of a \<open>float64\<close> to an integer drops the fraction.\<close>

definition float_to_int :: "rat \<Rightarrow> int" where
  "float_to_int x = (if x < 0 then \<lceil>x\<rceil> else \<lfloor>x\<rfloor>)"

lemma float_to_int_of_int [simp]: "float_to_int (of_int n) = n"
  by (simp add: float_to_int_def)

text \<open>Whole numbers below \<open>2^53\<close> are computed without rounding.\<close>

lemma flt_code [code]:
  "flt x = (let (n, d) = quotient_of x in if d = 1 \<and> \<bar>n\<bar> < 2 ^ 53 then x else if x < 0 then - fl (- x) else fl x)"
proof -
  obtain n d where q: "quotient_of x = (n, d)" by (cases "quotient_of x")
  have "flt x = x" if "d = 1" "\<bar>n\<bar> < 2 ^ 53"
  proof -
    have x: "x = of_int n" using quotient_of_div [OF q] that(1) by simp
    have "\<bar>x\<bar> < 2 ^ 53" using that(2) of_int_less_iff [where ?'a = rat, of "\<bar>n\<bar>" "2 ^ 53"] by (simp add: x)
    then show ?thesis using flt_exact [of 0 x] by (simp add: x)
  qed
  then show ?thesis by (auto simp: q flt_def Let_def)
qed

section \<open>Rounding by integer division\<close>

lemma fl_exponent_less:
  assumes "x > 0" shows "x < 2 powi (fl_exponent x + 1)"
proof -
  obtain n d where q: "quotient_of x = (n, d)" by (cases "quotient_of x")
  have d: "d > 0" using q by (rule quotient_of_denom_pos)
  have x: "x = of_int n / of_int d" using q by (rule quotient_of_div)
  with assms d have n: "n > 0" by (simp add: zero_less_divide_iff)
  let ?k = "bitlen n - bitlen d"
  have bn: "bitlen n \<ge> 0" and bd: "bitlen d \<ge> 1" using d bitlen_nonneg [of n] bitlen_eq_zero_iff [of d] bitlen_nonneg [of d] by linarith+
  have "(of_int n :: rat) < of_int (2 ^ nat (bitlen n))" using bitlen_bounds [OF n] by (simp only: of_int_less_iff)
  also have "\<dots> = 2 powi bitlen n" using bn by (simp add: power_int_def)
  finally have a: "(of_int n :: rat) < 2 powi bitlen n" .
  have "(2 :: rat) powi (bitlen d - 1) = of_int (2 ^ nat (bitlen d - 1))" using bd by (simp add: power_int_def)
  also have "\<dots> \<le> of_int d" using bitlen_bounds [OF d] by (simp only: of_int_le_iff)
  finally have b: "(2 :: rat) powi (bitlen d - 1) \<le> of_int d" .
  have "x < 2 powi bitlen n / 2 powi (bitlen d - 1)" unfolding x using a b n by (intro frac_less) simp_all
  also have "\<dots> = 2 powi (?k + 1)" by (simp add: power_int_diff [symmetric] algebra_simps)
  finally show ?thesis by (auto simp: fl_exponent_def q Let_def)
qed

definition round_div :: "int \<Rightarrow> int \<Rightarrow> int" where
  "round_div a b = (let f = a div b; r = a mod b in if 2 * r < b then f else if 2 * r > b then f + 1 else if even f then f else f + 1)"

lemma round_even_div: "0 < b \<Longrightarrow> round_even (of_int a / of_int b) = round_div a b"
proof -
  assume b: "0 < b"
  have f: "\<lfloor>of_int a / of_int b :: rat\<rfloor> = a div b" by (rule floor_divide_of_int_eq)
  have "of_int a = (of_int (a div b) * of_int b + of_int (a mod b) :: rat)" by (metis of_int_add of_int_mult div_mult_mod_eq)
  with b have r: "of_int a / of_int b - of_int (a div b) = (of_int (a mod b) / of_int b :: rat)" by (simp add: field_simps)
  have c: "(of_int (a mod b) / of_int b < (1 / 2 :: rat)) = (2 * (a mod b) < b)" "(of_int (a mod b) / of_int b > (1 / 2 :: rat)) = (2 * (a mod b) > b)"
    using b of_int_less_iff [where ?'a = rat, of "2 * (a mod b)" b] of_int_less_iff [where ?'a = rat, of b "2 * (a mod b)"]
    by (simp_all add: field_simps)
  show ?thesis unfolding round_even_def round_div_def Let_def f r c ..
qed

lemma fl_by_division:
  assumes "0 < d" "d * 2 ^ 52 \<le> n * 2 ^ s" "n * 2 ^ s < d * 2 ^ 53"
  shows "fl (of_int n / of_int d) = of_int (round_div (n * 2 ^ s) d) / 2 ^ s"
proof -
  define x :: rat where "x = of_int n / of_int d"
  have d: "(0 :: rat) < of_int d" using assms(1) by simp
  have "0 < d * 2 ^ 52" using assms(1) by simp
  with assms(2) have "0 < n * 2 ^ s" by (rule less_le_trans [rotated])
  then have n: "0 < n" by (simp add: zero_less_mult_iff)
  have x: "0 < x" using n d by (simp add: x_def)
  have lo: "(2 :: rat) ^ 52 \<le> x * 2 ^ s" and hi: "x * 2 ^ s < (2 :: rat) ^ 53"
    using d assms(2, 3) of_int_le_iff [where ?'a = rat, of "d * 2 ^ 52" "n * 2 ^ s"] of_int_less_iff [where ?'a = rat, of "n * 2 ^ s" "d * 2 ^ 53"]
    by (simp_all add: x_def field_simps)
  have e: "fl_exponent x = 52 - int s"
  proof (rule antisym)
    have "(2 :: rat) powi (fl_exponent x + int s) \<le> x * 2 ^ s" using fl_exponent_le [OF x] by (simp add: power_int_add)
    also have "\<dots> < 2 powi 53" using hi by (simp add: power_int_def)
    finally have "\<not> (2 :: rat) powi 53 \<le> 2 powi (fl_exponent x + int s)" by simp
    then show "fl_exponent x \<le> 52 - int s" using power_int_increasing [of 53 "fl_exponent x + int s" "2 :: rat"] by fastforce
    have "(2 :: rat) powi 52 \<le> x * 2 ^ s" using lo by (simp add: power_int_def)
    also have "\<dots> < 2 powi (fl_exponent x + 1 + int s)" using fl_exponent_less [OF x] by (simp add: power_int_add)
    finally have "\<not> (2 :: rat) powi (fl_exponent x + 1 + int s) \<le> 2 powi 52" by simp
    then show "52 - int s \<le> fl_exponent x" using power_int_increasing [of "fl_exponent x + 1 + int s" 52 "2 :: rat"] by fastforce
  qed
  have u: "(2 :: rat) powi (fl_exponent x - 52) = 1 / 2 ^ s" unfolding e by (simp add: power_int_def power_one_over)
  have "fl x = of_int (round_even (of_int (n * 2 ^ s) / of_int d)) * (1 / 2 ^ s)"
    unfolding fl_def Let_def u using x by (simp add: x_def)
  then show ?thesis unfolding round_even_div [OF assms(1)] by (simp add: x_def)
qed

end
