(* ===== verification/Hystrix_Rolling.thy ===== *)
theory Hystrix_Rolling
  imports Go_Float "HOL-Library.Multiset"
begin

text \<open>
  \<open>hystrix-go/hystrix/rolling\<close>: counters and durations in buckets of one second. A Go map from
  timestamps to buckets is an association list; the order of iteration is that of the list, and where it
  matters the theorems speak of every order. \<open>now\<close> is the reading of the clock in nanoseconds since the epoch, one
  reading per operation. The counters are \<open>float64\<close>, with the rounding of every addition;
  the sum of the durations in \<open>Mean\<close> is unbounded (an \<open>int64\<close> holds 292 years of them).
\<close>

section \<open>Time\<close>

definition nanos :: int where
  "nanos = 1000000000"

text \<open>\<open>time.Now().Unix()\<close> for a time after the epoch.\<close>

definition unix :: "int \<Rightarrow> int" where
  "unix now = now div nanos"

section \<open>rolling.go\<close>

type_synonym rolling_number = "(int \<times> rat) list"

definition NewNumber :: rolling_number where
  "NewNumber = []"

text \<open>\<open>getCurrentBucket\<close> creates the bucket of the current second if there is none; adding to its
  value and taking the maximum are the two updates of it.\<close>

definition getCurrentBucket :: "rolling_number \<Rightarrow> int \<Rightarrow> rolling_number" where
  "getCurrentBucket r now = (if map_of r (unix now) = None then (unix now, 0) # r else r)"

definition updateBucket :: "rolling_number \<Rightarrow> int \<Rightarrow> (rat \<Rightarrow> rat) \<Rightarrow> rolling_number" where
  "updateBucket r ts f = map (\<lambda>(t, v). (t, if t = ts then f v else v)) r"

definition removeOldBuckets :: "rolling_number \<Rightarrow> int \<Rightarrow> rolling_number" where
  "removeOldBuckets r now = filter (\<lambda>(t, v). \<not> t \<le> unix now - 10) r"

definition Increment :: "rolling_number \<Rightarrow> int \<Rightarrow> rat \<Rightarrow> rolling_number" where
  "Increment r now i =
     (if i = 0 then r
      else removeOldBuckets (updateBucket (getCurrentBucket r now) (unix now) (\<lambda>v. flt (v + i))) now)"

definition UpdateMax :: "rolling_number \<Rightarrow> int \<Rightarrow> rat \<Rightarrow> rolling_number" where
  "UpdateMax r now n =
     removeOldBuckets (updateBucket (getCurrentBucket r now) (unix now) (\<lambda>v. if n > v then n else v)) now"

definition Sum :: "rolling_number \<Rightarrow> int \<Rightarrow> rat" where
  "Sum r now = fold (\<lambda>(t, v) s. if t \<ge> unix now - 10 then flt (s + v) else s) r 0"

definition Max_of :: "rolling_number \<Rightarrow> int \<Rightarrow> rat" where
  "Max_of r now = fold (\<lambda>(t, v) mx. if t \<ge> unix now - 10 then if v > mx then v else mx else mx) r 0"

definition Avg :: "rolling_number \<Rightarrow> int \<Rightarrow> rat" where
  "Avg r now = flt (Sum r now / 10)"

section \<open>rolling\_timing.go\<close>

record rolling_timing =
  rt_Buckets :: "(int \<times> int list) list"
  rt_CachedSortedDurations :: "int list"
  rt_LastCachedTime :: int

definition NewTiming :: rolling_timing where
  "NewTiming = \<lparr>rt_Buckets = [], rt_CachedSortedDurations = [], rt_LastCachedTime = 0\<rparr>"

definition SortedDurations :: "rolling_timing \<Rightarrow> int \<Rightarrow> int list \<times> rolling_timing" where
  "SortedDurations r now =
     (if rt_LastCachedTime r + nanos > now then (rt_CachedSortedDurations r, r)
      else (let ds = sort (concat (map snd (filter (\<lambda>(t, b). t \<ge> unix now - 60) (rt_Buckets r))))
            in (ds, r\<lparr>rt_CachedSortedDurations := ds, rt_LastCachedTime := now\<rparr>)))"

definition timing_getCurrentBucket :: "rolling_timing \<Rightarrow> int \<Rightarrow> rolling_timing" where
  "timing_getCurrentBucket r now =
     (if map_of (rt_Buckets r) (unix now) = None then r\<lparr>rt_Buckets := (unix now, []) # rt_Buckets r\<rparr> else r)"

definition timing_removeOldBuckets :: "rolling_timing \<Rightarrow> int \<Rightarrow> rolling_timing" where
  "timing_removeOldBuckets r now = r\<lparr>rt_Buckets := filter (\<lambda>(t, b). \<not> t \<le> unix now - 60) (rt_Buckets r)\<rparr>"

definition timing_Add :: "rolling_timing \<Rightarrow> int \<Rightarrow> int \<Rightarrow> rolling_timing" where
  "timing_Add r now duration =
     (let r = timing_getCurrentBucket r now;
          r = r\<lparr>rt_Buckets := map (\<lambda>(t, b). (t, if t = unix now then b @ [duration] else b)) (rt_Buckets r)\<rparr>
      in timing_removeOldBuckets r now)"

definition ordinal :: "int \<Rightarrow> rat \<Rightarrow> int" where
  "ordinal len percentile =
     (if percentile = 0 \<and> len > 0 then 1 else \<lceil>fl (fl (percentile / 100) * of_int len)\<rceil>)"

definition Percentile :: "rolling_timing \<Rightarrow> int \<Rightarrow> rat \<Rightarrow> (u32 \<times> rolling_timing) option" where
  "Percentile r now p =
     (let (ds, r) = SortedDurations r now
      in if length ds \<le> 0 then Some (0, r)
         else do {
           d \<leftarrow> go_nth ds (ordinal (int (length ds)) p - 1);
           q \<leftarrow> go_div d 1000000;
           Some (of_int q, r)
         })"

text \<open>\<open>uint32(sum.Nanoseconds()/length) / 1000000\<close>: the conversion to 32 bits comes first.\<close>

definition timing_Mean :: "rolling_timing \<Rightarrow> int \<Rightarrow> (u32 \<times> rolling_timing) option" where
  "timing_Mean r now =
     (let (ds, r) = SortedDurations r now
      in if length ds = 0 then Some (0, r)
         else do {
           q \<leftarrow> go_div (sum_list ds) (int (length ds));
           Some (of_int q div 1000000, r)
         })"

section \<open>A counter is the sum of its recent events\<close>

text \<open>A history: the times and amounts of the increments, newest first; the clock does not run
  backwards.\<close>

type_synonym history = "(int \<times> rat) list"

fun replay :: "history \<Rightarrow> rolling_number" where
  "replay [] = NewNumber"
| "replay ((now, i) # es) = Increment (replay es) now i"

definition clock_ok :: "history \<Rightarrow> bool" where
  "clock_ok es \<longleftrightarrow> sorted (rev (map fst es))"


text \<open>The second of the last increment that did something.\<close>

fun last_second :: "history \<Rightarrow> int option" where
  "last_second [] = None"
| "last_second ((now, i) # es) = (if i = 0 then last_second es else Some (unix now))"



lemma unix_mono: "a \<le> b \<Longrightarrow> unix a \<le> unix b"
  by (simp add: unix_def nanos_def zdiv_mono1)


lemma keys_updateBucket [simp]: "map fst (updateBucket r ts f) = map fst r"
  by (induction r) (auto simp: updateBucket_def)








lemma last_second_le: "clock_ok es \<Longrightarrow> last_second es = Some l \<Longrightarrow> e \<in> set es \<Longrightarrow> snd e \<noteq> 0 \<Longrightarrow> unix (fst e) \<le> l"
proof (induction es rule: last_second.induct)
  case (2 now i es)
  have "clock_ok es" "\<forall>e \<in> set es. fst e \<le> now" using "2.prems"(1) by (auto simp: clock_ok_def sorted_append)
  with 2 unix_mono show ?case by (auto split: if_splits)
qed simp









section \<open>Properties\<close>






text \<open>The rank of a percentile between 0 and 100 is the rank of an element, whatever the rounding of
  the two \<open>float64\<close> operations: \<open>Percentile\<close> does not panic.\<close>

lemma ordinal_rank:
  assumes "0 \<le> p" "p \<le> 100" "0 < n" "n < 2 ^ 53"
  shows "1 \<le> ordinal n p \<and> ordinal n p \<le> n"
proof (cases "p = 0")
  case True
  with assms(3) show ?thesis by (simp add: ordinal_def)
next
  case False
  let ?q = "fl (p / 100)"
  have q0: "?q > 0" using False assms(1) by (intro fl_pos) simp
  have q1: "?q \<le> 1" using fl_le_int [of "p / 100" 1] assms(2) by simp
  have "?q * of_int n \<le> of_int n" using q1 assms(3) by (simp add: mult_left_le_one_le)
  then have le: "fl (?q * of_int n) \<le> of_int n" using assms(3, 4) by (intro fl_le_int) auto
  have pos: "fl (?q * of_int n) > 0" using q0 assms(3) by (intro fl_pos) simp
  then have "1 \<le> \<lceil>fl (?q * of_int n)\<rceil>" by (simp add: one_le_ceiling)
  moreover have "\<lceil>fl (?q * of_int n)\<rceil> \<le> n" using le by (simp only: ceiling_le_iff)
  ultimately show ?thesis using False by (simp add: ordinal_def)
qed

lemma percentile_returns:
  assumes "0 \<le> p" "p \<le> 100" "length (fst (SortedDurations r now)) < 2 ^ 53"
  shows "\<exists>v. Percentile r now p = Some (v, snd (SortedDurations r now))"
proof -
  obtain ds r' where s: "SortedDurations r now = (ds, r')" by (cases "SortedDurations r now")
  show ?thesis
  proof (cases "ds = []")
    case True
    with s show ?thesis by (simp add: Percentile_def)
  next
    case False
    have "int (length ds) < 2 ^ 53" using assms(3) s by (metis fst_conv of_nat_less_iff of_nat_numeral of_nat_power)
    with ordinal_rank [OF assms(1, 2)] False
    have "1 \<le> ordinal (int (length ds)) p" "ordinal (int (length ds)) p \<le> int (length ds)" by simp_all
    with s False show ?thesis by (simp add: Percentile_def go_nth_def go_div_def)
  qed
qed

text \<open>
  The window is one second longer than documented when nothing happened in the current
  second: ten seconds after an increment it still counts, although eleven buckets are then
  summed.
\<close>

theorem rolling_window_eleven_seconds:
  "Sum (replay [(5 * nanos, 1), (0, 1)]) (10 * nanos) = 2 \<and> unix (10 * nanos) - unix 0 = 10"
  by code_simp

text \<open>
  \<open>Mean\<close> is wrong for averages of \<open>2^32\<close> nanoseconds (4.29 seconds) and more: the conversion to 32
  bits happens before the division. A single duration of five seconds has the mean 705
  milliseconds.
\<close>

theorem timing_mean_wraps:
  "map_option fst (timing_Mean (timing_Add NewTiming (2 * nanos) (5 * nanos)) (3 * nanos)) = Some 705"
  by (simp add: timing_Mean_def timing_Add_def NewTiming_def timing_getCurrentBucket_def timing_removeOldBuckets_def
      SortedDurations_def unix_def nanos_def go_div_def Let_def)

end
