(* ===== verification/Hystrix_Circuit.thy ===== *)
theory Hystrix_Circuit
  imports Hystrix_Rolling
begin

text \<open>
  \<open>hystrix-go/hystrix\<close>: the settings (\<open>settings.go\<close>), the metrics of a circuit (\<open>metrics.go\<close>,
  \<open>metric_collector/default_metric_collector.go\<close>), the pool of tickets (\<open>pool.go\<close>,
  \<open>pool_metrics.go\<close>) and the circuit breaker (\<open>circuit.go\<close>). The operations take the reading of the
  clock, in nanoseconds, as an argument. A circuit has the default collector only, the initial
  content of the registry: the circuit reads no other collector. Logging is left out.
\<close>

section \<open>settings.go\<close>

record settings =
  Timeout :: int
  MaxConcurrentRequests :: int
  RequestVolumeThreshold :: u64
  SleepWindow :: int
  ErrorPercentThreshold :: int

record command_config =
  cc_Timeout :: int
  cc_MaxConcurrentRequests :: int
  cc_RequestVolumeThreshold :: int
  cc_SleepWindow :: int
  cc_ErrorPercentThreshold :: int

type_synonym settings_store = "string \<Rightarrow> settings option"

text \<open>A setting of zero means the default.\<close>

definition or_default :: "int \<Rightarrow> int \<Rightarrow> int" where
  "or_default v d = (if v \<noteq> 0 then v else d)"

definition ConfigureCommand :: "settings_store \<Rightarrow> string \<Rightarrow> command_config \<Rightarrow> settings_store" where
  "ConfigureCommand m name config = m(name \<mapsto>
     \<lparr>Timeout = s64 (or_default (cc_Timeout config) 1000 * 1000000),
      MaxConcurrentRequests = or_default (cc_MaxConcurrentRequests config) 10,
      RequestVolumeThreshold = of_int (or_default (cc_RequestVolumeThreshold config) 20),
      SleepWindow = s64 (or_default (cc_SleepWindow config) 5000 * 1000000),
      ErrorPercentThreshold = or_default (cc_ErrorPercentThreshold config) 50\<rparr>)"

definition Configure :: "settings_store \<Rightarrow> (string \<times> command_config) list \<Rightarrow> settings_store" where
  "Configure m cmds = fold (\<lambda>(k, v) m. ConfigureCommand m k v) cmds m"

definition zero_config :: command_config where
  "zero_config = \<lparr>cc_Timeout = 0, cc_MaxConcurrentRequests = 0, cc_RequestVolumeThreshold = 0, cc_SleepWindow = 0,
     cc_ErrorPercentThreshold = 0\<rparr>"

partial_function (option) getSettings :: "settings_store \<Rightarrow> string \<Rightarrow> (settings \<times> settings_store) option" where
  "getSettings m name =
     (case m name of
        Some s \<Rightarrow> Some (s, m)
      | None \<Rightarrow> getSettings (ConfigureCommand m name zero_config) name)"

declare getSettings.simps [code]

lemma getSettings_known: "m name = Some s \<Longrightarrow> getSettings m name = Some (s, m)"
  by (simp add: getSettings.simps)

lemma getSettings_total: "\<exists>s m'. getSettings m name = Some (s, m') \<and> m' name = Some s \<and> (\<forall>n. n \<noteq> name \<longrightarrow> m' n = m n)"
proof (cases "m name")
  case None
  have "ConfigureCommand m name zero_config name \<noteq> None" by (simp add: ConfigureCommand_def)
  then obtain s where s: "ConfigureCommand m name zero_config name = Some s" by blast
  have "getSettings m name = getSettings (ConfigureCommand m name zero_config) name"
    by (subst getSettings.simps) (simp add: None)
  with getSettings_known [of "ConfigureCommand m name zero_config" name s] s show ?thesis by (simp add: ConfigureCommand_def)
qed (simp add: getSettings_known)

section \<open>default\_metric\_collector.go and metric\_collector.go\<close>

record metric_result =
  mr_Attempts :: rat
  mr_Errors :: rat
  mr_Successes :: rat
  mr_Failures :: rat
  mr_Rejects :: rat
  mr_ShortCircuits :: rat
  mr_Timeouts :: rat
  mr_FallbackSuccesses :: rat
  mr_FallbackFailures :: rat
  mr_ContextCanceled :: rat
  mr_ContextDeadlineExceeded :: rat
  mr_TotalDuration :: int
  mr_RunDuration :: int
  mr_ConcurrencyInUse :: rat

record collector =
  dc_numRequests :: rolling_number
  dc_errors :: rolling_number
  dc_successes :: rolling_number
  dc_failures :: rolling_number
  dc_rejects :: rolling_number
  dc_shortCircuits :: rolling_number
  dc_timeouts :: rolling_number
  dc_contextCanceled :: rolling_number
  dc_contextDeadlineExceeded :: rolling_number
  dc_fallbackSuccesses :: rolling_number
  dc_fallbackFailures :: rolling_number
  dc_totalDuration :: rolling_timing
  dc_runDuration :: rolling_timing

definition dc_Reset :: collector where
  "dc_Reset = \<lparr>dc_numRequests = NewNumber, dc_errors = NewNumber, dc_successes = NewNumber, dc_failures = NewNumber,
     dc_rejects = NewNumber, dc_shortCircuits = NewNumber, dc_timeouts = NewNumber, dc_contextCanceled = NewNumber,
     dc_contextDeadlineExceeded = NewNumber, dc_fallbackSuccesses = NewNumber, dc_fallbackFailures = NewNumber,
     dc_totalDuration = NewTiming, dc_runDuration = NewTiming\<rparr>"

definition dc_Update :: "collector \<Rightarrow> int \<Rightarrow> metric_result \<Rightarrow> collector" where
  "dc_Update d now r =
     \<lparr>dc_numRequests = Increment (dc_numRequests d) now (mr_Attempts r),
      dc_errors = Increment (dc_errors d) now (mr_Errors r),
      dc_successes = Increment (dc_successes d) now (mr_Successes r),
      dc_failures = Increment (dc_failures d) now (mr_Failures r),
      dc_rejects = Increment (dc_rejects d) now (mr_Rejects r),
      dc_shortCircuits = Increment (dc_shortCircuits d) now (mr_ShortCircuits r),
      dc_timeouts = Increment (dc_timeouts d) now (mr_Timeouts r),
      dc_contextCanceled = Increment (dc_contextCanceled d) now (mr_ContextCanceled r),
      dc_contextDeadlineExceeded = Increment (dc_contextDeadlineExceeded d) now (mr_ContextDeadlineExceeded r),
      dc_fallbackSuccesses = Increment (dc_fallbackSuccesses d) now (mr_FallbackSuccesses r),
      dc_fallbackFailures = Increment (dc_fallbackFailures d) now (mr_FallbackFailures r),
      dc_totalDuration = timing_Add (dc_totalDuration d) now (mr_TotalDuration r),
      dc_runDuration = timing_Add (dc_runDuration d) now (mr_RunDuration r)\<rparr>"

section \<open>metrics.go\<close>

record command_execution =
  ce_Types :: "string list"
  ce_Start :: int
  ce_RunDuration :: int
  ce_ConcurrencyInUse :: rat

text \<open>The channel \<open>Updates\<close> has the capacity 2000.\<close>

record metric_exchange =
  mx_Name :: string
  mx_Updates :: "command_execution list"
  mx_collector :: collector

definition newMetricExchange :: "string \<Rightarrow> metric_exchange" where
  "newMetricExchange name = \<lparr>mx_Name = name, mx_Updates = [], mx_collector = dc_Reset\<rparr>"

definition one_if :: "bool \<Rightarrow> rat" where
  "one_if b = (if b then 1 else 0)"

text \<open>The result that \<open>IncrementMetrics\<close> hands to the collector; \<open>None\<close> is the panic on an empty list of
  types.\<close>

definition metricResult :: "command_execution \<Rightarrow> int \<Rightarrow> metric_result option" where
  "metricResult update totalDuration = do {
     t \<leftarrow> go_nth (ce_Types update) 0;
     let fb = (if length (ce_Types update) > 1 then ce_Types update ! 1 else '''');
     Some \<lparr>mr_Attempts = 1,
       mr_Errors = one_if (t \<in> {''failure'', ''rejected'', ''short-circuit'', ''timeout''}),
       mr_Successes = one_if (t = ''success''),
       mr_Failures = one_if (t = ''failure''),
       mr_Rejects = one_if (t = ''rejected''),
       mr_ShortCircuits = one_if (t = ''short-circuit''),
       mr_Timeouts = one_if (t = ''timeout''),
       mr_FallbackSuccesses = one_if (fb = ''fallback-success''),
       mr_FallbackFailures = one_if (fb = ''fallback-failure''),
       mr_ContextCanceled = one_if (t = ''context_canceled''),
       mr_ContextDeadlineExceeded = one_if (t = ''context_deadline_exceeded''),
       mr_TotalDuration = totalDuration,
       mr_RunDuration = ce_RunDuration update,
       mr_ConcurrencyInUse = ce_ConcurrencyInUse update\<rparr>
   }"

definition IncrementMetrics :: "collector \<Rightarrow> int \<Rightarrow> command_execution \<Rightarrow> int \<Rightarrow> collector option" where
  "IncrementMetrics d now update totalDuration = map_option (dc_Update d now) (metricResult update totalDuration)"

text \<open>One round of the loop of \<open>Monitor\<close>: \<open>None\<close> if there is no update to receive.\<close>

definition mx_Monitor :: "metric_exchange \<Rightarrow> int \<Rightarrow> metric_exchange option" where
  "mx_Monitor x now =
     (case mx_Updates x of
        [] \<Rightarrow> None
      | u # us \<Rightarrow> do {
          d \<leftarrow> IncrementMetrics (mx_collector x) now u (now - ce_Start u);
          Some (x\<lparr>mx_Updates := us, mx_collector := d\<rparr>)
        })"

definition mx_Reset :: "metric_exchange \<Rightarrow> metric_exchange" where
  "mx_Reset x = x\<lparr>mx_collector := dc_Reset\<rparr>"

definition mx_Requests :: "metric_exchange \<Rightarrow> rolling_number" where
  "mx_Requests x = dc_numRequests (mx_collector x)"

definition ErrorPercent :: "metric_exchange \<Rightarrow> int \<Rightarrow> int" where
  "ErrorPercent x now =
     (let reqs = Sum (mx_Requests x) now; errs = Sum (dc_errors (mx_collector x)) now;
          errPct = (if reqs > 0 then flt (flt (errs / reqs) * 100) else 0)
      in float_to_int (flt (errPct + 1 / 2)))"

definition IsHealthy :: "settings_store \<Rightarrow> metric_exchange \<Rightarrow> int \<Rightarrow> (bool \<times> settings_store) option" where
  "IsHealthy m x now = do {
     (st, m) \<leftarrow> getSettings m (mx_Name x);
     Some (ErrorPercent x now < ErrorPercentThreshold st, m)
   }"

section \<open>pool.go and pool\_metrics.go\<close>

record pool_metrics =
  pm_MaxActiveRequests :: rolling_number
  pm_Executed :: rolling_number

definition pm_Reset :: pool_metrics where
  "pm_Reset = \<lparr>pm_MaxActiveRequests = NewNumber, pm_Executed = NewNumber\<rparr>"

text \<open>One round of the loop of \<open>Monitor\<close>; the channel is not buffered, so the round follows the send.\<close>

definition pm_Monitor :: "pool_metrics \<Rightarrow> int \<Rightarrow> int \<Rightarrow> pool_metrics" where
  "pm_Monitor m now activeCount =
     \<lparr>pm_MaxActiveRequests = UpdateMax (pm_MaxActiveRequests m) now (of_int activeCount),
      pm_Executed = Increment (pm_Executed m) now 1\<rparr>"

text \<open>The tickets in the channel are all alike: their number is kept.\<close>

record executor_pool =
  ep_Name :: string
  ep_Metrics :: pool_metrics
  ep_Max :: int
  ep_Tickets :: int

text \<open>\<open>make\<close> panics for a negative capacity.\<close>

definition newExecutorPool :: "settings_store \<Rightarrow> string \<Rightarrow> (executor_pool \<times> settings_store) option" where
  "newExecutorPool m name = do {
     (st, m) \<leftarrow> getSettings m name;
     let mx = MaxConcurrentRequests st;
     if mx < 0 then None
     else Some (\<lparr>ep_Name = name, ep_Metrics = pm_Reset, ep_Max = mx, ep_Tickets = mx\<rparr>, m)
   }"

definition ActiveCount :: "executor_pool \<Rightarrow> int" where
  "ActiveCount p = ep_Max p - ep_Tickets p"

text \<open>\<open>ticket\<close> tells whether the pointer is not nil; \<open>None\<close> if the send to the channel blocks.\<close>

definition ep_Return :: "executor_pool \<Rightarrow> int \<Rightarrow> bool \<Rightarrow> executor_pool option" where
  "ep_Return p now ticket =
     (if \<not> ticket then Some p
      else let p = p\<lparr>ep_Metrics := pm_Monitor (ep_Metrics p) now (ActiveCount p)\<rparr>
           in if ep_Tickets p < ep_Max p then Some (p\<lparr>ep_Tickets := ep_Tickets p + 1\<rparr>) else None)"

section \<open>circuit.go\<close>

record circuit =
  cb_Name :: string
  cb_open :: bool
  cb_forceOpen :: bool
  cb_openedOrLastTestedTime :: int
  cb_executorPool :: executor_pool
  cb_metrics :: metric_exchange

definition newCircuitBreaker :: "settings_store \<Rightarrow> string \<Rightarrow> (circuit \<times> settings_store) option" where
  "newCircuitBreaker m name = do {
     (p, m) \<leftarrow> newExecutorPool m name;
     Some (\<lparr>cb_Name = name, cb_open = False, cb_forceOpen = False, cb_openedOrLastTestedTime = 0,
             cb_executorPool = p, cb_metrics = newMetricExchange name\<rparr>, m)
   }"

text \<open>The registry of circuits. The second component of the result is whether the call created the
  circuit.\<close>

type_synonym circuits = "string \<Rightarrow> circuit option"

definition GetCircuit :: "circuits \<Rightarrow> settings_store \<Rightarrow> string \<Rightarrow> (circuit \<times> bool \<times> circuits \<times> settings_store) option" where
  "GetCircuit cbs m name =
     (case cbs name of
        Some c \<Rightarrow> Some (c, False, cbs, m)
      | None \<Rightarrow> do {
          (c, m) \<leftarrow> newCircuitBreaker m name;
          Some (c, True, cbs(name \<mapsto> c), m)
        })"

text \<open>\<open>Flush\<close> resets the metrics of the circuits, which commands in flight still use, and forgets them.
  The result holds the reset circuits and the empty registry.\<close>

definition Flush :: "circuits \<Rightarrow> circuits \<times> circuits" where
  "Flush cbs =
     (\<lambda>name. map_option (\<lambda>c. c\<lparr>cb_metrics := mx_Reset (cb_metrics c),
        cb_executorPool := (cb_executorPool c)\<lparr>ep_Metrics := pm_Reset\<rparr>\<rparr>) (cbs name), Map.empty)"

definition toggleForceOpen :: "circuits \<Rightarrow> settings_store \<Rightarrow> circuit \<Rightarrow> bool \<Rightarrow> (circuits \<times> settings_store) option" where
  "toggleForceOpen cbs m c toggle = do {
     (c, _, cbs, m) \<leftarrow> GetCircuit cbs m (cb_Name c);
     Some (cbs(cb_Name c \<mapsto> c\<lparr>cb_forceOpen := toggle\<rparr>), m)
   }"

definition setOpen :: "circuit \<Rightarrow> int \<Rightarrow> circuit" where
  "setOpen c now = (if cb_open c then c else c\<lparr>cb_openedOrLastTestedTime := now, cb_open := True\<rparr>)"

definition setClose :: "circuit \<Rightarrow> circuit" where
  "setClose c = (if \<not> cb_open c then c else c\<lparr>cb_open := False, cb_metrics := mx_Reset (cb_metrics c)\<rparr>)"

definition IsOpen :: "settings_store \<Rightarrow> circuit \<Rightarrow> int \<Rightarrow> (bool \<times> settings_store \<times> circuit) option" where
  "IsOpen m c now =
     (if cb_forceOpen c \<or> cb_open c then Some (True, m, c)
      else do {
        (st, m) \<leftarrow> getSettings m (cb_Name c);
        if of_int (float_to_int (Sum (mx_Requests (cb_metrics c)) now)) < RequestVolumeThreshold st then Some (False, m, c)
        else do {
          (healthy, m) \<leftarrow> IsHealthy m (cb_metrics c) now;
          if \<not> healthy then Some (True, m, setOpen c now) else Some (False, m, c)
        }
      })"

text \<open>\<open>allowSingleTest\<close> in two parts: the comparison, and the atomic compare and swap of the time.\<close>

definition testDue :: "settings \<Rightarrow> circuit \<Rightarrow> int \<Rightarrow> bool" where
  "testDue st c now \<longleftrightarrow> cb_open c \<and> now > s64 (cb_openedOrLastTestedTime c + SleepWindow st)"

definition casTested :: "circuit \<Rightarrow> int \<Rightarrow> int \<Rightarrow> bool \<times> circuit" where
  "casTested c old new =
     (if cb_openedOrLastTestedTime c = old then (True, c\<lparr>cb_openedOrLastTestedTime := new\<rparr>) else (False, c))"

definition allowSingleTest :: "settings_store \<Rightarrow> circuit \<Rightarrow> int \<Rightarrow> (bool \<times> settings_store \<times> circuit) option" where
  "allowSingleTest m c now =
     (if cb_open c then do {
        (st, m) \<leftarrow> getSettings m (cb_Name c);
        if testDue st c now then
          let (swapped, c) = casTested c (cb_openedOrLastTestedTime c) now in Some (swapped, m, c)
        else Some (False, m, c)
      } else Some (False, m, c))"

definition AllowRequest :: "settings_store \<Rightarrow> circuit \<Rightarrow> int \<Rightarrow> (bool \<times> settings_store \<times> circuit) option" where
  "AllowRequest m c now = do {
     (opened, m, c) \<leftarrow> IsOpen m c now;
     if \<not> opened then Some (True, m, c) else allowSingleTest m c now
   }"

datatype report_error = NoEventTypes | MetricsAtCapacity

definition concurrencyInUse :: "executor_pool \<Rightarrow> rat" where
  "concurrencyInUse p = (if ep_Max p > 0 then fl (of_int (ActiveCount p) / of_int (ep_Max p)) else 0)"

text \<open>The send of \<open>ReportEvent\<close>, which does not block.\<close>

definition sendUpdate :: "circuit \<Rightarrow> string list \<Rightarrow> int \<Rightarrow> int \<Rightarrow> report_error option \<times> circuit" where
  "sendUpdate c eventTypes start runDuration =
     (let u = \<lparr>ce_Types = eventTypes, ce_Start = start, ce_RunDuration = runDuration,
               ce_ConcurrencyInUse = concurrencyInUse (cb_executorPool c)\<rparr>; x = cb_metrics c
      in if length (mx_Updates x) < 2000 then (None, c\<lparr>cb_metrics := x\<lparr>mx_Updates := mx_Updates x @ [u]\<rparr>\<rparr>)
         else (Some MetricsAtCapacity, c))"

definition ReportEvent :: "circuit \<Rightarrow> string list \<Rightarrow> int \<Rightarrow> int \<Rightarrow> report_error option \<times> circuit" where
  "ReportEvent c eventTypes start runDuration =
     (if length eventTypes = 0 then (Some NoEventTypes, c)
      else sendUpdate (if hd eventTypes = ''success'' \<and> cb_open c then setClose c else c) eventTypes start runDuration)"

section \<open>The error percentage\<close>















section \<open>Properties of the circuit\<close>


definition sample_settings :: settings_store where
  "sample_settings = ConfigureCommand Map.empty ''c'' zero_config"

text \<open>The executions with the given types, processed by the monitor one after the other at the given
  times.\<close>

fun monitor_all :: "collector \<Rightarrow> (int \<times> string list) list \<Rightarrow> collector option" where
  "monitor_all d [] = Some d"
| "monitor_all d ((now, types) # es) = do {
     d \<leftarrow> IncrementMetrics d now \<lparr>ce_Types = types, ce_Start = now, ce_RunDuration = 0, ce_ConcurrencyInUse = 0\<rparr> 0;
     monitor_all d es
   }"

definition sample_circuit :: "collector \<Rightarrow> circuit" where
  "sample_circuit d =
     \<lparr>cb_Name = ''c'', cb_open = False, cb_forceOpen = False, cb_openedOrLastTestedTime = 0,
      cb_executorPool = \<lparr>ep_Name = ''c'', ep_Metrics = pm_Reset, ep_Max = 10, ep_Tickets = 10\<rparr>,
      cb_metrics = \<lparr>mx_Name = ''c'', mx_Updates = [], mx_collector = d\<rparr>\<rparr>"



text \<open>
  The counts of requests and of errors do not cover the same window, since an execution without
  error does not remove old buckets of errors. After 19 failures in one second and 20 successes ten
  seconds later, the circuit opens: 20 requests are counted but still 19 errors, although no request of
  the last ten seconds failed, and fewer than half of all requests.
\<close>

theorem circuit_trips_on_old_errors:
  "do { d \<leftarrow> monitor_all dc_Reset (replicate 19 (nanos, [''failure'']) @ replicate 20 (11 * nanos, [''success'']));
        (opened, _) \<leftarrow> IsOpen sample_settings (sample_circuit d) (11 * nanos);
        Some (Sum (dc_numRequests d) (11 * nanos), Sum (dc_errors d) (11 * nanos), opened) } = Some (20, 19, True)"
  by code_simp

end
