(* ===== verification/Hystrix_Command.thy ===== *)
theory Hystrix_Command
  imports Hystrix_Circuit
begin

text \<open>
  \<open>hystrix-go/hystrix/hystrix.go\<close>: the commands of one circuit as a concurrent program. Each
  command has two goroutines, the one that executes \<open>run\<close> and the one that waits for its end, a
  timeout or the end of the context; \<open>returnOnce\<close> lets only the first of them give the ticket back,
  call the fallback and report. A goroutine is at one of the points where it can be
  interrupted, and a critical section is one step. The results of \<open>run\<close> and of the fallback, and
  the branch that \<open>select\<close> takes, are given from outside. The channel returned to the caller keeps
  what was sent to it. The settings of the circuit are fixed.
\<close>

section \<open>The state\<close>

datatype 'e hx_error =
  ErrMaxConcurrency | ErrCircuitOpen | ErrTimeout | CtxCanceled | CtxDeadlineExceeded
| RunError 'e
| FallbackFailed "'e hx_error" "'e hx_error"

datatype once = Fresh | Busy | Over

text \<open>The points of the two goroutines; those from \<open>Once\<close> on are shared. \<open>Once r start\<close> is the call of
  \<open>returnOnce.Do\<close> with the result \<open>r\<close> and the time \<open>run\<close> started.\<close>

datatype 'e hx_pc =
  MIsOpen | MSetOpen | MTest | MCas int int | MDenied | MTicket | MRun int
| WStart | WSelect int
| Once "'e hx_error option" "int option"
| ReturnTicket "'e hx_error option" | Fallback "'e hx_error" | FallbackRun "'e hx_error" | Success
| Report | ReportClose bool | ReportSend
| Finish | Done

record 'e cmd =
  cmd_start :: int
  cmd_ticket :: bool
  cmd_ticketChecked :: bool
  cmd_once :: once
  cmd_fallback :: bool
  cmd_ctx :: "'e hx_error option"
  cmd_errChan :: "'e hx_error list"
  cmd_finished :: nat
  cmd_events :: "string list"
  cmd_runDuration :: int
  cmd_main :: "'e hx_pc"
  cmd_watch :: "'e hx_pc"

text \<open>The log records when the circuit was opened and when a request was let through nevertheless; the
  program does not read it.\<close>

datatype trip = Opened int | Tested int


record 'e hx =
  hx_settings :: settings
  hx_circuit :: circuit
  hx_cmds :: "nat \<Rightarrow> 'e cmd option"
  hx_now :: int
  hx_log :: "trip list"

section \<open>The steps\<close>

text \<open>\<open>GoC\<close> up to the start of the goroutines.\<close>

definition GoC :: "int \<Rightarrow> bool \<Rightarrow> 'e cmd" where
  "GoC now fallback =
     \<lparr>cmd_start = now, cmd_ticket = False, cmd_ticketChecked = False, cmd_once = Fresh, cmd_fallback = fallback,
      cmd_ctx = None, cmd_errChan = [], cmd_finished = 0, cmd_events = [], cmd_runDuration = 0,
      cmd_main = MIsOpen, cmd_watch = WStart\<rparr>"

definition eventType :: "'e hx_error \<Rightarrow> string" where
  "eventType err =
     (case err of
        ErrCircuitOpen \<Rightarrow> ''short-circuit''
      | ErrMaxConcurrency \<Rightarrow> ''rejected''
      | ErrTimeout \<Rightarrow> ''timeout''
      | CtxCanceled \<Rightarrow> ''context_canceled''
      | CtxDeadlineExceeded \<Rightarrow> ''context_deadline_exceeded''
      | _ \<Rightarrow> ''failure'')"

definition cmd_reportEvent :: "'e cmd \<Rightarrow> string \<Rightarrow> 'e cmd" where
  "cmd_reportEvent c t = c\<lparr>cmd_events := cmd_events c @ [t]\<rparr>"

text \<open>\<open>tryFallback\<close> with the result of the fallback function, if there is one.\<close>

definition tryFallback :: "'e cmd \<Rightarrow> 'e hx_error \<Rightarrow> 'e hx_error option \<Rightarrow> 'e hx_error option \<times> 'e cmd" where
  "tryFallback c err result =
     (if \<not> cmd_fallback c then (Some err, c)
      else case result of
        Some fallbackErr \<Rightarrow> (Some (FallbackFailed fallbackErr err), cmd_reportEvent c ''fallback-failure'')
      | None \<Rightarrow> (None, cmd_reportEvent c ''fallback-success''))"

text \<open>The end of \<open>errorWithFallback\<close>: the error is sent, \<open>None\<close> if the channel is full.\<close>

definition sendError :: "'e cmd \<Rightarrow> 'e hx_error option \<Rightarrow> 'e cmd option" where
  "sendError c err =
     (case err of
        None \<Rightarrow> Some c
      | Some e \<Rightarrow> if length (cmd_errChan c) < 1 then Some (c\<lparr>cmd_errChan := cmd_errChan c @ [e]\<rparr>) else None)"

datatype 'e choice =
  NoChoice | RunReturns "'e hx_error option" | FallbackReturns "'e hx_error option"
| TakeFinished | TakeCtx | TakeTimer

text \<open>A writer of the circuit's lock waits for the readers between the load and the swap.\<close>

definition no_readers :: "(nat \<Rightarrow> 'e cmd option) \<Rightarrow> bool" where
  "no_readers cmds \<longleftrightarrow> (\<forall>i c old new. cmds i = Some c \<longrightarrow> cmd_main c \<noteq> MCas old new)"

text \<open>What follows the call of \<open>returnOnce.Do\<close>.\<close>

definition after_once :: "bool \<Rightarrow> 'e hx_pc" where
  "after_once main = (if main then Finish else Done)"

text \<open>A step of the first goroutine (\<open>main\<close>) or of the second one of the command \<open>c\<close>, which is at
  \<open>pc\<close>: the new circuit, command and point, or \<open>None\<close> if it cannot proceed. \<open>free\<close> tells that the lock of the
  circuit can be taken for writing.\<close>

definition go_step ::
  "settings \<Rightarrow> int \<Rightarrow> bool \<Rightarrow> circuit \<Rightarrow> 'e cmd \<Rightarrow> bool \<Rightarrow> 'e hx_pc \<Rightarrow> 'e choice \<Rightarrow> (circuit \<times> 'e cmd \<times> 'e hx_pc) option" where
  "go_step st now free cb c main pc ch =
     (case pc of
        MIsOpen \<Rightarrow>
          if cb_forceOpen cb \<or> cb_open cb then Some (cb, c, MTest)
          else if of_int (float_to_int (Sum (mx_Requests (cb_metrics cb)) now)) < RequestVolumeThreshold st then Some (cb, c, MTicket)
          else if \<not> ErrorPercent (cb_metrics cb) now < ErrorPercentThreshold st then Some (cb, c, MSetOpen)
          else Some (cb, c, MTicket)
      | MSetOpen \<Rightarrow> if free then Some (setOpen cb now, c, MTest) else None
      | MTest \<Rightarrow> if testDue st cb now then Some (cb, c, MCas (cb_openedOrLastTestedTime cb) now) else Some (cb, c, MDenied)
      | MCas old new \<Rightarrow> (let (swapped, cb) = casTested cb old new in Some (cb, c, if swapped then MTicket else MDenied))
      | MDenied \<Rightarrow> Some (cb, c\<lparr>cmd_ticketChecked := True\<rparr>, Once (Some ErrCircuitOpen) None)
      | MTicket \<Rightarrow>
          (let p = cb_executorPool cb
           in if ep_Tickets p > 0
              then Some (cb\<lparr>cb_executorPool := p\<lparr>ep_Tickets := ep_Tickets p - 1\<rparr>\<rparr>,
                         c\<lparr>cmd_ticket := True, cmd_ticketChecked := True\<rparr>, MRun now)
              else Some (cb, c\<lparr>cmd_ticketChecked := True\<rparr>, Once (Some ErrMaxConcurrency) None))
      | MRun start \<Rightarrow> (case ch of RunReturns r \<Rightarrow> Some (cb, c, Once r (Some start)) | _ \<Rightarrow> None)
      | WStart \<Rightarrow> Some (cb, c, WSelect (now + Timeout st))
      | WSelect deadline \<Rightarrow>
          (case ch of
             TakeFinished \<Rightarrow> if cmd_finished c > 0 then Some (cb, c\<lparr>cmd_finished := cmd_finished c - 1\<rparr>, Done) else None
           | TakeCtx \<Rightarrow> map_option (\<lambda>e. (cb, c, Once (Some e) None)) (cmd_ctx c)
           | TakeTimer \<Rightarrow> if now \<ge> deadline then Some (cb, c, Once (Some ErrTimeout) None) else None
           | _ \<Rightarrow> None)
      | Once r start \<Rightarrow>
          (case cmd_once c of
             Fresh \<Rightarrow> Some (cb, c\<lparr>cmd_once := Busy,
               cmd_runDuration := (case start of Some t \<Rightarrow> now - t | None \<Rightarrow> cmd_runDuration c)\<rparr>, ReturnTicket r)
           | Busy \<Rightarrow> None
           | Over \<Rightarrow> Some (cb, c, after_once main))
      | ReturnTicket r \<Rightarrow>
          if \<not> cmd_ticketChecked c then None
          else do {
            p \<leftarrow> ep_Return (cb_executorPool cb) now (cmd_ticket c);
            Some (cb\<lparr>cb_executorPool := p\<rparr>, c, case r of None \<Rightarrow> Success | Some e \<Rightarrow> Fallback e)
          }
      | Fallback e \<Rightarrow> Some (cb, cmd_reportEvent c (eventType e), FallbackRun e)
      | FallbackRun e \<Rightarrow>
          if \<not> cmd_fallback c then
            map_option (\<lambda>c. (cb, c, Report)) (sendError (snd (tryFallback c e None)) (fst (tryFallback c e None)))
          else (case ch of
              FallbackReturns r \<Rightarrow>
                map_option (\<lambda>c. (cb, c, Report)) (sendError (snd (tryFallback c e r)) (fst (tryFallback c e r)))
            | _ \<Rightarrow> None)
      | Success \<Rightarrow> Some (cb, cmd_reportEvent c ''success'', Report)
      | Report \<Rightarrow>
          if length (cmd_events c) = 0 then Some (cb, c\<lparr>cmd_once := Over\<rparr>, after_once main)
          else Some (cb, c, ReportClose (hd (cmd_events c) = ''success'' \<and> cb_open cb))
      | ReportClose close \<Rightarrow>
          if close then if free then Some (setClose cb, c, ReportSend) else None else Some (cb, c, ReportSend)
      | ReportSend \<Rightarrow>
          Some (snd (sendUpdate cb (cmd_events c) (cmd_start c) (cmd_runDuration c)), c\<lparr>cmd_once := Over\<rparr>, after_once main)
      | Finish \<Rightarrow> if cmd_finished c < 1 then Some (cb, c\<lparr>cmd_finished := cmd_finished c + 1\<rparr>, Done) else None
      | Done \<Rightarrow> None)"

text \<open>What a step from \<open>cb\<close> and \<open>pc\<close> to \<open>cb'\<close> and \<open>pc'\<close> adds to the log: the opening of the circuit, and every request that
  \<open>AllowRequest\<close> lets through, to \<open>MTicket\<close>, while the circuit is open or forced open, with the time at which it asked.\<close>

definition log_of :: "circuit \<Rightarrow> circuit \<Rightarrow> int \<Rightarrow> 'e hx_pc \<Rightarrow> 'e hx_pc \<Rightarrow> trip list" where
  "log_of cb cb' now pc pc' =
     (if pc' = MTicket \<and> (cb_open cb \<or> cb_forceOpen cb) then [Tested (case pc of MCas old new \<Rightarrow> new | _ \<Rightarrow> now)]
      else if \<not> cb_open cb \<and> cb_open cb' then [Opened now] else [])"

definition pc_of :: "bool \<Rightarrow> 'e cmd \<Rightarrow> 'e hx_pc" where
  "pc_of main c = (if main then cmd_main c else cmd_watch c)"

definition set_pc_of :: "bool \<Rightarrow> 'e hx_pc \<Rightarrow> 'e cmd \<Rightarrow> 'e cmd" where
  "set_pc_of main pc c = (if main then c\<lparr>cmd_main := pc\<rparr> else c\<lparr>cmd_watch := pc\<rparr>)"

definition cmd_step :: "'e hx \<Rightarrow> nat \<Rightarrow> bool \<Rightarrow> 'e choice \<Rightarrow> 'e hx option" where
  "cmd_step s i main ch = do {
     c \<leftarrow> hx_cmds s i;
     (cb, c', pc) \<leftarrow> go_step (hx_settings s) (hx_now s) (no_readers (hx_cmds s)) (hx_circuit s) c main (pc_of main c) ch;
     Some (s\<lparr>hx_circuit := cb, hx_cmds := (hx_cmds s)(i \<mapsto> set_pc_of main pc c'),
             hx_log := log_of (hx_circuit s) cb (hx_now s) (pc_of main c) pc @ hx_log s\<rparr>)
   }"

text \<open>The steps of the program itself: those of the goroutines and of the monitor of the metrics.\<close>

inductive hx_int :: "'e hx \<Rightarrow> 'e hx \<Rightarrow> bool" where
  cmd: "cmd_step s i main ch = Some s' \<Longrightarrow> hx_int s s'"
| monitor: "mx_Monitor (cb_metrics (hx_circuit s)) (hx_now s) = Some x \<Longrightarrow>
    hx_int s (s\<lparr>hx_circuit := (hx_circuit s)\<lparr>cb_metrics := x\<rparr>\<rparr>)"

text \<open>The surroundings start commands, let time pass, end contexts, force the circuit open and flush
  the metrics. The clock is read for less than \<open>2^62\<close> nanoseconds, 146 years.\<close>

inductive hx_step :: "'e hx \<Rightarrow> 'e hx \<Rightarrow> bool" where
  internal: "hx_int s s' \<Longrightarrow> hx_step s s'"
| start: "hx_cmds s i = None \<Longrightarrow> hx_step s (s\<lparr>hx_cmds := (hx_cmds s)(i \<mapsto> GoC (hx_now s) fallback)\<rparr>)"
| tick: "hx_now s \<le> t \<Longrightarrow> t < 2 ^ 62 \<Longrightarrow> hx_step s (s\<lparr>hx_now := t\<rparr>)"
| ctx: "hx_cmds s i = Some c \<Longrightarrow> e \<in> {CtxCanceled, CtxDeadlineExceeded} \<Longrightarrow>
    hx_step s (s\<lparr>hx_cmds := (hx_cmds s)(i \<mapsto> c\<lparr>cmd_ctx := Some e\<rparr>)\<rparr>)"
| force: "hx_step s (s\<lparr>hx_circuit := (hx_circuit s)\<lparr>cb_forceOpen := b\<rparr>\<rparr>)"
| flush: "hx_step s (s\<lparr>hx_circuit := (hx_circuit s)\<lparr>cb_metrics := mx_Reset (cb_metrics (hx_circuit s)),
    cb_executorPool := (cb_executorPool (hx_circuit s))\<lparr>ep_Metrics := pm_Reset\<rparr>\<rparr>\<rparr>)"

definition hx_init :: "settings \<Rightarrow> string \<Rightarrow> int \<Rightarrow> 'e hx option" where
  "hx_init st name now = do {
     (cb, _) \<leftarrow> newCircuitBreaker [name \<mapsto> st] name;
     Some \<lparr>hx_settings = st, hx_circuit = cb, hx_cmds = Map.empty, hx_now = now, hx_log = []\<rparr>
   }"

inductive hx_reachable :: "settings \<Rightarrow> 'e hx \<Rightarrow> bool" for st where
  init: "hx_init st name now = Some s \<Longrightarrow> 0 \<le> now \<Longrightarrow> now < 2 ^ 62 \<Longrightarrow> hx_reachable st s"
| step: "hx_reachable st s \<Longrightarrow> hx_step s s' \<Longrightarrow> hx_reachable st s'"

section \<open>The invariant of a command\<close>

text \<open>The first goroutine before it has asked for a ticket.\<close>

fun before_ticket :: "'e hx_pc \<Rightarrow> bool" where
  "before_ticket MIsOpen = True"
| "before_ticket MSetOpen = True"
| "before_ticket MTest = True"
| "before_ticket (MCas _ _) = True"
| "before_ticket MDenied = True"
| "before_ticket MTicket = True"
| "before_ticket _ = False"

fun running :: "'e hx_pc \<Rightarrow> bool" where
  "running (MRun _) = True"
| "running _ = False"

fun waiting :: "'e hx_pc \<Rightarrow> bool" where
  "waiting WStart = True"
| "waiting (WSelect _) = True"
| "waiting _ = False"

text \<open>Inside the function given to \<open>returnOnce.Do\<close>; at its start the ticket is given back.\<close>

fun in_body :: "'e hx_pc \<Rightarrow> bool" where
  "in_body (ReturnTicket _) = True"
| "in_body (Fallback _) = True"
| "in_body (FallbackRun _) = True"
| "in_body Success = True"
| "in_body Report = True"
| "in_body (ReportClose _) = True"
| "in_body ReportSend = True"
| "in_body _ = False"

fun returning :: "'e hx_pc \<Rightarrow> bool" where
  "returning (ReturnTicket _) = True"
| "returning _ = False"

text \<open>The outcome of a command, with or without fallback, by its events and the errors sent: success,
  the error, or what the fallback made of it.\<close>

definition decided :: "bool \<Rightarrow> string list \<Rightarrow> 'e hx_error list \<Rightarrow> bool" where
  "decided fb ev ec \<longleftrightarrow>
     ev = [''success''] \<and> ec = [] \<or>
     (\<exists>e. \<not> fb \<and> ev = [eventType e] \<and> ec = [e]) \<or>
     (\<exists>e :: 'e hx_error. fb \<and> ev = [eventType e, ''fallback-success''] \<and> ec = []) \<or>
     (\<exists>e f. fb \<and> ev = [eventType e, ''fallback-failure''] \<and> ec = [FallbackFailed f e])"

fun body_ok :: "bool \<Rightarrow> string list \<Rightarrow> 'e hx_error list \<Rightarrow> 'e hx_pc \<Rightarrow> bool" where
  "body_ok fb ev ec (ReturnTicket _) \<longleftrightarrow> ev = [] \<and> ec = []"
| "body_ok fb ev ec (Fallback _) \<longleftrightarrow> ev = [] \<and> ec = []"
| "body_ok fb ev ec Success \<longleftrightarrow> ev = [] \<and> ec = []"
| "body_ok fb ev ec (FallbackRun e) \<longleftrightarrow> ev = [eventType e] \<and> ec = []"
| "body_ok fb ev ec Report \<longleftrightarrow> decided fb ev ec"
| "body_ok fb ev ec (ReportClose _) \<longleftrightarrow> decided fb ev ec"
| "body_ok fb ev ec ReportSend \<longleftrightarrow> decided fb ev ec"
| "body_ok fb ev ec _ \<longleftrightarrow> True"

text \<open>The command holds a ticket: it took one and has not given it back.\<close>

definition held :: "'e cmd \<Rightarrow> bool" where
  "held c \<longleftrightarrow> cmd_ticket c \<and> (cmd_once c = Fresh \<or> returning (cmd_main c) \<or> returning (cmd_watch c))"

text \<open>The invariant: where the goroutines can be, \<open>returnOnce\<close> and what was reported, and the channel
  \<open>finished\<close>.\<close>

definition pcs_ok :: "'e cmd \<Rightarrow> bool" where
  "pcs_ok c \<longleftrightarrow>
     \<not> waiting (cmd_main c) \<and> \<not> before_ticket (cmd_watch c) \<and> \<not> running (cmd_watch c) \<and> cmd_watch c \<noteq> Finish \<and>
     cmd_ticketChecked c = (\<not> before_ticket (cmd_main c)) \<and>
     (cmd_ticket c \<longrightarrow> cmd_ticketChecked c) \<and> (running (cmd_main c) \<longrightarrow> cmd_ticket c) \<and>
     (before_ticket (cmd_main c) \<longrightarrow> cmd_once c = Fresh \<or> returning (cmd_watch c))"

fun once_at :: "once \<Rightarrow> 'e hx_pc \<Rightarrow> 'e hx_pc \<Rightarrow> bool \<Rightarrow> string list \<Rightarrow> 'e hx_error list \<Rightarrow> bool" where
  "once_at Fresh m w fb ev ec \<longleftrightarrow> \<not> in_body m \<and> \<not> in_body w \<and> ev = [] \<and> ec = []"
| "once_at Busy m w fb ev ec \<longleftrightarrow>
     in_body m \<noteq> in_body w \<and> (in_body m \<longrightarrow> body_ok fb ev ec m) \<and> (in_body w \<longrightarrow> body_ok fb ev ec w)"
| "once_at Over m w fb ev ec \<longleftrightarrow> \<not> in_body m \<and> \<not> in_body w \<and> decided fb ev ec"

definition once_ok :: "'e cmd \<Rightarrow> bool" where
  "once_ok c \<longleftrightarrow> once_at (cmd_once c) (cmd_main c) (cmd_watch c) (cmd_fallback c) (cmd_events c) (cmd_errChan c)"

definition end_ok :: "'e cmd \<Rightarrow> bool" where
  "end_ok c \<longleftrightarrow>
     (cmd_main c = Finish \<or> cmd_main c = Done \<or> cmd_watch c = Done \<longrightarrow> cmd_once c = Over) \<and>
     (cmd_main c \<noteq> Done \<longrightarrow> cmd_finished c = 0) \<and>
     (cmd_main c = Done \<and> waiting (cmd_watch c) \<longrightarrow> cmd_finished c = 1)"

definition cmd_ok :: "'e cmd \<Rightarrow> bool" where
  "cmd_ok c \<longleftrightarrow> pcs_ok c \<and> once_ok c \<and> end_ok c"

lemmas cmd_ok_defs = cmd_ok_def pcs_ok_def once_ok_def end_ok_def

lemma GoC_ok: "cmd_ok (GoC now fb)" "\<not> held (GoC now fb)"
  by (simp_all add: cmd_ok_defs GoC_def held_def)

lemma ctx_ok: "cmd_ok (c\<lparr>cmd_ctx := x\<rparr>) = cmd_ok c" "held (c\<lparr>cmd_ctx := x\<rparr>) = held c"
  by (simp_all add: cmd_ok_defs held_def)

lemma decided_Nil [simp]: "\<not> decided fb [] ec"
  by (auto simp: decided_def)

lemma decidedI:
  "decided fb [''success''] []"
  "\<not> fb \<Longrightarrow> decided fb [eventType e] [e]"
  "fb \<Longrightarrow> decided fb [eventType (e :: 'e hx_error), ''fallback-success''] ([] :: 'e hx_error list)"
  "fb \<Longrightarrow> decided fb [eventType e, ''fallback-failure''] [FallbackFailed f e]"
  by (auto simp: decided_def)

lemmas go_step_simps = go_step_def cmd_reportEvent_def tryFallback_def sendError_def after_once_def decidedI
  casTested_def bind_eq_Some_conv Let_def

lemma main_step_ok:
  assumes "cmd_ok c" "go_step st now free cb c True (cmd_main c) ch = Some (cb', c', pc)"
  shows "cmd_ok (c'\<lparr>cmd_main := pc\<rparr>)"
  using assms
  by (cases "cmd_main c"; cases "cmd_once c";
    simp add: go_step_def cmd_ok_defs casTested_def Let_def split del: if_split;
    clarsimp simp: go_step_simps split: if_splits choice.splits option.splits prod.splits)+

lemma watch_step_ok:
  assumes "cmd_ok c" "go_step st now free cb c False (cmd_watch c) ch = Some (cb', c', pc)"
  shows "cmd_ok (c'\<lparr>cmd_watch := pc\<rparr>)"
  using assms
  by (cases "cmd_watch c"; cases "cmd_once c";
    simp add: go_step_def cmd_ok_defs casTested_def Let_def split del: if_split;
    clarsimp simp: go_step_simps split: if_splits choice.splits option.splits prod.splits)+

lemma go_step_cmd_ok:
  assumes "cmd_ok c" "go_step st now free cb c main (pc_of main c) ch = Some (cb', c', pc)"
  shows "cmd_ok (set_pc_of main pc c')"
  using assms main_step_ok watch_step_ok by (cases main) (simp_all add: pc_of_def set_pc_of_def)

section \<open>Tickets\<close>

lemma pool_unchanged [simp]:
  "cb_executorPool (setOpen cb now) = cb_executorPool cb" "cb_executorPool (setClose cb) = cb_executorPool cb"
  "cb_executorPool (snd (sendUpdate cb ev st d)) = cb_executorPool cb"
  by (simp_all add: setOpen_def setClose_def sendUpdate_def Let_def)

lemma ep_Return_tickets:
  "ep_Return p now t = Some p' \<Longrightarrow> ep_Tickets p' = ep_Tickets p + of_bool t \<and> ep_Max p' = ep_Max p"
  by (auto simp: ep_Return_def Let_def split: if_splits)

text \<open>A step moves a ticket between the pool and the command.\<close>

definition tickets_of :: "circuit \<Rightarrow> 'e cmd \<Rightarrow> int" where
  "tickets_of cb c = ep_Tickets (cb_executorPool cb) + of_bool (held c)"

fun enters :: "'e cmd \<Rightarrow> 'e hx_pc \<Rightarrow> bool" where
  "enters c (Once r start) = (cmd_once c = Fresh)"
| "enters c _ = False"

lemma go_step_pool:
  assumes "go_step st now free cb c main pc ch = Some (cb', c', pc')"
  shows "ep_Tickets (cb_executorPool cb') = ep_Tickets (cb_executorPool cb)
      - of_bool (pc = MTicket \<and> ep_Tickets (cb_executorPool cb) > 0) + of_bool (returning pc \<and> cmd_ticket c)"
    and "ep_Max (cb_executorPool cb') = ep_Max (cb_executorPool cb)"
    and "cmd_ticket c' = (cmd_ticket c \<or> pc = MTicket \<and> ep_Tickets (cb_executorPool cb) > 0)"
    and "returning pc' = enters c pc"
    and "cmd_main c' = cmd_main c \<and> cmd_watch c' = cmd_watch c"
    and "cmd_once c' = (if enters c pc then Busy else if pc = ReportSend \<or> pc = Report \<and> cmd_events c = [] then Over else cmd_once c)"
  using assms
  by (cases pc; simp add: go_step_def;
    auto simp: casTested_def after_once_def bind_eq_Some_conv Let_def cmd_reportEvent_def tryFallback_def sendError_def
      split: if_splits choice.splits option.splits once.splits dest!: ep_Return_tickets)+

lemma returning_body: "returning pc \<Longrightarrow> in_body pc"
  by (cases pc) auto

lemma go_step_tickets:
  assumes "cmd_ok c" "go_step st now free cb c main (pc_of main c) ch = Some (cb', c', pc)" "0 \<le> ep_Tickets (cb_executorPool cb)"
  shows "tickets_of cb' (set_pc_of main pc c') = tickets_of cb c" "0 \<le> ep_Tickets (cb_executorPool cb')"
proof -
  note f = go_step_pool [OF assms(2)]
  show "0 \<le> ep_Tickets (cb_executorPool cb')" using f(1) assms(3) by (auto simp: of_bool_def split: if_splits)
  have ok: "once_ok c" "pcs_ok c" using assms(1) by (auto simp: cmd_ok_def)
  let ?pc = "pc_of main c" and ?other = "pc_of (\<not> main) c"
  have held: "held c \<longleftrightarrow> cmd_ticket c \<and> (cmd_once c = Fresh \<or> returning ?pc \<or> returning ?other)"
    by (auto simp: held_def pc_of_def)
  have held': "held (set_pc_of main pc c') \<longleftrightarrow> cmd_ticket c' \<and> (cmd_once c' = Fresh \<or> enters c ?pc \<or> returning ?other)"
    using f(4, 5) by (auto simp: held_def pc_of_def set_pc_of_def)
  have one: "\<not> returning ?other \<and> cmd_once c = Busy" if "in_body ?pc"
    using that ok(1) returning_body [of ?other] by (cases "cmd_once c") (auto simp: once_ok_def pc_of_def split: if_splits)
  have take: "\<not> cmd_ticket c \<and> (cmd_once c = Fresh \<or> returning ?other)" if "?pc = MTicket"
    using that ok(2) by (cases main) (auto simp: pcs_ok_def pc_of_def)
  show "tickets_of cb' (set_pc_of main pc c') = tickets_of cb c"
    unfolding tickets_of_def held held' f(1, 3, 6) using one take by (cases ?pc) auto
qed

section \<open>The circuit\<close>


lemma decided_errors: "decided fb ev ec \<Longrightarrow> length ec \<le> 1"
  by (auto simp: decided_def)

lemma body_errors: "body_ok fb ev ec pc \<Longrightarrow> in_body pc \<Longrightarrow> length ec \<le> 1"
  using decided_errors by (cases pc) auto

lemma once_ok_errors: "once_ok c \<Longrightarrow> length (cmd_errChan c) \<le> 1"
  using body_errors decided_errors by (cases "cmd_once c") (fastforce simp: once_ok_def)+

section \<open>The invariant of the system\<close>


definition holders :: "(nat \<Rightarrow> 'e cmd option) \<Rightarrow> nat set" where
  "holders cmds = {i. \<exists>c. cmds i = Some c \<and> held c}"

definition tickets_ok :: "'e hx \<Rightarrow> bool" where
  "tickets_ok s \<longleftrightarrow>
     finite (dom (hx_cmds s)) \<and> (\<forall>i c. hx_cmds s i = Some c \<longrightarrow> cmd_ok c) \<and>
     0 \<le> ep_Tickets (cb_executorPool (hx_circuit s)) \<and>
     ep_Tickets (cb_executorPool (hx_circuit s)) + int (card (holders (hx_cmds s))) = ep_Max (cb_executorPool (hx_circuit s))"


lemma holders_upd:
  "holders (cmds(i \<mapsto> c)) = (if held c then insert i (holders cmds) else holders cmds - {i})"
  by (auto simp: holders_def)

lemma finite_holders: "finite (dom cmds) \<Longrightarrow> finite (holders cmds)"
  by (rule finite_subset [of _ "dom cmds"]) (auto simp: holders_def)

lemma card_holders_upd:
  assumes "finite (dom cmds)" "cmds i = Some c"
  shows "int (card (holders (cmds(i \<mapsto> c')))) = int (card (holders cmds)) - of_bool (held c) + of_bool (held c')"
proof -
  have "i \<in> holders cmds \<longleftrightarrow> held c" using assms(2) by (simp add: holders_def)
  moreover have "card (holders cmds) > 0" if "i \<in> holders cmds"
    using that finite_holders [OF assms(1)] by (auto simp: card_gt_0_iff)
  ultimately show ?thesis using finite_holders [OF assms(1)]
    by (auto simp: holders_upd card_insert_if card_Diff_singleton insert_absorb of_nat_diff Suc_leI)
qed

lemma cmd_stepE:
  assumes "cmd_step s i main ch = Some s'"
  obtains c cb c' pc where "hx_cmds s i = Some c"
    "go_step (hx_settings s) (hx_now s) (no_readers (hx_cmds s)) (hx_circuit s) c main (pc_of main c) ch = Some (cb, c', pc)"
    "s' = s\<lparr>hx_circuit := cb, hx_cmds := (hx_cmds s)(i \<mapsto> set_pc_of main pc c'),
       hx_log := log_of (hx_circuit s) cb (hx_now s) (pc_of main c) pc @ hx_log s\<rparr>"
  using assms by (auto simp: cmd_step_def bind_eq_Some_conv)

lemma tickets_ok_cmd:
  assumes "tickets_ok s" "cmd_step s i main ch = Some s'"
  shows "tickets_ok s' \<and> ep_Max (cb_executorPool (hx_circuit s')) = ep_Max (cb_executorPool (hx_circuit s))"
proof -
  from assms(2) obtain c cb c' pc where c: "hx_cmds s i = Some c"
    and g: "go_step (hx_settings s) (hx_now s) (no_readers (hx_cmds s)) (hx_circuit s) c main (pc_of main c) ch = Some (cb, c', pc)"
    and s': "s' = s\<lparr>hx_circuit := cb, hx_cmds := (hx_cmds s)(i \<mapsto> set_pc_of main pc c'),
       hx_log := log_of (hx_circuit s) cb (hx_now s) (pc_of main c) pc @ hx_log s\<rparr>" by (rule cmd_stepE)
  have ok: "cmd_ok c" "finite (dom (hx_cmds s))" "0 \<le> ep_Tickets (cb_executorPool (hx_circuit s))"
    using assms(1) c by (auto simp: tickets_ok_def)
  show ?thesis
    using assms(1) go_step_cmd_ok [OF ok(1) g] go_step_tickets [OF ok(1) g ok(3)] go_step_pool(2) [OF g] card_holders_upd [OF ok(2) c]
    by (auto simp: tickets_ok_def s' tickets_of_def)
qed



lemma mx_Monitor_name: "mx_Monitor x now = Some x' \<Longrightarrow> mx_Name x' = mx_Name x"
  by (auto simp: mx_Monitor_def bind_eq_Some_conv split: list.splits)

lemma tickets_ok_step:
  assumes "tickets_ok s" "hx_step s s'"
  shows "tickets_ok s' \<and> ep_Max (cb_executorPool (hx_circuit s')) = ep_Max (cb_executorPool (hx_circuit s))"
  using assms(2)
proof cases
  case internal
  then show ?thesis
  proof cases
    case (cmd i main ch)
    then show ?thesis using tickets_ok_cmd [OF assms(1)] by blast
  next
    case (monitor x)
    then show ?thesis using assms(1) by (auto simp: tickets_ok_def)
  qed
next
  case (start i fb)
  have "holders ((hx_cmds s)(i \<mapsto> GoC (hx_now s) fb)) = holders (hx_cmds s)"
    using start GoC_ok(2) [of "hx_now s" fb] by (auto simp: holders_def)
  with start assms(1) show ?thesis by (auto simp: tickets_ok_def GoC_ok)
next
  case (ctx i c e)
  have "holders ((hx_cmds s)(i \<mapsto> c\<lparr>cmd_ctx := Some e\<rparr>)) = holders (hx_cmds s)"
    using ctx by (auto simp: holders_def ctx_ok)
  with ctx assms(1) show ?thesis by (auto simp: tickets_ok_def ctx_ok)
qed (use assms(1) in \<open>auto simp: tickets_ok_def\<close>)


lemma hx_init_eq:
  "hx_init st name now = Some s \<longleftrightarrow> 0 \<le> MaxConcurrentRequests st \<and> s =
     \<lparr>hx_settings = st,
      hx_circuit = \<lparr>cb_Name = name, cb_open = False, cb_forceOpen = False, cb_openedOrLastTestedTime = 0,
        cb_executorPool = \<lparr>ep_Name = name, ep_Metrics = pm_Reset, ep_Max = MaxConcurrentRequests st,
          ep_Tickets = MaxConcurrentRequests st\<rparr>,
        cb_metrics = newMetricExchange name\<rparr>,
      hx_cmds = Map.empty, hx_now = now, hx_log = []\<rparr>"
  by (auto simp: hx_init_def newCircuitBreaker_def newExecutorPool_def getSettings_known Let_def)

lemma reachable_tickets:
  assumes "hx_reachable st s"
  shows "tickets_ok s \<and> ep_Max (cb_executorPool (hx_circuit s)) = MaxConcurrentRequests st"
  using assms
proof induction
  case (init name now s)
  then show ?case by (simp add: hx_init_eq tickets_ok_def holders_def)
qed (use tickets_ok_step in auto)


section \<open>Progress\<close>

fun rank :: "'e hx_pc \<Rightarrow> nat" where
  "rank MIsOpen = 16"
| "rank MSetOpen = 15"
| "rank MTest = 14"
| "rank (MCas _ _) = 13"
| "rank MDenied = 12"
| "rank MTicket = 12"
| "rank (MRun _) = 11"
| "rank WStart = 12"
| "rank (WSelect _) = 11"
| "rank (Once _ _) = 10"
| "rank (ReturnTicket _) = 9"
| "rank (Fallback _) = 8"
| "rank (FallbackRun _) = 7"
| "rank Success = 7"
| "rank Report = 6"
| "rank (ReportClose _) = 5"
| "rank ReportSend = 4"
| "rank Finish = 1"
| "rank Done = 0"

definition cmd_work :: "'e cmd \<Rightarrow> nat" where
  "cmd_work c = 2 * (rank (cmd_main c) + rank (cmd_watch c))"

definition updates :: "circuit \<Rightarrow> nat" where
  "updates cb = length (mx_Updates (cb_metrics cb))"

definition work :: "'e hx \<Rightarrow> nat" where
  "work s = (\<Sum>i \<in> dom (hx_cmds s). cmd_work (the (hx_cmds s i))) + updates (hx_circuit s)"

lemma go_step_rank:
  assumes "go_step st now free cb c main pc ch = Some (cb', c', pc')"
  shows "2 * rank pc' + updates cb' < 2 * rank pc + updates cb"
  using assms
  by (cases pc; simp add: go_step_def;
    auto simp: setOpen_def setClose_def mx_Reset_def casTested_def sendUpdate_def after_once_def bind_eq_Some_conv Let_def updates_def
      split: if_splits choice.splits option.splits once.splits)+

lemma hx_int_work:
  assumes "hx_int s s'" "finite (dom (hx_cmds s))"
  shows "work s' < work s"
  using assms(1)
proof cases
  case (cmd i main ch)
  then obtain c cb c' pc where c: "hx_cmds s i = Some c"
    and g: "go_step (hx_settings s) (hx_now s) (no_readers (hx_cmds s)) (hx_circuit s) c main (pc_of main c) ch = Some (cb, c', pc)"
    and s': "s' = s\<lparr>hx_circuit := cb, hx_cmds := (hx_cmds s)(i \<mapsto> set_pc_of main pc c'),
       hx_log := log_of (hx_circuit s) cb (hx_now s) (pc_of main c) pc @ hx_log s\<rparr>" by (blast elim: cmd_stepE)
  let ?rest = "\<Sum>j \<in> dom (hx_cmds s) - {i}. cmd_work (the (hx_cmds s j))"
  have i: "i \<in> dom (hx_cmds s)" using c by blast
  have "work s = cmd_work c + ?rest + updates (hx_circuit s)"
    using sum.remove [OF assms(2) i, of "\<lambda>j. cmd_work (the (hx_cmds s j))"] c by (simp add: work_def)
  moreover have "work s' = cmd_work (set_pc_of main pc c') + ?rest + updates cb"
    using assms(2) i by (auto simp: work_def s' insert_absorb sum.remove [OF assms(2) i] intro!: sum.cong)
  moreover have "cmd_work (set_pc_of main pc c') + updates cb < cmd_work c + updates (hx_circuit s)"
    using go_step_rank [OF g] go_step_pool(5) [OF g] by (auto simp: cmd_work_def set_pc_of_def pc_of_def split: if_splits)
  ultimately show ?thesis by simp
next
  case (monitor x)
  then show ?thesis by (auto simp: work_def updates_def mx_Monitor_def bind_eq_Some_conv split: list.splits)
qed

text \<open>A choice that lets the goroutine proceed, and when it can.\<close>

fun choice_for :: "'e hx_pc \<Rightarrow> 'e choice" where
  "choice_for (MRun _) = RunReturns None"
| "choice_for (FallbackRun _) = FallbackReturns None"
| "choice_for _ = TakeFinished"

fun waits :: "'e cmd \<Rightarrow> 'e hx_pc \<Rightarrow> bool" where
  "waits c (Once _ _) = (cmd_once c = Busy)"
| "waits c (WSelect _) = (cmd_finished c = 0)"
| "waits c (ReturnTicket _) = (\<not> cmd_ticketChecked c)"
| "waits c Done = True"
| "waits c _ = False"

lemma go_step_enabled:
  assumes "cmd_ok c" "held c \<Longrightarrow> ep_Tickets (cb_executorPool cb) < ep_Max (cb_executorPool cb)"
    "\<not> waits c (pc_of main c)"
  shows "\<exists>r. go_step st now True cb c main (pc_of main c) (choice_for (pc_of main c)) = Some r"
proof -
  let ?pc = "pc_of main c"
  have body: "body_ok (cmd_fallback c) (cmd_events c) (cmd_errChan c) ?pc" if "in_body ?pc"
    using assms(1) that by (cases "cmd_once c") (auto simp: cmd_ok_def once_ok_def pc_of_def split: if_splits)
  have fin: "cmd_finished c = 0" if "?pc = Finish"
    using assms(1) that by (auto simp: cmd_ok_def pcs_ok_def end_ok_def pc_of_def split: if_splits)
  have ret: "\<exists>p. ep_Return (cb_executorPool cb) now (cmd_ticket c) = Some p" if "returning ?pc"
    using assms(2) that by (auto simp: ep_Return_def held_def pc_of_def Let_def split: if_splits)
  show ?thesis using assms(3) body fin ret
    by (cases ?pc) (auto simp: go_step_def casTested_def tryFallback_def sendError_def cmd_reportEvent_def Let_def split: once.splits)
qed

lemma stuck_waits:
  assumes "tickets_ok s" "\<And>s'. \<not> hx_int s s'" "hx_cmds s i = Some c"
  shows "waits c (pc_of main c)"
proof (rule ccontr)
  assume w: "\<not> waits c (pc_of main c)"
  have stuck: "go_step (hx_settings s) (hx_now s) (no_readers (hx_cmds s)) (hx_circuit s) d g (pc_of g d) ch = None"
    if "hx_cmds s j = Some d" for j d g ch
  proof (rule ccontr)
    assume "\<not> ?thesis"
    then obtain cb c' pc where "go_step (hx_settings s) (hx_now s) (no_readers (hx_cmds s)) (hx_circuit s) d g (pc_of g d) ch = Some (cb, c', pc)"
      by auto
    with that have "\<exists>s'. cmd_step s j g ch = Some s'" by (simp add: cmd_step_def)
    with assms(2) show False using hx_int.cmd by blast
  qed
  have "cmd_main d \<noteq> MCas old new" if "hx_cmds s j = Some d" for j d old new
    using stuck [OF that, of True] by (auto simp: go_step_def pc_of_def casTested_def split: if_splits)
  then have free: "no_readers (hx_cmds s) = True" by (auto simp: no_readers_def)
  have room: "ep_Tickets (cb_executorPool (hx_circuit s)) < ep_Max (cb_executorPool (hx_circuit s))" if "held c"
  proof -
    have "i \<in> holders (hx_cmds s)" using that assms(3) by (auto simp: holders_def)
    moreover have "finite (holders (hx_cmds s))" using assms(1) finite_holders by (auto simp: tickets_ok_def)
    ultimately have "card (holders (hx_cmds s)) > 0" by (auto simp: card_gt_0_iff)
    with assms(1) show ?thesis by (auto simp: tickets_ok_def)
  qed
  have ok: "cmd_ok c" using assms(1, 3) by (auto simp: tickets_ok_def)
  have "\<exists>r. go_step (hx_settings s) (hx_now s) True (hx_circuit s) c main (pc_of main c) (choice_for (pc_of main c)) = Some r"
    by (rule go_step_enabled [OF ok room w])
  with stuck [OF assms(3)] show False by (simp add: free)
qed

lemma stuck_done:
  assumes "tickets_ok s" "\<And>s'. \<not> hx_int s s'" "hx_cmds s i = Some c"
  shows "cmd_main c = Done" "cmd_watch c = Done"
proof -
  have ok: "cmd_ok c" using assms(1, 3) by (auto simp: tickets_ok_def)
  have m: "waits c (cmd_main c)" and w: "waits c (cmd_watch c)"
    using stuck_waits [OF assms, of True] stuck_waits [OF assms, of False] by (simp_all add: pc_of_def)
  have busy: "in_body (cmd_main c) \<or> in_body (cmd_watch c)" if "cmd_once c = Busy"
    using ok that by (auto simp: cmd_ok_def once_ok_def)
  show md: "cmd_main c = Done"
    using ok m w busy by (cases "cmd_main c"; cases "cmd_watch c") (auto simp: cmd_ok_def pcs_ok_def)
  show "cmd_watch c = Done"
    using ok md w by (cases "cmd_watch c") (auto simp: cmd_ok_def pcs_ok_def end_ok_def)
qed

section \<open>Runs\<close>

text \<open>A run given by a script.\<close>

datatype 'e event = Launch nat bool | Go nat bool "'e choice" | Clock int | Collect

fun hx_event :: "'e hx \<Rightarrow> 'e event \<Rightarrow> 'e hx option" where
  "hx_event s (Launch i fb) =
     (if hx_cmds s i = None then Some (s\<lparr>hx_cmds := (hx_cmds s)(i \<mapsto> GoC (hx_now s) fb)\<rparr>) else None)"
| "hx_event s (Go i main ch) = cmd_step s i main ch"
| "hx_event s (Clock t) = (if hx_now s \<le> t \<and> t < 2 ^ 62 then Some (s\<lparr>hx_now := t\<rparr>) else None)"
| "hx_event s Collect =
     map_option (\<lambda>x. s\<lparr>hx_circuit := (hx_circuit s)\<lparr>cb_metrics := x\<rparr>\<rparr>) (mx_Monitor (cb_metrics (hx_circuit s)) (hx_now s))"

fun hx_run :: "'e hx \<Rightarrow> 'e event list \<Rightarrow> 'e hx option" where
  "hx_run s [] = Some s"
| "hx_run s (e # es) = do { s \<leftarrow> hx_event s e; hx_run s es }"

definition hx_script :: "settings \<Rightarrow> 'e event list \<Rightarrow> 'e hx option" where
  "hx_script st es = do { s \<leftarrow> hx_init st ''c'' 0; hx_run s es }"

lemma hx_event_step: "hx_event s e = Some s' \<Longrightarrow> hx_step s s'"
  by (cases e) (auto split: if_splits intro: hx_step.intros hx_int.intros)

lemma hx_run_reachable: "hx_reachable st s \<Longrightarrow> hx_run s es = Some s' \<Longrightarrow> hx_reachable st s'"
proof (induction es arbitrary: s)
  case (Cons e es)
  then obtain s1 where "hx_event s e = Some s1" "hx_run s1 es = Some s'" by (auto simp: bind_eq_Some_conv)
  with Cons hx_event_step hx_reachable.step show ?case by blast
qed simp

lemma hx_script_reachable: "hx_script st es = Some s \<Longrightarrow> hx_reachable st s"
proof -
  assume "hx_script st es = Some s"
  then obtain s0 where "hx_init st ''c'' 0 = Some s0" "hx_run s0 es = Some s" by (auto simp: hx_script_def bind_eq_Some_conv)
  with hx_reachable.init [of st "''c''" 0 s0] hx_run_reachable show ?thesis by simp
qed

definition lax_settings :: settings where
  "lax_settings = \<lparr>Timeout = 0, MaxConcurrentRequests = 1, RequestVolumeThreshold = 20, SleepWindow = 0, ErrorPercentThreshold = 50\<rparr>"



definition overcommit_script :: "unit event list" where
  "overcommit_script =
     [Launch 0 False, Go 0 True NoChoice, Go 0 True NoChoice,
      Go 0 False NoChoice, Go 0 False TakeTimer, Go 0 False NoChoice, Go 0 False NoChoice,
      Launch 1 False, Go 1 True NoChoice, Go 1 True NoChoice]"

lemma no_readers_simps:
  "no_readers Map.empty"
  "no_readers (cmds(i \<mapsto> c)) \<longleftrightarrow> (\<forall>old new. cmd_main c \<noteq> MCas old new) \<and> no_readers (cmds(i := None))"
  by (auto simp: no_readers_def)

lemmas run_simps = hx_script_def hx_init_def newCircuitBreaker_def newExecutorPool_def getSettings_known newMetricExchange_def
  dc_Reset_def NewNumber_def mx_Requests_def Sum_def ErrorPercent_def float_to_int_def Let_def GoC_def no_readers_simps
  cmd_step_def go_step_def pc_of_def set_pc_of_def log_of_def testDue_def casTested_def setOpen_def s64_def
  ep_Return_def pm_Monitor_def ActiveCount_def cmd_reportEvent_def tryFallback_def sendError_def sendUpdate_def after_once_def


lemma overcommit_run:
  "map_option (\<lambda>s. (map_option cmd_main (hx_cmds s 0), map_option cmd_main (hx_cmds s 1), ep_Tickets (cb_executorPool (hx_circuit s))))
     (hx_script lax_settings overcommit_script) = Some (Some (MRun 0), Some (MRun 0), 0)"
  by (simp add: overcommit_script_def lax_settings_def run_simps)

section \<open>Properties\<close>



text \<open>
  C39. Tickets are neither lost nor duplicated: in every reachable state the tickets in the pool and
  the commands that hold one are together the maximum of concurrent requests. A command whose \<open>run\<close> is
  executing and whose outcome is still open holds a ticket, so at most that many are in
  this state. A command sends at most one error to its caller.
\<close>

theorem hystrix_tickets:
  assumes "hx_reachable st s"
  shows "ep_Tickets (cb_executorPool (hx_circuit s)) + int (card (holders (hx_cmds s))) = MaxConcurrentRequests st \<and>
    0 \<le> ep_Tickets (cb_executorPool (hx_circuit s)) \<and>
    int (card {i. \<exists>c. hx_cmds s i = Some c \<and> running (cmd_main c) \<and> cmd_once c = Fresh}) \<le> MaxConcurrentRequests st \<and>
    (\<forall>c \<in> ran (hx_cmds s). length (cmd_errChan c) \<le> 1)"
proof -
  let ?R = "{i. \<exists>c. hx_cmds s i = Some c \<and> running (cmd_main c) \<and> cmd_once c = Fresh}"
  note ok = reachable_tickets [OF assms]
  have sum: "ep_Tickets (cb_executorPool (hx_circuit s)) + int (card (holders (hx_cmds s))) = MaxConcurrentRequests st"
    and pos: "0 \<le> ep_Tickets (cb_executorPool (hx_circuit s))" using ok by (auto simp: tickets_ok_def)
  have "?R \<subseteq> holders (hx_cmds s)"
    using ok by (auto simp: tickets_ok_def holders_def held_def cmd_ok_def pcs_ok_def)
  then have "card ?R \<le> card (holders (hx_cmds s))" using ok finite_holders by (auto simp: tickets_ok_def intro: card_mono)
  with sum pos have "int (card ?R) \<le> MaxConcurrentRequests st" by linarith
  moreover have "length (cmd_errChan c) \<le> 1" if "hx_cmds s i = Some c" for i c
  proof -
    have "once_ok c" using ok that by (auto simp: tickets_ok_def cmd_ok_def)
    then show ?thesis by (rule once_ok_errors)
  qed
  ultimately show ?thesis using sum pos by (auto simp: ran_def)
qed

theorem hystrix_tickets_witness:
  "\<exists>s. hx_script lax_settings overcommit_script = Some s \<and> int (card (holders (hx_cmds s))) = 1"
proof -
  from overcommit_run obtain s where s: "hx_script lax_settings overcommit_script = Some s"
    "ep_Tickets (cb_executorPool (hx_circuit s)) = 0" by auto
  from hystrix_tickets [OF hx_script_reachable [OF s(1)]] s show ?thesis by (auto simp: lax_settings_def)
qed

text \<open>
  The limit of concurrent requests does not limit the executions of \<open>run\<close>: after a timeout the ticket is
  given back while \<open>run\<close> goes on. With a maximum of one request, two executions are reached.
\<close>

theorem hystrix_runs_exceed_maximum:
  "\<exists>s :: unit hx. hx_reachable lax_settings s \<and> MaxConcurrentRequests lax_settings = 1 \<and>
     map_option cmd_main (hx_cmds s 0) = Some (MRun 0) \<and> map_option cmd_main (hx_cmds s 1) = Some (MRun 0)"
proof -
  from overcommit_run obtain s where "hx_script lax_settings overcommit_script = Some s"
    "map_option cmd_main (hx_cmds s 0) = Some (MRun 0)" "map_option cmd_main (hx_cmds s 1) = Some (MRun 0)"
    by (auto simp del: map_option_eq_Some)
  moreover have "MaxConcurrentRequests lax_settings = 1" by (simp add: lax_settings_def)
  ultimately show ?thesis using hx_script_reachable by blast
qed

text \<open>
  C40. No command hangs: without new commands, and if \<open>run\<close> and the fallback return, only finitely many
  steps are possible, and when none is left both goroutines of every command have ended, all
  tickets are back in the pool, and every command has one of the four outcomes: success, the error,
  or the success or failure of the fallback, with exactly the error that belongs to it sent to the
  caller.
\<close>

theorem hystrix_live:
  assumes "hx_reachable st s"
  shows "(\<forall>s'. hx_int s s' \<longrightarrow> work s' < work s) \<and>
    ((\<forall>s'. \<not> hx_int s s') \<longrightarrow> ep_Tickets (cb_executorPool (hx_circuit s)) = MaxConcurrentRequests st \<and>
      (\<forall>c \<in> ran (hx_cmds s). cmd_main c = Done \<and> cmd_watch c = Done \<and>
         decided (cmd_fallback c) (cmd_events c) (cmd_errChan c)))"
proof -
  note ok = reachable_tickets [OF assms]
  have dec: "work s' < work s" if "hx_int s s'" for s' using that ok by (auto simp: tickets_ok_def intro: hx_int_work)
  have over: "cmd_main c = Done \<and> cmd_watch c = Done \<and> cmd_once c = Over \<and> decided (cmd_fallback c) (cmd_events c) (cmd_errChan c)"
    if "\<And>s'. \<not> hx_int s s'" "hx_cmds s i = Some c" for i c
  proof -
    have "cmd_main c = Done" "cmd_watch c = Done" using stuck_done [OF _ that] ok by blast+
    moreover from this ok that(2) have "cmd_once c = Over" "once_ok c" by (auto simp: tickets_ok_def cmd_ok_def end_ok_def)
    ultimately show ?thesis by (simp add: once_ok_def)
  qed
  have all: "ep_Tickets (cb_executorPool (hx_circuit s)) = MaxConcurrentRequests st" if stuck: "\<And>s'. \<not> hx_int s s'"
  proof -
    have "holders (hx_cmds s) = {}" using over [OF stuck] by (fastforce simp: holders_def held_def)
    with ok show ?thesis by (simp add: tickets_ok_def)
  qed
  show ?thesis using dec over all by (auto simp: ran_def)
qed

definition whole_script :: "unit event list" where
  "whole_script =
     [Launch 0 False, Go 0 True NoChoice, Go 0 True NoChoice, Go 0 True (RunReturns (Some (RunError ()))),
      Go 0 True NoChoice, Go 0 True NoChoice, Go 0 True NoChoice, Go 0 True NoChoice, Go 0 True NoChoice,
      Go 0 True NoChoice, Go 0 True NoChoice, Go 0 True NoChoice,
      Go 0 False NoChoice, Go 0 False TakeFinished, Collect]"

lemma whole_run:
  "case hx_script lax_settings whole_script of
     None \<Rightarrow> False
   | Some s \<Rightarrow> dom (hx_cmds s) = {0} \<and> map_option cmd_main (hx_cmds s 0) = Some Done \<and>
       map_option cmd_watch (hx_cmds s 0) = Some Done \<and> mx_Updates (cb_metrics (hx_circuit s)) = []"
  by (simp add: whole_script_def lax_settings_def run_simps mx_Monitor_def IncrementMetrics_def metricResult_def go_nth_def)

theorem hystrix_live_witness:
  "\<exists>s c. hx_script lax_settings whole_script = Some s \<and> hx_cmds s 0 = Some c \<and>
     decided (cmd_fallback c) (cmd_events c) (cmd_errChan c) \<and> ep_Tickets (cb_executorPool (hx_circuit s)) = 1"
proof -
  from whole_run obtain s where s: "hx_script lax_settings whole_script = Some s" and d: "dom (hx_cmds s) = {0}"
    and m: "map_option cmd_main (hx_cmds s 0) = Some Done" "map_option cmd_watch (hx_cmds s 0) = Some Done"
    and u: "mx_Updates (cb_metrics (hx_circuit s)) = []" by (auto split: option.splits)
  from m obtain c where c: "hx_cmds s 0 = Some c" "cmd_main c = Done" "cmd_watch c = Done" by auto
  have other: "hx_cmds s i = None" if "i \<noteq> 0" for i using d that by (metis domIff singletonD)
  have "cmd_step s i main ch = None" for i main ch
    using other [of i] c by (cases "i = 0") (auto simp: cmd_step_def go_step_def pc_of_def)
  then have stuck: "\<not> hx_int s s'" for s' using u by (auto simp: mx_Monitor_def elim!: hx_int.cases)
  from hystrix_live [OF hx_script_reachable [OF s]] stuck s c show ?thesis by (auto simp: lax_settings_def ran_def)
qed

end
