(* ===== verification/Nsq_Message.thy ===== *)
theory Nsq_Message
  imports Go_Binary
begin

unbundle bit_operations_syntax

text \<open>
  Messages of \<open>nsqd\<close>: their identifiers (\<open>nsqd/guid.go\<close>, with \<open>encoding/hex\<close>), their wire format
  (\<open>nsqd/message.go\<close>, with the big-endian integers of \<open>encoding/binary\<close>), and two
  parsers of the protocol (\<open>internal/protocol/names.go\<close>, \<open>byte_base10.go\<close>).
\<close>

section \<open>Big-endian integers and hexadecimal digits\<close>

definition be_Uint16 :: "bytes \<Rightarrow> u16 option" where
  "be_Uint16 b = do {
     b1 \<leftarrow> go_nth b 1;
     b0 \<leftarrow> go_nth b 0;
     Some (ucast b1 OR push_bit 8 (ucast b0))
   }"

definition be_PutUint16 :: "bytes \<Rightarrow> u16 \<Rightarrow> bytes option" where
  "be_PutUint16 b v = do {
     _ \<leftarrow> go_nth b 1;
     b \<leftarrow> go_upd b 0 (ucast (drop_bit 8 v));
     go_upd b 1 (ucast v)
   }"

definition be_Uint64 :: "bytes \<Rightarrow> u64 option" where
  "be_Uint64 b = do {
     b7 \<leftarrow> go_nth b 7; b6 \<leftarrow> go_nth b 6; b5 \<leftarrow> go_nth b 5; b4 \<leftarrow> go_nth b 4;
     b3 \<leftarrow> go_nth b 3; b2 \<leftarrow> go_nth b 2; b1 \<leftarrow> go_nth b 1; b0 \<leftarrow> go_nth b 0;
     Some (ucast b7 OR push_bit 8 (ucast b6) OR push_bit 16 (ucast b5) OR
       push_bit 24 (ucast b4) OR push_bit 32 (ucast b3) OR push_bit 40 (ucast b2) OR
       push_bit 48 (ucast b1) OR push_bit 56 (ucast b0))
   }"

definition be_PutUint64 :: "bytes \<Rightarrow> u64 \<Rightarrow> bytes option" where
  "be_PutUint64 b v = do {
     _ \<leftarrow> go_nth b 7;
     b \<leftarrow> go_upd b 0 (ucast (drop_bit 56 v));
     b \<leftarrow> go_upd b 1 (ucast (drop_bit 48 v));
     b \<leftarrow> go_upd b 2 (ucast (drop_bit 40 v));
     b \<leftarrow> go_upd b 3 (ucast (drop_bit 32 v));
     b \<leftarrow> go_upd b 4 (ucast (drop_bit 24 v));
     b \<leftarrow> go_upd b 5 (ucast (drop_bit 16 v));
     b \<leftarrow> go_upd b 6 (ucast (drop_bit 8 v));
     go_upd b 7 (ucast v)
   }"

text \<open>\<open>hextable\<close> is the string \<open>0123456789abcdef\<close>.\<close>

definition hextable :: bytes where
  "hextable = [48, 49, 50, 51, 52, 53, 54, 55, 56, 57, 97, 98, 99, 100, 101, 102]"

text \<open>The loop of \<open>hex.Encode\<close>, writing at \<open>j\<close>.\<close>

fun hex_Encode :: "bytes \<Rightarrow> int \<Rightarrow> bytes \<Rightarrow> bytes option" where
  "hex_Encode dst j [] = Some dst"
| "hex_Encode dst j (v # src) = do {
     hi \<leftarrow> go_nth hextable (uint (drop_bit 4 v));
     dst \<leftarrow> go_upd dst j hi;
     lo \<leftarrow> go_nth hextable (uint (v AND 0x0f));
     dst \<leftarrow> go_upd dst (j + 1) lo;
     hex_Encode dst (j + 2) src
   }"

section \<open>guid.go\<close>

datatype guid_error = ErrTimeBackwards | ErrSequenceExpired | ErrIDBackwards

record guid_factory =
  gf_nodeID :: int
  gf_sequence :: int
  gf_lastTimestamp :: int
  gf_lastID :: int

definition twepoch :: int where
  "twepoch = 1288834974288"

definition sequenceMask :: int where
  "sequenceMask = -1 XOR push_bit 12 (-1)"

definition NewGUIDFactory :: "int \<Rightarrow> guid_factory" where
  "NewGUIDFactory nodeID = \<lparr>gf_nodeID = nodeID, gf_sequence = 0, gf_lastTimestamp = 0, gf_lastID = 0\<rparr>"

text \<open>\<open>now\<close> is the reading of the clock in nanoseconds.\<close>

definition NewGUID :: "guid_factory \<Rightarrow> int \<Rightarrow> (guid_error + int) \<times> guid_factory" where
  "NewGUID f now =
     (let ts = drop_bit 20 now
      in if ts < gf_lastTimestamp f then (Inl ErrTimeBackwards, f)
         else let f1 = (if gf_lastTimestamp f = ts then f\<lparr>gf_sequence := (gf_sequence f + 1) AND sequenceMask\<rparr>
                        else f\<lparr>gf_sequence := 0\<rparr>)
              in if gf_lastTimestamp f = ts \<and> gf_sequence f1 = 0 then (Inl ErrSequenceExpired, f1)
                 else let f2 = f1\<lparr>gf_lastTimestamp := ts\<rparr>;
                          id = s64 (push_bit 22 (ts - twepoch)) OR s64 (push_bit 12 (gf_nodeID f2)) OR gf_sequence f2
                      in if id \<le> gf_lastID f2 then (Inl ErrIDBackwards, f2) else (Inr id, f2\<lparr>gf_lastID := id\<rparr>))"

definition guid_Hex :: "int \<Rightarrow> bytes option" where
  "guid_Hex g = hex_Encode (replicate 16 0) 0
     (map (\<lambda>k. word_of_int (drop_bit k g)) [56, 48, 40, 32, 24, 16, 8, 0])"

section \<open>message.go\<close>

text \<open>The fields \<open>pri\<close> and \<open>index\<close> of a message in the in-flight queue are fields of the queue's item.\<close>

record message =
  msg_ID :: bytes
  msg_Body :: bytes
  msg_Timestamp :: int
  msg_Attempts :: u16
  msg_deliveryTS :: int
  msg_clientID :: int
  msg_deferred :: int

definition NewMessage :: "bytes \<Rightarrow> bytes \<Rightarrow> int \<Rightarrow> message" where
  "NewMessage i body now =
     \<lparr>msg_ID = i, msg_Body = body, msg_Timestamp = now, msg_Attempts = 0, msg_deliveryTS = 0, msg_clientID = 0, msg_deferred = 0\<rparr>"

text \<open>\<open>WriteTo\<close> calls the writer three times and stops at its first error. \<open>write\<close> is the method \<open>Write\<close> of
  the writer: the number of bytes, the error and the new state of the writer.\<close>

definition msg_WriteTo ::
  "('w \<Rightarrow> bytes \<Rightarrow> int \<times> 'err option \<times> 'w) \<Rightarrow> 'w \<Rightarrow> message \<Rightarrow> (int \<times> 'err option \<times> 'w) option" where
  "msg_WriteTo write w m = do {
     buf \<leftarrow> be_PutUint64 (replicate 10 0) (word_of_int (msg_Timestamp m));
     buf \<leftarrow> go_write_from buf 8 (\<lambda>b. be_PutUint16 b (msg_Attempts m));
     let (n1, e1, w) = write w buf;
     if e1 \<noteq> None then Some (n1, e1, w)
     else let (n2, e2, w) = write w (msg_ID m)
       in if e2 \<noteq> None then Some (n1 + n2, e2, w)
          else let (n3, e3, w) = write w (msg_Body m)
            in if e3 \<noteq> None then Some (n1 + n2 + n3, e3, w) else Some (n1 + n2 + n3, None, w)
   }"

text \<open>The writer of a \<open>bytes.Buffer\<close> appends and never fails.\<close>

definition buffer_Write :: "bytes \<Rightarrow> bytes \<Rightarrow> int \<times> unit option \<times> bytes" where
  "buffer_Write w b = (int (length b), None, w @ b)"

datatype decode_error = InvalidBufferSize int

definition decodeMessage :: "bytes \<Rightarrow> (decode_error + message) option" where
  "decodeMessage b =
     (if int (length b) < 26 then Some (Inl (InvalidBufferSize (int (length b))))
      else do {
        t \<leftarrow> go_slice b 0 8;
        ts \<leftarrow> be_Uint64 t;
        a \<leftarrow> go_slice b 8 10;
        attempts \<leftarrow> be_Uint16 a;
        i \<leftarrow> go_slice b 10 26;
        body \<leftarrow> go_from b 26;
        Some (Inr \<lparr>msg_ID = i, msg_Body = body, msg_Timestamp = sint ts, msg_Attempts = attempts,
          msg_deliveryTS = 0, msg_clientID = 0, msg_deferred = 0\<rparr>)
      })"

section \<open>names.go and byte\_base10.go\<close>

definition name_char :: "char \<Rightarrow> bool" where
  "name_char c \<longleftrightarrow> c \<in> set ''.abcdefghijklmnopqrstuvwxyzABCDEFGHIJKLMNOPQRSTUVWXYZ0123456789_-''"

text \<open>The regular expression of names: one or more characters of names, and an optional suffix.\<close>

definition isValidName :: "string \<Rightarrow> bool" where
  "isValidName name \<longleftrightarrow>
     (if length name > 64 \<or> length name < 1 then False
      else let body = (if take 10 (rev name) = rev ''#ephemeral'' then take (length name - 10) name else name)
           in body \<noteq> [] \<and> list_all name_char body)"

text \<open>The loop of \<open>ByteToBase10\<close>; \<open>Inl\<close> is \<open>errBase10\<close>, with the result 0.\<close>

fun ByteToBase10_loop :: "u64 \<Rightarrow> bytes \<Rightarrow> (unit + u64)" where
  "ByteToBase10_loop n [] = Inr n"
| "ByteToBase10_loop n (d # b) =
     (if 48 \<le> d \<and> d \<le> 57 then ByteToBase10_loop (n * 10 + ucast (d - 48)) b else Inl ())"

definition ByteToBase10 :: "bytes \<Rightarrow> (unit + u64)" where
  "ByteToBase10 b = ByteToBase10_loop 0 b"

section \<open>The wire format\<close>

definition be16 :: "u16 \<Rightarrow> bytes" where
  "be16 v = [ucast (drop_bit 8 v), ucast v]"

definition be64 :: "u64 \<Rightarrow> bytes" where
  "be64 v = [ucast (drop_bit 56 v), ucast (drop_bit 48 v), ucast (drop_bit 40 v), ucast (drop_bit 32 v),
     ucast (drop_bit 24 v), ucast (drop_bit 16 v), ucast (drop_bit 8 v), ucast v]"

lemma be_lengths [simp]: "length (be16 v) = 2" "length (be64 w) = 8"
  by (simp_all add: be16_def be64_def)

lemma be_Uint16_be16 [simp]: "be_Uint16 (be16 v) = Some v"
  using word16_bytes [of v] by (simp add: be_Uint16_def go_nth_def be16_def)

lemma be_Uint64_be64 [simp]: "be_Uint64 (be64 v) = Some v"
  using word64_bytes [of v] by (simp add: be_Uint64_def go_nth_def be64_def)

lemma be_Uint16_total: "2 \<le> length b \<Longrightarrow> \<exists>v. be_Uint16 b = Some v"
  using two_bytes [of b] by (auto simp: be_Uint16_def go_nth_def)

lemma be_Uint64_total: "8 \<le> length b \<Longrightarrow> \<exists>v. be_Uint64 b = Some v"
  using eight_bytes [of b] by (auto simp: be_Uint64_def go_nth_def)

definition msg_bytes :: "message \<Rightarrow> bytes" where
  "msg_bytes m = be64 (word_of_int (msg_Timestamp m)) @ be16 (msg_Attempts m) @ msg_ID m @ msg_Body m"

lemma be_PutUint16_eq:
  assumes "2 \<le> length b" shows "be_PutUint16 b v = Some (blit b 0 (be16 v))"
proof -
  from two_bytes [OF assms] obtain b0 b1 r where "b = b0 # b1 # r" by blast
  then show ?thesis by (simp add: be_PutUint16_def go_nth_def go_upd_def be16_def blit_def)
qed

lemma be_PutUint64_eq:
  assumes "8 \<le> length b" shows "be_PutUint64 b v = Some (blit b 0 (be64 v))"
proof -
  from eight_bytes [OF assms] obtain b0 b1 b2 b3 b4 b5 b6 b7 r
    where "b = b0 # b1 # b2 # b3 # b4 # b5 # b6 # b7 # r" by blast
  then show ?thesis by (simp add: be_PutUint64_def go_nth_def go_upd_def be64_def blit_def)
qed

lemma be_Put_header:
  "be_PutUint64 (replicate 10 0) v = Some (be64 v @ [0, 0])"
  "go_write_from (be64 v @ [0, 0]) 8 (\<lambda>b. be_PutUint16 b a) = Some (be64 v @ be16 a)"
proof -
  have "drop 8 (replicate 10 0) = [0, 0 :: byte]" by (simp add: numeral_2_eq_2)
  then show "be_PutUint64 (replicate 10 0) v = Some (be64 v @ [0, 0])" by (simp add: be_PutUint64_eq blit_def)
  have "go_write_from (be64 v @ [0, 0]) 8 (\<lambda>b. be_PutUint16 b a) = Some (blit (be64 v @ [0, 0]) (nat 8) (be16 a))"
    by (rule go_write_from_blit) (simp_all add: be_PutUint16_eq)
  then show "go_write_from (be64 v @ [0, 0]) 8 (\<lambda>b. be_PutUint16 b a) = Some (be64 v @ be16 a)" by (simp add: blit_def)
qed

lemma WriteTo_buffer: "msg_WriteTo buffer_Write w m = Some (int (length (msg_bytes m)), None, w @ msg_bytes m)"
  by (simp add: msg_WriteTo_def be_Put_header buffer_Write_def msg_bytes_def)

lemma decode_parts:
  assumes "length t = 8" "length a = 2" "length i = 16"
  shows "decodeMessage (t @ a @ i @ body) = do {
     ts \<leftarrow> be_Uint64 t;
     attempts \<leftarrow> be_Uint16 a;
     Some (Inr \<lparr>msg_ID = i, msg_Body = body, msg_Timestamp = sint ts, msg_Attempts = attempts,
       msg_deliveryTS = 0, msg_clientID = 0, msg_deferred = 0\<rparr>) }"
  using assms by (simp add: decodeMessage_def go_slice_def go_from_def)

lemma decode_msg_bytes:
  assumes "length (msg_ID m) = 16" "- (2 ^ 63) \<le> msg_Timestamp m" "msg_Timestamp m < 2 ^ 63"
  shows "decodeMessage (msg_bytes m) = Some (Inr (m\<lparr>msg_deliveryTS := 0, msg_clientID := 0, msg_deferred := 0\<rparr>))"
proof -
  have "sint (word_of_int (msg_Timestamp m) :: u64) = msg_Timestamp m"
    using assms(2, 3) by (simp add: sint_sbintrunc' signed_take_bit_int_eq_self)
  then show ?thesis
    using assms(1) decode_parts [of "be64 (word_of_int (msg_Timestamp m))" "be16 (msg_Attempts m)" "msg_ID m" "msg_Body m"]
    by (simp add: msg_bytes_def)
qed

text \<open>
  C26. The wire format round-trips: \<open>WriteTo\<close> on a buffer appends the bytes of the message and reports their
  number, and decoding them gives the message back, without its in-flight state.
\<close>

theorem message_roundtrip:
  assumes "length (msg_ID m) = 16" "- (2 ^ 63) \<le> msg_Timestamp m" "msg_Timestamp m < 2 ^ 63"
  shows "\<exists>b. msg_WriteTo buffer_Write w m = Some (int (length b), None, w @ b) \<and>
    decodeMessage b = Some (Inr (m\<lparr>msg_deliveryTS := 0, msg_clientID := 0, msg_deferred := 0\<rparr>))"
  using decode_msg_bytes [OF assms] WriteTo_buffer [of w m] by blast

theorem message_roundtrip_witness:
  "\<exists>b. msg_WriteTo buffer_Write [] (NewMessage (replicate 16 48) [7, 8] 1000) = Some (int (length b), None, b) \<and>
     decodeMessage b = Some (Inr (NewMessage (replicate 16 48) [7, 8] 1000))"
  using message_roundtrip [of "NewMessage (replicate 16 48) [7, 8] 1000" "[]"] by (simp add: NewMessage_def)

text \<open>Decoding never panics, and reports exactly the buffers that are too short.\<close>

theorem decodeMessage_total:
  "decodeMessage b = Some (Inl (InvalidBufferSize (int (length b)))) \<and> length b < 26 \<or>
   (\<exists>m. decodeMessage b = Some (Inr m) \<and> 26 \<le> length b \<and> length (msg_ID m) = 16 \<and>
      msg_Body m = drop 26 b)"
proof (cases "length b < 26")
  case False
  let ?t = "take 8 b" and ?a = "take 2 (drop 8 b)" and ?i = "take 16 (drop 10 b)"
  have "?i @ drop 26 b = drop 10 b" using append_take_drop_id [of 16 "drop 10 b"] by simp
  moreover have "?a @ drop 10 b = drop 8 b" using append_take_drop_id [of 2 "drop 8 b"] by simp
  ultimately have b: "b = ?t @ ?a @ ?i @ drop 26 b" by simp
  have l: "length ?t = 8" "length ?a = 2" "length ?i = 16" using False by simp_all
  obtain ts where "be_Uint64 ?t = Some ts" using be_Uint64_total [of ?t] unfolding l(1) by auto
  moreover obtain a where "be_Uint16 ?a = Some a" using be_Uint16_total [of ?a] unfolding l(2) by auto
  ultimately show ?thesis using decode_parts [OF l, of "drop 26 b"] b l False by fastforce
qed (simp add: decodeMessage_def)

section \<open>Identifiers\<close>

lemma mask12: "sequenceMask = mask 12"
  by (simp add: sequenceMask_def mask_eq_exp_minus_1 push_bit_minus_one_eq_not_mask)

lemma or_disjoint:
  fixes a b :: int
  assumes "0 \<le> b" "b < 2 ^ k"
  shows "push_bit k a OR b = a * 2 ^ k + b"
proof -
  have b: "take_bit k b = b" using assms by (simp add: take_bit_int_eq_self)
  have "push_bit k a + b = push_bit k a OR b"
  proof (rule disjunctive_add)
    fix n show "\<not> bit (push_bit k a) n \<or> \<not> bit b n"
      using b by (metis bit_push_bit_iff_int bit_take_bit_iff not_le)
  qed
  then show ?thesis by (simp add: push_bit_eq_mult)
qed

lemma guid_value:
  assumes "0 \<le> t" "t < 2 ^ 41" "0 \<le> n" "n < 2 ^ 10" "0 \<le> q" "q < 2 ^ 12"
  shows "s64 (push_bit 22 t) OR s64 (push_bit 12 n) OR q = (t * 2 ^ 10 + n) * 2 ^ 12 + q"
proof -
  have "s64 (push_bit 22 t) = push_bit 22 t" "s64 (push_bit 12 n) = push_bit 12 n"
    using assms by (auto intro!: s64_small simp: push_bit_eq_mult)
  moreover have "push_bit 12 n OR q = n * 2 ^ 12 + q" using assms by (intro or_disjoint) auto
  moreover have "push_bit 22 t OR (n * 2 ^ 12 + q) = t * 2 ^ 22 + (n * 2 ^ 12 + q)" using assms by (intro or_disjoint) auto
  ultimately show ?thesis by (simp add: or.assoc algebra_simps)
qed

text \<open>The identifiers that a factory hands out at the given times; errors are skipped.\<close>

fun guids :: "guid_factory \<Rightarrow> int list \<Rightarrow> int list" where
  "guids f [] = []"
| "guids f (now # clock) = (case NewGUID f now of (Inl e, f) \<Rightarrow> guids f clock | (Inr i, f) \<Rightarrow> i # guids f clock)"

text \<open>The clock shows a time after the epoch of the identifiers, for as long as they last (73 years).\<close>

definition clock_range :: "int list \<Rightarrow> bool" where
  "clock_range clock \<longleftrightarrow> (\<forall>now \<in> set clock. twepoch \<le> drop_bit 20 now \<and> drop_bit 20 now < twepoch + 2 ^ 41)"

definition node_of :: "int \<Rightarrow> int" where
  "node_of i = i div 2 ^ 12 mod 2 ^ 10"

lemma node_of_value:
  assumes "0 \<le> n" "n < 2 ^ 10" "0 \<le> q" "q < 2 ^ 12"
  shows "node_of ((t * 2 ^ 10 + n) * 2 ^ 12 + q) = n"
proof -
  have "((t * 2 ^ 10 + n) * 2 ^ 12 + q) div 2 ^ 12 = t * 2 ^ 10 + n" using assms(3, 4) by (simp only: div_mult_self3) simp
  then show ?thesis using assms(1, 2) by (simp add: node_of_def)
qed

definition factory_ok :: "guid_factory \<Rightarrow> bool" where
  "factory_ok f \<longleftrightarrow> 0 \<le> gf_nodeID f \<and> gf_nodeID f < 2 ^ 10 \<and> 0 \<le> gf_sequence f \<and> gf_sequence f < 2 ^ 12 \<and> 0 \<le> gf_lastID f"

lemma NewGUID_ok:
  assumes "factory_ok f" "clock_range [now]" "NewGUID f now = (r, f')"
  shows "factory_ok f' \<and> gf_nodeID f' = gf_nodeID f \<and> gf_lastID f \<le> gf_lastID f' \<and>
    (case r of Inl e \<Rightarrow> True | Inr i \<Rightarrow> gf_lastID f < i \<and> i = gf_lastID f' \<and> i < 2 ^ 63 \<and> node_of i = gf_nodeID f)"
proof -
  let ?t = "drop_bit 20 now - twepoch"
  have t: "0 \<le> ?t" "?t < 2 ^ 41" using assms(2) by (auto simp: clock_range_def)
  have seq: "0 \<le> (gf_sequence f + 1) AND sequenceMask \<and> (gf_sequence f + 1) AND sequenceMask < 2 ^ 12"
    using take_bit_int_less_exp [of 12 "gf_sequence f + 1"] by (simp add: mask12 flip: take_bit_eq_mask)
  have good: "0 \<le> i \<and> i < 2 ^ 63 \<and> node_of i = gf_nodeID f"
    if "i = s64 (push_bit 22 ?t) OR s64 (push_bit 12 (gf_nodeID f)) OR q" "0 \<le> q" "q < 2 ^ 12" for i q
  proof -
    have i: "i = (?t * 2 ^ 10 + gf_nodeID f) * 2 ^ 12 + q"
      using that t assms(1) guid_value [of ?t "gf_nodeID f" q] by (simp add: factory_ok_def)
    have "node_of i = gf_nodeID f" unfolding i using that assms(1) by (intro node_of_value) (auto simp: factory_ok_def)
    moreover have "0 \<le> i" "i < 2 ^ 63" using i that t assms(1) by (auto simp: factory_ok_def)
    ultimately show ?thesis by simp
  qed
  from good [of _ 0] have good0: "0 \<le> i \<and> i < 2 ^ 63 \<and> node_of i = gf_nodeID f"
    if "i = s64 (push_bit 22 ?t) OR s64 (push_bit 12 (gf_nodeID f))" for i using that by simp
  show ?thesis using assms(1, 3) seq good [OF refl, of "(gf_sequence f + 1) AND sequenceMask"] good0 [OF refl]
    by (auto simp: NewGUID_def Let_def factory_ok_def split: if_splits)
qed

lemma guids_ok:
  assumes "factory_ok f" "clock_range clock"
  shows "sorted_wrt (<) (guids f clock) \<and>
    (\<forall>i \<in> set (guids f clock). gf_lastID f < i \<and> i < 2 ^ 63 \<and> node_of i = gf_nodeID f)"
  using assms
proof (induction clock arbitrary: f)
  case (Cons now clock)
  obtain r f' where r: "NewGUID f now = (r, f')" by (cases "NewGUID f now")
  have c: "clock_range [now]" "clock_range clock" using Cons.prems(2) by (auto simp: clock_range_def)
  note step = NewGUID_ok [OF Cons.prems(1) c(1) r]
  note rest = Cons.IH [OF _ c(2), of f']
  show ?case using step rest r by (cases r) fastforce+
qed simp

section \<open>Hexadecimal identifiers\<close>

definition hex_byte :: "byte \<Rightarrow> bytes" where
  "hex_byte v = [hextable ! unat (drop_bit 4 v), hextable ! unat (v AND 0x0f)]"

lemma nibbles: "unat (drop_bit 4 v) < 16" "unat (v AND 0x0f) < 16" for v :: byte
proof -
  have "unat v < 256" using unsigned_less [of v, where ?'a = nat] by simp
  then show "unat (drop_bit 4 v) < 16" by (simp add: drop_bit_eq_div unat_div less_mult_imp_div_less)
  have "v AND 0x0f \<le> 0x0f" by (rule word_and_le1)
  then show "unat (v AND 0x0f) < 16" by (simp add: word_le_nat_alt)
qed

lemma hextable_nth: "n < 16 \<Longrightarrow> go_nth hextable (int n) = Some (hextable ! n)"
  by (rule go_nth_int) (simp add: hextable_def)

lemma hex_Encode_eq:
  "j + 2 * length src \<le> length dst \<Longrightarrow>
   hex_Encode dst (int j) src = Some (take j dst @ concat (map hex_byte src) @ drop (j + 2 * length src) dst)"
proof (induction src arbitrary: dst j)
  case (Cons v src)
  let ?hi = "hextable ! unat (drop_bit 4 v)" and ?lo = "hextable ! unat (v AND 0x0f)"
  let ?dst = "dst[j := ?hi, Suc j := ?lo]"
  have "hex_Encode dst (int j) (v # src) = hex_Encode ?dst (int (Suc (Suc j))) src"
    using Cons.prems hextable_nth [OF nibbles(1) [of v]] hextable_nth [OF nibbles(2) [of v]]
    by (simp add: go_upd_def nat_add_distrib add.commute flip: uint_nat)
  also have "\<dots> = Some (take (Suc (Suc j)) ?dst @ concat (map hex_byte src) @ drop (Suc (Suc j) + 2 * length src) ?dst)"
    using Cons.prems by (intro Cons.IH) simp
  also have "take (Suc (Suc j)) ?dst = take j dst @ hex_byte v"
    using Cons.prems by (simp add: take_Suc_conv_app_nth hex_byte_def)
  finally show ?case using Cons.prems by (simp add: numeral_eq_Suc)
qed simp

lemma guid_Hex_eq: "guid_Hex g = Some (concat (map (\<lambda>k. hex_byte (word_of_int (drop_bit k g))) [56, 48, 40, 32, 24, 16, 8, 0]))"
  using hex_Encode_eq [of 0 "map (\<lambda>k. word_of_int (drop_bit k g)) [56, 48, 40, 32, 24, 16, 8, 0]" "replicate 16 0"]
  by (simp add: guid_Hex_def comp_def)

lemma hex_byte_inj: "hex_byte v = hex_byte w \<Longrightarrow> v = w"
proof -
  assume h: "hex_byte v = hex_byte w"
  have d: "distinct hextable" "length hextable = 16" by (simp_all add: hextable_def)
  have "drop_bit 4 v = drop_bit 4 w" "v AND 0x0f = w AND 0x0f"
    using h d nibbles [of v] nibbles [of w] nth_eq_iff_index_eq [OF d(1)]
    by (auto simp: hex_byte_def simp: word_unat_eq_iff)
  moreover have "v AND 0x0f = take_bit 4 v" for v :: byte by (simp add: take_bit_eq_mask mask_eq_exp_minus_1)
  ultimately show ?thesis by (metis bits_ident)
qed

text \<open>The eight bytes determine an identifier.\<close>

lemma bytes_determine:
  assumes "0 \<le> g" "g < 2 ^ 63" "0 \<le> h" "h < 2 ^ 63"
    "\<And>k. k \<in> {56, 48, 40, 32, 24, 16, 8, 0} \<Longrightarrow> (word_of_int (drop_bit k g) :: byte) = word_of_int (drop_bit k h)"
  shows "g = h"
proof -
  let ?w = "\<lambda>g. word_of_int g :: u64"
  have b: "ucast (drop_bit k (?w g)) = (word_of_int (drop_bit k g) :: byte)" if "k \<le> 56" for k :: nat and g
    using that by (intro bit_word_eqI) (simp add: bit_simps add.commute)
  have e: "ucast (drop_bit k (?w g)) = (ucast (drop_bit k (?w h)) :: byte)" if "k \<in> {56, 48, 40, 32, 24, 16, 8, 0}" for k
  proof -
    have "k \<le> 56" using that by auto
    from assms(5) [OF that] b [OF this, of g] b [OF this, of h] show ?thesis by (simp only:)
  qed
  have "be64 (?w g) = be64 (?w h)"
    using e [of 0] e [of 8] e [of 16] e [of 24] e [of 32] e [of 40] e [of 48] e [of 56] by (simp add: be64_def)
  then have "be_Uint64 (be64 (?w g)) = be_Uint64 (be64 (?w h))" by (rule arg_cong)
  then have w: "?w g = ?w h" by simp
  have "g = uint (?w g)" using assms(1, 2) by (simp add: uint_word_of_int)
  also have "\<dots> = uint (?w h)" unfolding w ..
  also have "\<dots> = h" using assms(3, 4) by (simp add: uint_word_of_int)
  finally show ?thesis .
qed

lemma guid_Hex_inj:
  assumes "0 \<le> g" "g < 2 ^ 63" "0 \<le> h" "h < 2 ^ 63" "guid_Hex g = guid_Hex h"
  shows "g = h"
proof (rule bytes_determine [OF assms(1-4)])
  have "map hex_byte (map (\<lambda>k. word_of_int (drop_bit k g)) [56, 48, 40, 32, 24, 16, 8, 0]) =
      map hex_byte (map (\<lambda>k. word_of_int (drop_bit k h)) [56, 48, 40, 32, 24, 16, 8, 0])"
    using assms(5) by (simp add: guid_Hex_eq hex_byte_def)
  then have "map (\<lambda>k. word_of_int (drop_bit k g) :: byte) [56, 48, 40, 32, 24, 16, 8, 0] =
      map (\<lambda>k. word_of_int (drop_bit k h)) [56, 48, 40, 32, 24, 16, 8, 0]"
    using hex_byte_inj by (metis (no_types, lifting) inj_onI inj_map_eq_map injI)
  then show "(word_of_int (drop_bit k g) :: byte) = word_of_int (drop_bit k h)" if "k \<in> {56, 48, 40, 32, 24, 16, 8, 0}" for k
    using that by auto
qed

text \<open>
  C27. Message identifiers are unique: the identifiers that two factories with different node
  numbers hand out, each at any sequence of clock readings in the range of the format, whether or not the clock runs
  backwards, are pairwise different, also in their hexadecimal form, which always exists.
\<close>

theorem guid_unique:
  assumes "0 \<le> n1" "n1 < 1024" "0 \<le> n2" "n2 < 1024" "n1 \<noteq> n2" "clock_range c1" "clock_range c2"
  shows "distinct (map guid_Hex (guids (NewGUIDFactory n1) c1 @ guids (NewGUIDFactory n2) c2)) \<and>
    None \<notin> set (map guid_Hex (guids (NewGUIDFactory n1) c1 @ guids (NewGUIDFactory n2) c2))"
proof -
  let ?a = "guids (NewGUIDFactory n1) c1" and ?b = "guids (NewGUIDFactory n2) c2"
  have f: "factory_ok (NewGUIDFactory n)" if "0 \<le> n" "n < 1024" for n
    using that by (simp add: factory_ok_def NewGUIDFactory_def)
  note a = guids_ok [OF f [OF assms(1, 2)] assms(6)] and b = guids_ok [OF f [OF assms(3, 4)] assms(7)]
  have "distinct (?a @ ?b)"
    using a b assms(5) strict_sorted_iff [of ?a] strict_sorted_iff [of ?b] by (fastforce simp: NewGUIDFactory_def)
  moreover have "inj_on guid_Hex (set (?a @ ?b))"
  proof (rule inj_onI)
    fix x y assume "x \<in> set (?a @ ?b)" "y \<in> set (?a @ ?b)" "guid_Hex x = guid_Hex y"
    with a b show "x = y" by (intro guid_Hex_inj) (auto simp: NewGUIDFactory_def)
  qed
  ultimately have "distinct (map guid_Hex (?a @ ?b))" by (simp only: distinct_map)
  moreover have "None \<notin> set (map guid_Hex (?a @ ?b))" by (auto simp: guid_Hex_eq)
  ultimately show ?thesis by blast
qed

theorem guid_unique_witness:
  "distinct (map guid_Hex (guids (NewGUIDFactory 1) [1400000000000000000, 1400000000000000001] @
     guids (NewGUIDFactory 2) [1400000000000000000])) \<and>
   length (guids (NewGUIDFactory 1) [1400000000000000000, 1400000000000000001]) = 2"
  using guid_unique [of 1 2 "[1400000000000000000, 1400000000000000001]" "[1400000000000000000]"]
  by (simp add: clock_range_def twepoch_def drop_bit_eq_div NewGUID_def NewGUIDFactory_def Let_def mask12 mask_eq_exp_minus_1
      s64_def push_bit_eq_mult)

section \<open>Numbers of the protocol\<close>

text \<open>The decimal value of a string of digits.\<close>

definition decimal :: "nat \<Rightarrow> bytes \<Rightarrow> nat" where
  "decimal n b = foldl (\<lambda>n d. n * 10 + (unat d - 48)) n b"

lemma base10_loop:
  "ByteToBase10_loop (of_nat n) b =
     (if list_all (\<lambda>d. 48 \<le> d \<and> d \<le> 57) b then Inr (of_nat (decimal n b)) else Inl ())"
proof (induction b arbitrary: n)
  case Nil
  then show ?case by (simp add: decimal_def)
next
  case (Cons d b)
  have "of_nat n * 10 + ucast (d - 48) = (of_nat (n * 10 + (unat d - 48)) :: u64)" if "48 \<le> d"
  proof -
    have "unat (d - 48) = unat d - 48" using that by (simp add: unat_sub)
    then have "(ucast (d - 48) :: u64) = of_nat (unat d - 48)" by (metis of_nat_unat)
    then show ?thesis by simp
  qed
  with Cons.IH [of "n * 10 + (unat d - 48)"] show ?case by (simp add: decimal_def)
qed

text \<open>
  \<open>ByteToBase10\<close> accepts exactly the strings of digits and computes their decimal value modulo \<open>2^64\<close>: a number
  that does not fit wraps around silently.
\<close>

theorem base10_value:
  "ByteToBase10 b = (if list_all (\<lambda>d. 48 \<le> d \<and> d \<le> 57) b then Inr (of_nat (decimal 0 b)) else Inl ())"
  using base10_loop [of 0 b] by (simp add: ByteToBase10_def)

text \<open>The string \<open>18446744073709551617\<close>, which is \<open>2^64 + 1\<close>, is read as 1.\<close>

theorem base10_wraps:
  "ByteToBase10 (map (\<lambda>d. d + 48) [1, 8, 4, 4, 6, 7, 4, 4, 0, 7, 3, 7, 0, 9, 5, 5, 1, 6, 1, 7]) = Inr 1"
  by (simp add: ByteToBase10_def)

end
