(* ===== verification/Heap_Order.thy ===== *)
theory Heap_Order
  imports Go_Prelude "HOL-Library.Multiset"
begin

text \<open>
  Binary min-heaps in an array, and the contract of a priority queue. The order is given by
  a priority function \<open>f\<close> on positions; \<open>heap_but\<close> is a heap with one position out of place,
  the state between the swaps of the sift loops. The locale \<open>priority_queue\<close> states what a
  queue promises; its lemma shows that draining a queue sorts.
\<close>

section \<open>Heaps with a hole\<close>

definition parent :: "nat \<Rightarrow> nat" where
  "parent k = (k - 1) div 2"

definition heap_upto :: "(nat \<Rightarrow> int) \<Rightarrow> nat \<Rightarrow> bool" where
  "heap_upto f n \<longleftrightarrow> (\<forall>k. 0 < k \<longrightarrow> k < n \<longrightarrow> f (parent k) \<le> f k)"

definition above_ok :: "(nat \<Rightarrow> int) \<Rightarrow> nat \<Rightarrow> bool" where
  "above_ok f i \<longleftrightarrow> (0 < i \<longrightarrow> f (parent i) \<le> f i)"

definition below_ok :: "(nat \<Rightarrow> int) \<Rightarrow> nat \<Rightarrow> nat \<Rightarrow> bool" where
  "below_ok f n i \<longleftrightarrow> (\<forall>k. 0 < k \<longrightarrow> k < n \<longrightarrow> parent k = i \<longrightarrow> f i \<le> f k)"

definition heap_but :: "(nat \<Rightarrow> int) \<Rightarrow> nat \<Rightarrow> nat \<Rightarrow> bool" where
  "heap_but f n i \<longleftrightarrow>
     (\<forall>k. 0 < k \<longrightarrow> k < n \<longrightarrow> k \<noteq> i \<longrightarrow> parent k \<noteq> i \<longrightarrow> f (parent k) \<le> f k) \<and>
     (\<forall>k. 0 < k \<longrightarrow> k < n \<longrightarrow> parent k = i \<longrightarrow> 0 < i \<longrightarrow> f (parent i) \<le> f k)"

text \<open>Exchanging the values at two positions.\<close>

definition swapped :: "(nat \<Rightarrow> int) \<Rightarrow> nat \<Rightarrow> nat \<Rightarrow> nat \<Rightarrow> int" where
  "swapped f i j = f(i := f j, j := f i)"

lemma parent_less: "0 < k \<Longrightarrow> parent k < k"
  by (simp add: parent_def)

lemma parent_child: "0 < k \<Longrightarrow> parent k = i \<longleftrightarrow> k = 2 * i + 1 \<or> k = 2 * i + 2"
  by (auto simp: parent_def)

lemma heap_iff_but: "heap_upto f n \<longleftrightarrow> heap_but f n i \<and> (i < n \<longrightarrow> above_ok f i) \<and> below_ok f n i"
proof
  assume h: "heap_upto f n"
  have "f (parent i) \<le> f k" if "0 < k" "k < n" "parent k = i" "0 < i" for k
  proof -
    have "i < n" using that parent_less [of k] by linarith
    then have "f (parent i) \<le> f i" "f i \<le> f k" using h that by (auto simp: heap_upto_def)
    then show ?thesis by linarith
  qed
  with h show "heap_but f n i \<and> (i < n \<longrightarrow> above_ok f i) \<and> below_ok f n i"
    by (auto simp: heap_upto_def heap_but_def above_ok_def below_ok_def)
next
  assume "heap_but f n i \<and> (i < n \<longrightarrow> above_ok f i) \<and> below_ok f n i"
  then show "heap_upto f n"
    unfolding heap_upto_def heap_but_def above_ok_def below_ok_def by metis
qed

lemma heap_but_weaken: "heap_upto f n \<Longrightarrow> heap_but (f(i := x)) n i"
proof -
  assume h: "heap_upto f n"
  then have b: "heap_but f n i" using heap_iff_but [of f n i] by simp
  have "parent i \<noteq> i" if "0 < i" using parent_less [OF that] by simp
  moreover have "k \<noteq> i" if "0 < k" "parent k = i" for k using parent_less [OF that(1)] that(2) by simp
  ultimately show ?thesis using b by (auto simp: heap_but_def)
qed

text \<open>One step down: \<open>j\<close> is a least child of \<open>i\<close> and smaller than \<open>i\<close>.\<close>

lemma sift_down_step:
  assumes but: "heap_but f n i" and j: "0 < j" "j < n" "parent j = i" "f j < f i"
    and least: "\<And>k. 0 < k \<Longrightarrow> k < n \<Longrightarrow> parent k = i \<Longrightarrow> f j \<le> f k"
  shows "heap_but (swapped f i j) n j" "above_ok (swapped f i j) j" "above_ok (swapped f i j) i"
proof -
  have ij: "i < j" using parent_less [OF j(1)] j(3) by simp
  show "above_ok (swapped f i j) j" using j ij by (simp add: above_ok_def swapped_def)
  have pi: "parent i \<noteq> i \<and> parent i \<noteq> j" if "0 < i" using parent_less [OF that] ij by auto
  show "above_ok (swapped f i j) i"
    using but j pi ij by (auto simp: above_ok_def swapped_def heap_but_def)
  show "heap_but (swapped f i j) n j"
    unfolding heap_but_def
  proof (intro conjI allI impI)
    fix k assume k: "0 < k" "k < n" "k \<noteq> j" "parent k \<noteq> j"
    show "swapped f i j (parent k) \<le> swapped f i j k"
    proof (cases "k = i \<or> parent k = i")
      case True
      then show ?thesis
      proof
        assume "k = i"
        with k pi but j ij show ?thesis by (auto simp: swapped_def heap_but_def)
      next
        assume p: "parent k = i"
        with k ij least [of k] parent_less [of k] show ?thesis by (auto simp: swapped_def)
      qed
    next
      case False
      with k but show ?thesis by (auto simp: swapped_def heap_but_def)
    qed
  next
    fix k assume k: "0 < k" "k < n" "parent k = j" "0 < j"
    have ne: "k \<noteq> i" "k \<noteq> j" "parent k \<noteq> i" using parent_less [OF k(1)] k(3) ij by auto
    moreover have "f j \<le> f k" using but k(1-3) ne by (auto simp: heap_but_def)
    ultimately show "swapped f i j (parent j) \<le> swapped f i j k" using j(3) ij by (auto simp: swapped_def)
  qed
qed

text \<open>One step up: \<open>j\<close> is smaller than its parent \<open>i\<close>.\<close>

lemma sift_up_step:
  assumes but: "heap_but f n j" "below_ok f n j" and j: "0 < j" "j < n" "parent j = i" "f j < f i"
  shows "heap_but (swapped f i j) n i" "below_ok (swapped f i j) n i"
proof -
  have ij: "i < j" using parent_less [OF j(1)] j(3) by simp
  have sib: "f i \<le> f k" if "0 < k" "k < n" "parent k = i" "k \<noteq> j" for k
    using but(1) that ij by (auto simp: heap_but_def)
  show "below_ok (swapped f i j) n i"
    unfolding below_ok_def
  proof (intro allI impI)
    fix k assume k: "0 < k" "k < n" "parent k = i"
    show "swapped f i j i \<le> swapped f i j k"
      using sib [OF k] j(4) ij parent_less [OF k(1)] k(3) by (cases "k = j") (auto simp: swapped_def)
  qed
  show "heap_but (swapped f i j) n i"
    unfolding heap_but_def
  proof (intro conjI allI impI)
    fix k assume k: "0 < k" "k < n" "k \<noteq> i" "parent k \<noteq> i"
    show "swapped f i j (parent k) \<le> swapped f i j k"
    proof (cases "parent k = j")
      case True
      then have "k \<noteq> j" using parent_less [OF k(1)] by auto
      with True k but j ij show ?thesis by (auto simp: swapped_def heap_but_def)
    next
      case False
      with k but j show ?thesis by (auto simp: swapped_def heap_but_def)
    qed
  next
    fix k assume k: "0 < k" "k < n" "parent k = i" "0 < i"
    have i: "parent i < i" using parent_less [OF k(4)] .
    have "i < n" using parent_less [OF k(1)] k(2,3) by linarith
    then have "f (parent i) \<le> f i" using but(1) k(4) ij i by (auto simp: heap_but_def)
    with sib [OF k(1-3)] i ij k(3) parent_less [OF k(1)]
    show "swapped f i j (parent i) \<le> swapped f i j k" by (auto simp: swapped_def)
  qed
qed

text \<open>The root is least.\<close>

lemma heap_root: "heap_upto f n \<Longrightarrow> k < n \<Longrightarrow> f 0 \<le> f k"
proof (induction k rule: less_induct)
  case (less k)
  show ?case
  proof (cases "k = 0")
    case False
    then have "parent k < k" by (simp add: parent_less)
    with less have "f 0 \<le> f (parent k)" by auto
    also have "\<dots> \<le> f k" using less.prems False by (simp add: heap_upto_def)
    finally show ?thesis .
  qed simp
qed

lemma heap_upto_mono: "heap_upto f n \<Longrightarrow> m \<le> n \<Longrightarrow> heap_upto f m"
  by (simp add: heap_upto_def)

lemma heap_upto_cong: "(\<And>k. k < n \<Longrightarrow> f k = g k) \<Longrightarrow> heap_upto f n = heap_upto g n"
proof -
  assume eq: "\<And>k. k < n \<Longrightarrow> f k = g k"
  have "f (parent k) = g (parent k)" if "0 < k" "k < n" for k
    using eq [of "parent k"] parent_less [OF that(1)] that(2) by simp
  with eq show ?thesis by (auto simp: heap_upto_def)
qed

lemma heap_but_cong: "(\<And>k. k < n \<Longrightarrow> f k = g k) \<Longrightarrow> i < n \<Longrightarrow> heap_but f n i = heap_but g n i"
proof -
  assume eq: "\<And>k. k < n \<Longrightarrow> f k = g k" and i: "i < n"
  have "f (parent k) = g (parent k)" if "0 < k" "k < n" for k
    using eq [of "parent k"] parent_less [OF that(1)] that(2) by simp
  then show ?thesis using eq i unfolding heap_but_def by (auto 4 3)
qed

section \<open>The contract of a priority queue\<close>

locale priority_queue =
  fixes inv :: "'q \<Rightarrow> bool"
    and items :: "'q \<Rightarrow> ('a \<times> int) multiset"
    and push :: "'a \<Rightarrow> int \<Rightarrow> 'q \<Rightarrow> 'q option"
    and pop :: "'q \<Rightarrow> (('a \<times> int) \<times> 'q) option"
  assumes push_ok: "inv q \<Longrightarrow> \<exists>q'. push a p q = Some q' \<and> inv q' \<and> items q' = add_mset (a, p) (items q)"
    and pop_ok: "inv q \<Longrightarrow> items q \<noteq> {#} \<Longrightarrow> \<exists>x q'. pop q = Some (x, q') \<and> inv q' \<and>
      items q = add_mset x (items q') \<and> (\<forall>y \<in># items q'. snd x \<le> snd y)"
begin

fun push_all :: "('a \<times> int) list \<Rightarrow> 'q \<Rightarrow> 'q option" where
  "push_all [] q = Some q"
| "push_all ((a, p) # xs) q = do { q \<leftarrow> push a p q; push_all xs q }"

fun pops :: "nat \<Rightarrow> 'q \<Rightarrow> (('a \<times> int) list \<times> 'q) option" where
  "pops 0 q = Some ([], q)"
| "pops (Suc n) q = do { (x, q) \<leftarrow> pop q; (xs, q) \<leftarrow> pops n q; Some (x # xs, q) }"

lemma push_all_ok:
  "inv q \<Longrightarrow> \<exists>q'. push_all xs q = Some q' \<and> inv q' \<and> items q' = mset xs + items q"
proof (induction xs arbitrary: q)
  case (Cons x xs)
  obtain a p where x: "x = (a, p)" by (cases x)
  from push_ok [OF Cons.prems, of a p] obtain q1 where
    "push a p q = Some q1" "inv q1" "items q1 = add_mset (a, p) (items q)" by blast
  with Cons.IH [of q1] x show ?case by auto
qed simp

lemma pops_sorted:
  "inv q \<Longrightarrow> n = size (items q) \<Longrightarrow> \<exists>xs q'. pops n q = Some (xs, q') \<and> inv q' \<and> items q' = {#} \<and>
     mset xs = items q \<and> sorted (map snd xs)"
proof (induction n arbitrary: q)
  case (Suc n)
  then have "items q \<noteq> {#}" by auto
  from pop_ok [OF Suc.prems(1) this] obtain x q1 where
    q1: "pop q = Some (x, q1)" "inv q1" "items q = add_mset x (items q1)" "\<forall>y \<in># items q1. snd x \<le> snd y" by blast
  with Suc.IH [of q1] Suc.prems(2) obtain xs q' where
    xs: "pops n q1 = Some (xs, q')" "inv q'" "items q' = {#}" "mset xs = items q1" "sorted (map snd xs)" by auto
  have "\<forall>y \<in> set xs. snd x \<le> snd y" using q1(4) xs(4) by (metis set_mset_mset)
  with q1 xs show ?case by auto
qed simp

lemma heapsort:
  assumes "inv q" "items q = {#}"
  shows "\<exists>q1 ys q2. push_all xs q = Some q1 \<and> pops (length xs) q1 = Some (ys, q2) \<and>
    mset ys = mset xs \<and> sorted (map snd ys) \<and> inv q2 \<and> items q2 = {#}"
proof -
  from push_all_ok [OF assms(1), of xs] obtain q1 where
    q1: "push_all xs q = Some q1" "inv q1" "items q1 = mset xs" using assms(2) by auto
  have "length xs = size (items q1)" using q1(3) by simp
  from pops_sorted [OF q1(2) this] q1 show ?thesis by auto
qed

end

end
