(* ===== verification/Nsq_Pqueue.thy ===== *)
theory Nsq_Pqueue
  imports Heap_Order
begin

text \<open>
  The priority queues of \<open>nsq\<close>: \<open>internal/pqueue/pqueue.go\<close>, which implements the interface of
  the library package \<open>container/heap\<close> (\<open>go1.13-src/container/heap/heap.go\<close>) and is used
  through it, and \<open>nsqd/in_flight_pqueue.go\<close>, which has its own sift loops.

  A queue is a slice of pointers to items; an item appears once, so a slice is a list of item
  records together with the capacity of the slice. The methods of the interface are the
  fields of the record \<open>heap_interface\<close>. Priorities and positions are unbounded integers: the
  test for overflow in the sift loops is never taken for slices that exist.
\<close>

section \<open>container/heap\<close>

record ('h, 'x) heap_interface =
  hi_Len :: "'h \<Rightarrow> int"
  hi_Less :: "'h \<Rightarrow> int \<Rightarrow> int \<Rightarrow> bool option"
  hi_Swap :: "'h \<Rightarrow> int \<Rightarrow> int \<Rightarrow> 'h option"
  hi_Push :: "'h \<Rightarrow> 'x \<Rightarrow> 'h option"
  hi_Pop :: "'h \<Rightarrow> ('x \<times> 'h) option"

lemma up_decreases: "go_div (j - 1) 2 = Some i \<Longrightarrow> i \<noteq> j \<Longrightarrow> nat \<bar>i\<bar> < nat \<bar>j\<bar>"
  by (auto simp: go_div_def sgn_if abs_if split: if_splits)

function heap_up :: "('h, 'x) heap_interface \<Rightarrow> 'h \<Rightarrow> int \<Rightarrow> 'h option" where
  "heap_up I h j = do {
     i \<leftarrow> go_div (j - 1) 2;
     if i = j then Some h
     else do {
       less \<leftarrow> hi_Less I h j i;
       if \<not> less then Some h
       else do {
         h \<leftarrow> hi_Swap I h i j;
         heap_up I h i
       }
     }
   }"
  by pat_completeness auto
termination by (relation "measure (\<lambda>(I, h, j). nat \<bar>j\<bar>)") (auto dest: up_decreases)

declare heap_up.simps [simp del]

text \<open>The loop of \<open>down\<close>: the heap and the last position of the sifted element.\<close>

function heap_down_loop :: "('h, 'x) heap_interface \<Rightarrow> 'h \<Rightarrow> int \<Rightarrow> int \<Rightarrow> ('h \<times> int) option" where
  "heap_down_loop I h i n =
     (let j1 = 2 * i + 1
      in if j1 \<ge> n \<or> j1 < 0 then Some (h, i)
         else do {
           j \<leftarrow> (if j1 + 1 < n then do {
               less \<leftarrow> hi_Less I h (j1 + 1) j1;
               Some (if less then j1 + 1 else j1)
             } else Some j1);
           less \<leftarrow> hi_Less I h j i;
           if \<not> less then Some (h, i)
           else do {
             h \<leftarrow> hi_Swap I h i j;
             heap_down_loop I h j n
           }
         })"
  by pat_completeness auto
termination by (relation "measure (\<lambda>(I, h, i, n). nat (n - i))") (auto simp: Let_def split: if_splits bind_splits)

declare heap_down_loop.simps [simp del]

definition heap_down :: "('h, 'x) heap_interface \<Rightarrow> 'h \<Rightarrow> int \<Rightarrow> int \<Rightarrow> (bool \<times> 'h) option" where
  "heap_down I h i0 n = map_option (\<lambda>(h, i). (i > i0, h)) (heap_down_loop I h i0 n)"

text \<open>The loop of \<open>Init\<close>, from \<open>i\<close> down to 0.\<close>

fun heap_Init_loop :: "('h, 'x) heap_interface \<Rightarrow> 'h \<Rightarrow> nat \<Rightarrow> int \<Rightarrow> 'h option" where
  "heap_Init_loop I h 0 n = Some h"
| "heap_Init_loop I h (Suc i) n = do { (_, h) \<leftarrow> heap_down I h (int i) n; heap_Init_loop I h i n }"

definition heap_Init :: "('h, 'x) heap_interface \<Rightarrow> 'h \<Rightarrow> 'h option" where
  "heap_Init I h = do {
     let n = hi_Len I h;
     k \<leftarrow> go_div n 2;
     heap_Init_loop I h (nat k) n
   }"

definition heap_Push :: "('h, 'x) heap_interface \<Rightarrow> 'h \<Rightarrow> 'x \<Rightarrow> 'h option" where
  "heap_Push I h x = do { h \<leftarrow> hi_Push I h x; heap_up I h (hi_Len I h - 1) }"

definition heap_Pop :: "('h, 'x) heap_interface \<Rightarrow> 'h \<Rightarrow> ('x \<times> 'h) option" where
  "heap_Pop I h = do {
     let n = hi_Len I h - 1;
     h \<leftarrow> hi_Swap I h 0 n;
     (_, h) \<leftarrow> heap_down I h 0 n;
     hi_Pop I h
   }"

definition heap_Remove :: "('h, 'x) heap_interface \<Rightarrow> 'h \<Rightarrow> int \<Rightarrow> ('x \<times> 'h) option" where
  "heap_Remove I h i = do {
     let n = hi_Len I h - 1;
     h \<leftarrow> (if n \<noteq> i then do {
         h \<leftarrow> hi_Swap I h i n;
         (moved, h) \<leftarrow> heap_down I h i n;
         if \<not> moved then heap_up I h i else Some h
       } else Some h);
     hi_Pop I h
   }"

definition heap_Fix :: "('h, 'x) heap_interface \<Rightarrow> 'h \<Rightarrow> int \<Rightarrow> 'h option" where
  "heap_Fix I h i = do {
     (moved, h) \<leftarrow> heap_down I h i (hi_Len I h);
     if \<not> moved then heap_up I h i else Some h
   }"

section \<open>Items and slices of items\<close>

record 'a pq_item =
  pi_val :: 'a
  pi_pri :: int
  pi_index :: int

record 'a pq_slice =
  pq_items :: "'a pq_item list"
  pq_cap :: int

text \<open>\<open>pq[i], pq[j] = pq[j], pq[i]\<close> and the update of the two index fields.\<close>

definition items_swap :: "'a pq_item list \<Rightarrow> int \<Rightarrow> int \<Rightarrow> 'a pq_item list option" where
  "items_swap xs i j = do {
     a \<leftarrow> go_nth xs i;
     b \<leftarrow> go_nth xs j;
     xs \<leftarrow> go_upd xs i b;
     xs \<leftarrow> go_upd xs j a;
     x \<leftarrow> go_nth xs i;
     xs \<leftarrow> go_upd xs i (x\<lparr>pi_index := i\<rparr>);
     y \<leftarrow> go_nth xs j;
     go_upd xs j (y\<lparr>pi_index := j\<rparr>)
   }"

text \<open>Growing by one: a new slice of twice the capacity if the old one is full, then \<open>[0:n+1]\<close>,
  which panics beyond the capacity; \<open>x\<close> is stored in the new slot.\<close>

definition slice_extend :: "'a pq_slice \<Rightarrow> 'a pq_item \<Rightarrow> 'a pq_slice option" where
  "slice_extend q x =
     (let n = int (length (pq_items q));
          c = (if n + 1 > pq_cap q then pq_cap q * 2 else pq_cap q)
      in if n + 1 \<le> c then Some \<lparr>pq_items = pq_items q @ [x\<lparr>pi_index := n\<rparr>], pq_cap = c\<rparr> else None)"

text \<open>Dropping the last element.\<close>

definition slice_chop :: "'a pq_slice \<Rightarrow> ('a pq_item \<times> 'a pq_slice) option" where
  "slice_chop q = do {
     let n = int (length (pq_items q));
     x \<leftarrow> go_nth (pq_items q) (n - 1);
     xs \<leftarrow> go_slice (pq_items q) 0 (n - 1);
     Some (x\<lparr>pi_index := -1\<rparr>, q\<lparr>pq_items := xs\<rparr>)
   }"

text \<open>The reallocation to half the capacity.\<close>

definition slice_shrink :: "'a pq_slice \<Rightarrow> int \<Rightarrow> 'a pq_slice" where
  "slice_shrink q n =
     (if n < pq_cap q div 2 \<and> pq_cap q > 25 then q\<lparr>pq_cap := pq_cap q div 2\<rparr> else q)"

definition slice_make :: "int \<Rightarrow> 'a pq_slice option" where
  "slice_make capacity = (if 0 \<le> capacity then Some \<lparr>pq_items = [], pq_cap = capacity\<rparr> else None)"

section \<open>internal/pqueue\<close>

definition pq_New :: "int \<Rightarrow> 'a pq_slice option" where
  "pq_New capacity = slice_make capacity"

definition pq_Len :: "'a pq_slice \<Rightarrow> int" where
  "pq_Len pq = int (length (pq_items pq))"

definition pq_Less :: "'a pq_slice \<Rightarrow> int \<Rightarrow> int \<Rightarrow> bool option" where
  "pq_Less pq i j = do {
     a \<leftarrow> go_nth (pq_items pq) i;
     b \<leftarrow> go_nth (pq_items pq) j;
     Some (pi_pri a < pi_pri b)
   }"

definition pq_Swap :: "'a pq_slice \<Rightarrow> int \<Rightarrow> int \<Rightarrow> 'a pq_slice option" where
  "pq_Swap pq i j = map_option (\<lambda>xs. pq\<lparr>pq_items := xs\<rparr>) (items_swap (pq_items pq) i j)"

definition pq_Push :: "'a pq_slice \<Rightarrow> 'a pq_item \<Rightarrow> 'a pq_slice option" where
  "pq_Push pq x = slice_extend pq x"

definition pq_Pop :: "'a pq_slice \<Rightarrow> ('a pq_item \<times> 'a pq_slice) option" where
  "pq_Pop pq = slice_chop (slice_shrink pq (int (length (pq_items pq))))"

definition pq_interface :: "('a pq_slice, 'a pq_item) heap_interface" where
  "pq_interface = \<lparr>hi_Len = pq_Len, hi_Less = pq_Less, hi_Swap = pq_Swap, hi_Push = pq_Push, hi_Pop = pq_Pop\<rparr>"

definition pq_PeekAndShift :: "'a pq_slice \<Rightarrow> int \<Rightarrow> ('a pq_item option \<times> int \<times> 'a pq_slice) option" where
  "pq_PeekAndShift pq mx =
     (if pq_Len pq = 0 then Some (None, 0, pq)
      else do {
        item \<leftarrow> go_nth (pq_items pq) 0;
        if pi_pri item > mx then Some (None, pi_pri item - mx, pq)
        else do {
          (x, pq) \<leftarrow> heap_Remove pq_interface pq 0;
          Some (Some x, 0, pq)
        }
      })"

section \<open>nsqd/in_flight_pqueue.go\<close>

definition newInFlightPqueue :: "int \<Rightarrow> 'a pq_slice option" where
  "newInFlightPqueue capacity = slice_make capacity"

definition ifp_Swap :: "'a pq_slice \<Rightarrow> int \<Rightarrow> int \<Rightarrow> 'a pq_slice option" where
  "ifp_Swap pq i j = map_option (\<lambda>xs. pq\<lparr>pq_items := xs\<rparr>) (items_swap (pq_items pq) i j)"

function ifp_up :: "'a pq_slice \<Rightarrow> int \<Rightarrow> 'a pq_slice option" where
  "ifp_up pq j = do {
     i \<leftarrow> go_div (j - 1) 2;
     if i = j then Some pq
     else do {
       a \<leftarrow> go_nth (pq_items pq) j;
       b \<leftarrow> go_nth (pq_items pq) i;
       if pi_pri a \<ge> pi_pri b then Some pq
       else do {
         pq \<leftarrow> ifp_Swap pq i j;
         ifp_up pq i
       }
     }
   }"
  by pat_completeness auto
termination by (relation "measure (\<lambda>(pq, j). nat \<bar>j\<bar>)") (auto dest: up_decreases)

declare ifp_up.simps [simp del]

function ifp_down :: "'a pq_slice \<Rightarrow> int \<Rightarrow> int \<Rightarrow> 'a pq_slice option" where
  "ifp_down pq i n =
     (let j1 = 2 * i + 1
      in if j1 \<ge> n \<or> j1 < 0 then Some pq
         else do {
           right \<leftarrow> (if j1 + 1 < n then do {
               a \<leftarrow> go_nth (pq_items pq) j1;
               b \<leftarrow> go_nth (pq_items pq) (j1 + 1);
               Some (pi_pri a \<ge> pi_pri b)
             } else Some False);
           x \<leftarrow> go_nth (pq_items pq) (if right then j1 + 1 else j1);
           y \<leftarrow> go_nth (pq_items pq) i;
           if pi_pri x \<ge> pi_pri y then Some pq
           else do {
             pq \<leftarrow> ifp_Swap pq i (if right then j1 + 1 else j1);
             ifp_down pq (if right then j1 + 1 else j1) n
           }
         })"
  by pat_completeness auto
termination by (relation "measure (\<lambda>(pq, i, n). nat (n - i))") (auto simp: Let_def split: if_splits)

declare ifp_down.simps [simp del]

definition ifp_Push :: "'a pq_slice \<Rightarrow> 'a pq_item \<Rightarrow> 'a pq_slice option" where
  "ifp_Push pq x = do {
     let n = int (length (pq_items pq));
     pq \<leftarrow> slice_extend pq x;
     ifp_up pq n
   }"

definition ifp_Pop :: "'a pq_slice \<Rightarrow> ('a pq_item \<times> 'a pq_slice) option" where
  "ifp_Pop pq = do {
     let n = int (length (pq_items pq));
     pq \<leftarrow> ifp_Swap pq 0 (n - 1);
     pq \<leftarrow> ifp_down pq 0 (n - 1);
     slice_chop (slice_shrink pq n)
   }"

definition ifp_Remove :: "'a pq_slice \<Rightarrow> int \<Rightarrow> ('a pq_item \<times> 'a pq_slice) option" where
  "ifp_Remove pq i = do {
     let n = int (length (pq_items pq));
     pq \<leftarrow> (if n - 1 \<noteq> i then do {
         pq \<leftarrow> ifp_Swap pq i (n - 1);
         pq \<leftarrow> ifp_down pq i (n - 1);
         ifp_up pq i
       } else Some pq);
     slice_chop pq
   }"

definition ifp_PeekAndShift :: "'a pq_slice \<Rightarrow> int \<Rightarrow> ('a pq_item option \<times> int \<times> 'a pq_slice) option" where
  "ifp_PeekAndShift pq mx =
     (if length (pq_items pq) = 0 then Some (None, 0, pq)
      else do {
        x \<leftarrow> go_nth (pq_items pq) 0;
        if pi_pri x > mx then Some (None, pi_pri x - mx, pq)
        else do {
          (x, pq) \<leftarrow> ifp_Pop pq;
          Some (Some x, 0, pq)
        }
      })"

end
