(* ===== verification/Nsq_Pqueue_Props.thy ===== *)
theory Nsq_Pqueue_Props
  imports Nsq_Pqueue
begin

text \<open>
  Both priority queues of \<open>nsq\<close> meet the contract of a priority queue. The two sift-down loops
  differ in how they break ties between children; \<open>sift_down\<close> takes the tie rule as an
  argument and covers both. The index field of every item is its position, so that \<open>Remove\<close>
  with the index stored in an item removes this item.
\<close>

section \<open>Swapping\<close>

definition prio :: "'a pq_item list \<Rightarrow> nat \<Rightarrow> int" where
  "prio xs k = (if k < length xs then pi_pri (xs ! k) else 0)"

definition core :: "'a pq_item \<Rightarrow> 'a \<times> int" where
  "core x = (pi_val x, pi_pri x)"

definition bag :: "'a pq_item list \<Rightarrow> ('a \<times> int) multiset" where
  "bag xs = mset (map core xs)"

definition indices_ok :: "'a pq_item list \<Rightarrow> bool" where
  "indices_ok xs \<longleftrightarrow> (\<forall>k < length xs. pi_index (xs ! k) = int k)"

definition swap_items :: "'a pq_item list \<Rightarrow> nat \<Rightarrow> nat \<Rightarrow> 'a pq_item list" where
  "swap_items xs i j = xs[i := (xs ! j)\<lparr>pi_index := int i\<rparr>, j := (xs ! i)\<lparr>pi_index := int j\<rparr>]"

text \<open>A rearrangement of the first \<open>n\<close> elements.\<close>

definition kept :: "nat \<Rightarrow> 'a pq_item list \<Rightarrow> 'a pq_item list \<Rightarrow> bool" where
  "kept n xs ys \<longleftrightarrow> length ys = length xs \<and> bag ys = bag xs \<and> (indices_ok xs \<longrightarrow> indices_ok ys) \<and>
     (\<forall>k. n \<le> k \<longrightarrow> k < length xs \<longrightarrow> ys ! k = xs ! k)"

lemma kept_refl: "kept n xs xs"
  by (simp add: kept_def)

lemma kept_trans: "kept n xs ys \<Longrightarrow> kept n ys zs \<Longrightarrow> kept n xs zs"
  by (simp add: kept_def)

lemma core_index [simp]: "core (x\<lparr>pi_index := i\<rparr>) = core x"
  by (simp add: core_def)

lemma length_swap_items [simp]: "length (swap_items xs i j) = length xs"
  by (simp add: swap_items_def)

lemma items_swap_eq:
  "i < length xs \<Longrightarrow> j < length xs \<Longrightarrow> items_swap xs (int i) (int j) = Some (swap_items xs i j)"
  by (cases "i = j") (auto simp: items_swap_def go_nth_def go_upd_def swap_items_def list_update_swap)

lemma prio_swap: "i < length xs \<Longrightarrow> j < length xs \<Longrightarrow> prio (swap_items xs i j) = swapped (prio xs) i j"
  by (auto simp: fun_eq_iff prio_def swap_items_def swapped_def nth_list_update)

lemma bag_swap:
  assumes "i < length xs" "j < length xs" shows "bag (swap_items xs i j) = bag xs"
proof -
  have "map core (swap_items xs i j) = (map core xs)[i := map core xs ! j, j := map core xs ! i]"
    using assms by (simp add: swap_items_def map_update)
  with assms mset_swap [of j "map core xs" i] show ?thesis by (simp add: bag_def)
qed

lemma kept_swap: "i < n \<Longrightarrow> j < n \<Longrightarrow> n \<le> length xs \<Longrightarrow> kept n xs (swap_items xs i j)"
  by (auto simp: kept_def bag_swap indices_ok_def) (auto simp: swap_items_def nth_list_update)

section \<open>The sift loops on lists\<close>

function sift_up :: "'a pq_item list \<Rightarrow> nat \<Rightarrow> 'a pq_item list" where
  "sift_up xs j =
     (if j = 0 \<or> prio xs j \<ge> prio xs (parent j) then xs else sift_up (swap_items xs (parent j) j) (parent j))"
  by pat_completeness auto
termination by (relation "measure snd") (auto simp: parent_less)

declare sift_up.simps [simp del]

definition child :: "(int \<Rightarrow> int \<Rightarrow> bool) \<Rightarrow> 'a pq_item list \<Rightarrow> nat \<Rightarrow> nat \<Rightarrow> nat" where
  "child tie xs i n =
     (if 2 * i + 2 < n \<and> tie (prio xs (2 * i + 1)) (prio xs (2 * i + 2)) then 2 * i + 2 else 2 * i + 1)"

lemma child_greater: "i < child tie xs i n"
  by (simp add: child_def)

function sift_down :: "(int \<Rightarrow> int \<Rightarrow> bool) \<Rightarrow> 'a pq_item list \<Rightarrow> nat \<Rightarrow> nat \<Rightarrow> 'a pq_item list \<times> nat" where
  "sift_down tie xs i n =
     (if 2 * i + 1 \<ge> n \<or> prio xs (child tie xs i n) \<ge> prio xs i then (xs, i)
      else sift_down tie (swap_items xs i (child tie xs i n)) (child tie xs i n) n)"
  by pat_completeness auto
termination by (relation "measure (\<lambda>(tie, xs, i, n). n - i)") (auto simp: child_greater diff_less_mono2)

declare sift_down.simps [simp del]

text \<open>What a tie rule may do.\<close>

definition tie_ok :: "(int \<Rightarrow> int \<Rightarrow> bool) \<Rightarrow> bool" where
  "tie_ok tie \<longleftrightarrow> (\<forall>a b. if tie a b then b \<le> a else a \<le> b)"

lemma tie_rules: "tie_ok (\<lambda>a b. b < a)" "tie_ok (\<lambda>a b. b \<le> a)"
  by (auto simp: tie_ok_def)

lemma child_least:
  assumes "tie_ok tie" "2 * i + 1 < n"
  shows "0 < child tie xs i n" "child tie xs i n < n" "parent (child tie xs i n) = i"
    "0 < k \<Longrightarrow> k < n \<Longrightarrow> parent k = i \<Longrightarrow> prio xs (child tie xs i n) \<le> prio xs k"
proof -
  show c: "0 < child tie xs i n" by (simp add: child_def)
  show "child tie xs i n < n" using assms(2) by (simp add: child_def)
  show "parent (child tie xs i n) = i" unfolding parent_child [OF c] by (simp add: child_def)
  assume k: "0 < k" "k < n" "parent k = i"
  have t: "if tie a b then b \<le> a else a \<le> b" for a b using assms(1) by (simp add: tie_ok_def)
  have "k = 2 * i + 1 \<or> k = 2 * i + 2" using k(1,3) parent_child by blast
  then show "prio xs (child tie xs i n) \<le> prio xs k"
    using k(2) t [of "prio xs (2 * i + 1)" "prio xs (2 * i + 2)"] by (auto simp: child_def split: if_splits)
qed

lemma sift_up_ok:
  assumes "j < n" "n \<le> length xs" "heap_but (prio xs) n j" "below_ok (prio xs) n j"
  shows "heap_upto (prio (sift_up xs j)) n \<and> kept n xs (sift_up xs j)"
  using assms
proof (induction xs j rule: sift_up.induct)
  case (1 xs j)
  show ?case
  proof (cases "j = 0 \<or> prio xs j \<ge> prio xs (parent j)")
    case True
    then have "above_ok (prio xs) j" by (auto simp: above_ok_def)
    with True "1.prems" heap_iff_but [of "prio xs" n j] show ?thesis
      by (subst (1 2) sift_up.simps) (simp add: kept_refl)
  next
    case False
    let ?i = "parent j"
    let ?ys = "swap_items xs ?i j"
    have i: "?i < j" using False by (simp add: parent_less)
    have p: "prio ?ys = swapped (prio xs) ?i j" using i "1.prems"(1,2) by (intro prio_swap) auto
    have "heap_but (prio ?ys) n ?i" "below_ok (prio ?ys) n ?i"
      unfolding p using sift_up_step [OF "1.prems"(3,4) _ "1.prems"(1) refl] False by auto
    with "1.IH" [OF False] i "1.prems"(1,2)
    have "heap_upto (prio (sift_up ?ys ?i)) n \<and> kept n ?ys (sift_up ?ys ?i)" by simp
    moreover have "kept n xs ?ys" using i "1.prems"(1,2) by (intro kept_swap) auto
    moreover have "sift_up xs j = sift_up ?ys ?i" using False by (subst sift_up.simps) simp
    ultimately show ?thesis using kept_trans [of n xs ?ys "sift_up ?ys ?i"] by simp
  qed
qed

lemma sift_down_ok:
  assumes "tie_ok tie" "n \<le> length xs" "heap_but (prio xs) n i" "sift_down tie xs i n = (ys, i')"
  shows "kept n xs ys \<and> i \<le> i' \<and> (i' = i \<longrightarrow> ys = xs \<and> below_ok (prio xs) n i) \<and>
    (i < i' \<or> above_ok (prio xs) i \<longrightarrow> heap_upto (prio ys) n)"
  using assms
proof (induction tie xs i n rule: sift_down.induct)
  case (1 tie xs i n)
  let ?j = "child tie xs i n"
  show ?case
  proof (cases "2 * i + 1 \<ge> n \<or> prio xs ?j \<ge> prio xs i")
    case True
    then have r: "ys = xs" "i' = i" using "1.prems"(4) by (auto simp: sift_down.simps [of tie xs])
    have "below_ok (prio xs) n i"
    proof (cases "2 * i + 1 \<ge> n")
      case True
      then show ?thesis by (auto simp: below_ok_def parent_child)
    next
      case False
      then have "2 * i + 1 < n" and le: "prio xs i \<le> prio xs ?j" using True by simp_all
      note least = child_least(4) [OF "1.prems"(1) this(1), where xs = xs]
      show ?thesis unfolding below_ok_def using le least by (intro allI impI) (rule order_trans)
    qed
    with r "1.prems"(3) heap_iff_but [of "prio xs" n i] show ?thesis by (auto simp: kept_refl)
  next
    case False
    then have n: "2 * i + 1 < n" by simp
    note j = child_least [OF "1.prems"(1) n, where xs = xs]
    let ?ys = "swap_items xs i ?j"
    have ij: "i < ?j" by (rule child_greater)
    have p: "prio ?ys = swapped (prio xs) i ?j" using ij j(2) "1.prems"(2) by (intro prio_swap) auto
    have st: "heap_but (prio ?ys) n ?j" "above_ok (prio ?ys) ?j"
      unfolding p using sift_down_step [OF "1.prems"(3) j(1-3)] j(4) False by auto
    have "sift_down tie ?ys ?j n = (ys, i')" using "1.prems"(4) False by (simp add: sift_down.simps [of tie xs])
    with "1.IH" [OF False "1.prems"(1)] "1.prems"(2) st
    have "kept n ?ys ys" "?j \<le> i'" "heap_upto (prio ys) n" by auto
    moreover have "kept n xs ?ys" using ij j(2) "1.prems"(2) by (intro kept_swap) auto
    ultimately show ?thesis using kept_trans [of n xs ?ys ys] ij by simp
  qed
qed

section \<open>The code computes these loops\<close>

lemma go_parent: "go_div (int j - 1) 2 = Some (int (parent j))"
proof (cases j)
  case 0
  then show ?thesis by (simp add: go_div_def parent_def)
next
  case (Suc m)
  then have "int j - 1 = int m" by simp
  moreover have "go_div (int m) 2 = Some (int (m div 2))" by (simp add: go_div_nonneg zdiv_int)
  ultimately show ?thesis using Suc by (simp add: parent_def)
qed

lemma ifp_up_eq:
  "j < length (pq_items q) \<Longrightarrow> ifp_up q (int j) = Some (q\<lparr>pq_items := sift_up (pq_items q) j\<rparr>)"
proof (induction j arbitrary: q rule: less_induct)
  case (less j)
  show ?case
  proof (cases "j = 0")
    case True
    then show ?thesis using go_parent [of 0] by (subst ifp_up.simps, subst sift_up.simps) (simp add: parent_def)
  next
    case False
    have i: "parent j < j" using False by (simp add: parent_less)
    let ?q = "q\<lparr>pq_items := swap_items (pq_items q) (parent j) j\<rparr>"
    have sw: "ifp_Swap q (int (parent j)) (int j) = Some ?q" using i less.prems by (simp add: ifp_Swap_def items_swap_eq)
    have "ifp_up ?q (int (parent j)) = Some (?q\<lparr>pq_items := sift_up (pq_items ?q) (parent j)\<rparr>)"
      using less.IH [OF i, of ?q] i less.prems by simp
    with False i less.prems sw show ?thesis
      by (subst ifp_up.simps, subst sift_up.simps) (simp add: go_parent go_nth_int prio_def)
  qed
qed

lemma heap_up_eq:
  "j < length (pq_items q) \<Longrightarrow> heap_up pq_interface q (int j) = Some (q\<lparr>pq_items := sift_up (pq_items q) j\<rparr>)"
proof (induction j arbitrary: q rule: less_induct)
  case (less j)
  show ?case
  proof (cases "j = 0")
    case True
    then show ?thesis using go_parent [of 0] by (subst heap_up.simps, subst sift_up.simps) (simp add: parent_def)
  next
    case False
    have i: "parent j < j" using False by (simp add: parent_less)
    let ?q = "q\<lparr>pq_items := swap_items (pq_items q) (parent j) j\<rparr>"
    have sw: "pq_Swap q (int (parent j)) (int j) = Some ?q" using i less.prems by (simp add: pq_Swap_def items_swap_eq)
    have "heap_up pq_interface ?q (int (parent j)) = Some (?q\<lparr>pq_items := sift_up (pq_items ?q) (parent j)\<rparr>)"
      using less.IH [OF i, of ?q] i less.prems by simp
    with False i less.prems sw show ?thesis
      by (subst heap_up.simps, subst sift_up.simps)
        (simp add: go_parent go_nth_int prio_def pq_interface_def pq_Less_def not_less)
  qed
qed

lemma sift_down_length: "length (fst (sift_down tie xs i n)) = length xs"
proof (induction tie xs i n rule: sift_down.induct)
  case (1 tie xs i n)
  then show ?case by (subst sift_down.simps) simp
qed

lemma ifp_down_eq:
  "n \<le> length (pq_items q) \<Longrightarrow>
     ifp_down q (int i) (int n) = Some (q\<lparr>pq_items := fst (sift_down (\<lambda>a b. b \<le> a) (pq_items q) i n)\<rparr>)"
proof (induction "n - i" arbitrary: q i rule: less_induct)
  case less
  show ?case
  proof (cases "2 * i + 1 \<ge> n")
    case True
    then have "2 * int i + 1 \<ge> int n" by linarith
    with True show ?thesis by (subst ifp_down.simps, subst sift_down.simps) simp
  next
    case False
    let ?xs = "pq_items q"
    let ?c = "child (\<lambda>a b. b \<le> a) ?xs i n"
    let ?q = "q\<lparr>pq_items := swap_items ?xs i ?c\<rparr>"
    have n: "\<not> 2 * int i + 1 \<ge> int n" "\<not> 2 * int i + 1 < 0" using False by linarith+
    have c: "?c < n" "i < ?c" using False by (auto simp: child_def)
    have len: "i < length ?xs" "?c < length ?xs" using c less.prems by auto
    have right: "(if 2 * int i + 1 + 1 < int n then do {
               a \<leftarrow> go_nth ?xs (2 * int i + 1);
               b \<leftarrow> go_nth ?xs (2 * int i + 1 + 1);
               Some (pi_pri a \<ge> pi_pri b)
             } else Some False) = Some (?c = 2 * i + 2)"
      using go_nth_int [of "2 * i + 1" ?xs] go_nth_int [of "2 * i + 2" ?xs] False less.prems
      by (auto simp: child_def prio_def add.commute)
    have ic: "(if ?c = 2 * i + 2 then 2 * int i + 1 + 1 else 2 * int i + 1) = int ?c"
      by (auto simp: child_def)
    have sw: "ifp_Swap q (int i) (int ?c) = Some ?q" using len by (simp add: ifp_Swap_def items_swap_eq)
    have "ifp_down ?q (int ?c) (int n) = Some (?q\<lparr>pq_items := fst (sift_down (\<lambda>a b. b \<le> a) (pq_items ?q) ?c n)\<rparr>)"
      using less.hyps [of ?c ?q] c less.prems by simp
    with sw len False show ?thesis
      by (subst ifp_down.simps, subst sift_down.simps)
        (simp only: Let_def n right ic if_False simp_thms Option.bind.simps split del: if_split, simp add: go_nth_int prio_def)
  qed
qed

lemma heap_down_loop_eq:
  "n \<le> length (pq_items q) \<Longrightarrow> heap_down_loop pq_interface q (int i) (int n) =
     (case sift_down (\<lambda>a b. b < a) (pq_items q) i n of (ys, k) \<Rightarrow> Some (q\<lparr>pq_items := ys\<rparr>, int k))"
proof (induction "n - i" arbitrary: q i rule: less_induct)
  case less
  show ?case
  proof (cases "2 * i + 1 \<ge> n")
    case True
    then have "2 * int i + 1 \<ge> int n" by linarith
    with True show ?thesis by (subst heap_down_loop.simps, subst sift_down.simps) simp
  next
    case False
    let ?xs = "pq_items q"
    let ?c = "child (\<lambda>a b. b < a) ?xs i n"
    let ?q = "q\<lparr>pq_items := swap_items ?xs i ?c\<rparr>"
    have n: "\<not> 2 * int i + 1 \<ge> int n" "\<not> 2 * int i + 1 < 0" using False by linarith+
    have c: "?c < n" "i < ?c" using False by (auto simp: child_def)
    have len: "i < length ?xs" "?c < length ?xs" using c less.prems by auto
    have j: "(if 2 * int i + 1 + 1 < int n then do {
               less \<leftarrow> pq_Less q (2 * int i + 1 + 1) (2 * int i + 1);
               Some (if less then 2 * int i + 1 + 1 else 2 * int i + 1)
             } else Some (2 * int i + 1)) = Some (int ?c)"
      using go_nth_int [of "2 * i + 1" ?xs] go_nth_int [of "2 * i + 2" ?xs] False less.prems
      by (auto simp: child_def prio_def add.commute pq_Less_def)
    have sw: "pq_Swap q (int i) (int ?c) = Some ?q" using len by (simp add: pq_Swap_def items_swap_eq)
    have "heap_down_loop pq_interface ?q (int ?c) (int n) =
        (case sift_down (\<lambda>a b. b < a) (pq_items ?q) ?c n of (ys, k) \<Rightarrow> Some (?q\<lparr>pq_items := ys\<rparr>, int k))"
      using less.hyps [of ?c ?q] c less.prems by simp
    moreover have "pq_Less q (int ?c) (int i) = Some (prio ?xs ?c < prio ?xs i)"
      using len by (simp add: pq_Less_def go_nth_int prio_def)
    moreover have "heap_down_loop pq_interface q (int i) (int n) = do {
        less \<leftarrow> pq_Less q (int ?c) (int i);
        if \<not> less then Some (q, int i)
        else do { h \<leftarrow> pq_Swap q (int i) (int ?c); heap_down_loop pq_interface h (int ?c) (int n) } }"
      by (subst heap_down_loop.simps)
        (simp only: Let_def pq_interface_def heap_interface.simps n j if_False simp_thms Option.bind.simps split del: if_split)
    ultimately show ?thesis using sw False by (subst sift_down.simps) (simp add: not_less split: prod.splits)
  qed
qed

section \<open>The invariant\<close>

definition pq_ok :: "'a pq_slice \<Rightarrow> bool" where
  "pq_ok q \<longleftrightarrow> heap_upto (prio (pq_items q)) (length (pq_items q)) \<and> indices_ok (pq_items q) \<and>
     int (length (pq_items q)) \<le> pq_cap q \<and> 1 \<le> pq_cap q"

definition pq_bag :: "'a pq_slice \<Rightarrow> ('a \<times> int) multiset" where
  "pq_bag q = bag (pq_items q)"

lemma slice_make_ok: "1 \<le> c \<Longrightarrow> \<exists>q. slice_make c = Some q \<and> pq_ok q \<and> pq_bag q = {#}"
  by (simp add: slice_make_def pq_ok_def heap_upto_def indices_ok_def pq_bag_def bag_def)

lemma bag_append [simp]: "bag (xs @ [x]) = add_mset (core x) (bag xs)"
  by (simp add: bag_def)

lemma slice_extend_ok:
  fixes q :: "'a pq_slice" and x :: "'a pq_item"
  assumes "pq_ok q"
  defines "xs \<equiv> pq_items q @ [x\<lparr>pi_index := int (length (pq_items q))\<rparr>]"
  shows "\<exists>c. slice_extend q x = Some \<lparr>pq_items = xs, pq_cap = c\<rparr> \<and> int (length xs) \<le> c \<and> 1 \<le> c"
    "heap_upto (prio (sift_up xs (length (pq_items q)))) (length xs)" "kept (length xs) xs (sift_up xs (length (pq_items q)))"
    "indices_ok xs" "bag xs = add_mset (core x) (pq_bag q)"
proof -
  let ?n = "length (pq_items q)"
  show "\<exists>c. slice_extend q x = Some \<lparr>pq_items = xs, pq_cap = c\<rparr> \<and> int (length xs) \<le> c \<and> 1 \<le> c"
    using assms(1) by (auto simp: slice_extend_def Let_def xs_def pq_ok_def)
  show "indices_ok xs" using assms(1) by (auto simp: xs_def pq_ok_def indices_ok_def nth_append less_Suc_eq)
  show "bag xs = add_mset (core x) (pq_bag q)" by (simp add: xs_def pq_bag_def)
  have p: "prio xs k = prio (pq_items q) k" if "k < ?n" for k using that by (simp add: prio_def xs_def nth_append)
  have "heap_upto (prio xs) ?n = heap_upto (prio (pq_items q)) ?n" by (rule heap_upto_cong) (rule p)
  then have h: "heap_upto (prio xs) ?n" using assms(1) by (simp add: pq_ok_def)
  have no: "parent k \<noteq> ?n" if "0 < k" "k < Suc ?n" for k using parent_less [OF that(1)] that(2) by linarith
  have "heap_but (prio xs) (Suc ?n) ?n" "below_ok (prio xs) (Suc ?n) ?n"
    using h no by (auto simp: heap_but_def below_ok_def heap_upto_def less_Suc_eq)
  from sift_up_ok [OF _ _ this] show "heap_upto (prio (sift_up xs ?n)) (length xs)" "kept (length xs) xs (sift_up xs ?n)"
    by (simp_all add: xs_def)
qed

text \<open>The element moved to the end of the slice leaves it.\<close>

lemma slice_chop_ok:
  assumes "length ys = Suc m" "kept m ys zs" "heap_upto (prio zs) m" "indices_ok ys" "int (Suc m) \<le> pq_cap q" "pq_items q = zs"
  shows "\<exists>q'. slice_chop q = Some ((ys ! m)\<lparr>pi_index := -1\<rparr>, q') \<and> pq_ok q' \<and> bag ys = add_mset (core (ys ! m)) (pq_bag q')"
proof -
  have zs: "length zs = Suc m" "bag zs = bag ys" "indices_ok zs" "zs ! m = ys ! m" using assms(1,2,4) by (auto simp: kept_def)
  have t: "zs = take m zs @ [zs ! m]" using zs(1) by (metis lessI order_refl take_Suc_conv_app_nth take_all)
  have "slice_chop q = Some ((ys ! m)\<lparr>pi_index := -1\<rparr>, q\<lparr>pq_items := take m zs\<rparr>)"
    using zs assms(6) by (simp add: slice_chop_def go_nth_def go_slice_def)
  moreover have "heap_upto (prio (take m zs)) m = heap_upto (prio zs) m"
    using zs(1) by (intro heap_upto_cong) (simp add: prio_def)
  then have "pq_ok (q\<lparr>pq_items := take m zs\<rparr>)"
    using zs assms(3,5) by (auto simp: pq_ok_def indices_ok_def)
  moreover have "bag ys = add_mset (core (ys ! m)) (bag (take m zs))"
    using bag_append [of "take m zs" "zs ! m"] t zs(2,4) by metis
  ultimately show ?thesis by (auto simp: pq_bag_def)
qed

text \<open>Exchanging position \<open>i\<close> with the last one leaves a hole at \<open>i\<close>.\<close>

lemma heap_but_swap_last:
  assumes "heap_upto (prio xs) (length xs)" "length xs = Suc m" "i \<le> m"
  shows "heap_but (prio (swap_items xs i m)) m i"
proof (cases "i < m")
  case True
  have "heap_but ((prio xs)(i := prio xs m)) m i"
    using heap_upto_mono [OF assms(1), of m] assms(2) by (intro heap_but_weaken) simp
  moreover have "prio (swap_items xs i m) = swapped (prio xs) i m" using assms by (intro prio_swap) auto
  moreover have "heap_but ((prio xs)(i := prio xs m)) m i = heap_but (swapped (prio xs) i m) m i"
    using True by (intro heap_but_cong) (auto simp: swapped_def)
  ultimately show ?thesis by simp
next
  case False
  then have "i = m" using assms(3) by simp
  moreover have "prio (swap_items xs m m) = prio xs"
    using prio_swap [of m xs m] assms(2) by (simp add: swapped_def)
  moreover have "parent k \<noteq> m" if "0 < k" "k < m" for k using parent_less [OF that(1)] that(2) by linarith
  ultimately show ?thesis using assms(1,2) by (auto simp: heap_but_def heap_upto_def)
qed

text \<open>Sifting the element at the hole down and then up restores the heap; after a move down
  the second sift is not needed, at the root it is not needed either.\<close>

lemma resift:
  assumes "tie_ok tie" "length xs = Suc m" "heap_but (prio xs) m i" "i < m"
  shows "case sift_down tie xs i m of (ys, k) \<Rightarrow>
    i \<le> k \<and> heap_upto (prio (sift_up ys i)) m \<and> kept m xs (sift_up ys i) \<and>
    (i < k \<or> i = 0 \<longrightarrow> heap_upto (prio ys) m \<and> kept m xs ys)"
proof -
  obtain ys k where yk: "sift_down tie xs i m = (ys, k)" by (cases "sift_down tie xs i m")
  have d: "kept m xs ys" "i \<le> k" "k = i \<longrightarrow> ys = xs \<and> below_ok (prio xs) m i"
      "i < k \<or> above_ok (prio xs) i \<longrightarrow> heap_upto (prio ys) m"
    using sift_down_ok [OF assms(1) _ assms(3) yk] assms(2) by auto
  have hb: "heap_but (prio ys) m i \<and> below_ok (prio ys) m i"
    using d(2,3,4) assms(3) heap_iff_but [of "prio ys" m i] by (cases "k = i") auto
  have "m \<le> length ys" using d(1) assms(2) by (simp add: kept_def)
  with sift_up_ok [of i m ys] hb assms(4)
  have "heap_upto (prio (sift_up ys i)) m" "kept m ys (sift_up ys i)" by auto
  with d yk kept_trans [OF d(1)] show ?thesis by (auto simp: above_ok_def)
qed

lemma slice_shrink_items [simp]: "pq_items (slice_shrink q n) = pq_items q"
  by (simp add: slice_shrink_def)

lemma slice_shrink_cap: "n \<le> pq_cap q \<Longrightarrow> n \<le> pq_cap (slice_shrink q n)"
  by (auto simp: slice_shrink_def)

lemma nth_swap_last:
  "length xs = Suc m \<Longrightarrow> i \<le> m \<Longrightarrow> (swap_items xs i m ! m)\<lparr>pi_index := k\<rparr> = (xs ! i)\<lparr>pi_index := k\<rparr>"
  by (auto simp: swap_items_def nth_list_update)

lemma indices_swap: "indices_ok xs \<Longrightarrow> i < length xs \<Longrightarrow> j < length xs \<Longrightarrow> indices_ok (swap_items xs i j)"
  using kept_swap [of i "length xs" j xs] by (simp add: kept_def)

text \<open>An operation takes the item \<open>x\<close> out of the queue.\<close>

definition takes_out :: "'a pq_slice \<Rightarrow> 'a pq_item \<Rightarrow> ('a pq_item \<times> 'a pq_slice) option \<Rightarrow> bool" where
  "takes_out q x r \<longleftrightarrow>
     (\<exists>q'. r = Some (x\<lparr>pi_index := -1\<rparr>, q') \<and> pq_ok q' \<and> pq_bag q = add_mset (core x) (pq_bag q'))"

lemma takes_out_chop:
  assumes q: "pq_ok q" "length (pq_items q) = Suc m" "i \<le> m"
    and zs: "kept m (swap_items (pq_items q) i m) zs" "heap_upto (prio zs) m"
    and q': "pq_items q' = zs" "int (Suc m) \<le> pq_cap q'"
  shows "takes_out q (pq_items q ! i) (slice_chop q')"
proof -
  let ?ys = "swap_items (pq_items q) i m"
  have im: "i < length (pq_items q)" "m < length (pq_items q)" using q by auto
  have "indices_ok ?ys" using indices_swap [OF _ im] q(1) by (simp add: pq_ok_def)
  from slice_chop_ok [OF _ zs this q'(2,1)] q(2) obtain q2 where
    "slice_chop q' = Some ((?ys ! m)\<lparr>pi_index := -1\<rparr>, q2)" "pq_ok q2" "bag ?ys = add_mset (core (?ys ! m)) (pq_bag q2)"
    by auto
  moreover have "core (?ys ! m) = core (pq_items q ! i)"
    using arg_cong [OF nth_swap_last [OF q(2,3), of 0], of core] by simp
  ultimately show ?thesis
    using nth_swap_last [OF q(2,3), of "-1"] by (simp add: takes_out_def pq_bag_def bag_swap [OF im])
qed

text \<open>Taking out the last element needs no exchange.\<close>

lemma takes_out_last:
  assumes "pq_ok q" "length (pq_items q) = Suc m" "pq_items q' = pq_items q" "int (Suc m) \<le> pq_cap q'"
  shows "takes_out q (pq_items q ! m) (slice_chop q')"
  using slice_chop_ok [of "pq_items q" m "pq_items q" q'] assms heap_upto_mono [of "prio (pq_items q)" "Suc m" m]
  by (auto simp: takes_out_def pq_ok_def kept_refl pq_bag_def)

section \<open>The operations of the in-flight queue\<close>

lemma ifp_Push_ok:
  assumes "pq_ok q"
  shows "\<exists>q'. ifp_Push q x = Some q' \<and> pq_ok q' \<and> pq_bag q' = add_mset (core x) (pq_bag q)"
proof -
  let ?xs = "pq_items q @ [x\<lparr>pi_index := int (length (pq_items q))\<rparr>]"
  let ?ys = "sift_up ?xs (length (pq_items q))"
  note e = slice_extend_ok [OF assms, of x]
  from e(1) obtain c where c: "slice_extend q x = Some \<lparr>pq_items = ?xs, pq_cap = c\<rparr>" "int (length ?xs) \<le> c" "1 \<le> c" by blast
  have "ifp_Push q x = Some \<lparr>pq_items = ?ys, pq_cap = c\<rparr>"
    using c(1) ifp_up_eq [of "length (pq_items q)" "\<lparr>pq_items = ?xs, pq_cap = c\<rparr>"] by (simp add: ifp_Push_def)
  moreover have "length ?ys = length ?xs" "bag ?ys = bag ?xs" "indices_ok ?ys" using e(3,4) by (auto simp: kept_def)
  ultimately show ?thesis using c(2,3) e(2,5) by (auto simp: pq_ok_def pq_bag_def)
qed

lemma swap_eqs:
  assumes "length (pq_items q) = Suc m" "i \<le> m"
  shows "ifp_Swap q (int i) (int m) = Some (q\<lparr>pq_items := swap_items (pq_items q) i m\<rparr>)"
    "pq_Swap q (int i) (int m) = Some (q\<lparr>pq_items := swap_items (pq_items q) i m\<rparr>)"
  using assms by (simp_all add: ifp_Swap_def pq_Swap_def items_swap_eq)

lemma ifp_Remove_ok:
  assumes "pq_ok q" "i < length (pq_items q)"
  shows "takes_out q (pq_items q ! i) (ifp_Remove q (int i))"
proof -
  obtain m where m: "length (pq_items q) = Suc m" using assms(2) by (cases "length (pq_items q)") auto
  have h: "heap_upto (prio (pq_items q)) (length (pq_items q))" and c: "int (Suc m) \<le> pq_cap q"
    using assms(1) m by (simp_all add: pq_ok_def)
  show ?thesis
  proof (cases "i = m")
    case True
    then show ?thesis using takes_out_last [OF assms(1) m, of q] c m by (simp add: ifp_Remove_def)
  next
    case False
    then have i: "i < m" "i \<le> m" using assms(2) m by auto
    let ?ys = "swap_items (pq_items q) i m"
    let ?zs = "sift_up (fst (sift_down (\<lambda>a b. b \<le> a) ?ys i m)) i"
    have "ifp_Remove q (int i) = slice_chop (q\<lparr>pq_items := ?zs\<rparr>)"
      using i m swap_eqs(1) [OF m i(2)] ifp_down_eq [of m "q\<lparr>pq_items := ?ys\<rparr>" i]
        ifp_up_eq [of i "q\<lparr>pq_items := fst (sift_down (\<lambda>a b. b \<le> a) ?ys i m)\<rparr>"]
      by (simp add: ifp_Remove_def sift_down_length)
    moreover have "kept m ?ys ?zs" "heap_upto (prio ?zs) m"
      using resift [OF tie_rules(2), of ?ys m i] heap_but_swap_last [OF h m i(2)] i m by (auto split: prod.splits)
    ultimately show ?thesis using takes_out_chop [OF assms(1) m i(2), of ?zs "q\<lparr>pq_items := ?zs\<rparr>"] c by simp
  qed
qed

text \<open>Exchanging the root with the last element and sifting it down.\<close>

lemma root_out:
  assumes "pq_ok q" "length (pq_items q) = Suc m" "tie_ok tie"
  defines "zs \<equiv> fst (sift_down tie (swap_items (pq_items q) 0 m) 0 m)"
  shows "kept m (swap_items (pq_items q) 0 m) zs" "heap_upto (prio zs) m"
proof -
  let ?ys = "swap_items (pq_items q) 0 m"
  have b: "heap_but (prio ?ys) m 0" using heap_but_swap_last [of "pq_items q" m 0] assms(1,2) by (simp add: pq_ok_def)
  obtain k where "sift_down tie ?ys 0 m = (zs, k)" unfolding zs_def by (cases "sift_down tie ?ys 0 m") simp
  from sift_down_ok [OF assms(3) _ b this] assms(2)
  show "kept m ?ys zs" "heap_upto (prio zs) m" by (simp_all add: above_ok_def)
qed

lemma ifp_Pop_ok:
  assumes "pq_ok q" "pq_items q \<noteq> []"
  shows "takes_out q (pq_items q ! 0) (ifp_Pop q)"
proof -
  obtain m where m: "length (pq_items q) = Suc m" using assms(2) by (cases "pq_items q") auto
  have c: "int (Suc m) \<le> pq_cap q" using assms(1) m by (simp add: pq_ok_def)
  let ?zs = "fst (sift_down (\<lambda>a b. b \<le> a) (swap_items (pq_items q) 0 m) 0 m)"
  have "ifp_Pop q = slice_chop (slice_shrink (q\<lparr>pq_items := ?zs\<rparr>) (int (Suc m)))"
    using m swap_eqs(1) [OF m, of 0] ifp_down_eq [of m "q\<lparr>pq_items := swap_items (pq_items q) 0 m\<rparr>" 0]
    by (simp add: ifp_Pop_def)
  moreover have "int (Suc m) \<le> pq_cap (slice_shrink (q\<lparr>pq_items := ?zs\<rparr>) (int (Suc m)))"
    using c by (intro slice_shrink_cap) simp
  ultimately show ?thesis using takes_out_chop [OF assms(1) m le0 root_out [OF assms(1) m tie_rules(2)]] by simp
qed

lemma root_least:
  assumes "pq_ok q" "pq_items q \<noteq> []" "pq_bag q = add_mset (core (pq_items q ! 0)) B" "y \<in># B"
  shows "pi_pri (pq_items q ! 0) \<le> snd y"
proof -
  have "y \<in># pq_bag q" using assms(3,4) by simp
  then obtain k where k: "k < length (pq_items q)" "y = core (pq_items q ! k)"
    by (auto simp: pq_bag_def bag_def in_set_conv_nth)
  have "prio (pq_items q) 0 \<le> prio (pq_items q) k"
    using heap_root [of "prio (pq_items q)" "length (pq_items q)" k] assms(1) k(1) by (simp add: pq_ok_def)
  with k assms(2) show ?thesis by (simp add: prio_def core_def)
qed

section \<open>The operations of container/heap on the pqueue\<close>

lemma interface_sels [simp]:
  "hi_Len pq_interface = pq_Len" "hi_Less pq_interface = pq_Less" "hi_Swap pq_interface = pq_Swap"
  "hi_Push pq_interface = pq_Push" "hi_Pop pq_interface = pq_Pop"
  by (simp_all add: pq_interface_def)

lemma heap_Push_ok:
  assumes "pq_ok q"
  shows "\<exists>q'. heap_Push pq_interface q x = Some q' \<and> pq_ok q' \<and> pq_bag q' = add_mset (core x) (pq_bag q)"
proof -
  have "heap_Push pq_interface q x = ifp_Push q x"
  proof -
    let ?xs = "pq_items q @ [x\<lparr>pi_index := int (length (pq_items q))\<rparr>]"
    from slice_extend_ok(1) [OF assms, of x] obtain c where
      "slice_extend q x = Some \<lparr>pq_items = ?xs, pq_cap = c\<rparr>" by blast
    then show ?thesis
      using heap_up_eq [of "length (pq_items q)" "\<lparr>pq_items = ?xs, pq_cap = c\<rparr>"]
        ifp_up_eq [of "length (pq_items q)" "\<lparr>pq_items = ?xs, pq_cap = c\<rparr>"]
      by (simp add: heap_Push_def ifp_Push_def pq_Push_def pq_Len_def)
  qed
  with ifp_Push_ok [OF assms, of x] show ?thesis by simp
qed

lemma pq_Pop_chop: "pq_Pop (q\<lparr>pq_items := zs\<rparr>) = slice_chop (slice_shrink (q\<lparr>pq_items := zs\<rparr>) (int (length zs)))"
  by (simp add: pq_Pop_def)

lemma heap_Remove_ok:
  assumes "pq_ok q" "i < length (pq_items q)"
  shows "takes_out q (pq_items q ! i) (heap_Remove pq_interface q (int i))"
proof -
  obtain m where m: "length (pq_items q) = Suc m" using assms(2) by (cases "length (pq_items q)") auto
  have h: "heap_upto (prio (pq_items q)) (length (pq_items q))" and c: "int (Suc m) \<le> pq_cap q"
    using assms(1) m by (simp_all add: pq_ok_def)
  have cap: "int (Suc m) \<le> pq_cap (slice_shrink (q\<lparr>pq_items := zs\<rparr>) (int (Suc m)))" for zs
    using c by (intro slice_shrink_cap) simp
  show ?thesis
  proof (cases "i = m")
    case True
    then show ?thesis using takes_out_last [OF assms(1) m _ cap [of "pq_items q"]] m
      by (simp add: heap_Remove_def pq_Len_def pq_Pop_def)
  next
    case False
    then have i: "i < m" "i \<le> m" using assms(2) m by auto
    let ?ys = "swap_items (pq_items q) i m"
    obtain zs k where zk: "sift_down (\<lambda>a b. b < a) ?ys i m = (zs, k)" by (cases "sift_down (\<lambda>a b. b < a) ?ys i m")
    let ?us = "if k > i then zs else sift_up zs i"
    have l: "length zs = Suc m" using sift_down_length [of "\<lambda>a b. b < a" ?ys i m] zk m by simp
    have r: "kept m ?ys ?us" "heap_upto (prio ?us) m"
      using resift [OF tie_rules(1), of ?ys m i] heap_but_swap_last [OF h m i(2)] i m zk by auto
    then have lu: "length ?us = Suc m" using m by (simp add: kept_def)
    have "heap_Remove pq_interface q (int i) = pq_Pop (q\<lparr>pq_items := ?us\<rparr>)"
      using i m swap_eqs(2) [OF m i(2)] heap_down_loop_eq [of m "q\<lparr>pq_items := ?ys\<rparr>" i] zk l
        heap_up_eq [of i "q\<lparr>pq_items := zs\<rparr>"]
      by (simp add: heap_Remove_def heap_down_def pq_Len_def)
    also have "\<dots> = slice_chop (slice_shrink (q\<lparr>pq_items := ?us\<rparr>) (int (Suc m)))" unfolding pq_Pop_chop lu ..
    finally show ?thesis using takes_out_chop [OF assms(1) m i(2) r _ cap [of ?us]] by simp
  qed
qed

lemma heap_Pop_ok:
  assumes "pq_ok q" "pq_items q \<noteq> []"
  shows "takes_out q (pq_items q ! 0) (heap_Pop pq_interface q)"
proof -
  obtain m where m: "length (pq_items q) = Suc m" using assms(2) by (cases "pq_items q") auto
  have c: "int (Suc m) \<le> pq_cap q" using assms(1) m by (simp add: pq_ok_def)
  let ?zs = "fst (sift_down (\<lambda>a b. b < a) (swap_items (pq_items q) 0 m) 0 m)"
  have l: "length ?zs = Suc m" using m by (simp add: sift_down_length)
  have "heap_Pop pq_interface q = pq_Pop (q\<lparr>pq_items := ?zs\<rparr>)"
    using m swap_eqs(2) [OF m, of 0] heap_down_loop_eq [of m "q\<lparr>pq_items := swap_items (pq_items q) 0 m\<rparr>" 0]
    by (simp add: heap_Pop_def heap_down_def pq_Len_def split: prod.splits)
  also have "\<dots> = slice_chop (slice_shrink (q\<lparr>pq_items := ?zs\<rparr>) (int (Suc m)))" unfolding pq_Pop_chop l ..
  finally have e: "heap_Pop pq_interface q = slice_chop (slice_shrink (q\<lparr>pq_items := ?zs\<rparr>) (int (Suc m)))" .
  have "int (Suc m) \<le> pq_cap (slice_shrink (q\<lparr>pq_items := ?zs\<rparr>) (int (Suc m)))"
    using c by (intro slice_shrink_cap) simp
  then show ?thesis using takes_out_chop [OF assms(1) m le0 root_out [OF assms(1) m tie_rules(1)]] e by simp
qed

section \<open>Both are priority queues\<close>

definition mk_item :: "'a \<Rightarrow> int \<Rightarrow> 'a pq_item" where
  "mk_item a p = \<lparr>pi_val = a, pi_pri = p, pi_index = 0\<rparr>"

definition popped :: "('a pq_item \<times> 'a pq_slice) option \<Rightarrow> (('a \<times> int) \<times> 'a pq_slice) option" where
  "popped r = map_option (\<lambda>(x, q). (core x, q)) r"

lemma pop_law:
  assumes "pq_ok q" "pq_bag q \<noteq> {#}" "pq_items q \<noteq> [] \<Longrightarrow> takes_out q (pq_items q ! 0) r"
  shows "\<exists>x q'. popped r = Some (x, q') \<and> pq_ok q' \<and> pq_bag q = add_mset x (pq_bag q') \<and> (\<forall>y \<in># pq_bag q'. snd x \<le> snd y)"
proof -
  have ne: "pq_items q \<noteq> []" using assms(2) by (auto simp: pq_bag_def bag_def)
  from assms(3) [OF ne] obtain q' where q': "r = Some ((pq_items q ! 0)\<lparr>pi_index := -1\<rparr>, q')" "pq_ok q'"
    "pq_bag q = add_mset (core (pq_items q ! 0)) (pq_bag q')" by (auto simp: takes_out_def)
  have "\<forall>y \<in># pq_bag q'. snd (core (pq_items q ! 0)) \<le> snd y"
    using root_least [OF assms(1) ne q'(3)] by (simp add: core_def)
  with q' show ?thesis by (auto simp: popped_def)
qed

lemma core_mk_item [simp]: "core (mk_item a p) = (a, p)"
  by (simp add: core_def mk_item_def)

interpretation ifp: priority_queue pq_ok pq_bag "\<lambda>a p q. ifp_Push q (mk_item a p)" "\<lambda>q. popped (ifp_Pop q)"
proof
  show "\<exists>q'. ifp_Push q (mk_item a p) = Some q' \<and> pq_ok q' \<and> pq_bag q' = add_mset (a, p) (pq_bag q)"
    if "pq_ok q" for q :: "'a pq_slice" and a p
    using ifp_Push_ok [OF that, of "mk_item a p"] by simp
qed (rule pop_law, assumption, assumption, rule ifp_Pop_ok)

interpretation heap: priority_queue pq_ok pq_bag "\<lambda>a p q. heap_Push pq_interface q (mk_item a p)"
  "\<lambda>q. popped (heap_Pop pq_interface q)"
proof
  show "\<exists>q'. heap_Push pq_interface q (mk_item a p) = Some q' \<and> pq_ok q' \<and> pq_bag q' = add_mset (a, p) (pq_bag q)"
    if "pq_ok q" for q :: "'a pq_slice" and a p
    using heap_Push_ok [OF that, of "mk_item a p"] by simp
qed (rule pop_law, assumption, assumption, rule heap_Pop_ok)

text \<open>
  C11. pushing any items with priorities on a new queue and popping as many returns all of
  them in the order of their priorities, for the \<open>container/heap\<close> queue of \<open>internal/pqueue\<close>
  and for the hand-written queue of \<open>nsqd\<close> alike; the two return the same sequence of
  priorities and neither panics.\<close>

theorem pqueues_sort:
  fixes xs :: "('a \<times> int) list"
  assumes "1 \<le> c" "1 \<le> d"
  shows "\<exists>p0 p1 ys p2 q0 q1 zs q2.
    pq_New c = Some p0 \<and> heap.push_all xs p0 = Some p1 \<and> heap.pops (length xs) p1 = Some (ys, p2) \<and>
    newInFlightPqueue d = Some q0 \<and> ifp.push_all xs q0 = Some q1 \<and> ifp.pops (length xs) q1 = Some (zs, q2) \<and>
    mset ys = mset xs \<and> sorted (map snd ys) \<and> mset zs = mset xs \<and> map snd zs = map snd ys \<and>
    pq_items p2 = [] \<and> pq_items q2 = []"
proof -
  from slice_make_ok [OF assms(1)] obtain p0 :: "'a pq_slice" where p0: "pq_New c = Some p0" "pq_ok p0" "pq_bag p0 = {#}"
    by (auto simp: pq_New_def)
  from slice_make_ok [OF assms(2)] obtain q0 :: "'a pq_slice" where q0: "newInFlightPqueue d = Some q0" "pq_ok q0" "pq_bag q0 = {#}"
    by (auto simp: newInFlightPqueue_def)
  from heap.heapsort [OF p0(2,3), of xs] obtain p1 ys p2 where
    p: "heap.push_all xs p0 = Some p1" "heap.pops (length xs) p1 = Some (ys, p2)"
       "mset ys = mset xs" "sorted (map snd ys)" "pq_bag p2 = {#}" by blast
  from ifp.heapsort [OF q0(2,3), of xs] obtain q1 zs q2 where
    q: "ifp.push_all xs q0 = Some q1" "ifp.pops (length xs) q1 = Some (zs, q2)"
       "mset zs = mset xs" "sorted (map snd zs)" "pq_bag q2 = {#}" by blast
  have "mset (map snd zs) = mset (map snd ys)" using p(3) q(3) by simp
  then have "map snd zs = map snd ys" using p(4) q(4) by (metis properties_for_sort)
  with p0 p q0 q show ?thesis by (auto simp: pq_bag_def bag_def)
qed

theorem pqueues_sort_witness:
  "\<exists>p0 p1 ys p2 q0 q1 zs q2.
    pq_New 1 = Some p0 \<and> heap.push_all [(CHR ''a'', 3), (CHR ''b'', 1), (CHR ''c'', 2)] p0 = Some p1 \<and>
    heap.pops (length [(CHR ''a'', 3), (CHR ''b'', 1), (CHR ''c'', 2 :: int)]) p1 = Some (ys, p2) \<and>
    newInFlightPqueue 2 = Some q0 \<and> ifp.push_all [(CHR ''a'', 3), (CHR ''b'', 1), (CHR ''c'', 2)] q0 = Some q1 \<and>
    ifp.pops (length [(CHR ''a'', 3), (CHR ''b'', 1), (CHR ''c'', 2 :: int)]) q1 = Some (zs, q2) \<and>
    mset ys = mset [(CHR ''a'', 3), (CHR ''b'', 1), (CHR ''c'', 2)] \<and> sorted (map snd ys) \<and>
    mset zs = mset [(CHR ''a'', 3), (CHR ''b'', 1), (CHR ''c'', 2)] \<and> map snd zs = map snd ys \<and>
    pq_items p2 = [] \<and> pq_items q2 = []"
  by (rule pqueues_sort) simp_all

text \<open>
  the index field of every item of a queue is its position, and every operation keeps
  this together with the heap order: \<open>Push\<close> adds the item, and \<open>Remove\<close> called with the index
  stored in an item takes exactly this item out of the queue, in both queues.\<close>

theorem pqueue_remove_stored_index:
  assumes "pq_ok q" "x \<in> set (pq_items q)"
  shows "(\<exists>q'. ifp_Remove q (pi_index x) = Some (x\<lparr>pi_index := -1\<rparr>, q') \<and> pq_ok q' \<and>
      pq_bag q = add_mset (pi_val x, pi_pri x) (pq_bag q')) \<and>
    (\<exists>q'. heap_Remove pq_interface q (pi_index x) = Some (x\<lparr>pi_index := -1\<rparr>, q') \<and> pq_ok q' \<and>
      pq_bag q = add_mset (pi_val x, pi_pri x) (pq_bag q')) \<and>
    (\<exists>q'. ifp_Push q y = Some q' \<and> pq_ok q' \<and> pq_bag q' = add_mset (pi_val y, pi_pri y) (pq_bag q)) \<and>
    (\<exists>q'. heap_Push pq_interface q y = Some q' \<and> pq_ok q' \<and> pq_bag q' = add_mset (pi_val y, pi_pri y) (pq_bag q))"
proof -
  from assms(2) obtain i where i: "i < length (pq_items q)" "x = pq_items q ! i" by (auto simp: in_set_conv_nth)
  then have "pi_index x = int i" using assms(1) by (simp add: pq_ok_def indices_ok_def)
  with ifp_Remove_ok [OF assms(1) i(1)] heap_Remove_ok [OF assms(1) i(1)] i(2)
    ifp_Push_ok [OF assms(1), of y] heap_Push_ok [OF assms(1), of y]
  show ?thesis by (simp add: takes_out_def core_def)
qed

text \<open>A queue built by the code, for the witnesses: five items with priorities 4, 2, 7, 1, 2.\<close>

definition sample_queue :: "char pq_slice" where
  "sample_queue = \<lparr>pq_items =
     [\<lparr>pi_val = CHR ''d'', pi_pri = 1, pi_index = 0\<rparr>, \<lparr>pi_val = CHR ''b'', pi_pri = 2, pi_index = 1\<rparr>,
      \<lparr>pi_val = CHR ''c'', pi_pri = 7, pi_index = 2\<rparr>, \<lparr>pi_val = CHR ''a'', pi_pri = 4, pi_index = 3\<rparr>,
      \<lparr>pi_val = CHR ''e'', pi_pri = 2, pi_index = 4\<rparr>], pq_cap = 8\<rparr>"

lemma sample_queue_ok: "pq_ok sample_queue"
proof -
  let ?xs = "pq_items sample_queue"
  have up: "[0..<5] = [0, 1, 2, 3, 4 :: nat]" by (simp add: upt_rec)
  have l: "length ?xs = 5" by (simp add: sample_queue_def)
  have "list_all (\<lambda>k. 0 < k \<longrightarrow> prio ?xs (parent k) \<le> prio ?xs k) [0..<5]"
    "list_all (\<lambda>k. pi_index (?xs ! k) = int k) [0..<5]"
    unfolding up by (simp_all add: sample_queue_def prio_def parent_def)
  then show ?thesis using l
    by (auto simp: pq_ok_def heap_upto_def indices_ok_def list_all_iff sample_queue_def)
qed

theorem pqueue_remove_stored_index_witness:
  "\<exists>q'. ifp_Remove sample_queue 1 = Some (\<lparr>pi_val = CHR ''b'', pi_pri = 2, pi_index = -1\<rparr>, q') \<and> pq_ok q' \<and>
     pq_bag sample_queue = add_mset (CHR ''b'', 2) (pq_bag q')"
  using pqueue_remove_stored_index [OF sample_queue_ok, of "\<lparr>pi_val = CHR ''b'', pi_pri = 2, pi_index = 1\<rparr>"]
  by (simp add: sample_queue_def)

text \<open>
  \<open>PeekAndShift\<close> returns nothing on an empty queue; if the least priority is above the
  given bound it leaves the queue alone and returns the difference; otherwise it removes and
  returns an item of least priority. Both queues decide alike.\<close>

theorem pqueue_peek_and_shift:
  assumes "pq_ok q"
  defines "least \<equiv> Min (pi_pri ` set (pq_items q))"
  shows "(if pq_items q = [] then
       ifp_PeekAndShift q mx = Some (None, 0, q) \<and> pq_PeekAndShift q mx = Some (None, 0, q)
     else if mx < least then
       ifp_PeekAndShift q mx = Some (None, least - mx, q) \<and> pq_PeekAndShift q mx = Some (None, least - mx, q)
     else \<exists>x q1 q2. ifp_PeekAndShift q mx = Some (Some x, 0, q1) \<and> pq_PeekAndShift q mx = Some (Some x, 0, q2) \<and>
       pi_pri x = least \<and> pq_ok q1 \<and> pq_ok q2 \<and> pq_bag q1 = pq_bag q2 \<and>
       pq_bag q = add_mset (pi_val x, pi_pri x) (pq_bag q1))"
proof (cases "pq_items q = []")
  case True
  then show ?thesis by (simp add: ifp_PeekAndShift_def pq_PeekAndShift_def pq_Len_def)
next
  case False
  let ?r = "pq_items q ! 0"
  have nth: "go_nth (pq_items q) 0 = Some ?r" using False by (simp add: go_nth_def)
  have "pi_pri ?r \<le> pi_pri y" if "y \<in> set (pq_items q)" for y
  proof -
    from that obtain k where k: "k < length (pq_items q)" "y = pq_items q ! k" by (auto simp: in_set_conv_nth)
    with heap_root [of "prio (pq_items q)" "length (pq_items q)" k] assms(1) False
    show ?thesis by (simp add: pq_ok_def prio_def)
  qed
  then have least: "least = pi_pri ?r" unfolding least_def using False by (intro Min_eqI) auto
  from ifp_Pop_ok [OF assms(1) False] heap_Remove_ok [OF assms(1), of 0] False
  show ?thesis
    by (auto simp: least takes_out_def ifp_PeekAndShift_def pq_PeekAndShift_def pq_Len_def nth core_def)
qed

theorem pqueue_peek_and_shift_witness:
  "(\<exists>x q1 q2. ifp_PeekAndShift sample_queue 3 = Some (Some x, 0, q1) \<and>
      pq_PeekAndShift sample_queue 3 = Some (Some x, 0, q2) \<and> pi_pri x = 1 \<and> pq_ok q1 \<and> pq_ok q2 \<and>
      pq_bag q1 = pq_bag q2 \<and> pq_bag sample_queue = add_mset (pi_val x, pi_pri x) (pq_bag q1)) \<and>
   ifp_PeekAndShift sample_queue 0 = Some (None, 1, sample_queue)"
  using pqueue_peek_and_shift [OF sample_queue_ok, of 3] pqueue_peek_and_shift [OF sample_queue_ok, of 0]
  by (simp add: sample_queue_def)

end
