(* ===== verification/Nsq_Channel.thy ===== *)
theory Nsq_Channel
  imports Nsq_Message Nsq_Pqueue_Props
begin

text \<open>
  \<open>nsqd/channel.go\<close>: a channel of \<open>nsqd\<close> with its memory queue, its backend queue, the messages in
  flight and the deferred ones, each of the latter two in a map and in a priority queue.
  The backend is a parameter, the record of its methods: for most channels it is the disk queue of
  another project, for ephemeral ones \<open>nsqd/dummy_backend_queue.go\<close>. A Go map is an
  association list, whose order is the order in which \<open>range\<close> visits it. Each method is
  one step. The calls of the clients' methods are recorded in a log, and so is the
  call of the delete callback. Logging, the health of \<open>nsqd\<close>, the notification of the lookup
  daemons and the latency statistics are left out.
\<close>

section \<open>The backend\<close>

text \<open>\<open>be_Read\<close> receives from the channel \<open>ReadChan\<close>: \<open>None\<close> if nothing can be received.\<close>

record ('b, 'e) backend =
  be_Put :: "'b \<Rightarrow> bytes \<Rightarrow> 'e option \<times> 'b"
  be_Close :: "'b \<Rightarrow> 'e option \<times> 'b"
  be_Delete :: "'b \<Rightarrow> 'e option \<times> 'b"
  be_Depth :: "'b \<Rightarrow> int"
  be_Empty :: "'b \<Rightarrow> 'e option \<times> 'b"
  be_Read :: "'b \<Rightarrow> (bytes \<times> 'b) option"

definition dummyBackendQueue :: "(unit, 'e) backend" where
  "dummyBackendQueue = \<lparr>be_Put = (\<lambda>b _. (None, b)), be_Close = Pair None, be_Delete = Pair None, be_Depth = (\<lambda>_. 0),
     be_Empty = Pair None, be_Read = (\<lambda>_. None)\<rparr>"

definition writeMessageToBackend :: "('b, 'e) backend \<Rightarrow> message \<Rightarrow> 'b \<Rightarrow> ('e option \<times> 'b) option" where
  "writeMessageToBackend B msg b = do {
     (n, err, buf) \<leftarrow> msg_WriteTo buffer_Write [] msg;
     Some (be_Put B b buf)
   }"

section \<open>The state\<close>

datatype 'e channel_error =
  Exiting | IDAlreadyInFlight | IDNotInFlight | NotOwner | IDAlreadyDeferred | IDNotDeferred | TooManyConsumers
| BackendError 'e

datatype consumer_call = CallPause | CallUnPause | CallClose | CallTimedOutMessage | CallEmpty

text \<open>\<open>ch_memCap\<close> is the capacity of the memory queue, \<open>None\<close> for the nil channel.\<close>

record 'b channel =
  ch_name :: string
  ch_backend :: 'b
  ch_memCap :: "int option"
  ch_memoryMsgChan :: "message list"
  ch_exitFlag :: bool
  ch_paused :: bool
  ch_ephemeral :: bool
  ch_clients :: "int list"
  ch_calls :: "(int \<times> consumer_call) list"
  ch_deleteCalled :: bool
  ch_messageCount :: u64
  ch_requeueCount :: u64
  ch_timeoutCount :: u64
  ch_deferredMessages :: "(bytes \<times> message pq_item) list"
  ch_deferredPQ :: "message pq_slice"
  ch_inFlightMessages :: "(bytes \<times> message) list"
  ch_inFlightPQ :: "message pq_slice"

text \<open>\<open>int(math.Max(1, float64(MemQueueSize)/10))\<close>.\<close>

definition pqSize :: "int \<Rightarrow> int" where
  "pqSize memQueueSize = max 1 (memQueueSize div 10)"

definition initPQ :: "int \<Rightarrow> 'b channel \<Rightarrow> 'b channel option" where
  "initPQ memQueueSize c = do {
     p \<leftarrow> newInFlightPqueue (pqSize memQueueSize);
     d \<leftarrow> pq_New (pqSize memQueueSize);
     Some (c\<lparr>ch_inFlightMessages := [], ch_inFlightPQ := p, ch_deferredMessages := [], ch_deferredPQ := d\<rparr>)
   }"

definition NewChannel :: "int \<Rightarrow> string \<Rightarrow> 'b \<Rightarrow> 'b channel option" where
  "NewChannel memQueueSize name b =
     initPQ memQueueSize
       \<lparr>ch_name = name, ch_backend = b, ch_memCap = (if memQueueSize > 0 then Some memQueueSize else None),
        ch_memoryMsgChan = [], ch_exitFlag = False, ch_paused = False,
        ch_ephemeral = (take 10 (rev name) = rev ''#ephemeral''), ch_clients = [], ch_calls = [], ch_deleteCalled = False,
        ch_messageCount = 0, ch_requeueCount = 0, ch_timeoutCount = 0,
        ch_deferredMessages = [], ch_deferredPQ = \<lparr>pq_items = [], pq_cap = 0\<rparr>,
        ch_inFlightMessages = [], ch_inFlightPQ = \<lparr>pq_items = [], pq_cap = 0\<rparr>\<rparr>"

section \<open>Putting messages\<close>

definition ch_put :: "('b, 'e) backend \<Rightarrow> 'b channel \<Rightarrow> message \<Rightarrow> ('e channel_error option \<times> 'b channel) option" where
  "ch_put B c m =
     (case ch_memCap c of
        Some cap \<Rightarrow> if int (length (ch_memoryMsgChan c)) < cap
          then Some (None, c\<lparr>ch_memoryMsgChan := ch_memoryMsgChan c @ [m]\<rparr>)
          else do { (e, b) \<leftarrow> writeMessageToBackend B m (ch_backend c); Some (map_option BackendError e, c\<lparr>ch_backend := b\<rparr>) }
      | None \<Rightarrow> do { (e, b) \<leftarrow> writeMessageToBackend B m (ch_backend c); Some (map_option BackendError e, c\<lparr>ch_backend := b\<rparr>) })"

definition PutMessage :: "('b, 'e) backend \<Rightarrow> 'b channel \<Rightarrow> message \<Rightarrow> ('e channel_error option \<times> 'b channel) option" where
  "PutMessage B c m =
     (if ch_exitFlag c then Some (Some Exiting, c)
      else do {
        (e, c) \<leftarrow> ch_put B c m;
        Some (if e \<noteq> None then (e, c) else (None, c\<lparr>ch_messageCount := ch_messageCount c + 1\<rparr>))
      })"

section \<open>In-flight and deferred messages\<close>

definition pushInFlightMessage :: "'b channel \<Rightarrow> message \<Rightarrow> 'e channel_error option \<times> 'b channel" where
  "pushInFlightMessage c msg =
     (if map_of (ch_inFlightMessages c) (msg_ID msg) \<noteq> None then (Some IDAlreadyInFlight, c)
      else (None, c\<lparr>ch_inFlightMessages := (msg_ID msg, msg) # ch_inFlightMessages c\<rparr>))"

definition del :: "bytes \<Rightarrow> (bytes \<times> 'a) list \<Rightarrow> (bytes \<times> 'a) list" where
  "del i m = filter (\<lambda>(k, v). k \<noteq> i) m"

definition popInFlightMessage :: "'b channel \<Rightarrow> int \<Rightarrow> bytes \<Rightarrow> ('e channel_error + message) \<times> 'b channel" where
  "popInFlightMessage c clientID i =
     (case map_of (ch_inFlightMessages c) i of
        None \<Rightarrow> (Inl IDNotInFlight, c)
      | Some msg \<Rightarrow>
          if msg_clientID msg \<noteq> clientID then (Inl NotOwner, c)
          else (Inr msg, c\<lparr>ch_inFlightMessages := del i (ch_inFlightMessages c)\<rparr>))"

definition addToInFlightPQ :: "'b channel \<Rightarrow> message \<Rightarrow> int \<Rightarrow> 'b channel option" where
  "addToInFlightPQ c msg pri = do {
     q \<leftarrow> ifp_Push (ch_inFlightPQ c) \<lparr>pi_val = msg, pi_pri = pri, pi_index = 0\<rparr>;
     Some (c\<lparr>ch_inFlightPQ := q\<rparr>)
   }"

text \<open>The index stored in a message: its item's, or \<open>-1\<close> if it has been taken out of the queue.\<close>

definition msg_index :: "'b channel \<Rightarrow> message \<Rightarrow> int" where
  "msg_index c msg =
     (case find (\<lambda>x. msg_ID (pi_val x) = msg_ID msg) (pq_items (ch_inFlightPQ c)) of None \<Rightarrow> -1 | Some x \<Rightarrow> pi_index x)"

definition removeFromInFlightPQ :: "'b channel \<Rightarrow> message \<Rightarrow> 'b channel option" where
  "removeFromInFlightPQ c msg =
     (if msg_index c msg = -1 then Some c
      else do { (_, q) \<leftarrow> ifp_Remove (ch_inFlightPQ c) (msg_index c msg); Some (c\<lparr>ch_inFlightPQ := q\<rparr>) })"

definition pushDeferredMessage :: "'b channel \<Rightarrow> message pq_item \<Rightarrow> 'e channel_error option \<times> 'b channel" where
  "pushDeferredMessage c item =
     (let i = msg_ID (pi_val item)
      in if map_of (ch_deferredMessages c) i \<noteq> None then (Some IDAlreadyDeferred, c)
         else (None, c\<lparr>ch_deferredMessages := (i, item) # ch_deferredMessages c\<rparr>))"

definition popDeferredMessage :: "'b channel \<Rightarrow> bytes \<Rightarrow> ('e channel_error + message pq_item) \<times> 'b channel" where
  "popDeferredMessage c i =
     (case map_of (ch_deferredMessages c) i of
        None \<Rightarrow> (Inl IDNotDeferred, c)
      | Some item \<Rightarrow> (Inr item, c\<lparr>ch_deferredMessages := del i (ch_deferredMessages c)\<rparr>))"

definition addToDeferredPQ :: "'b channel \<Rightarrow> message pq_item \<Rightarrow> 'b channel option" where
  "addToDeferredPQ c item = do {
     q \<leftarrow> heap_Push pq_interface (ch_deferredPQ c) item;
     Some (c\<lparr>ch_deferredPQ := q\<rparr>)
   }"

definition StartInFlightTimeout ::
  "'b channel \<Rightarrow> int \<Rightarrow> message \<Rightarrow> int \<Rightarrow> int \<Rightarrow> ('e channel_error option \<times> 'b channel) option" where
  "StartInFlightTimeout c now msg clientID timeout =
     (let msg = msg\<lparr>msg_clientID := clientID, msg_deliveryTS := now\<rparr>;
          (e, c) = pushInFlightMessage c msg
      in if e \<noteq> None then Some (e, c)
         else do { c \<leftarrow> addToInFlightPQ c msg (now + timeout); Some (None, c) })"

definition StartDeferredTimeout :: "'b channel \<Rightarrow> int \<Rightarrow> message \<Rightarrow> int \<Rightarrow> ('e channel_error option \<times> 'b channel) option" where
  "StartDeferredTimeout c now msg timeout =
     (let item = \<lparr>pi_val = msg, pi_pri = now + timeout, pi_index = 0\<rparr>;
          (e, c) = pushDeferredMessage c item
      in if e \<noteq> None then Some (e, c)
         else do { c \<leftarrow> addToDeferredPQ c item; Some (None, c) })"

definition PutMessageDeferred :: "'b channel \<Rightarrow> int \<Rightarrow> message \<Rightarrow> int \<Rightarrow> 'b channel option" where
  "PutMessageDeferred c now msg timeout = do {
     (_ :: unit channel_error option, c) \<leftarrow> StartDeferredTimeout (c\<lparr>ch_messageCount := ch_messageCount c + 1\<rparr>) now msg timeout;
     Some c
   }"

text \<open>\<open>maxMsgTimeout\<close> is the option \<open>MaxMsgTimeout\<close>.\<close>

definition TouchMessage ::
  "int \<Rightarrow> 'b channel \<Rightarrow> int \<Rightarrow> int \<Rightarrow> bytes \<Rightarrow> int \<Rightarrow> ('e channel_error option \<times> 'b channel) option" where
  "TouchMessage maxMsgTimeout c now clientID i clientMsgTimeout =
     (case popInFlightMessage c clientID i of
        (Inl e, c) \<Rightarrow> Some (Some e, c)
      | (Inr msg, c) \<Rightarrow> do {
          c \<leftarrow> removeFromInFlightPQ c msg;
          let newTimeout = (if now + clientMsgTimeout - msg_deliveryTS msg \<ge> maxMsgTimeout
            then msg_deliveryTS msg + maxMsgTimeout else now + clientMsgTimeout);
          let (e, c) = pushInFlightMessage c msg;
          if e \<noteq> None then Some (e, c)
          else do { c \<leftarrow> addToInFlightPQ c msg newTimeout; Some (None, c) }
        })"

definition FinishMessage :: "'b channel \<Rightarrow> int \<Rightarrow> bytes \<Rightarrow> ('e channel_error option \<times> 'b channel) option" where
  "FinishMessage c clientID i =
     (case popInFlightMessage c clientID i of
        (Inl e, c) \<Rightarrow> Some (Some e, c)
      | (Inr msg, c) \<Rightarrow> do { c \<leftarrow> removeFromInFlightPQ c msg; Some (None, c) })"

text \<open>\<open>RequeueMessage\<close> in its two critical parts: taking the message out of flight, and putting it back.\<close>

definition requeue_take :: "'b channel \<Rightarrow> int \<Rightarrow> bytes \<Rightarrow> (('e channel_error + message) \<times> 'b channel) option" where
  "requeue_take c clientID i =
     (case popInFlightMessage c clientID i of
        (Inl e, c) \<Rightarrow> Some (Inl e, c)
      | (Inr msg, c) \<Rightarrow> do {
          c \<leftarrow> removeFromInFlightPQ c msg;
          Some (Inr msg, c\<lparr>ch_requeueCount := ch_requeueCount c + 1\<rparr>)
        })"

definition requeue_put ::
  "('b, 'e) backend \<Rightarrow> 'b channel \<Rightarrow> int \<Rightarrow> message \<Rightarrow> int \<Rightarrow> ('e channel_error option \<times> 'b channel) option" where
  "requeue_put B c now msg timeout =
     (if timeout = 0 then if ch_exitFlag c then Some (Some Exiting, c) else ch_put B c msg
      else StartDeferredTimeout c now msg timeout)"

definition RequeueMessage ::
  "('b, 'e) backend \<Rightarrow> 'b channel \<Rightarrow> int \<Rightarrow> int \<Rightarrow> bytes \<Rightarrow> int \<Rightarrow> ('e channel_error option \<times> 'b channel) option" where
  "RequeueMessage B c now clientID i timeout = do {
     (r, c) \<leftarrow> requeue_take c clientID i;
     case r of Inl e \<Rightarrow> Some (Some e, c) | Inr msg \<Rightarrow> requeue_put B c now msg timeout
   }"

text \<open>The loops of \<open>processDeferredQueue\<close> and \<open>processInFlightQueue\<close>; \<open>None\<close> is a panic or a loop that does
  not end. The error of \<open>put\<close> is ignored.\<close>

partial_function (option) processDeferred_loop ::
  "('b, 'e) backend \<Rightarrow> int \<Rightarrow> bool \<Rightarrow> 'b channel \<Rightarrow> (bool \<times> 'b channel) option" where
  "processDeferred_loop B t dirty c = do {
     (item, _, q) \<leftarrow> pq_PeekAndShift (ch_deferredPQ c) t;
     let c = c\<lparr>ch_deferredPQ := q\<rparr>;
     case item of
       None \<Rightarrow> Some (dirty, c)
     | Some item \<Rightarrow>
         (case popDeferredMessage c (msg_ID (pi_val item)) of
            (Inl (e :: 'e channel_error), c) \<Rightarrow> Some (True, c)
          | (Inr _, c) \<Rightarrow> do {
              (_, c) \<leftarrow> ch_put B c (pi_val item);
              processDeferred_loop B t True c
            })
   }"

declare processDeferred_loop.simps [code]

definition processDeferredQueue :: "('b, 'e) backend \<Rightarrow> 'b channel \<Rightarrow> int \<Rightarrow> (bool \<times> 'b channel) option" where
  "processDeferredQueue B c t = (if ch_exitFlag c then Some (False, c) else processDeferred_loop B t False c)"

definition timed_out :: "'b channel \<Rightarrow> int \<Rightarrow> 'b channel" where
  "timed_out c clientID =
     (let c = c\<lparr>ch_timeoutCount := ch_timeoutCount c + 1\<rparr>
      in if clientID \<in> set (ch_clients c) then c\<lparr>ch_calls := ch_calls c @ [(clientID, CallTimedOutMessage)]\<rparr> else c)"

partial_function (option) processInFlight_loop ::
  "('b, 'e) backend \<Rightarrow> int \<Rightarrow> bool \<Rightarrow> 'b channel \<Rightarrow> (bool \<times> 'b channel) option" where
  "processInFlight_loop B t dirty c = do {
     (item, _, q) \<leftarrow> ifp_PeekAndShift (ch_inFlightPQ c) t;
     let c = c\<lparr>ch_inFlightPQ := q\<rparr>;
     case item of
       None \<Rightarrow> Some (dirty, c)
     | Some item \<Rightarrow>
         (case popInFlightMessage c (msg_clientID (pi_val item)) (msg_ID (pi_val item)) of
            (Inl (e :: 'e channel_error), c) \<Rightarrow> Some (True, c)
          | (Inr _, c) \<Rightarrow> do {
              (_, c) \<leftarrow> ch_put B (timed_out c (msg_clientID (pi_val item))) (pi_val item);
              processInFlight_loop B t True c
            })
   }"

declare processInFlight_loop.simps [code]

definition processInFlightQueue :: "('b, 'e) backend \<Rightarrow> 'b channel \<Rightarrow> int \<Rightarrow> (bool \<times> 'b channel) option" where
  "processInFlightQueue B c t = (if ch_exitFlag c then Some (False, c) else processInFlight_loop B t False c)"

section \<open>Clients, pausing, emptying and closing\<close>

definition AddClient :: "int \<Rightarrow> 'b channel \<Rightarrow> int \<Rightarrow> 'e channel_error option \<times> 'b channel" where
  "AddClient maxChannelConsumers c clientID =
     (if clientID \<in> set (ch_clients c) then (None, c)
      else if maxChannelConsumers \<noteq> 0 \<and> int (length (ch_clients c)) \<ge> maxChannelConsumers then (Some TooManyConsumers, c)
      else (None, c\<lparr>ch_clients := clientID # ch_clients c\<rparr>))"

definition RemoveClient :: "'b channel \<Rightarrow> int \<Rightarrow> 'b channel" where
  "RemoveClient c clientID =
     (if clientID \<notin> set (ch_clients c) then c
      else let c = c\<lparr>ch_clients := filter (\<lambda>k. k \<noteq> clientID) (ch_clients c)\<rparr>
           in if ch_clients c = [] \<and> ch_ephemeral c then c\<lparr>ch_deleteCalled := True\<rparr> else c)"

definition call_all :: "'b channel \<Rightarrow> consumer_call \<Rightarrow> 'b channel" where
  "call_all c call = c\<lparr>ch_calls := ch_calls c @ map (\<lambda>k. (k, call)) (ch_clients c)\<rparr>"

definition doPause :: "'b channel \<Rightarrow> bool \<Rightarrow> 'b channel" where
  "doPause c pause = call_all (c\<lparr>ch_paused := pause\<rparr>) (if pause then CallPause else CallUnPause)"

definition ch_Depth :: "('b, 'e) backend \<Rightarrow> 'b channel \<Rightarrow> int" where
  "ch_Depth B c = int (length (ch_memoryMsgChan c)) + be_Depth B (ch_backend c)"

definition ch_Empty :: "('b, 'e) backend \<Rightarrow> int \<Rightarrow> 'b channel \<Rightarrow> ('e option \<times> 'b channel) option" where
  "ch_Empty B memQueueSize c = do {
     c \<leftarrow> initPQ memQueueSize c;
     let c = call_all c CallEmpty;
     let c = c\<lparr>ch_memoryMsgChan := []\<rparr>;
     let (e, b) = be_Empty B (ch_backend c);
     Some (e, c\<lparr>ch_backend := b\<rparr>)
   }"

text \<open>The loops of \<open>flush\<close>; errors of the backend are logged only.\<close>

fun flush_all :: "('b, 'e) backend \<Rightarrow> message list \<Rightarrow> 'b \<Rightarrow> 'b option" where
  "flush_all B [] b = Some b"
| "flush_all B (m # ms) b = do { (_, b) \<leftarrow> writeMessageToBackend B m b; flush_all B ms b }"

definition ch_flush :: "('b, 'e) backend \<Rightarrow> 'b channel \<Rightarrow> 'b channel option" where
  "ch_flush B c = do {
     b \<leftarrow> flush_all B (ch_memoryMsgChan c) (ch_backend c);
     b \<leftarrow> flush_all B (map snd (ch_inFlightMessages c)) b;
     b \<leftarrow> flush_all B (map (pi_val \<circ> snd) (ch_deferredMessages c)) b;
     Some (c\<lparr>ch_memoryMsgChan := [], ch_backend := b\<rparr>)
   }"

definition ch_exit :: "('b, 'e) backend \<Rightarrow> int \<Rightarrow> 'b channel \<Rightarrow> bool \<Rightarrow> ('e channel_error option \<times> 'b channel) option" where
  "ch_exit B memQueueSize c deleted =
     (if ch_exitFlag c then Some (Some Exiting, c)
      else let c = call_all (c\<lparr>ch_exitFlag := True\<rparr>) CallClose
           in if deleted then do {
                (_, c) \<leftarrow> ch_Empty B memQueueSize c;
                let (e, b) = be_Delete B (ch_backend c);
                Some (map_option BackendError e, c\<lparr>ch_backend := b\<rparr>)
              } else do {
                c \<leftarrow> ch_flush B c;
                let (e, b) = be_Close B (ch_backend c);
                Some (map_option BackendError e, c\<lparr>ch_backend := b\<rparr>)
              })"

section \<open>Delivery\<close>

text \<open>What \<open>messagePump\<close> of \<open>nsqd/protocol_v2.go\<close> does with a message it receives from the memory queue or from the
  backend, up to sending it: \<open>None\<close> if there is nothing to receive. A client with a sample rate drops the message
  without delivering it if the random number \<open>r\<close>, from 0 to 99, is above the rate.\<close>

definition sampled_out :: "int \<Rightarrow> int \<Rightarrow> bool" where
  "sampled_out sampleRate r \<longleftrightarrow> sampleRate > 0 \<and> r > sampleRate"

definition pump_memory :: "int \<Rightarrow> int \<Rightarrow> 'b channel \<Rightarrow> int \<Rightarrow> int \<Rightarrow> int \<Rightarrow> (message option \<times> 'b channel) option" where
  "pump_memory sampleRate r c now clientID msgTimeout =
     (case ch_memoryMsgChan c of
        [] \<Rightarrow> None
      | msg # ms \<Rightarrow>
          let c = c\<lparr>ch_memoryMsgChan := ms\<rparr>
          in if sampled_out sampleRate r then Some (None, c)
             else do {
               let msg = msg\<lparr>msg_Attempts := msg_Attempts msg + 1\<rparr>;
               (_ :: unit channel_error option, c) \<leftarrow> StartInFlightTimeout c now msg clientID msgTimeout;
               Some (Some msg, c)
             })"

definition pump_backend ::
  "('b, 'e) backend \<Rightarrow> int \<Rightarrow> int \<Rightarrow> 'b channel \<Rightarrow> int \<Rightarrow> int \<Rightarrow> int \<Rightarrow> (message option \<times> 'b channel) option" where
  "pump_backend B sampleRate r c now clientID msgTimeout = do {
     (x, b) \<leftarrow> be_Read B (ch_backend c);
     let c = c\<lparr>ch_backend := b\<rparr>;
     if sampled_out sampleRate r then Some (None, c)
     else do {
       d \<leftarrow> decodeMessage x;
       case d of
         Inl _ \<Rightarrow> Some (None, c)
       | Inr msg \<Rightarrow> do {
           let msg = msg\<lparr>msg_Attempts := msg_Attempts msg + 1\<rparr>;
           (_ :: unit channel_error option, c) \<leftarrow> StartInFlightTimeout c now msg clientID msgTimeout;
           Some (Some msg, c)
         }
     }
   }"

section \<open>The contents of a channel\<close>

type_synonym payload = "bytes \<times> bytes \<times> int"

definition payload :: "message \<Rightarrow> payload" where
  "payload m = (msg_ID m, msg_Body m, msg_Timestamp m)"

definition stored_payload :: "bytes \<Rightarrow> payload" where
  "stored_payload x = (case decodeMessage x of Some (Inr m) \<Rightarrow> payload m | _ \<Rightarrow> ([], [], 0))"

definition msg_ok :: "message \<Rightarrow> bool" where
  "msg_ok m \<longleftrightarrow> length (msg_ID m) = 16 \<and> - (2 ^ 63) \<le> msg_Timestamp m \<and> msg_Timestamp m < 2 ^ 63"

text \<open>What the channel relies on: the backend is a queue, whose content is \<open>view\<close>, first in first out. A \<open>Put\<close> stores the
  message, or it fails or discards it and leaves the queue as it was; closing keeps what is stored. The disk queue with its errors
  is such a backend, and so is \<open>dummyBackendQueue\<close>, which discards everything and reports no error.\<close>

definition honest_backend :: "('b, 'e) backend \<Rightarrow> ('b \<Rightarrow> bytes list) \<Rightarrow> bool" where
  "honest_backend B view \<longleftrightarrow>
     (\<forall>b x. view (snd (be_Put B b x)) = view b @ [x] \<or> view (snd (be_Put B b x)) = view b) \<and>
     (\<forall>b. view (snd (be_Close B b)) = view b) \<and>
     (\<forall>b. case view b of [] \<Rightarrow> be_Read B b = None | x # xs \<Rightarrow> \<exists>b'. be_Read B b = Some (x, b') \<and> view b' = xs)"

lemma dummy_honest: "honest_backend dummyBackendQueue (\<lambda>_. [])"
  by (simp add: honest_backend_def dummyBackendQueue_def)

text \<open>A payload that some \<open>Put\<close> of the backend does not store, and a bag that is another one, short of such payloads.\<close>

definition discards :: "('b, 'e) backend \<Rightarrow> ('b \<Rightarrow> bytes list) \<Rightarrow> payload \<Rightarrow> bool" where
  "discards B view p \<longleftrightarrow> (\<exists>b x. stored_payload x = p \<and> view (snd (be_Put B b x)) = view b)"

definition short_of :: "('b, 'e) backend \<Rightarrow> ('b \<Rightarrow> bytes list) \<Rightarrow> payload multiset \<Rightarrow> payload multiset \<Rightarrow> bool" where
  "short_of B view X Y \<longleftrightarrow> (\<exists>D. X + D = Y \<and> (\<forall>p \<in># D. discards B view p))"

lemma short_refl [simp]: "short_of B view X X"
  by (auto simp: short_of_def)

lemma short_eq: "X = Y \<Longrightarrow> short_of B view X Y"
  by simp

lemma short_trans [trans]: "short_of B view X Y \<Longrightarrow> short_of B view Y Z \<Longrightarrow> short_of B view X Z"
  unfolding short_of_def
proof (elim exE conjE)
  fix D E assume "X + D = Y" "Y + E = Z" "\<forall>p \<in># D. discards B view p" "\<forall>p \<in># E. discards B view p"
  then show "\<exists>D. X + D = Z \<and> (\<forall>p \<in># D. discards B view p)" by (intro exI [of _ "D + E"]) (auto simp: add.assoc)
qed

lemma short_add: "short_of B view X Y \<Longrightarrow> short_of B view (Z + X) (Z + Y)"
  by (auto simp: short_of_def add.assoc)

lemma short_add_mset: "short_of B view X Y \<Longrightarrow> short_of B view (add_mset p X) (add_mset p Y)"
  using short_add [of B view X Y "{#p#}"] by simp

lemma short_plus:
  assumes "short_of B view X Y" "short_of B view X' Y'"
  shows "short_of B view (X + X') (Y + Y')"
proof -
  have "short_of B view (X + X') (X + Y')" by (rule short_add [OF assms(2)])
  also have "short_of B view (X + Y') (Y + Y')" using short_add [OF assms(1), of Y'] by (simp add: add.commute)
  finally show ?thesis .
qed

lemma short_drop: "discards B view p \<Longrightarrow> short_of B view X (add_mset p X)"
  unfolding short_of_def by (intro exI [of _ "{#p#}"]) simp

lemma short_subset: "short_of B view X Y \<Longrightarrow> X \<subseteq># Y"
  by (auto simp: short_of_def)

text \<open>A backend that stores every message, as the disk queue does while the disk works: nothing is missing.\<close>

definition faithful_backend :: "('b, 'e) backend \<Rightarrow> ('b \<Rightarrow> bytes list) \<Rightarrow> bool" where
  "faithful_backend B view \<longleftrightarrow> honest_backend B view \<and> (\<forall>b x. view (snd (be_Put B b x)) = view b @ [x])"

lemma faithful_short: "faithful_backend B view \<Longrightarrow> short_of B view X Y \<longleftrightarrow> X = Y"
proof -
  assume "faithful_backend B view"
  then have "\<not> discards B view p" for p by (simp add: faithful_backend_def discards_def)
  then have "D = {#}" if "\<forall>p \<in># D. discards B view p" for D using that by (cases "D = {#}") (blast elim: multiset_nonemptyE)+
  then show ?thesis unfolding short_of_def by (metis add.right_neutral empty_iff set_mset_empty)
qed

definition contents_list :: "('b \<Rightarrow> bytes list) \<Rightarrow> 'b channel \<Rightarrow> payload list" where
  "contents_list view c =
     map payload (ch_memoryMsgChan c) @ map stored_payload (view (ch_backend c)) @
     map (payload \<circ> snd) (ch_inFlightMessages c) @ map (payload \<circ> pi_val \<circ> snd) (ch_deferredMessages c)"

definition contents :: "('b \<Rightarrow> bytes list) \<Rightarrow> 'b channel \<Rightarrow> payload multiset" where
  "contents view c = mset (contents_list view c)"

definition ids :: "('b \<Rightarrow> bytes list) \<Rightarrow> 'b channel \<Rightarrow> bytes set" where
  "ids view c = fst ` set (contents_list view c)"

text \<open>The invariant: every message is well-formed and in one place only, and the priority queues hold exactly the
  messages of the two maps.\<close>

definition queues_ok :: "'b channel \<Rightarrow> bool" where
  "queues_ok c \<longleftrightarrow>
     pq_ok (ch_inFlightPQ c) \<and> image_mset fst (pq_bag (ch_inFlightPQ c)) = mset (map snd (ch_inFlightMessages c)) \<and>
     pq_ok (ch_deferredPQ c) \<and> image_mset fst (pq_bag (ch_deferredPQ c)) = mset (map (pi_val \<circ> snd) (ch_deferredMessages c)) \<and>
     (\<forall>(k, m) \<in> set (ch_inFlightMessages c). k = msg_ID m \<and> msg_ok m) \<and>
     (\<forall>(k, x) \<in> set (ch_deferredMessages c). k = msg_ID (pi_val x) \<and> msg_ok (pi_val x))"

definition ch_ok :: "('b \<Rightarrow> bytes list) \<Rightarrow> 'b channel \<Rightarrow> bool" where
  "ch_ok view c \<longleftrightarrow>
     queues_ok c \<and> list_all msg_ok (ch_memoryMsgChan c) \<and>
     list_all (\<lambda>x. \<exists>m. msg_ok m \<and> x = msg_bytes m) (view (ch_backend c)) \<and>
     distinct (map fst (contents_list view c))"

lemma decode_stored: "msg_ok m \<Longrightarrow> decodeMessage (msg_bytes m) = Some (Inr (m\<lparr>msg_deliveryTS := 0, msg_clientID := 0, msg_deferred := 0\<rparr>))"
  by (intro decode_msg_bytes) (simp_all add: msg_ok_def)

lemma stored_payload_eq: "msg_ok m \<Longrightarrow> stored_payload (msg_bytes m) = payload m"
  by (simp add: stored_payload_def decode_stored payload_def)

lemma write_eq: "writeMessageToBackend B m b = Some (be_Put B b (msg_bytes m))"
  by (simp add: writeMessageToBackend_def WriteTo_buffer)

lemma backend_Put:
  assumes "honest_backend B view"
  shows "\<exists>e b'. be_Put B b x = (e, b') \<and> (view b' = view b @ [x] \<or> view b' = view b \<and> discards B view (stored_payload x))"
proof -
  have "view (snd (be_Put B b x)) = view b @ [x] \<or> view (snd (be_Put B b x)) = view b" using assms by (simp add: honest_backend_def)
  then show ?thesis unfolding discards_def by (metis prod.collapse)
qed

text \<open>A put adds the message to the contents, unless the backend discards it, and touches nothing else.\<close>

lemma ch_put_ok:
  assumes "honest_backend B view" "ch_ok view c" "msg_ok m" "msg_ID m \<notin> ids view c"
  shows "\<exists>e c'. ch_put B c m = Some (e, c') \<and> ch_ok view c' \<and> short_of B view (contents view c') (add_mset (payload m) (contents view c)) \<and>
    ch_inFlightPQ c' = ch_inFlightPQ c \<and> ch_deferredPQ c' = ch_deferredPQ c \<and> ch_exitFlag c' = ch_exitFlag c"
proof -
  from backend_Put [OF assms(1)] obtain e b where p: "be_Put B (ch_backend c) (msg_bytes m) = (e, b)" and
    b: "view b = view (ch_backend c) @ [msg_bytes m] \<or> view b = view (ch_backend c) \<and> discards B view (payload m)"
    using stored_payload_eq [OF assms(3)] by metis
  let ?mem = "c\<lparr>ch_memoryMsgChan := ch_memoryMsgChan c @ [m]\<rparr>" and ?disk = "c\<lparr>ch_backend := b\<rparr>"
  have id: "fst (payload m) = msg_ID m" by (simp add: payload_def)
  have 1: "ch_ok view ?mem \<and> contents view ?mem = add_mset (payload m) (contents view c)"
    using assms(2-4) id by (auto simp: ch_ok_def queues_ok_def contents_def contents_list_def ids_def image_iff)
  have "ch_ok view ?disk \<and> contents view ?disk = add_mset (payload m) (contents view c)" if "view b = view (ch_backend c) @ [msg_bytes m]"
    using assms(2-4) id that by (auto simp: ch_ok_def queues_ok_def contents_def contents_list_def ids_def image_iff stored_payload_eq)
  moreover have "ch_ok view ?disk \<and> contents view ?disk = contents view c" if "view b = view (ch_backend c)"
    using assms(2) that by (simp add: ch_ok_def queues_ok_def contents_def contents_list_def)
  ultimately have 2: "ch_ok view ?disk \<and> short_of B view (contents view ?disk) (add_mset (payload m) (contents view c))"
    using b short_drop [of B view "payload m" "contents view c"] by auto
  show ?thesis using 1 2 p by (auto simp: ch_put_def write_eq split: option.splits)
qed

section \<open>Taking messages out of flight\<close>

lemma mset_del:
  assumes "distinct (map fst m)" "map_of m i = Some v"
  shows "mset m = add_mset (i, v) (mset (del i m))"
  using assms
proof (induction m)
  case (Cons p m)
  obtain k x where p: "p = (k, x)" by (cases p)
  show ?case
  proof (cases "k = i")
    case True
    then have "del i m = m" using Cons.prems(1) p by (auto simp: del_def filter_id_conv image_iff)
    with True Cons.prems p show ?thesis by (simp add: del_def)
  next
    case False
    with Cons p have "mset m = add_mset (i, v) (mset (del i m))" by auto
    with False p show ?thesis by (simp add: del_def)
  qed
qed simp

lemma ch_ok_keys:
  assumes "ch_ok view c"
  shows "distinct (map fst (ch_inFlightMessages c))" "distinct (map fst (ch_deferredMessages c))"
proof -
  have q: "queues_ok c" and d: "distinct (map fst (contents_list view c))" using assms by (auto simp: ch_ok_def)
  have e: "map fst (ch_inFlightMessages c) = map (fst \<circ> (payload \<circ> snd)) (ch_inFlightMessages c)"
    "map fst (ch_deferredMessages c) = map (fst \<circ> (payload \<circ> pi_val \<circ> snd)) (ch_deferredMessages c)"
    using q by (auto simp: queues_ok_def payload_def)
  show "distinct (map fst (ch_inFlightMessages c))" unfolding e(1) using d by (simp add: contents_list_def)
  show "distinct (map fst (ch_deferredMessages c))" unfolding e(2) using d by (simp add: contents_list_def)
qed

text \<open>Changes that permute the contents or drop a part of them keep the identifiers distinct.\<close>

lemma distinct_contents:
  assumes "distinct (map fst xs)" "mset ys \<subseteq># mset xs"
  shows "distinct (map fst ys)"
proof -
  obtain zs where "mset zs = mset xs - mset ys" using ex_mset by blast
  then have "mset xs = mset (ys @ zs)" using assms(2) by (simp add: subset_mset.add_diff_inverse)
  then have "mset (map fst xs) = mset (map fst (ys @ zs))" unfolding mset_map by (rule arg_cong)
  from mset_eq_imp_distinct_iff [OF this] assms(1) have "distinct (map fst (ys @ zs))" by blast
  then show ?thesis by simp
qed

text \<open>The contents without the messages in flight, and without the deferred ones.\<close>

lemma contents_inflight:
  "contents view c = mset (map payload (ch_memoryMsgChan c)) + mset (map stored_payload (view (ch_backend c))) +
     image_mset payload (mset (map snd (ch_inFlightMessages c))) + image_mset payload (mset (map (pi_val \<circ> snd) (ch_deferredMessages c)))"
  by (simp add: contents_def contents_list_def multiset.map_comp comp_def)

lemma ch_okI:
  assumes "ch_ok view c" "queues_ok c'" "ch_memoryMsgChan c' = ch_memoryMsgChan c" "ch_backend c' = ch_backend c"
    "contents view c' \<subseteq># contents view c"
  shows "ch_ok view c'"
  using assms distinct_contents [of "contents_list view c" "contents_list view c'"]
  by (auto simp: ch_ok_def contents_def)

lemma contents_minus:
  assumes "ch_ok view c" "contents view c = add_mset p (contents view c')"
  shows "fst p \<notin> ids view c'" "distinct (map fst (contents_list view c'))"
proof -
  have "distinct (map fst (p # contents_list view c'))"
    by (rule distinct_contents [of "contents_list view c"]) (use assms in \<open>auto simp: ch_ok_def contents_def\<close>)
  then show "fst p \<notin> ids view c'" "distinct (map fst (contents_list view c'))" by (auto simp: ids_def)
qed

lemma pq_find:
  assumes "pq_ok q" "image_mset fst (pq_bag q) = mset ms" "m \<in> set ms" "\<And>m'. m' \<in> set ms \<Longrightarrow> msg_ID m' = msg_ID m \<Longrightarrow> m' = m"
  shows "\<exists>x q'. find (\<lambda>x. msg_ID (pi_val x) = msg_ID m) (pq_items q) = Some x \<and> pi_val x = m \<and> pi_index x \<noteq> -1 \<and>
    ifp_Remove q (pi_index x) = Some (x\<lparr>pi_index := -1\<rparr>, q') \<and> pq_ok q' \<and> add_mset m (image_mset fst (pq_bag q')) = mset ms \<and>
    pq_bag q = add_mset (m, pi_pri x) (pq_bag q')"
proof -
  have vals: "mset (map pi_val (pq_items q)) = mset ms"
    using assms(2) by (simp add: pq_bag_def bag_def core_def multiset.map_comp comp_def)
  then have set: "pi_val ` set (pq_items q) = set ms" by (metis list.set_map set_mset_mset)
  then have "\<exists>x \<in> set (pq_items q). msg_ID (pi_val x) = msg_ID m" using assms(3) by force
  then obtain x where x: "find (\<lambda>x. msg_ID (pi_val x) = msg_ID m) (pq_items q) = Some x"
    by (cases "find (\<lambda>x. msg_ID (pi_val x) = msg_ID m) (pq_items q)") (auto simp: find_None_iff)
  then obtain k where k: "k < length (pq_items q)" "x = pq_items q ! k" "msg_ID (pi_val x) = msg_ID m" by (auto simp: find_Some_iff)
  then have m: "pi_val x = m" using set assms(4) by (metis imageI nth_mem)
  have i: "pi_index x = int k" using assms(1) k by (simp add: pq_ok_def indices_ok_def)
  from ifp_Remove_ok [OF assms(1) k(1)] k(2) i obtain q' where
    q': "ifp_Remove q (pi_index x) = Some (x\<lparr>pi_index := -1\<rparr>, q')" "pq_ok q'" "pq_bag q = add_mset (core x) (pq_bag q')"
    by (auto simp: takes_out_def)
  then show ?thesis using x m i assms(2) by (auto simp: core_def)
qed

lemma take_out_fresh:
  assumes "ch_ok view c" "map_of (ch_inFlightMessages c) i = Some m"
    "pq_ok q" "mset (map snd (ch_inFlightMessages c)) = add_mset m (image_mset fst (pq_bag q))"
  defines "c' \<equiv> c\<lparr>ch_inFlightPQ := q, ch_inFlightMessages := del i (ch_inFlightMessages c)\<rparr>"
  shows "ch_ok view c' \<and> contents view c = add_mset (payload m) (contents view c') \<and> msg_ID m = i \<and> msg_ok m \<and> i \<notin> ids view c'"
proof -
  let ?f = "ch_inFlightMessages c"
  have q: "queues_ok c" using assms(1) by (simp add: ch_ok_def)
  have "(i, m) \<in> set ?f" using assms(2) by (rule map_of_SomeD)
  then have id: "msg_ID m = i" "msg_ok m" using q by (auto simp: queues_ok_def)
  have "mset ?f = add_mset (i, m) (mset (del i ?f))" by (rule mset_del [OF ch_ok_keys(1) [OF assms(1)] assms(2)])
  then have snds: "mset (map snd ?f) = add_mset m (mset (map snd (del i ?f)))" by simp
  have "queues_ok c'" using q assms(3, 4) snds by (auto simp: queues_ok_def del_def c'_def)
  moreover have con: "contents view c = add_mset (payload m) (contents view c')" using snds by (simp add: contents_inflight c'_def)
  ultimately have ok: "ch_ok view c'" by (intro ch_okI [OF assms(1)]) (auto simp: c'_def)
  have "i \<notin> ids view c'" using contents_minus(1) [OF assms(1) con] id by (simp add: payload_def)
  with ok con id show ?thesis by simp
qed

lemma take_out_ok:
  assumes "ch_ok view c" "map_of (ch_inFlightMessages c) i = Some m"
  shows "\<exists>c'. removeFromInFlightPQ (c\<lparr>ch_inFlightMessages := del i (ch_inFlightMessages c)\<rparr>) m = Some c' \<and> ch_ok view c' \<and>
    contents view c = add_mset (payload m) (contents view c') \<and> ch_deferredPQ c' = ch_deferredPQ c \<and> ch_exitFlag c' = ch_exitFlag c \<and>
    msg_ID m = i \<and> msg_ok m \<and> i \<notin> ids view c' \<and> (\<exists>p. pq_bag (ch_inFlightPQ c) = add_mset (m, p) (pq_bag (ch_inFlightPQ c')))"
proof -
  let ?f = "ch_inFlightMessages c" and ?c = "c\<lparr>ch_inFlightMessages := del i (ch_inFlightMessages c)\<rparr>"
  note keys = ch_ok_keys(1) [OF assms(1)]
  have q: "queues_ok c" using assms(1) by (simp add: ch_ok_def)
  have mem: "(i, m) \<in> set ?f" using assms(2) by (rule map_of_SomeD)
  then have id: "msg_ID m = i" "msg_ok m" using q by (auto simp: queues_ok_def)
  have only: "m' = m" if "m' \<in> set (map snd ?f)" "msg_ID m' = msg_ID m" for m'
  proof -
    from that(1) obtain k where "(k, m') \<in> set ?f" by auto
    moreover from this q that(2) id have "k = i" by (auto simp: queues_ok_def)
    ultimately show ?thesis using keys mem by (auto dest: eq_key_imp_eq_value)
  qed
  have "m \<in> set (map snd ?f)" using mem by force
  moreover have "pq_ok (ch_inFlightPQ c)" "image_mset fst (pq_bag (ch_inFlightPQ c)) = mset (map snd ?f)"
    using q by (simp_all add: queues_ok_def)
  ultimately obtain x q' where
    x: "find (\<lambda>x. msg_ID (pi_val x) = msg_ID m) (pq_items (ch_inFlightPQ c)) = Some x" "pi_index x \<noteq> -1"
      "ifp_Remove (ch_inFlightPQ c) (pi_index x) = Some (x\<lparr>pi_index := -1\<rparr>, q')" "pq_ok q'"
      "add_mset m (image_mset fst (pq_bag q')) = mset (map snd ?f)" "pq_bag (ch_inFlightPQ c) = add_mset (m, pi_pri x) (pq_bag q')"
    using pq_find [of "ch_inFlightPQ c" "map snd ?f" m] only by blast
  let ?c' = "c\<lparr>ch_inFlightPQ := q', ch_inFlightMessages := del i ?f\<rparr>"
  have "removeFromInFlightPQ ?c m = Some ?c'" using x(1-3) by (simp add: removeFromInFlightPQ_def msg_index_def)
  with take_out_fresh [OF assms(1, 2) x(4)] x(5, 6) show ?thesis by (intro exI [of _ ?c']) simp
qed

section \<open>Putting messages in flight and deferring them\<close>

lemma ch_ok_addI:
  assumes "ch_ok view c" "queues_ok c'" "ch_memoryMsgChan c' = ch_memoryMsgChan c" "ch_backend c' = ch_backend c"
    "contents view c' = add_mset p (contents view c)" "fst p \<notin> ids view c"
  shows "ch_ok view c'"
proof -
  have "distinct (map fst (p # contents_list view c))" using assms(1, 6) by (simp add: ch_ok_def ids_def)
  then have "distinct (map fst (contents_list view c'))" by (rule distinct_contents) (use assms(5) in \<open>simp add: contents_def\<close>)
  with assms show ?thesis by (auto simp: ch_ok_def)
qed

lemma key_in_ids:
  assumes "ch_ok view c"
  shows "i \<in> fst ` set (ch_inFlightMessages c) \<Longrightarrow> i \<in> ids view c" "i \<in> fst ` set (ch_deferredMessages c) \<Longrightarrow> i \<in> ids view c"
proof -
  have q: "\<And>k m. (k, m) \<in> set (ch_inFlightMessages c) \<Longrightarrow> k = msg_ID m" "\<And>k x. (k, x) \<in> set (ch_deferredMessages c) \<Longrightarrow> k = msg_ID (pi_val x)"
    using assms by (auto simp: ch_ok_def queues_ok_def)
  have all: "ids view c = (fst \<circ> payload) ` set (ch_memoryMsgChan c) \<union> (fst \<circ> stored_payload) ` set (view (ch_backend c)) \<union>
    (msg_ID \<circ> snd) ` set (ch_inFlightMessages c) \<union> (msg_ID \<circ> pi_val \<circ> snd) ` set (ch_deferredMessages c)"
    by (simp add: ids_def contents_list_def payload_def image_Un image_image Un_assoc comp_def)
  show "i \<in> ids view c" if "i \<in> fst ` set (ch_inFlightMessages c)" unfolding all using that q(1) by (fastforce simp: image_iff)
  show "i \<in> ids view c" if "i \<in> fst ` set (ch_deferredMessages c)" unfolding all using that q(2) by (fastforce simp: image_iff)
qed

lemma put_inflight_ok:
  assumes "ch_ok view c" "msg_ok m" "msg_ID m \<notin> ids view c"
  shows "\<exists>c1 c2. pushInFlightMessage c m = (None, c1) \<and> addToInFlightPQ c1 m pri = Some c2 \<and> ch_ok view c2 \<and>
    contents view c2 = add_mset (payload m) (contents view c) \<and> ch_exitFlag c2 = ch_exitFlag c \<and>
    pq_bag (ch_inFlightPQ c2) = add_mset (m, pri) (pq_bag (ch_inFlightPQ c)) \<and> map_of (ch_inFlightMessages c2) (msg_ID m) = Some m"
proof -
  let ?c1 = "c\<lparr>ch_inFlightMessages := (msg_ID m, m) # ch_inFlightMessages c\<rparr>"
  have q: "queues_ok c" using assms(1) by (simp add: ch_ok_def)
  have "msg_ID m \<notin> fst ` set (ch_inFlightMessages c)" using key_in_ids(1) [OF assms(1)] assms(3) by blast
  then have none: "map_of (ch_inFlightMessages c) (msg_ID m) = None" by (simp add: map_of_eq_None_iff)
  from q have "pq_ok (ch_inFlightPQ c)" by (simp add: queues_ok_def)
  from ifp_Push_ok [OF this, of "\<lparr>pi_val = m, pi_pri = pri, pi_index = 0\<rparr>"] obtain q' where
    q': "ifp_Push (ch_inFlightPQ c) \<lparr>pi_val = m, pi_pri = pri, pi_index = 0\<rparr> = Some q'" "pq_ok q'"
      "pq_bag q' = add_mset (m, pri) (pq_bag (ch_inFlightPQ c))" by (auto simp: core_def)
  let ?c2 = "?c1\<lparr>ch_inFlightPQ := q'\<rparr>"
  have con: "contents view ?c2 = add_mset (payload m) (contents view c)" by (simp add: contents_inflight)
  have "queues_ok ?c2" using q q' assms(2) by (auto simp: queues_ok_def)
  then have "ch_ok view ?c2" using assms(3) by (intro ch_ok_addI [OF assms(1) _ _ _ con]) (auto simp: payload_def)
  with none q'(1, 3) con show ?thesis by (intro exI [of _ ?c1] exI [of _ ?c2]) (simp add: addToInFlightPQ_def pushInFlightMessage_def)
qed

lemma put_deferred_ok:
  assumes "ch_ok view c" "msg_ok m" "msg_ID m \<notin> ids view c"
  shows "\<exists>c'. StartDeferredTimeout c now m timeout = Some (None, c') \<and> ch_ok view c' \<and>
    contents view c' = add_mset (payload m) (contents view c) \<and> ch_exitFlag c' = ch_exitFlag c"
proof -
  let ?x = "\<lparr>pi_val = m, pi_pri = now + timeout, pi_index = 0\<rparr>"
  let ?c1 = "c\<lparr>ch_deferredMessages := (msg_ID m, ?x) # ch_deferredMessages c\<rparr>"
  have q: "queues_ok c" using assms(1) by (simp add: ch_ok_def)
  have "msg_ID m \<notin> fst ` set (ch_deferredMessages c)" using key_in_ids(2) [OF assms(1)] assms(3) by blast
  then have none: "map_of (ch_deferredMessages c) (msg_ID m) = None" by (simp add: map_of_eq_None_iff)
  from q have "pq_ok (ch_deferredPQ c)" by (simp add: queues_ok_def)
  from heap_Push_ok [OF this, of ?x] obtain q' where
    q': "heap_Push pq_interface (ch_deferredPQ c) ?x = Some q'" "pq_ok q'"
      "pq_bag q' = add_mset (m, now + timeout) (pq_bag (ch_deferredPQ c))" by (auto simp: core_def)
  let ?c2 = "?c1\<lparr>ch_deferredPQ := q'\<rparr>"
  have con: "contents view ?c2 = add_mset (payload m) (contents view c)" by (simp add: contents_inflight)
  have "queues_ok ?c2" using q q' assms(2) by (auto simp: queues_ok_def)
  then have "ch_ok view ?c2" using assms(3) by (intro ch_ok_addI [OF assms(1) _ _ _ con]) (auto simp: payload_def)
  with none q'(1) con show ?thesis
    by (intro exI [of _ ?c2]) (simp add: StartDeferredTimeout_def pushDeferredMessage_def addToDeferredPQ_def Let_def)
qed

section \<open>Timeouts\<close>

text \<open>The two ways in which \<open>PeekAndShift\<close> of a queue can end.\<close>

lemma peek_cases:
  assumes "pq_ok q"
  shows "(\<exists>n. ifp_PeekAndShift q t = Some (None, n, q) \<and> pq_PeekAndShift q t = Some (None, n, q) \<and> (\<forall>x \<in># pq_bag q. t < snd x)) \<or>
    (\<exists>x q1 q2. ifp_PeekAndShift q t = Some (Some x, 0, q1) \<and> pq_PeekAndShift q t = Some (Some x, 0, q2) \<and> pq_ok q1 \<and> pq_ok q2 \<and>
       pi_pri x \<le> t \<and> pq_bag q = add_mset (pi_val x, pi_pri x) (pq_bag q1) \<and> pq_bag q = add_mset (pi_val x, pi_pri x) (pq_bag q2))"
proof -
  let ?least = "Min (pi_pri ` set (pq_items q))"
  have bag: "x \<in># pq_bag q \<longleftrightarrow> (\<exists>y \<in> set (pq_items q). x = (pi_val y, pi_pri y))" for x
    by (auto simp: pq_bag_def bag_def core_def)
  consider "pq_items q = []" | "pq_items q \<noteq> []" "t < ?least" | "pq_items q \<noteq> []" "\<not> t < ?least" by blast
  then show ?thesis
  proof cases
    case 1
    with pqueue_peek_and_shift [OF assms, of t] show ?thesis by (auto simp: pq_bag_def bag_def)
  next
    case 2
    have "t < snd x" if "x \<in># pq_bag q" for x
    proof -
      from that bag obtain y where y: "y \<in> set (pq_items q)" "snd x = pi_pri y" by auto
      then have "?least \<le> pi_pri y" by (intro Min_le) auto
      then show ?thesis unfolding y(2) by (rule less_le_trans [OF 2(2)])
    qed
    with 2 pqueue_peek_and_shift [OF assms, of t] show ?thesis by auto
  next
    case 3
    from 3(2) have "?least \<le> t" by (rule linorder_class.leI)
    with 3 pqueue_peek_and_shift [OF assms, of t] show ?thesis by (simp del: Min_le_iff) metis
  qed
qed

lemma peek_inflight:
  assumes "ch_ok view c"
  shows "(\<exists>n. ifp_PeekAndShift (ch_inFlightPQ c) t = Some (None, n, ch_inFlightPQ c) \<and> (\<forall>x \<in># pq_bag (ch_inFlightPQ c). t < snd x)) \<or>
    (\<exists>x q c'. ifp_PeekAndShift (ch_inFlightPQ c) t = Some (Some x, 0, q) \<and>
       map_of (ch_inFlightMessages c) (msg_ID (pi_val x)) = Some (pi_val x) \<and>
       c' = c\<lparr>ch_inFlightPQ := q, ch_inFlightMessages := del (msg_ID (pi_val x)) (ch_inFlightMessages c)\<rparr> \<and>
       ch_ok view c' \<and> contents view c = add_mset (payload (pi_val x)) (contents view c') \<and> msg_ok (pi_val x) \<and>
       msg_ID (pi_val x) \<notin> ids view c' \<and> pi_pri x \<le> t \<and> pq_bag (ch_inFlightPQ c) = add_mset (pi_val x, pi_pri x) (pq_bag q))"
proof -
  have q: "queues_ok c" using assms by (simp add: ch_ok_def)
  then have pq: "pq_ok (ch_inFlightPQ c)" by (simp add: queues_ok_def)
  have "?thesis" if x: "ifp_PeekAndShift (ch_inFlightPQ c) t = Some (Some x, 0, q1)" "pq_ok q1"
    "pq_bag (ch_inFlightPQ c) = add_mset (pi_val x, pi_pri x) (pq_bag q1)" "pi_pri x \<le> t" for x q1
  proof -
    let ?i = "msg_ID (pi_val x)" and ?f = "ch_inFlightMessages c"
    have vals: "mset (map snd ?f) = add_mset (pi_val x) (image_mset fst (pq_bag q1))" using q x(3) by (simp add: queues_ok_def)
    then have "pi_val x \<in> set (map snd ?f)" by (metis set_mset_mset union_single_eq_member)
    then obtain k where k: "(k, pi_val x) \<in> set ?f" by auto
    with q have id: "k = ?i" "msg_ok (pi_val x)" by (auto simp: queues_ok_def)
    have get: "map_of ?f ?i = Some (pi_val x)" using k id ch_ok_keys(1) [OF assms] by (auto intro: map_of_is_SomeI)
    from take_out_fresh [OF assms get, of q1] x(2) vals id x(1, 3, 4) get show ?thesis
      by (intro disjI2 exI [of _ x] exI [of _ q1]) auto
  qed
  with peek_cases [OF pq, of t] show ?thesis by blast
qed

lemma take_deferred:
  assumes "ch_ok view c" "pq_ok q" "pq_bag (ch_deferredPQ c) = add_mset (pi_val x, pi_pri x) (pq_bag q)"
  defines "c' \<equiv> c\<lparr>ch_deferredPQ := q, ch_deferredMessages := del (msg_ID (pi_val x)) (ch_deferredMessages c)\<rparr>"
  shows "map_of (ch_deferredMessages c) (msg_ID (pi_val x)) \<noteq> None \<and> ch_ok view c' \<and> msg_ok (pi_val x) \<and>
    contents view c = add_mset (payload (pi_val x)) (contents view c') \<and> msg_ID (pi_val x) \<notin> ids view c'"
proof -
  let ?d = "ch_deferredMessages c" and ?i = "msg_ID (pi_val x)"
  have q: "queues_ok c" using assms(1) by (simp add: ch_ok_def)
  have vals: "mset (map (pi_val \<circ> snd) ?d) = add_mset (pi_val x) (image_mset fst (pq_bag q))"
    using q assms(3) by (simp add: queues_ok_def)
  then have "pi_val x \<in> set (map (pi_val \<circ> snd) ?d)" by (metis set_mset_mset union_single_eq_member)
  then obtain k y where y: "(k, y) \<in> set ?d" "pi_val y = pi_val x" by auto
  with q have id: "k = ?i" "msg_ok (pi_val x)" by (auto simp: queues_ok_def)
  have get: "map_of ?d ?i = Some y" using y id ch_ok_keys(2) [OF assms(1)] by (auto intro: map_of_is_SomeI)
  have "mset ?d = add_mset (?i, y) (mset (del ?i ?d))" by (rule mset_del [OF ch_ok_keys(2) [OF assms(1)] get])
  then have snds: "mset (map (pi_val \<circ> snd) ?d) = add_mset (pi_val x) (mset (map (pi_val \<circ> snd) (del ?i ?d)))" using y(2) by simp
  have "queues_ok c'" using q assms(2) vals snds by (auto simp: queues_ok_def del_def c'_def)
  moreover have con: "contents view c = add_mset (payload (pi_val x)) (contents view c')"
    using snds by (simp add: contents_inflight c'_def)
  ultimately have ok: "ch_ok view c'" by (intro ch_okI [OF assms(1)]) (auto simp: c'_def)
  have "?i \<notin> ids view c'" using contents_minus(1) [OF assms(1) con] by (simp add: payload_def)
  with ok con id get show ?thesis by simp
qed

lemma timed_out_simps [simp]:
  "contents view (timed_out c k) = contents view c" "ids view (timed_out c k) = ids view c" "ch_ok view (timed_out c k) = ch_ok view c"
  "ch_inFlightPQ (timed_out c k) = ch_inFlightPQ c" "ch_deferredPQ (timed_out c k) = ch_deferredPQ c"
  "ch_exitFlag (timed_out c k) = ch_exitFlag c"
  by (simp_all add: timed_out_def contents_def contents_list_def ids_def ch_ok_def queues_ok_def Let_def)

lemma all_kept: "\<forall>x \<in># M. t < snd x \<Longrightarrow> {#x \<in># M. t < snd x#} = M" for t :: int
  by (metis (no_types, lifting) filter_mset_True filter_mset_cong)

lemma processInFlight_ok:
  assumes "honest_backend B view" "ch_ok view c"
  shows "\<exists>d c'. processInFlight_loop B t dirty c = Some (d, c') \<and> ch_ok view c' \<and> short_of B view (contents view c') (contents view c) \<and>
    pq_bag (ch_inFlightPQ c') = filter_mset (\<lambda>x. t < snd x) (pq_bag (ch_inFlightPQ c)) \<and> ch_exitFlag c' = ch_exitFlag c"
  using assms(2)
proof (induction "size (pq_bag (ch_inFlightPQ c))" arbitrary: c dirty)
  case (0 c)
  with peek_inflight [OF "0.prems", of t] show ?case by (auto simp: processInFlight_loop.simps [of B t dirty c] all_kept)
next
  case (Suc n c)
  from peek_inflight [OF Suc.prems, of t] show ?case
  proof (elim disjE exE conjE)
    fix k assume "ifp_PeekAndShift (ch_inFlightPQ c) t = Some (None, k, ch_inFlightPQ c)" "\<forall>x \<in># pq_bag (ch_inFlightPQ c). t < snd x"
    with Suc.prems show ?case by (auto simp: processInFlight_loop.simps [of B t dirty c] all_kept)
  next
    fix x q c1
    assume x: "ifp_PeekAndShift (ch_inFlightPQ c) t = Some (Some x, 0, q)"
      "map_of (ch_inFlightMessages c) (msg_ID (pi_val x)) = Some (pi_val x)"
      "c1 = c\<lparr>ch_inFlightPQ := q, ch_inFlightMessages := del (msg_ID (pi_val x)) (ch_inFlightMessages c)\<rparr>"
      "ch_ok view c1" "contents view c = add_mset (payload (pi_val x)) (contents view c1)" "msg_ok (pi_val x)"
      "msg_ID (pi_val x) \<notin> ids view c1" "pi_pri x \<le> t" "pq_bag (ch_inFlightPQ c) = add_mset (pi_val x, pi_pri x) (pq_bag q)"
    let ?c2 = "timed_out c1 (msg_clientID (pi_val x))"
    from ch_put_ok [OF assms(1), of ?c2 "pi_val x"] x(4, 6, 7) obtain e c3 where
      c3: "ch_put B ?c2 (pi_val x) = Some (e, c3)" "ch_ok view c3" "short_of B view (contents view c3) (contents view c)"
        "ch_inFlightPQ c3 = q" "ch_exitFlag c3 = ch_exitFlag c" using x(3, 5) by auto
    have "processInFlight_loop B t dirty c = processInFlight_loop B t True c3"
      using x(1-3) c3(1) by (simp add: processInFlight_loop.simps [of B t dirty c] popInFlightMessage_def)
    with Suc.hyps(1) [of c3 True] Suc.hyps(2) x(5, 8, 9) c3 show ?case by (auto intro: short_trans)
  qed
qed

lemma processDeferred_ok:
  assumes "honest_backend B view" "ch_ok view c"
  shows "\<exists>d c'. processDeferred_loop B t dirty c = Some (d, c') \<and> ch_ok view c' \<and> short_of B view (contents view c') (contents view c) \<and>
    pq_bag (ch_deferredPQ c') = filter_mset (\<lambda>x. t < snd x) (pq_bag (ch_deferredPQ c)) \<and> ch_exitFlag c' = ch_exitFlag c"
  using assms(2)
proof (induction "size (pq_bag (ch_deferredPQ c))" arbitrary: c dirty rule: less_induct)
  case (less c)
  have pq: "pq_ok (ch_deferredPQ c)" using less.prems by (simp add: ch_ok_def queues_ok_def)
  from peek_cases [OF pq, of t] show ?case
  proof (elim disjE exE conjE)
    fix k assume "pq_PeekAndShift (ch_deferredPQ c) t = Some (None, k, ch_deferredPQ c)" "\<forall>x \<in># pq_bag (ch_deferredPQ c). t < snd x"
    with less.prems show ?case by (auto simp: processDeferred_loop.simps [of B t dirty c] all_kept)
  next
    fix x q1 q
    assume x: "pq_PeekAndShift (ch_deferredPQ c) t = Some (Some x, 0, q)" "pq_ok q"
      "pq_bag (ch_deferredPQ c) = add_mset (pi_val x, pi_pri x) (pq_bag q)" "pi_pri x \<le> t"
    let ?c1 = "c\<lparr>ch_deferredPQ := q, ch_deferredMessages := del (msg_ID (pi_val x)) (ch_deferredMessages c)\<rparr>"
    note out = take_deferred [OF less.prems x(2, 3)]
    then obtain y where y: "map_of (ch_deferredMessages c) (msg_ID (pi_val x)) = Some y" by auto
    from ch_put_ok [OF assms(1), of ?c1 "pi_val x"] out obtain e c3 where
      c3: "ch_put B ?c1 (pi_val x) = Some (e, c3)" "ch_ok view c3" "short_of B view (contents view c3) (contents view c)"
        "ch_deferredPQ c3 = q" "ch_exitFlag c3 = ch_exitFlag c" by auto
    have "processDeferred_loop B t dirty c = processDeferred_loop B t True c3"
      using x(1) y c3(1) by (simp add: processDeferred_loop.simps [of B t dirty c] popDeferredMessage_def)
    with less.hyps [of c3 True] x(3, 4) out c3 show ?case by (auto intro: short_trans)
  qed
qed

section \<open>The other operations\<close>

lemma exit_of_removeFromInFlightPQ: "removeFromInFlightPQ c m = Some c' \<Longrightarrow> ch_exitFlag c' = ch_exitFlag c"
  by (auto simp: removeFromInFlightPQ_def split: if_splits option.splits bind_splits)

lemma owned_take:
  assumes "ch_ok view c" "map_of (ch_inFlightMessages c) i = Some m" "msg_clientID m = k"
  shows "\<exists>c'. popInFlightMessage c k i = (Inr m, c\<lparr>ch_inFlightMessages := del i (ch_inFlightMessages c)\<rparr>) \<and>
    removeFromInFlightPQ (c\<lparr>ch_inFlightMessages := del i (ch_inFlightMessages c)\<rparr>) m = Some c' \<and> ch_ok view c' \<and>
    contents view c = add_mset (payload m) (contents view c') \<and> ch_exitFlag c' = ch_exitFlag c \<and> msg_ID m = i \<and> msg_ok m \<and>
    i \<notin> ids view c' \<and> (\<exists>p. pq_bag (ch_inFlightPQ c) = add_mset (m, p) (pq_bag (ch_inFlightPQ c')))"
  using take_out_ok [OF assms(1, 2)] assms(2, 3) by (auto simp: popInFlightMessage_def)

text \<open>The message, if it is in flight to that client: what \<open>FinishMessage\<close> takes out of the channel.\<close>

definition owned :: "'b channel \<Rightarrow> int \<Rightarrow> bytes \<Rightarrow> message option" where
  "owned c k i = (case map_of (ch_inFlightMessages c) i of None \<Rightarrow> None | Some m \<Rightarrow> if msg_clientID m = k then Some m else None)"

definition payload_bag :: "message option \<Rightarrow> payload multiset" where
  "payload_bag x = (case x of None \<Rightarrow> {#} | Some m \<Rightarrow> {#payload m#})"

lemma payload_bag_simps [simp]: "payload_bag None = {#}" "payload_bag (Some m) = {#payload m#}"
  by (simp_all add: payload_bag_def)

lemma owned_Some: "owned c k i = Some m \<longleftrightarrow> map_of (ch_inFlightMessages c) i = Some m \<and> msg_clientID m = k"
  by (auto simp: owned_def split: option.splits)

text \<open>A touch by the owner moves the deadline to the earlier of the new timeout and the longest time in flight.\<close>

lemma TouchMessage_owned:
  assumes "ch_ok view c" "owned c k i = Some m"
  shows "\<exists>c'. TouchMessage mt c now k i t = Some (None :: 'e channel_error option, c') \<and> ch_ok view c' \<and>
    contents view c' = contents view c \<and> ch_exitFlag c' = ch_exitFlag c \<and> owned c' k i = Some m \<and>
    (\<exists>p rest. pq_bag (ch_inFlightPQ c) = add_mset (m, p) rest \<and>
      pq_bag (ch_inFlightPQ c') = add_mset (m, min (now + t) (msg_deliveryTS m + mt)) rest)"
proof -
  have m: "map_of (ch_inFlightMessages c) i = Some m" "msg_clientID m = k" using assms(2) by (auto simp: owned_Some)
  let ?to = "if now + t - msg_deliveryTS m \<ge> mt then msg_deliveryTS m + mt else now + t"
  from owned_take [OF assms(1) m] obtain c1 p where
    c1: "popInFlightMessage c k i = (Inr m :: 'e channel_error + message, c\<lparr>ch_inFlightMessages := del i (ch_inFlightMessages c)\<rparr>)"
    "removeFromInFlightPQ (c\<lparr>ch_inFlightMessages := del i (ch_inFlightMessages c)\<rparr>) m = Some c1" "ch_ok view c1"
    "contents view c = add_mset (payload m) (contents view c1)" "ch_exitFlag c1 = ch_exitFlag c" "msg_ok m" "msg_ID m \<notin> ids view c1"
    "pq_bag (ch_inFlightPQ c) = add_mset (m, p) (pq_bag (ch_inFlightPQ c1))" "msg_ID m = i" by blast
  from put_inflight_ok [OF c1(3, 6, 7), of ?to] obtain c2 c3 where
    c3: "pushInFlightMessage c1 m = (None :: 'e channel_error option, c2)"
    "addToInFlightPQ c2 m ?to = Some c3" "ch_ok view c3" "contents view c3 = add_mset (payload m) (contents view c1)"
    "ch_exitFlag c3 = ch_exitFlag c1" "pq_bag (ch_inFlightPQ c3) = add_mset (m, ?to) (pq_bag (ch_inFlightPQ c1))"
    "map_of (ch_inFlightMessages c3) (msg_ID m) = Some m" by blast
  have to: "?to = min (now + t) (msg_deliveryTS m + mt)" by auto
  have "TouchMessage mt c now k i t = Some (None :: 'e channel_error option, c3)" using c1(1, 2) c3(1, 2) by (simp add: TouchMessage_def Let_def)
  with c1(4, 5, 8, 9) c3(3-7) m(2) show ?thesis unfolding to by (auto simp: owned_Some)
qed

lemma TouchMessage_refused:
  assumes "owned c k i = None"
  shows "\<exists>e. TouchMessage mt c now k i t = Some (Some (e :: 'e channel_error), c)"
  using assms by (auto simp: owned_def TouchMessage_def popInFlightMessage_def split: option.splits if_splits)

lemma TouchMessage_ok:
  assumes "ch_ok view c"
  shows "\<exists>(e :: 'e channel_error option) c'. TouchMessage mt c now k i t = Some (e, c') \<and> ch_ok view c' \<and> contents view c' = contents view c \<and>
    ch_exitFlag c' = ch_exitFlag c"
  using TouchMessage_owned [OF assms, of k i _ mt now t, where ?'e = 'e] TouchMessage_refused [of c k i mt now t, where ?'e = 'e] assms
  by (cases "owned c k i") blast+

lemma FinishMessage_ok:
  assumes "ch_ok view c"
  shows "\<exists>(e :: 'e channel_error option) c'. FinishMessage c k i = Some (e, c') \<and> ch_ok view c' \<and> contents view c = payload_bag (owned c k i) + contents view c' \<and>
    (e = None \<longleftrightarrow> owned c k i \<noteq> None) \<and> ch_exitFlag c' = ch_exitFlag c"
proof (cases "owned c k i")
  case (Some m)
  then have m: "map_of (ch_inFlightMessages c) i = Some m" "msg_clientID m = k" by (auto simp: owned_def split: option.splits if_splits)
  from owned_take [OF assms m, where ?'b = 'e] Some show ?thesis by (auto simp: FinishMessage_def)
next
  case None
  with assms show ?thesis by (auto simp: owned_def FinishMessage_def popInFlightMessage_def split: option.splits if_splits)
qed

lemma ch_ok_counters [simp]:
  "ch_ok view (c\<lparr>ch_requeueCount := n\<rparr>) = ch_ok view c" "contents view (c\<lparr>ch_requeueCount := n\<rparr>) = contents view c"
  "ids view (c\<lparr>ch_requeueCount := n\<rparr>) = ids view c"
  "ch_ok view (c\<lparr>ch_messageCount := n\<rparr>) = ch_ok view c" "contents view (c\<lparr>ch_messageCount := n\<rparr>) = contents view c"
  "ids view (c\<lparr>ch_messageCount := n\<rparr>) = ids view c"
  by (simp_all add: contents_def contents_list_def ids_def ch_ok_def queues_ok_def)

lemma RequeueMessage_ok:
  assumes "honest_backend B view" "ch_ok view c" "\<not> ch_exitFlag c"
  shows "\<exists>(e :: 'e channel_error option) c'. RequeueMessage B c now k i t = Some (e, c') \<and> ch_ok view c' \<and>
    short_of B view (contents view c') (contents view c) \<and> \<not> ch_exitFlag c'"
proof (cases "owned c k i")
  case (Some m)
  then have m: "map_of (ch_inFlightMessages c) i = Some m" "msg_clientID m = k" by (auto simp: owned_def split: option.splits if_splits)
  from owned_take [OF assms(2) m] obtain c1 where
    c1: "popInFlightMessage c k i = (Inr m :: 'e channel_error + message, c\<lparr>ch_inFlightMessages := del i (ch_inFlightMessages c)\<rparr>)"
    "removeFromInFlightPQ (c\<lparr>ch_inFlightMessages := del i (ch_inFlightMessages c)\<rparr>) m = Some c1" "ch_ok view c1"
    "contents view c = add_mset (payload m) (contents view c1)" "ch_exitFlag c1 = ch_exitFlag c" "msg_ok m" "msg_ID m \<notin> ids view c1" by blast
  let ?c2 = "c1\<lparr>ch_requeueCount := ch_requeueCount c1 + 1\<rparr>"
  have take: "requeue_take c k i = Some (Inr m :: 'e channel_error + message, ?c2)" using c1(1, 2) by (simp add: requeue_take_def)
  have "\<exists>e c'. requeue_put B ?c2 now m t = Some (e, c') \<and> ch_ok view c' \<and> short_of B view (contents view c') (contents view c) \<and> \<not> ch_exitFlag c'"
    using ch_put_ok [OF assms(1), of ?c2 m] put_deferred_ok [of view ?c2 m now t, where ?'b = 'e] c1 assms(3) by (auto simp: requeue_put_def)
  then show ?thesis using take by (simp add: RequeueMessage_def)
next
  case None
  with assms(2, 3) show ?thesis
    by (auto simp: owned_def RequeueMessage_def requeue_take_def popInFlightMessage_def split: option.splits if_splits)
qed

lemma StartInFlight_ok:
  assumes "ch_ok view c" "msg_ok m" "msg_ID m \<notin> ids view c"
  shows "\<exists>c'. StartInFlightTimeout c now m k t = Some (None :: 'e channel_error option, c') \<and> ch_ok view c' \<and>
    contents view c' = add_mset (payload m) (contents view c) \<and> ch_exitFlag c' = ch_exitFlag c"
  using put_inflight_ok [of view c "m\<lparr>msg_clientID := k, msg_deliveryTS := now\<rparr>" "now + t", where ?'b = 'e] assms
  by (auto simp: StartInFlightTimeout_def Let_def msg_ok_def payload_def)

section \<open>Runs of a channel\<close>

text \<open>The operations of the producers, the consumers and the queue scan, each at a time. The delivery of a message is only possible
  when there is one: else the pump waits.\<close>

datatype ch_op =
  OpPut message | OpPutDeferred message int | OpTouch int bytes int | OpFinish int bytes | OpRequeue int bytes int
| OpDeferred | OpInFlight | OpMemory int int int int | OpBackend int int int int | OpAddClient int | OpRemoveClient int | OpPause bool

record ch_opts =
  op_maxMsgTimeout :: int
  op_maxChannelConsumers :: int

definition ch_do :: "('b, 'e) backend \<Rightarrow> ch_opts \<Rightarrow> int \<Rightarrow> ch_op \<Rightarrow> 'b channel \<Rightarrow> 'b channel option" where
  "ch_do B opts now op c =
     (case op of
        OpPut m \<Rightarrow> map_option snd (PutMessage B c m)
      | OpPutDeferred m t \<Rightarrow> PutMessageDeferred c now m t
      | OpTouch k i t \<Rightarrow> map_option snd (TouchMessage (op_maxMsgTimeout opts) c now k i t :: (unit channel_error option \<times> 'b channel) option)
      | OpFinish k i \<Rightarrow> map_option snd (FinishMessage c k i :: (unit channel_error option \<times> 'b channel) option)
      | OpRequeue k i t \<Rightarrow> map_option snd (RequeueMessage B c now k i t)
      | OpDeferred \<Rightarrow> map_option snd (processDeferredQueue B c now)
      | OpInFlight \<Rightarrow> map_option snd (processInFlightQueue B c now)
      | OpMemory s r k t \<Rightarrow> if ch_memoryMsgChan c = [] then Some c else map_option snd (pump_memory s r c now k t)
      | OpBackend s r k t \<Rightarrow> if be_Read B (ch_backend c) = None then Some c else map_option snd (pump_backend B s r c now k t)
      | OpAddClient k \<Rightarrow> Some (snd (AddClient (op_maxChannelConsumers opts) c k :: unit channel_error option \<times> 'b channel))
      | OpRemoveClient k \<Rightarrow> Some (RemoveClient c k)
      | OpPause p \<Rightarrow> Some (doPause c p))"

definition op_puts :: "ch_op \<Rightarrow> message list" where
  "op_puts op = (case op of OpPut m \<Rightarrow> [m] | OpPutDeferred m t \<Rightarrow> [m] | _ \<Rightarrow> [])"

text \<open>The messages that leave the channel: finished by their owner, or dropped by a client that samples.\<close>

definition op_leaves :: "('b, 'e) backend \<Rightarrow> 'b channel \<Rightarrow> ch_op \<Rightarrow> payload multiset" where
  "op_leaves B c op =
     (case op of
        OpFinish k i \<Rightarrow> payload_bag (owned c k i)
      | OpMemory s r k t \<Rightarrow> if sampled_out s r then mset (map payload (take 1 (ch_memoryMsgChan c))) else {#}
      | OpBackend s r k t \<Rightarrow>
          (case be_Read B (ch_backend c) of Some (x, _) \<Rightarrow> if sampled_out s r then {#stored_payload x#} else {#} | None \<Rightarrow> {#})
      | _ \<Rightarrow> {#})"

text \<open>A run, with what left the channel in it.\<close>

fun ch_run :: "('b, 'e) backend \<Rightarrow> ch_opts \<Rightarrow> (int \<times> ch_op) list \<Rightarrow> 'b channel \<Rightarrow> (payload multiset \<times> 'b channel) option" where
  "ch_run B opts [] c = Some ({#}, c)"
| "ch_run B opts ((now, op) # ops) c = do {
     c' \<leftarrow> ch_do B opts now op c;
     (f, c'') \<leftarrow> ch_run B opts ops c';
     Some (op_leaves B c op + f, c'')
   }"

definition conserves ::
  "('b, 'e) backend \<Rightarrow> ('b \<Rightarrow> bytes list) \<Rightarrow> 'b channel \<Rightarrow> payload multiset \<Rightarrow> payload multiset \<Rightarrow> 'b channel option \<Rightarrow> bool" where
  "conserves B view c puts out r \<longleftrightarrow>
     (\<exists>c'. r = Some c' \<and> ch_ok view c' \<and> short_of B view (out + contents view c') (puts + contents view c) \<and> \<not> ch_exitFlag c')"

lemma conservesI:
  "r = Some c' \<Longrightarrow> ch_ok view c' \<Longrightarrow> out + contents view c' = puts + contents view c \<Longrightarrow> \<not> ch_exitFlag c' \<Longrightarrow> conserves B view c puts out r"
  by (auto simp: conserves_def intro: short_eq)

lemma ch_ok_clients [simp]:
  "ch_ok view (c\<lparr>ch_clients := n\<rparr>) = ch_ok view c" "contents view (c\<lparr>ch_clients := n\<rparr>) = contents view c"
  "ch_ok view (c\<lparr>ch_calls := l\<rparr>) = ch_ok view c" "contents view (c\<lparr>ch_calls := l\<rparr>) = contents view c"
  "ch_ok view (c\<lparr>ch_deleteCalled := d\<rparr>) = ch_ok view c" "contents view (c\<lparr>ch_deleteCalled := d\<rparr>) = contents view c"
  "ch_ok view (c\<lparr>ch_paused := d\<rparr>) = ch_ok view c" "contents view (c\<lparr>ch_paused := d\<rparr>) = contents view c"
  by (simp_all add: contents_def contents_list_def ch_ok_def queues_ok_def)

lemma client_ops:
  assumes "ch_ok view c" "\<not> ch_exitFlag c"
  shows "conserves B view c {#} {#} (Some (snd (AddClient n c k :: unit channel_error option \<times> 'b channel)))"
    "conserves B view c {#} {#} (Some (RemoveClient c k))" "conserves B view c {#} {#} (Some (doPause c p))"
  using assms by (auto simp: conserves_def AddClient_def RemoveClient_def doPause_def call_all_def Let_def)

lemma pump_memory_ok:
  assumes "ch_ok view c" "\<not> ch_exitFlag c" "ch_memoryMsgChan c \<noteq> []"
  shows "conserves B view c {#} (if sampled_out s r then mset (map payload (take 1 (ch_memoryMsgChan c))) else {#})
    (map_option snd (pump_memory s r c now k t))"
proof -
  from assms(3) obtain m ms where mem: "ch_memoryMsgChan c = m # ms" by (cases "ch_memoryMsgChan c") auto
  let ?c1 = "c\<lparr>ch_memoryMsgChan := ms\<rparr>" and ?m = "m\<lparr>msg_Attempts := msg_Attempts m + 1\<rparr>"
  have con: "contents view c = add_mset (payload m) (contents view ?c1)" using mem by (simp add: contents_inflight)
  have c1: "ch_ok view ?c1" "contents view c = add_mset (payload m) (contents view ?c1)" "msg_ok m" "msg_ID m \<notin> ids view ?c1"
    using assms(1) mem con contents_minus [OF assms(1) con] by (auto simp: ch_ok_def queues_ok_def payload_def)
  have m: "msg_ok ?m" "payload ?m = payload m" "msg_ID ?m = msg_ID m" using c1(3) by (simp_all add: msg_ok_def payload_def)
  from StartInFlight_ok [OF c1(1) m(1), of now k t] c1(4) m(3) obtain c' where
    "StartInFlightTimeout ?c1 now ?m k t = Some (None :: unit channel_error option, c')" "ch_ok view c'"
    "contents view c' = add_mset (payload m) (contents view ?c1)" "ch_exitFlag c' = ch_exitFlag c" using m(2) by auto
  with c1(1, 2) mem assms(2) show ?thesis by (auto simp: pump_memory_def Let_def intro: conservesI)
qed

lemma pump_backend_ok:
  assumes "honest_backend B view" "ch_ok view c" "\<not> ch_exitFlag c" "be_Read B (ch_backend c) \<noteq> None"
  shows "conserves B view c {#}
    (case be_Read B (ch_backend c) of Some (x, _) \<Rightarrow> if sampled_out s r then {#stored_payload x#} else {#} | None \<Rightarrow> {#})
    (map_option snd (pump_backend B s r c now k t))"
proof -
  have "case view (ch_backend c) of [] \<Rightarrow> be_Read B (ch_backend c) = None
    | x # xs \<Rightarrow> \<exists>b'. be_Read B (ch_backend c) = Some (x, b') \<and> view b' = xs"
    using assms(1) by (simp add: honest_backend_def)
  with assms(4) obtain x xs b where v: "view (ch_backend c) = x # xs" "be_Read B (ch_backend c) = Some (x, b)" "view b = xs"
    by (auto split: list.splits)
  from assms(2) v(1) obtain m where m: "msg_ok m" "x = msg_bytes m" by (auto simp: ch_ok_def)
  let ?c1 = "c\<lparr>ch_backend := b\<rparr>"
  let ?m = "m\<lparr>msg_deliveryTS := 0, msg_clientID := 0, msg_deferred := 0, msg_Attempts := msg_Attempts m + 1\<rparr>"
  have con: "contents view c = add_mset (payload m) (contents view ?c1)"
    using v m(2) stored_payload_eq [OF m(1)] by (simp add: contents_inflight)
  have c1: "ch_ok view ?c1" "contents view c = add_mset (payload m) (contents view ?c1)" "msg_ID m \<notin> ids view ?c1"
    using assms(2) v(1, 3) con contents_minus [OF assms(2) con] by (auto simp: ch_ok_def queues_ok_def payload_def)
  have m': "msg_ok ?m" "payload ?m = payload m" "msg_ID ?m = msg_ID m" using m by (simp_all add: msg_ok_def payload_def)
  from StartInFlight_ok [OF c1(1) m'(1), of now k t] c1(3) m'(3) obtain c' where
    "StartInFlightTimeout ?c1 now ?m k t = Some (None :: unit channel_error option, c')" "ch_ok view c'"
    "contents view c' = add_mset (payload m) (contents view ?c1)" "ch_exitFlag c' = ch_exitFlag c" using m'(2) by auto
  with c1(1, 2) v(2) m(2) decode_stored [OF m(1)] stored_payload_eq [OF m(1)] assms(3) show ?thesis
    by (auto simp: pump_backend_def Let_def intro: conservesI)
qed

text \<open>Each operation, on a channel that is not closing.\<close>

lemma ch_do_ok:
  assumes B: "honest_backend B view" and c: "ch_ok view c" "\<not> ch_exitFlag c"
    and m: "\<And>m. m \<in> set (op_puts op) \<Longrightarrow> msg_ok m \<and> msg_ID m \<notin> ids view c"
  shows "conserves B view c (mset (map payload (op_puts op))) (op_leaves B c op) (ch_do B opts now op c)"
proof (cases op)
  case (OpPut m)
  with m have "msg_ok m" "msg_ID m \<notin> ids view c" by (auto simp: op_puts_def)
  from ch_put_ok [OF B c(1) this] OpPut c show ?thesis
    by (auto simp: conserves_def ch_do_def op_puts_def op_leaves_def PutMessage_def)
next
  case (OpPutDeferred m t)
  with m have "msg_ok m" "msg_ID m \<notin> ids view (c\<lparr>ch_messageCount := ch_messageCount c + 1\<rparr>)" by (auto simp: op_puts_def)
  from put_deferred_ok [OF _ this, of now t, where ?'b = unit] OpPutDeferred c show ?thesis
    by (auto simp: conserves_def ch_do_def op_puts_def op_leaves_def PutMessageDeferred_def)
next
  case (OpTouch k i t)
  with TouchMessage_ok [OF c(1), of "op_maxMsgTimeout opts" now k i t, where ?'e = unit] c show ?thesis
    by (auto simp: conserves_def ch_do_def op_puts_def op_leaves_def)
next
  case (OpFinish k i)
  with FinishMessage_ok [OF c(1), of k i, where ?'e = unit] c show ?thesis
    by (auto simp: conserves_def ch_do_def op_puts_def op_leaves_def)
next
  case (OpRequeue k i t)
  with RequeueMessage_ok [OF B c, of now k i t] show ?thesis
    by (auto simp: conserves_def ch_do_def op_puts_def op_leaves_def)
next
  case OpDeferred
  with processDeferred_ok [OF B c(1), of now False] c show ?thesis
    by (auto simp: conserves_def ch_do_def op_puts_def op_leaves_def processDeferredQueue_def)
next
  case OpInFlight
  with processInFlight_ok [OF B c(1), of now False] c show ?thesis
    by (auto simp: conserves_def ch_do_def op_puts_def op_leaves_def processInFlightQueue_def)
next
  case (OpMemory s r k t)
  with pump_memory_ok [OF c, of B s r now k t] c show ?thesis
    by (auto simp: ch_do_def op_puts_def op_leaves_def intro: conservesI)
next
  case (OpBackend s r k t)
  with pump_backend_ok [OF B c, of s r now k t] c show ?thesis
    by (auto simp: ch_do_def op_puts_def op_leaves_def intro: conservesI)
qed (use client_ops [OF c] in \<open>auto simp: ch_do_def op_puts_def op_leaves_def\<close>)

lemma ids_contents: "ids view c = fst ` set_mset (contents view c)"
  by (simp add: ids_def contents_def)

lemma ids_short: "short_of B view (contents view c) X \<Longrightarrow> ids view c \<subseteq> fst ` set_mset X"
  using set_mset_mono [OF short_subset] by (fastforce simp: ids_contents)

lemma ids_conserved:
  assumes "short_of B view (out + contents view c') (mset (map payload ms) + contents view c)"
  shows "ids view c' \<subseteq> msg_ID ` set ms \<union> ids view c"
proof -
  have "contents view c' \<subseteq># mset (map payload ms) + contents view c"
    using short_subset [OF assms] mset_subset_eq_add_right subset_mset.order_trans by blast
  then have "set_mset (contents view c') \<subseteq> payload ` set ms \<union> set_mset (contents view c)"
    using set_mset_mono by fastforce
  then show ?thesis by (auto simp: ids_contents payload_def image_iff) (use payload_def in \<open>fastforce\<close>)
qed

definition run_puts :: "(int \<times> ch_op) list \<Rightarrow> message list" where
  "run_puts ops = concat (map (op_puts \<circ> snd) ops)"

lemma ch_run_ok:
  assumes B: "honest_backend B view"
  shows "ch_ok view c \<Longrightarrow> \<not> ch_exitFlag c \<Longrightarrow> list_all msg_ok (run_puts ops) \<Longrightarrow> distinct (map msg_ID (run_puts ops)) \<Longrightarrow>
    msg_ID ` set (run_puts ops) \<inter> ids view c = {} \<Longrightarrow>
    \<exists>f c'. ch_run B opts ops c = Some (f, c') \<and> ch_ok view c' \<and> \<not> ch_exitFlag c' \<and>
      short_of B view (f + contents view c') (mset (map payload (run_puts ops)) + contents view c)"
proof (induction ops arbitrary: c)
  case Nil
  then show ?case by (simp add: run_puts_def)
next
  case (Cons a ops)
  obtain now op where a: "a = (now, op)" by (cases a)
  have puts: "run_puts (a # ops) = op_puts op @ run_puts ops" by (simp add: run_puts_def a)
  have fresh: "msg_ok m \<and> msg_ID m \<notin> ids view c" if "m \<in> set (op_puts op)" for m
    using that Cons.prems(3, 5) by (auto simp: puts list_all_iff)
  from ch_do_ok [OF B Cons.prems(1, 2) fresh, of op opts now] obtain c1 where
    c1: "ch_do B opts now op c = Some c1" "ch_ok view c1" "\<not> ch_exitFlag c1"
      "short_of B view (op_leaves B c op + contents view c1) (mset (map payload (op_puts op)) + contents view c)" by (auto simp: conserves_def)
  have "msg_ID ` set (run_puts ops) \<inter> ids view c1 = {}"
    using ids_conserved [OF c1(4)] Cons.prems(4, 5) by (auto simp: puts disjoint_iff image_iff)
  with Cons.IH [OF c1(2, 3)] Cons.prems(3, 4) obtain f c' where
    c': "ch_run B opts ops c1 = Some (f, c')" "ch_ok view c'" "\<not> ch_exitFlag c'"
      "short_of B view (f + contents view c') (mset (map payload (run_puts ops)) + contents view c1)" by (auto simp: puts)
  have "short_of B view (op_leaves B c op + f + contents view c') (op_leaves B c op + (mset (map payload (run_puts ops)) + contents view c1))"
    using short_add [OF c'(4)] by (simp only: add.assoc)
  also have "op_leaves B c op + (mset (map payload (run_puts ops)) + contents view c1) =
      mset (map payload (run_puts ops)) + (op_leaves B c op + contents view c1)" by (simp add: ac_simps)
  also have "short_of B view \<dots> (mset (map payload (run_puts ops)) + (mset (map payload (op_puts op)) + contents view c))"
    by (rule short_add [OF c1(4)])
  also have "\<dots> = mset (map payload (run_puts (a # ops))) + contents view c" by (simp add: puts ac_simps)
  finally have "short_of B view (op_leaves B c op + f + contents view c') (mset (map payload (run_puts (a # ops))) + contents view c)" .
  with a c1(1) c' show ?case by simp
qed

end
