(* ===== verification/Nsq_Channel_Props.thy ===== *)
theory Nsq_Channel_Props
  imports Nsq_Channel
begin

text \<open>
  What a channel of \<open>nsqd\<close> promises: whatever the order of the operations no message is duplicated, and none is lost but
  to a backend that does not store it; overdue messages go back to the queue, touching a message is bounded, and closing a channel
  hands everything it holds to the backend. Two schedules in which a message is lost end the theory.
\<close>

section \<open>New channels\<close>

lemma initPQ_ok:
  "\<exists>p d. initPQ n c = Some (c\<lparr>ch_inFlightMessages := [], ch_inFlightPQ := p, ch_deferredMessages := [], ch_deferredPQ := d\<rparr>) \<and>
     pq_ok p \<and> pq_ok d \<and> pq_bag p = {#} \<and> pq_bag d = {#}"
proof -
  have "1 \<le> pqSize n" by (simp add: pqSize_def)
  from slice_make_ok [OF this] obtain p :: "message pq_slice" where "slice_make (pqSize n) = Some p" "pq_ok p" "pq_bag p = {#}" by blast
  then show ?thesis by (intro exI [of _ p]) (simp add: initPQ_def newInFlightPqueue_def pq_New_def)
qed

lemma NewChannel_ok:
  assumes "list_all (\<lambda>x. \<exists>m. msg_ok m \<and> x = msg_bytes m) (view b)" "distinct (map (fst \<circ> stored_payload) (view b))"
  shows "\<exists>c. NewChannel n name b = Some c \<and> ch_ok view c \<and> contents view c = mset (map stored_payload (view b)) \<and> \<not> ch_exitFlag c"
proof -
  let ?c = "\<lparr>ch_name = name, ch_backend = b, ch_memCap = (if n > 0 then Some n else None),
        ch_memoryMsgChan = [], ch_exitFlag = False, ch_paused = False,
        ch_ephemeral = (take 10 (rev name) = rev ''#ephemeral''), ch_clients = [], ch_calls = [], ch_deleteCalled = False,
        ch_messageCount = 0, ch_requeueCount = 0, ch_timeoutCount = 0,
        ch_deferredMessages = [], ch_deferredPQ = \<lparr>pq_items = [], pq_cap = 0\<rparr>,
        ch_inFlightMessages = [], ch_inFlightPQ = \<lparr>pq_items = [], pq_cap = 0\<rparr>\<rparr>"
  from initPQ_ok [of n ?c] obtain p d where
    "NewChannel n name b = Some (?c\<lparr>ch_inFlightMessages := [], ch_inFlightPQ := p, ch_deferredMessages := [], ch_deferredPQ := d\<rparr>)"
    "pq_ok p" "pq_ok d" "pq_bag p = {#}" "pq_bag d = {#}" unfolding NewChannel_def by blast
  with assms show ?thesis by (auto simp: ch_ok_def queues_ok_def contents_def contents_list_def)
qed

section \<open>A backend in memory\<close>

text \<open>For the witnesses: a queue of byte strings meets the contract of a backend.\<close>

definition list_backend :: "(bytes list, unit) backend" where
  "list_backend = \<lparr>be_Put = (\<lambda>b x. (None, b @ [x])), be_Close = Pair None, be_Delete = (\<lambda>_. (None, [])),
     be_Depth = (\<lambda>b. int (length b)), be_Empty = (\<lambda>_. (None, [])),
     be_Read = (\<lambda>b. case b of [] \<Rightarrow> None | x # xs \<Rightarrow> Some (x, xs))\<rparr>"

lemma list_backend_faithful: "faithful_backend list_backend (\<lambda>b. b)" "honest_backend list_backend (\<lambda>b. b)"
  by (auto simp: faithful_backend_def honest_backend_def list_backend_def split: list.splits)

lemma list_backend_short [simp]: "short_of list_backend (\<lambda>b. b) X Y \<longleftrightarrow> X = Y"
  by (rule faithful_short [OF list_backend_faithful(1)])

definition sample_msg :: "nat \<Rightarrow> message" where
  "sample_msg n = NewMessage (replicate 15 48 @ [of_nat n]) [7, 8] 1000"

lemma sample_msg_ok: "msg_ok (sample_msg n)"
  by (simp add: sample_msg_def NewMessage_def msg_ok_def)

lemma sample_payload: "payload (sample_msg n) = (replicate 15 48 @ [of_nat n], [7, 8], 1000)" "msg_ID (sample_msg n) = replicate 15 48 @ [of_nat n]"
  by (simp_all add: sample_msg_def NewMessage_def payload_def)

section \<open>Conservation\<close>

text \<open>
  C12. A run of a new channel, over any sequence of the methods for puts, deferred puts, deliveries, touches, requeues, finishes,
  timeout scans and client changes, one call after the other, never panics or loops, and ends in a state where the priority
  queues and the maps agree. The backend may fail or discard what it is given, as the one of ephemeral channels does. No message is
  duplicated or invented: what left the channel (finished by its owner, or dropped by a client that samples) and what it still holds,
  each message in one place with its identifier, body and timestamp, is exactly what was put, short of messages that a \<open>Put\<close> of the
  backend did not store; with a backend that stores every message, nothing is missing. The messages put have different identifiers.
  The methods that touch a map and its queue in two critical sections are one step, so races between two calls are not covered.\<close>

theorem channel_conserves:
  assumes "honest_backend B view" "view b = []" "list_all msg_ok (run_puts ops)" "distinct (map msg_ID (run_puts ops))"
  shows "\<exists>c0 f c. NewChannel memQueueSize name b = Some c0 \<and> ch_run B opts ops c0 = Some (f, c) \<and> ch_ok view c \<and>
    short_of B view (f + contents view c) (mset (map payload (run_puts ops))) \<and>
    (faithful_backend B view \<longrightarrow> f + contents view c = mset (map payload (run_puts ops)))"
proof -
  from NewChannel_ok [of view b memQueueSize name] assms(2) obtain c0 where
    c0: "NewChannel memQueueSize name b = Some c0" "ch_ok view c0" "contents view c0 = {#}" "\<not> ch_exitFlag c0" by auto
  then have "ids view c0 = {}" by (simp add: ids_contents)
  with ch_run_ok [OF assms(1) c0(2, 4) assms(3, 4), of opts] c0 faithful_short [of B view] show ?thesis by auto
qed

theorem channel_conserves_witness:
  "\<exists>c0 f c. NewChannel 1 ''ch'' [] = Some c0 \<and>
     ch_run list_backend \<lparr>op_maxMsgTimeout = 900, op_maxChannelConsumers = 0\<rparr>
       [(1, OpAddClient 5), (2, OpPut (sample_msg 1)), (3, OpPut (sample_msg 2)), (4, OpPutDeferred (sample_msg 3) 10),
        (5, OpMemory 0 0 5 60), (6, OpBackend 10 50 5 60), (7, OpFinish 5 (replicate 15 48 @ [1])), (8, OpRequeue 5 (replicate 15 48 @ [2]) 0),
        (100, OpInFlight), (100, OpDeferred)] c0 = Some (f, c) \<and>
     ch_ok (\<lambda>b. b) c \<and> f + contents (\<lambda>b. b) c = {#payload (sample_msg 1), payload (sample_msg 2), payload (sample_msg 3)#}"
  using channel_conserves [OF list_backend_faithful(2), of "[]"
      "[(1, OpAddClient 5), (2, OpPut (sample_msg 1)), (3, OpPut (sample_msg 2)), (4, OpPutDeferred (sample_msg 3) 10),
        (5, OpMemory 0 0 5 60), (6, OpBackend 10 50 5 60), (7, OpFinish 5 (replicate 15 48 @ [1])), (8, OpRequeue 5 (replicate 15 48 @ [2]) 0),
        (100, OpInFlight), (100, OpDeferred)]" 1 "''ch''" "\<lparr>op_maxMsgTimeout = 900, op_maxChannelConsumers = 0\<rparr>"]
  by (simp add: run_puts_def op_puts_def sample_msg_ok sample_payload(2) list_backend_faithful(1))

section \<open>Timeouts\<close>


definition inflight_channel :: "bytes list channel" where
  "inflight_channel = \<lparr>ch_name = ''ch'', ch_backend = [], ch_memCap = None, ch_memoryMsgChan = [], ch_exitFlag = False, ch_paused = False,
     ch_ephemeral = False, ch_clients = [], ch_calls = [], ch_deleteCalled = False,
     ch_messageCount = 1, ch_requeueCount = 0, ch_timeoutCount = 0,
     ch_deferredMessages = [], ch_deferredPQ = \<lparr>pq_items = [], pq_cap = 1\<rparr>,
     ch_inFlightMessages = [(replicate 15 48 @ [1], (sample_msg 1)\<lparr>msg_clientID := 5\<rparr>)],
     ch_inFlightPQ = \<lparr>pq_items = [\<lparr>pi_val = (sample_msg 1)\<lparr>msg_clientID := 5\<rparr>, pi_pri = 10, pi_index = 0\<rparr>], pq_cap = 1\<rparr>\<rparr>"

lemma inflight_channel_ok: "ch_ok (\<lambda>b. b) inflight_channel" "\<not> ch_exitFlag inflight_channel"
  "contents (\<lambda>b. b) inflight_channel = {#payload (sample_msg 1)#}"
  using sample_msg_ok [of 1]
  by (auto simp: ch_ok_def queues_ok_def inflight_channel_def contents_def contents_list_def pq_ok_def pq_bag_def bag_def core_def
      indices_ok_def heap_upto_def prio_def sample_payload msg_ok_def payload_def)


section \<open>Touching\<close>

text \<open>
  \<open>TouchMessage\<close> by the owner moves the deadline of the message to the earlier of the
  new timeout and the longest time the message may stay in flight since its delivery: however often a client touches a
  message, it times out at \<open>MaxMsgTimeout\<close> after its delivery. By anybody else it fails and changes nothing.\<close>

theorem touch_bounded:
  assumes "ch_ok view c"
  shows "\<exists>(e :: 'e channel_error option) c'. TouchMessage mt c now k i t = Some (e, c') \<and>
    (case owned c k i of
       None \<Rightarrow> e \<noteq> None \<and> c' = c
     | Some m \<Rightarrow> e = None \<and> contents view c' = contents view c \<and> owned c' k i = Some m \<and>
         (\<exists>p rest. pq_bag (ch_inFlightPQ c) = add_mset (m, p) rest \<and>
            pq_bag (ch_inFlightPQ c') = add_mset (m, min (now + t) (msg_deliveryTS m + mt)) rest))"
  using TouchMessage_owned [OF assms, of k i _ mt now t, where ?'e = 'e] TouchMessage_refused [of c k i mt now t, where ?'e = 'e]
  by (cases "owned c k i") auto

theorem touch_bounded_witness:
  "\<exists>(e :: unit channel_error option) c'. TouchMessage 100 inflight_channel 5 5 (replicate 15 48 @ [1]) 1000 = Some (e, c') \<and> e = None \<and>
     (\<exists>p rest. pq_bag (ch_inFlightPQ inflight_channel) = add_mset ((sample_msg 1)\<lparr>msg_clientID := 5\<rparr>, p) rest \<and>
        pq_bag (ch_inFlightPQ c') = add_mset ((sample_msg 1)\<lparr>msg_clientID := 5\<rparr>, 100) rest)"
proof -
  have m: "owned inflight_channel 5 (replicate 15 48 @ [1]) = Some ((sample_msg 1)\<lparr>msg_clientID := 5\<rparr>)"
    "msg_deliveryTS ((sample_msg 1)\<lparr>msg_clientID := 5\<rparr>) = 0"
    by (simp_all add: owned_def inflight_channel_def sample_msg_def NewMessage_def)
  show ?thesis using touch_bounded [OF inflight_channel_ok(1), of 100 5 5 "replicate 15 48 @ [1]" 1000, where ?'e = unit] m by auto
qed

section \<open>Closing\<close>

text \<open>Flushing stores a part of the messages, in their order; the others were discarded.\<close>

lemma flush_all_ok:
  assumes "honest_backend B view"
  shows "list_all msg_ok ms \<Longrightarrow> \<exists>b' ms'. flush_all B ms b = Some b' \<and> view b' = view b @ map msg_bytes ms' \<and>
    list_all msg_ok ms' \<and> short_of B view (mset (map payload ms')) (mset (map payload ms))"
proof (induction ms arbitrary: b)
  case (Cons m ms)
  from Cons.prems have m: "msg_ok m" "list_all msg_ok ms" by simp_all
  from backend_Put [OF assms, of b "msg_bytes m"] stored_payload_eq [OF m(1)] obtain e b1 where b1: "be_Put B b (msg_bytes m) = (e, b1)"
    "view b1 = view b @ [msg_bytes m] \<or> view b1 = view b \<and> discards B view (payload m)" by auto
  from Cons.IH [OF m(2), of b1] obtain b' ms' where b': "flush_all B ms b1 = Some b'" "view b' = view b1 @ map msg_bytes ms'"
    "list_all msg_ok ms'" "short_of B view (mset (map payload ms')) (mset (map payload ms))" by blast
  have fl: "flush_all B (m # ms) b = Some b'" using b1(1) b'(1) by (simp add: write_eq)
  from b1(2) show ?case
  proof (elim disjE conjE)
    assume "view b1 = view b @ [msg_bytes m]"
    with fl b' m(1) show ?thesis by (intro exI [of _ b'] exI [of _ "m # ms'"]) (simp add: short_add_mset)
  next
    assume "view b1 = view b" "discards B view (payload m)"
    with fl b' short_trans [OF b'(4) short_drop] show ?thesis by (intro exI [of _ b'] exI [of _ ms']) simp
  qed
qed simp

lemma stored_all: "list_all msg_ok ms \<Longrightarrow> map stored_payload (map msg_bytes ms) = map payload ms"
  by (induction ms) (simp_all add: stored_payload_eq)

text \<open>What a channel writes when it is closed: the messages of its memory queue, in flight and deferred.\<close>

definition to_flush :: "'b channel \<Rightarrow> message list" where
  "to_flush c = ch_memoryMsgChan c @ map snd (ch_inFlightMessages c) @ map (pi_val \<circ> snd) (ch_deferredMessages c)"

lemma contents_to_flush:
  assumes "ch_ok view c"
  shows "list_all msg_ok (to_flush c)" "contents view c = mset (map stored_payload (view (ch_backend c))) + mset (map payload (to_flush c))"
  using assms by (auto simp: ch_ok_def queues_ok_def list_all_iff to_flush_def contents_inflight multiset.map_comp comp_assoc)

lemma ch_flush_ok:
  assumes "honest_backend B view" "ch_ok view c"
  shows "\<exists>b ms. ch_flush B c = Some (c\<lparr>ch_memoryMsgChan := [], ch_backend := b\<rparr>) \<and> view b = view (ch_backend c) @ map msg_bytes ms \<and>
    list_all msg_ok ms \<and> short_of B view (mset (map payload ms)) (mset (map payload (to_flush c)))"
proof -
  note flush = flush_all_ok [OF assms(1)]
  have ok: "list_all msg_ok (ch_memoryMsgChan c)" "list_all msg_ok (map snd (ch_inFlightMessages c))"
    "list_all msg_ok (map (pi_val \<circ> snd) (ch_deferredMessages c))" using contents_to_flush(1) [OF assms(2)] by (simp_all add: to_flush_def)
  from flush [OF ok(1), of "ch_backend c"] obtain b1 m1 where b1: "flush_all B (ch_memoryMsgChan c) (ch_backend c) = Some b1"
    "view b1 = view (ch_backend c) @ map msg_bytes m1" "list_all msg_ok m1"
    "short_of B view (mset (map payload m1)) (mset (map payload (ch_memoryMsgChan c)))" by blast
  from flush [OF ok(2), of b1] obtain b2 m2 where b2: "flush_all B (map snd (ch_inFlightMessages c)) b1 = Some b2"
    "view b2 = view b1 @ map msg_bytes m2" "list_all msg_ok m2"
    "short_of B view (mset (map payload m2)) (mset (map payload (map snd (ch_inFlightMessages c))))" by blast
  from flush [OF ok(3), of b2] obtain b3 m3 where b3: "flush_all B (map (pi_val \<circ> snd) (ch_deferredMessages c)) b2 = Some b3"
    "view b3 = view b2 @ map msg_bytes m3" "list_all msg_ok m3"
    "short_of B view (mset (map payload m3)) (mset (map payload (map (pi_val \<circ> snd) (ch_deferredMessages c))))" by blast
  have "short_of B view (mset (map payload (m1 @ m2 @ m3))) (mset (map payload (to_flush c)))"
    using short_plus [OF b1(4) short_plus [OF b2(4) b3(4)]] by (simp only: map_append mset_append to_flush_def)
  then show ?thesis using b1(1-3) b2(1-3) b3(1-3) by (intro exI [of _ b3] exI [of _ "m1 @ m2 @ m3"]) (simp add: ch_flush_def)
qed

lemma close_ok:
  assumes "honest_backend B view" "ch_ok view c" "\<not> ch_exitFlag c"
  shows "\<exists>e c'. ch_exit B n c False = Some (e, c') \<and> ch_exitFlag c' \<and>
    short_of B view (mset (map stored_payload (view (ch_backend c')))) (contents view c) \<and>
    list_all (\<lambda>x. \<exists>m. msg_ok m \<and> x = msg_bytes m) (view (ch_backend c')) \<and> distinct (map (fst \<circ> stored_payload) (view (ch_backend c')))"
proof -
  let ?c = "call_all (c\<lparr>ch_exitFlag := True\<rparr>) CallClose"
  have c: "ch_ok view ?c" "to_flush ?c = to_flush c" "ch_backend ?c = ch_backend c" using assms(2) by (simp_all add: call_all_def to_flush_def ch_ok_def queues_ok_def contents_list_def)
  from ch_flush_ok [OF assms(1) c(1), unfolded c(2, 3)] obtain b ms where b: "ch_flush B ?c = Some (?c\<lparr>ch_memoryMsgChan := [], ch_backend := b\<rparr>)"
    "view b = view (ch_backend c) @ map msg_bytes ms" "list_all msg_ok ms" "short_of B view (mset (map payload ms)) (mset (map payload (to_flush c)))" by blast
  obtain e b' where b': "be_Close B b = (e, b')" by (cases "be_Close B b")
  have "view (snd (be_Close B b)) = view b" using assms(1) by (simp add: honest_backend_def)
  then have v: "view b' = view (ch_backend c) @ map msg_bytes ms" using b' b(2) by simp
  have short: "short_of B view (mset (map stored_payload (view b'))) (contents view c)"
    unfolding v map_append [of _ "view (ch_backend c)"] stored_all [OF b(3)] contents_to_flush(2) [OF assms(2)] mset_append by (rule short_add [OF b(4)])
  have "distinct (map fst (map stored_payload (view b')))"
    using distinct_contents [OF _ short_subset [OF short, unfolded contents_def]] assms(2) unfolding ch_ok_def by blast
  then have "distinct (map (fst \<circ> stored_payload) (view b'))" by simp
  moreover have "list_all (\<lambda>x. \<exists>m. msg_ok m \<and> x = msg_bytes m) (view b')"
    using assms(2) b(3) by (auto simp: v ch_ok_def list_all_iff)
  ultimately show ?thesis using b(1) b' short assms(3) by (simp add: ch_exit_def call_all_def)
qed

text \<open>
  Closing a channel writes everything it holds, in memory, in flight and deferred, to the
  backend: a channel opened on that backend later holds the same messages, each once, short of those that the backend did not store.\<close>

theorem channel_close_persists:
  assumes "honest_backend B view" "ch_ok view c" "\<not> ch_exitFlag c"
  shows "\<exists>e c' d. ch_exit B memQueueSize c False = Some (e, c') \<and> NewChannel memQueueSize name (ch_backend c') = Some d \<and>
    ch_ok view d \<and> short_of B view (contents view d) (contents view c)"
proof -
  from close_ok [OF assms] obtain e c' where c': "ch_exit B memQueueSize c False = Some (e, c')"
    "short_of B view (mset (map stored_payload (view (ch_backend c')))) (contents view c)"
    "list_all (\<lambda>x. \<exists>m. msg_ok m \<and> x = msg_bytes m) (view (ch_backend c'))" "distinct (map (fst \<circ> stored_payload) (view (ch_backend c')))" by blast
  from NewChannel_ok [of view "ch_backend c'" memQueueSize name, OF c'(3, 4)] obtain d where "NewChannel memQueueSize name (ch_backend c') = Some d" "ch_ok view d"
    "contents view d = mset (map stored_payload (view (ch_backend c')))" by blast
  with c'(1, 2) show ?thesis by auto
qed

theorem channel_close_persists_witness:
  "\<exists>e c' d. ch_exit list_backend 10 inflight_channel False = Some (e, c') \<and> NewChannel 10 ''ch'' (ch_backend c') = Some d \<and>
     ch_ok (\<lambda>b. b) d \<and> contents (\<lambda>b. b) d = {#payload (sample_msg 1)#}"
  using channel_close_persists [OF list_backend_faithful(2) inflight_channel_ok(1, 2), of 10 "''ch''"] inflight_channel_ok(3) by simp

section \<open>Sampling\<close>

text \<open>A client with sample rate \<open>s\<close> percent gets \<open>s + 1\<close> percent of the messages: of the hundred values of
  the random number, \<open>s + 1\<close> are not above \<open>s\<close>. At 99 nothing is dropped.\<close>

theorem sampling_off_by_one:
  assumes "0 < s" "s \<le> 99"
  shows "card {r \<in> {0..<100}. \<not> sampled_out s r} = nat s + 1"
proof -
  have "{r \<in> {0..<100}. \<not> sampled_out s r} = {0..s}" using assms by (auto simp: sampled_out_def)
  then show ?thesis using assms by simp
qed

section \<open>Two ways to lose a message\<close>

text \<open>If the channel is closed between the two parts of \<open>RequeueMessage\<close>, the message is in neither the
  in-flight map, which \<open>flush\<close> has written, nor anywhere else: the requeue fails and the message is gone.\<close>

theorem requeue_during_close_loses:
  assumes "faithful_backend B view" "ch_ok view c" "\<not> ch_exitFlag c" "owned c k i = Some m"
  shows "\<exists>c1 e c2. requeue_take c k i = Some (Inr m :: 'e channel_error + message, c1) \<and> ch_exit B n c1 False = Some (e, c2) \<and>
    requeue_put B c2 now m 0 = Some (Some Exiting, c2) \<and>
    add_mset (payload m) (mset (map stored_payload (view (ch_backend c2)))) = contents view c"
proof -
  have m: "map_of (ch_inFlightMessages c) i = Some m" "msg_clientID m = k" using assms(4) by (auto simp: owned_def split: option.splits if_splits)
  from owned_take [OF assms(2) m] obtain c1 where
    c1: "popInFlightMessage c k i = (Inr m :: 'e channel_error + message, c\<lparr>ch_inFlightMessages := del i (ch_inFlightMessages c)\<rparr>)"
    "removeFromInFlightPQ (c\<lparr>ch_inFlightMessages := del i (ch_inFlightMessages c)\<rparr>) m = Some c1" "ch_ok view c1"
    "contents view c = add_mset (payload m) (contents view c1)" "ch_exitFlag c1 = ch_exitFlag c" by blast
  let ?c1 = "c1\<lparr>ch_requeueCount := ch_requeueCount c1 + 1\<rparr>"
  have take: "requeue_take c k i = Some (Inr m :: 'e channel_error + message, ?c1)" using c1(1, 2) by (simp add: requeue_take_def)
  have c1': "ch_ok view ?c1" "\<not> ch_exitFlag ?c1" using c1(3, 5) assms(3) by simp_all
  have honest: "honest_backend B view" using assms(1) by (simp add: faithful_backend_def)
  from close_ok [OF honest c1', of n] obtain e c2 where c2: "ch_exit B n ?c1 False = Some (e, c2)" "ch_exitFlag c2"
    "short_of B view (mset (map stored_payload (view (ch_backend c2)))) (contents view ?c1)" by blast
  from c2(3) c1(4) take c2(1, 2) show ?thesis unfolding faithful_short [OF assms(1)] by (auto simp: requeue_put_def)
qed

text \<open>If the backend refuses a write, a message that times out is lost: \<open>processInFlightQueue\<close> ignores the
  error of \<open>put\<close>.\<close>

definition full_backend :: "(bytes list, unit) backend" where
  "full_backend = list_backend\<lparr>be_Put := (\<lambda>b x. (Some (), b))\<rparr>"

theorem timeout_with_full_backend_loses:
  "\<exists>d c'. processInFlightQueue full_backend inflight_channel 20 = Some (d, c') \<and> contents (\<lambda>b. b) c' = {#}"
proof -
  have "map_option (\<lambda>(d, c). (ch_memoryMsgChan c, ch_backend c, ch_inFlightMessages c, ch_deferredMessages c))
    (processInFlightQueue full_backend inflight_channel 20) = Some ([], [], [], [])" by code_simp
  then show ?thesis by (auto simp: contents_def contents_list_def)
qed

end
