(* ===== verification/Nsq_Topic.thy ===== *)
theory Nsq_Topic
  imports Nsq_Channel_Props
begin

text \<open>
  \<open>nsqd/topic.go\<close>: a topic, its channels and the goroutine \<open>messagePump\<close> that copies every message of the topic to
  all its channels. The channels are objects in a store, which the map of the topic and the
  slice of the pump refer to by their position. A goroutine that waits to send on the unbuffered channels
  \<open>channelUpdateChan\<close> and \<open>pauseChan\<close> is an element of a list and of a count of senders; the pump
  takes one at a time. Each method is a step, as is each round of the pump. Logging and notifications are left out.
\<close>

section \<open>The state\<close>

datatype pump_pc = PumpWaiting | PumpRunning | PumpExited

text \<open>\<open>t_updates\<close> are the senders on \<open>channelUpdateChan\<close>: true for one that deletes an ephemeral topic when it is done.
  \<open>t_chans\<close> and \<open>t_reading\<close> are the local variables of the pump: \<open>t_reading\<close> says that its queues are not nil.\<close>

record 'b topic =
  t_name :: string
  t_channelMap :: "(string \<times> nat) list"
  t_store :: "'b channel list"
  t_backend :: 'b
  t_memCap :: "int option"
  t_memoryMsgChan :: "message list"
  t_startChan :: bool
  t_exitChan :: bool
  t_updates :: "bool list"
  t_pauses :: nat
  t_exitFlag :: bool
  t_idFactory :: guid_factory
  t_ephemeral :: bool
  t_deleteCalled :: bool
  t_paused :: bool
  t_messageCount :: u64
  t_messageBytes :: u64
  t_pc :: pump_pc
  t_chans :: "nat list"
  t_reading :: bool

datatype 'e topic_error = TopicExiting | ChannelDoesNotExist | TopicBackendError 'e

definition NewTopic :: "int \<Rightarrow> int \<Rightarrow> string \<Rightarrow> 'b \<Rightarrow> 'b topic" where
  "NewTopic memQueueSize ID name b =
     \<lparr>t_name = name, t_channelMap = [], t_store = [], t_backend = b,
      t_memCap = (if memQueueSize > 0 then Some memQueueSize else None), t_memoryMsgChan = [],
      t_startChan = False, t_exitChan = False, t_updates = [], t_pauses = 0, t_exitFlag = False,
      t_idFactory = NewGUIDFactory ID, t_ephemeral = (take 10 (rev name) = rev ''#ephemeral''), t_deleteCalled = False,
      t_paused = False, t_messageCount = 0, t_messageBytes = 0,
      t_pc = PumpWaiting, t_chans = [], t_reading = False\<rparr>"

text \<open>The channel \<open>startChan\<close> holds one value.\<close>

definition t_Start :: "'b topic \<Rightarrow> 'b topic" where
  "t_Start t = t\<lparr>t_startChan := True\<rparr>"

section \<open>Channels of the topic\<close>

text \<open>\<open>openq\<close> opens the backend of a new channel of that name.\<close>

definition getOrCreateChannel :: "int \<Rightarrow> (string \<Rightarrow> 'b) \<Rightarrow> 'b topic \<Rightarrow> string \<Rightarrow> (nat \<times> bool \<times> 'b topic) option" where
  "getOrCreateChannel memQueueSize openq t channelName =
     (case map_of (t_channelMap t) channelName of
        Some k \<Rightarrow> Some (k, False, t)
      | None \<Rightarrow> do {
          c \<leftarrow> NewChannel memQueueSize channelName (openq channelName);
          let k = length (t_store t);
          Some (k, True, t\<lparr>t_store := t_store t @ [c], t_channelMap := (channelName, k) # t_channelMap t\<rparr>)
        })"

text \<open>\<open>GetChannel\<close> up to where it waits for the pump.\<close>

definition GetChannel :: "int \<Rightarrow> (string \<Rightarrow> 'b) \<Rightarrow> 'b topic \<Rightarrow> string \<Rightarrow> (nat \<times> 'b topic) option" where
  "GetChannel memQueueSize openq t channelName = do {
     (k, isNew, t) \<leftarrow> getOrCreateChannel memQueueSize openq t channelName;
     Some (k, if isNew then t\<lparr>t_updates := t_updates t @ [False]\<rparr> else t)
   }"

definition GetExistingChannel :: "'b topic \<Rightarrow> string \<Rightarrow> 'e topic_error + nat" where
  "GetExistingChannel t channelName =
     (case map_of (t_channelMap t) channelName of None \<Rightarrow> Inl ChannelDoesNotExist | Some k \<Rightarrow> Inr k)"

definition store_at :: "'b topic \<Rightarrow> nat \<Rightarrow> 'b channel option" where
  "store_at t k = (if k < length (t_store t) then Some (t_store t ! k) else None)"

text \<open>\<open>DeleteExistingChannel\<close> up to where it waits for the pump.\<close>

definition DeleteExistingChannel ::
  "('b, 'e) backend \<Rightarrow> int \<Rightarrow> 'b topic \<Rightarrow> string \<Rightarrow> ('e topic_error option \<times> 'b topic) option" where
  "DeleteExistingChannel B memQueueSize t channelName =
     (case map_of (t_channelMap t) channelName of
        None \<Rightarrow> Some (Some ChannelDoesNotExist, t)
      | Some k \<Rightarrow> do {
          let t = t\<lparr>t_channelMap := filter (\<lambda>(n, _). n \<noteq> channelName) (t_channelMap t)\<rparr>;
          c \<leftarrow> store_at t k;
          (_, c) \<leftarrow> ch_exit B memQueueSize c True;
          let t = t\<lparr>t_store := (t_store t)[k := c]\<rparr>;
          Some (None, t\<lparr>t_updates := t_updates t @ [t_channelMap t = [] \<and> t_ephemeral t]\<rparr>)
        })"

section \<open>Putting messages\<close>

definition t_put :: "('b, 'e) backend \<Rightarrow> 'b topic \<Rightarrow> message \<Rightarrow> ('e topic_error option \<times> 'b topic) option" where
  "t_put B t m =
     (case t_memCap t of
        Some cap \<Rightarrow> if int (length (t_memoryMsgChan t)) < cap
          then Some (None, t\<lparr>t_memoryMsgChan := t_memoryMsgChan t @ [m]\<rparr>)
          else do { (e, b) \<leftarrow> writeMessageToBackend B m (t_backend t); Some (map_option TopicBackendError e, t\<lparr>t_backend := b\<rparr>) }
      | None \<Rightarrow> do { (e, b) \<leftarrow> writeMessageToBackend B m (t_backend t); Some (map_option TopicBackendError e, t\<lparr>t_backend := b\<rparr>) })"

definition t_PutMessage :: "('b, 'e) backend \<Rightarrow> 'b topic \<Rightarrow> message \<Rightarrow> ('e topic_error option \<times> 'b topic) option" where
  "t_PutMessage B t m =
     (if t_exitFlag t then Some (Some TopicExiting, t)
      else do {
        (e, t) \<leftarrow> t_put B t m;
        Some (if e \<noteq> None then (e, t)
          else (None, t\<lparr>t_messageCount := t_messageCount t + 1, t_messageBytes := t_messageBytes t + of_nat (length (msg_Body m))\<rparr>))
      })"

fun PutMessages_loop ::
  "('b, 'e) backend \<Rightarrow> nat \<Rightarrow> nat \<Rightarrow> message list \<Rightarrow> 'b topic \<Rightarrow> ('e topic_error option \<times> 'b topic) option" where
  "PutMessages_loop B i sz [] t =
     Some (None, t\<lparr>t_messageBytes := t_messageBytes t + of_nat sz, t_messageCount := t_messageCount t + of_nat i\<rparr>)"
| "PutMessages_loop B i sz (m # ms) t = do {
     (e, t) \<leftarrow> t_put B t m;
     if e \<noteq> None then Some (e, t\<lparr>t_messageCount := t_messageCount t + of_nat i, t_messageBytes := t_messageBytes t + of_nat sz\<rparr>)
     else PutMessages_loop B (i + 1) (sz + length (msg_Body m)) ms t
   }"

definition t_PutMessages :: "('b, 'e) backend \<Rightarrow> 'b topic \<Rightarrow> message list \<Rightarrow> ('e topic_error option \<times> 'b topic) option" where
  "t_PutMessages B t msgs = (if t_exitFlag t then Some (Some TopicExiting, t) else PutMessages_loop B 0 0 msgs t)"

definition t_Depth :: "('b, 'e) backend \<Rightarrow> 'b topic \<Rightarrow> int" where
  "t_Depth B t = int (length (t_memoryMsgChan t)) + be_Depth B (t_backend t)"

text \<open>\<open>GenerateID\<close> retries until the factory hands out an identifier; \<open>clock\<close> holds the readings of the clock, and
  \<open>None\<close> says that they did not suffice.\<close>

fun GenerateID_loop :: "guid_factory \<Rightarrow> int list \<Rightarrow> (bytes \<times> guid_factory) option" where
  "GenerateID_loop f [] = None"
| "GenerateID_loop f (now # clock) =
     (case NewGUID f now of
        (Inl _, f) \<Rightarrow> GenerateID_loop f clock
      | (Inr g, f) \<Rightarrow> do { h \<leftarrow> guid_Hex g; Some (h, f) })"

definition GenerateID :: "'b topic \<Rightarrow> int list \<Rightarrow> (bytes \<times> 'b topic) option" where
  "GenerateID t clock = do { (h, f) \<leftarrow> GenerateID_loop (t_idFactory t) clock; Some (h, t\<lparr>t_idFactory := f\<rparr>) }"

section \<open>The message pump\<close>

text \<open>The loop over the channels. \<open>clock i\<close> is the time in its round \<open>i\<close>. Every channel but the first gets a copy.\<close>

definition chan_msg :: "int \<Rightarrow> message \<Rightarrow> nat \<Rightarrow> message" where
  "chan_msg now msg i =
     (if i > 0 then (NewMessage (msg_ID msg) (msg_Body msg) now)\<lparr>msg_Timestamp := msg_Timestamp msg, msg_deferred := msg_deferred msg\<rparr>
      else msg)"

definition give :: "('b, 'e) backend \<Rightarrow> int \<Rightarrow> 'b channel \<Rightarrow> message \<Rightarrow> 'b channel option" where
  "give B now c m =
     (if msg_deferred m \<noteq> 0 then PutMessageDeferred c now m (msg_deferred m)
      else map_option snd (PutMessage B c m))"

fun fan_out :: "('b, 'e) backend \<Rightarrow> (nat \<Rightarrow> int) \<Rightarrow> message \<Rightarrow> nat \<Rightarrow> nat list \<Rightarrow> 'b topic \<Rightarrow> 'b topic option" where
  "fan_out B clock msg i [] t = Some t"
| "fan_out B clock msg i (k # ks) t = do {
     c \<leftarrow> store_at t k;
     c \<leftarrow> give B (clock i) c (chan_msg (clock i) msg i);
     fan_out B clock msg (i + 1) ks (t\<lparr>t_store := (t_store t)[k := c]\<rparr>)
   }"

text \<open>What the pump does when its channels or the pause flag may have changed.\<close>

definition reload :: "'b topic \<Rightarrow> 'b topic" where
  "reload t = t\<lparr>t_chans := map snd (t_channelMap t), t_reading := \<not> (t_channelMap t = [] \<or> t_paused t)\<rparr>"

definition recheck :: "'b topic \<Rightarrow> 'b topic" where
  "recheck t = t\<lparr>t_reading := \<not> (t_chans t = [] \<or> t_paused t)\<rparr>"

definition take_update :: "'b topic \<Rightarrow> 'b topic" where
  "take_update t = t\<lparr>t_updates := tl (t_updates t), t_deleteCalled := t_deleteCalled t \<or> hd (t_updates t)\<rparr>"

text \<open>The cases of the two \<open>select\<close> statements. The pump can only choose a case that is ready.\<close>

datatype pump_event = RecvMemory | RecvBackend | RecvUpdate | RecvPause | RecvStart | RecvExit

definition pump_ready :: "('b, 'e) backend \<Rightarrow> 'b topic \<Rightarrow> pump_event \<Rightarrow> bool" where
  "pump_ready B t e \<longleftrightarrow>
     (case e of
        RecvMemory \<Rightarrow> t_pc t = PumpRunning \<and> t_reading t \<and> t_memoryMsgChan t \<noteq> []
      | RecvBackend \<Rightarrow> t_pc t = PumpRunning \<and> t_reading t \<and> be_Read B (t_backend t) \<noteq> None
      | RecvUpdate \<Rightarrow> t_pc t \<noteq> PumpExited \<and> t_updates t \<noteq> []
      | RecvPause \<Rightarrow> t_pc t \<noteq> PumpExited \<and> t_pauses t > 0
      | RecvStart \<Rightarrow> t_pc t = PumpWaiting \<and> t_startChan t
      | RecvExit \<Rightarrow> t_pc t \<noteq> PumpExited \<and> t_exitChan t)"

definition pump_waiting :: "pump_event \<Rightarrow> 'b topic \<Rightarrow> 'b topic" where
  "pump_waiting e t =
     (case e of
        RecvUpdate \<Rightarrow> take_update t
      | RecvPause \<Rightarrow> t\<lparr>t_pauses := t_pauses t - 1\<rparr>
      | RecvExit \<Rightarrow> t\<lparr>t_pc := PumpExited\<rparr>
      | RecvStart \<Rightarrow> reload (t\<lparr>t_startChan := False, t_pc := PumpRunning\<rparr>)
      | _ \<Rightarrow> t)"

definition pump_running :: "('b, 'e) backend \<Rightarrow> (nat \<Rightarrow> int) \<Rightarrow> pump_event \<Rightarrow> 'b topic \<Rightarrow> 'b topic option" where
  "pump_running B clock e t =
     (case e of
        RecvMemory \<Rightarrow>
          (case t_memoryMsgChan t of
             [] \<Rightarrow> None
           | msg # ms \<Rightarrow> fan_out B clock msg 0 (t_chans t) (t\<lparr>t_memoryMsgChan := ms\<rparr>))
      | RecvBackend \<Rightarrow> do {
          (buf, b) \<leftarrow> be_Read B (t_backend t);
          let t = t\<lparr>t_backend := b\<rparr>;
          r \<leftarrow> decodeMessage buf;
          case r of Inl _ \<Rightarrow> Some t | Inr msg \<Rightarrow> fan_out B clock msg 0 (t_chans t) t
        }
      | RecvUpdate \<Rightarrow> Some (reload (take_update t))
      | RecvPause \<Rightarrow> Some (recheck (t\<lparr>t_pauses := t_pauses t - 1\<rparr>))
      | RecvExit \<Rightarrow> Some (t\<lparr>t_pc := PumpExited\<rparr>)
      | RecvStart \<Rightarrow> Some t)"

definition pump_step :: "('b, 'e) backend \<Rightarrow> (nat \<Rightarrow> int) \<Rightarrow> pump_event \<Rightarrow> 'b topic \<Rightarrow> 'b topic option" where
  "pump_step B clock e t =
     (case t_pc t of
        PumpWaiting \<Rightarrow> Some (pump_waiting e t)
      | PumpRunning \<Rightarrow> pump_running B clock e t
      | PumpExited \<Rightarrow> Some t)"

section \<open>Pausing and closing\<close>

text \<open>\<open>doPause\<close> up to where it waits for the pump.\<close>

definition t_doPause :: "'b topic \<Rightarrow> bool \<Rightarrow> 'b topic" where
  "t_doPause t pause = t\<lparr>t_paused := pause, t_pauses := t_pauses t + 1\<rparr>"

text \<open>Once \<open>exitChan\<close> is closed, a waiting sender may give up.\<close>

definition update_gives_up :: "'b topic \<Rightarrow> 'b topic" where
  "update_gives_up t = (if t_exitChan t \<and> t_updates t \<noteq> [] then take_update t else t)"

definition pause_gives_up :: "'b topic \<Rightarrow> 'b topic" where
  "pause_gives_up t = (if t_exitChan t then t\<lparr>t_pauses := t_pauses t - 1\<rparr> else t)"

text \<open>\<open>exit\<close> up to where it waits for the pump, and the rest of it.\<close>

definition t_exit_begin :: "'b topic \<Rightarrow> 'e topic_error option \<times> 'b topic" where
  "t_exit_begin t = (if t_exitFlag t then (Some TopicExiting, t) else (None, t\<lparr>t_exitFlag := True, t_exitChan := True\<rparr>))"

fun exit_channels :: "('b, 'e) backend \<Rightarrow> int \<Rightarrow> bool \<Rightarrow> nat list \<Rightarrow> 'b topic \<Rightarrow> 'b topic option" where
  "exit_channels B memQueueSize deleted [] t = Some t"
| "exit_channels B memQueueSize deleted (k # ks) t = do {
     c \<leftarrow> store_at t k;
     (_, c) \<leftarrow> ch_exit B memQueueSize c deleted;
     exit_channels B memQueueSize deleted ks (t\<lparr>t_store := (t_store t)[k := c]\<rparr>)
   }"

definition t_Empty :: "('b, 'e) backend \<Rightarrow> 'b topic \<Rightarrow> 'e option \<times> 'b topic" where
  "t_Empty B t = (let (e, b) = be_Empty B (t_backend t) in (e, t\<lparr>t_memoryMsgChan := [], t_backend := b\<rparr>))"

definition t_flush :: "('b, 'e) backend \<Rightarrow> 'b topic \<Rightarrow> 'b topic option" where
  "t_flush B t = do { b \<leftarrow> flush_all B (t_memoryMsgChan t) (t_backend t); Some (t\<lparr>t_memoryMsgChan := [], t_backend := b\<rparr>) }"

definition t_exit_finish :: "('b, 'e) backend \<Rightarrow> int \<Rightarrow> bool \<Rightarrow> 'b topic \<Rightarrow> ('e topic_error option \<times> 'b topic) option" where
  "t_exit_finish B memQueueSize deleted t =
     (if deleted then do {
        t \<leftarrow> exit_channels B memQueueSize True (map snd (t_channelMap t)) t;
        let (_, t) = t_Empty B (t\<lparr>t_channelMap := []\<rparr>);
        let (e, b) = be_Delete B (t_backend t);
        Some (map_option TopicBackendError e, t\<lparr>t_backend := b\<rparr>)
      } else do {
        t \<leftarrow> exit_channels B memQueueSize False (map snd (t_channelMap t)) t;
        t \<leftarrow> t_flush B t;
        let (e, b) = be_Close B (t_backend t);
        Some (map_option TopicBackendError e, t\<lparr>t_backend := b\<rparr>)
      })"

end
