(* ===== verification/Nsq_Topic_Props.thy ===== *)
theory Nsq_Topic_Props
  imports Nsq_Topic
begin

text \<open>
  A topic hands every message to all its channels: the ledger of a run balances for the topic and for each of its
  channels, whatever the consumers do meanwhile. Closing a topic persists its own messages and
  those of its channels. The last theorem shows what a deferred message becomes when it passes through the disk.
\<close>

section \<open>Fan-out\<close>

lemma chan_msg_simps [simp]:
  "payload (chan_msg now m i) = payload m" "msg_ID (chan_msg now m i) = msg_ID m" "msg_ok (chan_msg now m i) = msg_ok m"
  by (simp_all add: chan_msg_def NewMessage_def payload_def msg_ok_def)

lemma give_ok:
  assumes "honest_backend B view" "ch_ok view c" "msg_ok m" "msg_ID m \<notin> ids view c"
  shows "\<exists>c'. give B now c m = Some c' \<and> ch_ok view c' \<and> ch_exitFlag c' = ch_exitFlag c \<and>
    (short_of B view (contents view c') (add_mset (payload m) (contents view c)) \<or> ch_exitFlag c \<and> c' = c)"
proof (cases "msg_deferred m = 0")
  case True
  with ch_put_ok [OF assms] assms(2) show ?thesis by (auto simp: give_def PutMessage_def)
next
  case False
  let ?c = "c\<lparr>ch_messageCount := ch_messageCount c + 1\<rparr>"
  from put_deferred_ok [of view ?c m now "msg_deferred m", where ?'b = unit] assms(2-4) False show ?thesis
    by (auto simp: give_def PutMessageDeferred_def)
qed

text \<open>What a fan-out over the channels \<open>ks\<close> does to the channel \<open>k\<close> of the store.\<close>

definition fanned ::
  "('b, 'e) backend \<Rightarrow> ('b \<Rightarrow> bytes list) \<Rightarrow> message \<Rightarrow> nat list \<Rightarrow> 'b channel list \<Rightarrow> 'b channel list \<Rightarrow> nat \<Rightarrow> bool" where
  "fanned B view m ks h h' k \<longleftrightarrow>
     ch_ok view (h' ! k) \<and> ch_exitFlag (h' ! k) = ch_exitFlag (h ! k) \<and>
     (if k \<in> set ks
      then short_of B view (contents view (h' ! k)) (add_mset (payload m) (contents view (h ! k))) \<or> ch_exitFlag (h ! k) \<and> h' ! k = h ! k
      else h' ! k = h ! k)"

lemma fan_out_ok:
  assumes "honest_backend B view" "msg_ok m"
  shows "distinct ks \<Longrightarrow> set ks \<subseteq> {..<length (t_store t)} \<Longrightarrow> \<forall>c \<in> set (t_store t). ch_ok view c \<Longrightarrow>
    \<forall>k \<in> set ks. msg_ID m \<notin> ids view (t_store t ! k) \<Longrightarrow>
    \<exists>h. fan_out B clock m i ks t = Some (t\<lparr>t_store := h\<rparr>) \<and> length h = length (t_store t) \<and>
      (\<forall>k < length h. fanned B view m ks (t_store t) h k)"
proof (induction ks arbitrary: t i)
  case Nil
  then show ?case by (intro exI [of _ "t_store t"]) (auto simp: fanned_def)
next
  case (Cons k ks)
  let ?h = "t_store t"
  have k: "k < length ?h" "ch_ok view (?h ! k)" "msg_ID m \<notin> ids view (?h ! k)" using Cons.prems by auto
  from give_ok [OF assms(1) k(2), of "chan_msg (clock i) m i" "clock i"] assms(2) k(3) obtain c where
    c: "give B (clock i) (?h ! k) (chan_msg (clock i) m i) = Some c" "ch_ok view c" "ch_exitFlag c = ch_exitFlag (?h ! k)"
      "short_of B view (contents view c) (add_mset (payload m) (contents view (?h ! k))) \<or> ch_exitFlag (?h ! k) \<and> c = ?h ! k" by auto
  let ?t = "t\<lparr>t_store := ?h[k := c]\<rparr>"
  have "\<forall>c \<in> set (t_store ?t). ch_ok view c" using Cons.prems(3) c(2) set_update_subset_insert by fastforce
  moreover have "msg_ID m \<notin> ids view (t_store ?t ! j)" if "j \<in> set ks" for j using that Cons.prems(1, 4) by (cases "j = k") auto
  ultimately obtain h where h: "fan_out B clock m (i + 1) ks ?t = Some (t\<lparr>t_store := h\<rparr>)" "length h = length ?h"
    "\<forall>j < length h. fanned B view m ks (?h[k := c]) h j"
    using Cons.IH [of ?t "i + 1"] Cons.prems(1, 2) by auto
  have "fanned B view m (k # ks) ?h h j" if "j < length h" for j
    using h(3) [rule_format, OF that] c that h(2) Cons.prems(1) by (cases "j = k") (auto simp: fanned_def)
  with h c(1) k(1) show ?case by (intro exI [of _ h]) (auto simp: store_at_def)
qed

section \<open>The invariant of a topic\<close>

definition t_list :: "('b \<Rightarrow> bytes list) \<Rightarrow> 'b topic \<Rightarrow> payload list" where
  "t_list view t = map payload (t_memoryMsgChan t) @ map stored_payload (view (t_backend t))"

definition t_held :: "('b \<Rightarrow> bytes list) \<Rightarrow> 'b topic \<Rightarrow> payload multiset" where
  "t_held view t = mset (t_list view t)"

definition t_ids :: "('b \<Rightarrow> bytes list) \<Rightarrow> 'b topic \<Rightarrow> bytes set" where
  "t_ids view t = fst ` set (t_list view t)"

text \<open>The messages of the topic are well-formed and new to every channel, and the references to channels are valid.\<close>

definition topic_ok :: "('b \<Rightarrow> bytes list) \<Rightarrow> 'b topic \<Rightarrow> bool" where
  "topic_ok view t \<longleftrightarrow>
     distinct (t_chans t) \<and> set (t_chans t) \<subseteq> {..<length (t_store t)} \<and>
     (\<forall>k < length (t_store t). ch_ok view (t_store t ! k) \<and> t_ids view t \<inter> ids view (t_store t ! k) = {}) \<and>
     list_all msg_ok (t_memoryMsgChan t) \<and> list_all (\<lambda>x. \<exists>m. msg_ok m \<and> x = msg_bytes m) (view (t_backend t)) \<and>
     distinct (map fst (t_list view t))"

text \<open>A topic whose pump runs with a fixed set of open channels.\<close>

definition t_live :: "('b \<Rightarrow> bytes list) \<Rightarrow> 'b topic \<Rightarrow> bool" where
  "t_live view t \<longleftrightarrow>
     topic_ok view t \<and> t_pc t = PumpRunning \<and> \<not> t_exitFlag t \<and> \<not> t_exitChan t \<and> t_updates t = [] \<and>
     (\<forall>k \<in> set (t_chans t). \<not> ch_exitFlag (t_store t ! k))"

text \<open>All the identifiers in the topic and its channels.\<close>

definition all_ids :: "('b \<Rightarrow> bytes list) \<Rightarrow> 'b topic \<Rightarrow> bytes set" where
  "all_ids view t = t_ids view t \<union> (\<Union>k < length (t_store t). ids view (t_store t ! k))"

lemma t_put_ok:
  assumes "honest_backend B view" "t_live view t" "msg_ok m" "msg_ID m \<notin> all_ids view t"
  shows "\<exists>e t'. t_PutMessage B t m = Some (e, t') \<and> t_live view t' \<and> short_of B view (t_held view t') (add_mset (payload m) (t_held view t)) \<and>
    t_store t' = t_store t \<and> t_chans t' = t_chans t"
proof -
  from backend_Put [OF assms(1)] obtain e b where b: "be_Put B (t_backend t) (msg_bytes m) = (e, b)"
    "view b = view (t_backend t) @ [msg_bytes m] \<or> view b = view (t_backend t) \<and> discards B view (payload m)"
    using stored_payload_eq [OF assms(3)] by metis
  let ?n = "\<lambda>t. t\<lparr>t_messageCount := t_messageCount t + 1, t_messageBytes := t_messageBytes t + of_nat (length (msg_Body m))\<rparr>"
  let ?mem = "?n (t\<lparr>t_memoryMsgChan := t_memoryMsgChan t @ [m]\<rparr>)" and ?disk = "if e \<noteq> None then t\<lparr>t_backend := b\<rparr> else ?n (t\<lparr>t_backend := b\<rparr>)"
  have id: "fst (payload m) = msg_ID m" by (simp add: payload_def)
  have new: "msg_ID m \<notin> fst ` set (t_list view t)" "\<And>k. k < length (t_store t) \<Longrightarrow> msg_ID m \<notin> ids view (t_store t ! k)"
    using assms(4) by (auto simp: all_ids_def t_ids_def)
  have 1: "t_live view ?mem \<and> t_held view ?mem = add_mset (payload m) (t_held view t)"
    using assms(2, 3) id new by (auto simp: t_live_def topic_ok_def t_held_def t_list_def t_ids_def image_iff)
  have "t_live view ?disk \<and> t_held view ?disk = add_mset (payload m) (t_held view t)" if "view b = view (t_backend t) @ [msg_bytes m]"
    using assms(2, 3) id that new by (auto simp: t_live_def topic_ok_def t_held_def t_list_def t_ids_def image_iff stored_payload_eq)
  moreover have "t_live view ?disk \<and> t_held view ?disk = t_held view t" if "view b = view (t_backend t)"
    using assms(2) that by (auto simp: t_live_def topic_ok_def t_held_def t_list_def t_ids_def)
  ultimately have 2: "t_live view ?disk \<and> short_of B view (t_held view ?disk) (add_mset (payload m) (t_held view t))"
    using b(2) short_drop [of B view "payload m" "t_held view t"] by auto
  have "\<not> t_exitFlag t" using assms(2) by (simp add: t_live_def)
  with 1 2 b(1) show ?thesis by (auto simp: t_PutMessage_def t_put_def write_eq split: option.splits if_splits)
qed

lemma disjoint_grow: "insert x A \<inter> C = {} \<Longrightarrow> D \<subseteq> insert x C \<Longrightarrow> x \<notin> A \<Longrightarrow> A \<inter> D = {}"
  by auto

text \<open>A message that leaves the topic is handed to every channel of the pump.\<close>

lemma handed_out:
  assumes B: "honest_backend B view" and live: "t_live view t" and m: "msg_ok m"
    and t1: "t_list view t1 = xs" "mset (t_list view t) = add_mset (payload m) (mset xs)"
      "list_all msg_ok (t_memoryMsgChan t1)" "list_all (\<lambda>x. \<exists>m. msg_ok m \<and> x = msg_bytes m) (view (t_backend t1))"
      "t_store t1 = t_store t" "t_chans t1 = t_chans t" "t_pc t1 = t_pc t" "t_exitFlag t1 = t_exitFlag t"
      "t_exitChan t1 = t_exitChan t" "t_updates t1 = t_updates t"
  shows "\<exists>t'. fan_out B clock m 0 (t_chans t) t1 = Some t' \<and> t_live view t' \<and> t_chans t' = t_chans t \<and>
    length (t_store t') = length (t_store t) \<and> t_held view t = add_mset (payload m) (t_held view t') \<and> all_ids view t' \<subseteq> all_ids view t \<and>
    (\<forall>k \<in> set (t_chans t). short_of B view (contents view (t_store t' ! k)) (add_mset (payload m) (contents view (t_store t ! k))))"
proof -
  let ?h = "t_store t" and ?ks = "t_chans t"
  have id: "fst (payload m) = msg_ID m" by (simp add: payload_def)
  have ok: "topic_ok view t" using live by (simp add: t_live_def)
  have sets: "set (t_list view t) = insert (payload m) (set xs)" using t1(2) by (metis set_mset_add_mset_insert set_mset_mset)
  have "distinct (map fst (payload m # xs))"
    by (rule distinct_contents [of "t_list view t"]) (use ok t1(2) in \<open>simp_all add: topic_ok_def\<close>)
  then have d: "msg_ID m \<notin> fst ` set xs" "distinct (map fst xs)" by (simp_all add: id)
  have mt: "msg_ID m \<in> t_ids view t" using sets id by (simp add: t_ids_def)
  have new: "\<forall>k < length ?h. msg_ID m \<notin> ids view (?h ! k)" using ok mt by (auto simp: topic_ok_def)
  have chs: "distinct ?ks" "set ?ks \<subseteq> {..<length (t_store t1)}" "\<forall>c \<in> set (t_store t1). ch_ok view c"
    using ok t1(5) by (auto simp: topic_ok_def in_set_conv_nth)
  have "\<forall>k \<in> set ?ks. msg_ID m \<notin> ids view (t_store t1 ! k)" using new chs(2) t1(5) by auto
  from fan_out_ok [OF B m chs this, of clock 0] obtain h where
    h: "fan_out B clock m 0 ?ks t1 = Some (t1\<lparr>t_store := h\<rparr>)" "length h = length ?h" "\<forall>k < length h. fanned B view m ?ks ?h h k"
    using t1(5) by auto
  let ?t' = "t1\<lparr>t_store := h\<rparr>"
  have open_chs: "\<forall>k \<in> set ?ks. \<not> ch_exitFlag (?h ! k) \<and> k < length h" using live chs(2) t1(5) h(2) by (auto simp: t_live_def)
  have got: "\<forall>k \<in> set ?ks. short_of B view (contents view (h ! k)) (add_mset (payload m) (contents view (?h ! k)))"
    using h(3) open_chs by (auto simp: fanned_def)
  have idk: "ids view (h ! k) \<subseteq> insert (msg_ID m) (ids view (?h ! k))" if "k < length h" for k
    using h(3) [rule_format, OF that] bspec [OF got, THEN ids_short, of k] id by (cases "k \<in> set ?ks") (auto simp: fanned_def ids_contents)
  have list': "t_list view ?t' = xs" using t1(1) by (simp add: t_list_def)
  have tids: "t_ids view ?t' = fst ` set xs" "t_ids view t = insert (msg_ID m) (fst ` set xs)" using list' sets id by (auto simp: t_ids_def)
  have "topic_ok view ?t'"
    unfolding topic_ok_def
  proof (intro conjI allI impI)
    fix k assume k: "k < length (t_store ?t')"
    then show "ch_ok view (t_store ?t' ! k)" using h(3) by (simp add: fanned_def)
    have "t_ids view t \<inter> ids view (?h ! k) = {}" using ok k h(2) by (simp add: topic_ok_def)
    moreover have "ids view (h ! k) \<subseteq> insert (msg_ID m) (ids view (?h ! k))" using idk k by simp
    ultimately have "fst ` set xs \<inter> ids view (h ! k) = {}" using d(1) unfolding tids(2) by (rule disjoint_grow)
    then show "t_ids view ?t' \<inter> ids view (t_store ?t' ! k) = {}" unfolding tids(1) by simp
  qed (use chs t1 h(2) d(2) list' in auto)
  moreover have "\<forall>k \<in> set ?ks. \<not> ch_exitFlag (h ! k)" using h(3) open_chs by (simp add: fanned_def)
  ultimately have "t_live view ?t'" using live t1 by (simp add: t_live_def)
  moreover have "all_ids view ?t' \<subseteq> all_ids view t"
    using idk tids h(2) by (fastforce simp: all_ids_def)
  moreover have "t_held view t = add_mset (payload m) (t_held view ?t')" using t1(2) list' by (simp add: t_held_def)
  ultimately show ?thesis using h(1, 2) got t1(6) by (intro exI [of _ ?t']) simp
qed

section \<open>Runs\<close>

text \<open>The operations of producers, of the pump and of the consumers of a channel.\<close>

datatype t_op = TPut message | TPump pump_event | TPause bool | TConsumer nat int ch_op

definition t_do :: "('b, 'e) backend \<Rightarrow> ch_opts \<Rightarrow> (nat \<Rightarrow> int) \<Rightarrow> t_op \<Rightarrow> 'b topic \<Rightarrow> 'b topic option" where
  "t_do B opts clock op t =
     (case op of
        TPut m \<Rightarrow> map_option snd (t_PutMessage B t m)
      | TPump e \<Rightarrow> if pump_ready B t e then pump_step B clock e t else Some t
      | TPause p \<Rightarrow> Some (t_doPause t p)
      | TConsumer k now op \<Rightarrow> do {
          c \<leftarrow> store_at t k;
          c \<leftarrow> ch_do B opts now op c;
          Some (t\<lparr>t_store := (t_store t)[k := c]\<rparr>)
        })"

definition t_puts :: "t_op \<Rightarrow> message list" where
  "t_puts op = (case op of TPut m \<Rightarrow> [m] | _ \<Rightarrow> [])"

text \<open>What the pump takes from the topic in an operation, and what leaves channel \<open>k\<close>.\<close>

definition t_given :: "('b, 'e) backend \<Rightarrow> 'b topic \<Rightarrow> t_op \<Rightarrow> payload multiset" where
  "t_given B t op =
     (case op of
        TPump e \<Rightarrow>
          if pump_ready B t e then
            (case e of
               RecvMemory \<Rightarrow> {#payload (hd (t_memoryMsgChan t))#}
             | RecvBackend \<Rightarrow> {#stored_payload (fst (the (be_Read B (t_backend t))))#}
             | _ \<Rightarrow> {#})
          else {#}
      | _ \<Rightarrow> {#})"

definition t_leaves :: "('b, 'e) backend \<Rightarrow> 'b topic \<Rightarrow> t_op \<Rightarrow> nat \<Rightarrow> payload multiset" where
  "t_leaves B t op k = (case op of TConsumer j now op \<Rightarrow> if j = k then op_leaves B (t_store t ! k) op else {#} | _ \<Rightarrow> {#})"

fun t_run :: "('b, 'e) backend \<Rightarrow> ch_opts \<Rightarrow> (nat \<Rightarrow> int) \<Rightarrow> t_op list \<Rightarrow> 'b topic \<Rightarrow>
    (payload multiset \<times> (nat \<Rightarrow> payload multiset) \<times> 'b topic) option" where
  "t_run B opts clock [] t = Some ({#}, \<lambda>_. {#}, t)"
| "t_run B opts clock (op # ops) t = do {
     t' \<leftarrow> t_do B opts clock op t;
     (g, l, t'') \<leftarrow> t_run B opts clock ops t';
     Some (t_given B t op + g, \<lambda>k. t_leaves B t op k + l k, t'')
   }"

text \<open>Consumers use the channels of the pump and do not put messages themselves.\<close>

definition op_fits :: "nat list \<Rightarrow> t_op \<Rightarrow> bool" where
  "op_fits ks op = (case op of TConsumer k now op \<Rightarrow> k \<in> set ks \<and> op_puts op = [] | _ \<Rightarrow> True)"

text \<open>What holds after an operation.\<close>

definition balanced ::
  "('b, 'e) backend \<Rightarrow> ('b \<Rightarrow> bytes list) \<Rightarrow> 'b topic \<Rightarrow> payload multiset \<Rightarrow> payload multiset \<Rightarrow> (nat \<Rightarrow> payload multiset) \<Rightarrow> 'b topic \<Rightarrow> bool" where
  "balanced B view t puts given leaves t' \<longleftrightarrow>
     t_chans t' = t_chans t \<and> short_of B view (given + t_held view t') (puts + t_held view t) \<and>
     (\<forall>k \<in> set (t_chans t). short_of B view (leaves k + contents view (t_store t' ! k)) (given + contents view (t_store t ! k)))"

lemma balanced_refl: "t_chans t' = t_chans t \<Longrightarrow> t_held view t' = t_held view t \<Longrightarrow> t_store t' = t_store t \<Longrightarrow> balanced B view t {#} {#} (\<lambda>_. {#}) t'"
  by (simp add: balanced_def)

lemma balanced_trans:
  assumes "balanced B view t puts given leaves t1" "balanced B view t1 puts' given' leaves' t2"
  shows "balanced B view t (puts + puts') (given + given') (\<lambda>k. leaves k + leaves' k) t2"
proof -
  have join: "short_of B view (a + b + x) (p + q + z)" if "short_of B view (a + y) (p + z)" "short_of B view (b + x) (q + y)" for a b p q x y z
  proof -
    have "short_of B view (a + b + x) (a + (q + y))" using short_add [OF that(2), of a] by (simp add: add.assoc)
    also have "a + (q + y) = q + (a + y)" by (simp add: ac_simps)
    also have "short_of B view \<dots> (q + (p + z))" by (rule short_add [OF that(1)])
    finally show ?thesis by (simp add: ac_simps)
  qed
  show ?thesis using assms join unfolding balanced_def by auto
qed

lemma recv_memory:
  assumes "honest_backend B view" "t_live view t" "t_memoryMsgChan t = m # ms"
  shows "\<exists>t'. pump_running B clock RecvMemory t = Some t' \<and> t_live view t' \<and> balanced B view t {#} {#payload m#} (\<lambda>_. {#}) t' \<and>
    all_ids view t' \<subseteq> all_ids view t"
proof -
  have "msg_ok m" "list_all msg_ok ms" "list_all (\<lambda>x. \<exists>m. msg_ok m \<and> x = msg_bytes m) (view (t_backend t))"
    using assms(2, 3) by (simp_all add: t_live_def topic_ok_def)
  with handed_out [OF assms(1, 2), of m "t\<lparr>t_memoryMsgChan := ms\<rparr>" "map payload ms @ map stored_payload (view (t_backend t))" clock]
    assms(3) show ?thesis by (auto simp: t_list_def pump_running_def balanced_def)
qed

lemma recv_backend:
  assumes "honest_backend B view" "t_live view t" "be_Read B (t_backend t) = Some (x, b)"
  shows "\<exists>t'. pump_running B clock RecvBackend t = Some t' \<and> t_live view t' \<and> balanced B view t {#} {#stored_payload x#} (\<lambda>_. {#}) t' \<and>
    all_ids view t' \<subseteq> all_ids view t"
proof -
  have "case view (t_backend t) of [] \<Rightarrow> be_Read B (t_backend t) = None
    | x # xs \<Rightarrow> \<exists>b'. be_Read B (t_backend t) = Some (x, b') \<and> view b' = xs"
    using assms(1) by (simp add: honest_backend_def)
  with assms(3) have v: "view (t_backend t) = x # view b" by (auto split: list.splits)
  from assms(2) v obtain m where m: "msg_ok m" "x = msg_bytes m" by (auto simp: t_live_def topic_ok_def)
  let ?m = "m\<lparr>msg_deliveryTS := 0, msg_clientID := 0, msg_deferred := 0\<rparr>"
  have m': "msg_ok ?m" "payload ?m = payload m" using m(1) by (simp_all add: msg_ok_def payload_def)
  have "list_all msg_ok (t_memoryMsgChan t)" "list_all (\<lambda>x. \<exists>m. msg_ok m \<and> x = msg_bytes m) (view b)"
    using assms(2) v by (simp_all add: t_live_def topic_ok_def)
  with handed_out [OF assms(1, 2) m'(1), of "t\<lparr>t_backend := b\<rparr>" "map payload (t_memoryMsgChan t) @ map stored_payload (view b)" clock]
    assms(3) v m(2) m'(2) decode_stored [OF m(1)] stored_payload_eq [OF m(1)]
  show ?thesis by (auto simp: t_list_def pump_running_def balanced_def)
qed

lemma consume:
  assumes "honest_backend B view" "t_live view t" "k \<in> set (t_chans t)" "op_puts op = []"
  shows "\<exists>c. ch_do B opts now op (t_store t ! k) = Some c \<and> store_at t k = Some (t_store t ! k) \<and>
    t_live view (t\<lparr>t_store := (t_store t)[k := c]\<rparr>) \<and>
    balanced B view t {#} {#} (\<lambda>j. if k = j then op_leaves B (t_store t ! k) op else {#}) (t\<lparr>t_store := (t_store t)[k := c]\<rparr>) \<and>
    all_ids view (t\<lparr>t_store := (t_store t)[k := c]\<rparr>) \<subseteq> all_ids view t"
proof -
  let ?h = "t_store t"
  have k: "k < length ?h" "ch_ok view (?h ! k)" "\<not> ch_exitFlag (?h ! k)" using assms(2, 3) by (auto simp: t_live_def topic_ok_def)
  from ch_do_ok [OF assms(1) k(2, 3), of op opts now] assms(4) obtain c where
    c: "ch_do B opts now op (?h ! k) = Some c" "ch_ok view c" "short_of B view (op_leaves B (?h ! k) op + contents view c) (contents view (?h ! k))"
      "\<not> ch_exitFlag c" by (auto simp: conserves_def)
  let ?t = "t\<lparr>t_store := ?h[k := c]\<rparr>"
  have idc: "ids view c \<subseteq> ids view (?h ! k)" using ids_conserved [of B view _ c "[]" "?h ! k"] c(3) by auto
  have idj: "ids view (?h[k := c] ! j) \<subseteq> ids view (?h ! j)" if "j < length ?h" for j using idc k(1) that by (cases "j = k") auto
  have tl: "t_list view ?t = t_list view t" "t_ids view ?t = t_ids view t" by (simp_all add: t_list_def t_ids_def)
  have ok: "topic_ok view t" using assms(2) by (simp add: t_live_def)
  have "topic_ok view ?t"
    unfolding topic_ok_def
  proof (intro conjI allI impI)
    fix j assume j: "j < length (t_store ?t)"
    then show "ch_ok view (t_store ?t ! j)" using ok c(2) k(1) by (cases "j = k") (simp_all add: topic_ok_def)
    have "t_ids view t \<inter> ids view (?h ! j) = {}" using ok j by (simp add: topic_ok_def)
    then show "t_ids view ?t \<inter> ids view (t_store ?t ! j) = {}" using idj [of j] j tl by simp blast
  qed (use ok tl in \<open>simp_all add: topic_ok_def\<close>)
  then have "t_live view ?t" using assms(2) c(4) k(1) by (auto simp: t_live_def nth_list_update)
  moreover have "all_ids view ?t \<subseteq> all_ids view t" using idj tl by (fastforce simp: all_ids_def)
  moreover have "balanced B view t {#} {#} (\<lambda>j. if k = j then op_leaves B (?h ! k) op else {#}) ?t"
    using c(3) k(1) tl(1) by (auto simp: balanced_def t_held_def nth_list_update)
  ultimately show ?thesis using c(1) k(1) by (simp add: store_at_def)
qed

lemma t_do_ok:
  assumes B: "honest_backend B view" and live: "t_live view t" and fits: "op_fits (t_chans t) op"
    and m: "\<And>m. m \<in> set (t_puts op) \<Longrightarrow> msg_ok m \<and> msg_ID m \<notin> all_ids view t"
  shows "\<exists>t'. t_do B opts clock op t = Some t' \<and> t_live view t' \<and>
    balanced B view t (mset (map payload (t_puts op))) (t_given B t op) (t_leaves B t op) t' \<and>
    all_ids view t' \<subseteq> msg_ID ` set (t_puts op) \<union> all_ids view t"
proof (cases op)
  case (TPut m)
  with m have "msg_ok m" "msg_ID m \<notin> all_ids view t" by (auto simp: t_puts_def)
  from t_put_ok [OF B live this] obtain e t' where t': "t_PutMessage B t m = Some (e, t')" "t_live view t'"
    "short_of B view (t_held view t') (add_mset (payload m) (t_held view t))" "t_store t' = t_store t" "t_chans t' = t_chans t" by blast
  have "set (t_list view t') \<subseteq> insert (payload m) (set (t_list view t))"
    using set_mset_mono [OF short_subset [OF t'(3)]] by (simp add: t_held_def)
  then have "t_ids view t' \<subseteq> insert (msg_ID m) (t_ids view t)" by (auto simp: t_ids_def payload_def)
  with t' TPut show ?thesis by (auto simp: t_do_def t_puts_def t_given_def t_leaves_def balanced_def all_ids_def)
next
  case (TPump e)
  have pc: "t_pc t = PumpRunning" "t_updates t = []" "\<not> t_exitChan t" using live by (simp_all add: t_live_def)
  show ?thesis
  proof (cases "pump_ready B t e")
    case False
    with TPump live show ?thesis by (simp add: t_do_def t_puts_def t_given_def t_leaves_def balanced_def)
  next
    case True
    then consider m ms where "e = RecvMemory" "t_memoryMsgChan t = m # ms" | x b where "e = RecvBackend" "be_Read B (t_backend t) = Some (x, b)"
      | "e = RecvPause"
      using pc by (cases e; cases "t_memoryMsgChan t") (auto simp: pump_ready_def)
    then show ?thesis
    proof cases
      case 1
      with recv_memory [OF B live 1(2), of clock] True TPump pc show ?thesis
        by (auto simp: t_do_def pump_step_def t_puts_def t_given_def t_leaves_def balanced_def)
    next
      case 2
      with recv_backend [OF B live 2(2), of clock] True TPump pc show ?thesis
        by (auto simp: t_do_def pump_step_def t_puts_def t_given_def t_leaves_def balanced_def)
    next
      case 3
      with True TPump live pc show ?thesis
        by (auto simp: t_do_def pump_step_def pump_running_def recheck_def t_puts_def t_given_def t_leaves_def balanced_def t_live_def
            topic_ok_def t_list_def t_ids_def t_held_def all_ids_def)
    qed
  qed
next
  case (TPause p)
  with live show ?thesis
    by (auto simp: t_do_def t_doPause_def t_puts_def t_given_def t_leaves_def balanced_def t_live_def topic_ok_def t_list_def t_ids_def
        t_held_def all_ids_def)
next
  case (TConsumer k now op')
  with fits have "k \<in> set (t_chans t)" "op_puts op' = []" by (simp_all add: op_fits_def)
  moreover have "t_leaves B t op = (\<lambda>j. if k = j then op_leaves B (t_store t ! k) op' else {#})"
    using TConsumer by (auto simp: t_leaves_def)
  ultimately show ?thesis using consume [OF B live, of k op' opts now] TConsumer by (auto simp: t_do_def t_puts_def t_given_def)
qed

lemma t_run_ok:
  assumes B: "honest_backend B view"
  shows "t_live view t \<Longrightarrow> list_all (op_fits (t_chans t)) ops \<Longrightarrow> list_all msg_ok (concat (map t_puts ops)) \<Longrightarrow>
    distinct (map msg_ID (concat (map t_puts ops))) \<Longrightarrow> msg_ID ` set (concat (map t_puts ops)) \<inter> all_ids view t = {} \<Longrightarrow>
    \<exists>g l t'. t_run B opts clock ops t = Some (g, l, t') \<and> t_live view t' \<and>
      balanced B view t (mset (map payload (concat (map t_puts ops)))) g l t'"
proof (induction ops arbitrary: t)
  case Nil
  then show ?case by (simp add: balanced_def)
next
  case (Cons op ops)
  let ?ps = "concat (map t_puts ops)"
  have new: "msg_ok m \<and> msg_ID m \<notin> all_ids view t" if "m \<in> set (t_puts op)" for m
    using that Cons.prems(3, 5) by (auto simp: list_all_iff)
  have fits: "op_fits (t_chans t) op" using Cons.prems(2) by simp
  from t_do_ok [OF B Cons.prems(1) fits new, of opts clock] obtain t1 where t1: "t_do B opts clock op t = Some t1" "t_live view t1"
    "balanced B view t (mset (map payload (t_puts op))) (t_given B t op) (t_leaves B t op) t1"
    "all_ids view t1 \<subseteq> msg_ID ` set (t_puts op) \<union> all_ids view t" by blast
  have "msg_ID ` set ?ps \<inter> all_ids view t1 = {}"
  proof -
    have "msg_ID ` set (t_puts op) \<inter> msg_ID ` set ?ps = {}" using Cons.prems(4) by (simp add: Int_commute)
    moreover have "msg_ID ` set ?ps \<inter> all_ids view t = {}" using Cons.prems(5) by (auto simp: image_Un)
    ultimately show ?thesis using t1(4) by blast
  qed
  moreover have "t_chans t1 = t_chans t" using t1(3) by (simp add: balanced_def)
  ultimately obtain g l t' where t': "t_run B opts clock ops t1 = Some (g, l, t')" "t_live view t'"
    "balanced B view t1 (mset (map payload ?ps)) g l t'"
    using Cons.IH [OF t1(2)] Cons.prems(2-4) by auto
  have "balanced B view t (mset (map payload (t_puts op)) + mset (map payload ?ps)) (t_given B t op + g) (\<lambda>k. t_leaves B t op k + l k) t'"
    by (rule balanced_trans [OF t1(3) t'(3)])
  with t1(1) t'(1, 2) show ?case by simp
qed

text \<open>
  C14. On a topic whose pump runs with a fixed set of open channels, whatever the producers, the pump, pauses and the consumers of the
  channels do, one call after the other, no message is duplicated or invented and no step panics: what the topic still holds and what it handed
  to its channels, each message once and to each of them, is what was put into it and what it held, short of messages that a \<open>Put\<close> of
  the backend did not store; and each channel accounts in the same way for what it was handed: it left that channel, or the channel
  still holds it. With a backend that stores every message nothing is missing; the one of ephemeral topics and channels
  stores none. The messages put are well-formed and have identifiers that are new to the topic and its channels.\<close>

theorem topic_conserves:
  assumes "honest_backend B view" "t_live view t" "list_all (op_fits (t_chans t)) ops" "list_all msg_ok (concat (map t_puts ops))"
    "distinct (map msg_ID (concat (map t_puts ops)))" "msg_ID ` set (concat (map t_puts ops)) \<inter> all_ids view t = {}"
  shows "\<exists>g l t'. t_run B opts clock ops t = Some (g, l, t') \<and> t_live view t' \<and>
    short_of B view (g + t_held view t') (mset (map payload (concat (map t_puts ops))) + t_held view t) \<and>
    (\<forall>k. k \<in> set (t_chans t) \<longrightarrow> short_of B view (l k + contents view (t_store t' ! k)) (g + contents view (t_store t ! k))) \<and>
    (faithful_backend B view \<longrightarrow> g + t_held view t' = mset (map payload (concat (map t_puts ops))) + t_held view t \<and>
      (\<forall>k. k \<in> set (t_chans t) \<longrightarrow> l k + contents view (t_store t' ! k) = g + contents view (t_store t ! k)))"
  using t_run_ok [OF assms, of opts clock] faithful_short [of B view] by (auto simp: balanced_def)

definition sample_topic :: "bytes list topic" where
  "sample_topic = (NewTopic 0 1 ''topic'' [])\<lparr>t_channelMap := [(''ch'', 0)], t_store := [inflight_channel], t_pc := PumpRunning,
     t_chans := [0], t_reading := True\<rparr>"

lemma sample_topic_live: "t_live (\<lambda>b. b) sample_topic" "t_chans sample_topic = [0]" "t_held (\<lambda>b. b) sample_topic = {#}"
  "all_ids (\<lambda>b. b) sample_topic = {replicate 15 48 @ [1]}"
  using inflight_channel_ok
  by (auto simp: t_live_def topic_ok_def sample_topic_def NewTopic_def t_list_def t_held_def t_ids_def all_ids_def ids_contents sample_payload)

theorem topic_conserves_witness:
  "\<exists>g l t'. t_run list_backend \<lparr>op_maxMsgTimeout = 900, op_maxChannelConsumers = 0\<rparr> (\<lambda>i. 50)
       [TPut (sample_msg 2), TPause True, TPump RecvPause, TPump RecvBackend, TPause False, TPump RecvPause, TPump RecvBackend,
        TConsumer 0 51 (OpFinish 5 (replicate 15 48 @ [1])), TConsumer 0 52 (OpBackend 0 0 5 60)] sample_topic = Some (g, l, t') \<and>
     g + t_held (\<lambda>b. b) t' = {#payload (sample_msg 2)#} \<and>
     l 0 + contents (\<lambda>b. b) (t_store t' ! 0) = add_mset (payload (sample_msg 1)) g"
proof -
  let ?ops = "[TPut (sample_msg 2), TPause True, TPump RecvPause, TPump RecvBackend, TPause False, TPump RecvPause, TPump RecvBackend,
        TConsumer 0 51 (OpFinish 5 (replicate 15 48 @ [1])), TConsumer 0 52 (OpBackend 0 0 5 60)]"
  have store: "contents (\<lambda>b. b) (t_store sample_topic ! 0) = {#payload (sample_msg 1)#}"
    using inflight_channel_ok(3) by (simp add: sample_topic_def NewTopic_def)
  show ?thesis
    using topic_conserves [OF list_backend_faithful(2) sample_topic_live(1), of ?ops "\<lparr>op_maxMsgTimeout = 900, op_maxChannelConsumers = 0\<rparr>" "\<lambda>i. 50"]
    by (auto simp: sample_topic_live store op_fits_def op_puts_def t_puts_def sample_msg_ok sample_payload(2))
qed

section \<open>Closing\<close>

lemma exit_channels_ok:
  assumes "honest_backend B view"
  shows "distinct ks \<Longrightarrow> set ks \<subseteq> {..<length (t_store t)} \<Longrightarrow>
    \<forall>k \<in> set ks. ch_ok view (t_store t ! k) \<and> \<not> ch_exitFlag (t_store t ! k) \<Longrightarrow>
    \<exists>h. exit_channels B n False ks t = Some (t\<lparr>t_store := h\<rparr>) \<and> length h = length (t_store t) \<and> (\<forall>k. k \<notin> set ks \<longrightarrow> h ! k = t_store t ! k) \<and>
      (\<forall>k \<in> set ks. ch_exitFlag (h ! k) \<and> short_of B view (mset (map stored_payload (view (ch_backend (h ! k))))) (contents view (t_store t ! k)))"
proof (induction ks arbitrary: t)
  case Nil
  then show ?case by (intro exI [of _ "t_store t"]) simp
next
  case (Cons k ks)
  let ?h = "t_store t"
  have k: "k < length ?h" "ch_ok view (?h ! k)" "\<not> ch_exitFlag (?h ! k)" using Cons.prems by auto
  from close_ok [OF assms k(2, 3), of n] obtain e c where c: "ch_exit B n (?h ! k) False = Some (e, c)" "ch_exitFlag c"
    "short_of B view (mset (map stored_payload (view (ch_backend c)))) (contents view (?h ! k))" by blast
  let ?t = "t\<lparr>t_store := ?h[k := c]\<rparr>"
  have same: "?h[k := c] ! j = ?h ! j" if "j \<in> set ks" for j using that Cons.prems(1) by (cases "j = k") auto
  then have "\<forall>k \<in> set ks. ch_ok view (t_store ?t ! k) \<and> \<not> ch_exitFlag (t_store ?t ! k)" using Cons.prems(3) by simp
  with Cons.IH [of ?t] Cons.prems(1, 2) obtain h where h: "exit_channels B n False ks ?t = Some (t\<lparr>t_store := h\<rparr>)" "length h = length ?h"
    "\<forall>j. j \<notin> set ks \<longrightarrow> h ! j = ?h[k := c] ! j"
    "\<forall>j \<in> set ks. ch_exitFlag (h ! j) \<and> short_of B view (mset (map stored_payload (view (ch_backend (h ! j))))) (contents view (?h[k := c] ! j))" by auto
  have "h ! k = c" using h(3) Cons.prems(1) k(1) by simp
  with h c same k(1) show ?case by (intro exI [of _ h]) (auto simp: store_at_def)
qed

text \<open>
  C15. Closing a topic, once its pump has stopped, closes all its channels and writes everything that the topic and they hold to their backends:
  the backend of the topic then stores exactly the messages the topic held, and the backend of each channel those that channel held,
  each once, short of messages that the backend did not store, since the errors of the writes are only logged. With a
  backend that stores every message everything is persisted; the one of ephemeral topics and channels persists nothing.\<close>

theorem topic_close_persists:
  assumes "honest_backend B view" "topic_ok view t" "distinct (map snd (t_channelMap t))" "set (map snd (t_channelMap t)) \<subseteq> {..<length (t_store t)}"
    "\<forall>k \<in> set (map snd (t_channelMap t)). \<not> ch_exitFlag (t_store t ! k)"
  shows "\<exists>e t'. t_exit_finish B n False t = Some (e, t') \<and> short_of B view (mset (map stored_payload (view (t_backend t')))) (t_held view t) \<and>
    (\<forall>k \<in> set (map snd (t_channelMap t)). ch_exitFlag (t_store t' ! k) \<and>
       short_of B view (mset (map stored_payload (view (ch_backend (t_store t' ! k))))) (contents view (t_store t ! k))) \<and>
    (faithful_backend B view \<longrightarrow> mset (map stored_payload (view (t_backend t'))) = t_held view t \<and>
       (\<forall>k \<in> set (map snd (t_channelMap t)). mset (map stored_payload (view (ch_backend (t_store t' ! k)))) = contents view (t_store t ! k)))"
proof -
  have "\<forall>k \<in> set (map snd (t_channelMap t)). ch_ok view (t_store t ! k) \<and> \<not> ch_exitFlag (t_store t ! k)"
    using assms(2, 4, 5) by (auto simp: topic_ok_def)
  from exit_channels_ok [OF assms(1, 3, 4) this, of n] obtain h where
    h: "exit_channels B n False (map snd (t_channelMap t)) t = Some (t\<lparr>t_store := h\<rparr>)"
    "\<forall>k \<in> set (map snd (t_channelMap t)). ch_exitFlag (h ! k) \<and>
      short_of B view (mset (map stored_payload (view (ch_backend (h ! k))))) (contents view (t_store t ! k))" by blast
  have ok: "list_all msg_ok (t_memoryMsgChan t)" using assms(2) by (simp add: topic_ok_def)
  from flush_all_ok [OF assms(1) ok, of "t_backend t"] obtain b ms where
    b: "flush_all B (t_memoryMsgChan t) (t_backend t) = Some b" "view b = view (t_backend t) @ map msg_bytes ms" "list_all msg_ok ms"
      "short_of B view (mset (map payload ms)) (mset (map payload (t_memoryMsgChan t)))" by blast
  obtain e b' where b': "be_Close B b = (e, b')" by (cases "be_Close B b")
  have "view (snd (be_Close B b)) = view b" using assms(1) by (simp add: honest_backend_def)
  then have v: "view b' = view (t_backend t) @ map msg_bytes ms" using b' b(2) by simp
  have "mset (map stored_payload (view b')) = mset (map stored_payload (view (t_backend t))) + mset (map payload ms)"
    unfolding v map_append stored_all [OF b(3)] by simp
  then have "short_of B view (mset (map stored_payload (view b'))) (t_held view t)"
    using short_add [OF b(4), of "mset (map stored_payload (view (t_backend t)))"] by (simp add: t_held_def t_list_def add.commute)
  with h b(1) b' faithful_short [of B view] show ?thesis by (auto simp: t_exit_finish_def t_flush_def)
qed

theorem topic_close_persists_witness:
  "\<exists>e t'. t_exit_finish list_backend 10 False sample_topic = Some (e, t') \<and> mset (map stored_payload (t_backend t')) = {#} \<and>
     mset (map stored_payload (ch_backend (t_store t' ! 0))) = {#payload (sample_msg 1)#}"
  using topic_close_persists [OF list_backend_faithful(2), of sample_topic 10] sample_topic_live(1, 3) inflight_channel_ok(2, 3)
  by (auto simp: t_live_def sample_topic_def NewTopic_def)

section \<open>Deferred messages on disk\<close>

text \<open>The format of a message on disk has no field for the deferral. A deferred message that the memory queue cannot take
  is handed to the channels as an ordinary one: the delay is lost.\<close>

theorem deferred_lost_on_disk:
  "map_option (\<lambda>t. map (\<lambda>c. (ch_deferredMessages c, length (ch_backend c))) (t_store t))
     (do {
        (e, t) \<leftarrow> t_PutMessage list_backend sample_topic ((sample_msg 2)\<lparr>msg_deferred := 1000\<rparr>);
        pump_step list_backend (\<lambda>i. 50) RecvBackend t
      }) = Some [([], 1)]"
  by code_simp

end
