(* ===== verification/Nsq_Client.thy ===== *)
theory Nsq_Client
  imports Nsq_Message "HOL-Library.AList"
begin

text \<open>
  The consumer and producer connections of \<open>nsqd\<close>: \<open>nsqd/client_v2.go\<close> with its settings, counters and flow control, and the
  authorizations of \<open>internal/auth/authorizations.go\<close>. The regular expressions and the HTTP requests to the
  authorization daemons are library code: \<open>rx\<close> and \<open>get\<close> are parameters. Times and durations are in nanoseconds. The
  counters of 64 bits that count messages one by one are integers. The connection itself is left out.
\<close>

section \<open>authorizations.go\<close>

record authorization =
  az_Topic :: string
  az_Channels :: "string list"
  az_Permissions :: "string list"

record auth_state =
  au_TTL :: int
  au_Authorizations :: "authorization list"
  au_Identity :: string
  au_IdentityURL :: string
  au_Expires :: int

text \<open>The package \<open>regexp\<close>: which patterns compile, and which strings they match.\<close>

record regexp =
  rx_ok :: "string \<Rightarrow> bool"
  rx_match :: "string \<Rightarrow> string \<Rightarrow> bool"

text \<open>\<open>regexp.MustCompile(pat).MatchString(s)\<close>.\<close>

definition must_match :: "regexp \<Rightarrow> string \<Rightarrow> string \<Rightarrow> bool option" where
  "must_match rx pat s = (if rx_ok rx pat then Some (rx_match rx pat s) else None)"

definition HasPermission :: "authorization \<Rightarrow> string \<Rightarrow> bool" where
  "HasPermission a permission = list_ex (\<lambda>p. permission = p) (az_Permissions a)"

fun match_channels :: "regexp \<Rightarrow> string list \<Rightarrow> string \<Rightarrow> bool option" where
  "match_channels rx [] channel = Some False"
| "match_channels rx (c # cs) channel = do {
     b \<leftarrow> must_match rx c channel;
     if b then Some True else match_channels rx cs channel
   }"

definition az_IsAllowed :: "regexp \<Rightarrow> authorization \<Rightarrow> string \<Rightarrow> string \<Rightarrow> bool option" where
  "az_IsAllowed rx a topic channel =
     (if channel \<noteq> '''' \<and> \<not> HasPermission a ''subscribe'' then Some False
      else if channel = '''' \<and> \<not> HasPermission a ''publish'' then Some False
      else do {
        b \<leftarrow> must_match rx (az_Topic a) topic;
        if \<not> b then Some False else match_channels rx (az_Channels a) channel
      })"

fun any_allowed :: "regexp \<Rightarrow> authorization list \<Rightarrow> string \<Rightarrow> string \<Rightarrow> bool option" where
  "any_allowed rx [] topic channel = Some False"
| "any_allowed rx (a # as) topic channel = do {
     b \<leftarrow> az_IsAllowed rx a topic channel;
     if b then Some True else any_allowed rx as topic channel
   }"

definition au_IsAllowed :: "regexp \<Rightarrow> auth_state \<Rightarrow> string \<Rightarrow> string \<Rightarrow> bool option" where
  "au_IsAllowed rx a topic channel = any_allowed rx (au_Authorizations a) topic channel"

definition au_IsExpired :: "auth_state \<Rightarrow> int \<Rightarrow> bool" where
  "au_IsExpired a now \<longleftrightarrow> au_Expires a < now"

text \<open>The arguments of a request; \<open>get\<close> answers a request to the given daemon, \<open>None\<close> on an error.\<close>

record auth_query =
  aq_remote_ip :: string
  aq_tls :: bool
  aq_secret :: string
  aq_common_name :: string

definition valid_authorization :: "regexp \<Rightarrow> authorization \<Rightarrow> bool" where
  "valid_authorization rx a \<longleftrightarrow>
     list_all (\<lambda>p. p = ''subscribe'' \<or> p = ''publish'') (az_Permissions a) \<and> rx_ok rx (az_Topic a) \<and> list_all (rx_ok rx) (az_Channels a)"

definition QueryAuthd ::
  "regexp \<Rightarrow> (string \<Rightarrow> auth_query \<Rightarrow> auth_state option) \<Rightarrow> int \<Rightarrow> string \<Rightarrow> auth_query \<Rightarrow> unit + auth_state" where
  "QueryAuthd rx get now authd q =
     (case get authd q of
        None \<Rightarrow> Inl ()
      | Some a \<Rightarrow>
          if \<not> list_all (valid_authorization rx) (au_Authorizations a) then Inl ()
          else if au_TTL a \<le> 0 then Inl ()
          else Inr (a\<lparr>au_Expires := now + s64 (au_TTL a * 1000000000)\<rparr>))"

text \<open>The loop of \<open>QueryAnyAuthd\<close>, with \<open>k\<close> rounds to go and the random number \<open>start\<close>.\<close>

fun QueryAny_loop ::
  "regexp \<Rightarrow> (string \<Rightarrow> auth_query \<Rightarrow> auth_state option) \<Rightarrow> int \<Rightarrow> string list \<Rightarrow> auth_query \<Rightarrow> int \<Rightarrow> nat \<Rightarrow> int \<Rightarrow> (unit + auth_state) option" where
  "QueryAny_loop rx get now authd q start 0 i = Some (Inl ())"
| "QueryAny_loop rx get now authd q start (Suc k) i = do {
     j \<leftarrow> go_mod (s64 (i + start)) (int (length authd));
     a \<leftarrow> go_nth authd j;
     case QueryAuthd rx get now a q of
       Inl _ \<Rightarrow> QueryAny_loop rx get now authd q start k (i + 1)
     | Inr st \<Rightarrow> Some (Inr st)
   }"

definition QueryAnyAuthd ::
  "regexp \<Rightarrow> (string \<Rightarrow> auth_query \<Rightarrow> auth_state option) \<Rightarrow> int \<Rightarrow> int \<Rightarrow> string list \<Rightarrow> auth_query \<Rightarrow> (unit + auth_state) option" where
  "QueryAnyAuthd rx get start now authd q = QueryAny_loop rx get now authd q start (length authd) 0"

section \<open>Options\<close>

text \<open>The options of \<open>nsqd\<close> that the protocol reads (\<open>nsqd/options.go\<close>), and whether a TLS configuration was built.\<close>

record nsqd_options =
  op_MemQueueSize :: int
  op_MsgTimeout :: int
  op_MaxMsgTimeout :: int
  op_MaxMsgSize :: int
  op_MaxBodySize :: int
  op_MaxReqTimeout :: int
  op_ClientTimeout :: int
  op_MaxHeartbeatInterval :: int
  op_MaxRdyCount :: int
  op_MaxOutputBufferSize :: int
  op_MaxOutputBufferTimeout :: int
  op_MinOutputBufferTimeout :: int
  op_OutputBufferTimeout :: int
  op_MaxChannelConsumers :: int
  op_AuthHTTPAddresses :: "string list"
  op_TLSRequired :: bool
  op_tlsConfig :: bool
  op_DeflateEnabled :: bool
  op_MaxDeflateLevel :: int
  op_SnappyEnabled :: bool
  op_ID :: int

definition NewOptions :: nsqd_options where
  "NewOptions = \<lparr>op_MemQueueSize = 10000, op_MsgTimeout = 60000000000, op_MaxMsgTimeout = 900000000000, op_MaxMsgSize = 1048576,
     op_MaxBodySize = 5242880, op_MaxReqTimeout = 3600000000000, op_ClientTimeout = 60000000000,
     op_MaxHeartbeatInterval = 60000000000, op_MaxRdyCount = 2500, op_MaxOutputBufferSize = 65536,
     op_MaxOutputBufferTimeout = 30000000000, op_MinOutputBufferTimeout = 25000000, op_OutputBufferTimeout = 250000000,
     op_MaxChannelConsumers = 0, op_AuthHTTPAddresses = [], op_TLSRequired = False, op_tlsConfig = False,
     op_DeflateEnabled = True, op_MaxDeflateLevel = 6, op_SnappyEnabled = True, op_ID = 0\<rparr>"

definition IsAuthEnabled :: "nsqd_options \<Rightarrow> bool" where
  "IsAuthEnabled opts \<longleftrightarrow> length (op_AuthHTTPAddresses opts) \<noteq> 0"

section \<open>client\_v2.go\<close>

datatype client_state = StateInit | StateDisconnected | StateConnected | StateSubscribed | StateClosing

record identify_data =
  id_ClientID :: string
  id_Hostname :: string
  id_HeartbeatInterval :: int
  id_OutputBufferSize :: int
  id_OutputBufferTimeout :: int
  id_FeatureNegotiation :: bool
  id_TLSv1 :: bool
  id_Deflate :: bool
  id_DeflateLevel :: int
  id_Snappy :: bool
  id_SampleRate :: int
  id_UserAgent :: string
  id_MsgTimeout :: int

record identify_event =
  ie_OutputBufferTimeout :: int
  ie_HeartbeatInterval :: int
  ie_SampleRate :: int
  ie_MsgTimeout :: int

text \<open>\<open>cv_Channel\<close> refers to a channel object: the position of its topic and its position in the topic. The channels
  \<open>ReadyStateChan\<close>, \<open>IdentifyEventChan\<close> and \<open>SubEventChan\<close> hold one value. \<open>cv_Reader\<close> is what can still be read from the
  connection.\<close>

record client_v2 =
  cv_ReadyCount :: int
  cv_InFlightCount :: int
  cv_MessageCount :: int
  cv_FinishCount :: int
  cv_RequeueCount :: int
  cv_pubCounts :: "(string \<times> u64) list"
  cv_ID :: int
  cv_UserAgent :: string
  cv_Reader :: bytes
  cv_OutputBufferSize :: int
  cv_OutputBufferTimeout :: int
  cv_HeartbeatInterval :: int
  cv_MsgTimeout :: int
  cv_State :: client_state
  cv_Channel :: "(nat \<times> nat) option"
  cv_ReadyState :: bool
  cv_exited :: bool
  cv_ClientID :: string
  cv_Hostname :: string
  cv_SampleRate :: int
  cv_IdentifyEvent :: "identify_event option"
  cv_SubEvent :: "(nat \<times> nat) option"
  cv_TLS :: bool
  cv_Snappy :: bool
  cv_Deflate :: bool
  cv_AuthSecret :: string
  cv_AuthState :: "auth_state option"

definition newClientV2 :: "nsqd_options \<Rightarrow> int \<Rightarrow> string \<Rightarrow> bytes \<Rightarrow> client_v2" where
  "newClientV2 opts clientID identifier input =
     \<lparr>cv_ReadyCount = 0, cv_InFlightCount = 0, cv_MessageCount = 0, cv_FinishCount = 0, cv_RequeueCount = 0, cv_pubCounts = [],
      cv_ID = clientID, cv_UserAgent = '''', cv_Reader = input, cv_OutputBufferSize = 16 * 1024,
      cv_OutputBufferTimeout = op_OutputBufferTimeout opts, cv_HeartbeatInterval = sgn (op_ClientTimeout opts) * (\<bar>op_ClientTimeout opts\<bar> div 2),
      cv_MsgTimeout = op_MsgTimeout opts, cv_State = StateInit, cv_Channel = None, cv_ReadyState = False, cv_exited = False,
      cv_ClientID = identifier, cv_Hostname = identifier, cv_SampleRate = 0, cv_IdentifyEvent = None, cv_SubEvent = None,
      cv_TLS = False, cv_Snappy = False, cv_Deflate = False, cv_AuthSecret = '''', cv_AuthState = None\<rparr>"

subsection \<open>Settings\<close>

text \<open>\<open>int(d/time.Millisecond)\<close> and \<open>time.Duration(n) * time.Millisecond\<close>.\<close>

definition to_ms :: "int \<Rightarrow> int" where
  "to_ms d = sgn d * (\<bar>d\<bar> div 1000000)"

definition from_ms :: "int \<Rightarrow> int" where
  "from_ms n = s64 (n * 1000000)"

text \<open>A setter returns the error, \<open>Some ()\<close>, or \<open>None\<close>, and the client.\<close>

definition SetHeartbeatInterval :: "nsqd_options \<Rightarrow> int \<Rightarrow> client_v2 \<Rightarrow> unit option \<times> client_v2" where
  "SetHeartbeatInterval opts desired c =
     (if desired = -1 then (None, c\<lparr>cv_HeartbeatInterval := 0\<rparr>)
      else if desired = 0 then (None, c)
      else if desired \<ge> 1000 \<and> desired \<le> to_ms (op_MaxHeartbeatInterval opts) then (None, c\<lparr>cv_HeartbeatInterval := from_ms desired\<rparr>)
      else (Some (), c))"

text \<open>The writer is flushed and replaced when the size changes; \<open>flush\<close> says whether this succeeds.\<close>

definition SetOutputBuffer :: "nsqd_options \<Rightarrow> bool \<Rightarrow> int \<Rightarrow> int \<Rightarrow> client_v2 \<Rightarrow> unit option \<times> client_v2" where
  "SetOutputBuffer opts flush desiredSize desiredTimeout c =
     (let (e, c) =
        (if desiredTimeout = -1 then (None, c\<lparr>cv_OutputBufferTimeout := 0\<rparr>)
         else if desiredTimeout = 0 then (None, c)
         else if desiredTimeout \<ge> to_ms (op_MinOutputBufferTimeout opts) \<and> desiredTimeout \<le> to_ms (op_MaxOutputBufferTimeout opts)
         then (None, c\<lparr>cv_OutputBufferTimeout := from_ms desiredTimeout\<rparr>)
         else (Some (), c))
      in if e \<noteq> None then (e, c)
         else let (e, c) =
             (if desiredSize = -1 then (None, c\<lparr>cv_OutputBufferSize := 1, cv_OutputBufferTimeout := 0\<rparr>)
              else if desiredSize = 0 then (None, c)
              else if desiredSize \<ge> 64 \<and> desiredSize \<le> op_MaxOutputBufferSize opts then (None, c\<lparr>cv_OutputBufferSize := desiredSize\<rparr>)
              else (Some (), c))
           in if e \<noteq> None then (e, c)
              else if desiredSize \<noteq> 0 \<and> \<not> flush then (Some (), c)
              else (None, c))"

definition SetSampleRate :: "int \<Rightarrow> client_v2 \<Rightarrow> unit option \<times> client_v2" where
  "SetSampleRate sampleRate c =
     (if sampleRate < 0 \<or> sampleRate > 99 then (Some (), c) else (None, c\<lparr>cv_SampleRate := sampleRate\<rparr>))"

definition SetMsgTimeout :: "nsqd_options \<Rightarrow> int \<Rightarrow> client_v2 \<Rightarrow> unit option \<times> client_v2" where
  "SetMsgTimeout opts msgTimeout c =
     (if msgTimeout = 0 then (None, c)
      else if msgTimeout \<ge> 1000 \<and> msgTimeout \<le> to_ms (op_MaxMsgTimeout opts) then (None, c\<lparr>cv_MsgTimeout := from_ms msgTimeout\<rparr>)
      else (Some (), c))"

text \<open>The event is dropped if the channel still holds one.\<close>

definition Identify :: "nsqd_options \<Rightarrow> bool \<Rightarrow> identify_data \<Rightarrow> client_v2 \<Rightarrow> unit option \<times> client_v2" where
  "Identify opts flush d c =
     (let c = c\<lparr>cv_ClientID := id_ClientID d, cv_Hostname := id_Hostname d, cv_UserAgent := id_UserAgent d\<rparr>;
          (e, c) = SetHeartbeatInterval opts (id_HeartbeatInterval d) c
      in if e \<noteq> None then (e, c)
         else let (e, c) = SetOutputBuffer opts flush (id_OutputBufferSize d) (id_OutputBufferTimeout d) c
           in if e \<noteq> None then (e, c)
              else let (e, c) = SetSampleRate (id_SampleRate d) c
                in if e \<noteq> None then (e, c)
                   else let (e, c) = SetMsgTimeout opts (id_MsgTimeout d) c
                     in if e \<noteq> None then (e, c)
                        else let ie = \<lparr>ie_OutputBufferTimeout = cv_OutputBufferTimeout c, ie_HeartbeatInterval = cv_HeartbeatInterval c,
                                  ie_SampleRate = cv_SampleRate c, ie_MsgTimeout = cv_MsgTimeout c\<rparr>
                          in (None, if cv_IdentifyEvent c = None then c\<lparr>cv_IdentifyEvent := Some ie\<rparr> else c))"

subsection \<open>Flow control\<close>

text \<open>\<open>paused\<close> is \<open>c.Channel.IsPaused()\<close>.\<close>

definition IsReadyForMessages :: "bool \<Rightarrow> client_v2 \<Rightarrow> bool" where
  "IsReadyForMessages paused c \<longleftrightarrow>
     (if paused then False
      else if cv_InFlightCount c \<ge> cv_ReadyCount c \<or> cv_ReadyCount c \<le> 0 then False else True)"

definition tryUpdateReadyState :: "client_v2 \<Rightarrow> client_v2" where
  "tryUpdateReadyState c = c\<lparr>cv_ReadyState := True\<rparr>"

definition SetReadyCount :: "int \<Rightarrow> client_v2 \<Rightarrow> client_v2" where
  "SetReadyCount count c =
     (let old = cv_ReadyCount c; c = c\<lparr>cv_ReadyCount := count\<rparr>
      in if old \<noteq> count then tryUpdateReadyState c else c)"

definition FinishedMessage :: "client_v2 \<Rightarrow> client_v2" where
  "FinishedMessage c = tryUpdateReadyState (c\<lparr>cv_FinishCount := cv_FinishCount c + 1, cv_InFlightCount := cv_InFlightCount c - 1\<rparr>)"

definition cv_Empty :: "client_v2 \<Rightarrow> client_v2" where
  "cv_Empty c = tryUpdateReadyState (c\<lparr>cv_InFlightCount := 0\<rparr>)"

definition SendingMessage :: "client_v2 \<Rightarrow> client_v2" where
  "SendingMessage c = c\<lparr>cv_InFlightCount := cv_InFlightCount c + 1, cv_MessageCount := cv_MessageCount c + 1\<rparr>"

definition PublishedMessage :: "string \<Rightarrow> u64 \<Rightarrow> client_v2 \<Rightarrow> client_v2" where
  "PublishedMessage topic count c =
     c\<lparr>cv_pubCounts := AList.update topic ((case map_of (cv_pubCounts c) topic of None \<Rightarrow> 0 | Some n \<Rightarrow> n) + count) (cv_pubCounts c)\<rparr>"

definition TimedOutMessage :: "client_v2 \<Rightarrow> client_v2" where
  "TimedOutMessage c = tryUpdateReadyState (c\<lparr>cv_InFlightCount := cv_InFlightCount c - 1\<rparr>)"

definition RequeuedMessage :: "client_v2 \<Rightarrow> client_v2" where
  "RequeuedMessage c = tryUpdateReadyState (c\<lparr>cv_RequeueCount := cv_RequeueCount c + 1, cv_InFlightCount := cv_InFlightCount c - 1\<rparr>)"

definition StartClose :: "client_v2 \<Rightarrow> client_v2" where
  "StartClose c = (SetReadyCount 0 c)\<lparr>cv_State := StateClosing\<rparr>"

definition cv_Pause :: "client_v2 \<Rightarrow> client_v2" where
  "cv_Pause c = tryUpdateReadyState c"

definition cv_UnPause :: "client_v2 \<Rightarrow> client_v2" where
  "cv_UnPause c = tryUpdateReadyState c"

subsection \<open>Authorization\<close>

text \<open>What a client needs of its surroundings: the time, the address and certificate of the peer, the authorization daemons, and
  the random number of \<open>QueryAnyAuthd\<close>. \<open>None\<close> for the address is an error of \<open>net.SplitHostPort\<close>.\<close>

record auth_env =
  ae_rx :: regexp
  ae_get :: "string \<Rightarrow> auth_query \<Rightarrow> auth_state option"
  ae_now :: int
  ae_start :: int
  ae_remoteIP :: "string option"
  ae_commonName :: string

definition QueryAuthd_client :: "nsqd_options \<Rightarrow> auth_env \<Rightarrow> client_v2 \<Rightarrow> (unit option \<times> client_v2) option" where
  "QueryAuthd_client opts env c =
     (case ae_remoteIP env of
        None \<Rightarrow> Some (Some (), c)
      | Some ip \<Rightarrow> do {
          r \<leftarrow> QueryAnyAuthd (ae_rx env) (ae_get env) (ae_start env) (ae_now env) (op_AuthHTTPAddresses opts)
            \<lparr>aq_remote_ip = ip, aq_tls = cv_TLS c, aq_secret = cv_AuthSecret c, aq_common_name = if cv_TLS c then ae_commonName env else ''''\<rparr>;
          Some (case r of Inl _ \<Rightarrow> (Some (), c) | Inr a \<Rightarrow> (None, c\<lparr>cv_AuthState := Some a\<rparr>))
        })"

definition Auth :: "nsqd_options \<Rightarrow> auth_env \<Rightarrow> string \<Rightarrow> client_v2 \<Rightarrow> (unit option \<times> client_v2) option" where
  "Auth opts env secret c = QueryAuthd_client opts env (c\<lparr>cv_AuthSecret := secret\<rparr>)"

definition IsAuthorized ::
  "nsqd_options \<Rightarrow> auth_env \<Rightarrow> string \<Rightarrow> string \<Rightarrow> client_v2 \<Rightarrow> ((unit + bool) \<times> client_v2) option" where
  "IsAuthorized opts env topic channel c =
     (case cv_AuthState c of
        None \<Rightarrow> Some (Inr False, c)
      | Some a \<Rightarrow> do {
          (e, c) \<leftarrow> (if au_IsExpired a (ae_now env) then QueryAuthd_client opts env c else Some (None, c));
          if e \<noteq> None then Some (Inl (), c)
          else case cv_AuthState c of
            None \<Rightarrow> None
          | Some a \<Rightarrow> do { b \<leftarrow> au_IsAllowed (ae_rx env) a topic channel; Some (Inr b, c) }
        })"

definition HasAuthorizations :: "client_v2 \<Rightarrow> bool" where
  "HasAuthorizations c = (case cv_AuthState c of None \<Rightarrow> False | Some a \<Rightarrow> length (au_Authorizations a) \<noteq> 0)"

end
