(* ===== verification/Nsq_Protocol.thy ===== *)
theory Nsq_Protocol
  imports Nsq_Topic Nsq_Client
begin

unbundle bit_operations_syntax

text \<open>
  The daemon \<open>nsqd\<close> as its clients see it: the topics (\<open>nsqd/nsqd.go\<close>), the commands of the protocol, the loop that reads them and the
  pump of each client (\<open>nsqd/protocol_v2.go\<close>), over the topics, channels and clients of the other theories. Topics are objects in a store. A
  command is one step, and so is each stage of a pump: choosing its queues, receiving a message and putting it in flight, and
  counting and sending it. The JSON decoder, the network and the clock are parameters. The texts of errors are left out, their codes are kept.
\<close>

section \<open>Reading from the connection\<close>

text \<open>\<open>io.ReadFull\<close>: the bytes, or \<open>None\<close> if the input ends before, and the rest of the input.\<close>

definition ReadFull :: "nat \<Rightarrow> bytes \<Rightarrow> bytes option \<times> bytes" where
  "ReadFull n r = (if n \<le> length r then (Some (take n r), drop n r) else (None, []))"

definition be_Uint32 :: "bytes \<Rightarrow> u32 option" where
  "be_Uint32 b = do {
     b3 \<leftarrow> go_nth b 3; b2 \<leftarrow> go_nth b 2; b1 \<leftarrow> go_nth b 1; b0 \<leftarrow> go_nth b 0;
     Some (ucast b3 OR push_bit 8 (ucast b2) OR push_bit 16 (ucast b1) OR push_bit 24 (ucast b0))
   }"

definition be_PutUint32 :: "bytes \<Rightarrow> u32 \<Rightarrow> bytes option" where
  "be_PutUint32 b v = do {
     _ \<leftarrow> go_nth b 3;
     b \<leftarrow> go_upd b 0 (ucast (drop_bit 24 v));
     b \<leftarrow> go_upd b 1 (ucast (drop_bit 16 v));
     b \<leftarrow> go_upd b 2 (ucast (drop_bit 8 v));
     go_upd b 3 (ucast v)
   }"

text \<open>\<open>readLen\<close> reads a signed number of 32 bits.\<close>

definition readLen :: "bytes \<Rightarrow> (int option \<times> bytes) option" where
  "readLen r =
     (case ReadFull 4 r of
        (None, r) \<Rightarrow> Some (None, r)
      | (Some b, r) \<Rightarrow> do { v \<leftarrow> be_Uint32 b; Some (Some (sint v), r) })"

text \<open>\<open>SendFramedResponse\<close>: the writer is a parameter as in \<open>msg_WriteTo\<close>.\<close>

definition SendFramedResponse ::
  "('w \<Rightarrow> bytes \<Rightarrow> int \<times> 'err option \<times> 'w) \<Rightarrow> 'w \<Rightarrow> int \<Rightarrow> bytes \<Rightarrow> (int \<times> 'err option \<times> 'w) option" where
  "SendFramedResponse write w frameType data = do {
     buf \<leftarrow> be_PutUint32 (replicate 4 0) (of_nat (length data) + 4);
     let (n, e, w) = write w buf;
     if e \<noteq> None then Some (n, e, w)
     else do {
       buf \<leftarrow> be_PutUint32 buf (word_of_int frameType);
       let (n, e, w) = write w buf;
       if e \<noteq> None then Some (n + 4, e, w)
       else let (n, e, w) = write w data in Some (n + 8, e, w)
     }
   }"

datatype proto_err = FatalClientErr string | ClientErr string

definition getMessageID :: "bytes \<Rightarrow> bytes option" where
  "getMessageID p = (if length p \<noteq> 16 then None else Some p)"

text \<open>A string of bytes as a Go string, and \<open>bytes.Split(line, " ")\<close>.\<close>

definition str_of :: "bytes \<Rightarrow> string" where
  "str_of b = map (\<lambda>x. char_of (unat x)) b"

fun split_spaces :: "bytes \<Rightarrow> bytes list" where
  "split_spaces [] = [[]]"
| "split_spaces (b # bs) =
     (case split_spaces bs of
        [] \<Rightarrow> [[b]]
      | p # ps \<Rightarrow> if b = 32 then [] # p # ps else (b # p) # ps)"

text \<open>The line that the loop of a client reads: \<open>None\<close> if the input ends before a newline, or if no newline comes within the buffer.\<close>

definition ReadSlice :: "bytes \<Rightarrow> (bytes \<times> bytes) option" where
  "ReadSlice r =
     (let line = takeWhile (\<lambda>b. b \<noteq> 10) r
      in if length line = length r \<or> length line \<ge> 16 * 1024 then None else Some (line, drop (length line + 1) r))"

definition trim_cr :: "bytes \<Rightarrow> bytes" where
  "trim_cr line = (if line \<noteq> [] \<and> last line = 13 then butlast line else line)"

section \<open>The state of the daemon\<close>

text \<open>The points of the pump of a client: at the top of its loop, in the \<open>select\<close> (true if it listens to the queues of its channel), with a message that
  it has put in flight, or ended.\<close>

datatype client_pc = AtTop | InSelect bool | Sending message | PumpEnded

record client_pump =
  pu_pc :: client_pc
  pu_subChannel :: "(nat \<times> nat) option"
  pu_subOpen :: bool
  pu_identifyOpen :: bool
  pu_sampleRate :: int
  pu_msgTimeout :: int

record identify_resp =
  ir_MaxRdyCount :: int
  ir_MaxMsgTimeout :: int
  ir_MsgTimeout :: int
  ir_TLSv1 :: bool
  ir_Deflate :: bool
  ir_DeflateLevel :: int
  ir_MaxDeflateLevel :: int
  ir_Snappy :: bool
  ir_SampleRate :: int
  ir_AuthRequired :: bool
  ir_OutputBufferSize :: int
  ir_OutputBufferTimeout :: int

datatype frame =
  FrameOK | FrameCloseWait | FrameHeartbeat | FrameIdentify identify_resp | FrameAuth string string int
| FrameError proto_err | FrameMessage message

text \<open>\<open>nd_clients\<close> is the store of client objects, which channels and pumps may hold after the connection has ended; the daemon's own list of
  connections, which only its shutdown reads, is left out. \<open>nd_sent\<close> records the frames that were sent.\<close>

record 'b nsqd =
  nd_topics :: "'b topic list"
  nd_topicMap :: "(string \<times> nat) list"
  nd_clients :: "int \<Rightarrow> client_v2 option"
  nd_pumps :: "int \<Rightarrow> client_pump"
  nd_clientIDSequence :: int
  nd_isLoading :: bool
  nd_sent :: "(int \<times> frame) list"

definition nsqd_New :: "'b nsqd" where
  "nsqd_New = \<lparr>nd_topics = [], nd_topicMap = [], nd_clients = (\<lambda>_. None),
     nd_pumps = (\<lambda>_. \<lparr>pu_pc = PumpEnded, pu_subChannel = None, pu_subOpen = False, pu_identifyOpen = False, pu_sampleRate = 0, pu_msgTimeout = 0\<rparr>),
     nd_clientIDSequence = 0, nd_isLoading = False, nd_sent = []\<rparr>"

text \<open>What a command needs of its surroundings, beyond the authorization of the client: the readings of the clock for the identifiers
  and the times of new messages, which sends on the connection succeed, whether the TLS handshake and the flush of the writer do, the
  JSON decoder, the channels that the lookup daemons know for a topic, and how the backends of topics and of channels are opened.\<close>

record 'b cmd_env = auth_env +
  ce_clock :: "nat \<Rightarrow> int list"
  ce_nows :: "nat \<Rightarrow> int"
  ce_sends :: "nat \<Rightarrow> bool"
  ce_handshake :: bool
  ce_flush :: bool
  ce_decode :: "bytes \<Rightarrow> identify_data option"
  ce_lookup :: "string \<Rightarrow> string list"
  ce_openTopic :: "string \<Rightarrow> 'b"
  ce_openChannel :: "string \<Rightarrow> string \<Rightarrow> 'b"

definition topic_at :: "'b nsqd \<Rightarrow> nat \<Rightarrow> 'b topic option" where
  "topic_at nd k = (if k < length (nd_topics nd) then Some (nd_topics nd ! k) else None)"

definition set_topic :: "nat \<Rightarrow> 'b topic \<Rightarrow> 'b nsqd \<Rightarrow> 'b nsqd" where
  "set_topic k t nd = nd\<lparr>nd_topics := (nd_topics nd)[k := t]\<rparr>"

definition chan_at :: "'b nsqd \<Rightarrow> nat \<times> nat \<Rightarrow> 'b channel option" where
  "chan_at nd p = do { t \<leftarrow> topic_at nd (fst p); store_at t (snd p) }"

definition set_chan :: "nat \<times> nat \<Rightarrow> 'b channel \<Rightarrow> 'b nsqd \<Rightarrow> 'b nsqd" where
  "set_chan p c nd =
     (let t = nd_topics nd ! fst p in set_topic (fst p) (t\<lparr>t_store := (t_store t)[snd p := c]\<rparr>) nd)"

section \<open>Topics of the daemon\<close>

text \<open>A goroutine that has changed the channels of a topic waits until the pump of the topic has noticed, or the topic exits.\<close>

definition await_pump :: "('b, 'e) backend \<Rightarrow> 'b topic \<Rightarrow> 'b topic option" where
  "await_pump B t =
     (if t_updates t = [] then Some t
      else if t_pc t = PumpExited then Some (update_gives_up t) else pump_step B (\<lambda>_. 0) RecvUpdate t)"

definition GetChannel_wait ::
  "('b, 'e) backend \<Rightarrow> int \<Rightarrow> (string \<Rightarrow> 'b) \<Rightarrow> 'b topic \<Rightarrow> string \<Rightarrow> (nat \<times> 'b topic) option" where
  "GetChannel_wait B memQueueSize openq t name = do {
     (j, t) \<leftarrow> GetChannel memQueueSize openq t name;
     t \<leftarrow> await_pump B t;
     Some (j, t)
   }"

text \<open>The channels that the lookup daemons know are created first.\<close>

fun pre_create :: "('b, 'e) backend \<Rightarrow> int \<Rightarrow> (string \<Rightarrow> 'b) \<Rightarrow> string list \<Rightarrow> 'b topic \<Rightarrow> 'b topic option" where
  "pre_create B memQueueSize openq [] t = Some t"
| "pre_create B memQueueSize openq (name # names) t =
     (if take 10 (rev name) = rev ''#ephemeral'' then pre_create B memQueueSize openq names t
      else do { (_, t) \<leftarrow> GetChannel_wait B memQueueSize openq t name; pre_create B memQueueSize openq names t })"

definition GetTopic ::
  "('b, 'e) backend \<Rightarrow> nsqd_options \<Rightarrow> 'b cmd_env \<Rightarrow> string \<Rightarrow> 'b nsqd \<Rightarrow> (nat \<times> 'b nsqd) option" where
  "GetTopic B opts env name nd =
     (case map_of (nd_topicMap nd) name of
        Some k \<Rightarrow> Some (k, nd)
      | None \<Rightarrow>
          let t = NewTopic (op_MemQueueSize opts) (op_ID opts) name (ce_openTopic env name);
              k = length (nd_topics nd);
              nd = nd\<lparr>nd_topics := nd_topics nd @ [t], nd_topicMap := (name, k) # nd_topicMap nd\<rparr>
          in if nd_isLoading nd then Some (k, nd)
             else do {
               t \<leftarrow> pre_create B (op_MemQueueSize opts) (ce_openChannel env name) (ce_lookup env name) t;
               Some (k, set_topic k (t_Start t) nd)
             })"

section \<open>Commands\<close>

datatype outcome = Reply "frame option" | Fail proto_err | Retry

text \<open>The client is passed apart from the daemon.\<close>

type_synonym 'b cmd_result = "(outcome \<times> client_v2 \<times> 'b nsqd) option"

definition fatal :: "string \<Rightarrow> client_v2 \<Rightarrow> 'b nsqd \<Rightarrow> 'b cmd_result" where
  "fatal code c nd = Some (Fail (FatalClientErr code), c, nd)"

text \<open>The body of a command: its length, from 1 to \<open>limit\<close>, and its bytes. The errors all have the same code.\<close>

definition read_body :: "int \<Rightarrow> bytes \<Rightarrow> (bytes option \<times> bytes) option" where
  "read_body limit r = do {
     (len, r) \<leftarrow> readLen r;
     case len of
       None \<Rightarrow> Some (None, r)
     | Some n \<Rightarrow>
         if n > limit \<or> n \<le> 0 then Some (None, r)
         else do { _ \<leftarrow> go_make (0 :: byte) n; Some (ReadFull (nat n) r) }
   }"

definition send_frames :: "int \<Rightarrow> frame list \<Rightarrow> 'b nsqd \<Rightarrow> 'b nsqd" where
  "send_frames i fs nd = nd\<lparr>nd_sent := nd_sent nd @ map (Pair i) fs\<rparr>"

subsection \<open>IDENTIFY and AUTH\<close>

definition deflate_level :: "nsqd_options \<Rightarrow> bool \<Rightarrow> identify_data \<Rightarrow> int" where
  "deflate_level opts deflate d =
     (let level = (if deflate \<and> id_DeflateLevel d > 0 then id_DeflateLevel d else 6)
      in if op_MaxDeflateLevel opts < level then op_MaxDeflateLevel opts else level)"

text \<open>The upgrades of the connection after the answer: the error code, the frames that were sent and the client. \<open>send\<close> numbers the sends.\<close>

definition upgrades ::
  "'b cmd_env \<Rightarrow> bool \<Rightarrow> bool \<Rightarrow> bool \<Rightarrow> client_v2 \<Rightarrow> proto_err option \<times> frame list \<times> client_v2" where
  "upgrades env tlsv1 snappy deflate c =
     (let failed = Some (FatalClientErr ''E_IDENTIFY_FAILED'')
      in if tlsv1 \<and> \<not> ce_handshake env then (failed, [], c)
         else let c = (if tlsv1 then c\<lparr>cv_TLS := True\<rparr> else c)
           in if tlsv1 \<and> \<not> ce_sends env 1 then (failed, [], c)
              else let sent = (if tlsv1 then [FrameOK] else []);
                       c = (if snappy then c\<lparr>cv_Snappy := True\<rparr> else c)
                in if snappy \<and> \<not> ce_sends env 2 then (failed, sent, c)
                   else let sent = sent @ (if snappy then [FrameOK] else []);
                            c = (if deflate then c\<lparr>cv_Deflate := True\<rparr> else c)
                     in if deflate \<and> \<not> ce_sends env 3 then (failed, sent, c)
                        else (None, sent @ (if deflate then [FrameOK] else []), c))"

definition identify_answer :: "nsqd_options \<Rightarrow> client_v2 \<Rightarrow> identify_data \<Rightarrow> identify_resp" where
  "identify_answer opts c d =
     (let deflate = (op_DeflateEnabled opts \<and> id_Deflate d)
      in \<lparr>ir_MaxRdyCount = op_MaxRdyCount opts, ir_MaxMsgTimeout = to_ms (op_MaxMsgTimeout opts), ir_MsgTimeout = to_ms (cv_MsgTimeout c),
          ir_TLSv1 = (op_tlsConfig opts \<and> id_TLSv1 d), ir_Deflate = deflate, ir_DeflateLevel = deflate_level opts deflate d,
          ir_MaxDeflateLevel = op_MaxDeflateLevel opts, ir_Snappy = (op_SnappyEnabled opts \<and> id_Snappy d),
          ir_SampleRate = cv_SampleRate c, ir_AuthRequired = IsAuthEnabled opts, ir_OutputBufferSize = cv_OutputBufferSize c,
          ir_OutputBufferTimeout = to_ms (cv_OutputBufferTimeout c)\<rparr>)"

definition negotiate ::
  "nsqd_options \<Rightarrow> 'b cmd_env \<Rightarrow> identify_data \<Rightarrow> client_v2 \<Rightarrow> 'b nsqd \<Rightarrow> 'b cmd_result" where
  "negotiate opts env d c nd =
     (let r = identify_answer opts c d
      in if ir_Deflate r \<and> ir_Snappy r then fatal ''E_IDENTIFY_FAILED'' c nd
         else if \<not> ce_sends env 0 then fatal ''E_IDENTIFY_FAILED'' c nd
         else let (e, sent, c) = upgrades env (ir_TLSv1 r) (ir_Snappy r) (ir_Deflate r) c;
                  nd = send_frames (cv_ID c) (FrameIdentify r # sent) nd
              in Some (case e of None \<Rightarrow> Reply None | Some e \<Rightarrow> Fail e, c, nd))"

definition v2_IDENTIFY :: "nsqd_options \<Rightarrow> 'b cmd_env \<Rightarrow> bytes list \<Rightarrow> client_v2 \<Rightarrow> 'b nsqd \<Rightarrow> 'b cmd_result" where
  "v2_IDENTIFY opts env params c nd =
     (if cv_State c \<noteq> StateInit then fatal ''E_INVALID'' c nd
      else do {
        (body, r) \<leftarrow> read_body (op_MaxBodySize opts) (cv_Reader c);
        let c = c\<lparr>cv_Reader := r\<rparr>;
        case body of
          None \<Rightarrow> fatal ''E_BAD_BODY'' c nd
        | Some body \<Rightarrow>
            (case ce_decode env body of
               None \<Rightarrow> fatal ''E_BAD_BODY'' c nd
             | Some d \<Rightarrow>
                 let (e, c) = Identify opts (ce_flush env) d c
                 in if e \<noteq> None then fatal ''E_BAD_BODY'' c nd
                    else if \<not> id_FeatureNegotiation d then Some (Reply (Some FrameOK), c, nd)
                    else negotiate opts env d c nd)
      })"

definition AUTH :: "nsqd_options \<Rightarrow> 'b cmd_env \<Rightarrow> bytes list \<Rightarrow> client_v2 \<Rightarrow> 'b nsqd \<Rightarrow> 'b cmd_result" where
  "AUTH opts env params c nd =
     (if cv_State c \<noteq> StateInit then fatal ''E_INVALID'' c nd
      else if length params \<noteq> 1 then fatal ''E_INVALID'' c nd
      else do {
        (body, r) \<leftarrow> read_body (op_MaxBodySize opts) (cv_Reader c);
        let c = c\<lparr>cv_Reader := r\<rparr>;
        case body of
          None \<Rightarrow> fatal ''E_BAD_BODY'' c nd
        | Some body \<Rightarrow>
            if HasAuthorizations c then fatal ''E_INVALID'' c nd
            else if \<not> IsAuthEnabled opts then fatal ''E_AUTH_DISABLED'' c nd
            else do {
              (e, c) \<leftarrow> Auth opts (auth_env.truncate env) (str_of body) c;
              if e \<noteq> None then fatal ''E_AUTH_FAILED'' c nd
              else if \<not> HasAuthorizations c then fatal ''E_UNAUTHORIZED'' c nd
              else case cv_AuthState c of
                None \<Rightarrow> None
              | Some a \<Rightarrow>
                  if \<not> ce_sends env 0 then fatal ''E_AUTH_ERROR'' c nd
                  else Some (Reply None, c,
                    send_frames (cv_ID c) [FrameAuth (au_Identity a) (au_IdentityURL a) (int (length (au_Authorizations a)))] nd)
            }
      })"

text \<open>\<open>CheckAuth\<close>: the error, if any.\<close>

definition CheckAuth ::
  "nsqd_options \<Rightarrow> 'b cmd_env \<Rightarrow> string \<Rightarrow> string \<Rightarrow> client_v2 \<Rightarrow> (proto_err option \<times> client_v2) option" where
  "CheckAuth opts env topicName channelName c =
     (if IsAuthEnabled opts then
        if \<not> HasAuthorizations c then Some (Some (FatalClientErr ''E_AUTH_FIRST''), c)
        else do {
          (r, c) \<leftarrow> IsAuthorized opts (auth_env.truncate env) topicName channelName c;
          Some (case r of
            Inl _ \<Rightarrow> Some (FatalClientErr ''E_AUTH_FAILED'')
          | Inr ok \<Rightarrow> if \<not> ok then Some (FatalClientErr ''E_UNAUTHORIZED'') else None, c)
        }
      else Some (None, c))"

subsection \<open>Consumers\<close>

text \<open>\<open>SUB\<close>: one round of its loop. It retries while an ephemeral channel or topic is exiting.\<close>

definition SUB :: "('b, 'e) backend \<Rightarrow> nsqd_options \<Rightarrow> 'b cmd_env \<Rightarrow> bytes list \<Rightarrow> client_v2 \<Rightarrow> 'b nsqd \<Rightarrow> 'b cmd_result" where
  "SUB B opts env params c nd =
     (if cv_State c \<noteq> StateInit then fatal ''E_INVALID'' c nd
      else if cv_HeartbeatInterval c \<le> 0 then fatal ''E_INVALID'' c nd
      else if length params < 3 then fatal ''E_INVALID'' c nd
      else let topicName = str_of (params ! 1); channelName = str_of (params ! 2)
        in if \<not> isValidName topicName then fatal ''E_BAD_TOPIC'' c nd
           else if \<not> isValidName channelName then fatal ''E_BAD_CHANNEL'' c nd
           else do {
             (e, c) \<leftarrow> CheckAuth opts env topicName channelName c;
             case e of
               Some e \<Rightarrow> Some (Fail e, c, nd)
             | None \<Rightarrow> do {
                 (k, nd) \<leftarrow> GetTopic B opts env topicName nd;
                 t \<leftarrow> topic_at nd k;
                 (j, t) \<leftarrow> GetChannel_wait B (op_MemQueueSize opts) (ce_openChannel env topicName) t channelName;
                 let nd = set_topic k t nd;
                 ch \<leftarrow> chan_at nd (k, j);
                 let (e, ch) = (AddClient (op_MaxChannelConsumers opts) ch (cv_ID c) :: 'e channel_error option \<times> 'b channel);
                 if e \<noteq> None then fatal ''E_TOO_MANY_CHANNEL_CONSUMERS'' c (set_chan (k, j) ch nd)
                 else if (ch_ephemeral ch \<and> ch_exitFlag ch) \<or> (t_ephemeral t \<and> t_exitFlag t)
                 then Some (Retry, c, set_chan (k, j) (RemoveClient ch (cv_ID c)) nd)
                 else Some (Reply (Some FrameOK),
                   c\<lparr>cv_State := StateSubscribed, cv_Channel := Some (k, j), cv_SubEvent := Some (k, j)\<rparr>, set_chan (k, j) ch nd)
               }
           })"

definition RDY :: "nsqd_options \<Rightarrow> bytes list \<Rightarrow> client_v2 \<Rightarrow> 'b nsqd \<Rightarrow> 'b cmd_result" where
  "RDY opts params c nd =
     (if cv_State c = StateClosing then Some (Reply None, c, nd)
      else if cv_State c \<noteq> StateSubscribed then fatal ''E_INVALID'' c nd
      else case (if length params > 1 then map_sum id sint (ByteToBase10 (params ! 1)) else Inr 1) of
        Inl _ \<Rightarrow> fatal ''E_INVALID'' c nd
      | Inr n \<Rightarrow>
          if n < 0 \<or> n > op_MaxRdyCount opts then fatal ''E_INVALID'' c nd
          else Some (Reply None, SetReadyCount n c, nd))"

text \<open>The channel of a subscribed client.\<close>

definition client_chan :: "client_v2 \<Rightarrow> 'b nsqd \<Rightarrow> ((nat \<times> nat) \<times> 'b channel) option" where
  "client_chan c nd = do { p \<leftarrow> cv_Channel c; ch \<leftarrow> chan_at nd p; Some (p, ch) }"

definition active :: "client_v2 \<Rightarrow> bool" where
  "active c \<longleftrightarrow> cv_State c = StateSubscribed \<or> cv_State c = StateClosing"

definition FIN :: "('b, 'e) backend \<Rightarrow> bytes list \<Rightarrow> client_v2 \<Rightarrow> 'b nsqd \<Rightarrow> 'b cmd_result" where
  "FIN B params c nd =
     (if \<not> active c then fatal ''E_INVALID'' c nd
      else if length params < 2 then fatal ''E_INVALID'' c nd
      else case getMessageID (params ! 1) of
        None \<Rightarrow> fatal ''E_INVALID'' c nd
      | Some i \<Rightarrow> do {
          (p, ch) \<leftarrow> client_chan c nd;
          (e :: 'e channel_error option, ch) \<leftarrow> FinishMessage ch (cv_ID c) i;
          let nd = set_chan p ch nd;
          Some (if e \<noteq> None then (Fail (ClientErr ''E_FIN_FAILED''), c, nd) else (Reply None, FinishedMessage c, nd))
        })"

text \<open>The timeout of \<open>REQ\<close> and \<open>DPUB\<close> in nanoseconds: the product wraps around.\<close>

definition timeout_ns :: "u64 \<Rightarrow> int" where
  "timeout_ns ms = s64 (sint ms * 1000000)"

definition clamp :: "nsqd_options \<Rightarrow> int \<Rightarrow> int" where
  "clamp opts d = (if d < 0 then 0 else if d > op_MaxReqTimeout opts then op_MaxReqTimeout opts else d)"

definition REQ :: "('b, 'e) backend \<Rightarrow> nsqd_options \<Rightarrow> 'b cmd_env \<Rightarrow> bytes list \<Rightarrow> client_v2 \<Rightarrow> 'b nsqd \<Rightarrow> 'b cmd_result" where
  "REQ B opts env params c nd =
     (if \<not> active c then fatal ''E_INVALID'' c nd
      else if length params < 3 then fatal ''E_INVALID'' c nd
      else case getMessageID (params ! 1) of
        None \<Rightarrow> fatal ''E_INVALID'' c nd
      | Some i \<Rightarrow>
          (case ByteToBase10 (params ! 2) of
             Inl _ \<Rightarrow> fatal ''E_INVALID'' c nd
           | Inr ms \<Rightarrow> do {
               (p, ch) \<leftarrow> client_chan c nd;
               (e, ch) \<leftarrow> RequeueMessage B ch (ae_now env) (cv_ID c) i (clamp opts (timeout_ns ms));
               let nd = set_chan p ch nd;
               Some (if e \<noteq> None then (Fail (ClientErr ''E_REQ_FAILED''), c, nd) else (Reply None, RequeuedMessage c, nd))
             }))"

definition CLS :: "client_v2 \<Rightarrow> 'b nsqd \<Rightarrow> 'b cmd_result" where
  "CLS c nd =
     (if cv_State c \<noteq> StateSubscribed then fatal ''E_INVALID'' c nd else Some (Reply (Some FrameCloseWait), StartClose c, nd))"

definition TOUCH :: "('b, 'e) backend \<Rightarrow> nsqd_options \<Rightarrow> 'b cmd_env \<Rightarrow> bytes list \<Rightarrow> client_v2 \<Rightarrow> 'b nsqd \<Rightarrow> 'b cmd_result" where
  "TOUCH B opts env params c nd =
     (if \<not> active c then fatal ''E_INVALID'' c nd
      else if length params < 2 then fatal ''E_INVALID'' c nd
      else case getMessageID (params ! 1) of
        None \<Rightarrow> fatal ''E_INVALID'' c nd
      | Some i \<Rightarrow> do {
          (p, ch) \<leftarrow> client_chan c nd;
          (e :: 'e channel_error option, ch) \<leftarrow> TouchMessage (op_MaxMsgTimeout opts) ch (ae_now env) (cv_ID c) i (cv_MsgTimeout c);
          let nd = set_chan p ch nd;
          Some (if e \<noteq> None then (Fail (ClientErr ''E_TOUCH_FAILED''), c, nd) else (Reply None, c, nd))
        })"

subsection \<open>Producers\<close>

text \<open>\<open>PUB\<close> and \<open>DPUB\<close> share their end: the message gets an identifier of the topic and is put there.\<close>

definition publish ::
  "('b, 'e) backend \<Rightarrow> nsqd_options \<Rightarrow> 'b cmd_env \<Rightarrow> string \<Rightarrow> string \<Rightarrow> bytes \<Rightarrow> int \<Rightarrow> client_v2 \<Rightarrow> 'b nsqd \<Rightarrow> 'b cmd_result" where
  "publish B opts env code topicName body deferred c nd = do {
     (e, c) \<leftarrow> CheckAuth opts env topicName '''' c;
     case e of
       Some e \<Rightarrow> Some (Fail e, c, nd)
     | None \<Rightarrow> do {
         (k, nd) \<leftarrow> GetTopic B opts env topicName nd;
         t \<leftarrow> topic_at nd k;
         (i, t) \<leftarrow> GenerateID t (ce_clock env 0);
         (e, t) \<leftarrow> t_PutMessage B t ((NewMessage i body (ce_nows env 0))\<lparr>msg_deferred := deferred\<rparr>);
         let nd = set_topic k t nd;
         if e \<noteq> None then fatal code c nd else Some (Reply (Some FrameOK), PublishedMessage topicName 1 c, nd)
       }
   }"

definition PUB :: "('b, 'e) backend \<Rightarrow> nsqd_options \<Rightarrow> 'b cmd_env \<Rightarrow> bytes list \<Rightarrow> client_v2 \<Rightarrow> 'b nsqd \<Rightarrow> 'b cmd_result" where
  "PUB B opts env params c nd =
     (if length params < 2 then fatal ''E_INVALID'' c nd
      else let topicName = str_of (params ! 1)
        in if \<not> isValidName topicName then fatal ''E_BAD_TOPIC'' c nd
           else do {
             (body, r) \<leftarrow> read_body (op_MaxMsgSize opts) (cv_Reader c);
             let c = c\<lparr>cv_Reader := r\<rparr>;
             case body of
               None \<Rightarrow> fatal ''E_BAD_MESSAGE'' c nd
             | Some body \<Rightarrow> publish B opts env ''E_PUB_FAILED'' topicName body 0 c nd
           })"

definition DPUB :: "('b, 'e) backend \<Rightarrow> nsqd_options \<Rightarrow> 'b cmd_env \<Rightarrow> bytes list \<Rightarrow> client_v2 \<Rightarrow> 'b nsqd \<Rightarrow> 'b cmd_result" where
  "DPUB B opts env params c nd =
     (if length params < 3 then fatal ''E_INVALID'' c nd
      else let topicName = str_of (params ! 1)
        in if \<not> isValidName topicName then fatal ''E_BAD_TOPIC'' c nd
           else case ByteToBase10 (params ! 2) of
             Inl _ \<Rightarrow> fatal ''E_INVALID'' c nd
           | Inr ms \<Rightarrow>
               if timeout_ns ms < 0 \<or> timeout_ns ms > op_MaxReqTimeout opts then fatal ''E_INVALID'' c nd
               else do {
                 (body, r) \<leftarrow> read_body (op_MaxMsgSize opts) (cv_Reader c);
                 let c = c\<lparr>cv_Reader := r\<rparr>;
                 case body of
                   None \<Rightarrow> fatal ''E_BAD_MESSAGE'' c nd
                 | Some body \<Rightarrow> publish B opts env ''E_DPUB_FAILED'' topicName body (timeout_ns ms) c nd
               })"

text \<open>The loop of \<open>readMPUB\<close>, with \<open>n\<close> messages to go: \<open>clock i\<close> and \<open>nows i\<close> are the readings of the clock for message \<open>i\<close>.\<close>

fun readMPUB_loop ::
  "(nat \<Rightarrow> int list) \<Rightarrow> (nat \<Rightarrow> int) \<Rightarrow> int \<Rightarrow> nat \<Rightarrow> nat \<Rightarrow> message list \<Rightarrow> bytes \<Rightarrow> 'b topic \<Rightarrow>
     ((proto_err + message list) \<times> bytes \<times> 'b topic) option" where
  "readMPUB_loop clock nows maxMessageSize 0 i messages r t = Some (Inr messages, r, t)"
| "readMPUB_loop clock nows maxMessageSize (Suc n) i messages r t = do {
     (body, r) \<leftarrow> read_body maxMessageSize r;
     case body of
       None \<Rightarrow> Some (Inl (FatalClientErr ''E_BAD_MESSAGE''), r, t)
     | Some body \<Rightarrow> do {
         (g, t) \<leftarrow> GenerateID t (clock i);
         readMPUB_loop clock nows maxMessageSize n (i + 1) (messages @ [NewMessage g body (nows i)]) r t
       }
   }"

definition readMPUB ::
  "(nat \<Rightarrow> int list) \<Rightarrow> (nat \<Rightarrow> int) \<Rightarrow> int \<Rightarrow> int \<Rightarrow> bytes \<Rightarrow> 'b topic \<Rightarrow> ((proto_err + message list) \<times> bytes \<times> 'b topic) option" where
  "readMPUB clock nows maxMessageSize maxBodySize r t = do {
     (n, r) \<leftarrow> readLen r;
     maxMessages \<leftarrow> go_div (maxBodySize - 4) 5;
     case n of
       None \<Rightarrow> Some (Inl (FatalClientErr ''E_BAD_BODY''), r, t)
     | Some n \<Rightarrow>
         if n \<le> 0 \<or> n > maxMessages then Some (Inl (FatalClientErr ''E_BAD_BODY''), r, t)
         else readMPUB_loop clock nows maxMessageSize (nat n) 0 [] r t
   }"

definition MPUB :: "('b, 'e) backend \<Rightarrow> nsqd_options \<Rightarrow> 'b cmd_env \<Rightarrow> bytes list \<Rightarrow> client_v2 \<Rightarrow> 'b nsqd \<Rightarrow> 'b cmd_result" where
  "MPUB B opts env params c nd =
     (if length params < 2 then fatal ''E_INVALID'' c nd
      else let topicName = str_of (params ! 1)
        in if \<not> isValidName topicName then fatal ''E_BAD_TOPIC'' c nd
           else do {
             (e, c) \<leftarrow> CheckAuth opts env topicName '''' c;
             case e of
               Some e \<Rightarrow> Some (Fail e, c, nd)
             | None \<Rightarrow> do {
                 (k, nd) \<leftarrow> GetTopic B opts env topicName nd;
                 t \<leftarrow> topic_at nd k;
                 (len, r) \<leftarrow> readLen (cv_Reader c);
                 let c = c\<lparr>cv_Reader := r\<rparr>;
                 case len of
                   None \<Rightarrow> fatal ''E_BAD_BODY'' c nd
                 | Some n \<Rightarrow>
                     if n \<le> 0 \<or> n > op_MaxBodySize opts then fatal ''E_BAD_BODY'' c nd
                     else do {
                       (msgs, r, t) \<leftarrow> readMPUB (ce_clock env) (ce_nows env) (op_MaxMsgSize opts) (op_MaxBodySize opts) r t;
                       let c = c\<lparr>cv_Reader := r\<rparr>;
                       let nd = set_topic k t nd;
                       case msgs of
                         Inl e \<Rightarrow> Some (Fail e, c, nd)
                       | Inr msgs \<Rightarrow> do {
                           (e, t) \<leftarrow> t_PutMessages B t msgs;
                           let nd = set_topic k t nd;
                           if e \<noteq> None then fatal ''E_MPUB_FAILED'' c nd
                           else Some (Reply (Some FrameOK), PublishedMessage topicName (of_nat (length msgs)) c, nd)
                         }
                     }
               }
           })"

subsection \<open>Dispatch\<close>

definition enforceTLSPolicy :: "nsqd_options \<Rightarrow> client_v2 \<Rightarrow> bool" where
  "enforceTLSPolicy opts c \<longleftrightarrow> \<not> (op_TLSRequired opts \<and> \<not> cv_TLS c)"

definition Exec :: "('b, 'e) backend \<Rightarrow> nsqd_options \<Rightarrow> 'b cmd_env \<Rightarrow> bytes list \<Rightarrow> client_v2 \<Rightarrow> 'b nsqd \<Rightarrow> 'b cmd_result" where
  "Exec B opts env params c nd =
     (case params of
        [] \<Rightarrow> None
      | cmd # _ \<Rightarrow>
          let cmd = str_of cmd
          in if cmd = ''IDENTIFY'' then v2_IDENTIFY opts env params c nd
             else if \<not> enforceTLSPolicy opts c then fatal ''E_INVALID'' c nd
             else if cmd = ''FIN'' then FIN B params c nd
             else if cmd = ''RDY'' then RDY opts params c nd
             else if cmd = ''REQ'' then REQ B opts env params c nd
             else if cmd = ''PUB'' then PUB B opts env params c nd
             else if cmd = ''MPUB'' then MPUB B opts env params c nd
             else if cmd = ''DPUB'' then DPUB B opts env params c nd
             else if cmd = ''NOP'' then Some (Reply None, c, nd)
             else if cmd = ''TOUCH'' then TOUCH B opts env params c nd
             else if cmd = ''SUB'' then SUB B opts env params c nd
             else if cmd = ''CLS'' then CLS c nd
             else if cmd = ''AUTH'' then AUTH opts env params c nd
             else fatal ''E_INVALID'' c nd)"

section \<open>The loop of a client\<close>

definition put_client :: "client_v2 \<Rightarrow> 'b nsqd \<Rightarrow> 'b nsqd" where
  "put_client c nd = nd\<lparr>nd_clients := (nd_clients nd)(cv_ID c \<mapsto> c)\<rparr>"

text \<open>A new connection: its client and its pump.\<close>

definition accept :: "nsqd_options \<Rightarrow> string \<Rightarrow> bytes \<Rightarrow> 'b nsqd \<Rightarrow> 'b nsqd" where
  "accept opts identifier input nd =
     (let i = nd_clientIDSequence nd + 1; c = newClientV2 opts i identifier input
      in put_client c (nd\<lparr>nd_clientIDSequence := i,
           nd_pumps := (nd_pumps nd)(i := \<lparr>pu_pc = AtTop, pu_subChannel = None, pu_subOpen = True, pu_identifyOpen = True,
             pu_sampleRate = 0, pu_msgTimeout = cv_MsgTimeout c\<rparr>)\<rparr>))"

text \<open>The end of the loop, after the connection was closed.\<close>

definition loop_exit :: "client_v2 \<Rightarrow> 'b nsqd \<Rightarrow> 'b nsqd option" where
  "loop_exit c nd =
     (let nd = put_client (c\<lparr>cv_exited := True\<rparr>) nd
      in case cv_Channel c of
           None \<Rightarrow> Some nd
         | Some p \<Rightarrow> do { ch \<leftarrow> chan_at nd p; Some (set_chan p (RemoveClient ch (cv_ID c)) nd) })"

text \<open>A round of the loop: \<open>reply\<close> says whether the answer can be sent. A command that retries is read again in the next round.\<close>

definition IOLoop_round ::
  "('b, 'e) backend \<Rightarrow> nsqd_options \<Rightarrow> 'b cmd_env \<Rightarrow> bool \<Rightarrow> client_v2 \<Rightarrow> 'b nsqd \<Rightarrow> 'b nsqd option" where
  "IOLoop_round B opts env reply c nd =
     (case ReadSlice (cv_Reader c) of
        None \<Rightarrow> loop_exit c nd
      | Some (line, r) \<Rightarrow> do {
          (out, c', nd) \<leftarrow> Exec B opts env (split_spaces (trim_cr line)) (c\<lparr>cv_Reader := r\<rparr>) nd;
          case out of
            Retry \<Rightarrow> Some (put_client (c'\<lparr>cv_Reader := cv_Reader c\<rparr>) nd)
          | Reply None \<Rightarrow> Some (put_client c' nd)
          | Reply (Some f) \<Rightarrow> if reply then Some (put_client c' (send_frames (cv_ID c) [f] nd)) else loop_exit c' nd
          | Fail e \<Rightarrow>
              if \<not> reply then loop_exit c' nd
              else let nd = send_frames (cv_ID c) [FrameError e] nd
                in (case e of FatalClientErr _ \<Rightarrow> loop_exit c' nd | ClientErr _ \<Rightarrow> Some (put_client c' nd))
        })"

section \<open>The pump of a client\<close>

definition put_pump :: "int \<Rightarrow> client_pump \<Rightarrow> 'b nsqd \<Rightarrow> 'b nsqd" where
  "put_pump i p nd = nd\<lparr>nd_pumps := (nd_pumps nd)(i := p)\<rparr>"

text \<open>The top of the loop: \<open>flush\<close> says whether the flush of the writer succeeds.\<close>

definition pump_top :: "bool \<Rightarrow> client_v2 \<Rightarrow> client_pump \<Rightarrow> 'b nsqd \<Rightarrow> client_pump option" where
  "pump_top flush c p nd =
     (case pu_subChannel p of
        None \<Rightarrow> Some (p\<lparr>pu_pc := if flush then InSelect False else PumpEnded\<rparr>)
      | Some _ \<Rightarrow> do {
          (_, ch) \<leftarrow> client_chan c nd;
          Some (if IsReadyForMessages (ch_paused ch) c then p\<lparr>pu_pc := InSelect True\<rparr>
            else p\<lparr>pu_pc := if flush then InSelect False else PumpEnded\<rparr>)
        })"

text \<open>The cases of the \<open>select\<close> that receive no message. The flusher leads to the top of the loop as well.\<close>

datatype client_event = OnReady | OnSub | OnIdentify | OnHeartbeat bool | OnFlush bool | OnExit

definition pump_select :: "client_event \<Rightarrow> client_v2 \<Rightarrow> client_pump \<Rightarrow> (client_v2 \<times> client_pump \<times> frame list) option" where
  "pump_select e c p =
     (let p' = p\<lparr>pu_pc := AtTop\<rparr>
      in case e of
           OnReady \<Rightarrow> if cv_ReadyState c then Some (c\<lparr>cv_ReadyState := False\<rparr>, p', []) else None
         | OnSub \<Rightarrow>
             if pu_subOpen p \<and> cv_SubEvent c \<noteq> None
             then Some (c\<lparr>cv_SubEvent := None\<rparr>, p'\<lparr>pu_subChannel := cv_SubEvent c, pu_subOpen := False\<rparr>, []) else None
         | OnIdentify \<Rightarrow>
             (case (if pu_identifyOpen p then cv_IdentifyEvent c else None) of
                None \<Rightarrow> None
              | Some d \<Rightarrow> Some (c\<lparr>cv_IdentifyEvent := None\<rparr>,
                  p'\<lparr>pu_identifyOpen := False, pu_sampleRate := if ie_SampleRate d > 0 then ie_SampleRate d else pu_sampleRate p,
                     pu_msgTimeout := ie_MsgTimeout d\<rparr>, []))
         | OnHeartbeat ok \<Rightarrow> if ok then Some (c, p', [FrameHeartbeat]) else Some (c, p\<lparr>pu_pc := PumpEnded\<rparr>, [])
         | OnFlush ok \<Rightarrow> if ok then Some (c, p', []) else Some (c, p\<lparr>pu_pc := PumpEnded\<rparr>, [])
         | OnExit \<Rightarrow> if cv_exited c then Some (c, p\<lparr>pu_pc := PumpEnded\<rparr>, []) else None)"

text \<open>Receiving a message from the memory queue or from the backend, with the random number \<open>r\<close>, and putting it in flight.\<close>

definition pump_receive ::
  "('b, 'e) backend \<Rightarrow> bool \<Rightarrow> int \<Rightarrow> int \<Rightarrow> int \<Rightarrow> client_pump \<Rightarrow> 'b nsqd \<Rightarrow> (client_pump \<times> 'b nsqd) option" where
  "pump_receive B memory r now i p nd =
     (if pu_pc p \<noteq> InSelect True then None
      else do {
        s \<leftarrow> pu_subChannel p;
        ch \<leftarrow> chan_at nd s;
        (m, ch) \<leftarrow> (if memory then pump_memory (pu_sampleRate p) r ch now i (pu_msgTimeout p)
                     else pump_backend B (pu_sampleRate p) r ch now i (pu_msgTimeout p));
        Some (p\<lparr>pu_pc := case m of None \<Rightarrow> AtTop | Some m \<Rightarrow> Sending m\<rparr>, set_chan s ch nd)
      })"

definition pump_send :: "bool \<Rightarrow> client_v2 \<Rightarrow> client_pump \<Rightarrow> (client_v2 \<times> client_pump \<times> frame list) option" where
  "pump_send ok c p =
     (case pu_pc p of
        Sending m \<Rightarrow> Some (if ok then (SendingMessage c, p\<lparr>pu_pc := AtTop\<rparr>, [FrameMessage m]) else (SendingMessage c, p\<lparr>pu_pc := PumpEnded\<rparr>, []))
      | _ \<Rightarrow> None)"

section \<open>What else happens to channels\<close>

text \<open>The calls of the clients' methods that the channels have made; \<open>Close\<close> closes the connection.\<close>

definition client_call :: "consumer_call \<Rightarrow> client_v2 \<Rightarrow> client_v2" where
  "client_call call c =
     (case call of
        CallPause \<Rightarrow> cv_Pause c
      | CallUnPause \<Rightarrow> cv_UnPause c
      | CallClose \<Rightarrow> c\<lparr>cv_Reader := []\<rparr>
      | CallTimedOutMessage \<Rightarrow> TimedOutMessage c
      | CallEmpty \<Rightarrow> cv_Empty c)"

definition make_call :: "int \<times> consumer_call \<Rightarrow> (int \<Rightarrow> client_v2 option) \<Rightarrow> int \<Rightarrow> client_v2 option" where
  "make_call x cs = (case x of (i, call) \<Rightarrow> cs(i := map_option (client_call call) (cs i)))"

definition make_calls :: "'b nsqd \<Rightarrow> nat \<times> nat \<Rightarrow> 'b nsqd" where
  "make_calls nd p =
     (case chan_at nd p of
        None \<Rightarrow> nd
      | Some ch \<Rightarrow> (set_chan p (ch\<lparr>ch_calls := []\<rparr>) nd)\<lparr>nd_clients := fold make_call (ch_calls ch) (nd_clients nd)\<rparr>)"

definition take_calls :: "nat \<Rightarrow> 'b nsqd \<Rightarrow> 'b nsqd" where
  "take_calls k nd =
     (case topic_at nd k of None \<Rightarrow> nd | Some t \<Rightarrow> foldl make_calls nd (map (Pair k) [0..<length (t_store t)]))"

text \<open>\<open>queueScanWorker\<close> on one channel.\<close>

definition scan_channel :: "('b, 'e) backend \<Rightarrow> int \<Rightarrow> 'b channel \<Rightarrow> (bool \<times> 'b channel) option" where
  "scan_channel B now ch = do {
     (d1, ch) \<leftarrow> processInFlightQueue B ch now;
     (d2, ch) \<leftarrow> processDeferredQueue B ch now;
     Some (d1 \<or> d2, ch)
   }"

datatype chan_event = ScanChannel int | EmptyChannel | PauseChannel bool

definition on_channel :: "('b, 'e) backend \<Rightarrow> nsqd_options \<Rightarrow> chan_event \<Rightarrow> 'b channel \<Rightarrow> 'b channel option" where
  "on_channel B opts e ch =
     (case e of
        ScanChannel now \<Rightarrow> map_option snd (scan_channel B now ch)
      | EmptyChannel \<Rightarrow> map_option snd (ch_Empty B (op_MemQueueSize opts) ch)
      | PauseChannel b \<Rightarrow> Some (doPause ch b))"

text \<open>\<open>exit\<close> of a topic: it waits until the pump has ended.\<close>

definition t_exit :: "('b, 'e) backend \<Rightarrow> int \<Rightarrow> bool \<Rightarrow> 'b topic \<Rightarrow> ('e topic_error option \<times> 'b topic) option" where
  "t_exit B memQueueSize deleted t =
     (case t_exit_begin t of
        (Some e, t) \<Rightarrow> Some (Some e, t)
      | (None, t) \<Rightarrow> do { t \<leftarrow> pump_step B (\<lambda>_. 0) RecvExit t; t_exit_finish B memQueueSize deleted t })"

datatype topic_event = PumpEvent pump_event "nat \<Rightarrow> int" | DeleteChannel string | CloseTopic | PauseTopic bool

definition on_topic :: "('b, 'e) backend \<Rightarrow> nsqd_options \<Rightarrow> topic_event \<Rightarrow> 'b topic \<Rightarrow> 'b topic option" where
  "on_topic B opts e t =
     (case e of
        PumpEvent ev clock \<Rightarrow> if pump_ready B t ev then pump_step B clock ev t else None
      | DeleteChannel name \<Rightarrow> do { (_, t) \<leftarrow> DeleteExistingChannel B (op_MemQueueSize opts) t name; await_pump B t }
      | CloseTopic \<Rightarrow> map_option snd (t_exit B (op_MemQueueSize opts) False t)
      | PauseTopic b \<Rightarrow> Some (t_doPause t b))"

definition at_topic :: "('b, 'e) backend \<Rightarrow> nsqd_options \<Rightarrow> topic_event \<Rightarrow> nat \<Rightarrow> 'b nsqd \<Rightarrow> 'b nsqd option" where
  "at_topic B opts e k nd = do {
     t \<leftarrow> topic_at nd k;
     t \<leftarrow> on_topic B opts e t;
     Some (take_calls k (set_topic k t nd))
   }"

text \<open>\<open>None\<close> is the error that the topic does not exist.\<close>

definition GetExistingTopic :: "string \<Rightarrow> 'b nsqd \<Rightarrow> nat option" where
  "GetExistingTopic name nd = map_of (nd_topicMap nd) name"

text \<open>The result is whether the topic existed; the error of the topic's own deletion is dropped.\<close>

definition DeleteExistingTopic :: "('b, 'e) backend \<Rightarrow> nsqd_options \<Rightarrow> string \<Rightarrow> 'b nsqd \<Rightarrow> (bool \<times> 'b nsqd) option" where
  "DeleteExistingTopic B opts name nd =
     (case map_of (nd_topicMap nd) name of
        None \<Rightarrow> Some (False, nd)
      | Some k \<Rightarrow> do {
          t \<leftarrow> topic_at nd k;
          (_, t) \<leftarrow> t_exit B (op_MemQueueSize opts) True t;
          let nd = take_calls k (set_topic k t nd);
          Some (True, nd\<lparr>nd_topicMap := filter (\<lambda>(n, _). n \<noteq> name) (nd_topicMap nd)\<rparr>)
        })"

definition at_channel :: "('b, 'e) backend \<Rightarrow> nsqd_options \<Rightarrow> chan_event \<Rightarrow> nat \<times> nat \<Rightarrow> 'b nsqd \<Rightarrow> 'b nsqd option" where
  "at_channel B opts e p nd = do {
     ch \<leftarrow> chan_at nd p;
     ch \<leftarrow> on_channel B opts e ch;
     Some (take_calls (fst p) (set_chan p ch nd))
   }"

section \<open>Steps\<close>

datatype 'b nsqd_event =
  Accept string bytes
| Round int "'b cmd_env" bool
| PumpTop int bool
| PumpSelect int client_event
| PumpReceive int bool int int
| PumpSend int bool
| OnChannel "nat \<times> nat" chan_event
| OnTopic nat topic_event
| RemoveTopic string

definition nsqd_step :: "('b, 'e) backend \<Rightarrow> nsqd_options \<Rightarrow> 'b nsqd_event \<Rightarrow> 'b nsqd \<Rightarrow> 'b nsqd option" where
  "nsqd_step B opts e nd =
     (case e of
        Accept identifier input \<Rightarrow> Some (accept opts identifier input nd)
      | Round i env reply \<Rightarrow> do {
          c \<leftarrow> nd_clients nd i;
          if cv_exited c then None else IOLoop_round B opts env reply c nd
        }
      | PumpTop i flush \<Rightarrow> do {
          c \<leftarrow> nd_clients nd i;
          if pu_pc (nd_pumps nd i) \<noteq> AtTop then None
          else do { p \<leftarrow> pump_top flush c (nd_pumps nd i) nd; Some (put_pump i p nd) }
        }
      | PumpSelect i ev \<Rightarrow> do {
          c \<leftarrow> nd_clients nd i;
          case pu_pc (nd_pumps nd i) of
            InSelect _ \<Rightarrow> do { (c, p, fs) \<leftarrow> pump_select ev c (nd_pumps nd i); Some (send_frames i fs (put_client c (put_pump i p nd))) }
          | _ \<Rightarrow> None
        }
      | PumpReceive i memory r now \<Rightarrow> do {
          _ \<leftarrow> nd_clients nd i;
          (p, nd) \<leftarrow> pump_receive B memory r now i (nd_pumps nd i) nd;
          Some (put_pump i p nd)
        }
      | PumpSend i ok \<Rightarrow> do {
          c \<leftarrow> nd_clients nd i;
          (c, p, fs) \<leftarrow> pump_send ok c (nd_pumps nd i);
          Some (send_frames i fs (put_client c (put_pump i p nd)))
        }
      | OnChannel p ev \<Rightarrow> at_channel B opts ev p nd
      | OnTopic k ev \<Rightarrow> at_topic B opts ev k nd
      | RemoveTopic name \<Rightarrow> map_option snd (DeleteExistingTopic B opts name nd))"

inductive nsqd_reach :: "('b, 'e) backend \<Rightarrow> nsqd_options \<Rightarrow> 'b nsqd \<Rightarrow> bool" for B opts where
  nsqd_start: "nsqd_reach B opts nsqd_New"
| nsqd_step: "nsqd_reach B opts nd \<Longrightarrow> nsqd_step B opts e nd = Some nd' \<Longrightarrow> nsqd_reach B opts nd'"

section \<open>Rules for results\<close>

text \<open>What holds of every result, along the way the commands are composed.\<close>

lemma result_None: "pred_option Q None"
  by simp

lemma result_Some: "Q x \<Longrightarrow> pred_option Q (Some x)"
  by simp

lemma result_fatal: "pred_option Q (Some (Fail (FatalClientErr code), c, nd)) \<Longrightarrow> pred_option Q (fatal code c nd)"
  by (simp add: fatal_def)

lemma result_bind: "(\<And>x. m = Some x \<Longrightarrow> pred_option Q (f x)) \<Longrightarrow> pred_option Q (Option.bind m f)"
  by (cases m) simp_all

lemma result_if: "(b \<Longrightarrow> pred_option Q r) \<Longrightarrow> (\<not> b \<Longrightarrow> pred_option Q r') \<Longrightarrow> pred_option Q (if b then r else r')"
  by simp

lemma result_prod: "(\<And>a b. x = (a, b) \<Longrightarrow> pred_option Q (f a b)) \<Longrightarrow> pred_option Q (case x of (a, b) \<Rightarrow> f a b)"
  by (cases x) simp

lemma result_option:
  "(x = None \<Longrightarrow> pred_option Q r) \<Longrightarrow> (\<And>y. x = Some y \<Longrightarrow> pred_option Q (f y)) \<Longrightarrow> pred_option Q (case x of None \<Rightarrow> r | Some y \<Rightarrow> f y)"
  by (cases x) simp_all

lemma result_sum:
  "(\<And>y. x = Inl y \<Longrightarrow> pred_option Q (f y)) \<Longrightarrow> (\<And>y. x = Inr y \<Longrightarrow> pred_option Q (g y)) \<Longrightarrow>
     pred_option Q (case x of Inl y \<Rightarrow> f y | Inr y \<Rightarrow> g y)"
  by (cases x) simp_all

lemmas result_rules = result_None result_fatal result_bind result_if result_prod result_option result_sum

end
