(* ===== verification/Nsq_Daemon.thy ===== *)
theory Nsq_Daemon
  imports Nsq_Protocol Go_Float
begin

text \<open>
  The parts of \<open>nsqd/nsqd.go\<close> around its topics: the file that keeps the names of topics and channels over a restart, and the loop that
  scans random channels for overdue messages, with \<open>UniqRands\<close> of \<open>internal/util/rand.go\<close>. JSON and the random
  numbers are parameters. Files are a map from names to contents; which operation on a file fails is an argument.
\<close>

section \<open>Metadata\<close>

record topic_meta =
  tm_Name :: string
  tm_Paused :: bool
  tm_Channels :: "(string \<times> bool) list"

type_synonym files = "string \<Rightarrow> bytes option"

text \<open>How the operations on the temporary file end: all succeed, it cannot be opened, only some bytes are written, or they cannot be synchronized.\<close>

datatype io = IoOk | OpenFails | WriteFails nat | SyncFails

definition newMetadataFile :: "string \<Rightarrow> string" where
  "newMetadataFile dataPath = dataPath @ ''/nsqd.dat''"

definition writeSyncFile :: "io \<Rightarrow> string \<Rightarrow> bytes \<Rightarrow> files \<Rightarrow> bool \<times> files" where
  "writeSyncFile io fn data fs =
     (case io of
        OpenFails \<Rightarrow> (False, fs)
      | WriteFails n \<Rightarrow> (False, fs(fn \<mapsto> take n data))
      | SyncFails \<Rightarrow> (False, fs(fn \<mapsto> data))
      | IoOk \<Rightarrow> (True, fs(fn \<mapsto> data)))"

fun channel_metas :: "'b topic \<Rightarrow> (string \<times> nat) list \<Rightarrow> (string \<times> bool) list option" where
  "channel_metas t [] = Some []"
| "channel_metas t ((_, j) # cs) = do {
     ch \<leftarrow> store_at t j;
     ms \<leftarrow> channel_metas t cs;
     Some (if ch_ephemeral ch then ms else (ch_name ch, ch_paused ch) # ms)
   }"

fun topic_metas :: "'b nsqd \<Rightarrow> (string \<times> nat) list \<Rightarrow> topic_meta list option" where
  "topic_metas nd [] = Some []"
| "topic_metas nd ((_, k) # ts) = do {
     t \<leftarrow> topic_at nd k;
     ms \<leftarrow> topic_metas nd ts;
     if t_ephemeral t then Some ms
     else do {
       cs \<leftarrow> channel_metas t (t_channelMap t);
       Some (\<lparr>tm_Name = t_name t, tm_Paused = t_paused t, tm_Channels = cs\<rparr> # ms)
     }
   }"

definition metadata :: "'b nsqd \<Rightarrow> topic_meta list option" where
  "metadata nd = topic_metas nd (nd_topicMap nd)"

text \<open>\<open>r\<close> are the digits of the random number in the name of the temporary file; \<open>renamed\<close> says whether the last step succeeds.\<close>

definition PersistMetadata ::
  "(topic_meta list \<Rightarrow> bytes) \<Rightarrow> string \<Rightarrow> io \<Rightarrow> bool \<Rightarrow> string \<Rightarrow> 'b nsqd \<Rightarrow> files \<Rightarrow> (bool \<times> files) option" where
  "PersistMetadata encode dataPath io renamed r nd fs = do {
     ms \<leftarrow> metadata nd;
     let fileName = newMetadataFile dataPath;
     let tmpFileName = fileName @ ''.'' @ r @ ''.tmp'';
     let (ok, fs) = writeSyncFile io tmpFileName (encode ms) fs;
     Some (if \<not> ok then (False, fs)
       else if \<not> renamed then (False, fs)
       else (True, fs(fileName := fs tmpFileName, tmpFileName := None)))
   }"

text \<open>A goroutine that has paused a topic waits until the pump has noticed.\<close>

definition await_pause :: "('b, 'e) backend \<Rightarrow> 'b topic \<Rightarrow> 'b topic option" where
  "await_pause B t = (if t_pc t = PumpExited then Some (pause_gives_up t) else pump_step B (\<lambda>_. 0) RecvPause t)"

fun load_channels ::
  "('b, 'e) backend \<Rightarrow> int \<Rightarrow> (string \<Rightarrow> 'b) \<Rightarrow> (string \<times> bool) list \<Rightarrow> 'b topic \<Rightarrow> 'b topic option" where
  "load_channels B memQueueSize openq [] t = Some t"
| "load_channels B memQueueSize openq ((name, paused) # cs) t =
     (if \<not> isValidName name then load_channels B memQueueSize openq cs t
      else do {
        (j, t) \<leftarrow> GetChannel_wait B memQueueSize openq t name;
        ch \<leftarrow> store_at t j;
        load_channels B memQueueSize openq cs (if paused then t\<lparr>t_store := (t_store t)[j := doPause ch True]\<rparr> else t)
      })"

fun load_topics :: "('b, 'e) backend \<Rightarrow> nsqd_options \<Rightarrow> 'b cmd_env \<Rightarrow> topic_meta list \<Rightarrow> 'b nsqd \<Rightarrow> 'b nsqd option" where
  "load_topics B opts env [] nd = Some nd"
| "load_topics B opts env (m # ms) nd =
     (if \<not> isValidName (tm_Name m) then load_topics B opts env ms nd
      else do {
        (k, nd) \<leftarrow> GetTopic B opts env (tm_Name m) nd;
        t \<leftarrow> topic_at nd k;
        t \<leftarrow> (if tm_Paused m then await_pause B (t_doPause t True) else Some t);
        t \<leftarrow> load_channels B (op_MemQueueSize opts) (ce_openChannel env (tm_Name m)) (tm_Channels m) t;
        load_topics B opts env ms (set_topic k (t_Start t) nd)
      })"

text \<open>\<open>readable\<close> says whether the file can be read if it exists. The result is whether there was no error.\<close>

definition LoadMetadata ::
  "('b, 'e) backend \<Rightarrow> (bytes \<Rightarrow> topic_meta list option) \<Rightarrow> nsqd_options \<Rightarrow> 'b cmd_env \<Rightarrow> string \<Rightarrow> bool \<Rightarrow> files \<Rightarrow> 'b nsqd \<Rightarrow>
     (bool \<times> 'b nsqd) option" where
  "LoadMetadata B decode opts env dataPath readable fs nd =
     (let nd = nd\<lparr>nd_isLoading := True\<rparr>; stop = (\<lambda>ok nd. Some (ok, nd\<lparr>nd_isLoading := False\<rparr>))
      in case fs (newMetadataFile dataPath) of
           None \<Rightarrow> stop True nd
         | Some data \<Rightarrow>
             if \<not> readable then stop False nd
             else (case decode data of
                     None \<Rightarrow> stop False nd
                   | Some ms \<Rightarrow> do { nd \<leftarrow> load_topics B opts env ms nd; stop True nd }))"

text \<open>\<open>Exit\<close>: the metadata and the topics, after the listeners were closed. Errors are logged only.\<close>

fun close_topics :: "('b, 'e) backend \<Rightarrow> nsqd_options \<Rightarrow> (string \<times> nat) list \<Rightarrow> 'b nsqd \<Rightarrow> 'b nsqd option" where
  "close_topics B opts [] nd = Some nd"
| "close_topics B opts ((_, k) # ts) nd = do { nd \<leftarrow> at_topic B opts CloseTopic k nd; close_topics B opts ts nd }"

definition nsqd_Exit ::
  "('b, 'e) backend \<Rightarrow> (topic_meta list \<Rightarrow> bytes) \<Rightarrow> nsqd_options \<Rightarrow> string \<Rightarrow> io \<Rightarrow> bool \<Rightarrow> string \<Rightarrow> 'b nsqd \<Rightarrow> files \<Rightarrow>
     (files \<times> 'b nsqd) option" where
  "nsqd_Exit B encode opts dataPath io renamed r nd fs = do {
     (_, fs) \<leftarrow> PersistMetadata encode dataPath io renamed r nd fs;
     nd \<leftarrow> close_topics B opts (nd_topicMap nd) nd;
     Some (fs, nd)
   }"

section \<open>The scan loop\<close>

text \<open>\<open>UniqRands\<close>: \<open>rand i\<close> is the random number of round \<open>i\<close>, \<open>k\<close> the number of rounds to go.\<close>

fun uniq_loop :: "(nat \<Rightarrow> int) \<Rightarrow> nat \<Rightarrow> nat \<Rightarrow> int \<Rightarrow> int list \<Rightarrow> int list option" where
  "uniq_loop rand 0 i maxval xs = Some xs"
| "uniq_loop rand (Suc k) i maxval xs = do {
     r \<leftarrow> go_mod (rand i) maxval;
     let j = r + int i;
     a \<leftarrow> go_nth xs j;
     b \<leftarrow> go_nth xs (int i);
     xs \<leftarrow> go_upd xs (int i) a;
     xs \<leftarrow> go_upd xs j b;
     uniq_loop rand k (i + 1) (maxval - 1) xs
   }"

definition UniqRands :: "(nat \<Rightarrow> int) \<Rightarrow> int \<Rightarrow> int \<Rightarrow> int list option" where
  "UniqRands rand quantity maxval = do {
     let quantity = (if maxval < quantity then maxval else quantity);
     intSlice \<leftarrow> go_make (0 :: int) maxval;
     let intSlice = map int [0..<length intSlice];
     intSlice \<leftarrow> uniq_loop rand (nat quantity) 0 maxval intSlice;
     go_slice intSlice 0 quantity
   }"

record scan_options =
  so_SelectionCount :: int
  so_WorkerPoolMax :: int
  so_DirtyPercent :: rat

text \<open>The list of channels that the loop has cached, and the number of workers.\<close>

record scanner =
  sc_channels :: "(nat \<times> nat) list"
  sc_poolSize :: int

definition nsqd_channels :: "'b nsqd \<Rightarrow> (nat \<times> nat) list" where
  "nsqd_channels nd =
     concat (map (\<lambda>(_, k). case topic_at nd k of None \<Rightarrow> [] | Some t \<Rightarrow> map (\<lambda>(_, j). (k, j)) (t_channelMap t)) (nd_topicMap nd))"

text \<open>\<open>int(float64(num) * 0.25)\<close> is exact for fewer than \<open>2^53\<close> channels.\<close>

definition idealPoolSize :: "scan_options \<Rightarrow> int \<Rightarrow> int" where
  "idealPoolSize so num =
     (let p = num div 4 in if p < 1 then 1 else if p > so_WorkerPoolMax so then so_WorkerPoolMax so else p)"

function resize_loop :: "int \<Rightarrow> int \<Rightarrow> int" where
  "resize_loop ideal poolSize =
     (if ideal = poolSize then poolSize
      else if ideal < poolSize then resize_loop ideal (poolSize - 1) else resize_loop ideal (poolSize + 1))"
  by pat_completeness auto
termination by (relation "measure (\<lambda>(ideal, poolSize). nat \<bar>ideal - poolSize\<bar>)") auto

definition resizePool :: "scan_options \<Rightarrow> int \<Rightarrow> scanner \<Rightarrow> scanner" where
  "resizePool so num sc = sc\<lparr>sc_poolSize := resize_loop (idealPoolSize so num) (sc_poolSize sc)\<rparr>"

definition scan_refresh :: "scan_options \<Rightarrow> 'b nsqd \<Rightarrow> scanner \<Rightarrow> scanner" where
  "scan_refresh so nd sc = (let cs = nsqd_channels nd in resizePool so (int (length cs)) (sc\<lparr>sc_channels := cs\<rparr>))"

text \<open>A worker on one channel. The channels of a round are different ones, so the workers are modelled one after the other.\<close>

definition scan_one :: "('b, 'e) backend \<Rightarrow> int \<Rightarrow> nat \<times> nat \<Rightarrow> 'b nsqd \<Rightarrow> (bool \<times> 'b nsqd) option" where
  "scan_one B now p nd = do {
     ch \<leftarrow> chan_at nd p;
     (dirty, ch) \<leftarrow> scan_channel B now ch;
     Some (dirty, take_calls (fst p) (set_chan p ch nd))
   }"

fun scan_all :: "('b, 'e) backend \<Rightarrow> (nat \<Rightarrow> int) \<Rightarrow> nat \<Rightarrow> (nat \<times> nat) list \<Rightarrow> int list \<Rightarrow> 'b nsqd \<Rightarrow> (int \<times> 'b nsqd) option" where
  "scan_all B nows i channels [] nd = Some (0, nd)"
| "scan_all B nows i channels (j # js) nd = do {
     p \<leftarrow> go_nth channels j;
     (dirty, nd) \<leftarrow> scan_one B (nows i) p nd;
     (n, nd) \<leftarrow> scan_all B nows (i + 1) channels js nd;
     Some (if dirty then n + 1 else n, nd)
   }"

text \<open>The round at the label \<open>loop\<close>: whether there is to be another one at once. Without workers it waits for an answer forever, and
  the quotient of no channels is not a number.\<close>

definition scan_round ::
  "('b, 'e) backend \<Rightarrow> scan_options \<Rightarrow> (nat \<Rightarrow> int) \<Rightarrow> (nat \<Rightarrow> int) \<Rightarrow> scanner \<Rightarrow> 'b nsqd \<Rightarrow> (bool \<times> 'b nsqd) option" where
  "scan_round B so rand nows sc nd = do {
     let len = int (length (sc_channels sc));
     let num = (if so_SelectionCount so > len then len else so_SelectionCount so);
     js \<leftarrow> UniqRands rand num len;
     if num > 0 \<and> sc_poolSize sc < 1 then None
     else do {
       (numDirty, nd) \<leftarrow> scan_all B nows 0 (sc_channels sc) js nd;
       Some (num \<noteq> 0 \<and> fl (of_int numDirty / of_int num) > so_DirtyPercent so, nd)
     }
   }"

text \<open>A tick of the timer: rounds with the given random numbers and readings of the clock, until one is not dirty enough.\<close>

fun scan_tick ::
  "('b, 'e) backend \<Rightarrow> scan_options \<Rightarrow> ((nat \<Rightarrow> int) \<times> (nat \<Rightarrow> int)) list \<Rightarrow> scanner \<Rightarrow> 'b nsqd \<Rightarrow> 'b nsqd option" where
  "scan_tick B so [] sc nd = (if sc_channels sc = [] then Some nd else None)"
| "scan_tick B so ((rand, nows) # rounds) sc nd =
     (if sc_channels sc = [] then Some nd
      else do {
        (again, nd) \<leftarrow> scan_round B so rand nows sc nd;
        if again then scan_tick B so rounds sc nd else Some nd
      })"

end
