(* ===== verification/Nsq_Flow.thy ===== *)
theory Nsq_Flow
  imports Nsq_Protocol
begin

text \<open>
  Flow control of \<open>nsqd\<close>: when the commands of the clients, the timeout scans, and the emptying, closing and deleting of channels each run
  without interruption, in any order and between any steps of the pumps, a client never has more messages in flight than the largest ready count.
\<close>

section \<open>Channels\<close>

text \<open>The number of messages in flight to a client, and what the calls of a channel make of the counter of a client.\<close>

definition in_flight :: "'b channel \<Rightarrow> int \<Rightarrow> nat" where
  "in_flight ch i = length (filter (\<lambda>(_, m). msg_clientID m = i) (ch_inFlightMessages ch))"

fun after_calls :: "int \<Rightarrow> (int \<times> consumer_call) list \<Rightarrow> int \<Rightarrow> int" where
  "after_calls i [] n = n"
| "after_calls i ((j, call) # xs) n =
     after_calls i xs (if j = i then case call of CallTimedOutMessage \<Rightarrow> n - 1 | CallEmpty \<Rightarrow> 0 | _ \<Rightarrow> n else n)"

lemma after_calls_append: "after_calls i (xs @ ys) n = after_calls i ys (after_calls i xs n)"
  by (induction i xs n rule: after_calls.induct) auto

lemma after_calls_le: "after_calls i xs n \<le> max 0 n"
  by (induction i xs n rule: after_calls.induct) (fastforce split: consumer_call.splits if_splits)+

lemma after_calls_other: "i \<notin> fst ` set xs \<Longrightarrow> after_calls i xs n = n"
  by (induction i xs n rule: after_calls.induct) auto

text \<open>A change of a channel that settles the counters of its clients by the calls that it makes.\<close>

definition settles :: "'b channel \<Rightarrow> 'b channel \<Rightarrow> bool" where
  "settles ch ch' \<longleftrightarrow> ch_clients ch' = ch_clients ch \<and>
     (\<exists>xs. ch_calls ch' = ch_calls ch @ xs \<and> fst ` set xs \<subseteq> set (ch_clients ch) \<and>
       (\<forall>i n s. 0 \<le> s \<longrightarrow> int (in_flight ch i) \<le> n + s \<longrightarrow> int (in_flight ch' i) \<le> after_calls i xs n + s))"

lemma settlesI:
  assumes "ch_clients ch' = ch_clients ch" "ch_calls ch' = ch_calls ch @ xs" "fst ` set xs \<subseteq> set (ch_clients ch)"
    "\<And>i n s. 0 \<le> s \<Longrightarrow> int (in_flight ch i) \<le> n + s \<Longrightarrow> int (in_flight ch' i) \<le> after_calls i xs n + s"
  shows "settles ch ch'"
  using assms unfolding settles_def by blast

lemma settles_same [intro]:
  "ch_clients ch' = ch_clients ch \<Longrightarrow> ch_calls ch' = ch_calls ch \<Longrightarrow> ch_inFlightMessages ch' = ch_inFlightMessages ch \<Longrightarrow> settles ch ch'"
  by (rule settlesI [where xs = "[]"]) (auto simp: in_flight_def)

lemma settles_trans [trans]:
  assumes "settles a b" "settles b c"
  shows "settles a c"
proof -
  from assms(1) obtain xs where
    x: "ch_clients b = ch_clients a" "ch_calls b = ch_calls a @ xs" "fst ` set xs \<subseteq> set (ch_clients a)"
      "\<And>i n s. 0 \<le> s \<Longrightarrow> int (in_flight a i) \<le> n + s \<Longrightarrow> int (in_flight b i) \<le> after_calls i xs n + s"
    unfolding settles_def by blast
  from assms(2) obtain ys where
    y: "ch_clients c = ch_clients b" "ch_calls c = ch_calls b @ ys" "fst ` set ys \<subseteq> set (ch_clients b)"
      "\<And>i n s. 0 \<le> s \<Longrightarrow> int (in_flight b i) \<le> n + s \<Longrightarrow> int (in_flight c i) \<le> after_calls i ys n + s"
    unfolding settles_def by blast
  show ?thesis
  proof (rule settlesI [where xs = "xs @ ys"])
    show "int (in_flight c i) \<le> after_calls i (xs @ ys) n + s" if "0 \<le> s" "int (in_flight a i) \<le> n + s" for i n s
      unfolding after_calls_append using x(4) [OF that] by (rule y(4) [OF that(1)])
  qed (use x(1-3) y(1-3) in \<open>simp_all add: image_Un\<close>)
qed

definition fresh :: "'b channel \<Rightarrow> bool" where
  "fresh ch \<longleftrightarrow> ch_clients ch = [] \<and> ch_calls ch = [] \<and> (\<forall>i. in_flight ch i = 0)"

lemma settles_fresh:
  assumes "settles ch ch'" "fresh ch"
  shows "fresh ch'"
proof -
  from assms obtain xs where xs: "ch_clients ch' = []" "ch_calls ch' = xs" "fst ` set xs \<subseteq> {}"
    "\<And>i n s. 0 \<le> s \<Longrightarrow> int (in_flight ch i) \<le> n + s \<Longrightarrow> int (in_flight ch' i) \<le> after_calls i xs n + s"
    unfolding settles_def fresh_def by auto
  have "xs = []" using xs(3) by simp
  with xs(4) [of 0 _ 0] assms(2) xs(1, 2) show ?thesis by (simp add: fresh_def)
qed

subsection \<open>Messages in flight\<close>

lemma in_flight_pop:
  assumes "popInFlightMessage ch j i = (Inr msg, ch')"
  shows "in_flight ch' j < in_flight ch j" "in_flight ch' k \<le> in_flight ch k" "msg_clientID msg = j"
    "ch_clients ch' = ch_clients ch" "ch_calls ch' = ch_calls ch" "ch_inFlightPQ ch' = ch_inFlightPQ ch"
proof -
  from assms have m: "map_of (ch_inFlightMessages ch) i = Some msg" "msg_clientID msg = j"
    "ch' = ch\<lparr>ch_inFlightMessages := del i (ch_inFlightMessages ch)\<rparr>"
    by (auto simp: popInFlightMessage_def split: option.splits if_splits)
  have le: "length (filter P (del i xs)) \<le> length (filter P xs)" for P and xs :: "(bytes \<times> message) list"
    by (induction xs) (auto simp: del_def)
  have "length (filter (\<lambda>(_, m). msg_clientID m = j) (del i xs)) < length (filter (\<lambda>(_, m). msg_clientID m = j) xs)"
    if "(i, msg) \<in> set xs" for xs
    using that m(2) le [of "\<lambda>(_, m). msg_clientID m = j"] by (induction xs) (auto simp: del_def less_Suc_eq_le)
  with m map_of_SomeD [OF m(1)] le show "in_flight ch' j < in_flight ch j" "in_flight ch' k \<le> in_flight ch k" "msg_clientID msg = j"
    "ch_clients ch' = ch_clients ch" "ch_calls ch' = ch_calls ch" "ch_inFlightPQ ch' = ch_inFlightPQ ch"
    by (auto simp: in_flight_def)
qed

lemma pop_fails: "popInFlightMessage ch j i = (Inl e, ch') \<Longrightarrow> ch' = ch"
  by (auto simp: popInFlightMessage_def split: option.splits if_splits)

lemma remove_pq_same:
  "removeFromInFlightPQ ch msg = Some ch' \<Longrightarrow> ch_clients ch' = ch_clients ch \<and> ch_calls ch' = ch_calls ch \<and> ch_inFlightMessages ch' = ch_inFlightMessages ch"
  by (auto simp: removeFromInFlightPQ_def bind_eq_Some_conv split: if_splits)

lemma add_pq_same:
  "addToInFlightPQ ch msg pri = Some ch' \<Longrightarrow> ch_clients ch' = ch_clients ch \<and> ch_calls ch' = ch_calls ch \<and> ch_inFlightMessages ch' = ch_inFlightMessages ch"
  by (auto simp: addToInFlightPQ_def bind_eq_Some_conv)

lemma ch_put_same:
  "ch_put B ch m = Some (e, ch') \<Longrightarrow> ch_clients ch' = ch_clients ch \<and> ch_calls ch' = ch_calls ch \<and> ch_inFlightMessages ch' = ch_inFlightMessages ch"
  by (auto simp: ch_put_def bind_eq_Some_conv split: option.splits if_splits)

lemma deferred_same:
  "StartDeferredTimeout ch now m d = Some (e, ch') \<Longrightarrow>
     ch_clients ch' = ch_clients ch \<and> ch_calls ch' = ch_calls ch \<and> ch_inFlightMessages ch' = ch_inFlightMessages ch"
  by (auto simp: StartDeferredTimeout_def pushDeferredMessage_def addToDeferredPQ_def bind_eq_Some_conv Let_def split: if_splits)

text \<open>What the commands of a client do.\<close>

lemma pop_remove:
  assumes "popInFlightMessage ch j i = (Inr msg, ch1)" "removeFromInFlightPQ ch1 msg = Some ch2"
  shows "ch_clients ch2 = ch_clients ch" "ch_calls ch2 = ch_calls ch" "in_flight ch2 k \<le> in_flight ch k" "in_flight ch2 j < in_flight ch j"
    "msg_clientID msg = j"
  using in_flight_pop(1, 3-) [OF assms(1)] in_flight_pop(2) [OF assms(1), of k] remove_pq_same [OF assms(2)] by (auto simp: in_flight_def)

lemma finish_flow:
  assumes "FinishMessage ch j i = Some (e :: 'e channel_error option, ch')"
  shows "ch_clients ch' = ch_clients ch \<and> ch_calls ch' = ch_calls ch \<and> (\<forall>k. in_flight ch' k \<le> in_flight ch k) \<and>
    (e = None \<longrightarrow> in_flight ch' j < in_flight ch j)"
proof (cases "popInFlightMessage ch j i :: ('e channel_error + message) \<times> _")
  case (Pair r ch1)
  with assms pop_fails [of ch j i] pop_remove [of ch j i] show ?thesis
    by (cases r) (auto simp: FinishMessage_def bind_eq_Some_conv)
qed

lemma requeue_flow:
  assumes "RequeueMessage B ch now j i d = Some (e :: 'e channel_error option, ch')"
  shows "ch_clients ch' = ch_clients ch \<and> ch_calls ch' = ch_calls ch \<and> (\<forall>k. in_flight ch' k \<le> in_flight ch k) \<and>
    (e = None \<longrightarrow> in_flight ch' j < in_flight ch j)"
proof (cases "popInFlightMessage ch j i :: ('e channel_error + message) \<times> _")
  case (Pair r ch1)
  show ?thesis
  proof (cases r)
    case (Inl e')
    with Pair assms pop_fails [of ch j i e' ch1] show ?thesis by (auto simp: RequeueMessage_def requeue_take_def)
  next
    case (Inr msg)
    with Pair assms obtain ch2 where
      r: "removeFromInFlightPQ ch1 msg = Some ch2" "requeue_put B (ch2\<lparr>ch_requeueCount := ch_requeueCount ch2 + 1\<rparr>) now msg d = Some (e, ch')"
      by (auto simp: RequeueMessage_def requeue_take_def bind_eq_Some_conv)
    have "ch_clients ch' = ch_clients ch2 \<and> ch_calls ch' = ch_calls ch2 \<and> ch_inFlightMessages ch' = ch_inFlightMessages ch2"
      using r(2) ch_put_same deferred_same by (fastforce simp: requeue_put_def split: if_splits)
    with pop_remove [OF Pair [unfolded Inr] r(1)] show ?thesis by (auto simp: in_flight_def)
  qed
qed

lemma push_flow:
  assumes "pushInFlightMessage ch msg = (e, ch')"
  shows "ch_clients ch' = ch_clients ch \<and> ch_calls ch' = ch_calls ch \<and>
    in_flight ch' k \<le> in_flight ch k + (if k = msg_clientID msg then 1 else 0)"
  using assms by (auto simp: pushInFlightMessage_def in_flight_def split: if_splits)

lemma touch_flow:
  assumes "TouchMessage mx ch now j i d = Some (e :: 'e channel_error option, ch')"
  shows "ch_clients ch' = ch_clients ch \<and> ch_calls ch' = ch_calls ch \<and> (\<forall>k. in_flight ch' k \<le> in_flight ch k)"
proof (cases "popInFlightMessage ch j i :: ('e channel_error + message) \<times> _")
  case (Pair r ch1)
  show ?thesis
  proof (cases r)
    case (Inl e')
    with Pair assms pop_fails [of ch j i e' ch1] show ?thesis by (auto simp: TouchMessage_def)
  next
    case (Inr msg)
    obtain ch2 where r: "removeFromInFlightPQ ch1 msg = Some ch2" using assms Pair Inr by (auto simp: TouchMessage_def bind_eq_Some_conv)
    obtain e' ch3 where p: "(pushInFlightMessage ch2 msg :: 'e channel_error option \<times> _) = (e', ch3)" by (cases "pushInFlightMessage ch2 msg :: 'e channel_error option \<times> _")
    have "ch_clients ch' = ch_clients ch3 \<and> ch_calls ch' = ch_calls ch3 \<and> ch_inFlightMessages ch' = ch_inFlightMessages ch3"
      using assms Pair Inr r p add_pq_same by (fastforce simp: TouchMessage_def bind_eq_Some_conv Let_def split: if_splits)
    moreover have "in_flight ch3 k \<le> in_flight ch k" for k
      using push_flow [OF p, of k] pop_remove(3) [OF Pair [unfolded Inr] r, of k] pop_remove(4, 5) [OF Pair [unfolded Inr] r] by (auto split: if_splits)
    ultimately show ?thesis using push_flow [OF p] pop_remove(1, 2) [OF Pair [unfolded Inr] r] by (auto simp: in_flight_def)
  qed
qed

lemma start_flow:
  assumes "StartInFlightTimeout ch now msg j d = Some (e :: 'e channel_error option, ch')"
  shows "ch_clients ch' = ch_clients ch \<and> ch_calls ch' = ch_calls ch \<and> in_flight ch' k \<le> in_flight ch k + (if k = j then 1 else 0)"
proof -
  let ?push = "pushInFlightMessage ch (msg\<lparr>msg_clientID := j, msg_deliveryTS := now\<rparr>) :: 'e channel_error option \<times> _"
  obtain e' ch1 where p: "?push = (e', ch1)" by (cases ?push)
  have "ch_clients ch' = ch_clients ch1 \<and> ch_calls ch' = ch_calls ch1 \<and> ch_inFlightMessages ch' = ch_inFlightMessages ch1"
    using assms p add_pq_same by (fastforce simp: StartInFlightTimeout_def Let_def bind_eq_Some_conv split: if_splits prod.splits)
  with push_flow [OF p, of k] show ?thesis by (auto simp: in_flight_def split: if_splits)
qed

lemma pump_memory_flow:
  assumes "pump_memory rate r ch now j d = Some (m, ch')"
  shows "ch_clients ch' = ch_clients ch \<and> ch_calls ch' = ch_calls ch \<and>
    in_flight ch' k \<le> in_flight ch k + (if k = j \<and> m \<noteq> None then 1 else 0)"
proof (cases "ch_memoryMsgChan ch")
  case Nil
  with assms show ?thesis by (simp add: pump_memory_def)
next
  case (Cons msg ms)
  let ?ch = "ch\<lparr>ch_memoryMsgChan := ms\<rparr>"
  have same: "in_flight ?ch k = in_flight ch k" by (simp add: in_flight_def)
  show ?thesis
  proof (cases "sampled_out rate r")
    case True
    with assms Cons same show ?thesis by (auto simp: pump_memory_def)
  next
    case False
    with assms Cons obtain e where "StartInFlightTimeout ?ch now (msg\<lparr>msg_Attempts := msg_Attempts msg + 1\<rparr>) j d = Some (e :: unit channel_error option, ch')" "m \<noteq> None"
      by (auto simp: pump_memory_def bind_eq_Some_conv Let_def)
    with start_flow [OF this(1), of k] same show ?thesis by auto
  qed
qed

lemma pump_backend_flow:
  assumes "pump_backend B rate r ch now j d = Some (m, ch')"
  shows "ch_clients ch' = ch_clients ch \<and> ch_calls ch' = ch_calls ch \<and>
    in_flight ch' k \<le> in_flight ch k + (if k = j \<and> m \<noteq> None then 1 else 0)"
proof -
  from assms obtain x b where x: "be_Read B (ch_backend ch) = Some (x, b)" by (auto simp: pump_backend_def bind_eq_Some_conv)
  let ?ch = "ch\<lparr>ch_backend := b\<rparr>"
  have same: "in_flight ?ch k = in_flight ch k" by (simp add: in_flight_def)
  show ?thesis
  proof (cases "sampled_out rate r \<or> (\<exists>e. decodeMessage x = Some (Inl e))")
    case True
    with assms x have "m = None \<and> ch' = ?ch" by (auto simp: pump_backend_def Let_def split: if_splits)
    with same show ?thesis by simp
  next
    case False
    with assms x have "decodeMessage x \<noteq> None" by (auto simp: pump_backend_def Let_def bind_eq_Some_conv)
    with False obtain msg where d: "decodeMessage x = Some (Inr msg)" by (metis not_None_eq sum.exhaust)
    with False assms x obtain e where "StartInFlightTimeout ?ch now (msg\<lparr>msg_Attempts := msg_Attempts msg + 1\<rparr>) j d = Some (e :: unit channel_error option, ch')" "m \<noteq> None"
      by (auto simp: pump_backend_def bind_eq_Some_conv Let_def)
    with start_flow [OF this(1), of k] same show ?thesis by auto
  qed
qed

subsection \<open>Scans, emptying and closing\<close>

lemma time_out_settles:
  assumes "popInFlightMessage ch j i = (Inr msg, ch1)"
  shows "settles ch (timed_out ch1 j)"
proof -
  note p = in_flight_pop [OF assms]
  let ?xs = "if j \<in> set (ch_clients ch) then [(j, CallTimedOutMessage)] else []"
  have fl: "in_flight (timed_out ch1 j) k = in_flight ch1 k" for k by (simp add: timed_out_def in_flight_def Let_def)
  show ?thesis
  proof (rule settlesI [where xs = ?xs])
    show "int (in_flight (timed_out ch1 j) k) \<le> after_calls k ?xs n + s" if "int (in_flight ch k) \<le> n + s" for k n s
      using that p(1) p(2) [of k] by (auto simp: fl)
  qed (use p(4, 5) in \<open>auto simp: timed_out_def Let_def\<close>)
qed

lemma processInFlight_settles:
  assumes "processInFlight_loop B t dirty ch = Some (d, ch')"
  shows "settles ch ch'"
proof -
  have "settles ch (snd r)" if "processInFlight_loop B t dirty ch = Some r" for r
    using that
  proof (induction rule: processInFlight_loop.raw_induct [rotated, where P = "\<lambda>B t dirty ch r. settles ch (snd r)", consumes 1, case_names step])
    case (step loop B t dirty ch r)
    from step(2) obtain item x q where pk: "ifp_PeekAndShift (ch_inFlightPQ ch) t = Some (item, x, q)"
      by (auto simp: bind_eq_Some_conv)
    let ?ch = "ch\<lparr>ch_inFlightPQ := q\<rparr>"
    have s1: "settles ch ?ch" by (rule settles_same) simp_all
    show ?case
    proof (cases item)
      case None
      with step(2) pk s1 show ?thesis by auto
    next
      case (Some it)
      let ?j = "msg_clientID (pi_val it)" and ?i = "msg_ID (pi_val it)"
      obtain res ch1 where pop: "(popInFlightMessage ?ch ?j ?i :: ('b channel_error + message) \<times> _) = (res, ch1)"
        by (cases "popInFlightMessage ?ch ?j ?i :: ('b channel_error + message) \<times> _")
      show ?thesis
      proof (cases res)
        case (Inl e)
        with pop_fails pop have "ch1 = ?ch" by blast
        with step(2) pk Some pop Inl s1 show ?thesis by auto
      next
        case (Inr msg)
        with step(2) pk Some pop obtain e ch2 where
          put: "ch_put B (timed_out ch1 ?j) (pi_val it) = Some (e, ch2)" and rec: "loop B t True ch2 = Some r"
          by (auto simp: bind_eq_Some_conv)
        note s1
        also have "settles ?ch (timed_out ch1 ?j)" using pop Inr by (intro time_out_settles) simp
        also have "settles (timed_out ch1 ?j) ch2" using ch_put_same [OF put] by (intro settles_same) simp_all
        also have "settles ch2 (snd r)" by (rule step(1) [OF rec])
        finally show ?thesis .
      qed
    qed
  qed
  with assms show ?thesis by fastforce
qed

lemma processDeferred_settles:
  assumes "processDeferred_loop B t dirty ch = Some (d, ch')"
  shows "settles ch ch'"
proof -
  have "settles ch (snd r)" if "processDeferred_loop B t dirty ch = Some r" for r
    using that
  proof (induction rule: processDeferred_loop.raw_induct [rotated, where P = "\<lambda>B t dirty ch r. settles ch (snd r)", consumes 1, case_names step])
    case (step loop B t dirty ch r)
    from step(2) obtain item x q where pk: "pq_PeekAndShift (ch_deferredPQ ch) t = Some (item, x, q)"
      by (auto simp: bind_eq_Some_conv)
    let ?ch = "ch\<lparr>ch_deferredPQ := q\<rparr>"
    show ?case
    proof (cases item)
      case None
      with step(2) pk show ?thesis by auto
    next
      case (Some it)
      obtain res ch1 where pop: "(popDeferredMessage ?ch (msg_ID (pi_val it)) :: ('b channel_error + message pq_item) \<times> _) = (res, ch1)"
        by (cases "popDeferredMessage ?ch (msg_ID (pi_val it)) :: ('b channel_error + message pq_item) \<times> _")
      then have s1: "settles ch ch1" by (auto simp: popDeferredMessage_def split: option.splits)
      show ?thesis
      proof (cases res)
        case (Inl e)
        with step(2) pk Some pop s1 show ?thesis by auto
      next
        case (Inr msg)
        with step(2) pk Some pop obtain e ch2 where
          put: "ch_put B ch1 (pi_val it) = Some (e, ch2)" and rec: "loop B t True ch2 = Some r"
          by (auto simp: bind_eq_Some_conv)
        note s1
        also have "settles ch1 ch2" using ch_put_same [OF put] by (intro settles_same) simp_all
        also have "settles ch2 (snd r)" by (rule step(1) [OF rec])
        finally show ?thesis .
      qed
    qed
  qed
  with assms show ?thesis by fastforce
qed

lemma scan_settles: "scan_channel B now ch = Some (d, ch') \<Longrightarrow> settles ch ch'"
  unfolding scan_channel_def processInFlightQueue_def processDeferredQueue_def
  by (auto simp: bind_eq_Some_conv split: if_splits dest!: processInFlight_settles processDeferred_settles intro: settles_trans)

lemma call_all_settles:
  assumes "call \<noteq> CallTimedOutMessage" "call = CallEmpty \<Longrightarrow> \<forall>i. in_flight ch i = 0"
  shows "settles ch (call_all ch call)"
proof -
  have "after_calls i (map (\<lambda>k. (k, call)) ks) n \<in> {n, 0} \<and> (call \<noteq> CallEmpty \<longrightarrow> after_calls i (map (\<lambda>k. (k, call)) ks) n = n)" for i n ks
    using assms(1) by (induction ks arbitrary: n) (auto split: consumer_call.splits)
  then have a: "after_calls i (map (\<lambda>k. (k, call)) ks) n \<in> {n, 0}" "call \<noteq> CallEmpty \<Longrightarrow> after_calls i (map (\<lambda>k. (k, call)) ks) n = n" for i n ks
    by blast+
  show ?thesis
  proof (rule settlesI [where xs = "map (\<lambda>k. (k, call)) (ch_clients ch)"])
    fix i and n s :: int assume "0 \<le> s" "int (in_flight ch i) \<le> n + s"
    then show "int (in_flight (call_all ch call) i) \<le> after_calls i (map (\<lambda>k. (k, call)) (ch_clients ch)) n + s"
      using a [of i "ch_clients ch" n] assms(2) by (cases "call = CallEmpty") (auto simp: call_all_def in_flight_def)
  qed (auto simp: call_all_def)
qed

lemma doPause_settles: "settles ch (doPause ch b)"
proof -
  have "settles ch (ch\<lparr>ch_paused := b\<rparr>)" by (rule settles_same) simp_all
  also have "settles (ch\<lparr>ch_paused := b\<rparr>) (doPause ch b)" unfolding doPause_def by (rule call_all_settles) (auto split: if_splits)
  finally show ?thesis .
qed

lemma initPQ_settles_to:
  assumes "initPQ n ch = Some ch1"
  shows "ch_clients ch1 = ch_clients ch" "ch_calls ch1 = ch_calls ch" "in_flight ch1 i = 0"
  using assms by (auto simp: initPQ_def bind_eq_Some_conv in_flight_def)

text \<open>Emptying a channel resets the counters of all its clients.\<close>

lemma initPQ_settles: "initPQ n ch = Some ch1 \<Longrightarrow> settles ch ch1"
  by (rule settlesI [where xs = "[]"]) (auto simp: initPQ_settles_to)

lemma Empty_settles:
  assumes "ch_Empty B n ch = Some (e, ch')"
  shows "settles ch ch'"
proof -
  from assms obtain ch1 where ch1: "initPQ n ch = Some ch1" by (auto simp: ch_Empty_def bind_eq_Some_conv)
  note initPQ_settles [OF ch1]
  also have "settles ch1 (call_all ch1 CallEmpty)" by (rule call_all_settles) (simp_all add: initPQ_settles_to [OF ch1])
  also have "settles (call_all ch1 CallEmpty) ch'" using assms ch1 by (auto simp: ch_Empty_def Let_def split: prod.splits)
  finally show ?thesis .
qed

lemma exit_settles:
  assumes "ch_exit B n ch deleted = Some (e, ch')"
  shows "settles ch ch'"
proof (cases "ch_exitFlag ch")
  case True
  with assms show ?thesis by (auto simp: ch_exit_def)
next
  case False
  let ?ch = "call_all (ch\<lparr>ch_exitFlag := True\<rparr>) CallClose"
  have "settles ch (ch\<lparr>ch_exitFlag := True\<rparr>)" by (rule settles_same) simp_all
  also have "settles (ch\<lparr>ch_exitFlag := True\<rparr>) ?ch" by (rule call_all_settles) simp_all
  also have "settles ?ch ch'"
  proof (cases deleted)
    case True
    with assms False obtain e1 ch1 where ch1: "ch_Empty B n ?ch = Some (e1, ch1)"
      by (auto simp: ch_exit_def Let_def bind_eq_Some_conv)
    note Empty_settles [OF ch1]
    also have "settles ch1 ch'" using assms False True ch1 by (auto simp: ch_exit_def Let_def split: prod.splits)
    finally show ?thesis .
  next
    case notdel: False
    with assms False obtain ch1 where ch1: "ch_flush B ?ch = Some ch1" by (auto simp: ch_exit_def Let_def bind_eq_Some_conv)
    then have "settles ?ch ch1" by (auto simp: ch_flush_def bind_eq_Some_conv)
    also have "settles ch1 ch'" using assms False notdel ch1 by (auto simp: ch_exit_def Let_def split: prod.splits)
    finally show ?thesis .
  qed
  finally show ?thesis .
qed

lemma give_settles: "give B now ch m = Some ch' \<Longrightarrow> settles ch ch' \<and> ch_calls ch' = ch_calls ch"
  unfolding give_def PutMessage_def PutMessageDeferred_def
  by (auto simp: bind_eq_Some_conv split: if_splits dest!: ch_put_same deferred_same)

section \<open>Topics\<close>

text \<open>Every channel of the topic settles; new ones are fresh. A quiet change makes no calls.\<close>

definition quiet :: "'b channel \<Rightarrow> 'b channel \<Rightarrow> bool" where
  "quiet ch ch' \<longleftrightarrow> settles ch ch' \<and> ch_calls ch' = ch_calls ch"

definition topic_rel :: "('b channel \<Rightarrow> 'b channel \<Rightarrow> bool) \<Rightarrow> 'b topic \<Rightarrow> 'b topic \<Rightarrow> bool" where
  "topic_rel R t t' \<longleftrightarrow>
     length (t_store t) \<le> length (t_store t') \<and>
     (\<forall>j < length (t_store t'). if j < length (t_store t) then R (t_store t ! j) (t_store t' ! j) else fresh (t_store t' ! j))"

lemma quiet_refl [simp]: "quiet ch ch"
  by (auto simp: quiet_def)

lemma quiet_trans: "quiet a b \<Longrightarrow> quiet b c \<Longrightarrow> quiet a c"
  unfolding quiet_def by (metis settles_trans)

lemma quiet_fresh: "quiet ch ch' \<Longrightarrow> fresh ch \<Longrightarrow> fresh ch'"
  unfolding quiet_def using settles_fresh by blast

lemma topic_rel_same: "(\<And>ch. R ch ch) \<Longrightarrow> t_store t' = t_store t \<Longrightarrow> topic_rel R t t'"
  by (simp add: topic_rel_def)

lemma topic_rel_upd:
  "(\<And>ch. R ch ch) \<Longrightarrow> store_at t j = Some ch \<Longrightarrow> R ch ch' \<Longrightarrow> t_store t' = (t_store t)[j := ch'] \<Longrightarrow> topic_rel R t t'"
  by (auto simp: topic_rel_def store_at_def nth_list_update split: if_splits)

lemma topic_rel_trans:
  assumes tr: "\<And>a b c. R a b \<Longrightarrow> R b c \<Longrightarrow> R a c" and fr: "\<And>a b. R a b \<Longrightarrow> fresh a \<Longrightarrow> fresh b"
    and r: "topic_rel R t t1" "topic_rel R t1 t2"
  shows "topic_rel R t t2"
  unfolding topic_rel_def
proof (intro conjI allI impI)
  show "length (t_store t) \<le> length (t_store t2)" using r by (auto simp: topic_rel_def)
  fix j assume j: "j < length (t_store t2)"
  show "if j < length (t_store t) then R (t_store t ! j) (t_store t2 ! j) else fresh (t_store t2 ! j)"
  proof (cases "j < length (t_store t1)")
    case True
    with r j have "R (t_store t1 ! j) (t_store t2 ! j)"
      "if j < length (t_store t) then R (t_store t ! j) (t_store t1 ! j) else fresh (t_store t1 ! j)" by (auto simp: topic_rel_def)
    then show ?thesis using tr fr by (auto split: if_splits)
  next
    case False
    with r j show ?thesis by (auto simp: topic_rel_def split: if_splits)
  qed
qed

lemma quiet_topic_trans: "topic_rel quiet a b \<Longrightarrow> topic_rel quiet b c \<Longrightarrow> topic_rel quiet a c"
  by (rule topic_rel_trans [where R = quiet]) (auto intro: quiet_trans quiet_fresh)

lemma settles_topic_trans: "topic_rel settles a b \<Longrightarrow> topic_rel settles b c \<Longrightarrow> topic_rel settles a c"
  by (rule topic_rel_trans [where R = settles]) (auto intro: settles_trans settles_fresh)

lemma quiet_settles_topic: "topic_rel quiet t t' \<Longrightarrow> topic_rel settles t t'"
  by (auto simp: topic_rel_def quiet_def split: if_splits)

lemma NewChannel_fresh: "NewChannel n name b = Some ch \<Longrightarrow> fresh ch"
  unfolding NewChannel_def fresh_def by (auto simp: initPQ_settles_to)

lemma GetChannel_quiet:
  assumes "GetChannel n openq t name = Some (j, t')"
  shows "topic_rel quiet t t'"
proof (cases "map_of (t_channelMap t) name")
  case (Some k)
  with assms show ?thesis by (auto simp: GetChannel_def getOrCreateChannel_def intro!: topic_rel_same)
next
  case None
  with assms obtain ch where "NewChannel n name (openq name) = Some ch" "t_store t' = t_store t @ [ch]"
    by (auto simp: GetChannel_def getOrCreateChannel_def bind_eq_Some_conv Let_def)
  with NewChannel_fresh [OF this(1)] show ?thesis by (auto simp: topic_rel_def nth_append less_Suc_eq)
qed

lemma fan_out_quiet: "fan_out B clock msg i ks t = Some t' \<Longrightarrow> topic_rel quiet t t'"
proof (induction B clock msg i ks t rule: fan_out.induct)
  case (1 B clock msg i t)
  then show ?case by (auto intro!: topic_rel_same)
next
  case (2 B clock msg i k ks t)
  then obtain ch ch' where c: "store_at t k = Some ch" "give B (clock i) ch (chan_msg (clock i) msg i) = Some ch'"
    and rest: "fan_out B clock msg (i + 1) ks (t\<lparr>t_store := (t_store t)[k := ch']\<rparr>) = Some t'"
    by (auto simp: bind_eq_Some_conv)
  have "topic_rel quiet t (t\<lparr>t_store := (t_store t)[k := ch']\<rparr>)"
    using give_settles [OF c(2)] by (intro topic_rel_upd [OF _ c(1)]) (auto simp: quiet_def)
  from quiet_topic_trans [OF this "2.IH" [OF c(1) c(2) rest]] show ?case .
qed

lemma pump_step_quiet:
  assumes "pump_step B clock e t = Some t'"
  shows "topic_rel quiet t t'"
proof (cases "t_pc t")
  case PumpRunning
  then have st: "pump_running B clock e t = Some t'" using assms by (simp add: pump_step_def)
  have mem: "topic_rel quiet t t'" if "fan_out B clock msg 0 (t_chans t) t1 = Some t'" "t_store t1 = t_store t" for msg t1
    using fan_out_quiet [OF that(1)] unfolding topic_rel_def that(2) .
  show ?thesis
  proof (cases e)
    case RecvMemory
    with st mem show ?thesis by (auto simp: pump_running_def split: list.splits)
  next
    case RecvBackend
    with st obtain buf b r where r: "be_Read B (t_backend t) = Some (buf, b)" "decodeMessage buf = Some r"
      "(case r of Inl _ \<Rightarrow> Some (t\<lparr>t_backend := b\<rparr>) | Inr msg \<Rightarrow> fan_out B clock msg 0 (t_chans t) (t\<lparr>t_backend := b\<rparr>)) = Some t'"
      by (auto simp: pump_running_def bind_eq_Some_conv Let_def)
    then show ?thesis by (cases r) (auto intro: mem topic_rel_same [where R = quiet])
  qed (use st in \<open>auto simp: pump_running_def reload_def take_update_def recheck_def intro!: topic_rel_same\<close>)
qed (use assms in \<open>auto simp: pump_step_def pump_waiting_def reload_def take_update_def intro!: topic_rel_same split: pump_event.splits\<close>)

lemma await_pump_quiet: "await_pump B t = Some t' \<Longrightarrow> topic_rel quiet t t'"
  by (simp add: await_pump_def update_gives_up_def take_update_def split: if_splits)
    (auto intro: pump_step_quiet topic_rel_same [where R = quiet])

lemma GetChannel_wait_quiet: "GetChannel_wait B n openq t name = Some (j, t') \<Longrightarrow> topic_rel quiet t t'"
  unfolding GetChannel_wait_def
  by (auto simp: bind_eq_Some_conv dest!: GetChannel_quiet await_pump_quiet intro: quiet_topic_trans)

lemma pre_create_quiet: "pre_create B n openq names t = Some t' \<Longrightarrow> topic_rel quiet t t'"
proof (induction B n openq names t rule: pre_create.induct)
  case (1 B n openq t)
  then show ?case by (auto intro!: topic_rel_same)
next
  case (2 B n openq name names t)
  show ?case
  proof (cases "take 10 (rev name) = rev ''#ephemeral''")
    case True
    with 2 show ?thesis by simp
  next
    case False
    with "2.prems" obtain j t1 where g: "GetChannel_wait B n openq t name = Some (j, t1)" "pre_create B n openq names t1 = Some t'"
      by (auto simp: bind_eq_Some_conv)
    from quiet_topic_trans [OF GetChannel_wait_quiet [OF g(1)] "2.IH"(2) [OF False g(1) refl g(2)]] show ?thesis .
  qed
qed

lemma exit_channels_settles: "exit_channels B n deleted ks t = Some t' \<Longrightarrow> topic_rel settles t t'"
proof (induction B n deleted ks t rule: exit_channels.induct)
  case (1 B n deleted t)
  then show ?case by (auto intro!: topic_rel_same)
next
  case (2 B n deleted k ks t)
  then obtain ch e ch' where c: "store_at t k = Some ch" "ch_exit B n ch deleted = Some (e, ch')"
    and rest: "exit_channels B n deleted ks (t\<lparr>t_store := (t_store t)[k := ch']\<rparr>) = Some t'"
    by (auto simp: bind_eq_Some_conv)
  have "topic_rel settles t (t\<lparr>t_store := (t_store t)[k := ch']\<rparr>)"
    by (rule topic_rel_upd [of settles, OF _ c(1) exit_settles [OF c(2)]]) auto
  from settles_topic_trans [OF this "2.IH" [OF c(1) c(2) refl rest]] show ?case .
qed

lemma exit_finish_settles:
  assumes "t_exit_finish B n deleted t = Some (e, t')"
  shows "topic_rel settles t t'"
proof -
  from assms obtain t1 where t1: "exit_channels B n deleted (map snd (t_channelMap t)) t = Some t1"
    by (auto simp: t_exit_finish_def bind_eq_Some_conv split: if_splits)
  have "t_store t' = t_store t1"
  proof (cases deleted)
    case True
    with assms t1 show ?thesis by (auto simp: t_exit_finish_def t_Empty_def Let_def case_prod_beta)
  next
    case False
    with assms t1 show ?thesis by (auto simp: t_exit_finish_def t_flush_def bind_eq_Some_conv Let_def case_prod_beta)
  qed
  with exit_channels_settles [OF t1] show ?thesis unfolding topic_rel_def by simp
qed

lemma t_exit_settles:
  assumes "t_exit (B :: ('b, 'e) backend) n deleted t = Some (e, t')"
  shows "topic_rel settles t t'"
proof (cases "t_exit_begin t :: 'e topic_error option \<times> _")
  case (Pair e1 t1)
  have same: "topic_rel settles t t1" using Pair by (auto simp: t_exit_begin_def split: if_splits intro!: topic_rel_same)
  show ?thesis
  proof (cases e1)
    case None
    with assms Pair obtain t2 where t2: "pump_step B (\<lambda>_. 0) RecvExit t1 = Some t2" "t_exit_finish B n deleted t2 = Some (e, t')"
      by (auto simp: t_exit_def bind_eq_Some_conv)
    show ?thesis
      using settles_topic_trans [OF same settles_topic_trans [OF quiet_settles_topic [OF pump_step_quiet [OF t2(1)]] exit_finish_settles [OF t2(2)]]] .
  next
    case (Some x)
    with assms Pair same show ?thesis by (simp add: t_exit_def)
  qed
qed

lemma DeleteExistingChannel_settles:
  assumes "DeleteExistingChannel B n t name = Some (e, t')"
  shows "topic_rel settles t t'"
proof (cases "map_of (t_channelMap t) name")
  case None
  with assms show ?thesis by (auto simp: DeleteExistingChannel_def intro!: topic_rel_same)
next
  case (Some k)
  with assms obtain ch x ch' where c: "store_at t k = Some ch" "ch_exit B n ch True = Some (x, ch')" "t_store t' = (t_store t)[k := ch']"
    by (auto simp: DeleteExistingChannel_def store_at_def Let_def bind_eq_Some_conv split: if_splits)
  show ?thesis by (rule topic_rel_upd [of settles, OF _ c(1) exit_settles [OF c(2)] c(3)]) auto
qed

lemma on_topic_settles:
  assumes "on_topic B opts e t = Some t'"
  shows "topic_rel settles t t'"
proof (cases e)
  case (PumpEvent ev clock)
  with assms show ?thesis by (auto simp: on_topic_def split: if_splits intro: quiet_settles_topic pump_step_quiet)
next
  case (DeleteChannel name)
  with assms obtain x t1 where d: "DeleteExistingChannel B (op_MemQueueSize opts) t name = Some (x, t1)" "await_pump B t1 = Some t'"
    by (auto simp: on_topic_def bind_eq_Some_conv)
  from settles_topic_trans [OF DeleteExistingChannel_settles [OF d(1)] quiet_settles_topic [OF await_pump_quiet [OF d(2)]]] show ?thesis .
next
  case CloseTopic
  with assms show ?thesis by (auto simp: on_topic_def intro: t_exit_settles)
next
  case (PauseTopic b)
  with assms show ?thesis by (auto simp: on_topic_def t_doPause_def intro!: topic_rel_same)
qed

lemma on_channel_settles: "on_channel B opts e ch = Some ch' \<Longrightarrow> settles ch ch'"
  by (auto simp: on_channel_def split: chan_event.splits intro: scan_settles Empty_settles doPause_settles)

lemma GenerateID_store: "GenerateID t clock = Some (i, t') \<Longrightarrow> t_store t' = t_store t"
  by (auto simp: GenerateID_def bind_eq_Some_conv)

lemma t_put_store: "t_put B t m = Some (e, t') \<Longrightarrow> t_store t' = t_store t"
  by (auto simp: t_put_def bind_eq_Some_conv split: option.splits if_splits)

lemma PutMessage_store: "t_PutMessage B t m = Some (e, t') \<Longrightarrow> t_store t' = t_store t"
  by (auto simp: t_PutMessage_def bind_eq_Some_conv split: if_splits dest!: t_put_store)

lemma PutMessages_loop_store: "PutMessages_loop B i n ms t = Some (e, t') \<Longrightarrow> t_store t' = t_store t"
proof (induction ms arbitrary: i n t)
  case (Cons m ms)
  then obtain x t1 where t1: "t_put B t m = Some (x, t1)" by (auto simp: bind_eq_Some_conv)
  show ?case
  proof (cases x)
    case None
    with Cons.prems t1 have "PutMessages_loop B (i + 1) (n + length (msg_Body m)) ms t1 = Some (e, t')" by simp
    from Cons.IH [OF this] t_put_store [OF t1] show ?thesis by simp
  next
    case (Some y)
    with Cons.prems t1 t_put_store [OF t1] show ?thesis by auto
  qed
qed auto

lemma PutMessages_store: "t_PutMessages B t ms = Some (e, t') \<Longrightarrow> t_store t' = t_store t"
  by (auto simp: t_PutMessages_def split: if_splits dest: PutMessages_loop_store)

lemma readMPUB_loop_store: "readMPUB_loop clock nows m k i ms r t = Some (res, r', t') \<Longrightarrow> t_store t' = t_store t"
proof (induction k arbitrary: i ms r t)
  case (Suc k)
  then obtain body r1 where b: "read_body m r = Some (body, r1)" by (auto simp: bind_eq_Some_conv)
  show ?case
  proof (cases body)
    case None
    with Suc.prems b show ?thesis by simp
  next
    case (Some x)
    with Suc.prems b obtain g t1 where g: "GenerateID t (clock i) = Some (g, t1)"
      and rest: "readMPUB_loop clock nows m k (i + 1) (ms @ [NewMessage g x (nows i)]) r1 t1 = Some (res, r', t')"
      by (auto simp: bind_eq_Some_conv)
    from Suc.IH [OF rest] GenerateID_store [OF g] show ?thesis by simp
  qed
qed simp

lemma readMPUB_store: "readMPUB clock nows m n r t = Some (res, r', t') \<Longrightarrow> t_store t' = t_store t"
  by (auto simp: readMPUB_def bind_eq_Some_conv split: option.splits if_splits dest: readMPUB_loop_store)

section \<open>The daemon\<close>

subsection \<open>The invariant\<close>

text \<open>A pump that may receive has room for one more message; one that has put a message in flight has not counted it yet.\<close>

definition reserve :: "client_pc \<Rightarrow> int" where
  "reserve pc = (case pc of InSelect b \<Rightarrow> if b then 1 else 0 | Sending _ \<Rightarrow> 1 | _ \<Rightarrow> 0)"

definition uncounted :: "client_pc \<Rightarrow> int" where
  "uncounted pc = (case pc of Sending _ \<Rightarrow> 1 | _ \<Rightarrow> 0)"

definition client_fits :: "int \<Rightarrow> client_pump \<Rightarrow> client_v2 \<Rightarrow> bool" where
  "client_fits M p c \<longleftrightarrow>
     cv_ReadyCount c \<le> M \<and> cv_InFlightCount c \<le> M - reserve (pu_pc p) \<and> reserve (pu_pc p) \<le> M \<and>
     (cv_SubEvent c = None \<or> cv_SubEvent c = cv_Channel c) \<and> (pu_subChannel p = None \<or> pu_subChannel p = cv_Channel c) \<and>
     (reserve (pu_pc p) = 1 \<longrightarrow> pu_subChannel p \<noteq> None) \<and>
     (cv_State c = StateInit \<longrightarrow> cv_Channel c = None) \<and> (cv_Channel c = None \<longrightarrow> cv_InFlightCount c = 0)"

definition chan_fits :: "(int \<Rightarrow> client_v2 option) \<Rightarrow> (int \<Rightarrow> client_pump) \<Rightarrow> nat \<times> nat \<Rightarrow> 'b channel \<Rightarrow> bool" where
  "chan_fits clients pumps p ch \<longleftrightarrow>
     (\<forall>i. i \<in> set (ch_clients ch) \<or> 0 < in_flight ch i \<or> i \<in> fst ` set (ch_calls ch) \<longrightarrow> (\<exists>c. clients i = Some c \<and> cv_Channel c = Some p)) \<and>
     (\<forall>i c. clients i = Some c \<longrightarrow> cv_Channel c = Some p \<longrightarrow>
       int (in_flight ch i) \<le> after_calls i (ch_calls ch) (cv_InFlightCount c) + uncounted (pu_pc (pumps i)))"

definition clients_fit :: "int \<Rightarrow> 'b nsqd \<Rightarrow> bool" where
  "clients_fit M nd \<longleftrightarrow>
     (\<forall>i c. nd_clients nd i = Some c \<longrightarrow> cv_ID c = i \<and> i \<le> nd_clientIDSequence nd \<and> client_fits M (nd_pumps nd i) c \<and>
       (\<forall>p. cv_Channel c = Some p \<longrightarrow> chan_at nd p \<noteq> None))"

definition chans_fit :: "'b nsqd \<Rightarrow> bool" where
  "chans_fit nd \<longleftrightarrow> (\<forall>p ch. chan_at nd p = Some ch \<longrightarrow> chan_fits (nd_clients nd) (nd_pumps nd) p ch)"

definition no_calls :: "'b nsqd \<Rightarrow> bool" where
  "no_calls nd \<longleftrightarrow> (\<forall>p ch. chan_at nd p = Some ch \<longrightarrow> ch_calls ch = [])"

definition flow_ok :: "int \<Rightarrow> 'b nsqd \<Rightarrow> bool" where
  "flow_ok M nd \<longleftrightarrow> clients_fit M nd \<and> chans_fit nd \<and> no_calls nd"

lemma chan_at_set_topic:
  "k < length (nd_topics nd) \<Longrightarrow> chan_at (set_topic k t nd) p = (if fst p = k then store_at t (snd p) else chan_at nd p)"
  by (simp add: chan_at_def topic_at_def set_topic_def)

lemma chan_at_set_chan:
  assumes "chan_at nd p = Some ch"
  shows "chan_at (set_chan p ch' nd) q = (if q = p then Some ch' else chan_at nd q)"
proof -
  let ?k = "fst p" and ?t = "nd_topics nd ! fst p"
  from assms have k: "?k < length (nd_topics nd)" "snd p < length (t_store ?t)"
    by (auto simp: chan_at_def topic_at_def store_at_def bind_eq_Some_conv split: if_splits)
  have "chan_at nd q = (if fst q = ?k then store_at ?t (snd q) else chan_at nd q)" using k by (simp add: chan_at_def topic_at_def)
  moreover have "store_at (?t\<lparr>t_store := (t_store ?t)[snd p := ch']\<rparr>) j = (if j = snd p then Some ch' else store_at ?t j)" for j
    using k by (auto simp: store_at_def)
  ultimately show ?thesis by (auto simp: set_chan_def Let_def chan_at_set_topic [OF k(1)] prod_eq_iff)
qed

lemma set_topic_simps [simp]:
  "nd_clients (set_topic k t nd) = nd_clients nd" "nd_pumps (set_topic k t nd) = nd_pumps nd"
  "nd_clientIDSequence (set_topic k t nd) = nd_clientIDSequence nd" "nd_topicMap (set_topic k t nd) = nd_topicMap nd"
  by (simp_all add: set_topic_def)

lemma set_chan_simps [simp]:
  "nd_clients (set_chan p ch nd) = nd_clients nd" "nd_pumps (set_chan p ch nd) = nd_pumps nd"
  "nd_clientIDSequence (set_chan p ch nd) = nd_clientIDSequence nd"
  by (simp_all add: set_chan_def Let_def)

lemma chan_at_frame [simp]:
  "chan_at (nd\<lparr>nd_clients := x\<rparr>) p = chan_at nd p" "chan_at (put_client c nd) p = chan_at nd p" "chan_at (put_pump i pu nd) p = chan_at nd p"
  "chan_at (send_frames i fs nd) p = chan_at nd p" "chan_at (nd\<lparr>nd_topicMap := m\<rparr>) p = chan_at nd p"
  by (simp_all add: chan_at_def topic_at_def put_client_def put_pump_def send_frames_def)

lemma put_client_simps [simp]:
  "nd_clients (put_client c nd) = (nd_clients nd)(cv_ID c \<mapsto> c)" "nd_pumps (put_client c nd) = nd_pumps nd"
  "nd_clientIDSequence (put_client c nd) = nd_clientIDSequence nd"
  by (simp_all add: put_client_def)

lemma send_frames_simps [simp]:
  "nd_clients (send_frames i fs nd) = nd_clients nd" "nd_pumps (send_frames i fs nd) = nd_pumps nd"
  "nd_clientIDSequence (send_frames i fs nd) = nd_clientIDSequence nd"
  by (simp_all add: send_frames_def)

lemma put_pump_simps [simp]:
  "nd_clients (put_pump i p nd) = nd_clients nd" "nd_pumps (put_pump i p nd) = (nd_pumps nd)(i := p)"
  "nd_clientIDSequence (put_pump i p nd) = nd_clientIDSequence nd"
  by (simp_all add: put_pump_def)

subsection \<open>Topics and calls\<close>

lemma chan_fits_settles:
  assumes "chan_fits clients pumps p ch" "settles ch ch'"
  shows "chan_fits clients pumps p ch'"
proof -
  from assms(2) obtain xs where xs: "ch_clients ch' = ch_clients ch" "ch_calls ch' = ch_calls ch @ xs" "fst ` set xs \<subseteq> set (ch_clients ch)"
    "\<And>i n s. 0 \<le> s \<Longrightarrow> int (in_flight ch i) \<le> n + s \<Longrightarrow> int (in_flight ch' i) \<le> after_calls i xs n + s"
    unfolding settles_def by blast
  have un: "0 \<le> uncounted pc" for pc by (simp add: uncounted_def split: client_pc.splits)
  have pos: "0 < in_flight ch i" if "0 < in_flight ch' i" "i \<notin> fst ` set xs" for i
    using xs(4) [of 0 i 0] that by (auto simp: after_calls_other)
  show ?thesis
    unfolding chan_fits_def
  proof (intro conjI allI impI)
    fix i assume "i \<in> set (ch_clients ch') \<or> 0 < in_flight ch' i \<or> i \<in> fst ` set (ch_calls ch')"
    then have "i \<in> set (ch_clients ch) \<or> 0 < in_flight ch i \<or> i \<in> fst ` set (ch_calls ch)"
      using xs(1-3) pos [of i] by (auto simp: image_Un)
    with assms(1) show "\<exists>c. clients i = Some c \<and> cv_Channel c = Some p" unfolding chan_fits_def by blast
  next
    fix i c assume c: "clients i = Some c" "cv_Channel c = Some p"
    with assms(1) have "int (in_flight ch i) \<le> after_calls i (ch_calls ch) (cv_InFlightCount c) + uncounted (pu_pc (pumps i))"
      unfolding chan_fits_def by blast
    from xs(4) [OF un this] show "int (in_flight ch' i) \<le> after_calls i (ch_calls ch') (cv_InFlightCount c) + uncounted (pu_pc (pumps i))"
      by (simp add: xs(2) after_calls_append)
  qed
qed

end
