(* ===== verification/Nsq_Protocol_Props.thy ===== *)
theory Nsq_Protocol_Props
  imports Nsq_Protocol
begin

unbundle bit_operations_syntax

text \<open>
  Properties of the commands of \<open>nsqd\<close>: what \<open>MPUB\<close> accepts and how it reads it, that publishing and subscribing need an
  authorization, and what the timeouts and sizes of commands do beyond the range of their types.
\<close>

section \<open>Batches\<close>

definition be32 :: "u32 \<Rightarrow> bytes" where
  "be32 v = [ucast (drop_bit 24 v), ucast (drop_bit 16 v), ucast (drop_bit 8 v), ucast v]"

lemma be32_length [simp]: "length (be32 v) = 4"
  by (simp add: be32_def)

lemma word32_bytes:
  "(ucast (ucast v :: byte) :: u32) OR push_bit 8 (ucast (ucast (drop_bit 8 v) :: byte)) OR
     push_bit 16 (ucast (ucast (drop_bit 16 v) :: byte)) OR push_bit 24 (ucast (ucast (drop_bit 24 v) :: byte)) = v"
proof (rule bit_word_eqI)
  fix n assume "n < LENGTH(32)"
  then consider "n < 8" | "8 \<le> n" "n < 16" | "16 \<le> n" "n < 24" | "24 \<le> n" "n < 32" by fastforce
  then show "bit ((ucast (ucast v :: byte) :: u32) OR push_bit 8 (ucast (ucast (drop_bit 8 v) :: byte)) OR
      push_bit 16 (ucast (ucast (drop_bit 16 v) :: byte)) OR push_bit 24 (ucast (ucast (drop_bit 24 v) :: byte))) n = bit v n"
    by cases (auto simp: bit_simps)
qed

lemma be_PutUint32_be32: "be_PutUint32 (replicate 4 0) v = Some (be32 v)"
  by (simp add: be_PutUint32_def be32_def go_nth_def go_upd_def numeral_eq_Suc)

lemma be_Uint32_be32 [simp]: "be_Uint32 (be32 v) = Some v"
  using word32_bytes [of v] by (simp add: be_Uint32_def go_nth_def be32_def)

lemma byte_bit_high: "8 \<le> n \<Longrightarrow> \<not> bit (b :: byte) n"
  by (auto dest: bit_imp_le_length)

lemma bytes32_word:
  "be_Uint32 [a, b, c, d] = Some v \<Longrightarrow> be32 v = [a, b, c, d]"
  unfolding be_Uint32_def be32_def go_nth_def
  by (auto intro!: bit_eqI simp: bit_simps byte_bit_high)

text \<open>A body with its length before it, and a batch as \<open>MPUB\<close> takes it.\<close>

definition sized :: "bytes \<Rightarrow> bytes" where
  "sized body = be32 (of_nat (length body)) @ body"

definition batch :: "bytes list \<Rightarrow> bytes" where
  "batch bodies = be32 (of_nat (length bodies)) @ concat (map sized bodies)"

lemma readLen_short: "length r < 4 \<Longrightarrow> readLen r = Some (None, [])"
  by (simp add: readLen_def ReadFull_def)

lemma readLen_be32 [simp]: "readLen (be32 v @ r) = Some (Some (sint v), r)"
  by (simp add: readLen_def ReadFull_def)

lemma readLen_cases:
  obtains "length r < 4" "readLen r = Some (None, [])" | v r' where "r = be32 v @ r'" "readLen r = Some (Some (sint v), r')"
proof (cases "length r < 4")
  case True
  then show ?thesis using that(1) readLen_short by blast
next
  case False
  then obtain a b c d r' where r: "r = [a, b, c, d] @ r'"
    by (metis (no_types, lifting) append_Cons append_Nil length_Cons list.exhaust list.size(3) not_less numeral_eq_Suc pred_numeral_simps(3) semiring_norm(26,27) zero_less_Suc Suc_less_eq less_Suc_eq pred_numeral_simps)
  then obtain v where v: "be_Uint32 [a, b, c, d] = Some v" by (simp add: be_Uint32_def go_nth_def)
  with r have "r = be32 v @ r'" by (simp add: bytes32_word)
  with that(2) show ?thesis by simp
qed

lemma sint_nat:
  assumes "sint v = int k"
  shows "v = (of_nat k :: u32)"
proof -
  have "v = word_of_int (sint v)" by simp
  then show ?thesis unfolding assms by simp
qed

lemma sint_of_length: "length xs < 2 ^ 31 \<Longrightarrow> sint (of_nat (length xs) :: u32) = int (length xs)"
  by (simp add: signed_of_nat signed_take_bit_int_eq_self)

definition body_ok :: "int \<Rightarrow> bytes \<Rightarrow> bool" where
  "body_ok limit body \<longleftrightarrow> body \<noteq> [] \<and> int (length body) \<le> limit \<and> length body < 2 ^ 31"

lemma read_body_Some: "read_body limit r = Some (Some body, r') \<longleftrightarrow> body_ok limit body \<and> r = sized body @ r'"
proof (cases rule: readLen_cases [of r])
  case 1
  then show ?thesis by (auto simp: read_body_def sized_def)
next
  case (2 v r1)
  show ?thesis
  proof (intro iffI conjI)
    assume "read_body limit r = Some (Some body, r')"
    then have n: "0 < sint v" "sint v \<le> limit" "nat (sint v) \<le> length r1" "body = take (nat (sint v)) r1" "r' = drop (nat (sint v)) r1"
      by (auto simp: read_body_def 2(2) go_make_def ReadFull_def not_le split: if_splits)
    define k where "k = nat (sint v)"
    from n have k: "0 < k" "int k \<le> limit" "k \<le> length r1" "body = take k r1" "r' = drop k r1" "k < 2 ^ 31" using sint_lt [of v] by (simp_all add: k_def)
    have v: "v = of_nat k" by (rule sint_nat) (use n(1) in \<open>simp add: k_def\<close>)
    from k show "body_ok limit body" by (auto simp: body_ok_def)
    from k show "r = sized body @ r'" by (simp add: 2(1) sized_def v min_absorb2)
  next
    assume "body_ok limit body \<and> r = sized body @ r'"
    then show "read_body limit r = Some (Some body, r')"
      by (auto simp: read_body_def sized_def body_ok_def sint_of_length go_make_def ReadFull_def not_le)
  qed
qed

text \<open>The messages that a batch becomes: one identifier of the topic each.\<close>

fun take_ids :: "(nat \<Rightarrow> int list) \<Rightarrow> (nat \<Rightarrow> int) \<Rightarrow> nat \<Rightarrow> bytes list \<Rightarrow> 'b topic \<Rightarrow> (message list \<times> 'b topic) option" where
  "take_ids clock nows i [] t = Some ([], t)"
| "take_ids clock nows i (body # bodies) t = do {
     (g, t) \<leftarrow> GenerateID t (clock i);
     (ms, t) \<leftarrow> take_ids clock nows (i + 1) bodies t;
     Some (NewMessage g body (nows i) # ms, t)
   }"

lemma NewMessage_Body [simp]: "msg_Body (NewMessage g body now) = body"
  by (simp add: NewMessage_def)

lemma take_ids_bodies: "take_ids clock nows i bodies t = Some (ms, t') \<Longrightarrow> map msg_Body ms = bodies"
  by (induction bodies arbitrary: i t ms) (auto simp: bind_eq_Some_conv)

lemma read_loop_exact:
  "readMPUB_loop clock nows m n i ms0 r t = Some (Inr ms, rest, t') \<longleftrightarrow>
     (\<exists>bodies new. ms = ms0 @ new \<and> length bodies = n \<and> list_all (body_ok m) bodies \<and> r = concat (map sized bodies) @ rest \<and>
       take_ids clock nows i bodies t = Some (new, t'))"
proof (induction n arbitrary: i ms0 r t)
  case 0
  then show ?case by auto
next
  case (Suc n)
  show ?case
  proof
    assume l: "readMPUB_loop clock nows m (Suc n) i ms0 r t = Some (Inr ms, rest, t')"
    then obtain body r1 where b: "read_body m r = Some (body, r1)" by (auto simp: bind_eq_Some_conv)
    with l obtain x where x: "body = Some x" by (cases body) auto
    with l b obtain g t1 where g: "GenerateID t (clock i) = Some (g, t1)"
      and rest: "readMPUB_loop clock nows m n (i + 1) (ms0 @ [NewMessage g x (nows i)]) r1 t1 = Some (Inr ms, rest, t')"
      by (auto simp: bind_eq_Some_conv)
    from rest [unfolded Suc.IH] obtain bodies new where
      ih: "ms = (ms0 @ [NewMessage g x (nows i)]) @ new" "length bodies = n" "list_all (body_ok m) bodies" "r1 = concat (map sized bodies) @ rest"
        "take_ids clock nows (i + 1) bodies t1 = Some (new, t')" by blast
    from b x have "body_ok m x" "r = sized x @ r1" by (simp_all add: read_body_Some)
    with ih g show "\<exists>bodies new. ms = ms0 @ new \<and> length bodies = Suc n \<and> list_all (body_ok m) bodies \<and> r = concat (map sized bodies) @ rest \<and>
        take_ids clock nows i bodies t = Some (new, t')"
      by (intro exI [of _ "x # bodies"] exI [of _ "NewMessage g x (nows i) # new"]) simp
  next
    assume "\<exists>bodies new. ms = ms0 @ new \<and> length bodies = Suc n \<and> list_all (body_ok m) bodies \<and> r = concat (map sized bodies) @ rest \<and>
      take_ids clock nows i bodies t = Some (new, t')"
    then obtain x bodies new where h: "ms = ms0 @ new" "length bodies = n" "body_ok m x" "list_all (body_ok m) bodies"
      "r = sized x @ concat (map sized bodies) @ rest" "take_ids clock nows i (x # bodies) t = Some (new, t')"
      by (auto simp: length_Suc_conv)
    then obtain g t1 new1 where g: "GenerateID t (clock i) = Some (g, t1)" "take_ids clock nows (i + 1) bodies t1 = Some (new1, t')"
      "new = NewMessage g x (nows i) # new1" by (auto simp: bind_eq_Some_conv)
    have b: "read_body m r = Some (Some x, concat (map sized bodies) @ rest)" using h(3, 5) by (simp add: read_body_Some)
    have "readMPUB_loop clock nows m n (i + 1) (ms0 @ [NewMessage g x (nows i)]) (concat (map sized bodies) @ rest) t1 = Some (Inr ms, rest, t')"
      unfolding Suc.IH using h g by (intro exI [of _ bodies] exI [of _ new1]) simp
    with b g(1) show "readMPUB_loop clock nows m (Suc n) i ms0 r t = Some (Inr ms, rest, t')" by simp
  qed
qed

lemma readMPUB_unfold:
  assumes "go_div (maxBodySize - 4) 5 = Some k"
  shows "readMPUB clock nows m maxBodySize (be32 v @ r) t =
    (if sint v \<le> 0 \<or> sint v > k then Some (Inl (FatalClientErr ''E_BAD_BODY''), r, t)
     else readMPUB_loop clock nows m (nat (sint v)) 0 [] r t)"
  using assms by (simp add: readMPUB_def)

definition batch_ok :: "int \<Rightarrow> int \<Rightarrow> bytes list \<Rightarrow> bool" where
  "batch_ok maxMessageSize maxBodySize bodies \<longleftrightarrow>
     bodies \<noteq> [] \<and> length bodies < 2 ^ 31 \<and> int (length bodies) \<le> the (go_div (maxBodySize - 4) 5) \<and> list_all (body_ok maxMessageSize) bodies"

lemma batch_sound:
  assumes "readMPUB clock nows m maxBodySize r t = Some (Inr ms, rest, t')"
  shows "r = batch (map msg_Body ms) @ rest \<and> batch_ok m maxBodySize (map msg_Body ms) \<and> take_ids clock nows 0 (map msg_Body ms) t = Some (ms, t')"
proof (cases rule: readLen_cases [of r])
  case 1
  with assms show ?thesis by (simp add: readMPUB_def go_div_def)
next
  case (2 v r1)
  define k where "k = nat (sint v)"
  obtain l where l: "go_div (maxBodySize - 4) 5 = Some l" by (simp add: go_div_def)
  from assms have v: "0 < sint v" "sint v \<le> l" and loop: "readMPUB_loop clock nows m k 0 [] r1 t = Some (Inr ms, rest, t')"
    unfolding 2(1) readMPUB_unfold [OF l] k_def by (auto split: if_splits)
  from loop [unfolded read_loop_exact] obtain bodies where b: "length bodies = k" "list_all (body_ok m) bodies"
    "r1 = concat (map sized bodies) @ rest" "take_ids clock nows 0 bodies t = Some (ms, t')" by auto
  have bodies: "map msg_Body ms = bodies" by (rule take_ids_bodies [OF b(4)])
  have w: "v = of_nat k" by (rule sint_nat) (use v(1) in \<open>simp add: k_def\<close>)
  have k: "0 < k" "int k \<le> l" "k < 2 ^ 31" using v sint_lt [of v] by (simp_all add: k_def)
  have "r = batch bodies @ rest" unfolding 2(1) w batch_def b(1) b(3) by simp
  moreover have "batch_ok m maxBodySize bodies" using b(1, 2) k by (auto simp: batch_ok_def l)
  ultimately show ?thesis unfolding bodies using b(4) by simp
qed

lemma batch_complete:
  assumes "batch_ok m maxBodySize bodies" "take_ids clock nows 0 bodies t = Some (ms, t')"
  shows "readMPUB clock nows m maxBodySize (batch bodies @ rest) t = Some (Inr ms, rest, t')"
proof -
  obtain l where l: "go_div (maxBodySize - 4) 5 = Some l" by (simp add: go_div_def)
  have len: "0 < length bodies" "length bodies < 2 ^ 31" "int (length bodies) \<le> l" "list_all (body_ok m) bodies"
    using assms(1) by (simp_all add: batch_ok_def l)
  have v: "sint (of_nat (length bodies) :: u32) = int (length bodies)" by (rule sint_of_length [OF len(2)])
  have "readMPUB_loop clock nows m (length bodies) 0 [] (concat (map sized bodies) @ rest) t = Some (Inr ms, rest, t')"
    unfolding read_loop_exact using len(4) assms(2) by (intro exI [of _ bodies] exI [of _ ms]) simp
  with len show ?thesis unfolding batch_def append_assoc readMPUB_unfold [OF l] v by simp
qed

text \<open>
  C16. The reader of \<open>MPUB\<close> accepts exactly the well-formed batches: it returns messages and the rest of the input if and only if the input is the
  encoding of their bodies followed by that rest, every body and their number are within the limits, and the messages are the bodies in order, each
  with an identifier of its own taken from the topic.\<close>

theorem mpub_reads_batches:
  "readMPUB clock nows maxMessageSize maxBodySize r t = Some (Inr ms, rest, t') \<longleftrightarrow>
     r = batch (map msg_Body ms) @ rest \<and> batch_ok maxMessageSize maxBodySize (map msg_Body ms) \<and>
     take_ids clock nows 0 (map msg_Body ms) t = Some (ms, t')"
  using batch_sound batch_complete by metis

section \<open>Authorization\<close>

definition allowed :: "'b cmd_env \<Rightarrow> string \<Rightarrow> string \<Rightarrow> client_v2 \<Rightarrow> bool" where
  "allowed env topicName channelName c =
     (case cv_AuthState c of None \<Rightarrow> False | Some a \<Rightarrow> au_IsAllowed (ae_rx env) a topicName channelName = Some True)"

lemma IsAuthorized_allows:
  "IsAuthorized opts env topicName channelName c = Some (Inr True, c') \<Longrightarrow>
     \<exists>a. cv_AuthState c' = Some a \<and> au_IsAllowed (ae_rx env) a topicName channelName = Some True"
  by (auto simp: IsAuthorized_def bind_eq_Some_conv split: option.splits if_splits)

lemma truncate_rx [simp]: "ae_rx (auth_env.truncate env) = ae_rx env"
  by (simp add: auth_env.truncate_def)

lemma CheckAuth_allows:
  assumes "IsAuthEnabled opts" "CheckAuth opts env topicName channelName c = Some (None, c')"
  shows "allowed env topicName channelName c'"
proof -
  have auth: "HasAuthorizations c" using assms by (rule_tac ccontr) (simp add: CheckAuth_def)
  with assms obtain x where x: "IsAuthorized opts (auth_env.truncate env) topicName channelName c = Some x"
    by (cases "IsAuthorized opts (auth_env.truncate env) topicName channelName c") (simp_all add: CheckAuth_def)
  obtain r c1 where rc: "x = (r, c1)" by (cases x)
  from assms auth x rc have "c1 = c'" "r = Inr True" by (cases r; simp add: CheckAuth_def split: if_splits)+
  with IsAuthorized_allows [of opts "auth_env.truncate env" topicName channelName c c'] x rc show ?thesis by (auto simp: allowed_def)
qed

text \<open>A result that has left the daemon as it was, or whose client is allowed to do what it asked for.\<close>

definition gated :: "'b cmd_env \<Rightarrow> string \<Rightarrow> string \<Rightarrow> 'b nsqd \<Rightarrow> outcome \<times> client_v2 \<times> 'b nsqd \<Rightarrow> bool" where
  "gated env topicName channelName nd x \<longleftrightarrow> (case x of (out, c', nd') \<Rightarrow> nd' = nd \<or> allowed env topicName channelName c')"

lemma gated_same: "pred_option (gated env topicName channelName nd) (Some (out, c', nd))"
  by (simp add: gated_def)

lemma gated_allowed:
  assumes "IsAuthEnabled opts" "CheckAuth opts env topicName channelName c = Some x" "x = (e, c1)" "e = None" "cv_AuthState c' = cv_AuthState c1"
  shows "pred_option (gated env topicName channelName nd) (Some (out, c', nd'))"
  using CheckAuth_allows [of opts env topicName channelName c c1] assms by (simp add: gated_def allowed_def)

lemma publish_gated:
  assumes "IsAuthEnabled opts"
  shows "pred_option (gated env topicName '''' nd) (publish B opts env code topicName body d c nd)"
  unfolding publish_def Let_def
  by (intro result_rules gated_same; (rule gated_allowed [OF assms], assumption, assumption, assumption, simp add: PublishedMessage_def))

lemma PUB_gated: "IsAuthEnabled opts \<Longrightarrow> pred_option (gated env (str_of (params ! 1)) '''' nd) (PUB B opts env params c nd)"
  unfolding PUB_def Let_def by (intro result_rules gated_same publish_gated)

lemma DPUB_gated: "IsAuthEnabled opts \<Longrightarrow> pred_option (gated env (str_of (params ! 1)) '''' nd) (DPUB B opts env params c nd)"
  unfolding DPUB_def Let_def by (intro result_rules gated_same publish_gated)

lemma MPUB_gated:
  assumes "IsAuthEnabled opts"
  shows "pred_option (gated env (str_of (params ! 1)) '''' nd) (MPUB B opts env params c nd)"
  unfolding MPUB_def Let_def
  by (intro result_rules gated_same; (rule gated_allowed [OF assms], assumption, assumption, assumption, simp add: PublishedMessage_def))

lemma SUB_gated:
  assumes "IsAuthEnabled opts"
  shows "pred_option (gated env (str_of (params ! 1)) (str_of (params ! 2)) nd) (SUB B opts env params c nd)"
  unfolding SUB_def Let_def
  by (intro result_rules gated_same; (rule gated_allowed [OF assms], assumption, assumption, assumption, simp))

text \<open>
  C17. When the daemon requires authorization, a command that publishes or subscribes and changes anything of the daemon leaves its client with an
  authorization that allows it: to publish to the topic, or to subscribe to the channel of the topic. An authorization that had expired was queried anew.\<close>

theorem auth_gates_commands:
  assumes "IsAuthEnabled opts" "str_of cmd \<in> {''PUB'', ''DPUB'', ''MPUB'', ''SUB''}"
    "Exec B opts env (cmd # topic # args) c nd = Some (out, c', nd')" "nd' \<noteq> nd"
  shows "\<exists>a. cv_AuthState c' = Some a \<and>
    au_IsAllowed (ae_rx env) a (str_of topic) (if str_of cmd = ''SUB'' then str_of (args ! 0) else '''') = Some True"
proof -
  let ?ps = "cmd # topic # args"
  have "pred_option (gated env (str_of topic) (if str_of cmd = ''SUB'' then str_of (args ! 0) else '''') nd) (Exec B opts env ?ps c nd)"
  proof (cases "str_of cmd = ''SUB''")
    case True
    with SUB_gated [OF assms(1), of env ?ps nd B c] show ?thesis
      unfolding Exec_def list.case Let_def by (intro result_rules gated_same) (simp_all add: numeral_2_eq_2)
  next
    case False
    with assms(2) PUB_gated [OF assms(1), of env ?ps nd B c] DPUB_gated [OF assms(1), of env ?ps nd B c] MPUB_gated [OF assms(1), of env ?ps nd B c]
    show ?thesis unfolding Exec_def list.case Let_def by (intro result_rules gated_same) auto
  qed
  with assms(3, 4) show ?thesis by (auto simp: gated_def allowed_def split: option.splits)
qed

text \<open>A daemon that requires authorization, and a client that may publish everywhere.\<close>

definition sample_env :: "unit cmd_env" where
  "sample_env = \<lparr>ae_rx = \<lparr>rx_ok = (\<lambda>_. True), rx_match = (\<lambda>_ _. True)\<rparr>, ae_get = (\<lambda>_ _. None), ae_now = 0, ae_start = 0, ae_remoteIP = None, ae_commonName = '''',
     ce_clock = (\<lambda>i. [2000000000000000000 + 10000000 * int i]), ce_nows = (\<lambda>i. int i), ce_sends = (\<lambda>_. True), ce_handshake = True,
     ce_flush = True, ce_decode = (\<lambda>_. None), ce_lookup = (\<lambda>_. []), ce_openTopic = (\<lambda>_. ()), ce_openChannel = (\<lambda>_ _. ())\<rparr>"

definition to_bytes :: "string \<Rightarrow> bytes" where
  "to_bytes s = map (\<lambda>c. of_nat (of_char c)) s"

definition auth_opts :: nsqd_options where
  "auth_opts = NewOptions\<lparr>op_MemQueueSize := 2, op_AuthHTTPAddresses := [''auth'']\<rparr>"

definition auth_client :: client_v2 where
  "auth_client = (newClientV2 auth_opts 1 ''a'' [0, 0, 0, 1, 65])\<lparr>cv_AuthState := Some \<lparr>au_TTL = 1,
     au_Authorizations = [\<lparr>az_Topic = ''.*'', az_Channels = [''.*''], az_Permissions = [''publish'']\<rparr>],
     au_Identity = '''', au_IdentityURL = '''', au_Expires = 1\<rparr>\<rparr>"

lemma auth_sample:
  "map_option (\<lambda>(_, _, nd). length (nd_topics nd))
     (Exec (dummyBackendQueue :: (unit, unit) backend) auth_opts sample_env (to_bytes ''PUB'' # to_bytes ''t'' # []) auth_client nsqd_New) = Some 1"
  by code_simp

theorem auth_gates_commands_witness:
  "\<exists>out c' nd' a. Exec (dummyBackendQueue :: (unit, unit) backend) auth_opts sample_env (to_bytes ''PUB'' # to_bytes ''t'' # []) auth_client nsqd_New = Some (out, c', nd') \<and>
     nd' \<noteq> nsqd_New \<and> cv_AuthState c' = Some a \<and> au_IsAllowed (ae_rx sample_env) a (str_of (to_bytes ''t'')) '''' = Some True"
proof -
  have pub: "str_of (to_bytes ''PUB'') = ''PUB''" "IsAuthEnabled auth_opts" by code_simp+
  from auth_sample obtain out c' nd' where e: "Exec (dummyBackendQueue :: (unit, unit) backend) auth_opts sample_env (to_bytes ''PUB'' # to_bytes ''t'' # []) auth_client nsqd_New = Some (out, c', nd')"
    and n: "length (nd_topics nd') = 1" by auto
  have "nd' \<noteq> nsqd_New" using n by (auto simp: nsqd_New_def)
  with auth_gates_commands [OF pub(2) _ e] pub(1) e show ?thesis by auto
qed

section \<open>Sizes and timeouts\<close>

text \<open>The size that \<open>MPUB\<close> declares for its body decides nothing but whether it is within the limit: the batch is read as if it were not there.\<close>

theorem mpub_size_ignored:
  assumes "0 < sint v" "sint v \<le> op_MaxBodySize opts" "0 < sint w" "sint w \<le> op_MaxBodySize opts" "\<not> IsAuthEnabled opts"
    "2 \<le> length params" "isValidName (str_of (params ! 1))"
  shows "MPUB B opts env params (c\<lparr>cv_Reader := be32 v @ r\<rparr>) nd = MPUB B opts env params (c\<lparr>cv_Reader := be32 w @ r\<rparr>) nd"
  using assms by (simp add: MPUB_def CheckAuth_def Let_def not_less [symmetric])

text \<open>A deferred publish with a delay far beyond the limit is accepted with a short one: the product with the nanoseconds of a millisecond wraps around.\<close>

theorem timeout_wraps:
  "ByteToBase10 (to_bytes ''18446744073710'') = Inr 18446744073710 \<and> timeout_ns 18446744073710 = 448384 \<and>
     op_MaxReqTimeout NewOptions < 18446744073710 * 1000000"
proof (intro conjI)
  show "ByteToBase10 (to_bytes ''18446744073710'') = Inr 18446744073710" by code_simp
  show "timeout_ns 18446744073710 = 448384" by code_simp
qed (simp add: NewOptions_def)

text \<open>The random start of the round over the authorization daemons can overflow: the index is negative and the daemon panics.\<close>

theorem query_start_overflows:
  "QueryAnyAuthd rx (\<lambda>_ _. None) (2 ^ 63 - 1) now [''a'', ''b'', ''c''] q = None"
  by (simp add: QueryAnyAuthd_def QueryAuthd_def go_mod_def go_nth_def s64_def numeral_eq_Suc)

end
