(* ===== verification/Nsq_Flow_Props.thy ===== *)
theory Nsq_Flow_Props
  imports Nsq_Flow Nsq_Protocol_Props
begin

text \<open>
  The invariant of \<open>Nsq_Flow\<close> holds in every reachable state of the daemon when each command, each scan and each \<open>Empty\<close> runs without
  interruption, so then no client has more messages in flight than the largest ready count. The theory ends with two schedules around
  \<open>Empty\<close>: one in which a client starves although nothing is in flight, and one, in the middle of \<open>Empty\<close>, after which the counter of a
  client misses a message in flight.
\<close>

section \<open>Topics and calls\<close>

definition fits :: "int \<Rightarrow> 'b nsqd \<Rightarrow> bool" where
  "fits M nd \<longleftrightarrow> clients_fit M nd \<and> chans_fit nd"

lemma flow_ok_iff: "flow_ok M nd \<longleftrightarrow> fits M nd \<and> no_calls nd"
  by (auto simp: flow_ok_def fits_def)

lemma no_callsD: "no_calls nd \<Longrightarrow> chan_at nd p = Some ch \<Longrightarrow> ch_calls ch = []"
  unfolding no_calls_def by blast

lemma flow_okD:
  assumes "flow_ok M nd"
  shows "fits M nd" "no_calls nd"
  using assms by (simp_all add: flow_ok_iff)

lemma fitsD:
  assumes "fits M nd"
  shows "nd_clients nd i = Some c \<Longrightarrow> cv_ID c = i" "nd_clients nd i = Some c \<Longrightarrow> i \<le> nd_clientIDSequence nd"
    "nd_clients nd i = Some c \<Longrightarrow> client_fits M (nd_pumps nd i) c"
    "nd_clients nd i = Some c \<Longrightarrow> cv_Channel c = Some p \<Longrightarrow> chan_at nd p \<noteq> None"
    "chan_at nd p = Some ch \<Longrightarrow> chan_fits (nd_clients nd) (nd_pumps nd) p ch"
  using assms unfolding fits_def clients_fit_def chans_fit_def by blast+

lemma fitsI:
  assumes "\<And>i c. nd_clients nd i = Some c \<Longrightarrow> cv_ID c = i \<and> i \<le> nd_clientIDSequence nd \<and> client_fits M (nd_pumps nd i) c"
    "\<And>i c p. nd_clients nd i = Some c \<Longrightarrow> cv_Channel c = Some p \<Longrightarrow> chan_at nd p \<noteq> None"
    "\<And>p ch. chan_at nd p = Some ch \<Longrightarrow> chan_fits (nd_clients nd) (nd_pumps nd) p ch"
  shows "fits M nd"
  using assms unfolding fits_def clients_fit_def chans_fit_def by blast

text \<open>A channel whose clients stay with it and whose messages in flight stay within the counters.\<close>

definition lasting :: "nat \<times> nat \<Rightarrow> (int \<Rightarrow> client_v2 option) \<Rightarrow> (int \<Rightarrow> client_v2 option) \<Rightarrow> bool" where
  "lasting p cs cs' \<longleftrightarrow> (\<forall>i c. cs i = Some c \<longrightarrow> cv_Channel c = Some p \<longrightarrow> (\<exists>c'. cs' i = Some c' \<and> cv_Channel c' = Some p))"

lemma chan_fits_mono:
  assumes fits: "chan_fits cs ps p ch" and last: "lasting p cs cs'"
    and sub: "\<And>i. i \<in> set (ch_clients ch') \<or> i \<in> fst ` set (ch_calls ch') \<or> 0 < in_flight ch' i \<Longrightarrow>
      i \<in> set (ch_clients ch) \<or> i \<in> fst ` set (ch_calls ch) \<or> 0 < in_flight ch i \<or> (\<exists>c. cs' i = Some c \<and> cv_Channel c = Some p)"
    and count: "\<And>i c'. cs' i = Some c' \<Longrightarrow> cv_Channel c' = Some p \<Longrightarrow>
      int (in_flight ch' i) \<le> after_calls i (ch_calls ch') (cv_InFlightCount c') + uncounted (pu_pc (ps' i)) \<or>
      (\<exists>c. cs i = Some c \<and> cv_Channel c = Some p \<and> in_flight ch' i \<le> in_flight ch i \<and>
        after_calls i (ch_calls ch) (cv_InFlightCount c) + uncounted (pu_pc (ps i)) \<le>
        after_calls i (ch_calls ch') (cv_InFlightCount c') + uncounted (pu_pc (ps' i)))"
  shows "chan_fits cs' ps' p ch'"
  unfolding chan_fits_def
proof (intro conjI allI impI)
  fix i assume "i \<in> set (ch_clients ch') \<or> 0 < in_flight ch' i \<or> i \<in> fst ` set (ch_calls ch')"
  then consider "\<exists>c. cs i = Some c \<and> cv_Channel c = Some p" | "\<exists>c. cs' i = Some c \<and> cv_Channel c = Some p"
    using sub [of i] fits unfolding chan_fits_def by blast
  then show "\<exists>c. cs' i = Some c \<and> cv_Channel c = Some p" using last unfolding lasting_def by cases blast+
next
  fix i c' assume c': "cs' i = Some c'" "cv_Channel c' = Some p"
  from count [OF this] show "int (in_flight ch' i) \<le> after_calls i (ch_calls ch') (cv_InFlightCount c') + uncounted (pu_pc (ps' i))"
  proof (elim disjE exE conjE)
    fix c assume c: "cs i = Some c" "cv_Channel c = Some p" "in_flight ch' i \<le> in_flight ch i"
      "after_calls i (ch_calls ch) (cv_InFlightCount c) + uncounted (pu_pc (ps i)) \<le> after_calls i (ch_calls ch') (cv_InFlightCount c') + uncounted (pu_pc (ps' i))"
    with fits have "int (in_flight ch i) \<le> after_calls i (ch_calls ch) (cv_InFlightCount c) + uncounted (pu_pc (ps i))" unfolding chan_fits_def by blast
    with c(3, 4) show ?thesis by linarith
  qed
qed

lemma set_topic_fits:
  assumes fits: "fits M nd" and t: "topic_at nd k = Some t" and rel: "topic_rel settles t t'"
  shows "fits M (set_topic k t' nd)"
proof -
  have k: "k < length (nd_topics nd)" "t = nd_topics nd ! k" using t by (auto simp: topic_at_def split: if_splits)
  note at = chan_at_set_topic [OF k(1), of t']
  have old: "chan_at nd p = store_at t (snd p)" if "fst p = k" for p using that t by (simp add: chan_at_def)
  have len: "length (t_store t) \<le> length (t_store t')" using rel by (simp add: topic_rel_def)
  show ?thesis
  proof (rule fitsI)
    fix i c p assume "nd_clients (set_topic k t' nd) i = Some c" "cv_Channel c = Some p"
    with fitsD(4) [OF fits] have "chan_at nd p \<noteq> None" by simp
    then show "chan_at (set_topic k t' nd) p \<noteq> None" using len by (auto simp: at old store_at_def split: if_splits)
  next
    fix p ch assume ch: "chan_at (set_topic k t' nd) p = Some ch"
    show "chan_fits (nd_clients (set_topic k t' nd)) (nd_pumps (set_topic k t' nd)) p ch"
    proof (cases "fst p = k")
      case False
      with ch fitsD(5) [OF fits] show ?thesis by (simp add: at)
    next
      case True
      with ch have j: "snd p < length (t_store t')" "ch = t_store t' ! snd p" by (auto simp: at store_at_def split: if_splits)
      show ?thesis
      proof (cases "snd p < length (t_store t)")
        case in_t: True
        then have "chan_at nd p = Some (t_store t ! snd p)" using old [OF True] by (simp add: store_at_def)
        moreover have "settles (t_store t ! snd p) ch" using rel j in_t unfolding topic_rel_def by auto
        ultimately show ?thesis using chan_fits_settles [OF fitsD(5) [OF fits]] by simp
      next
        case new: False
        then have none: "chan_at nd p = None" using old [OF True] by (simp add: store_at_def)
        have "fresh ch" using rel j new unfolding topic_rel_def by auto
        moreover have "cv_Channel c \<noteq> Some p" if "nd_clients nd i = Some c" for i c using fitsD(4) [OF fits that] none by blast
        ultimately show ?thesis by (auto simp: chan_fits_def fresh_def)
      qed
    qed
  qed (use fitsD(1-3) [OF fits] in simp)
qed

lemma set_topic_ok:
  assumes "flow_ok M nd" "topic_at nd k = Some t" "topic_rel quiet t t'"
  shows "flow_ok M (set_topic k t' nd)"
proof -
  have k: "k < length (nd_topics nd)" using assms(2) by (auto simp: topic_at_def split: if_splits)
  have "ch_calls ch = []" if ch: "chan_at (set_topic k t' nd) p = Some ch" for p ch
  proof (cases "fst p = k \<and> snd p < length (t_store t)")
    case True
    then have "chan_at nd p = Some (t_store t ! snd p)" using assms(2) by (simp add: chan_at_def store_at_def)
    then have "ch_calls (t_store t ! snd p) = []" by (rule no_callsD [OF flow_okD(2) [OF assms(1)]])
    moreover have "quiet (t_store t ! snd p) ch" using ch True assms(3) by (auto simp: chan_at_set_topic [OF k] store_at_def topic_rel_def split: if_splits)
    ultimately show ?thesis by (simp add: quiet_def)
  next
    case False
    then consider "fst p \<noteq> k" | "fst p = k" "fresh ch"
      using ch assms(3) by (auto simp: chan_at_set_topic [OF k] store_at_def topic_rel_def split: if_splits)
    then show ?thesis using ch no_callsD [OF flow_okD(2) [OF assms(1)]] by cases (auto simp: chan_at_set_topic [OF k] fresh_def)
  qed
  moreover have "fits M (set_topic k t' nd)"
    by (rule set_topic_fits [OF _ assms(2) quiet_settles_topic [OF assms(3)]]) (use assms(1) in \<open>simp add: flow_ok_iff\<close>)
  ultimately show ?thesis by (simp add: flow_ok_iff no_calls_def)
qed

text \<open>What the calls make of a client.\<close>

definition called :: "int \<Rightarrow> (int \<times> consumer_call) list \<Rightarrow> client_v2 \<Rightarrow> client_v2" where
  "called i xs c = fold (\<lambda>(j, call) c. if j = i then client_call call c else c) xs c"

lemma fold_make_call: "fold make_call xs cs i = map_option (called i xs) (cs i)"
proof (induction xs arbitrary: cs)
  case (Cons x xs)
  then show ?case by (cases "cs i"; cases x) (auto simp: make_call_def called_def)
next
  case Nil
  then show ?case by (cases "cs i") (simp_all add: called_def)
qed

lemma client_call_simps:
  "cv_ID (client_call call c) = cv_ID c" "cv_ReadyCount (client_call call c) = cv_ReadyCount c" "cv_SubEvent (client_call call c) = cv_SubEvent c"
  "cv_Channel (client_call call c) = cv_Channel c" "cv_State (client_call call c) = cv_State c"
  "cv_InFlightCount (client_call call c) = (case call of CallTimedOutMessage \<Rightarrow> cv_InFlightCount c - 1 | CallEmpty \<Rightarrow> 0 | _ \<Rightarrow> cv_InFlightCount c)"
  by (simp_all add: client_call_def cv_Pause_def cv_UnPause_def TimedOutMessage_def cv_Empty_def tryUpdateReadyState_def split: consumer_call.splits)

lemma called_simps [simp]:
  "cv_ID (called i xs c) = cv_ID c" "cv_ReadyCount (called i xs c) = cv_ReadyCount c" "cv_SubEvent (called i xs c) = cv_SubEvent c"
  "cv_Channel (called i xs c) = cv_Channel c" "cv_State (called i xs c) = cv_State c"
  "cv_InFlightCount (called i xs c) = after_calls i xs (cv_InFlightCount c)"
  unfolding called_def by (induction xs arbitrary: c) (auto simp: client_call_simps)

lemma reserve_range: "0 \<le> reserve pc" "reserve pc \<le> 1" "uncounted pc \<le> reserve pc" "0 \<le> uncounted pc"
  by (simp_all add: reserve_def uncounted_def split: client_pc.splits)

text \<open>The calls of one channel, made: its clients take them, the clients of other channels do not see them.\<close>

lemma calls_other:
  assumes "chan_fits cs ps p ch" "cs i = Some c" "cv_Channel c \<noteq> Some p"
  shows "after_calls i (ch_calls ch) n = n"
  using assms unfolding chan_fits_def by (metis after_calls_other option.inject)

lemma called_fits:
  assumes f: "client_fits M pu c" and none: "cv_Channel c = None \<Longrightarrow> after_calls i xs (cv_InFlightCount c) = cv_InFlightCount c"
  shows "client_fits M pu (called i xs c)"
proof -
  have "after_calls i xs (cv_InFlightCount c) \<le> M - reserve (pu_pc pu)"
    using after_calls_le [of i xs "cv_InFlightCount c"] f by (auto simp: client_fits_def max_def split: if_splits)
  with f none show ?thesis by (simp add: client_fits_def)
qed

lemma make_calls_simps:
  assumes "chan_at nd p = Some ch"
  shows "chan_at (make_calls nd p) q = (if q = p then Some (ch\<lparr>ch_calls := []\<rparr>) else chan_at nd q)"
    "nd_clients (make_calls nd p) i = map_option (called i (ch_calls ch)) (nd_clients nd i)" "nd_pumps (make_calls nd p) = nd_pumps nd"
    "nd_clientIDSequence (make_calls nd p) = nd_clientIDSequence nd"
  by (simp_all add: make_calls_def assms fold_make_call chan_at_set_chan [OF assms])

lemma make_calls_fits:
  assumes fits: "fits M nd" and ch: "chan_at nd p = Some ch"
  shows "fits M (make_calls nd p)"
proof (rule fitsI)
  note nd = make_calls_simps [OF ch] and own = fitsD(5) [OF fits ch]
  let ?nd = "make_calls nd p" and ?xs = "ch_calls ch"
  fix i c' assume "nd_clients ?nd i = Some c'"
  then obtain c where c: "nd_clients nd i = Some c" "c' = called i ?xs c" by (auto simp: nd)
  have "client_fits M (nd_pumps nd i) c'" unfolding c(2)
    by (rule called_fits [OF fitsD(3) [OF fits c(1)]]) (use calls_other [OF own c(1)] in simp)
  then show "cv_ID c' = i \<and> i \<le> nd_clientIDSequence ?nd \<and> client_fits M (nd_pumps ?nd i) c'"
    using fitsD(1, 2) [OF fits c(1)] by (simp add: c(2) nd)
next
  note nd = make_calls_simps [OF ch]
  fix i c' q assume "nd_clients (make_calls nd p) i = Some c'" "cv_Channel c' = Some q"
  then obtain c where "nd_clients nd i = Some c" "cv_Channel c = Some q" by (auto simp: nd)
  then show "chan_at (make_calls nd p) q \<noteq> None" using fitsD(4) [OF fits] nd(1) [of q] by simp
next
  note nd = make_calls_simps [OF ch] and own = fitsD(5) [OF fits ch]
  let ?nd = "make_calls nd p"
  fix q ch' assume ch': "chan_at ?nd q = Some ch'"
  then obtain ch0 where ch0: "chan_at nd q = Some ch0" "ch_clients ch' = ch_clients ch0" "in_flight ch' = in_flight ch0"
    "ch_calls ch' = (if q = p then [] else ch_calls ch0)" "q = p \<longrightarrow> ch0 = ch"
    using ch by (auto simp: nd in_flight_def fun_eq_iff split: if_splits)
  have count: "after_calls i (ch_calls ch0) (cv_InFlightCount c) = after_calls i (ch_calls ch') (cv_InFlightCount (called i (ch_calls ch) c))"
    if c: "nd_clients nd i = Some c" "cv_Channel c = Some q" for i c
    using calls_other [OF own c(1)] c(2) ch0(4, 5) by (cases "q = p") auto
  show "chan_fits (nd_clients ?nd) (nd_pumps ?nd) q ch'"
  proof (rule chan_fits_mono [OF fitsD(5) [OF fits ch0(1)]])
    show "lasting q (nd_clients nd) (nd_clients ?nd)" by (auto simp: lasting_def nd)
  next
    fix i c' assume "nd_clients ?nd i = Some c'" "cv_Channel c' = Some q"
    then obtain c where "nd_clients nd i = Some c" "c' = called i (ch_calls ch) c" "cv_Channel c = Some q" by (auto simp: nd)
    with count [of i c] ch0(3) show "int (in_flight ch' i) \<le> after_calls i (ch_calls ch') (cv_InFlightCount c') + uncounted (pu_pc (nd_pumps ?nd i)) \<or>
        (\<exists>c. nd_clients nd i = Some c \<and> cv_Channel c = Some q \<and> in_flight ch' i \<le> in_flight ch0 i \<and>
          after_calls i (ch_calls ch0) (cv_InFlightCount c) + uncounted (pu_pc (nd_pumps nd i)) \<le>
          after_calls i (ch_calls ch') (cv_InFlightCount c') + uncounted (pu_pc (nd_pumps ?nd i)))" by (simp add: nd(3))
  qed (use ch0 in \<open>auto split: if_splits\<close>)
qed

lemma chan_at_make_calls:
  "chan_at (make_calls nd p) q = (if q = p then map_option (\<lambda>ch. ch\<lparr>ch_calls := []\<rparr>) (chan_at nd q) else chan_at nd q)"
proof (cases "chan_at nd p")
  case None
  then show ?thesis by (simp add: make_calls_def)
qed (simp add: make_calls_simps)

lemma chan_at_calls:
  "chan_at (foldl make_calls nd ps) q = (if q \<in> set ps then map_option (\<lambda>ch. ch\<lparr>ch_calls := []\<rparr>) (chan_at nd q) else chan_at nd q)"
proof (induction ps rule: rev_induct)
  case (snoc p ps)
  then show ?case by (cases "chan_at nd q") (auto simp: chan_at_make_calls)
qed simp

lemma chan_at_take_calls:
  "chan_at (take_calls k nd) q = (if fst q = k then map_option (\<lambda>ch. ch\<lparr>ch_calls := []\<rparr>) (chan_at nd q) else chan_at nd q)"
proof (cases "topic_at nd k")
  case None
  then show ?thesis by (auto simp: take_calls_def chan_at_def)
next
  case (Some t)
  have "chan_at nd q = None" if "fst q = k" "\<not> snd q < length (t_store t)" using that Some by (simp add: chan_at_def store_at_def)
  moreover have "q \<in> set (map (Pair k) [0..<length (t_store t)]) \<longleftrightarrow> fst q = k \<and> snd q < length (t_store t)" by (cases q) auto
  ultimately show ?thesis using Some unfolding take_calls_def by (simp add: chan_at_calls)
qed

lemma calls_fits: "fits M nd \<Longrightarrow> fits M (foldl make_calls nd ps)"
proof (induction ps rule: rev_induct)
  case (snoc p ps)
  have "make_calls x p = x" if "chan_at x p = None" for x :: "'a nsqd" using that by (simp add: make_calls_def)
  with snoc show ?case by (cases "chan_at (foldl make_calls nd ps) p") (simp_all add: make_calls_fits)
qed simp

lemma take_calls_ok:
  assumes fits: "fits M nd" and quiet: "\<And>p ch. chan_at nd p = Some ch \<Longrightarrow> fst p \<noteq> k \<Longrightarrow> ch_calls ch = []"
  shows "flow_ok M (take_calls k nd)"
proof -
  have "fits M (take_calls k nd)" using fits by (auto simp: take_calls_def calls_fits split: option.splits)
  moreover have "ch_calls ch = []" if "chan_at (take_calls k nd) p = Some ch" for p ch
    using that quiet [of p ch] by (auto simp: chan_at_take_calls split: if_splits)
  ultimately show ?thesis by (simp add: flow_ok_iff no_calls_def)
qed

lemma GetTopic_ok:
  assumes ok: "flow_ok M nd" and g: "GetTopic B opts env name nd = Some (k, nd')"
  shows "flow_ok M nd' \<and> nd_clients nd' = nd_clients nd \<and> nd_pumps nd' = nd_pumps nd \<and> nd_clientIDSequence nd' = nd_clientIDSequence nd"
proof (cases "map_of (nd_topicMap nd) name")
  case (Some k')
  with g ok show ?thesis by (simp add: GetTopic_def)
next
  case None
  let ?t = "NewTopic (op_MemQueueSize opts) (op_ID opts) name (ce_openTopic env name)" and ?k = "length (nd_topics nd)"
  let ?nd = "nd\<lparr>nd_topics := nd_topics nd @ [?t], nd_topicMap := (name, ?k) # nd_topicMap nd\<rparr>"
  have at: "chan_at ?nd p = chan_at nd p" for p
    by (cases "fst p = ?k") (auto simp: chan_at_def topic_at_def nth_append store_at_def NewTopic_def)
  have f: "fits M ?nd" using flow_okD(1) [OF ok] unfolding fits_def clients_fit_def chans_fit_def at by simp
  moreover have "no_calls ?nd" using flow_okD(2) [OF ok] unfolding no_calls_def at .
  ultimately have ok1: "flow_ok M ?nd" by (simp add: flow_ok_iff)
  show ?thesis
  proof (cases "nd_isLoading nd")
    case True
    with g None have "nd' = ?nd" by (auto simp: GetTopic_def Let_def)
    with ok1 show ?thesis by simp
  next
    case False
    with g None obtain t where t: "pre_create B (op_MemQueueSize opts) (ce_openChannel env name) (ce_lookup env name) ?t = Some t"
      and nd': "nd' = set_topic ?k (t_Start t) ?nd" by (auto simp: GetTopic_def Let_def bind_eq_Some_conv)
    have "topic_at ?nd ?k = Some ?t" by (simp add: topic_at_def)
    moreover have "topic_rel quiet ?t (t_Start t)" using pre_create_quiet [OF t] unfolding topic_rel_def by (simp add: t_Start_def)
    ultimately show ?thesis unfolding nd' using set_topic_ok [OF ok1] by simp
  qed
qed

section \<open>Commands\<close>

text \<open>What the invariant reads of a client.\<close>

definition core :: "client_v2 \<Rightarrow> int \<times> int \<times> int \<times> (nat \<times> nat) option \<times> (nat \<times> nat) option \<times> client_state" where
  "core c = (cv_ID c, cv_ReadyCount c, cv_InFlightCount c, cv_SubEvent c, cv_Channel c, cv_State c)"

definition ok_with :: "int \<Rightarrow> client_v2 \<Rightarrow> 'b nsqd \<Rightarrow> bool" where
  "ok_with M c nd \<longleftrightarrow> flow_ok M (put_client c nd)"

lemma topic_at_put [simp]: "topic_at (put_client c nd) k = topic_at nd k"
  by (simp add: topic_at_def put_client_def)

lemma set_topic_put: "set_topic k t (put_client c nd) = put_client c (set_topic k t nd)"
  by (simp add: set_topic_def put_client_def)

lemma set_chan_put: "set_chan p ch (put_client c nd) = put_client c (set_chan p ch nd)"
  by (simp add: set_chan_def put_client_def set_topic_def Let_def)

text \<open>A step of one client that changes its channel: the messages in flight become no more, and those of the client stay within its counter.\<close>

lemma put_client_fits:
  assumes f: "fits M (put_client c nd)" and id: "cv_ID c' = cv_ID c" and client: "client_fits M (nd_pumps nd (cv_ID c)) c'"
    and same: "nd_clients nd' = nd_clients nd" "nd_pumps nd' = nd_pumps nd" "nd_clientIDSequence nd' = nd_clientIDSequence nd"
    and c1: "nd_clients (put_client c' nd') j = Some c1"
  shows "cv_ID c1 = j \<and> j \<le> nd_clientIDSequence (put_client c' nd') \<and> client_fits M (nd_pumps (put_client c' nd') j) c1"
proof (cases "j = cv_ID c")
  case True
  with c1 id have "c1 = c'" by simp
  with True client id fitsD(2) [OF f, of "cv_ID c" c] show ?thesis by (simp add: same)
next
  case False
  with c1 id have "nd_clients (put_client c nd) j = Some c1" by (simp add: same)
  from fitsD(1-3) [OF f this] show ?thesis by (simp add: same)
qed

lemma client_step_ok:
  assumes ok: "ok_with M c nd" and id: "cv_ID c' = cv_ID c" and chan: "cv_Channel c' = Some p" and ch: "chan_at nd p = Some ch"
    and client: "client_fits M (nd_pumps nd (cv_ID c)) c'"
    and sub: "\<And>i. i \<in> set (ch_clients ch') \<Longrightarrow> i \<in> set (ch_clients ch) \<or> i = cv_ID c" and calls: "ch_calls ch' = []"
    and le: "\<And>i. i \<noteq> cv_ID c \<Longrightarrow> in_flight ch' i \<le> in_flight ch i" and own: "int (in_flight ch' (cv_ID c)) \<le> cv_InFlightCount c' + uncounted (pu_pc (nd_pumps nd (cv_ID c)))"
    and same: "cv_Channel c = Some p \<or> cv_Channel c = None"
  shows "ok_with M c' (set_chan p ch' nd)"
proof -
  let ?i = "cv_ID c" and ?nd = "put_client c nd" and ?nd' = "put_client c' (set_chan p ch' nd)"
  note f = flow_okD [OF ok [unfolded ok_with_def]]
  have at: "chan_at ?nd' q = (if q = p then Some ch' else chan_at nd q)" for q by (simp add: chan_at_set_chan [OF ch])
  have at_p: "chan_at ?nd p = Some ch" using ch by simp
  have none: "ch_calls ch = []" by (rule no_callsD [OF f(2) at_p])
  have cl: "nd_clients ?nd' j = (if j = ?i then Some c' else nd_clients ?nd j)" for j by (simp add: id)
  have "fits M ?nd'"
  proof (rule fitsI)
    fix j c1 assume "nd_clients ?nd' j = Some c1"
    then show "cv_ID c1 = j \<and> j \<le> nd_clientIDSequence ?nd' \<and> client_fits M (nd_pumps ?nd' j) c1"
      by (intro put_client_fits [OF f(1) id client]) simp_all
  next
    fix j c1 q assume "nd_clients ?nd' j = Some c1" "cv_Channel c1 = Some q"
    then consider "q = p" | "nd_clients ?nd j = Some c1" "cv_Channel c1 = Some q" using chan unfolding cl by (auto split: if_splits)
    then show "chan_at ?nd' q \<noteq> None" using fitsD(4) [OF f(1), of j c1 q] unfolding at by cases auto
  next
    fix q ch1 assume ch1: "chan_at ?nd' q = Some ch1"
    show "chan_fits (nd_clients ?nd') (nd_pumps ?nd') q ch1"
    proof (cases "q = p")
      case True
      with ch1 have ch1': "ch1 = ch'" unfolding at by simp
      show ?thesis
        unfolding True ch1'
      proof (rule chan_fits_mono [OF fitsD(5) [OF f(1) at_p]])
        show "lasting p (nd_clients ?nd) (nd_clients ?nd')" using chan by (auto simp: lasting_def id)
        fix j
        show "j \<in> set (ch_clients ch) \<or> j \<in> fst ` set (ch_calls ch) \<or> 0 < in_flight ch j \<or> (\<exists>c. nd_clients ?nd' j = Some c \<and> cv_Channel c = Some p)"
          if "j \<in> set (ch_clients ch') \<or> j \<in> fst ` set (ch_calls ch') \<or> 0 < in_flight ch' j"
          using that sub [of j] le [of j] calls chan unfolding cl by (cases "j = ?i") auto
        fix c1 assume "nd_clients ?nd' j = Some c1" "cv_Channel c1 = Some p"
        then show "int (in_flight ch' j) \<le> after_calls j (ch_calls ch') (cv_InFlightCount c1) + uncounted (pu_pc (nd_pumps ?nd' j)) \<or>
            (\<exists>c. nd_clients ?nd j = Some c \<and> cv_Channel c = Some p \<and> in_flight ch' j \<le> in_flight ch j \<and>
              after_calls j (ch_calls ch) (cv_InFlightCount c) + uncounted (pu_pc (nd_pumps ?nd j)) \<le>
              after_calls j (ch_calls ch') (cv_InFlightCount c1) + uncounted (pu_pc (nd_pumps ?nd' j)))"
          using own le [of j] unfolding cl by (cases "j = ?i") (auto simp: calls none id)
      qed
    next
      case False
      with ch1 have q: "chan_at ?nd q = Some ch1" unfolding at by simp
      show ?thesis
      proof (rule chan_fits_mono [OF fitsD(5) [OF f(1) q]])
        show "lasting q (nd_clients ?nd) (nd_clients ?nd')" using same False by (auto simp: lasting_def id)
      qed (use chan False in \<open>blast, auto simp: id split: if_splits\<close>)
    qed
  qed
  moreover have "no_calls ?nd'" unfolding no_calls_def at using calls no_callsD [OF f(2)] by simp
  ultimately show ?thesis by (simp add: ok_with_def flow_ok_iff)
qed

text \<open>A step of one client and its pump that leaves the channels alone.\<close>

lemma own_step_ok:
  assumes ok: "flow_ok M nd" and c: "nd_clients nd i = Some c" and id: "cv_ID c' = i" and chan: "cv_Channel c' = cv_Channel c"
    and client: "client_fits M pu c'"
    and counted: "cv_InFlightCount c + uncounted (pu_pc (nd_pumps nd i)) \<le> cv_InFlightCount c' + uncounted (pu_pc pu)"
  shows "flow_ok M (put_client c' (put_pump i pu nd))"
proof -
  let ?nd = "put_client c' (put_pump i pu nd)"
  note f = flow_okD [OF ok]
  have cl: "nd_clients ?nd j = (if j = i then Some c' else nd_clients nd j)" "nd_pumps ?nd j = (if j = i then pu else nd_pumps nd j)" for j
    by (simp_all add: id)
  have old: "\<exists>c2. nd_clients nd j = Some c2 \<and> cv_Channel c2 = cv_Channel c1 \<and>
      cv_InFlightCount c2 + uncounted (pu_pc (nd_pumps nd j)) \<le> cv_InFlightCount c1 + uncounted (pu_pc (nd_pumps ?nd j))"
    if "nd_clients ?nd j = Some c1" for j c1
    using that c counted chan unfolding cl by (cases "j = i") auto
  have "fits M ?nd"
  proof (rule fitsI)
    fix j c1 assume c1: "nd_clients ?nd j = Some c1"
    show "cv_ID c1 = j \<and> j \<le> nd_clientIDSequence ?nd \<and> client_fits M (nd_pumps ?nd j) c1"
    proof (cases "j = i")
      case True
      with c1 have "c1 = c'" unfolding cl by simp
      with True fitsD(2) [OF f(1) c] client show ?thesis by (simp add: id)
    next
      case False
      with c1 have "nd_clients nd j = Some c1" unfolding cl by simp
      from fitsD(1-3) [OF f(1) this] False show ?thesis by simp
    qed
  next
    fix j c1 q assume "nd_clients ?nd j = Some c1" "cv_Channel c1 = Some q"
    with old [of j c1] obtain c2 where "nd_clients nd j = Some c2" "cv_Channel c2 = Some q" by auto
    from fitsD(4) [OF f(1) this] show "chan_at ?nd q \<noteq> None" by simp
  next
    fix q ch assume "chan_at ?nd q = Some ch"
    then have at: "chan_at nd q = Some ch" by simp
    have none: "ch_calls ch = []" by (rule no_callsD [OF f(2) at])
    show "chan_fits (nd_clients ?nd) (nd_pumps ?nd) q ch"
    proof (rule chan_fits_mono [OF fitsD(5) [OF f(1) at]])
      show "lasting q (nd_clients nd) (nd_clients ?nd)" using c chan unfolding lasting_def cl by auto
    next
      fix j c1 assume c1: "nd_clients ?nd j = Some c1" "cv_Channel c1 = Some q"
      show "int (in_flight ch j) \<le> after_calls j (ch_calls ch) (cv_InFlightCount c1) + uncounted (pu_pc (nd_pumps ?nd j)) \<or>
          (\<exists>c. nd_clients nd j = Some c \<and> cv_Channel c = Some q \<and> in_flight ch j \<le> in_flight ch j \<and>
            after_calls j (ch_calls ch) (cv_InFlightCount c) + uncounted (pu_pc (nd_pumps nd j)) \<le>
            after_calls j (ch_calls ch) (cv_InFlightCount c1) + uncounted (pu_pc (nd_pumps ?nd j)))"
        using old [OF c1(1)] c1(2) unfolding none after_calls.simps by auto
    qed blast
  qed
  moreover have "no_calls ?nd" using f(2) by (simp add: no_calls_def)
  ultimately show ?thesis by (simp add: flow_ok_iff)
qed

lemma ok_with_fits: "ok_with M c nd \<Longrightarrow> client_fits M (nd_pumps nd (cv_ID c)) c"
  using fitsD(3) [OF flow_okD(1), of M "put_client c nd" "cv_ID c" c] by (simp add: ok_with_def)

lemma own_client_ok:
  assumes "ok_with M c nd" "cv_ID c' = cv_ID c" "cv_Channel c' = cv_Channel c" "cv_InFlightCount c' = cv_InFlightCount c"
    "client_fits M (nd_pumps nd (cv_ID c)) c'"
  shows "ok_with M c' nd"
proof -
  have "put_client c' (put_pump (cv_ID c) (nd_pumps nd (cv_ID c)) (put_client c nd)) = put_client c' nd"
    using assms(2) by (simp add: put_client_def put_pump_def)
  with own_step_ok [OF assms(1) [unfolded ok_with_def], of "cv_ID c" c c' "nd_pumps nd (cv_ID c)"] assms(2-) show ?thesis
    by (simp add: ok_with_def)
qed

lemma core_step_ok:
  assumes "ok_with M c nd" "core c' = core c"
  shows "ok_with M c' nd"
  by (rule own_client_ok [OF assms(1)]) (use assms(2) ok_with_fits [OF assms(1)] in \<open>simp_all add: core_def client_fits_def\<close>)

lemma topic_step_ok: "ok_with M c nd \<Longrightarrow> topic_at nd k = Some t \<Longrightarrow> topic_rel quiet t t' \<Longrightarrow> ok_with M c (set_topic k t' nd)"
  using set_topic_ok [of M "put_client c nd" k t t'] by (simp add: ok_with_def set_topic_put)

lemma GetTopic_put:
  "GetTopic B opts env name (put_client c nd) = map_option (\<lambda>(k, nd). (k, put_client c nd)) (GetTopic B opts env name nd)"
proof (cases "map_of (nd_topicMap nd) name")
  case None
  then show ?thesis
    by (cases "pre_create B (op_MemQueueSize opts) (ce_openChannel env name) (ce_lookup env name)
        (NewTopic (op_MemQueueSize opts) (op_ID opts) name (ce_openTopic env name))")
      (simp_all add: GetTopic_def put_client_def set_topic_def Let_def)
qed (simp add: GetTopic_def put_client_def)

lemma GetTopic_step_ok: "ok_with M c nd \<Longrightarrow> GetTopic B opts env name nd = Some (k, nd') \<Longrightarrow> ok_with M c nd' \<and> nd_pumps nd' = nd_pumps nd"
  using GetTopic_ok [of M "put_client c nd" B opts env name k "put_client c nd'"] by (simp add: ok_with_def GetTopic_put)

subsection \<open>Commands that change the client only\<close>

lemma core_updates [simp]:
  "core (c\<lparr>cv_Reader := x1\<rparr>) = core c" "core (c\<lparr>cv_ClientID := x2\<rparr>) = core c" "core (c\<lparr>cv_Hostname := x2\<rparr>) = core c"
  "core (c\<lparr>cv_UserAgent := x2\<rparr>) = core c" "core (c\<lparr>cv_HeartbeatInterval := x3\<rparr>) = core c" "core (c\<lparr>cv_OutputBufferSize := x3\<rparr>) = core c"
  "core (c\<lparr>cv_OutputBufferTimeout := x3\<rparr>) = core c" "core (c\<lparr>cv_SampleRate := x3\<rparr>) = core c" "core (c\<lparr>cv_MsgTimeout := x3\<rparr>) = core c"
  "core (c\<lparr>cv_IdentifyEvent := x4\<rparr>) = core c" "core (c\<lparr>cv_AuthState := x5\<rparr>) = core c" "core (c\<lparr>cv_AuthSecret := x2\<rparr>) = core c"
  "core (c\<lparr>cv_TLS := b\<rparr>) = core c" "core (c\<lparr>cv_Snappy := b\<rparr>) = core c" "core (c\<lparr>cv_Deflate := b\<rparr>) = core c"
  "core (c\<lparr>cv_ReadyState := b\<rparr>) = core c" "core (c\<lparr>cv_exited := b\<rparr>) = core c" "core (c\<lparr>cv_pubCounts := x6\<rparr>) = core c"
  by (simp_all add: core_def)

lemma setters_core [simp]:
  "core (snd (SetHeartbeatInterval opts x c)) = core c" "core (snd (SetOutputBuffer opts fl y z c)) = core c"
  "core (snd (SetSampleRate x c)) = core c" "core (snd (SetMsgTimeout opts x c)) = core c"
  by (simp_all add: SetHeartbeatInterval_def SetOutputBuffer_def SetSampleRate_def SetMsgTimeout_def Let_def)

lemma Identify_core [simp]: "core (snd (Identify opts fl d c)) = core c"
  by (simp add: Identify_def Let_def case_prod_beta)

lemma QueryAuthd_core:
  assumes "QueryAuthd_client opts env c = Some (e, c')"
  shows "core c' = core c"
proof (cases "ae_remoteIP env")
  case (Some ip)
  define q where "q = QueryAnyAuthd (ae_rx env) (ae_get env) (ae_start env) (ae_now env) (op_AuthHTTPAddresses opts)
    \<lparr>aq_remote_ip = ip, aq_tls = cv_TLS c, aq_secret = cv_AuthSecret c, aq_common_name = if cv_TLS c then ae_commonName env else []\<rparr>"
  with assms Some obtain r where "q = Some r" by (auto simp: QueryAuthd_client_def bind_eq_Some_conv)
  with assms Some show ?thesis unfolding QueryAuthd_client_def by (cases r) (auto simp: q_def [symmetric])
qed (use assms in \<open>simp add: QueryAuthd_client_def\<close>)

lemma Auth_core: "Auth opts env s c = Some (e, c') \<Longrightarrow> core c' = core c"
  by (auto simp: Auth_def dest!: QueryAuthd_core)

lemma IsAuthorized_core: "IsAuthorized opts env t ch c = Some (e, c') \<Longrightarrow> core c' = core c"
  by (auto simp: IsAuthorized_def bind_eq_Some_conv split: option.splits if_splits dest: QueryAuthd_core)

lemma CheckAuth_core: "CheckAuth opts env t ch c = Some (e, c') \<Longrightarrow> core c' = core c"
  by (auto simp: CheckAuth_def bind_eq_Some_conv split: if_splits dest: IsAuthorized_core)

lemma upgrades_core [simp]: "core (snd (snd (upgrades env a b d c))) = core c"
  by (simp add: upgrades_def Let_def)

lemma PublishedMessage_core [simp]: "core (PublishedMessage t n c) = core c"
  by (simp add: PublishedMessage_def)

lemma core_id: "core c' = core c \<Longrightarrow> cv_ID c' = cv_ID c"
  by (simp add: core_def)

lemma ok_with_frames: "ok_with M c nd \<Longrightarrow> ok_with M c (send_frames i fs nd)"
  unfolding ok_with_def flow_ok_def clients_fit_def chans_fit_def no_calls_def put_client_simps send_frames_simps chan_at_frame .

text \<open>A command keeps the invariant and the identity of the client. The rules follow the way the commands are composed.\<close>

definition keeps_ok :: "int \<Rightarrow> client_v2 \<Rightarrow> 'b nsqd \<Rightarrow> outcome \<times> client_v2 \<times> 'b nsqd \<Rightarrow> bool" where
  "keeps_ok M c nd x \<longleftrightarrow> (case x of (out, c', nd') \<Rightarrow> ok_with M c' nd' \<and> cv_ID c' = cv_ID c \<and> nd_pumps nd' = nd_pumps nd)"

definition cmd_ok :: "int \<Rightarrow> client_v2 \<Rightarrow> 'b nsqd \<Rightarrow> 'b cmd_result \<Rightarrow> bool" where
  "cmd_ok M c nd = pred_option (keeps_ok M c nd)"

lemmas cmd_ok_rules = result_rules [where Q = "keeps_ok M c nd" for M c nd, folded cmd_ok_def]
lemmas cmd_ok_if = result_if [where Q = "keeps_ok M c nd" for M c nd, folded cmd_ok_def]

lemma cmd_ok_Some: "ok_with M c' nd' \<Longrightarrow> cv_ID c' = cv_ID c \<Longrightarrow> nd_pumps nd' = nd_pumps nd \<Longrightarrow> cmd_ok M c nd (Some (out, c', nd'))"
  by (simp add: cmd_ok_def keeps_ok_def)

lemma cmd_ok_same: "ok_with M c nd \<Longrightarrow> core c' = core c \<Longrightarrow> cmd_ok M c nd (Some (out, c', nd))"
  by (rule cmd_ok_Some [OF core_step_ok core_id]) simp_all

lemma negotiate_ok:
  assumes ok: "ok_with M c nd" and core: "core c' = core c"
  shows "cmd_ok M c nd (negotiate opts env d c' nd)"
  unfolding negotiate_def Let_def case_prod_beta
proof (intro cmd_ok_rules)
  let ?u = "upgrades env (ir_TLSv1 (identify_answer opts c' d)) (ir_Snappy (identify_answer opts c' d)) (ir_Deflate (identify_answer opts c' d)) c'"
  have c: "core (snd (snd ?u)) = core c" using core by simp
  show "cmd_ok M c nd (Some (case fst ?u of None \<Rightarrow> Reply None | Some e \<Rightarrow> Fail e, snd (snd ?u),
      send_frames (cv_ID (snd (snd ?u))) (FrameIdentify (identify_answer opts c' d) # fst (snd ?u)) nd))"
    by (rule cmd_ok_Some [OF core_step_ok [OF ok_with_frames [OF ok] c] core_id [OF c]]) simp
qed (rule cmd_ok_same [OF ok core])+

lemma IDENTIFY_ok:
  assumes ok: "ok_with M c nd"
  shows "cmd_ok M c nd (v2_IDENTIFY opts env params c nd)"
  unfolding v2_IDENTIFY_def Let_def case_prod_beta
  by (intro cmd_ok_rules cmd_ok_same [OF ok] negotiate_ok [OF ok]) simp_all

lemma AUTH_ok:
  assumes ok: "ok_with M c nd"
  shows "cmd_ok M c nd (AUTH opts env params c nd)"
proof -
  have send: "cmd_ok M c nd (Some (out, c', send_frames i fs nd))" if "core c' = core c" for out c' i fs
    by (rule cmd_ok_Some [OF core_step_ok [OF ok_with_frames [OF ok] that] core_id [OF that]]) simp
  show ?thesis
    unfolding AUTH_def Let_def
    by (intro cmd_ok_rules cmd_ok_same [OF ok] send) (auto dest: Auth_core)
qed

subsection \<open>Consumers\<close>

lemma put_same: "nd_clients nd (cv_ID c) = Some c \<Longrightarrow> put_client c nd = nd"
  by (simp add: put_client_def fun_upd_idem)

lemma client_chanD: "client_chan c nd = Some (p, ch) \<Longrightarrow> cv_Channel c = Some p \<and> chan_at nd p = Some ch"
  by (auto simp: client_chan_def bind_eq_Some_conv)

lemma own_in_flight:
  assumes ok: "ok_with M c nd" and chan: "cv_Channel c = Some p" and ch: "chan_at nd p = Some ch"
  shows "int (in_flight ch (cv_ID c)) \<le> cv_InFlightCount c + uncounted (pu_pc (nd_pumps nd (cv_ID c)))" "ch_calls ch = []"
proof -
  note f = flow_okD [OF ok [unfolded ok_with_def]]
  have at: "chan_at (put_client c nd) p = Some ch" using ch by simp
  show none: "ch_calls ch = []" by (rule no_callsD [OF f(2) at])
  have me: "nd_clients (put_client c nd) (cv_ID c) = Some c" by simp
  have "int (in_flight ch (cv_ID c)) \<le> after_calls (cv_ID c) (ch_calls ch) (cv_InFlightCount c) + uncounted (pu_pc (nd_pumps (put_client c nd) (cv_ID c)))"
    using fitsD(5) [OF f(1) at] me chan unfolding chan_fits_def by blast
  then show "int (in_flight ch (cv_ID c)) \<le> cv_InFlightCount c + uncounted (pu_pc (nd_pumps nd (cv_ID c)))" by (simp add: none)
qed

text \<open>The three commands on a message in flight.\<close>

lemma settle_ok:
  assumes ok: "ok_with M c nd" and p: "client_chan c nd = Some (p, ch)"
    and ch': "ch_clients ch' = ch_clients ch" "ch_calls ch' = ch_calls ch" "\<And>k. in_flight ch' k \<le> in_flight ch k"
    and c': "cv_ID c' = cv_ID c" "cv_Channel c' = cv_Channel c" "cv_SubEvent c' = cv_SubEvent c" "cv_State c' = cv_State c" "cv_ReadyCount c' = cv_ReadyCount c"
    and less: "cv_InFlightCount c' = cv_InFlightCount c \<or> cv_InFlightCount c' = cv_InFlightCount c - 1 \<and> in_flight ch' (cv_ID c) < in_flight ch (cv_ID c)"
  shows "cmd_ok M c nd (Some (out, c', set_chan p ch' nd))"
proof (rule cmd_ok_Some)
  have chan: "cv_Channel c = Some p" "chan_at nd p = Some ch" using client_chanD [OF p] by simp_all
  note own = own_in_flight [OF ok chan]
  have fits: "client_fits M (nd_pumps nd (cv_ID c)) c'"
    using ok_with_fits [OF ok] less unfolding client_fits_def c' chan(1) by auto
  show "ok_with M c' (set_chan p ch' nd)"
  proof (rule client_step_ok [OF ok c'(1) _ chan(2) fits])
    show "int (in_flight ch' (cv_ID c)) \<le> cv_InFlightCount c' + uncounted (pu_pc (nd_pumps nd (cv_ID c)))"
      using less own(1) ch'(3) [of "cv_ID c"] by auto
  qed (use ch' c' chan own in auto)
qed (use c' in simp_all)

lemma cmd_ok_id: "ok_with M c nd \<Longrightarrow> cmd_ok M c nd (Some (out, c, nd))"
  by (rule cmd_ok_same) simp_all

lemma FIN_ok:
  fixes B :: "('b, 'e) backend"
  assumes ok: "ok_with M c nd"
  shows "cmd_ok M c nd (FIN B params c nd)"
proof -
  have step: "cmd_ok M c nd (Some (if e \<noteq> None then (Fail (ClientErr ''E_FIN_FAILED''), c, set_chan p ch' nd) else (Reply None, FinishedMessage c, set_chan p ch' nd)))"
    if "client_chan c nd = Some x" "x = (p, ch)" "FinishMessage ch (cv_ID c) i = Some y" "y = (e :: 'e channel_error option, ch')" for p ch i e ch' x y
    unfolding if_distrib [of Some]
    by (rule cmd_ok_if; rule settle_ok [OF ok that(1) [unfolded that(2)]])
      (use finish_flow [OF that(3) [unfolded that(4)]] in \<open>simp_all add: FinishedMessage_def tryUpdateReadyState_def\<close>)
  show ?thesis unfolding FIN_def Let_def by (intro cmd_ok_rules cmd_ok_id [OF ok]) (rule step)
qed

lemma REQ_ok:
  assumes ok: "ok_with M c nd"
  shows "cmd_ok M c nd (REQ B opts env params c nd)"
proof -
  have step: "cmd_ok M c nd (Some (if e \<noteq> None then (Fail (ClientErr ''E_REQ_FAILED''), c, set_chan p ch' nd) else (Reply None, RequeuedMessage c, set_chan p ch' nd)))"
    if "client_chan c nd = Some x" "x = (p, ch)" "RequeueMessage B ch (ae_now env) (cv_ID c) i d = Some y" "y = (e, ch')" for p ch i d e ch' x y
    unfolding if_distrib [of Some]
    by (rule cmd_ok_if; rule settle_ok [OF ok that(1) [unfolded that(2)]])
      (use requeue_flow [OF that(3) [unfolded that(4)]] in \<open>simp_all add: RequeuedMessage_def tryUpdateReadyState_def\<close>)
  show ?thesis unfolding REQ_def Let_def by (intro cmd_ok_rules cmd_ok_id [OF ok]) (rule step)
qed

lemma TOUCH_ok:
  fixes B :: "('b, 'e) backend"
  assumes ok: "ok_with M c nd"
  shows "cmd_ok M c nd (TOUCH B opts env params c nd)"
proof -
  have step: "cmd_ok M c nd (Some (if e \<noteq> None then (Fail (ClientErr ''E_TOUCH_FAILED''), c, set_chan p ch' nd) else (Reply None, c, set_chan p ch' nd)))"
    if "client_chan c nd = Some x" "x = (p, ch)" "TouchMessage mx ch now (cv_ID c) i d = Some y" "y = (e :: 'e channel_error option, ch')"
    for p ch i e ch' x y mx now d
    unfolding if_distrib [of Some]
    by (rule cmd_ok_if; rule settle_ok [OF ok that(1) [unfolded that(2)]]) (use touch_flow [OF that(3) [unfolded that(4)]] in simp_all)
  show ?thesis unfolding TOUCH_def Let_def by (intro cmd_ok_rules cmd_ok_id [OF ok]) (rule step)
qed

lemma RDY_ok:
  assumes ok: "ok_with M c nd" and M: "op_MaxRdyCount opts \<le> M"
  shows "cmd_ok M c nd (RDY opts params c nd)"
proof -
  have "cmd_ok M c nd (Some (out, SetReadyCount n c, nd))" if "\<not> (n < 0 \<or> n > op_MaxRdyCount opts)" for out n
  proof (rule cmd_ok_Some)
    show "ok_with M (SetReadyCount n c) nd"
      by (rule own_client_ok [OF ok]) (use that M ok_with_fits [OF ok] in \<open>simp_all add: SetReadyCount_def Let_def tryUpdateReadyState_def client_fits_def\<close>)
  qed (simp_all add: SetReadyCount_def Let_def tryUpdateReadyState_def)
  then show ?thesis unfolding RDY_def by (intro cmd_ok_rules cmd_ok_id [OF ok])
qed

lemma CLS_ok:
  assumes ok: "ok_with M c nd" and M: "0 \<le> M"
  shows "cmd_ok M c nd (CLS c nd)"
proof -
  have "cmd_ok M c nd (Some (out, StartClose c, nd))" for out
  proof (rule cmd_ok_Some)
    show "ok_with M (StartClose c) nd"
      by (rule own_client_ok [OF ok]) (use M ok_with_fits [OF ok] in \<open>simp_all add: StartClose_def SetReadyCount_def Let_def tryUpdateReadyState_def client_fits_def\<close>)
  qed (simp_all add: StartClose_def SetReadyCount_def Let_def tryUpdateReadyState_def)
  then show ?thesis unfolding CLS_def by (intro cmd_ok_rules cmd_ok_id [OF ok])
qed

text \<open>A channel that loses clients.\<close>

lemma shrink_ok:
  assumes ok: "flow_ok M nd" and ch: "chan_at nd p = Some ch" and sub: "set (ch_clients ch') \<subseteq> set (ch_clients ch)"
    and same: "ch_calls ch' = ch_calls ch" "\<And>k. in_flight ch' k = in_flight ch k"
  shows "flow_ok M (set_chan p ch' nd)"
proof -
  let ?nd = "set_chan p ch' nd"
  note f = flow_okD [OF ok] and at = chan_at_set_chan [OF ch, of ch']
  have "fits M ?nd"
  proof (rule fitsI)
    fix i c q assume "nd_clients ?nd i = Some c" "cv_Channel c = Some q"
    with fitsD(4) [OF f(1), of i c q] show "chan_at ?nd q \<noteq> None" by (simp add: at)
  next
    fix q ch1 assume ch1: "chan_at ?nd q = Some ch1"
    have p: "chan_fits (nd_clients nd) (nd_pumps nd) p ch" by (rule fitsD(5) [OF f(1) ch])
    show "chan_fits (nd_clients ?nd) (nd_pumps ?nd) q ch1"
    proof (cases "q = p")
      case True
      with ch1 have "ch1 = ch'" by (simp add: at)
      moreover have "chan_fits (nd_clients nd) (nd_pumps nd) p ch'" by (rule chan_fits_mono [OF p]) (use sub same in \<open>auto simp: lasting_def\<close>)
      ultimately show ?thesis using True by simp
    next
      case False
      with ch1 fitsD(5) [OF f(1), of q ch1] show ?thesis by (simp add: at)
    qed
  qed (use fitsD(1-3) [OF f(1)] in simp)
  moreover have "no_calls ?nd" unfolding no_calls_def at using no_callsD [OF f(2)] ch same(1) by simp
  ultimately show ?thesis by (simp add: flow_ok_iff)
qed

lemma shrink_step_ok:
  assumes "ok_with M c nd" "chan_at nd p = Some ch" "set (ch_clients ch') \<subseteq> set (ch_clients ch)" "ch_calls ch' = ch_calls ch" "\<And>k. in_flight ch' k = in_flight ch k"
  shows "ok_with M c (set_chan p ch' nd)"
  using shrink_ok [OF assms(1) [unfolded ok_with_def] _ assms(3-5), of p] assms(2) by (simp add: ok_with_def set_chan_put)

lemma RemoveClient_same:
  "ch_calls (RemoveClient ch i) = ch_calls ch" "in_flight (RemoveClient ch i) k = in_flight ch k" "ch_clients (RemoveClient ch i) = filter (\<lambda>k. k \<noteq> i) (ch_clients ch)"
proof -
  have "filter (\<lambda>k. k \<noteq> i) (ch_clients ch) = ch_clients ch" if "i \<notin> set (ch_clients ch)" using that by (auto simp: filter_id_conv)
  then show "ch_clients (RemoveClient ch i) = filter (\<lambda>k. k \<noteq> i) (ch_clients ch)" by (simp add: RemoveClient_def Let_def)
qed (simp_all add: RemoveClient_def in_flight_def Let_def)

lemma AddClient_same:
  assumes "AddClient mx ch i = (e :: 'e channel_error option, ch')"
  shows "ch_calls ch' = ch_calls ch" "in_flight ch' k = in_flight ch k" "set (ch_clients ch') \<subseteq> insert i (set (ch_clients ch))" "e \<noteq> None \<Longrightarrow> ch' = ch"
  using assms by (auto simp: AddClient_def in_flight_def split: if_splits)

lemma subscribe_ok:
  assumes ok: "ok_with M c nd" and init: "cv_State c = StateInit" and ch: "chan_at nd p = Some ch"
    and add: "AddClient mx ch (cv_ID c) = (e :: 'e channel_error option, ch')"
  shows "ok_with M (c\<lparr>cv_State := StateSubscribed, cv_Channel := Some p, cv_SubEvent := Some p\<rparr>) (set_chan p ch' nd)"
    "ok_with M c (set_chan p (RemoveClient ch' (cv_ID c)) nd)" "e \<noteq> None \<Longrightarrow> ok_with M c (set_chan p ch' nd)"
proof -
  note a = AddClient_same [OF add] and fits = ok_with_fits [OF ok]
  have none: "cv_Channel c = None" and count: "cv_InFlightCount c = 0" using fits init by (simp_all add: client_fits_def)
  note f = flow_okD [OF ok [unfolded ok_with_def]]
  have at: "chan_at (put_client c nd) p = Some ch" using ch by simp
  have calls: "ch_calls ch = []" by (rule no_callsD [OF f(2) at])
  have zero: "in_flight ch (cv_ID c) = 0"
    using fitsD(5) [OF f(1) at] none unfolding chan_fits_def by (metis fun_upd_same gr0I option.distinct(1) option.inject put_client_simps(1))
  show "ok_with M (c\<lparr>cv_State := StateSubscribed, cv_Channel := Some p, cv_SubEvent := Some p\<rparr>) (set_chan p ch' nd)"
  proof (rule client_step_ok [OF ok _ _ ch])
    show "client_fits M (nd_pumps nd (cv_ID c)) (c\<lparr>cv_State := StateSubscribed, cv_Channel := Some p, cv_SubEvent := Some p\<rparr>)"
      using fits by (auto simp: client_fits_def none)
  qed (use a none calls zero count reserve_range in auto)
  show "ok_with M c (set_chan p (RemoveClient ch' (cv_ID c)) nd)"
    by (rule shrink_step_ok [OF ok ch]) (use a in \<open>auto simp: RemoveClient_same\<close>)
  show "ok_with M c (set_chan p ch' nd)" if "e \<noteq> None"
    by (rule shrink_step_ok [OF ok ch]) (use a(4) [OF that] in simp_all)
qed

lemma SUB_ok:
  fixes B :: "('b, 'e) backend"
  assumes ok: "ok_with M c nd"
  shows "cmd_ok M c nd (SUB B opts env params c nd)"
proof -
  have leaf: "cmd_ok M c nd (Some (out, c2, nd2))"
    if init: "\<not> cv_State c \<noteq> StateInit" and auth: "CheckAuth opts env name chn c = Some x1" "x1 = (e1, c1)"
      and get: "GetTopic B opts env name nd = Some x2" "x2 = (k, nd1)" "topic_at nd1 k = Some t"
      and wait: "GetChannel_wait B n openq t chn = Some x3" "x3 = (j, t1)" and ch: "chan_at (set_topic k t1 nd1) (k, j) = Some ch"
      and add: "AddClient mx ch (cv_ID c1) = (e :: 'e channel_error option, ch')"
      and new: "(c2, nd2) = (c1, set_chan (k, j) (RemoveClient ch' (cv_ID c1)) (set_topic k t1 nd1)) \<or>
        (c2, nd2) = (c1\<lparr>cv_State := StateSubscribed, cv_Channel := Some (k, j), cv_SubEvent := Some (k, j)\<rparr>, set_chan (k, j) ch' (set_topic k t1 nd1)) \<or>
        e \<noteq> None \<and> (c2, nd2) = (c1, set_chan (k, j) ch' (set_topic k t1 nd1))"
    for out c2 nd2 name chn x1 e1 c1 x2 k nd1 t n openq x3 j t1 ch mx e ch'
  proof -
    have core: "core c1 = core c" using CheckAuth_core auth by simp
    have ok1: "ok_with M c1 nd" by (rule core_step_ok [OF ok core])
    note g1 = GetTopic_step_ok [OF ok1 get(1) [unfolded get(2)]]
    have ok2: "ok_with M c1 (set_topic k t1 nd1)"
      by (rule topic_step_ok [OF conjunct1 [OF g1] get(3) GetChannel_wait_quiet [OF wait(1) [unfolded wait(2)]]])
    have "cv_State c1 = StateInit" using core init by (simp add: core_def)
    note sub = subscribe_ok [OF ok2 this ch add]
    show ?thesis by (rule cmd_ok_Some) (use new sub core_id [OF core] g1 in auto)
  qed
  have failed: "cmd_ok M c nd (Some (out, c1, nd))" if "CheckAuth opts env name chn c = Some x1" "x1 = (e1, c1)" for out name chn x1 e1 c1
    by (rule cmd_ok_same [OF ok]) (use that CheckAuth_core in simp)
  show ?thesis
    unfolding SUB_def Let_def
    by (intro cmd_ok_rules cmd_ok_id [OF ok]; (erule (1) failed | (rule leaf, assumption+, simp)))
qed

subsection \<open>Producers\<close>

lemma set_topic_twice [simp]: "set_topic k t' (set_topic k t nd) = set_topic k t' nd"
  by (simp add: set_topic_def)

lemma check_ok:
  assumes ok: "ok_with M c nd" and "CheckAuth opts env name chn c0 = Some x1" "x1 = (e1, c1)" and "core c0 = core c"
  shows "cmd_ok M c nd (Some (out, c1, nd))"
  by (rule cmd_ok_same [OF ok]) (use assms(2-) CheckAuth_core [of opts env name chn c0 e1 c1] in simp)

lemma produce_ok:
  assumes ok: "ok_with M c nd" and auth: "CheckAuth opts env name chn c0 = Some x1" "x1 = (e1, c1)" and core: "core c0 = core c" "core c2 = core c1"
    and get: "GetTopic B opts env name nd = Some x2" "x2 = (k, nd1)" "topic_at nd1 k = Some t"
    and new: "nd2 = nd1 \<or> nd2 = set_topic k t2 nd1 \<and> t_store t2 = t_store t"
  shows "cmd_ok M c nd (Some (out, c2, nd2))"
proof -
  have core2: "core c2 = core c" using CheckAuth_core [of opts env name chn c0 e1 c1] auth core by simp
  have ok2: "ok_with M c2 nd" by (rule core_step_ok [OF ok core2])
  note g1 = GetTopic_step_ok [OF ok2 get(1) [unfolded get(2)]]
  have "ok_with M c2 (set_topic k t2 nd1)" if "t_store t2 = t_store t"
    by (rule topic_step_ok [OF conjunct1 [OF g1] get(3) topic_rel_same [where R = quiet]]) (use that in simp_all)
  with new g1 show ?thesis by (auto intro!: cmd_ok_Some core_id [OF core2])
qed

lemma publish_ok:
  assumes ok: "ok_with M c nd" and core: "core c0 = core c"
  shows "cmd_ok M c nd (publish B opts env code name body d c0 nd)"
  unfolding publish_def Let_def
  by (intro cmd_ok_rules;
      ((rule check_ok [OF ok], assumption, assumption, rule core)
      | (rule produce_ok [OF ok], assumption, assumption, rule core, simp, assumption, assumption, assumption, auto dest!: GenerateID_store PutMessage_store)))

lemma PUB_ok: "ok_with M c nd \<Longrightarrow> cmd_ok M c nd (PUB B opts env params c nd)"
  unfolding PUB_def Let_def by (intro cmd_ok_rules cmd_ok_same publish_ok) simp_all

lemma DPUB_ok: "ok_with M c nd \<Longrightarrow> cmd_ok M c nd (DPUB B opts env params c nd)"
  unfolding DPUB_def Let_def by (intro cmd_ok_rules cmd_ok_same publish_ok) simp_all

lemma MPUB_ok:
  assumes ok: "ok_with M c nd"
  shows "cmd_ok M c nd (MPUB B opts env params c nd)"
  unfolding MPUB_def Let_def set_topic_twice
  by (intro cmd_ok_rules cmd_ok_id [OF ok];
      ((rule check_ok [OF ok], assumption, assumption, rule refl)
      | (rule produce_ok [OF ok], assumption, assumption, rule refl, simp, assumption, assumption, assumption, auto dest!: readMPUB_store PutMessages_store)))

subsection \<open>The loop\<close>

lemma Exec_ok:
  assumes ok: "ok_with M c nd" and M: "op_MaxRdyCount opts \<le> M" "0 \<le> M"
  shows "cmd_ok M c nd (Exec B opts env params c nd)"
proof (cases params)
  case Nil
  then show ?thesis by (simp add: Exec_def cmd_ok_def)
next
  case (Cons cmd ps)
  show ?thesis
    unfolding Exec_def Cons Let_def list.case
    by (intro cmd_ok_rules cmd_ok_id IDENTIFY_ok AUTH_ok FIN_ok REQ_ok TOUCH_ok RDY_ok CLS_ok SUB_ok PUB_ok MPUB_ok DPUB_ok ok M)
qed

lemma ok_withD: "ok_with M c nd \<Longrightarrow> flow_ok M (put_client c nd)"
  by (simp add: ok_with_def)

lemma loop_exit_ok:
  assumes ok: "ok_with M c nd" and e: "loop_exit c nd = Some nd'"
  shows "flow_ok M nd'"
proof -
  let ?c = "c\<lparr>cv_exited := True\<rparr>"
  have ok1: "ok_with M ?c nd" by (rule core_step_ok [OF ok]) simp
  show ?thesis
  proof (cases "cv_Channel c")
    case None
    with e ok1 show ?thesis by (simp add: loop_exit_def ok_with_def)
  next
    case (Some p)
    with e obtain ch where ch: "chan_at nd p = Some ch" "nd' = set_chan p (RemoveClient ch (cv_ID c)) (put_client ?c nd)"
      by (auto simp: loop_exit_def Let_def bind_eq_Some_conv)
    show ?thesis unfolding ch(2) by (rule shrink_ok [OF ok_withD [OF ok1], of p ch]) (use ch(1) in \<open>simp_all add: RemoveClient_same\<close>)
  qed
qed

lemma IOLoop_round_ok:
  assumes ok: "ok_with M c nd" and M: "op_MaxRdyCount opts \<le> M" "0 \<le> M" and r: "IOLoop_round B opts env reply c nd = Some nd'"
  shows "flow_ok M nd'"
proof (cases "ReadSlice (cv_Reader c)")
  case None
  with r show ?thesis by (auto simp: IOLoop_round_def intro: loop_exit_ok [OF ok])
next
  case (Some lr)
  obtain line rest where lr: "lr = (line, rest)" by (cases lr)
  let ?c = "c\<lparr>cv_Reader := rest\<rparr>"
  from r Some lr obtain out c1 nd1 where e: "Exec B opts env (split_spaces (trim_cr line)) ?c nd = Some (out, c1, nd1)"
    by (auto simp: IOLoop_round_def bind_eq_Some_conv)
  have ok1: "ok_with M ?c nd" by (rule core_step_ok [OF ok]) simp
  have ok2: "ok_with M c1 nd1" using Exec_ok [OF ok1 M, of B env "split_spaces (trim_cr line)"] by (simp add: e cmd_ok_def keeps_ok_def)
  have ok3: "ok_with M c1 (send_frames i fs nd1)" for i fs by (rule ok_with_frames [OF ok2])
  have ok4: "ok_with M (c1\<lparr>cv_Reader := cv_Reader c\<rparr>) nd1" by (rule core_step_ok [OF ok2]) simp
  show ?thesis
  proof (cases out)
    case (Reply f)
    with r Some lr e ok2 ok3 show ?thesis
      by (cases f) (auto simp: IOLoop_round_def split: if_splits intro: loop_exit_ok ok_withD)
  next
    case (Fail err)
    with r Some lr e ok2 ok3 show ?thesis
      by (cases err) (auto simp: IOLoop_round_def Let_def split: if_splits intro: loop_exit_ok ok_withD)
  next
    case Retry
    with r Some lr e ok4 show ?thesis by (simp add: IOLoop_round_def ok_with_def)
  qed
qed

lemma accept_ok:
  assumes ok: "flow_ok M nd" and M: "0 \<le> M"
  shows "flow_ok M (accept opts identifier input nd)"
proof -
  let ?i = "nd_clientIDSequence nd + 1" and ?nd = "accept opts identifier input nd"
  let ?c = "newClientV2 opts ?i identifier input"
  let ?p = "\<lparr>pu_pc = AtTop, pu_subChannel = None, pu_subOpen = True, pu_identifyOpen = True, pu_sampleRate = 0, pu_msgTimeout = cv_MsgTimeout ?c\<rparr>"
  note f = flow_okD [OF ok]
  have id: "cv_ID ?c = ?i" and chan: "cv_Channel ?c = None" by (simp_all add: newClientV2_def)
  have new: "nd_clients nd ?i = None" using fitsD(2) [OF f(1), of ?i] by (cases "nd_clients nd ?i") auto
  have cl: "nd_clients ?nd j = (if j = ?i then Some ?c else nd_clients nd j)" "nd_pumps ?nd j = (if j = ?i then ?p else nd_pumps nd j)"
    "nd_clientIDSequence ?nd = ?i" "chan_at ?nd q = chan_at nd q" for j q
    by (simp_all add: accept_def Let_def id) (simp add: chan_at_def topic_at_def)
  have "fits M ?nd"
  proof (rule fitsI)
    fix j c assume c: "nd_clients ?nd j = Some c"
    show "cv_ID c = j \<and> j \<le> nd_clientIDSequence ?nd \<and> client_fits M (nd_pumps ?nd j) c"
    proof (cases "j = ?i")
      case True
      have "client_fits M ?p ?c" using M by (simp add: client_fits_def newClientV2_def reserve_def)
      with True c id show ?thesis by (simp add: cl)
    next
      case False
      with c have "nd_clients nd j = Some c" by (simp add: cl)
      from fitsD(1-3) [OF f(1) this] False show ?thesis by (simp add: cl)
    qed
  next
    fix j c q assume c: "nd_clients ?nd j = Some c" "cv_Channel c = Some q"
    with chan have "nd_clients nd j = Some c" by (auto simp: cl split: if_splits)
    from fitsD(4) [OF f(1) this c(2)] show "chan_at ?nd q \<noteq> None" by (simp add: cl)
  next
    fix q ch assume "chan_at ?nd q = Some ch"
    then have at: "chan_at nd q = Some ch" by (simp add: cl(4))
    show "chan_fits (nd_clients ?nd) (nd_pumps ?nd) q ch"
    proof (rule chan_fits_mono [OF fitsD(5) [OF f(1) at]])
      show "lasting q (nd_clients nd) (nd_clients ?nd)" using new unfolding lasting_def cl by auto
    qed (use chan in \<open>blast, auto simp: cl split: if_splits\<close>)
  qed
  moreover have "no_calls ?nd" using f(2) unfolding no_calls_def cl(4) .
  ultimately show ?thesis by (simp add: flow_ok_iff)
qed

section \<open>Pumps\<close>

lemma own_pump_ok:
  assumes "flow_ok M nd" "nd_clients nd i = Some c" "client_fits M pu c" "uncounted (pu_pc (nd_pumps nd i)) \<le> uncounted (pu_pc pu)"
  shows "flow_ok M (put_pump i pu nd)"
proof -
  have id: "cv_ID c = i" by (rule fitsD(1) [OF flow_okD(1) [OF assms(1)] assms(2)])
  then have "put_client c (put_pump i pu nd) = put_pump i pu nd" using assms(2) by (simp add: put_client_def put_pump_def fun_upd_idem)
  with own_step_ok [OF assms(1, 2) id refl assms(3)] assms(4) show ?thesis by simp
qed

lemma pump_top_ok:
  assumes ok: "flow_ok M nd" and c: "nd_clients nd i = Some c" and pc: "pu_pc (nd_pumps nd i) = AtTop"
    and p: "pump_top flush c (nd_pumps nd i) nd = Some pu"
  shows "flow_ok M (put_pump i pu nd)"
proof (rule own_pump_ok [OF ok c])
  have f: "client_fits M (nd_pumps nd i) c" by (rule fitsD(3) [OF flow_okD(1) [OF ok] c])
  show "client_fits M pu c"
  proof (cases "pu_subChannel (nd_pumps nd i)")
    case None
    with p f pc show ?thesis by (cases flush) (auto simp: pump_top_def client_fits_def reserve_def)
  next
    case (Some s)
    with p obtain q ch where "client_chan c nd = Some (q, ch)" and
      pu: "pu = (if IsReadyForMessages (ch_paused ch) c then (nd_pumps nd i)\<lparr>pu_pc := InSelect True\<rparr>
        else (nd_pumps nd i)\<lparr>pu_pc := if flush then InSelect False else PumpEnded\<rparr>)"
      by (auto simp: pump_top_def bind_eq_Some_conv)
    show ?thesis
    proof (cases "IsReadyForMessages (ch_paused ch) c")
      case True
      moreover have "cv_Channel c = Some s" using f Some by (auto simp: client_fits_def)
      ultimately show ?thesis using Some f pc pu by (simp add: client_fits_def reserve_def IsReadyForMessages_def split: if_splits)
    next
      case False
      with Some f pc pu show ?thesis by (cases flush) (auto simp: client_fits_def reserve_def)
    qed
  qed
qed (simp add: pc uncounted_def split: client_pc.splits)

lemma pump_select_ok:
  assumes ok: "flow_ok M nd" and c: "nd_clients nd i = Some c" and pc: "pu_pc (nd_pumps nd i) = InSelect b"
    and p: "pump_select e c (nd_pumps nd i) = Some (c', pu, fs)"
  shows "flow_ok M (put_client c' (put_pump i pu nd))"
proof (rule own_step_ok [OF ok c])
  have f: "client_fits M (nd_pumps nd i) c" and id: "cv_ID c = i" using fitsD(1, 3) [OF flow_okD(1) [OF ok] c] by simp_all
  have same: "cv_ID c' = cv_ID c" "cv_Channel c' = cv_Channel c" "cv_InFlightCount c' = cv_InFlightCount c" "cv_ReadyCount c' = cv_ReadyCount c"
    "cv_State c' = cv_State c" "cv_SubEvent c' = None \<or> cv_SubEvent c' = cv_SubEvent c" "pu_pc pu = AtTop \<or> pu_pc pu = PumpEnded"
    "pu_subChannel pu = pu_subChannel (nd_pumps nd i) \<or> pu_subChannel pu = cv_SubEvent c"
    using p by (cases e; auto simp: pump_select_def Let_def split: option.splits if_splits)+
  then show "cv_ID c' = i" "cv_Channel c' = cv_Channel c" using id by simp_all
  have "reserve (pu_pc pu) = 0" using same(7) by (auto simp: reserve_def)
  then show "client_fits M pu c'" using f same(6, 8) reserve_range(1) [of "pu_pc (nd_pumps nd i)"] unfolding client_fits_def same(1-5) by auto
  show "cv_InFlightCount c + uncounted (pu_pc (nd_pumps nd i)) \<le> cv_InFlightCount c' + uncounted (pu_pc pu)"
    using same(3, 7) by (auto simp: pc uncounted_def)
qed

lemma pump_send_ok:
  assumes ok: "flow_ok M nd" and c: "nd_clients nd i = Some c" and p: "pump_send b c (nd_pumps nd i) = Some (c', pu, fs)"
  shows "flow_ok M (put_client c' (put_pump i pu nd))"
proof (rule own_step_ok [OF ok c])
  have f: "client_fits M (nd_pumps nd i) c" and id: "cv_ID c = i" using fitsD(1, 3) [OF flow_okD(1) [OF ok] c] by simp_all
  obtain m where pc: "pu_pc (nd_pumps nd i) = Sending m" using p by (auto simp: pump_send_def split: client_pc.splits)
  have new: "c' = SendingMessage c" "pu = (nd_pumps nd i)\<lparr>pu_pc := if b then AtTop else PumpEnded\<rparr>" using p pc by (auto simp: pump_send_def split: if_splits)
  then show "cv_ID c' = i" "cv_Channel c' = cv_Channel c" using id by (simp_all add: SendingMessage_def)
  show "client_fits M pu c'" using f unfolding client_fits_def new by (auto simp: reserve_def pc SendingMessage_def)
  show "cv_InFlightCount c + uncounted (pu_pc (nd_pumps nd i)) \<le> cv_InFlightCount c' + uncounted (pu_pc pu)"
    by (simp add: new pc uncounted_def SendingMessage_def)
qed

lemma pump_receive_ok:
  assumes ok: "flow_ok M nd" and c: "nd_clients nd i = Some c" and p: "pump_receive B memory r now i (nd_pumps nd i) nd = Some (pu, nd')"
  shows "flow_ok M (put_pump i pu nd')"
proof -
  let ?pu = "nd_pumps nd i"
  have f: "client_fits M ?pu c" and id: "cv_ID c = i" using fitsD(1, 3) [OF flow_okD(1) [OF ok] c] by simp_all
  define recv where "recv ch = (if memory then pump_memory (pu_sampleRate ?pu) r ch now i (pu_msgTimeout ?pu)
      else pump_backend B (pu_sampleRate ?pu) r ch now i (pu_msgTimeout ?pu))" for ch
  from p obtain s ch m ch' where pc: "pu_pc ?pu = InSelect True" and s: "pu_subChannel ?pu = Some s" "chan_at nd s = Some ch"
    and m: "recv ch = Some (m, ch')"
    and new: "pu = ?pu\<lparr>pu_pc := case m of None \<Rightarrow> AtTop | Some m \<Rightarrow> Sending m\<rparr>" "nd' = set_chan s ch' nd"
    unfolding pump_receive_def recv_def [symmetric] by (auto simp: bind_eq_Some_conv split: if_splits)
  have flow: "ch_clients ch' = ch_clients ch \<and> ch_calls ch' = ch_calls ch \<and> in_flight ch' k \<le> in_flight ch k + (if k = i \<and> m \<noteq> None then 1 else 0)" for k
  proof (cases memory)
    case True
    with m have "pump_memory (pu_sampleRate ?pu) r ch now i (pu_msgTimeout ?pu) = Some (m, ch')" by (simp add: recv_def)
    then show ?thesis by (rule pump_memory_flow)
  next
    case False
    with m have "pump_backend B (pu_sampleRate ?pu) r ch now i (pu_msgTimeout ?pu) = Some (m, ch')" by (simp add: recv_def)
    then show ?thesis by (rule pump_backend_flow)
  qed
  have chan: "cv_Channel c = Some s" using f s(1) by (auto simp: client_fits_def)
  let ?nd = "put_pump i pu nd"
  have pu: "client_fits M pu c" using f unfolding client_fits_def new by (cases m) (auto simp: pc reserve_def)
  have ok1: "flow_ok M ?nd" by (rule own_pump_ok [OF ok c pu]) (simp add: pc reserve_range(4) uncounted_def [of "InSelect True"])
  have put: "put_client c nd = nd" "put_client c ?nd = ?nd" using c id by (simp_all add: put_same)
  have ok_nd: "ok_with M c nd" "ok_with M c ?nd" using ok ok1 by (simp_all add: ok_with_def put)
  note own = own_in_flight [OF ok_nd(1) chan s(2)]
  have "ok_with M c (set_chan s ch' ?nd)"
  proof (rule client_step_ok [OF ok_nd(2) refl chan])
    show "chan_at ?nd s = Some ch" using s(2) by simp
    show "client_fits M (nd_pumps ?nd (cv_ID c)) c" using pu by (simp add: id)
    show "in_flight ch' k \<le> in_flight ch k" if "k \<noteq> cv_ID c" for k using flow [of k] that id by simp
    show "int (in_flight ch' (cv_ID c)) \<le> cv_InFlightCount c + uncounted (pu_pc (nd_pumps ?nd (cv_ID c)))"
      using flow [of i] own(1) by (cases m) (auto simp: id new pc uncounted_def)
  qed (use flow own(2) chan in auto)
  moreover have "put_client c (set_chan s ch' ?nd) = put_pump i pu nd'"
    unfolding set_chan_put [symmetric] put new(2) by (simp add: set_chan_def set_topic_def put_pump_def Let_def)
  ultimately show ?thesis by (simp add: ok_with_def)
qed

section \<open>Channels and topics\<close>

lemma take_topic_ok:
  assumes ok: "flow_ok M nd" and t: "topic_at nd k = Some t" and rel: "topic_rel settles t t'"
  shows "flow_ok M (take_calls k (set_topic k t' nd))"
proof (rule take_calls_ok)
  have k: "k < length (nd_topics nd)" using t by (auto simp: topic_at_def split: if_splits)
  show "fits M (set_topic k t' nd)" by (rule set_topic_fits [OF flow_okD(1) [OF ok] t rel])
  show "ch_calls ch = []" if "chan_at (set_topic k t' nd) p = Some ch" "fst p \<noteq> k" for p ch
    using that no_callsD [OF flow_okD(2) [OF ok], of p ch] by (simp add: chan_at_set_topic [OF k])
qed

lemma at_topic_ok: "flow_ok M nd \<Longrightarrow> at_topic B opts e k nd = Some nd' \<Longrightarrow> flow_ok M nd'"
  by (auto simp: at_topic_def bind_eq_Some_conv intro: take_topic_ok on_topic_settles)

lemma at_channel_ok:
  assumes ok: "flow_ok M nd" and e: "at_channel B opts e p nd = Some nd'"
  shows "flow_ok M nd'"
proof -
  from e obtain ch ch' where ch: "chan_at nd p = Some ch" "on_channel B opts e ch = Some ch'" and nd': "nd' = take_calls (fst p) (set_chan p ch' nd)"
    by (auto simp: at_channel_def bind_eq_Some_conv)
  let ?t = "nd_topics nd ! fst p"
  have t: "topic_at nd (fst p) = Some ?t" and s: "store_at ?t (snd p) = Some ch"
    using ch(1) by (auto simp: chan_at_def topic_at_def bind_eq_Some_conv split: if_splits)
  have "topic_rel settles ?t (?t\<lparr>t_store := (t_store ?t)[snd p := ch']\<rparr>)"
    by (rule topic_rel_upd [of settles, OF _ s on_channel_settles [OF ch(2)]]) auto
  from take_topic_ok [OF ok t this] show ?thesis by (simp add: nd' set_chan_def Let_def)
qed

lemma topicMap_ok: "flow_ok M nd \<Longrightarrow> flow_ok M (nd\<lparr>nd_topicMap := m\<rparr>)"
proof -
  have "nd_clients (nd\<lparr>nd_topicMap := m\<rparr>) = nd_clients nd" "nd_pumps (nd\<lparr>nd_topicMap := m\<rparr>) = nd_pumps nd"
    "nd_clientIDSequence (nd\<lparr>nd_topicMap := m\<rparr>) = nd_clientIDSequence nd" by simp_all
  then show "flow_ok M nd \<Longrightarrow> flow_ok M (nd\<lparr>nd_topicMap := m\<rparr>)"
    unfolding flow_ok_def clients_fit_def chans_fit_def no_calls_def chan_at_frame by (simp only:)
qed

lemma DeleteExistingTopic_ok:
  assumes ok: "flow_ok M nd" and d: "DeleteExistingTopic B opts name nd = Some (b, nd')"
  shows "flow_ok M nd'"
proof (cases "map_of (nd_topicMap nd) name")
  case None
  with d ok show ?thesis by (simp add: DeleteExistingTopic_def)
next
  case (Some k)
  with d obtain t x t' where t: "topic_at nd k = Some t" "t_exit B (op_MemQueueSize opts) True t = Some (x, t')"
    and nd': "nd' = (take_calls k (set_topic k t' nd))\<lparr>nd_topicMap := filter (\<lambda>(n, _). n \<noteq> name) (nd_topicMap (take_calls k (set_topic k t' nd)))\<rparr>"
    by (auto simp: DeleteExistingTopic_def bind_eq_Some_conv Let_def)
  show ?thesis unfolding nd' by (rule topicMap_ok [OF take_topic_ok [OF ok t(1) t_exit_settles [OF t(2)]]])
qed

section \<open>Reachable states\<close>

lemma frames_ok: "flow_ok M nd \<Longrightarrow> flow_ok M (send_frames i fs nd)"
  unfolding flow_ok_def clients_fit_def chans_fit_def no_calls_def send_frames_simps chan_at_frame .

lemma nsqd_step_ok:
  assumes ok: "flow_ok M nd" and M: "op_MaxRdyCount opts \<le> M" "0 \<le> M" and s: "nsqd_step B opts e nd = Some nd'"
  shows "flow_ok M nd'"
proof (cases e)
  case (Accept who input)
  with s ok M show ?thesis by (auto simp: nsqd_step_def accept_ok)
next
  case (Round i env reply)
  with s obtain c where c: "nd_clients nd i = Some c" "IOLoop_round B opts env reply c nd = Some nd'"
    by (auto simp: nsqd_step_def bind_eq_Some_conv split: if_splits)
  have "put_client c nd = nd" by (rule put_same) (use c(1) fitsD(1) [OF flow_okD(1) [OF ok] c(1)] in simp)
  with ok have "ok_with M c nd" by (simp add: ok_with_def)
  from IOLoop_round_ok [OF this M c(2)] show ?thesis .
next
  case (PumpTop i flush)
  with s ok show ?thesis by (auto simp: nsqd_step_def bind_eq_Some_conv split: if_splits intro: pump_top_ok)
next
  case (PumpSelect i ev)
  with s obtain b where "pu_pc (nd_pumps nd i) = InSelect b" by (cases "pu_pc (nd_pumps nd i)") (auto simp: nsqd_step_def bind_eq_Some_conv)
  with PumpSelect s ok show ?thesis by (auto simp: nsqd_step_def bind_eq_Some_conv intro!: frames_ok pump_select_ok)
next
  case (PumpReceive i memory r now)
  with s ok show ?thesis by (auto simp: nsqd_step_def bind_eq_Some_conv intro: pump_receive_ok)
next
  case (PumpSend i b)
  with s ok show ?thesis by (auto simp: nsqd_step_def bind_eq_Some_conv intro!: frames_ok pump_send_ok)
next
  case (OnChannel p ev)
  with s ok show ?thesis by (auto simp: nsqd_step_def intro: at_channel_ok)
next
  case (OnTopic k ev)
  with s ok show ?thesis by (auto simp: nsqd_step_def intro: at_topic_ok)
next
  case (RemoveTopic name)
  with s ok show ?thesis by (auto simp: nsqd_step_def intro: DeleteExistingTopic_ok)
qed

lemma nsqd_reach_ok: "nsqd_reach B opts nd \<Longrightarrow> 0 \<le> op_MaxRdyCount opts \<Longrightarrow> flow_ok (op_MaxRdyCount opts) nd"
proof (induction rule: nsqd_reach.induct)
  case nsqd_start
  have "chan_at (nsqd_New :: 'a nsqd) p = None" for p by (simp add: chan_at_def topic_at_def nsqd_New_def)
  then show ?case by (simp add: flow_ok_def clients_fit_def chans_fit_def no_calls_def nsqd_New_def)
qed (auto intro: nsqd_step_ok)

lemma reach_in_flight:
  assumes "nsqd_reach B opts nd" "0 \<le> op_MaxRdyCount opts" "chan_at nd p = Some ch"
  shows "int (in_flight ch i) \<le> op_MaxRdyCount opts"
    "0 < in_flight ch i \<Longrightarrow> \<exists>c. nd_clients nd i = Some c \<and> cv_Channel c = Some p \<and> int (in_flight ch i) \<le> cv_InFlightCount c + uncounted (pu_pc (nd_pumps nd i))"
proof -
  note ok = flow_okD [OF nsqd_reach_ok [OF assms(1, 2)]]
  have ex: "\<exists>c. nd_clients nd i = Some c \<and> cv_Channel c = Some p \<and> int (in_flight ch i) \<le> cv_InFlightCount c + uncounted (pu_pc (nd_pumps nd i))" if "0 < in_flight ch i"
  proof -
    note f = fitsD(5) [OF ok(1) assms(3)]
    with that obtain c where c: "nd_clients nd i = Some c" "cv_Channel c = Some p" unfolding chan_fits_def by blast
    have put: "put_client c nd = nd" by (rule put_same) (use c(1) fitsD(1) [OF ok(1) c(1)] in simp)
    have "ok_with (op_MaxRdyCount opts) c nd" using ok by (simp add: ok_with_def put flow_ok_iff)
    from own_in_flight(1) [OF this c(2) assms(3)] c fitsD(1) [OF ok(1) c(1)] show ?thesis by auto
  qed
  then show "0 < in_flight ch i \<Longrightarrow> \<exists>c. nd_clients nd i = Some c \<and> cv_Channel c = Some p \<and> int (in_flight ch i) \<le> cv_InFlightCount c + uncounted (pu_pc (nd_pumps nd i))" .
  show "int (in_flight ch i) \<le> op_MaxRdyCount opts"
  proof (cases "0 < in_flight ch i")
    case True
    with ex obtain c where c: "nd_clients nd i = Some c" "int (in_flight ch i) \<le> cv_InFlightCount c + uncounted (pu_pc (nd_pumps nd i))" by blast
    have "cv_InFlightCount c \<le> op_MaxRdyCount opts - reserve (pu_pc (nd_pumps nd i))"
      using fitsD(3) [OF ok(1) c(1)] by (simp add: client_fits_def)
    with c(2) reserve_range(3) [of "pu_pc (nd_pumps nd i)"] show ?thesis by linarith
  qed (use assms(2) in simp)
qed

text \<open>Runs of the daemon from its start, and two clients: one consumes from a channel, one publishes.\<close>

fun nsqd_run :: "('b, 'e) backend \<Rightarrow> nsqd_options \<Rightarrow> 'b nsqd_event list \<Rightarrow> 'b nsqd \<Rightarrow> 'b nsqd option" where
  "nsqd_run B opts [] nd = Some nd"
| "nsqd_run B opts (e # es) nd = do { nd \<leftarrow> nsqd_step B opts e nd; nsqd_run B opts es nd }"

lemma nsqd_run_reach: "nsqd_reach B opts nd \<Longrightarrow> nsqd_run B opts es nd = Some nd' \<Longrightarrow> nsqd_reach B opts nd'"
  by (induction es arbitrary: nd) (auto simp: bind_eq_Some_conv intro: nsqd_reach.nsqd_step)

definition sample_opts :: nsqd_options where
  "sample_opts = NewOptions\<lparr>op_MemQueueSize := 2\<rparr>"

definition sample_events :: "unit nsqd_event list" where
  "sample_events =
     [Accept ''a'' (to_bytes ''SUB t c'' @ [10] @ to_bytes ''RDY 1'' @ [10]), Round 1 sample_env True, Round 1 sample_env True,
      PumpTop 1 True, PumpSelect 1 OnSub, PumpTop 1 True,
      Accept ''b'' (to_bytes ''PUB t'' @ [10, 0, 0, 0, 1, 65]), Round 2 sample_env True,
      OnTopic 0 (PumpEvent RecvStart (\<lambda>_. 0)), OnTopic 0 (PumpEvent RecvMemory (\<lambda>_. 0)), PumpReceive 1 True 0 0]"

definition sample_nsqd :: "unit nsqd option" where
  "sample_nsqd = nsqd_run (dummyBackendQueue :: (unit, unit) backend) sample_opts sample_events nsqd_New"

definition sample_view :: "'b nsqd \<Rightarrow> (nat \<times> bool) option \<times> (int \<times> int) option" where
  "sample_view nd = (map_option (\<lambda>ch. (in_flight ch 1, ch_paused ch)) (chan_at nd (0, 0)),
     map_option (\<lambda>c. (cv_ReadyCount c, cv_InFlightCount c)) (nd_clients nd 1))"

lemma sample_sending:
  "map_option sample_view (nsqd_run (dummyBackendQueue :: (unit, unit) backend) sample_opts sample_events nsqd_New) = Some (Some (1, False), Some (1, 0))"
  by code_simp

lemma sample_emptied:
  "map_option sample_view (nsqd_run (dummyBackendQueue :: (unit, unit) backend) sample_opts
     (sample_events @ [OnChannel (0, 0) EmptyChannel, PumpSend 1 True]) nsqd_New) = Some (Some (0, False), Some (1, 1))"
  by code_simp

lemma sample_reached:
  assumes "map_option sample_view (nsqd_run (dummyBackendQueue :: (unit, unit) backend) sample_opts es nsqd_New) = Some (Some (n, b), Some (r, k))"
  shows "\<exists>nd ch c. nsqd_reach (dummyBackendQueue :: (unit, unit) backend) sample_opts nd \<and> chan_at nd (0, 0) = Some ch \<and> nd_clients nd 1 = Some c \<and>
    in_flight ch 1 = n \<and> ch_paused ch = b \<and> cv_ReadyCount c = r \<and> cv_InFlightCount c = k"
proof -
  from assms obtain nd where nd: "nsqd_run (dummyBackendQueue :: (unit, unit) backend) sample_opts es nsqd_New = Some nd" "sample_view nd = (Some (n, b), Some (r, k))"
    by auto
  have "nsqd_reach (dummyBackendQueue :: (unit, unit) backend) sample_opts nd" by (rule nsqd_run_reach [OF nsqd_reach.nsqd_start nd(1)])
  with nd(2) show ?thesis by (auto simp: sample_view_def)
qed

text \<open>
  In every state of the daemon that is reached by steps of which each is a whole command, a step of a pump, a whole timeout scan, or the whole emptying,
  closing or deleting of a channel or topic, no client has more messages of a channel in flight than the largest ready count that the
  options allow. A client with messages in flight is subscribed to that channel, and its counter covers them, but for the one that its
  pump has put in flight and not yet counted. The code does not make these operations atomic: \<open>empty_race_undercounts\<close> below.\<close>

theorem inflight_bounded:
  assumes "nsqd_reach B opts nd" "0 \<le> op_MaxRdyCount opts" "chan_at nd p = Some ch"
  shows "int (in_flight ch i) \<le> op_MaxRdyCount opts \<and>
    (in_flight ch i = 0 \<or> (\<exists>c. nd_clients nd i = Some c \<and> cv_Channel c = Some p \<and>
      int (in_flight ch i) \<le> cv_InFlightCount c + (case pu_pc (nd_pumps nd i) of Sending _ \<Rightarrow> 1 | _ \<Rightarrow> 0)))"
  using reach_in_flight [OF assms, of i] unfolding uncounted_def by blast

theorem inflight_bounded_witness:
  "\<exists>nd ch c. nsqd_reach (dummyBackendQueue :: (unit, unit) backend) sample_opts nd \<and> chan_at nd (0, 0) = Some ch \<and> in_flight ch 1 = 1 \<and>
     int (in_flight ch 1) \<le> 2500 \<and> nd_clients nd 1 = Some c \<and> cv_Channel c = Some (0, 0)"
proof -
  obtain nd ch where s: "nsqd_reach (dummyBackendQueue :: (unit, unit) backend) sample_opts nd" "chan_at nd (0, 0) = Some ch" "in_flight ch 1 = 1"
    using sample_reached [OF sample_sending] by blast
  have "op_MaxRdyCount sample_opts = 2500" by (simp add: sample_opts_def NewOptions_def)
  with inflight_bounded [OF s(1) _ s(2), of 1] s show ?thesis by auto
qed

text \<open>Emptying a channel between the moment when the pump puts a message in flight and the moment when it counts it leaves a count of one with nothing in
  flight: a client with a ready count of one gets no further message.\<close>

theorem empty_race_starves:
  "\<exists>nd ch c. nsqd_reach (dummyBackendQueue :: (unit, unit) backend) sample_opts nd \<and> chan_at nd (0, 0) = Some ch \<and> nd_clients nd 1 = Some c \<and>
     in_flight ch 1 = 0 \<and> cv_InFlightCount c = 1 \<and> cv_ReadyCount c = 1 \<and> \<not> IsReadyForMessages (ch_paused ch) c"
  using sample_reached [OF sample_emptied] by (force simp: IsReadyForMessages_def)

text \<open>\<open>Channel.Empty\<close> clears the messages in flight and then resets the counters of the clients, and nothing keeps the pumps out in between: a
  message that a pump puts in flight and counts there stays in flight, while the counter of the client is reset to zero. From then on the
  client may have one message more in flight than its ready count.\<close>

theorem empty_race_undercounts:
  "map_option sample_view
     (do {
        nd \<leftarrow> nsqd_run (dummyBackendQueue :: (unit, unit) backend) sample_opts (butlast sample_events) nsqd_New;
        ch \<leftarrow> chan_at nd (0, 0);
        ch \<leftarrow> initPQ (op_MemQueueSize sample_opts) ch;
        nd \<leftarrow> nsqd_run (dummyBackendQueue :: (unit, unit) backend) sample_opts [PumpReceive 1 True 0 0, PumpSend 1 True] (set_chan (0, 0) ch nd);
        c \<leftarrow> nd_clients nd 1;
        Some (put_client (cv_Empty c) nd)
      }) = Some (Some (1, False), Some (1, 0))"
  by code_simp

end
