(* ===== verification/Nsq_Daemon_Props.thy ===== *)
theory Nsq_Daemon_Props
  imports Nsq_Daemon Nsq_Flow_Props
begin

text \<open>
  A restart keeps the topics and channels of the daemon and which of them are paused, whatever fails while the file is
  written, and a round of the scan over all channels leaves no overdue message.
\<close>

section \<open>Random channels\<close>




declare resize_loop.simps [simp del]

lemma resize_loop_ideal: "resize_loop ideal n = ideal"
  by (induction ideal n rule: resize_loop.induct) (subst resize_loop.simps, auto)

section \<open>Scanning\<close>


text \<open>A channel in order, with what it holds, and one without overdue messages.\<close>

definition scannable :: "('b, 'e) backend \<Rightarrow> ('b \<Rightarrow> bytes list) \<Rightarrow> payload multiset \<Rightarrow> 'b channel \<Rightarrow> bool" where
  "scannable B view held ch \<longleftrightarrow> ch_ok view ch \<and> \<not> ch_exitFlag ch \<and> short_of B view (contents view ch) held"

definition none_overdue :: "int \<Rightarrow> 'b channel \<Rightarrow> bool" where
  "none_overdue now ch \<longleftrightarrow> (\<forall>x \<in># pq_bag (ch_inFlightPQ ch). now < snd x) \<and> (\<forall>x \<in># pq_bag (ch_deferredPQ ch). now < snd x)"


lemma calls_scannable [simp]: "scannable B view held (ch\<lparr>ch_calls := cs\<rparr>) = scannable B view held ch"
  by (simp add: scannable_def ch_ok_def contents_def contents_list_def queues_ok_def)

lemma calls_overdue [simp]: "none_overdue now (ch\<lparr>ch_calls := cs\<rparr>) = none_overdue now ch"
  by (simp add: none_overdue_def)





definition scan_sample :: "bytes list nsqd" where
  "scan_sample = nsqd_New\<lparr>nd_topics := [(NewTopic 10 0 ''t'' [])\<lparr>t_store := [inflight_channel], t_channelMap := [(''ch'', 0)]\<rparr>], nd_topicMap := [(''t'', 0)]\<rparr>"


text \<open>A round is a sequence of steps of the daemon, so it keeps every invariant of the reachable states.\<close>

lemma scan_one_step: "scan_one B now p nd = Some (d, nd') \<Longrightarrow> nsqd_step B opts (OnChannel p (ScanChannel now)) nd = Some nd'"
  by (auto simp: scan_one_def nsqd_step_def at_channel_def on_channel_def bind_eq_Some_conv)

lemma scan_all_reach: "nsqd_reach B opts nd \<Longrightarrow> scan_all B nows i cs js nd = Some (n, nd') \<Longrightarrow> nsqd_reach B opts nd'"
proof (induction js arbitrary: i nd n)
  case (Cons j js)
  from Cons.prems(2) obtain p d nd1 m where 1: "scan_one B (nows i) p nd = Some (d, nd1)" "scan_all B nows (i + 1) cs js nd1 = Some (m, nd')"
    by (auto simp: bind_eq_Some_conv)
  from Cons.IH [OF nsqd_reach.nsqd_step [OF Cons.prems(1) scan_one_step [OF 1(1)]] 1(2)] show ?case .
qed simp

lemma scan_round_reach: "nsqd_reach B opts nd \<Longrightarrow> scan_round B so rand nows sc nd = Some (again, nd') \<Longrightarrow> nsqd_reach B opts nd'"
  by (auto simp: scan_round_def bind_eq_Some_conv Let_def intro: scan_all_reach split: if_splits)

text \<open>The bound on the number of workers is checked after the one below it: with the bound zero and four channels there is no worker, and the loop
  waits forever.\<close>

lemma no_workers_block:
  "so_WorkerPoolMax so = 0 \<Longrightarrow> so_SelectionCount so = 20 \<Longrightarrow> length (nsqd_channels nd) = 4 \<Longrightarrow>
     sc_poolSize (scan_refresh so nd sc) = 0 \<and> scan_round B so rand nows (scan_refresh so nd sc) nd = None"
  by (simp add: scan_refresh_def resizePool_def resize_loop_ideal idealPoolSize_def scan_round_def Let_def)

section \<open>Restarting\<close>

definition ephemeral_name :: "string \<Rightarrow> bool" where
  "ephemeral_name name \<longleftrightarrow> take 10 (rev name) = rev ''#ephemeral''"

text \<open>The channels of a topic with the pause of each, and a topic whose map and store agree.\<close>

definition chan_list :: "'b topic \<Rightarrow> (string \<times> bool) list" where
  "chan_list t = map (\<lambda>(n, j). (n, ch_paused (t_store t ! j))) (t_channelMap t)"

definition topic_wf :: "'b topic \<Rightarrow> bool" where
  "topic_wf t \<longleftrightarrow> distinct (map snd (t_channelMap t)) \<and>
     list_all (\<lambda>(n, j). j < length (t_store t) \<and> ch_name (t_store t ! j) = n \<and> \<not> ch_ephemeral (t_store t ! j)) (t_channelMap t)"

lemma channel_metas_list:
  assumes "list_all (\<lambda>(n, j). j < length (t_store t) \<and> ch_name (t_store t ! j) = n \<and> \<not> ch_ephemeral (t_store t ! j)) cs"
  shows "channel_metas t cs = Some (map (\<lambda>(n, j). (n, ch_paused (t_store t ! j))) cs)"
  using assms by (induction cs) (auto simp: store_at_def)

lemma NewChannel_total: "\<exists>ch. NewChannel n name b = Some ch \<and> ch_name ch = name \<and> \<not> ch_paused ch \<and> ch_ephemeral ch = ephemeral_name name"
proof -
  have "0 \<le> pqSize n" by (simp add: pqSize_def)
  then show ?thesis
    by (auto simp: NewChannel_def initPQ_def newInFlightPqueue_def pq_New_def slice_make_def ephemeral_name_def bind_eq_Some_conv)
qed

text \<open>A topic whose pump has not started.\<close>

definition unstarted :: "'b topic \<Rightarrow> bool" where
  "unstarted t \<longleftrightarrow> t_pc t = PumpWaiting \<and> t_updates t = [] \<and> topic_wf t"

lemma load_channel:
  assumes un: "unstarted t" and new: "name \<notin> fst ` set (t_channelMap t)" and name: "\<not> ephemeral_name name"
  shows "\<exists>t' ch. GetChannel_wait B n openq t name = Some (length (t_store t), t') \<and> t_store t' = t_store t @ [ch] \<and> ch_name ch = name \<and>
    \<not> ch_paused ch \<and> \<not> ch_ephemeral ch \<and> t_channelMap t' = (name, length (t_store t)) # t_channelMap t \<and> t_pc t' = PumpWaiting \<and> t_updates t' = [] \<and>
    t_name t' = t_name t \<and> t_paused t' = t_paused t \<and> t_ephemeral t' = t_ephemeral t"
proof -
  from NewChannel_total [of n name "openq name"] name obtain ch where
    ch: "NewChannel n name (openq name) = Some ch" "ch_name ch = name" "\<not> ch_paused ch" "\<not> ch_ephemeral ch" by auto
  have "map_of (t_channelMap t) name = None" using new by (simp add: map_of_eq_None_iff)
  with ch un show ?thesis
    by (auto simp: GetChannel_wait_def GetChannel_def getOrCreateChannel_def await_pump_def unstarted_def pump_step_def pump_waiting_def take_update_def Let_def)
qed

lemma load_channels_list:
  assumes "unstarted t" "distinct (map fst cs)" "fst ` set cs \<inter> fst ` set (t_channelMap t) = {}"
    "list_all (\<lambda>(n, _). isValidName n \<and> \<not> ephemeral_name n) cs"
  shows "\<exists>t'. load_channels B n openq cs t = Some t' \<and> unstarted t' \<and> chan_list t' = rev cs @ chan_list t \<and>
    t_name t' = t_name t \<and> t_paused t' = t_paused t \<and> t_ephemeral t' = t_ephemeral t"
  using assms
proof (induction cs arbitrary: t)
  case Nil
  then show ?case by simp
next
  case (Cons c cs)
  obtain name paused where c: "c = (name, paused)" by (cases c)
  from Cons.prems c have name: "isValidName name" "\<not> ephemeral_name name" "name \<notin> fst ` set (t_channelMap t)" by auto
  let ?j = "length (t_store t)"
  from load_channel [OF Cons.prems(1) name(3, 2), of B n openq] obtain t1 ch where
    t1: "GetChannel_wait B n openq t name = Some (?j, t1)" "t_store t1 = t_store t @ [ch]" "ch_name ch = name" "\<not> ch_paused ch" "\<not> ch_ephemeral ch"
      "t_channelMap t1 = (name, ?j) # t_channelMap t" "t_pc t1 = PumpWaiting" "t_updates t1 = []"
      "t_name t1 = t_name t" "t_paused t1 = t_paused t" "t_ephemeral t1 = t_ephemeral t" by blast
  define ch2 where "ch2 = (if paused then doPause ch True else ch)"
  define t2 where "t2 = t1\<lparr>t_store := t_store t @ [ch2]\<rparr>"
  have ch2: "ch_name ch2 = name" "ch_paused ch2 = paused" "\<not> ch_ephemeral ch2" using t1(3-5) by (auto simp: ch2_def doPause_def call_all_def)
  have t2: "(if paused then t1\<lparr>t_store := (t_store t1)[?j := doPause ch True]\<rparr> else t1) = t2" using t1(2) by (simp add: t2_def ch2_def)
  have idx: "j < ?j" if "(m, j) \<in> set (t_channelMap t)" for m j using that Cons.prems(1) by (auto simp: unstarted_def topic_wf_def list_all_iff)
  have un2: "unstarted t2"
    using Cons.prems(1) t1(6-8) ch2 idx by (auto simp: unstarted_def topic_wf_def t2_def list_all_iff nth_append)
  have list: "chan_list t2 = (name, paused) # chan_list t"
    using t1(6) ch2(2) idx by (auto simp: chan_list_def t2_def nth_append)
  have "fst ` set cs \<inter> fst ` set (t_channelMap t2) = {}" using Cons.prems(2, 3) c t1(6) by (auto simp: t2_def)
  with Cons.IH [OF un2] Cons.prems(2, 4) obtain t' where
    t': "load_channels B n openq cs t2 = Some t'" "unstarted t'" "chan_list t' = rev cs @ chan_list t2"
      "t_name t' = t_name t2" "t_paused t' = t_paused t2" "t_ephemeral t' = t_ephemeral t2" by auto
  have "store_at t1 ?j = Some ch" by (simp add: store_at_def t1(2))
  then have "load_channels B n openq (c # cs) t = load_channels B n openq cs t2" using name(1) t1(1) by (simp add: c t2)
  with t' list t1(9-) show ?case by (simp add: c t2_def)
qed

text \<open>The topics of the daemon, likewise. The restart reverses lists that stand for maps.\<close>

definition topic_view :: "'b topic \<Rightarrow> topic_meta" where
  "topic_view t = \<lparr>tm_Name = t_name t, tm_Paused = t_paused t, tm_Channels = chan_list t\<rparr>"

definition daemon_wf :: "'b nsqd \<Rightarrow> bool" where
  "daemon_wf nd \<longleftrightarrow> distinct (map snd (nd_topicMap nd)) \<and>
     list_all (\<lambda>(n, k). k < length (nd_topics nd) \<and> t_name (nd_topics nd ! k) = n \<and> \<not> t_ephemeral (nd_topics nd ! k) \<and> topic_wf (nd_topics nd ! k))
       (nd_topicMap nd)"

definition topic_list :: "'b nsqd \<Rightarrow> topic_meta list" where
  "topic_list nd = map (\<lambda>(_, k). topic_view (nd_topics nd ! k)) (nd_topicMap nd)"

lemma metadata_list:
  assumes "daemon_wf nd"
  shows "metadata nd = Some (topic_list nd)"
proof -
  have "topic_metas nd ts = Some (map (\<lambda>(_, k). topic_view (nd_topics nd ! k)) ts)"
    if "list_all (\<lambda>(n, k). k < length (nd_topics nd) \<and> t_name (nd_topics nd ! k) = n \<and> \<not> t_ephemeral (nd_topics nd ! k) \<and> topic_wf (nd_topics nd ! k)) ts" for ts
    using that
  proof (induction ts)
    case (Cons x ts)
    obtain n k where x: "x = (n, k)" by (cases x)
    with Cons have t: "topic_at nd k = Some (nd_topics nd ! k)" "\<not> t_ephemeral (nd_topics nd ! k)" "topic_wf (nd_topics nd ! k)"
      by (auto simp: topic_at_def)
    have "channel_metas (nd_topics nd ! k) (t_channelMap (nd_topics nd ! k)) = Some (chan_list (nd_topics nd ! k))"
      using channel_metas_list [of "nd_topics nd ! k"] t(3) by (simp add: topic_wf_def chan_list_def)
    with Cons t show ?case by (simp add: x topic_view_def)
  qed simp
  with assms show ?thesis by (simp add: metadata_def daemon_wf_def topic_list_def)
qed

definition rev_meta :: "topic_meta \<Rightarrow> topic_meta" where
  "rev_meta m = m\<lparr>tm_Channels := rev (tm_Channels m)\<rparr>"

definition meta_ok :: "topic_meta \<Rightarrow> bool" where
  "meta_ok m \<longleftrightarrow> isValidName (tm_Name m) \<and> \<not> ephemeral_name (tm_Name m) \<and> distinct (map fst (tm_Channels m)) \<and>
     list_all (\<lambda>(n, _). isValidName n \<and> \<not> ephemeral_name n) (tm_Channels m)"

lemma load_topic:
  assumes load: "nd_isLoading nd" and new: "tm_Name m \<notin> fst ` set (nd_topicMap nd)" and ok: "meta_ok m"
  shows "\<exists>nd1 t t1 t2. GetTopic B opts env (tm_Name m) nd = Some (length (nd_topics nd), nd1) \<and> topic_at nd1 (length (nd_topics nd)) = Some t \<and>
    (if tm_Paused m then await_pause B (t_doPause t True) else Some t) = Some t1 \<and>
    load_channels B (op_MemQueueSize opts) (ce_openChannel env (tm_Name m)) (tm_Channels m) t1 = Some t2 \<and>
    nd1 = nd\<lparr>nd_topics := nd_topics nd @ [t], nd_topicMap := (tm_Name m, length (nd_topics nd)) # nd_topicMap nd\<rparr> \<and>
    topic_wf (t_Start t2) \<and> \<not> t_ephemeral (t_Start t2) \<and> t_name (t_Start t2) = tm_Name m \<and> topic_view (t_Start t2) = rev_meta m"
proof -
  let ?t = "NewTopic (op_MemQueueSize opts) (op_ID opts) (tm_Name m) (ce_openTopic env (tm_Name m))"
  define t1 where "t1 = (if tm_Paused m then ?t\<lparr>t_paused := True\<rparr> else ?t)"
  have get: "GetTopic B opts env (tm_Name m) nd =
      Some (length (nd_topics nd), nd\<lparr>nd_topics := nd_topics nd @ [?t], nd_topicMap := (tm_Name m, length (nd_topics nd)) # nd_topicMap nd\<rparr>)"
  proof -
    have "map_of (nd_topicMap nd) (tm_Name m) = None" using new by (simp add: map_of_eq_None_iff)
    with load show ?thesis by (simp add: GetTopic_def Let_def)
  qed
  have pause: "(if tm_Paused m then await_pause B (t_doPause ?t True) else Some ?t) = Some t1"
    by (simp add: t1_def await_pause_def t_doPause_def NewTopic_def pump_step_def pump_waiting_def)
  have t1: "unstarted t1" "t_channelMap t1 = []" "t_name t1 = tm_Name m" "t_paused t1 = tm_Paused m" "t_ephemeral t1 = ephemeral_name (tm_Name m)"
    by (simp_all add: t1_def NewTopic_def unstarted_def topic_wf_def ephemeral_name_def)
  from load_channels_list [OF t1(1), of "tm_Channels m" B "op_MemQueueSize opts" "ce_openChannel env (tm_Name m)"] ok t1(2) obtain t2 where
    t2: "load_channels B (op_MemQueueSize opts) (ce_openChannel env (tm_Name m)) (tm_Channels m) t1 = Some t2" "unstarted t2"
      "chan_list t2 = rev (tm_Channels m) @ chan_list t1" "t_name t2 = t_name t1" "t_paused t2 = t_paused t1" "t_ephemeral t2 = t_ephemeral t1"
    by (auto simp: meta_ok_def)
  have "topic_wf (t_Start t2)" "chan_list (t_Start t2) = chan_list t2" using t2(2) by (simp_all add: unstarted_def t_Start_def topic_wf_def chan_list_def)
  moreover have "chan_list t1 = []" using t1(2) by (simp add: chan_list_def)
  ultimately show ?thesis
    using get pause t1 t2 ok by (auto simp: topic_at_def topic_view_def rev_meta_def t_Start_def meta_ok_def)
qed

lemma load_topics_list:
  assumes "nd_isLoading nd" "daemon_wf nd" "distinct (map tm_Name ms)" "tm_Name ` set ms \<inter> fst ` set (nd_topicMap nd) = {}" "list_all meta_ok ms"
  shows "\<exists>nd'. load_topics B opts env ms nd = Some nd' \<and> daemon_wf nd' \<and> topic_list nd' = rev (map rev_meta ms) @ topic_list nd"
  using assms
proof (induction ms arbitrary: nd)
  case Nil
  then show ?case by simp
next
  case (Cons m ms)
  let ?k = "length (nd_topics nd)"
  from Cons.prems have m: "tm_Name m \<notin> fst ` set (nd_topicMap nd)" "meta_ok m" "isValidName (tm_Name m)" by (auto simp: meta_ok_def)
  from load_topic [OF Cons.prems(1) m(1, 2), of B opts env] obtain nd1 t t1 t2 where
    s: "GetTopic B opts env (tm_Name m) nd = Some (?k, nd1)" "topic_at nd1 ?k = Some t"
      "(if tm_Paused m then await_pause B (t_doPause t True) else Some t) = Some t1"
      "load_channels B (op_MemQueueSize opts) (ce_openChannel env (tm_Name m)) (tm_Channels m) t1 = Some t2"
    and nd1: "nd1 = nd\<lparr>nd_topics := nd_topics nd @ [t], nd_topicMap := (tm_Name m, ?k) # nd_topicMap nd\<rparr>"
    and t2: "topic_wf (t_Start t2)" "\<not> t_ephemeral (t_Start t2)" "t_name (t_Start t2) = tm_Name m" "topic_view (t_Start t2) = rev_meta m" by blast
  define nd2 where "nd2 = set_topic ?k (t_Start t2) nd1"
  have nd2: "nd_topics nd2 = nd_topics nd @ [t_Start t2]" "nd_topicMap nd2 = (tm_Name m, ?k) # nd_topicMap nd" "nd_isLoading nd2"
    using Cons.prems(1) by (simp_all add: nd2_def nd1 set_topic_def)
  have idx: "k < ?k" if "(n, k) \<in> set (nd_topicMap nd)" for n k using that Cons.prems(2) by (auto simp: daemon_wf_def list_all_iff)
  have wf: "daemon_wf nd2" using Cons.prems(2) t2 idx by (auto simp: daemon_wf_def nd2 list_all_iff nth_append)
  have list: "topic_list nd2 = rev_meta m # topic_list nd" using t2(4) idx by (auto simp: topic_list_def nd2 nth_append)
  have "tm_Name ` set ms \<inter> fst ` set (nd_topicMap nd2) = {}" using Cons.prems(3, 4) by (auto simp: nd2)
  with Cons.IH [OF nd2(3) wf] Cons.prems(3, 5) obtain nd' where
    "load_topics B opts env ms nd2 = Some nd'" "daemon_wf nd'" "topic_list nd' = rev (map rev_meta ms) @ topic_list nd2" by auto
  moreover have "load_topics B opts env (m # ms) nd = load_topics B opts env ms nd2" using s m(3) by (simp add: nd2_def)
  ultimately show ?case using list by simp
qed

text \<open>The metadata as the maps that its lists stand for.\<close>

definition meta_map :: "topic_meta list \<Rightarrow> string \<Rightarrow> (bool \<times> (string \<Rightarrow> bool option)) option" where
  "meta_map ms = map_of (map (\<lambda>m. (tm_Name m, tm_Paused m, map_of (tm_Channels m))) ms)"

lemma map_of_rev_distinct: "distinct (map fst xs) \<Longrightarrow> map_of (rev xs) = map_of xs"
  by (simp add: map_of_inject_set rev_map [symmetric])

lemma meta_map_rev:
  assumes "distinct (map tm_Name ms)" "list_all meta_ok ms"
  shows "meta_map (rev (map rev_meta ms)) = meta_map ms"
proof -
  let ?entry = "\<lambda>m. (tm_Name m, tm_Paused m, map_of (tm_Channels m))"
  have "map ?entry (map rev_meta ms) = map ?entry ms"
    using assms(2) by (auto simp: list_all_iff rev_meta_def meta_ok_def map_of_rev_distinct)
  then have "meta_map (rev (map rev_meta ms)) = map_of (rev (map ?entry ms))"
    by (simp only: meta_map_def rev_map [symmetric])
  also have "\<dots> = meta_map ms" using assms(1) by (simp add: meta_map_def map_of_rev_distinct comp_def)
  finally show ?thesis .
qed

lemma LoadMetadata_decoded:
  assumes "fs (newMetadataFile dataPath) = Some data" "decode data = Some ms" "distinct (map tm_Name ms)" "list_all meta_ok ms"
  shows "\<exists>nd'. LoadMetadata B decode opts env dataPath True fs nsqd_New = Some (True, nd') \<and> \<not> nd_isLoading nd' \<and>
    daemon_wf nd' \<and> topic_list nd' = rev (map rev_meta ms)"
proof -
  let ?nd = "nsqd_New\<lparr>nd_isLoading := True\<rparr>"
  have "daemon_wf ?nd" "topic_list ?nd = []" "nd_isLoading ?nd" "tm_Name ` set ms \<inter> fst ` set (nd_topicMap ?nd) = {}"
    by (simp_all add: daemon_wf_def topic_list_def nsqd_New_def)
  with load_topics_list [of ?nd ms B opts env, OF _ _ assms(3) _ assms(4)] obtain nd' where
    nd': "load_topics B opts env ms ?nd = Some nd'" "daemon_wf nd'" "topic_list nd' = rev (map rev_meta ms)" by (metis append_Nil2)
  have "daemon_wf (nd'\<lparr>nd_isLoading := False\<rparr>)" "topic_list (nd'\<lparr>nd_isLoading := False\<rparr>) = topic_list nd'"
    using nd'(2) by (simp_all add: daemon_wf_def topic_list_def)
  with nd' assms(1, 2) show ?thesis by (simp add: LoadMetadata_def)
qed

lemma PersistMetadata_file:
  assumes "metadata nd = Some ms"
  shows "\<exists>fs'. PersistMetadata encode dataPath io renamed r nd fs = Some (io = IoOk \<and> renamed, fs') \<and>
    fs' (newMetadataFile dataPath) = (if io = IoOk \<and> renamed then Some (encode ms) else fs (newMetadataFile dataPath))"
  using assms by (cases io) (simp_all add: PersistMetadata_def writeSyncFile_def Let_def)

text \<open>
  C18. The metadata over a restart: writing it replaces the file as a whole, or reports an error and leaves the old file as it was,
  whichever operation fails. A daemon that starts from a file that was replaced loads it without error and has the topics that were written,
  each with its channels, and the same of them are paused.\<close>

theorem metadata_restart:
  fixes nd :: "'b nsqd" and B :: "('b, 'e) backend"
  assumes "metadata nd = Some ms" "distinct (map tm_Name ms)" "list_all meta_ok ms" "decode (encode ms) = Some ms"
    and "PersistMetadata encode dataPath io renamed r nd fs = Some (ok, fs')"
  shows "ok = (io = IoOk \<and> renamed) \<and>
    (if ok then \<exists>nd' ms'. LoadMetadata B decode opts env dataPath True fs' nsqd_New = Some (True, nd') \<and> \<not> nd_isLoading nd' \<and>
       metadata nd' = Some ms' \<and> meta_map ms' = meta_map ms
     else fs' (newMetadataFile dataPath) = fs (newMetadataFile dataPath))"
proof -
  from PersistMetadata_file [OF assms(1), of encode dataPath io renamed r fs] assms(5) have
    ok: "ok = (io = IoOk \<and> renamed)" and
    saved: "fs' (newMetadataFile dataPath) = (if ok then Some (encode ms) else fs (newMetadataFile dataPath))" by auto
  show ?thesis
  proof (cases ok)
    case True
    with LoadMetadata_decoded [of fs' dataPath "encode ms" decode ms B opts env] saved assms(2-4) obtain nd' where
      "LoadMetadata B decode opts env dataPath True fs' nsqd_New = Some (True, nd')" "\<not> nd_isLoading nd'" "daemon_wf nd'" "topic_list nd' = rev (map rev_meta ms)" by auto
    with True ok metadata_list [of nd'] meta_map_rev [OF assms(2, 3)] show ?thesis by auto
  qed (use ok saved in auto)
qed

definition meta_sample :: "bytes list nsqd" where
  "meta_sample = scan_sample\<lparr>nd_topics := [(nd_topics scan_sample ! 0)\<lparr>t_paused := True\<rparr>, NewTopic 10 0 ''u#ephemeral'' []],
     nd_topicMap := [(''t'', 0), (''u#ephemeral'', 1)]\<rparr>"

definition scan_env :: "bytes list cmd_env" where
  "scan_env = \<lparr>ae_rx = \<lparr>rx_ok = (\<lambda>_. True), rx_match = (\<lambda>_ _. True)\<rparr>, ae_get = (\<lambda>_ _. None), ae_now = 0, ae_start = 0, ae_remoteIP = None,
     ae_commonName = '''', ce_clock = (\<lambda>_. []), ce_nows = int, ce_sends = (\<lambda>_. True), ce_handshake = True, ce_flush = True, ce_decode = (\<lambda>_. None),
     ce_lookup = (\<lambda>_. []), ce_openTopic = (\<lambda>_. []), ce_openChannel = (\<lambda>_ _. [])\<rparr>"

definition meta_sample_list :: "topic_meta list" where
  "meta_sample_list = [\<lparr>tm_Name = ''t'', tm_Paused = True, tm_Channels = [(''ch'', False)]\<rparr>]"

theorem metadata_restart_witness:
  "\<exists>fs' nd' ms'. PersistMetadata (\<lambda>ms. if ms = meta_sample_list then [1] else []) ''d'' IoOk True ''5'' meta_sample (\<lambda>_. None) = Some (True, fs') \<and>
     LoadMetadata list_backend (\<lambda>data. if data = [1] then Some meta_sample_list else None) sample_opts scan_env ''d'' True fs' nsqd_New = Some (True, nd') \<and>
     metadata nd' = Some ms' \<and> meta_map ms' ''t'' = Some (True, [''ch'' \<mapsto> False]) \<and> meta_map ms' ''u#ephemeral'' = None"
proof -
  let ?encode = "\<lambda>ms. if ms = meta_sample_list then [1] else []" and ?decode = "\<lambda>data. if data = [1] then Some meta_sample_list else None"
  have ms: "metadata meta_sample = Some meta_sample_list"
    by (simp add: metadata_def meta_sample_def meta_sample_list_def scan_sample_def NewTopic_def inflight_channel_def topic_at_def store_at_def)
  have ok: "distinct (map tm_Name meta_sample_list)" "list_all meta_ok meta_sample_list"
    by (simp_all add: meta_sample_list_def meta_ok_def ephemeral_name_def isValidName_def name_char_def)
  from PersistMetadata_file [OF ms, of ?encode "''d''" IoOk True "''5''" "\<lambda>_. None"] obtain fs' where
    fs': "PersistMetadata ?encode ''d'' IoOk True ''5'' meta_sample (\<lambda>_. None) = Some (True, fs')" by auto
  from metadata_restart [OF ms ok _ fs', of ?decode list_backend sample_opts scan_env] obtain nd' ms' where
    "LoadMetadata list_backend ?decode sample_opts scan_env ''d'' True fs' nsqd_New = Some (True, nd')"
    "metadata nd' = Some ms'" "meta_map ms' = meta_map meta_sample_list" by auto
  moreover have "meta_map meta_sample_list ''t'' = Some (True, [''ch'' \<mapsto> False])" "meta_map meta_sample_list ''u#ephemeral'' = None"
    by (simp_all add: meta_map_def meta_sample_list_def)
  ultimately show ?thesis using fs' by metis
qed

end
