(* ===== verification/Nsq_Lookupd.thy ===== *)
theory Nsq_Lookupd
  imports Nsq_Message
begin

text \<open>
  \<open>nsqlookupd\<close>: the registration database (\<open>registration_db.go\<close>), the commands of the daemons that register
  (\<open>lookup_protocol_v1.go\<close>) and the handlers of the HTTP interface (\<open>http.go\<close>). Producers and the
  information on peers are objects in two stores, since several registrations share them. A Go map
  is an association list whose order is the order of \<open>range\<close>. Reading the connection and the JSON decoder
  are parameters. Logging is left out.
\<close>

section \<open>registration\_db.go\<close>

record registration =
  r_Category :: string
  r_Key :: string
  r_SubKey :: string

record peer_info =
  pe_lastUpdate :: int
  pe_id :: string
  pe_RemoteAddress :: string
  pe_Hostname :: string
  pe_BroadcastAddress :: string
  pe_TCPPort :: int
  pe_HTTPPort :: int
  pe_Version :: string

text \<open>\<open>pr_peerInfo\<close> is the position of the peer in its store.\<close>

record producer =
  pr_peerInfo :: nat
  pr_tombstoned :: bool
  pr_tombstonedAt :: int

record lookupd =
  lk_peers :: "peer_info list"
  lk_producers :: "producer list"
  lk_db :: "(registration \<times> (string \<times> nat) list) list"

definition peer_of :: "lookupd \<Rightarrow> nat \<Rightarrow> peer_info" where
  "peer_of s p = lk_peers s ! pr_peerInfo (lk_producers s ! p)"

definition Tombstone :: "lookupd \<Rightarrow> int \<Rightarrow> nat \<Rightarrow> lookupd" where
  "Tombstone s now p =
     s\<lparr>lk_producers := (lk_producers s)[p := (lk_producers s ! p)\<lparr>pr_tombstoned := True, pr_tombstonedAt := now\<rparr>]\<rparr>"

definition IsTombstoned :: "lookupd \<Rightarrow> int \<Rightarrow> nat \<Rightarrow> int \<Rightarrow> bool" where
  "IsTombstoned s now p lifetime \<longleftrightarrow> pr_tombstoned (lk_producers s ! p) \<and> now - pr_tombstonedAt (lk_producers s ! p) < lifetime"

definition NewRegistrationDB :: lookupd where
  "NewRegistrationDB = \<lparr>lk_peers = [], lk_producers = [], lk_db = []\<rparr>"

definition AddRegistration :: "lookupd \<Rightarrow> registration \<Rightarrow> lookupd" where
  "AddRegistration s k = (if map_of (lk_db s) k = None then s\<lparr>lk_db := (k, []) # lk_db s\<rparr> else s)"

text \<open>Assigning to the map \<open>registrationMap[k]\<close>, which is there.\<close>

definition set_producers :: "registration \<Rightarrow> (string \<times> nat) list \<Rightarrow> lookupd \<Rightarrow> lookupd" where
  "set_producers k ps s = s\<lparr>lk_db := map (\<lambda>(k', ps'). (k', if k' = k then ps else ps')) (lk_db s)\<rparr>"

definition AddProducer :: "lookupd \<Rightarrow> registration \<Rightarrow> nat \<Rightarrow> bool \<times> lookupd" where
  "AddProducer s k p =
     (let s = AddRegistration s k;
          producers = the (map_of (lk_db s) k);
          found = map_of producers (pe_id (peer_of s p)) \<noteq> None
      in (\<not> found, if found then s else set_producers k ((pe_id (peer_of s p), p) # producers) s))"

definition RemoveProducer :: "lookupd \<Rightarrow> registration \<Rightarrow> string \<Rightarrow> (bool \<times> nat) \<times> lookupd" where
  "RemoveProducer s k i =
     (case map_of (lk_db s) k of
        None \<Rightarrow> ((False, 0), s)
      | Some producers \<Rightarrow>
          let left = filter (\<lambda>(i', _). i' \<noteq> i) producers
          in ((map_of producers i \<noteq> None, length left), set_producers k left s))"

definition RemoveRegistration :: "lookupd \<Rightarrow> registration \<Rightarrow> lookupd" where
  "RemoveRegistration s k = s\<lparr>lk_db := filter (\<lambda>(k', _). k' \<noteq> k) (lk_db s)\<rparr>"

definition needFilter :: "string \<Rightarrow> string \<Rightarrow> bool" where
  "needFilter key subkey \<longleftrightarrow> key = ''*'' \<or> subkey = ''*''"

definition IsMatch :: "registration \<Rightarrow> string \<Rightarrow> string \<Rightarrow> string \<Rightarrow> bool" where
  "IsMatch k category key subkey \<longleftrightarrow>
     (if category \<noteq> r_Category k then False
      else if key \<noteq> ''*'' \<and> r_Key k \<noteq> key then False
      else if subkey \<noteq> ''*'' \<and> r_SubKey k \<noteq> subkey then False
      else True)"

definition FindRegistrations :: "lookupd \<Rightarrow> string \<Rightarrow> string \<Rightarrow> string \<Rightarrow> registration list" where
  "FindRegistrations s category key subkey =
     (if \<not> needFilter key subkey then
        let k = \<lparr>r_Category = category, r_Key = key, r_SubKey = subkey\<rparr>
        in if map_of (lk_db s) k \<noteq> None then [k] else []
      else filter (\<lambda>k. IsMatch k category key subkey) (map fst (lk_db s)))"

definition ProducerMap2Slice :: "(string \<times> nat) list \<Rightarrow> nat list" where
  "ProducerMap2Slice pm = map snd pm"

text \<open>The inner loop of \<open>FindProducers\<close>, with the peers it has seen and the producers it returns.\<close>

fun find_loop :: "lookupd \<Rightarrow> (string \<times> nat) list \<Rightarrow> string list \<times> nat list \<Rightarrow> string list \<times> nat list" where
  "find_loop s [] r = r"
| "find_loop s ((_, p) # ps) (results, ret) =
     (let i = pe_id (peer_of s p)
      in find_loop s ps (if i \<in> set results then (results, ret) else (i # results, ret @ [p])))"

definition FindProducers :: "lookupd \<Rightarrow> string \<Rightarrow> string \<Rightarrow> string \<Rightarrow> nat list" where
  "FindProducers s category key subkey =
     (if \<not> needFilter key subkey then
        case map_of (lk_db s) \<lparr>r_Category = category, r_Key = key, r_SubKey = subkey\<rparr> of
          None \<Rightarrow> []
        | Some ps \<Rightarrow> ProducerMap2Slice ps
      else snd (fold (\<lambda>(k, ps) r. if IsMatch k category key subkey then find_loop s ps r else r) (lk_db s) ([], [])))"

definition LookupRegistrations :: "lookupd \<Rightarrow> string \<Rightarrow> registration list" where
  "LookupRegistrations s i = map fst (filter (\<lambda>(k, ps). map_of ps i \<noteq> None) (lk_db s))"

definition rr_Filter :: "registration list \<Rightarrow> string \<Rightarrow> string \<Rightarrow> string \<Rightarrow> registration list" where
  "rr_Filter rr category key subkey = filter (\<lambda>k. IsMatch k category key subkey) rr"

definition FilterByActive :: "lookupd \<Rightarrow> int \<Rightarrow> nat list \<Rightarrow> int \<Rightarrow> int \<Rightarrow> nat list" where
  "FilterByActive s now pp inactivityTimeout tombstoneLifetime =
     filter (\<lambda>p. \<not> (now - pe_lastUpdate (peer_of s p) > inactivityTimeout \<or> IsTombstoned s now p tombstoneLifetime)) pp"

definition pp_PeerInfo :: "lookupd \<Rightarrow> nat list \<Rightarrow> peer_info list" where
  "pp_PeerInfo s pp = map (peer_of s) pp"

section \<open>lookup\_protocol\_v1.go\<close>

text \<open>The clients are the connections of the daemons; \<open>cl_peerInfo\<close> is \<open>None\<close> until the client has identified itself.\<close>

record client_v1 =
  cl_RemoteAddr :: string
  cl_peerInfo :: "nat option"

definition NewClientV1 :: "string \<Rightarrow> client_v1" where
  "NewClientV1 addr = \<lparr>cl_RemoteAddr = addr, cl_peerInfo = None\<rparr>"

datatype fatal_err = E_INVALID string | E_BAD_TOPIC string | E_BAD_CHANNEL string | E_BAD_BODY string

definition getTopicChan :: "string \<Rightarrow> string list \<Rightarrow> fatal_err + string \<times> string" where
  "getTopicChan command params =
     (case params of
        [] \<Rightarrow> Inl (E_INVALID (command @ '' insufficient number of params''))
      | topicName # rest \<Rightarrow>
          let channelName = (case rest of [] \<Rightarrow> '''' | c # _ \<Rightarrow> c)
          in if \<not> isValidName topicName then Inl (E_BAD_TOPIC (command @ '' topic name '' @ [CHR 0x27] @ topicName @ [CHR 0x27] @ '' is not valid''))
             else if channelName \<noteq> '''' \<and> \<not> isValidName channelName
               then Inl (E_BAD_CHANNEL (command @ '' channel name '' @ [CHR 0x27] @ channelName @ [CHR 0x27] @ '' is not valid''))
             else Inr (topicName, channelName))"

definition topic_key :: "string \<Rightarrow> registration" where
  "topic_key topic = \<lparr>r_Category = ''topic'', r_Key = topic, r_SubKey = ''''\<rparr>"

definition channel_key :: "string \<Rightarrow> string \<Rightarrow> registration" where
  "channel_key topic channel = \<lparr>r_Category = ''channel'', r_Key = topic, r_SubKey = channel\<rparr>"

text \<open>\<open>DB.AddProducer(key, &Producer{peerInfo: peer})\<close>.\<close>

definition register :: "registration \<Rightarrow> nat \<Rightarrow> lookupd \<Rightarrow> lookupd" where
  "register k peer s =
     snd (AddProducer (s\<lparr>lk_producers := lk_producers s @ [\<lparr>pr_peerInfo = peer, pr_tombstoned = False, pr_tombstonedAt = 0\<rparr>]\<rparr>) k
       (length (lk_producers s)))"

definition REGISTER :: "client_v1 \<Rightarrow> string list \<Rightarrow> lookupd \<Rightarrow> fatal_err option \<times> lookupd" where
  "REGISTER client params s =
     (case cl_peerInfo client of
        None \<Rightarrow> (Some (E_INVALID ''client must IDENTIFY''), s)
      | Some peer \<Rightarrow>
          (case getTopicChan ''REGISTER'' params of
             Inl err \<Rightarrow> (Some err, s)
           | Inr (topic, channel) \<Rightarrow>
               let s = (if channel \<noteq> '''' then register (channel_key topic channel) peer s else s)
               in (None, register (topic_key topic) peer s)))"

definition is_ephemeral :: "string \<Rightarrow> bool" where
  "is_ephemeral name \<longleftrightarrow> take 10 (rev name) = rev ''#ephemeral''"

definition UNREGISTER :: "client_v1 \<Rightarrow> string list \<Rightarrow> lookupd \<Rightarrow> fatal_err option \<times> lookupd" where
  "UNREGISTER client params s =
     (case cl_peerInfo client of
        None \<Rightarrow> (Some (E_INVALID ''client must IDENTIFY''), s)
      | Some peer \<Rightarrow>
          (case getTopicChan ''UNREGISTER'' params of
             Inl err \<Rightarrow> (Some err, s)
           | Inr (topic, channel) \<Rightarrow>
               let i = pe_id (lk_peers s ! peer)
               in if channel \<noteq> '''' then
                    let ((removed, left), s) = RemoveProducer s (channel_key topic channel) i
                    in (None, if left = 0 \<and> is_ephemeral channel then RemoveRegistration s (channel_key topic channel) else s)
                  else
                    let s = fold (\<lambda>r s. snd (RemoveProducer s r i)) (FindRegistrations s ''channel'' topic ''*'') s;
                        ((removed, left), s) = RemoveProducer s (topic_key topic) i
                    in (None, if left = 0 \<and> is_ephemeral topic then RemoveRegistration s (topic_key topic) else s)))"

text \<open>\<open>IDENTIFY\<close>: \<open>readLen\<close> is the 32-bit number read from the connection, \<open>readBody n\<close> the \<open>n\<close> bytes that follow, \<open>decode\<close> the JSON
  decoder; each is \<open>None\<close> on an error. The result \<open>None\<close> is a panic, of \<open>make\<close> with a negative length. The
  answer to the client is left out.\<close>

definition IDENTIFY ::
  "int option \<Rightarrow> (nat \<Rightarrow> bytes option) \<Rightarrow> (bytes \<Rightarrow> peer_info \<Rightarrow> peer_info option) \<Rightarrow> int \<Rightarrow> client_v1 \<Rightarrow> lookupd \<Rightarrow>
     (fatal_err option \<times> client_v1 \<times> lookupd) option" where
  "IDENTIFY readLen readBody decode now client s =
     (if cl_peerInfo client \<noteq> None then Some (Some (E_INVALID ''cannot IDENTIFY again''), client, s)
      else case readLen of
        None \<Rightarrow> Some (Some (E_BAD_BODY ''IDENTIFY failed to read body size''), client, s)
      | Some bodyLen \<Rightarrow>
          if bodyLen < 0 then None
          else (case readBody (nat bodyLen) of
            None \<Rightarrow> Some (Some (E_BAD_BODY ''IDENTIFY failed to read body''), client, s)
          | Some body \<Rightarrow>
              (case decode body \<lparr>pe_lastUpdate = 0, pe_id = cl_RemoteAddr client, pe_RemoteAddress = '''', pe_Hostname = '''',
                  pe_BroadcastAddress = '''', pe_TCPPort = 0, pe_HTTPPort = 0, pe_Version = ''''\<rparr> of
                 None \<Rightarrow> Some (Some (E_BAD_BODY ''IDENTIFY failed to decode JSON body''), client, s)
               | Some peerInfo \<Rightarrow>
                   let peerInfo = peerInfo\<lparr>pe_RemoteAddress := cl_RemoteAddr client\<rparr>
                   in if pe_BroadcastAddress peerInfo = '''' \<or> pe_TCPPort peerInfo = 0 \<or> pe_HTTPPort peerInfo = 0 \<or> pe_Version peerInfo = ''''
                      then Some (Some (E_BAD_BODY ''IDENTIFY missing fields''), client, s)
                      else let peer = length (lk_peers s);
                               s = s\<lparr>lk_peers := lk_peers s @ [peerInfo\<lparr>pe_lastUpdate := now\<rparr>]\<rparr>
                           in Some (None, client\<lparr>cl_peerInfo := Some peer\<rparr>,
                                register \<lparr>r_Category = ''client'', r_Key = '''', r_SubKey = ''''\<rparr> peer s))))"

definition PING :: "int \<Rightarrow> client_v1 \<Rightarrow> lookupd \<Rightarrow> lookupd" where
  "PING now client s =
     (case cl_peerInfo client of
        None \<Rightarrow> s
      | Some peer \<Rightarrow> s\<lparr>lk_peers := (lk_peers s)[peer := (lk_peers s ! peer)\<lparr>pe_lastUpdate := now\<rparr>]\<rparr>)"

text \<open>The end of \<open>IOLoop\<close>, when the connection is closed.\<close>

definition client_closed :: "client_v1 \<Rightarrow> lookupd \<Rightarrow> lookupd" where
  "client_closed client s =
     (case cl_peerInfo client of
        None \<Rightarrow> s
      | Some peer \<Rightarrow>
          let i = pe_id (lk_peers s ! peer)
          in fold (\<lambda>r s. snd (RemoveProducer s r i)) (LookupRegistrations s i) s)"

section \<open>http.go\<close>

text \<open>A request is its query parameters, \<open>None\<close> if it cannot be parsed.\<close>

datatype http_err = HttpErr int string

type_synonym request = "(string \<Rightarrow> string option) option"

definition with_topic :: "request \<Rightarrow> (string \<Rightarrow> http_err + 'a) \<Rightarrow> http_err + 'a" where
  "with_topic req f =
     (case req of
        None \<Rightarrow> Inl (HttpErr 400 ''INVALID_REQUEST'')
      | Some params \<Rightarrow> (case params ''topic'' of None \<Rightarrow> Inl (HttpErr 400 ''MISSING_ARG_TOPIC'') | Some topic \<Rightarrow> f topic))"

definition GetTopicChannelArgs :: "(string \<Rightarrow> string option) \<Rightarrow> string + string \<times> string" where
  "GetTopicChannelArgs params =
     (case params ''topic'' of
        None \<Rightarrow> Inl ''MISSING_ARG_TOPIC''
      | Some topic \<Rightarrow>
          if \<not> isValidName topic then Inl ''INVALID_ARG_TOPIC''
          else (case params ''channel'' of
            None \<Rightarrow> Inl ''MISSING_ARG_CHANNEL''
          | Some channel \<Rightarrow> if \<not> isValidName channel then Inl ''INVALID_ARG_CHANNEL'' else Inr (topic, channel)))"

definition with_channel :: "request \<Rightarrow> (string \<Rightarrow> string \<Rightarrow> http_err + 'a) \<Rightarrow> http_err + 'a" where
  "with_channel req f =
     (case req of
        None \<Rightarrow> Inl (HttpErr 400 ''INVALID_REQUEST'')
      | Some params \<Rightarrow> (case GetTopicChannelArgs params of Inl e \<Rightarrow> Inl (HttpErr 400 e) | Inr (topic, channel) \<Rightarrow> f topic channel))"

definition doTopics :: "lookupd \<Rightarrow> string list" where
  "doTopics s = map r_Key (FindRegistrations s ''topic'' ''*'' '''')"

definition doChannels :: "request \<Rightarrow> lookupd \<Rightarrow> http_err + string list" where
  "doChannels req s = with_topic req (\<lambda>topic. Inr (map r_SubKey (FindRegistrations s ''channel'' topic ''*'')))"

definition doLookup :: "int \<Rightarrow> int \<Rightarrow> int \<Rightarrow> request \<Rightarrow> lookupd \<Rightarrow> http_err + string list \<times> peer_info list" where
  "doLookup inactiveProducerTimeout tombstoneLifetime now req s =
     with_topic req (\<lambda>topic.
       if FindRegistrations s ''topic'' topic '''' = [] then Inl (HttpErr 404 ''TOPIC_NOT_FOUND'')
       else Inr (map r_SubKey (FindRegistrations s ''channel'' topic ''*''),
         pp_PeerInfo s (FilterByActive s now (FindProducers s ''topic'' topic '''') inactiveProducerTimeout tombstoneLifetime)))"

definition doCreateTopic :: "request \<Rightarrow> lookupd \<Rightarrow> http_err + lookupd" where
  "doCreateTopic req s = with_topic req (\<lambda>topic.
     if \<not> isValidName topic then Inl (HttpErr 400 ''INVALID_ARG_TOPIC'') else Inr (AddRegistration s (topic_key topic)))"

definition remove_all :: "registration list \<Rightarrow> lookupd \<Rightarrow> lookupd" where
  "remove_all rs s = fold (\<lambda>r s. RemoveRegistration s r) rs s"

definition doDeleteTopic :: "request \<Rightarrow> lookupd \<Rightarrow> http_err + lookupd" where
  "doDeleteTopic req s = with_topic req (\<lambda>topic.
     let s = remove_all (FindRegistrations s ''channel'' topic ''*'') s
     in Inr (remove_all (FindRegistrations s ''topic'' topic '''') s))"

text \<open>\<open>node_name\<close> is \<open>fmt.Sprintf\<close> with the format \<open>%s:%d\<close>.\<close>

fun digits :: "nat \<Rightarrow> string" where
  "digits n = (if n < 10 then [char_of (48 + n)] else digits (n div 10) @ [char_of (48 + n mod 10)])"

definition node_name :: "peer_info \<Rightarrow> string" where
  "node_name p = pe_BroadcastAddress p @ '':'' @
     (if pe_HTTPPort p < 0 then ''-'' @ digits (nat (- pe_HTTPPort p)) else digits (nat (pe_HTTPPort p)))"

definition doTombstoneTopicProducer :: "int \<Rightarrow> request \<Rightarrow> lookupd \<Rightarrow> http_err + lookupd" where
  "doTombstoneTopicProducer now req s = with_topic req (\<lambda>topic.
     case the req ''node'' of
       None \<Rightarrow> Inl (HttpErr 400 ''MISSING_ARG_NODE'')
     | Some node \<Rightarrow>
         Inr (fold (\<lambda>p s. if node_name (peer_of s p) = node then Tombstone s now p else s) (FindProducers s ''topic'' topic '''') s))"

definition doCreateChannel :: "request \<Rightarrow> lookupd \<Rightarrow> http_err + lookupd" where
  "doCreateChannel req s = with_channel req (\<lambda>topic channel.
     Inr (AddRegistration (AddRegistration s (channel_key topic channel)) (topic_key topic)))"

definition doDeleteChannel :: "request \<Rightarrow> lookupd \<Rightarrow> http_err + lookupd" where
  "doDeleteChannel req s = with_channel req (\<lambda>topic channel.
     let registrations = FindRegistrations s ''channel'' topic channel
     in if registrations = [] then Inl (HttpErr 404 ''CHANNEL_NOT_FOUND'') else Inr (remove_all registrations s))"

definition doNodes :: "int \<Rightarrow> int \<Rightarrow> int \<Rightarrow> lookupd \<Rightarrow> (peer_info \<times> string list \<times> bool list) list" where
  "doNodes inactiveProducerTimeout tombstoneLifetime now s =
     map (\<lambda>p.
       let topics = map r_Key (rr_Filter (LookupRegistrations s (pe_id (peer_of s p))) ''topic'' ''*'' '''');
           tombstones = map (\<lambda>t.
             case find (\<lambda>tp. pr_peerInfo (lk_producers s ! tp) = pr_peerInfo (lk_producers s ! p)) (FindProducers s ''topic'' t '''') of
               None \<Rightarrow> False
             | Some tp \<Rightarrow> IsTombstoned s now tp tombstoneLifetime) topics
       in (peer_of s p, topics, tombstones))
     (FilterByActive s now (FindProducers s ''client'' '''' '''') inactiveProducerTimeout 0)"

end
