(* ===== verification/Nsq_Lookupd_Props.thy ===== *)
theory Nsq_Lookupd_Props
  imports Nsq_Lookupd
begin

text \<open>
  The registration database implements a set of keys and a relation between keys and peers; the queries with and without
  wildcards agree with one filter; a daemon that registers is found until its connection is closed.
\<close>

section \<open>The abstract database\<close>

definition lk_keys :: "lookupd \<Rightarrow> registration set" where
  "lk_keys s = fst ` set (lk_db s)"

definition registered :: "lookupd \<Rightarrow> (registration \<times> string) set" where
  "registered s = {(k, i). \<exists>ps. (k, ps) \<in> set (lk_db s) \<and> i \<in> fst ` set ps}"

definition valid_producer :: "lookupd \<Rightarrow> nat \<Rightarrow> bool" where
  "valid_producer s p \<longleftrightarrow> p < length (lk_producers s) \<and> pr_peerInfo (lk_producers s ! p) < length (lk_peers s)"

definition lk_ok :: "lookupd \<Rightarrow> bool" where
  "lk_ok s \<longleftrightarrow> distinct (map fst (lk_db s)) \<and>
     (\<forall>(k, ps) \<in> set (lk_db s). distinct (map fst ps) \<and> (\<forall>(i, p) \<in> set ps. valid_producer s p \<and> pe_id (peer_of s p) = i))"

lemma lk_okD:
  assumes "lk_ok s" "(k, ps) \<in> set (lk_db s)"
  shows "distinct (map fst ps)" "(i, p) \<in> set ps \<Longrightarrow> valid_producer s p \<and> pe_id (peer_of s p) = i" "map_of (lk_db s) k = Some ps"
  using assms by (auto simp: lk_ok_def intro: map_of_is_SomeI)

lemma db_None: "map_of (lk_db s) k = None \<longleftrightarrow> k \<notin> lk_keys s"
  by (simp add: lk_keys_def map_of_eq_None_iff)

lemma registered_iff:
  assumes "lk_ok s"
  shows "(k, i) \<in> registered s \<longleftrightarrow> (\<exists>ps. map_of (lk_db s) k = Some ps \<and> map_of ps i \<noteq> None)"
proof
  assume "(k, i) \<in> registered s"
  then obtain ps where "(k, ps) \<in> set (lk_db s)" "i \<in> fst ` set ps" by (auto simp: registered_def)
  with lk_okD(3) [OF assms] show "\<exists>ps. map_of (lk_db s) k = Some ps \<and> map_of ps i \<noteq> None"
    using map_of_eq_None_iff by fastforce
next
  assume "\<exists>ps. map_of (lk_db s) k = Some ps \<and> map_of ps i \<noteq> None"
  then obtain ps p where "map_of (lk_db s) k = Some ps" "map_of ps i = Some p" by auto
  then have "(k, ps) \<in> set (lk_db s)" "(i, p) \<in> set ps" by (auto dest: map_of_SomeD)
  then show "(k, i) \<in> registered s" by (force simp: registered_def)
qed

lemma AddRegistration_ok:
  assumes "lk_ok s"
  shows "lk_ok (AddRegistration s k)" "lk_keys (AddRegistration s k) = insert k (lk_keys s)" "registered (AddRegistration s k) = registered s"
  using assms db_None [of s k]
  by (auto simp: AddRegistration_def lk_ok_def lk_keys_def registered_def valid_producer_def peer_of_def image_iff split: option.splits)

lemma set_producers_db:
  assumes "lk_ok s" "k \<in> lk_keys s"
  shows "set (lk_db (set_producers k ps s)) = insert (k, ps) {(k', ps') \<in> set (lk_db s). k' \<noteq> k}"
    "map fst (lk_db (set_producers k ps s)) = map fst (lk_db s)" "lk_keys (set_producers k ps s) = lk_keys s"
  using assms(2) by (force simp: set_producers_def lk_keys_def image_iff case_prod_beta)+

lemma set_producers_ok:
  assumes "lk_ok s" "k \<in> lk_keys s" "distinct (map fst ps)" "\<And>i p. (i, p) \<in> set ps \<Longrightarrow> valid_producer s p \<and> pe_id (peer_of s p) = i"
  shows "lk_ok (set_producers k ps s)"
    "registered (set_producers k ps s) = {(k', i) \<in> registered s. k' \<noteq> k} \<union> {k} \<times> fst ` set ps"
proof -
  have same: "valid_producer (set_producers k ps s) = valid_producer s" "peer_of (set_producers k ps s) = peer_of s"
    by (auto simp: valid_producer_def peer_of_def set_producers_def)
  note db = set_producers_db [OF assms(1, 2), of ps]
  show "lk_ok (set_producers k ps s)"
    using assms unfolding lk_ok_def same db(1, 2) by auto
  show "registered (set_producers k ps s) = {(k', i) \<in> registered s. k' \<noteq> k} \<union> {k} \<times> fst ` set ps"
    unfolding registered_def db(1) by auto
qed

lemma AddProducer_ok:
  assumes "lk_ok s" "valid_producer s p"
  defines "i \<equiv> pe_id (peer_of s p)"
  shows "fst (AddProducer s k p) \<longleftrightarrow> (k, i) \<notin> registered s" "lk_ok (snd (AddProducer s k p))"
    "lk_keys (snd (AddProducer s k p)) = insert k (lk_keys s)" "registered (snd (AddProducer s k p)) = insert (k, i) (registered s)"
proof -
  let ?s = "AddRegistration s k"
  note add = AddRegistration_ok [OF assms(1), of k]
  have same: "peer_of ?s = peer_of s" "valid_producer ?s = valid_producer s"
    by (auto simp: AddRegistration_def valid_producer_def peer_of_def fun_eq_iff)
  have "k \<in> lk_keys ?s" using add(2) by simp
  then obtain ps where ps: "map_of (lk_db ?s) k = Some ps" using db_None by force
  then have mem: "(k, ps) \<in> set (lk_db ?s)" by (rule map_of_SomeD)
  have found: "map_of ps i \<noteq> None \<longleftrightarrow> (k, i) \<in> registered s"
    using registered_iff [OF add(1), of k i] ps add(3) by auto
  have reg: "{(k', j) \<in> registered s. k' \<noteq> k} \<union> {k} \<times> fst ` set ps = registered s"
  proof -
    have "(k, j) \<in> registered s \<longleftrightarrow> j \<in> fst ` set ps" for j
      using registered_iff [OF add(1), of k j] ps add(3) map_of_eq_None_iff [of ps j] by auto
    then show ?thesis by auto
  qed
  let ?t = "set_producers k ((i, p) # ps) ?s"
  have new: "lk_ok ?t" "registered ?t = insert (k, i) (registered s)" "lk_keys ?t = insert k (lk_keys s)" if "map_of ps i = None"
  proof -
    have d: "distinct (map fst ((i, p) # ps))" using that lk_okD(1) [OF add(1) mem] by (simp add: map_of_eq_None_iff)
    have v: "valid_producer ?s q \<and> pe_id (peer_of ?s q) = j" if "(j, q) \<in> set ((i, p) # ps)" for j q
      using that lk_okD(2) [OF add(1) mem] assms(2) same by (auto simp: i_def)
    note sp = set_producers_ok [OF add(1) \<open>k \<in> lk_keys ?s\<close> d v]
    show "lk_ok ?t" by (rule sp(1))
    show "registered ?t = insert (k, i) (registered s)" using sp(2) reg add(3) by auto
    show "lk_keys ?t = insert k (lk_keys s)" using set_producers_db(3) [OF add(1) \<open>k \<in> lk_keys ?s\<close>] add(2) by simp
  qed
  have eq: "AddProducer s k p = (map_of ps i = None, if map_of ps i \<noteq> None then ?s else ?t)"
    using ps same(1) by (simp add: AddProducer_def i_def Let_def)
  show "fst (AddProducer s k p) \<longleftrightarrow> (k, i) \<notin> registered s" using eq found by auto
  show "lk_ok (snd (AddProducer s k p))" using eq new(1) add(1) by auto
  show "lk_keys (snd (AddProducer s k p)) = insert k (lk_keys s)" using eq new(3) add(2) by auto
  show "registered (snd (AddProducer s k p)) = insert (k, i) (registered s)" using eq new(2) add(3) found by auto
qed

lemma RemoveProducer_ok:
  assumes "lk_ok s"
  shows "fst (fst (RemoveProducer s k i)) \<longleftrightarrow> (k, i) \<in> registered s"
    "snd (fst (RemoveProducer s k i)) = card {j. (k, j) \<in> registered (snd (RemoveProducer s k i))}"
    "lk_ok (snd (RemoveProducer s k i))" "lk_keys (snd (RemoveProducer s k i)) = lk_keys s"
    "registered (snd (RemoveProducer s k i)) = registered s - {(k, i)}"
proof -
  have goal: "(fst (fst (RemoveProducer s k i)) \<longleftrightarrow> (k, i) \<in> registered s) \<and>
    snd (fst (RemoveProducer s k i)) = card {j. (k, j) \<in> registered (snd (RemoveProducer s k i))} \<and>
    lk_ok (snd (RemoveProducer s k i)) \<and> lk_keys (snd (RemoveProducer s k i)) = lk_keys s \<and>
    registered (snd (RemoveProducer s k i)) = registered s - {(k, i)}"
  proof (cases "map_of (lk_db s) k")
    case None
    then have "{j. (k, j) \<in> registered s} = {}" "(k, i) \<notin> registered s" using registered_iff [OF assms] by auto
    with None assms show ?thesis by (simp add: RemoveProducer_def)
  next
    case (Some ps)
    let ?left = "filter (\<lambda>(i', _). i' \<noteq> i) ps"
    have mem: "(k, ps) \<in> set (lk_db s)" using Some by (rule map_of_SomeD)
    have k: "k \<in> lk_keys s" using mem by (force simp: lk_keys_def)
    have d: "distinct (map fst ?left)" using lk_okD(1) [OF assms mem] by (rule distinct_map_filter)
    have v: "valid_producer s p \<and> pe_id (peer_of s p) = j" if "(j, p) \<in> set ?left" for j p
      using that lk_okD(2) [OF assms mem] by auto
    note sp = set_producers_ok [OF assms k d v]
    have "(k, j) \<in> registered s \<longleftrightarrow> j \<in> fst ` set ps" for j
      using registered_iff [OF assms, of k j] Some map_of_eq_None_iff [of ps j] by auto
    then have reg: "registered (set_producers k ?left s) = registered s - {(k, i)}" "{j. (k, j) \<in> registered s - {(k, i)}} = fst ` set ?left"
      using sp(2) by (auto simp: image_iff)
    have "card (fst ` set ?left) = length ?left" using distinct_card [OF d] by simp
    with reg sp(1) set_producers_db(3) [OF assms k, of ?left] Some registered_iff [OF assms, of k i] show ?thesis
      by (simp add: RemoveProducer_def Let_def)
  qed
  then show "fst (fst (RemoveProducer s k i)) \<longleftrightarrow> (k, i) \<in> registered s"
    "snd (fst (RemoveProducer s k i)) = card {j. (k, j) \<in> registered (snd (RemoveProducer s k i))}"
    "lk_ok (snd (RemoveProducer s k i))" "lk_keys (snd (RemoveProducer s k i)) = lk_keys s"
    "registered (snd (RemoveProducer s k i)) = registered s - {(k, i)}" by blast+
qed

lemma RemoveRegistration_ok:
  assumes "lk_ok s"
  shows "lk_ok (RemoveRegistration s k)" "lk_keys (RemoveRegistration s k) = lk_keys s - {k}"
    "registered (RemoveRegistration s k) = {(k', i) \<in> registered s. k' \<noteq> k}"
  using assms
  by (auto simp: RemoveRegistration_def lk_ok_def lk_keys_def registered_def valid_producer_def peer_of_def distinct_map_filter image_iff)

section \<open>Queries\<close>

text \<open>What the loop of \<open>FindProducers\<close> keeps: the peers seen are those of the producers returned, each once.\<close>

definition seen_ok :: "lookupd \<Rightarrow> string list \<times> nat list \<Rightarrow> bool" where
  "seen_ok s r \<longleftrightarrow> set (fst r) = (pe_id \<circ> peer_of s) ` set (snd r) \<and> distinct (map (pe_id \<circ> peer_of s) (snd r))"

lemma find_loop_ok:
  "seen_ok s r \<Longrightarrow> seen_ok s (find_loop s ps r) \<and> set (fst (find_loop s ps r)) = set (fst r) \<union> (pe_id \<circ> peer_of s \<circ> snd) ` set ps"
proof (induction s ps r rule: find_loop.induct)
  case (2 s j p ps results ret)
  let ?i = "pe_id (peer_of s p)"
  have "seen_ok s (if ?i \<in> set results then (results, ret) else (?i # results, ret @ [p]))"
    using "2.prems" by (auto simp: seen_ok_def)
  from "2.IH" [OF refl this] show ?case by (auto simp: Let_def)
qed simp

lemma find_fold_ok:
  fixes Q :: "registration \<Rightarrow> bool"
  assumes "seen_ok s r"
  defines "f \<equiv> \<lambda>(k, ps) r. if Q k then find_loop s ps r else r"
  shows "seen_ok s (fold f db r) \<and>
    set (fst (fold f db r)) = set (fst r) \<union> (\<Union>(k, ps) \<in> {x \<in> set db. Q (fst x)}. (pe_id \<circ> peer_of s \<circ> snd) ` set ps)"
  using assms(1)
proof (induction db arbitrary: r)
  case (Cons x db)
  obtain k ps where x: "x = (k, ps)" by (cases x)
  have "seen_ok s (f x r)" "set (fst (f x r)) = set (fst r) \<union> (if Q k then (pe_id \<circ> peer_of s \<circ> snd) ` set ps else {})"
    using find_loop_ok [OF Cons.prems, of ps] Cons.prems by (auto simp: f_def x)
  with Cons.IH [of "f x r"] show ?case by (auto simp: x)
qed simp

lemma peers_of_entry:
  assumes "lk_ok s" "(k, ps) \<in> set (lk_db s)"
  shows "(pe_id \<circ> peer_of s \<circ> snd) ` set ps = fst ` set ps" "map (pe_id \<circ> peer_of s) (map snd ps) = map fst ps"
  using lk_okD(2) [OF assms] by force+

lemma exact_match: "\<not> needFilter key subkey \<Longrightarrow> IsMatch k category key subkey \<longleftrightarrow> k = \<lparr>r_Category = category, r_Key = key, r_SubKey = subkey\<rparr>"
  by (cases k) (auto simp: needFilter_def IsMatch_def)

lemma FindRegistrations_ok:
  assumes "lk_ok s"
  shows "distinct (FindRegistrations s category key subkey)"
    "set (FindRegistrations s category key subkey) = {k \<in> lk_keys s. IsMatch k category key subkey}"
proof -
  have "distinct (map fst (lk_db s))" using assms by (simp add: lk_ok_def)
  then show "distinct (FindRegistrations s category key subkey)" by (simp add: FindRegistrations_def Let_def)
  show "set (FindRegistrations s category key subkey) = {k \<in> lk_keys s. IsMatch k category key subkey}"
    using exact_match [of key subkey _ category] db_None [of s] by (auto simp: FindRegistrations_def Let_def lk_keys_def)
qed

lemma FindProducers_ok:
  assumes "lk_ok s"
  shows "distinct (map (pe_id \<circ> peer_of s) (FindProducers s category key subkey))"
    "set (map (pe_id \<circ> peer_of s) (FindProducers s category key subkey)) =
       {i. \<exists>k. IsMatch k category key subkey \<and> (k, i) \<in> registered s}"
proof -
  let ?ids = "map (pe_id \<circ> peer_of s) (FindProducers s category key subkey)"
  let ?f = "\<lambda>(k, ps) r. if IsMatch k category key subkey then find_loop s ps r else r"
  let ?k = "\<lparr>r_Category = category, r_Key = key, r_SubKey = subkey\<rparr>"
  have "distinct ?ids \<and> set ?ids = {i. \<exists>k. IsMatch k category key subkey \<and> (k, i) \<in> registered s}"
  proof (cases "needFilter key subkey")
    case True
    have "seen_ok s ([], [])" by (simp add: seen_ok_def)
    from find_fold_ok [OF this, of "\<lambda>k. IsMatch k category key subkey" "lk_db s"]
    have r: "seen_ok s (fold ?f (lk_db s) ([], []))"
      "set (fst (fold ?f (lk_db s) ([], []))) =
        (\<Union>(k, ps) \<in> {x \<in> set (lk_db s). IsMatch (fst x) category key subkey}. (pe_id \<circ> peer_of s \<circ> snd) ` set ps)" by simp_all
    note r(2)
    also have "(\<Union>(k, ps) \<in> {x \<in> set (lk_db s). IsMatch (fst x) category key subkey}. (pe_id \<circ> peer_of s \<circ> snd) ` set ps) =
      (\<Union>(k, ps) \<in> {x \<in> set (lk_db s). IsMatch (fst x) category key subkey}. fst ` set ps)"
      unfolding case_prod_beta by (rule SUP_cong [OF refl], rule peers_of_entry(1) [OF assms, of "fst x" "snd x" for x]) simp
    also have "\<dots> = {i. \<exists>k. IsMatch k category key subkey \<and> (k, i) \<in> registered s}" by (auto simp: registered_def image_iff) force+
    finally show ?thesis using r(1) True by (simp add: FindProducers_def seen_ok_def)
  next
    case False
    then have match: "IsMatch k category key subkey \<longleftrightarrow> k = ?k" for k by (rule exact_match)
    show ?thesis
    proof (cases "map_of (lk_db s) ?k")
      case None
      then show ?thesis using False match registered_iff [OF assms, of ?k] by (simp add: FindProducers_def)
    next
      case (Some ps)
      then have mem: "(?k, ps) \<in> set (lk_db s)" by (rule map_of_SomeD)
      have "(?k, i) \<in> registered s \<longleftrightarrow> i \<in> fst ` set ps" for i
        using registered_iff [OF assms, of ?k i] Some map_of_eq_None_iff [of ps i] by auto
      moreover have "?ids = map fst ps"
        using Some False peers_of_entry(2) [OF assms mem] by (simp only: FindProducers_def ProducerMap2Slice_def not_False_eq_True if_True option.case)
      ultimately show ?thesis using match lk_okD(1) [OF assms mem] by simp
    qed
  qed
  then show "distinct ?ids" "set ?ids = {i. \<exists>k. IsMatch k category key subkey \<and> (k, i) \<in> registered s}" by blast+
qed

lemma FindProducers_valid:
  assumes "lk_ok s" "p \<in> set (FindProducers s category key subkey)" "\<not> needFilter key subkey"
  shows "valid_producer s p"
proof -
  let ?k = "\<lparr>r_Category = category, r_Key = key, r_SubKey = subkey\<rparr>"
  obtain ps where ps: "map_of (lk_db s) ?k = Some ps" "p \<in> set (map snd ps)"
    using assms(2, 3) by (cases "map_of (lk_db s) ?k") (auto simp: FindProducers_def ProducerMap2Slice_def)
  with lk_okD(2) [OF assms(1) map_of_SomeD] show ?thesis by fastforce
qed

lemma LookupRegistrations_ok: "lk_ok s \<Longrightarrow> set (LookupRegistrations s i) = {k. (k, i) \<in> registered s}"
  by (auto simp: LookupRegistrations_def registered_def map_of_eq_None_iff image_iff) force+

section \<open>Contracts\<close>

text \<open>
  The registration database implements a set of keys and a relation between keys and peers: registering a key, registering and
  removing a producer and removing a key do exactly that to the set and the relation, keep the representation
  sound, and report what they changed; the number \<open>RemoveProducer\<close> returns is that of the peers left under the key.\<close>

theorem lookupd_refines:
  assumes "lk_ok s" "valid_producer s p"
  shows "lk_ok (AddRegistration s k) \<and> lk_keys (AddRegistration s k) = insert k (lk_keys s) \<and> registered (AddRegistration s k) = registered s \<and>
    (case AddProducer s k p of (new, t) \<Rightarrow>
       lk_ok t \<and> (new \<longleftrightarrow> (k, pe_id (peer_of s p)) \<notin> registered s) \<and> lk_keys t = insert k (lk_keys s) \<and>
       registered t = insert (k, pe_id (peer_of s p)) (registered s)) \<and>
    (case RemoveProducer s k i of ((removed, left), t) \<Rightarrow>
       lk_ok t \<and> (removed \<longleftrightarrow> (k, i) \<in> registered s) \<and> lk_keys t = lk_keys s \<and> registered t = registered s - {(k, i)} \<and>
       left = card {j. (k, j) \<in> registered t}) \<and>
    lk_ok (RemoveRegistration s k) \<and> lk_keys (RemoveRegistration s k) = lk_keys s - {k} \<and>
    registered (RemoveRegistration s k) = {x \<in> registered s. fst x \<noteq> k}"
  using AddRegistration_ok [OF assms(1)] AddProducer_ok [OF assms] RemoveProducer_ok [OF assms(1), of k i] RemoveRegistration_ok [OF assms(1), of k]
  by (auto simp: split_beta)

definition sample_peer :: peer_info where
  "sample_peer = \<lparr>pe_lastUpdate = 0, pe_id = ''10.0.0.1:4150'', pe_RemoteAddress = ''10.0.0.1:4150'', pe_Hostname = ''a'',
     pe_BroadcastAddress = ''a'', pe_TCPPort = 4150, pe_HTTPPort = 4151, pe_Version = ''1''\<rparr>"

definition sample_lookupd :: lookupd where
  "sample_lookupd = \<lparr>lk_peers = [sample_peer], lk_producers = [\<lparr>pr_peerInfo = 0, pr_tombstoned = False, pr_tombstonedAt = 0\<rparr>],
     lk_db = [(topic_key ''t'', [(''10.0.0.1:4150'', 0)])]\<rparr>"

lemma sample_lookupd_ok: "lk_ok sample_lookupd" "valid_producer sample_lookupd 0" "pe_id (peer_of sample_lookupd 0) = ''10.0.0.1:4150''"
  "registered sample_lookupd = {(topic_key ''t'', ''10.0.0.1:4150'')}"
  by (auto simp: lk_ok_def valid_producer_def peer_of_def sample_lookupd_def sample_peer_def registered_def)

theorem lookupd_refines_witness:
  "registered (snd (AddProducer sample_lookupd (channel_key ''t'' ''c'') 0)) =
     {(channel_key ''t'' ''c'', ''10.0.0.1:4150''), (topic_key ''t'', ''10.0.0.1:4150'')} \<and>
   registered (snd (RemoveProducer sample_lookupd (topic_key ''t'') ''10.0.0.1:4150'')) = {}"
  using lookupd_refines [OF sample_lookupd_ok(1, 2), of "channel_key ''t'' ''c''"]
    lookupd_refines [OF sample_lookupd_ok(1, 2), of "topic_key ''t''" "''10.0.0.1:4150''"]
  by (auto simp: sample_lookupd_ok split_beta)

text \<open>
  C20. The queries agree with one specification, whether they take the direct lookup or the loop for wildcards:
  \<open>FindRegistrations\<close> returns each matching key once, \<open>FindProducers\<close> returns one producer for each peer registered under a
  matching key, and \<open>LookupRegistrations\<close> returns the keys of a peer.\<close>

theorem lookupd_find:
  assumes "lk_ok s"
  shows "distinct (FindRegistrations s category key subkey) \<and>
    set (FindRegistrations s category key subkey) = {k \<in> lk_keys s. IsMatch k category key subkey} \<and>
    distinct (map (pe_id \<circ> peer_of s) (FindProducers s category key subkey)) \<and>
    set (map (pe_id \<circ> peer_of s) (FindProducers s category key subkey)) = {i. \<exists>k. IsMatch k category key subkey \<and> (k, i) \<in> registered s} \<and>
    set (LookupRegistrations s i) = {k. (k, i) \<in> registered s}"
  using FindRegistrations_ok [OF assms] FindProducers_ok [OF assms] LookupRegistrations_ok [OF assms] by blast

theorem lookupd_find_witness:
  "set (map (pe_id \<circ> peer_of sample_lookupd) (FindProducers sample_lookupd ''topic'' ''*'' '''')) = {''10.0.0.1:4150''} \<and>
   set (LookupRegistrations sample_lookupd ''10.0.0.1:4150'') = {topic_key ''t''}"
  using lookupd_find [OF sample_lookupd_ok(1), of "''topic''" "''*''" "''''" "''10.0.0.1:4150''"]
  by (auto simp: sample_lookupd_ok IsMatch_def topic_key_def)

section \<open>A session\<close>

lemma register_ok:
  assumes "lk_ok s" "peer < length (lk_peers s)"
  shows "lk_ok (register k peer s)" "lk_keys (register k peer s) = insert k (lk_keys s)"
    "registered (register k peer s) = insert (k, pe_id (lk_peers s ! peer)) (registered s)" "lk_peers (register k peer s) = lk_peers s"
proof -
  let ?p = "length (lk_producers s)"
  let ?s = "s\<lparr>lk_producers := lk_producers s @ [\<lparr>pr_peerInfo = peer, pr_tombstoned = False, pr_tombstonedAt = 0\<rparr>]\<rparr>"
  have old: "valid_producer s q \<Longrightarrow> valid_producer ?s q \<and> peer_of ?s q = peer_of s q" for q
    by (auto simp: valid_producer_def peer_of_def nth_append)
  then have ok: "lk_ok ?s" using assms(1) unfolding lk_ok_def by fastforce
  have v: "valid_producer ?s ?p" "peer_of ?s ?p = lk_peers s ! peer" using assms(2) by (simp_all add: valid_producer_def peer_of_def)
  have reg: "registered ?s = registered s" "lk_keys ?s = lk_keys s" by (simp_all add: registered_def lk_keys_def)
  note add = AddProducer_ok [OF ok v(1), of k]
  show "lk_ok (register k peer s)" "lk_keys (register k peer s) = insert k (lk_keys s)"
    "registered (register k peer s) = insert (k, pe_id (lk_peers s ! peer)) (registered s)"
    using add v(2) reg by (simp_all add: register_def)
  show "lk_peers (register k peer s) = lk_peers s"
    by (simp add: register_def AddProducer_def AddRegistration_def set_producers_def Let_def)
qed

lemma remove_loop:
  "lk_ok s \<Longrightarrow> lk_ok (fold (\<lambda>r s. snd (RemoveProducer s r i)) rs s) \<and>
    registered (fold (\<lambda>r s. snd (RemoveProducer s r i)) rs s) = registered s - set rs \<times> {i}"
proof (induction rs arbitrary: s)
  case (Cons r rs)
  from Cons.IH [OF RemoveProducer_ok(3) [OF Cons.prems, of r i]] RemoveProducer_ok(5) [OF Cons.prems, of r i] show ?case by auto
qed simp

lemma register_new:
  assumes "lk_ok s" "peer < length (lk_peers s)" "(k, pe_id (lk_peers s ! peer)) \<notin> registered s"
  shows "\<exists>ps p. map_of (lk_db (register k peer s)) k = Some ps \<and> p \<in> snd ` set ps \<and> peer_of (register k peer s) p = lk_peers s ! peer \<and>
    \<not> pr_tombstoned (lk_producers (register k peer s) ! p)"
proof -
  let ?i = "pe_id (lk_peers s ! peer)" and ?t = "register k peer s" and ?p = "length (lk_producers s)"
  have ok: "lk_ok ?t" and reg: "(k, ?i) \<in> registered ?t" using register_ok [OF assms(1, 2), of k] by simp_all
  obtain ps p where ps: "map_of (lk_db ?t) k = Some ps" "(?i, p) \<in> set ps" using reg registered_iff [OF ok] by (auto dest: map_of_SomeD)
  have prods: "lk_producers ?t = lk_producers s @ [\<lparr>pr_peerInfo = peer, pr_tombstoned = False, pr_tombstonedAt = 0\<rparr>]"
    by (simp add: register_def AddProducer_def AddRegistration_def set_producers_def Let_def)
  let ?s = "s\<lparr>lk_producers := lk_producers s @ [\<lparr>pr_peerInfo = peer, pr_tombstoned = False, pr_tombstonedAt = 0\<rparr>]\<rparr>"
  have t: "?t = snd (AddProducer ?s k ?p)" by (simp add: register_def)
  have peer: "peer_of ?s ?p = lk_peers s ! peer" "peer_of ?t ?p = lk_peers s ! peer"
    using register_ok(4) [OF assms(1, 2), of k] by (simp_all add: peer_of_def prods)
  let ?u = "AddRegistration ?s k"
  have u: "peer_of ?u ?p = lk_peers s ! peer" "k \<in> fst ` set (lk_db ?u)"
    using peer(1) by (auto simp: AddRegistration_def peer_of_def map_of_eq_None_iff)
  let ?qs = "the (map_of (lk_db ?u) k)"
  have "map_of ?qs ?i = None"
  proof (rule ccontr)
    assume "map_of ?qs ?i \<noteq> None"
    then have "AddProducer ?s k ?p = (False, ?u)" using u(1) by (simp add: AddProducer_def Let_def)
    then have "registered ?t = registered ?u" using t by simp
    also have "\<dots> = registered s" by (auto simp: AddRegistration_def registered_def)
    finally show False using reg assms(3) by simp
  qed
  then have "?t = set_producers k ((?i, ?p) # ?qs) ?u" using u(1) t by (simp add: AddProducer_def Let_def)
  then have "(k, (?i, ?p) # ?qs) \<in> set (lk_db ?t)" using u(2) by (force simp: set_producers_def)
  then have "ps = (?i, ?p) # ?qs" using lk_okD(3) [OF ok] ps(1) by simp
  then show ?thesis using ps(1) peer(2) prods by (intro exI [of _ ps] exI [of _ ?p]) simp
qed

lemma name_not_star: "isValidName name \<Longrightarrow> name \<noteq> ''*'' \<and> name \<noteq> ''''"
  by (auto simp: isValidName_def name_char_def Let_def split: if_splits)

text \<open>
  C21. A daemon that has identified itself and registers a topic with a channel is found by the lookup of that topic as long as it
  is active and not tombstoned, together with the channel; once its connection is closed nothing is registered under its
  identifier, and the registrations of the other daemons are as before.\<close>

theorem lookupd_session:
  assumes "lk_ok s" "cl_peerInfo client = Some peer" "peer < length (lk_peers s)" "isValidName topic" "isValidName channel"
    "(topic_key topic, pe_id (lk_peers s ! peer)) \<notin> registered s" "now - pe_lastUpdate (lk_peers s ! peer) \<le> timeout"
  shows "\<exists>t. REGISTER client [topic, channel] s = (None, t) \<and> lk_ok t \<and>
    (\<exists>cs ps. doLookup timeout lifetime now (Some [''topic'' \<mapsto> topic]) t = Inr (cs, ps) \<and> channel \<in> set cs \<and> lk_peers s ! peer \<in> set ps) \<and>
    registered (client_closed client t) = {x \<in> registered s. snd x \<noteq> pe_id (lk_peers s ! peer)}"
proof -
  let ?i = "pe_id (lk_peers s ! peer)"
  define s1 where "s1 = register (channel_key topic channel) peer s"
  define t where "t = register (topic_key topic) peer s1"
  note names = name_not_star [OF assms(4)] name_not_star [OF assms(5)]
  note r1 = register_ok [OF assms(1, 3), of "channel_key topic channel", folded s1_def]
  have p1: "peer < length (lk_peers s1)" "lk_peers s1 ! peer = lk_peers s ! peer" using r1(4) assms(3) by simp_all
  note r2 = register_ok [OF r1(1) p1(1), of "topic_key topic", folded t_def]
  have REG: "REGISTER client [topic, channel] s = (None, t)"
    using assms(2, 4, 5) names by (simp add: REGISTER_def getTopicChan_def Let_def s1_def t_def)
  have reg: "registered t = {(topic_key topic, ?i), (channel_key topic channel, ?i)} \<union> registered s" using r1(3) r2(3) p1(2) by auto
  have "(topic_key topic, pe_id (lk_peers s1 ! peer)) \<notin> registered s1" using r1(3) assms(6) p1(2) by (auto simp: topic_key_def channel_key_def)
  from register_new [OF r1(1) p1(1) this, folded t_def] p1(2) obtain ps p where
    p: "map_of (lk_db t) (topic_key topic) = Some ps" "p \<in> snd ` set ps" "peer_of t p = lk_peers s ! peer" "\<not> pr_tombstoned (lk_producers t ! p)" by auto
  have exact: "\<not> needFilter topic ''''" using names by (simp add: needFilter_def)
  have "p \<in> set (FilterByActive t now (FindProducers t ''topic'' topic '''') timeout lifetime)"
    using exact p assms(7) by (simp add: FilterByActive_def FindProducers_def ProducerMap2Slice_def IsTombstoned_def topic_key_def)
  then have found: "lk_peers s ! peer \<in> set (pp_PeerInfo t (FilterByActive t now (FindProducers t ''topic'' topic '''') timeout lifetime))"
    using p(3) by (force simp: pp_PeerInfo_def)
  have topics: "FindRegistrations t ''topic'' topic '''' \<noteq> []" using exact p(1) by (simp add: FindRegistrations_def topic_key_def)
  have "channel_key topic channel \<in> set (FindRegistrations t ''channel'' topic ''*'')"
    using FindRegistrations_ok(2) [OF r2(1), of "''channel''" topic "''*''"] r1(2) r2(2) by (auto simp: IsMatch_def channel_key_def)
  then have chan: "channel \<in> set (map r_SubKey (FindRegistrations t ''channel'' topic ''*''))" by (force simp: channel_key_def)
  have "client_closed client t = fold (\<lambda>r s. snd (RemoveProducer s r ?i)) (LookupRegistrations t ?i) t"
    using assms(2) r1(4) r2(4) by (simp add: client_closed_def Let_def)
  then have "registered (client_closed client t) = registered t - {k. (k, ?i) \<in> registered t} \<times> {?i}"
    using remove_loop [OF r2(1), of ?i "LookupRegistrations t ?i"] LookupRegistrations_ok [OF r2(1), of ?i] by simp
  also have "\<dots> = {x \<in> registered s. snd x \<noteq> ?i}" using reg by auto
  finally show ?thesis using REG r2(1) topics found chan by (auto simp: doLookup_def with_topic_def)
qed

theorem lookupd_session_witness:
  "\<exists>t. REGISTER \<lparr>cl_RemoteAddr = ''10.0.0.1:4150'', cl_peerInfo = Some 0\<rparr> [''orders'', ''c''] sample_lookupd = (None, t) \<and>
     (\<exists>cs ps. doLookup 300 45 100 (Some [''topic'' \<mapsto> ''orders'']) t = Inr (cs, ps) \<and> ''c'' \<in> set cs \<and> sample_peer \<in> set ps)"
proof -
  have s: "lk_peers sample_lookupd = [sample_peer]" "pe_lastUpdate sample_peer = 0" by (simp_all add: sample_lookupd_def sample_peer_def)
  have n: "isValidName ''orders''" "isValidName ''c''" by (simp_all add: isValidName_def name_char_def)
  show ?thesis
    using lookupd_session [OF sample_lookupd_ok(1), of "\<lparr>cl_RemoteAddr = ''10.0.0.1:4150'', cl_peerInfo = Some 0\<rparr>" 0 "''orders''" "''c''" 100 300 45]
      s n by (auto simp: sample_lookupd_ok topic_key_def)
qed

section \<open>Three flaws\<close>

text \<open>A peer that announces a negative length of its body makes \<open>IDENTIFY\<close> panic, which ends the daemon.\<close>

theorem identify_negative_length_panics:
  "n < 0 \<Longrightarrow> IDENTIFY (Some n) readBody decode now (NewClientV1 addr) s = None"
  by (simp add: IDENTIFY_def NewClientV1_def)

text \<open>\<open>UNREGISTER\<close> of an ephemeral channel removes the producer and then the key, in two critical sections: a daemon that registers
  the same channel in between is forgotten.\<close>

theorem unregister_race_forgets:
  assumes "lk_ok s" "peer < length (lk_peers s)" "{j. (k, j) \<in> registered s} = {i}" "i \<noteq> pe_id (lk_peers s ! peer)"
  shows "snd (fst (RemoveProducer s k i)) = 0 \<and>
    (k, pe_id (lk_peers s ! peer)) \<in> registered (register k peer (snd (RemoveProducer s k i))) \<and>
    {j. (k, j) \<in> registered (RemoveRegistration (register k peer (snd (RemoveProducer s k i))) k)} = {}"
proof -
  let ?s1 = "snd (RemoveProducer s k i)"
  note rem = RemoveProducer_ok [OF assms(1), of k i]
  have "{j. (k, j) \<in> registered ?s1} = {}" using rem(5) assms(3) by auto
  moreover have peers: "lk_peers ?s1 = lk_peers s"
    by (simp add: RemoveProducer_def set_producers_def Let_def split: option.splits)
  ultimately show ?thesis using rem(2) register_ok [OF rem(3), of peer k] RemoveRegistration_ok(3) [of "register k peer ?s1" k] assms(2) by auto
qed

text \<open>\<open>doDeleteTopic\<close> does not check the name of the topic: deleting the topic \<open>*\<close> deletes every topic and every channel.\<close>

lemma remove_all_ok:
  "lk_ok s \<Longrightarrow> lk_ok (remove_all rs s) \<and> lk_keys (remove_all rs s) = lk_keys s - set rs"
proof (induction rs arbitrary: s)
  case (Cons r rs)
  from Cons.IH [OF RemoveRegistration_ok(1) [OF Cons.prems, of r]] RemoveRegistration_ok(2) [OF Cons.prems, of r] show ?case
    by (auto simp: remove_all_def)
qed (simp add: remove_all_def)

theorem delete_topic_star_deletes_all:
  assumes "lk_ok s"
  shows "\<exists>t. doDeleteTopic (Some [''topic'' \<mapsto> ''*'']) s = Inr t \<and>
    lk_keys t = {k \<in> lk_keys s. r_Category k \<noteq> ''channel'' \<and> (r_Category k = ''topic'' \<longrightarrow> r_SubKey k \<noteq> '''')}"
proof -
  let ?s1 = "remove_all (FindRegistrations s ''channel'' ''*'' ''*'') s"
  have ok: "lk_ok ?s1" using remove_all_ok [OF assms] by simp
  show ?thesis
    using remove_all_ok [OF assms] remove_all_ok [OF ok] FindRegistrations_ok(2) [OF assms] FindRegistrations_ok(2) [OF ok]
    by (auto simp: doDeleteTopic_def with_topic_def IsMatch_def Let_def)
qed

section \<open>Commands\<close>

lemma lk_ok_cong:
  assumes "lk_ok s" "lk_db t = lk_db s" "\<And>p. valid_producer s p \<Longrightarrow> valid_producer t p \<and> pe_id (peer_of t p) = pe_id (peer_of s p)"
  shows "lk_ok t"
  using assms unfolding lk_ok_def by fastforce

lemma same_db: "lk_db t = lk_db s \<Longrightarrow> lk_keys t = lk_keys s \<and> registered t = registered s"
  by (simp add: lk_keys_def registered_def)

text \<open>A state in the invariant with given keys and a given relation.\<close>

definition becomes :: "lookupd \<Rightarrow> registration set \<Rightarrow> (registration \<times> string) set \<Rightarrow> bool" where
  "becomes t ks rel \<longleftrightarrow> lk_ok t \<and> lk_keys t = ks \<and> registered t = rel"

lemma registered_keys: "(k, i) \<in> registered s \<Longrightarrow> k \<in> lk_keys s"
  by (force simp: registered_def lk_keys_def)

lemma remove_loop_becomes:
  "lk_ok s \<Longrightarrow> becomes (fold (\<lambda>r s. snd (RemoveProducer s r i)) rs s) (lk_keys s) (registered s - set rs \<times> {i})"
proof (induction rs arbitrary: s)
  case (Cons r rs)
  from Cons.IH [OF RemoveProducer_ok(3) [OF Cons.prems, of r i]] RemoveProducer_ok(4, 5) [OF Cons.prems, of r i] show ?case
    by (auto simp: becomes_def)
qed (simp add: becomes_def)

lemma remove_all_becomes:
  "lk_ok s \<Longrightarrow> becomes (remove_all rs s) (lk_keys s - set rs) {x \<in> registered s. fst x \<notin> set rs}"
proof (induction rs arbitrary: s)
  case (Cons r rs)
  from Cons.IH [OF RemoveRegistration_ok(1) [OF Cons.prems, of r]] RemoveRegistration_ok(2, 3) [OF Cons.prems, of r] show ?case
    by (auto simp: becomes_def remove_all_def)
qed (simp add: becomes_def remove_all_def)

definition register_keys :: "string \<Rightarrow> string \<Rightarrow> registration set" where
  "register_keys topic channel = (if channel = '''' then {topic_key topic} else {channel_key topic channel, topic_key topic})"

lemma REGISTER_becomes:
  assumes "lk_ok s" "cl_peerInfo client = Some peer" "peer < length (lk_peers s)" "getTopicChan ''REGISTER'' params = Inr (topic, channel)"
  shows "\<exists>t. REGISTER client params s = (None, t) \<and>
    becomes t (register_keys topic channel \<union> lk_keys s) (register_keys topic channel \<times> {pe_id (lk_peers s ! peer)} \<union> registered s)"
proof -
  let ?s1 = "if channel \<noteq> '''' then register (channel_key topic channel) peer s else s"
  note r1 = register_ok [OF assms(1, 3), of "channel_key topic channel"]
  have s1: "lk_ok ?s1" "peer < length (lk_peers ?s1)" "lk_peers ?s1 = lk_peers s" using r1 assms by auto
  note r2 = register_ok [OF s1(1, 2), of "topic_key topic"]
  have "REGISTER client params s = (None, register (topic_key topic) peer ?s1)" using assms by (simp add: REGISTER_def Let_def)
  then show ?thesis using r1 r2 s1(3) by (auto simp: becomes_def register_keys_def split: if_splits)
qed

text \<open>The keys that an \<open>UNREGISTER\<close> leaves, and the key that goes with its last producer if it is ephemeral.\<close>

definition unregister_keys :: "string \<Rightarrow> string \<Rightarrow> registration set" where
  "unregister_keys topic channel =
     (if channel = '''' then insert (topic_key topic) {k. r_Category k = ''channel'' \<and> r_Key k = topic} else {channel_key topic channel})"

definition unregister_key :: "string \<Rightarrow> string \<Rightarrow> registration" where
  "unregister_key topic channel = (if channel = '''' then topic_key topic else channel_key topic channel)"

lemma finite_registered: "finite (registered s)"
proof -
  have "registered s = (\<Union>(k, ps) \<in> set (lk_db s). {k} \<times> fst ` set ps)" by (auto simp: registered_def)
  then show ?thesis by auto
qed

lemma drop_ephemeral:
  assumes "lk_ok s" "RemoveProducer s k i = ((removed, left), t)"
  shows "becomes (if left = 0 \<and> e then RemoveRegistration t k else t)
    (if e \<and> (\<forall>j. (k, j) \<notin> registered s - {(k, i)}) then lk_keys s - {k} else lk_keys s) (registered s - {(k, i)})"
proof -
  note r = RemoveProducer_ok [OF assms(1), of k i, unfolded assms(2), simplified]
  have "{j. (k, j) \<in> registered t} \<subseteq> snd ` registered t" by force
  then have "finite {j. (k, j) \<in> registered t}" using finite_registered finite_surj by blast
  then have "left = 0 \<longleftrightarrow> (\<forall>j. (k, j) \<notin> registered t)" using r(2) by auto
  moreover have "becomes (RemoveRegistration t k) (lk_keys s - {k}) (registered s - {(k, i)})" if "\<forall>j. (k, j) \<notin> registered t"
    using RemoveRegistration_ok [OF r(3), of k] r(4, 5) that by (auto simp: becomes_def)
  ultimately show ?thesis using r(3-5) by (auto simp: becomes_def)
qed

lemma UNREGISTER_becomes:
  assumes "lk_ok s" "cl_peerInfo client = Some peer" "getTopicChan ''UNREGISTER'' params = Inr (topic, channel)"
  defines "i \<equiv> pe_id (lk_peers s ! peer)"
  defines "rel \<equiv> registered s - unregister_keys topic channel \<times> {i}"
  shows "\<exists>t. UNREGISTER client params s = (None, t) \<and>
    becomes t (if is_ephemeral (if channel = '''' then topic else channel) \<and> (\<forall>j. (unregister_key topic channel, j) \<notin> rel)
       then lk_keys s - {unregister_key topic channel} else lk_keys s) rel"
proof (cases "channel = ''''")
  case False
  obtain removed left t where r: "RemoveProducer s (channel_key topic channel) i = ((removed, left), t)" by (metis prod.collapse)
  then have "UNREGISTER client params s =
      (None, if left = 0 \<and> is_ephemeral channel then RemoveRegistration t (channel_key topic channel) else t)"
    using assms(2, 3) False by (simp add: UNREGISTER_def i_def)
  moreover have "rel = registered s - {(channel_key topic channel, i)}" using False by (simp add: rel_def unregister_keys_def)
  ultimately show ?thesis using drop_ephemeral [OF assms(1) r, of "is_ephemeral channel"] False by (auto simp: unregister_key_def split: if_splits)
next
  case True
  define s1 where "s1 = fold (\<lambda>r s. snd (RemoveProducer s r i)) (FindRegistrations s ''channel'' topic ''*'') s"
  have s1: "lk_ok s1" "lk_keys s1 = lk_keys s"
    "registered s1 = registered s - {k \<in> lk_keys s. IsMatch k ''channel'' topic ''*''} \<times> {i}"
    using remove_loop_becomes [OF assms(1), of i "FindRegistrations s ''channel'' topic ''*''"] FindRegistrations_ok(2) [OF assms(1)]
    by (simp_all add: s1_def becomes_def)
  obtain removed left t where r: "RemoveProducer s1 (topic_key topic) i = ((removed, left), t)" by (metis prod.collapse)
  have "UNREGISTER client params s = (None, if left = 0 \<and> is_ephemeral topic then RemoveRegistration t (topic_key topic) else t)"
    using assms(2, 3) True r by (simp add: UNREGISTER_def i_def [symmetric] s1_def [symmetric])
  moreover have "topic \<noteq> ''*''"
    using assms(3) name_not_star [of topic] by (auto simp: getTopicChan_def Let_def split: list.splits if_splits)
  then have "rel = registered s1 - {(topic_key topic, i)}"
    using True registered_keys s1(3) by (fastforce simp: rel_def unregister_keys_def IsMatch_def)
  ultimately show ?thesis using drop_ephemeral [OF s1(1) r, of "is_ephemeral topic"] True s1(2) by (auto simp: unregister_key_def split: if_splits)
qed

lemma client_closed_becomes:
  assumes "lk_ok s" "cl_peerInfo client = Some peer"
  shows "becomes (client_closed client s) (lk_keys s) {x \<in> registered s. snd x \<noteq> pe_id (lk_peers s ! peer)}"
proof -
  let ?i = "pe_id (lk_peers s ! peer)"
  have "{x \<in> registered s. snd x \<noteq> ?i} = registered s - set (LookupRegistrations s ?i) \<times> {?i}"
    using LookupRegistrations_ok [OF assms(1), of ?i] by auto
  with remove_loop_becomes [OF assms(1), of ?i "LookupRegistrations s ?i"] assms(2) show ?thesis by (simp add: client_closed_def Let_def)
qed

lemma PING_becomes:
  assumes "lk_ok s" "cl_peerInfo client = Some peer" "peer < length (lk_peers s)"
  shows "becomes (PING now client s) (lk_keys s) (registered s)"
proof -
  have "lk_ok (PING now client s)"
    by (rule lk_ok_cong [OF assms(1)]) (use assms in \<open>auto simp: PING_def valid_producer_def peer_of_def nth_list_update\<close>)
  with same_db [of "PING now client s" s] assms(2) show ?thesis by (simp add: becomes_def PING_def)
qed

definition client_key :: registration where
  "client_key = \<lparr>r_Category = ''client'', r_Key = '''', r_SubKey = ''''\<rparr>"

lemma IDENTIFY_becomes:
  assumes "lk_ok s" "IDENTIFY readLen readBody decode now client s = Some (e, c', t)"
  shows "e \<noteq> None \<and> c' = client \<and> t = s \<or>
    e = None \<and> cl_peerInfo client = None \<and> c' = client\<lparr>cl_peerInfo := Some (length (lk_peers s))\<rparr> \<and>
    (\<exists>p. lk_peers t = lk_peers s @ [p] \<and> pe_lastUpdate p = now \<and> pe_RemoteAddress p = cl_RemoteAddr client \<and>
       becomes t (insert client_key (lk_keys s)) (insert (client_key, pe_id p) (registered s)))"
proof -
  let ?n = "length (lk_peers s)"
  have new: "lk_peers (register client_key ?n (s\<lparr>lk_peers := lk_peers s @ [p]\<rparr>)) = lk_peers s @ [p] \<and>
      becomes (register client_key ?n (s\<lparr>lk_peers := lk_peers s @ [p]\<rparr>)) (insert client_key (lk_keys s)) (insert (client_key, pe_id p) (registered s))" for p
  proof -
    let ?s = "s\<lparr>lk_peers := lk_peers s @ [p]\<rparr>"
    have ok: "lk_ok ?s" by (rule lk_ok_cong [OF assms(1)]) (auto simp: valid_producer_def peer_of_def nth_append)
    then show ?thesis using register_ok [OF ok, of ?n client_key] same_db [of ?s s] by (simp add: becomes_def)
  qed
  show ?thesis
  proof (cases e)
    case (Some err)
    with assms(2) show ?thesis by (auto simp: IDENTIFY_def Let_def split: if_splits option.splits)
  next
    case None
    with assms(2) obtain p where p: "cl_peerInfo client = None" "c' = client\<lparr>cl_peerInfo := Some ?n\<rparr>"
      "t = register client_key ?n (s\<lparr>lk_peers := lk_peers s @ [p\<lparr>pe_RemoteAddress := cl_RemoteAddr client, pe_lastUpdate := now\<rparr>]\<rparr>)"
      by (auto simp: IDENTIFY_def Let_def client_key_def split: if_splits option.splits)
    with None new [of "p\<lparr>pe_RemoteAddress := cl_RemoteAddr client, pe_lastUpdate := now\<rparr>"] show ?thesis by auto
  qed
qed

text \<open>
  C22. What the commands of a connection do, exactly. On a database in its invariant and for a client that has identified itself
  with the identifier \<open>i\<close>: a \<open>REGISTER\<close> with valid names adds the keys of the topic and of the channel, if one is given,
  and enters \<open>i\<close> under them, and nothing else; an \<open>UNREGISTER\<close> removes \<open>i\<close> from the key of the channel or, without a channel, from
  the topic and all its channels, and nothing else, and the key of the channel or topic itself goes exactly if it is ephemeral and nobody is left
  under it; names that are not valid are refused and change nothing; \<open>PING\<close> changes only the time of the peer; the end
  of the connection removes \<open>i\<close> everywhere and no key. \<open>IDENTIFY\<close> changes nothing on an error, and else adds the
  peer, with its address and the time, under the key of the clients. All of them keep the invariant.\<close>

theorem lookupd_commands:
  assumes "lk_ok s" "cl_peerInfo client = Some peer" "peer < length (lk_peers s)"
  shows "(case getTopicChan ''REGISTER'' params of
      Inl err \<Rightarrow> REGISTER client params s = (Some err, s)
    | Inr (topic, channel) \<Rightarrow> \<exists>t. REGISTER client params s = (None, t) \<and>
        becomes t (register_keys topic channel \<union> lk_keys s) (register_keys topic channel \<times> {pe_id (lk_peers s ! peer)} \<union> registered s)) \<and>
    (case getTopicChan ''UNREGISTER'' params of
      Inl err \<Rightarrow> UNREGISTER client params s = (Some err, s)
    | Inr (topic, channel) \<Rightarrow>
        let k = unregister_key topic channel; rel = registered s - unregister_keys topic channel \<times> {pe_id (lk_peers s ! peer)}
        in \<exists>t. UNREGISTER client params s = (None, t) \<and>
             becomes t (if is_ephemeral (if channel = '''' then topic else channel) \<and> (\<forall>j. (k, j) \<notin> rel) then lk_keys s - {k} else lk_keys s) rel) \<and>
    becomes (PING now client s) (lk_keys s) (registered s) \<and>
    lk_peers (PING now client s) = (lk_peers s)[peer := (lk_peers s ! peer)\<lparr>pe_lastUpdate := now\<rparr>] \<and>
    becomes (client_closed client s) (lk_keys s) {x \<in> registered s. snd x \<noteq> pe_id (lk_peers s ! peer)} \<and>
    (\<forall>new e c' t. IDENTIFY readLen readBody decode now new s = Some (e, c', t) \<longrightarrow>
       e \<noteq> None \<and> c' = new \<and> t = s \<or>
       e = None \<and> cl_peerInfo new = None \<and> c' = new\<lparr>cl_peerInfo := Some (length (lk_peers s))\<rparr> \<and>
       (\<exists>p. lk_peers t = lk_peers s @ [p] \<and> pe_lastUpdate p = now \<and> pe_RemoteAddress p = cl_RemoteAddr new \<and>
          becomes t (insert client_key (lk_keys s)) (insert (client_key, pe_id p) (registered s))))"
proof -
  have "case getTopicChan ''REGISTER'' params of
      Inl err \<Rightarrow> REGISTER client params s = (Some err, s)
    | Inr (topic, channel) \<Rightarrow> \<exists>t. REGISTER client params s = (None, t) \<and>
        becomes t (register_keys topic channel \<union> lk_keys s) (register_keys topic channel \<times> {pe_id (lk_peers s ! peer)} \<union> registered s)"
    using REGISTER_becomes [OF assms, of params] assms(2) by (auto simp: REGISTER_def split: sum.splits)
  moreover have "case getTopicChan ''UNREGISTER'' params of
      Inl err \<Rightarrow> UNREGISTER client params s = (Some err, s)
    | Inr (topic, channel) \<Rightarrow>
        let k = unregister_key topic channel; rel = registered s - unregister_keys topic channel \<times> {pe_id (lk_peers s ! peer)}
        in \<exists>t. UNREGISTER client params s = (None, t) \<and>
             becomes t (if is_ephemeral (if channel = '''' then topic else channel) \<and> (\<forall>j. (k, j) \<notin> rel) then lk_keys s - {k} else lk_keys s) rel"
  proof (cases "getTopicChan ''UNREGISTER'' params")
    case (Inl err)
    with assms(2) show ?thesis by (simp add: UNREGISTER_def)
  next
    case (Inr tc)
    with UNREGISTER_becomes [OF assms(1, 2), of params] show ?thesis by (cases tc) (simp add: Let_def)
  qed
  moreover have "lk_peers (PING now client s) = (lk_peers s)[peer := (lk_peers s ! peer)\<lparr>pe_lastUpdate := now\<rparr>]"
    using assms(2) by (simp add: PING_def)
  ultimately show ?thesis
    using PING_becomes [OF assms, of now] client_closed_becomes [OF assms(1, 2)] IDENTIFY_becomes [OF assms(1), of readLen readBody decode now]
    by (intro conjI allI impI)
qed

theorem lookupd_commands_witness:
  "\<exists>t. UNREGISTER \<lparr>cl_RemoteAddr = ''10.0.0.1:4150'', cl_peerInfo = Some 0\<rparr> [''t''] sample_lookupd = (None, t) \<and>
     lk_keys t = {topic_key ''t''} \<and> registered t = {}"
proof -
  have "getTopicChan ''UNREGISTER'' [''t''] = Inr (''t'', '''')" by (simp add: getTopicChan_def isValidName_def name_char_def)
  moreover have "\<not> is_ephemeral ''t''" "lk_keys sample_lookupd = {topic_key ''t''}" "0 < length (lk_peers sample_lookupd)"
    "lk_peers sample_lookupd ! 0 = sample_peer" "pe_id sample_peer = ''10.0.0.1:4150''"
    by (simp_all add: is_ephemeral_def lk_keys_def sample_lookupd_def sample_peer_def)
  ultimately show ?thesis
    using lookupd_commands [OF sample_lookupd_ok(1), of "\<lparr>cl_RemoteAddr = ''10.0.0.1:4150'', cl_peerInfo = Some 0\<rparr>" 0 "[''t'']" 0 None "\<lambda>_. None" "\<lambda>_ _. None"]
    by (auto simp: becomes_def Let_def unregister_keys_def unregister_key_def sample_lookupd_ok(4))
qed

section \<open>Handlers\<close>

lemma valid_not_filtered: "isValidName topic \<Longrightarrow> \<not> needFilter topic '''' \<and> (isValidName channel \<longrightarrow> \<not> needFilter topic channel)"
  using name_not_star by (auto simp: needFilter_def)

lemma topic_match:
  assumes "isValidName topic"
  shows "IsMatch k ''topic'' topic '''' \<longleftrightarrow> k = topic_key topic" "IsMatch k ''channel'' topic ''*'' \<longleftrightarrow> r_Category k = ''channel'' \<and> r_Key k = topic"
    "isValidName channel \<Longrightarrow> IsMatch k ''channel'' topic channel \<longleftrightarrow> k = channel_key topic channel"
  using valid_not_filtered [OF assms] exact_match [of topic] name_not_star [OF assms] by (auto simp: topic_key_def channel_key_def IsMatch_def)

text \<open>What is under the topic: its key and those of its channels.\<close>

definition under :: "string \<Rightarrow> registration \<Rightarrow> bool" where
  "under topic k \<longleftrightarrow> k = topic_key topic \<or> r_Category k = ''channel'' \<and> r_Key k = topic"

lemma doDeleteTopic_becomes:
  assumes "lk_ok s" "params ''topic'' = Some topic" "isValidName topic"
  shows "\<exists>t. doDeleteTopic (Some params) s = Inr t \<and> becomes t {k \<in> lk_keys s. \<not> under topic k} {x \<in> registered s. \<not> under topic (fst x)}"
proof -
  let ?s1 = "remove_all (FindRegistrations s ''channel'' topic ''*'') s"
  note m = topic_match [OF assms(3)]
  have s1: "lk_ok ?s1" "lk_keys ?s1 = {k \<in> lk_keys s. \<not> (r_Category k = ''channel'' \<and> r_Key k = topic)}"
    "registered ?s1 = {x \<in> registered s. \<not> (r_Category (fst x) = ''channel'' \<and> r_Key (fst x) = topic)}"
    using remove_all_becomes [OF assms(1), of "FindRegistrations s ''channel'' topic ''*''"] FindRegistrations_ok(2) [OF assms(1)] m registered_keys
    by (auto simp: becomes_def)
  have "becomes (remove_all (FindRegistrations ?s1 ''topic'' topic '''') ?s1) {k \<in> lk_keys s. \<not> under topic k} {x \<in> registered s. \<not> under topic (fst x)}"
    using remove_all_becomes [OF s1(1), of "FindRegistrations ?s1 ''topic'' topic ''''"] FindRegistrations_ok(2) [OF s1(1)] m registered_keys s1(2, 3)
    by (auto simp: becomes_def under_def)
  then show ?thesis using assms(2) by (simp add: doDeleteTopic_def with_topic_def Let_def)
qed

text \<open>The loop that tombstones the producers of a node marks those and nothing else.\<close>

lemma tombstone_loop:
  assumes "lk_ok s" "list_all (valid_producer s) ps"
  shows "\<exists>t. fold (\<lambda>p s. if node_name (peer_of s p) = node then Tombstone s now p else s) ps s = t \<and> lk_db t = lk_db s \<and> lk_peers t = lk_peers s \<and>
    length (lk_producers t) = length (lk_producers s) \<and> (\<forall>p < length (lk_producers s). lk_producers t ! p =
      (if p \<in> set ps \<and> node_name (peer_of s p) = node then (lk_producers s ! p)\<lparr>pr_tombstoned := True, pr_tombstonedAt := now\<rparr> else lk_producers s ! p))"
  using assms
proof (induction ps arbitrary: s)
  case (Cons q ps)
  define u where "u = (if node_name (peer_of s q) = node then Tombstone s now q else s)"
  have q: "q < length (lk_producers s)" using Cons.prems(2) by (simp add: valid_producer_def)
  have u: "lk_db u = lk_db s" "lk_peers u = lk_peers s" "length (lk_producers u) = length (lk_producers s)"
    "lk_producers u ! p = (if p = q \<and> node_name (peer_of s p) = node then (lk_producers s ! p)\<lparr>pr_tombstoned := True, pr_tombstonedAt := now\<rparr> else lk_producers s ! p)" for p
    using q by (auto simp: u_def Tombstone_def nth_list_update)
  have peer: "peer_of u p = peer_of s p" "valid_producer u p = valid_producer s p" for p
    using u(2, 3) u(4) [of p] by (auto simp: peer_of_def valid_producer_def split: if_splits)
  have "lk_ok u" by (rule lk_ok_cong [OF Cons.prems(1) u(1)]) (simp add: peer)
  moreover have "list_all (valid_producer u) ps" using Cons.prems(2) peer(2) by (simp add: list_all_iff)
  ultimately obtain t where t: "fold (\<lambda>p s. if node_name (peer_of s p) = node then Tombstone s now p else s) ps u = t" "lk_db t = lk_db u"
    "lk_peers t = lk_peers u" "length (lk_producers t) = length (lk_producers u)" "\<forall>p < length (lk_producers u). lk_producers t ! p =
      (if p \<in> set ps \<and> node_name (peer_of u p) = node then (lk_producers u ! p)\<lparr>pr_tombstoned := True, pr_tombstonedAt := now\<rparr> else lk_producers u ! p)"
    using Cons.IH by blast
  have "fold (\<lambda>p s. if node_name (peer_of s p) = node then Tombstone s now p else s) (q # ps) s = t" using t(1) by (simp add: u_def)
  then show ?case using t(2-) unfolding peer(1) u by (intro exI [of _ t]) auto
qed simp

lemma doTombstone_becomes:
  assumes "lk_ok s" "params ''topic'' = Some topic" "isValidName topic" "params ''node'' = Some node"
  shows "\<exists>t. doTombstoneTopicProducer now (Some params) s = Inr t \<and> becomes t (lk_keys s) (registered s) \<and> lk_peers t = lk_peers s \<and>
    (\<forall>p < length (lk_producers s). lk_producers t ! p =
      (if p \<in> set (FindProducers s ''topic'' topic '''') \<and> node_name (peer_of s p) = node
       then (lk_producers s ! p)\<lparr>pr_tombstoned := True, pr_tombstonedAt := now\<rparr> else lk_producers s ! p))"
proof -
  have "list_all (valid_producer s) (FindProducers s ''topic'' topic '''')"
    using FindProducers_valid [OF assms(1)] valid_not_filtered [OF assms(3)] by (auto simp: list_all_iff)
  from tombstone_loop [OF assms(1) this, of node now] obtain t where
    t: "doTombstoneTopicProducer now (Some params) s = Inr t" "lk_db t = lk_db s" "lk_peers t = lk_peers s" "length (lk_producers t) = length (lk_producers s)"
      "\<forall>p < length (lk_producers s). lk_producers t ! p = (if p \<in> set (FindProducers s ''topic'' topic '''') \<and> node_name (peer_of s p) = node
         then (lk_producers s ! p)\<lparr>pr_tombstoned := True, pr_tombstonedAt := now\<rparr> else lk_producers s ! p)"
    using assms(2, 4) by (auto simp: doTombstoneTopicProducer_def with_topic_def)
  have "lk_ok t" by (rule lk_ok_cong [OF assms(1) t(2)]) (use t(3-5) in \<open>auto simp: valid_producer_def peer_of_def\<close>)
  with t same_db [OF t(2)] show ?thesis by (auto simp: becomes_def)
qed

text \<open>
  C23. What the handlers that change the database do, exactly, for requests with a valid topic name: creating a topic or a channel
  adds its keys and no peer; deleting a topic removes its key and those of its channels with everything under them, deleting a channel removes
  its key or reports that there is none, and neither touches anything else; tombstoning marks with the time exactly the producers
  of the topic on the given node, and changes nothing else. All of them keep the invariant. (A topic name that is not
  valid is refused by the handlers that create, but \<open>doDeleteTopic\<close> takes it for a pattern: \<open>delete_topic_star_deletes_all\<close>.)\<close>

theorem lookupd_http:
  assumes "lk_ok s" "params ''topic'' = Some topic" "isValidName topic"
  shows "(\<exists>t. doCreateTopic (Some params) s = Inr t \<and> becomes t (insert (topic_key topic) (lk_keys s)) (registered s)) \<and>
    (\<exists>t. doDeleteTopic (Some params) s = Inr t \<and>
       becomes t {k \<in> lk_keys s. k \<noteq> topic_key topic \<and> \<not> (r_Category k = ''channel'' \<and> r_Key k = topic)}
         {x \<in> registered s. fst x \<noteq> topic_key topic \<and> \<not> (r_Category (fst x) = ''channel'' \<and> r_Key (fst x) = topic)}) \<and>
    (\<forall>channel. params ''channel'' = Some channel \<longrightarrow> isValidName channel \<longrightarrow>
       (\<exists>t. doCreateChannel (Some params) s = Inr t \<and> becomes t ({channel_key topic channel, topic_key topic} \<union> lk_keys s) (registered s)) \<and>
       (if channel_key topic channel \<in> lk_keys s
        then \<exists>t. doDeleteChannel (Some params) s = Inr t \<and>
          becomes t (lk_keys s - {channel_key topic channel}) {x \<in> registered s. fst x \<noteq> channel_key topic channel}
        else doDeleteChannel (Some params) s = Inl (HttpErr 404 ''CHANNEL_NOT_FOUND''))) \<and>
    (\<forall>node. params ''node'' = Some node \<longrightarrow>
       (\<exists>t. doTombstoneTopicProducer now (Some params) s = Inr t \<and> becomes t (lk_keys s) (registered s) \<and> lk_peers t = lk_peers s \<and>
         (\<forall>p < length (lk_producers s). lk_producers t ! p =
           (if p \<in> set (FindProducers s ''topic'' topic '''') \<and> node_name (peer_of s p) = node
            then (lk_producers s ! p)\<lparr>pr_tombstoned := True, pr_tombstonedAt := now\<rparr> else lk_producers s ! p))))"
proof -
  have "\<exists>t. doCreateTopic (Some params) s = Inr t \<and> becomes t (insert (topic_key topic) (lk_keys s)) (registered s)"
    using AddRegistration_ok [OF assms(1), of "topic_key topic"] assms(2, 3) by (simp add: doCreateTopic_def with_topic_def becomes_def)
  moreover have "(\<exists>t. doCreateChannel (Some params) s = Inr t \<and> becomes t ({channel_key topic channel, topic_key topic} \<union> lk_keys s) (registered s)) \<and>
      (if channel_key topic channel \<in> lk_keys s
       then \<exists>t. doDeleteChannel (Some params) s = Inr t \<and>
         becomes t (lk_keys s - {channel_key topic channel}) {x \<in> registered s. fst x \<noteq> channel_key topic channel}
       else doDeleteChannel (Some params) s = Inl (HttpErr 404 ''CHANNEL_NOT_FOUND''))"
    if c: "params ''channel'' = Some channel" "isValidName channel" for channel
  proof -
    note a = AddRegistration_ok [OF assms(1), of "channel_key topic channel"]
    note b = AddRegistration_ok [OF a(1), of "topic_key topic"]
    let ?rs = "FindRegistrations s ''channel'' topic channel"
    have args: "GetTopicChannelArgs params = Inr (topic, channel)" using assms(2, 3) c by (simp add: GetTopicChannelArgs_def)
    have rs: "set ?rs = (if channel_key topic channel \<in> lk_keys s then {channel_key topic channel} else {})"
      using FindRegistrations_ok(2) [OF assms(1)] topic_match(3) [OF assms(3) c(2)] by auto
    from a b args have "\<exists>t. doCreateChannel (Some params) s = Inr t \<and> becomes t ({channel_key topic channel, topic_key topic} \<union> lk_keys s) (registered s)"
      by (auto simp: doCreateChannel_def with_channel_def becomes_def)
    moreover have "?rs = [] \<longleftrightarrow> channel_key topic channel \<notin> lk_keys s" using rs by (metis empty_set insert_not_empty set_empty)
    ultimately show ?thesis using args rs remove_all_becomes [OF assms(1), of ?rs] by (auto simp: doDeleteChannel_def with_channel_def)
  qed
  ultimately show ?thesis
    using doDeleteTopic_becomes [of s params topic, OF assms] doTombstone_becomes [of s params topic, OF assms] unfolding under_def de_Morgan_disj
    by (intro conjI allI impI; blast)
qed

theorem lookupd_http_witness:
  "\<exists>t. doDeleteTopic (Some [''topic'' \<mapsto> ''t'']) sample_lookupd = Inr t \<and> lk_keys t = {} \<and> registered t = {}"
proof -
  have "isValidName ''t''" "lk_keys sample_lookupd = {topic_key ''t''}" by (simp_all add: isValidName_def name_char_def lk_keys_def sample_lookupd_def)
  with lookupd_http [OF sample_lookupd_ok(1), of "[''topic'' \<mapsto> ''t'']" "''t''" 0] show ?thesis by (auto simp: becomes_def sample_lookupd_ok(4))
qed

end
