(* ===== verification/Conn_Pool.thy ===== *)
theory Conn_Pool
  imports Go_Prelude "HOL-Library.Multiset"
begin

text \<open>
  \<open>pool/channel.go\<close> and \<open>pool/conn.go\<close>: a pool of connections in a buffered channel, as a concurrent program.
  A connection is a number, the position at which the factory made it. \<open>Get\<close> reads the channel under the
  lock and receives from it later, \<open>Close\<close> clears the field under the lock, closes the channel and then drains it;
  each of these parts is a step. \<open>put\<close> holds the lock and is one step.
\<close>

section \<open>The program\<close>

text \<open>A \<open>PoolConn\<close>: \<open>w_done\<close> records that its \<open>Close\<close> was called.\<close>

record wrapper =
  w_conn :: nat
  w_unusable :: bool
  w_done :: bool

text \<open>\<open>cp_chan\<close> is the buffer of the channel and \<open>cp_chanClosed\<close> says that it is closed; \<open>cp_nil\<close> says that the field
  \<open>conns\<close> is nil. \<open>cp_made\<close> counts the connections of the factory, \<open>cp_closes\<close> logs the calls of their \<open>Close\<close>.
  \<open>cp_gets\<close> counts the invocations of \<open>Get\<close> that have read the channel, \<open>cp_closing\<close> those of \<open>Close\<close> that have not
  yet closed it, and \<open>cp_closed\<close> says that the loop of \<open>Close\<close> over the idle connections has ended.\<close>

record conn_pool =
  cp_cap :: nat
  cp_chan :: "nat list"
  cp_chanClosed :: bool
  cp_nil :: bool
  cp_made :: nat
  cp_closes :: "nat list"
  cp_wrappers :: "wrapper list"
  cp_gets :: nat
  cp_closing :: nat
  cp_closed :: bool

datatype pool_error = InvalidCapacity | FactoryError | ErrClosed | NilConnection

definition cp_put :: "nat \<Rightarrow> conn_pool \<Rightarrow> conn_pool option" where
  "cp_put conn c =
     (if cp_nil c then Some (c\<lparr>cp_closes := cp_closes c @ [conn]\<rparr>)
      else if cp_chanClosed c then None
      else if length (cp_chan c) < cp_cap c then Some (c\<lparr>cp_chan := cp_chan c @ [conn]\<rparr>)
      else Some (c\<lparr>cp_closes := cp_closes c @ [conn]\<rparr>))"

definition wrapConn :: "nat \<Rightarrow> conn_pool \<Rightarrow> conn_pool" where
  "wrapConn conn c = c\<lparr>cp_wrappers := cp_wrappers c @ [\<lparr>w_conn = conn, w_unusable = False, w_done = False\<rparr>]\<rparr>"

text \<open>\<open>Get\<close> up to reading the channel, and the rest; \<open>ok\<close> says whether the factory succeeds.\<close>

definition get_begin :: "conn_pool \<Rightarrow> pool_error option \<times> conn_pool" where
  "get_begin c = (if cp_nil c then (Some ErrClosed, c) else (None, c\<lparr>cp_gets := cp_gets c + 1\<rparr>))"

definition get_end :: "bool \<Rightarrow> conn_pool \<Rightarrow> pool_error option \<times> conn_pool" where
  "get_end ok c =
     (let c = c\<lparr>cp_gets := cp_gets c - 1\<rparr>
      in case cp_chan c of
           conn # rest \<Rightarrow> (None, wrapConn conn (c\<lparr>cp_chan := rest\<rparr>))
         | [] \<Rightarrow>
             if cp_chanClosed c then (Some ErrClosed, c)
             else if \<not> ok then (Some FactoryError, c)
             else (None, wrapConn (cp_made c) (c\<lparr>cp_made := cp_made c + 1\<rparr>)))"

text \<open>\<open>Close\<close> in its three parts, the last one a round of its loop, which ends when the closed channel is empty. Closing a closed channel panics.\<close>

definition close_begin :: "conn_pool \<Rightarrow> conn_pool" where
  "close_begin c = (if cp_nil c then c else c\<lparr>cp_nil := True, cp_closing := cp_closing c + 1\<rparr>)"

definition close_chan :: "conn_pool \<Rightarrow> conn_pool option" where
  "close_chan c = (if cp_chanClosed c then None else Some (c\<lparr>cp_chanClosed := True, cp_closing := cp_closing c - 1\<rparr>))"

definition close_drain :: "conn_pool \<Rightarrow> conn_pool" where
  "close_drain c = (case cp_chan c of [] \<Rightarrow> c\<lparr>cp_closed := True\<rparr> | conn # rest \<Rightarrow> c\<lparr>cp_chan := rest, cp_closes := cp_closes c @ [conn]\<rparr>)"

definition cp_Len :: "conn_pool \<Rightarrow> nat" where
  "cp_Len c = (if cp_nil c then 0 else length (cp_chan c))"

text \<open>The methods of \<open>PoolConn\<close>.\<close>

definition MarkUnusable :: "nat \<Rightarrow> conn_pool \<Rightarrow> conn_pool" where
  "MarkUnusable k c = c\<lparr>cp_wrappers := (cp_wrappers c)[k := (cp_wrappers c ! k)\<lparr>w_unusable := True\<rparr>]\<rparr>"

definition conn_Close :: "nat \<Rightarrow> conn_pool \<Rightarrow> conn_pool option" where
  "conn_Close k c =
     (let w = cp_wrappers c ! k;
          c = c\<lparr>cp_wrappers := (cp_wrappers c)[k := w\<lparr>w_done := True\<rparr>]\<rparr>
      in if w_unusable w then Some (c\<lparr>cp_closes := cp_closes c @ [w_conn w]\<rparr>)
         else cp_put (w_conn w) c)"

text \<open>The loop of \<open>NewChannelPool\<close>: \<open>oks\<close> are the outcomes of the factory. On a failure the pool is closed.\<close>

fun fill :: "bool list \<Rightarrow> conn_pool \<Rightarrow> pool_error option \<times> conn_pool" where
  "fill [] c = (None, c)"
| "fill (ok # oks) c =
     (if \<not> ok then (Some FactoryError, c\<lparr>cp_nil := True, cp_chanClosed := True, cp_chan := [], cp_closes := cp_closes c @ cp_chan c, cp_closed := True\<rparr>)
      else fill oks (c\<lparr>cp_chan := cp_chan c @ [cp_made c], cp_made := cp_made c + 1\<rparr>))"

definition NewChannelPool :: "int \<Rightarrow> int \<Rightarrow> (nat \<Rightarrow> bool) \<Rightarrow> pool_error option \<times> conn_pool" where
  "NewChannelPool initialCap maxCap factory =
     (let c = \<lparr>cp_cap = nat maxCap, cp_chan = [], cp_chanClosed = False, cp_nil = False, cp_made = 0, cp_closes = [],
            cp_wrappers = [], cp_gets = 0, cp_closing = 0, cp_closed = False\<rparr>
      in if initialCap < 0 \<or> maxCap \<le> 0 \<or> initialCap > maxCap then (Some InvalidCapacity, c)
         else fill (map factory [0..<nat initialCap]) c)"

section \<open>Runs\<close>

datatype cp_event = GetBegin | GetEnd bool | ConnClose nat | ConnMark nat | CloseBegin | CloseChan | CloseDrain

definition cp_ready :: "conn_pool \<Rightarrow> cp_event \<Rightarrow> bool" where
  "cp_ready c e \<longleftrightarrow>
     (case e of
        GetEnd ok \<Rightarrow> cp_gets c > 0
      | ConnClose k \<Rightarrow> k < length (cp_wrappers c)
      | ConnMark k \<Rightarrow> k < length (cp_wrappers c)
      | CloseChan \<Rightarrow> cp_closing c > 0
      | CloseDrain \<Rightarrow> cp_chanClosed c
      | _ \<Rightarrow> True)"

definition cp_do :: "cp_event \<Rightarrow> conn_pool \<Rightarrow> conn_pool option" where
  "cp_do e c =
     (case e of
        GetBegin \<Rightarrow> Some (snd (get_begin c))
      | GetEnd ok \<Rightarrow> Some (snd (get_end ok c))
      | ConnClose k \<Rightarrow> conn_Close k c
      | ConnMark k \<Rightarrow> Some (MarkUnusable k c)
      | CloseBegin \<Rightarrow> Some (close_begin c)
      | CloseChan \<Rightarrow> close_chan c
      | CloseDrain \<Rightarrow> Some (close_drain c))"

text \<open>Steps of a pool whose clients close each connection they get at most once; a panic has no successor.\<close>

definition once :: "conn_pool \<Rightarrow> cp_event \<Rightarrow> bool" where
  "once c e \<longleftrightarrow> (case e of ConnClose k \<Rightarrow> \<not> w_done (cp_wrappers c ! k) | _ \<Rightarrow> True)"

inductive cp_reach :: "conn_pool \<Rightarrow> conn_pool \<Rightarrow> bool" for c0 where
  start: "cp_reach c0 c0"
| step: "cp_reach c0 c \<Longrightarrow> cp_ready c e \<Longrightarrow> once c e \<Longrightarrow> cp_do e c = Some c' \<Longrightarrow> cp_reach c0 c'"

text \<open>The connections in the hands of clients.\<close>

definition borrowed :: "conn_pool \<Rightarrow> nat list" where
  "borrowed c = map w_conn (filter (\<lambda>w. \<not> w_done w) (cp_wrappers c))"

definition cp_ok :: "conn_pool \<Rightarrow> bool" where
  "cp_ok c \<longleftrightarrow>
     mset (cp_chan c) + mset (borrowed c) + mset (cp_closes c) = mset [0..<cp_made c] \<and>
     length (cp_chan c) \<le> cp_cap c \<and> (cp_chanClosed c \<longrightarrow> cp_nil c) \<and> (cp_closing c > 0 \<longrightarrow> cp_nil c \<and> \<not> cp_chanClosed c \<and> cp_closing c = 1) \<and>
     (cp_nil c \<longrightarrow> cp_chanClosed c \<or> cp_closing c = 1) \<and> (cp_closed c \<longrightarrow> cp_chanClosed c \<and> cp_chan c = [])"

lemma mset_upt_Suc: "mset_set {0..<Suc n} = add_mset n (mset_set {0..<n})"
  by (simp add: atLeast0_lessThan_Suc)

lemma borrowed_update:
  assumes "k < length ws" "\<not> w_done (ws ! k)"
  shows "mset (map w_conn (filter (\<lambda>w. \<not> w_done w) ws)) =
    add_mset (w_conn (ws ! k)) (mset (map w_conn (filter (\<lambda>w. \<not> w_done w) (ws[k := (ws ! k)\<lparr>w_done := True\<rparr>]))))"
  using assms
proof (induction ws arbitrary: k)
  case (Cons w ws)
  then show ?case by (cases k) auto
qed simp

lemma borrowed_mark: "k < length ws \<Longrightarrow>
  map w_conn (filter (\<lambda>w. \<not> w_done w) (ws[k := (ws ! k)\<lparr>w_unusable := True\<rparr>])) = map w_conn (filter (\<lambda>w. \<not> w_done w) ws)"
proof (induction ws arbitrary: k)
  case (Cons w ws)
  then show ?case by (cases k) auto
qed simp

lemma cp_put_ok:
  assumes "mset (cp_chan c) + mset (borrowed c) + mset (cp_closes c) + {#conn#} = mset [0..<cp_made c]"
    "length (cp_chan c) \<le> cp_cap c" "cp_chanClosed c \<longrightarrow> cp_nil c"
    "cp_closing c > 0 \<longrightarrow> cp_nil c \<and> \<not> cp_chanClosed c \<and> cp_closing c = 1" "cp_nil c \<longrightarrow> cp_chanClosed c \<or> cp_closing c = 1"
    "cp_closed c \<longrightarrow> cp_chanClosed c \<and> cp_chan c = []"
  shows "\<exists>c'. cp_put conn c = Some c' \<and> cp_ok c'"
  using assms by (auto simp: cp_put_def cp_ok_def borrowed_def)

lemma conn_Close_ok:
  assumes "cp_ok c" "k < length (cp_wrappers c)" "\<not> w_done (cp_wrappers c ! k)"
  shows "\<exists>c'. conn_Close k c = Some c' \<and> cp_ok c'"
proof -
  let ?w = "cp_wrappers c ! k"
  let ?c = "c\<lparr>cp_wrappers := (cp_wrappers c)[k := ?w\<lparr>w_done := True\<rparr>]\<rparr>"
  have b: "mset (borrowed c) = add_mset (w_conn ?w) (mset (borrowed ?c))"
    using borrowed_update [OF assms(2, 3)] by (simp add: borrowed_def)
  show ?thesis
  proof (cases "w_unusable ?w")
    case True
    with assms(1) b show ?thesis by (auto simp: conn_Close_def cp_ok_def borrowed_def Let_def)
  next
    case False
    have "\<exists>c'. cp_put (w_conn ?w) ?c = Some c' \<and> cp_ok c'"
      by (rule cp_put_ok) (use assms(1) b in \<open>auto simp: cp_ok_def\<close>)
    with False show ?thesis by (simp add: conn_Close_def Let_def)
  qed
qed

lemma cp_do_ok:
  assumes "cp_ok c" "cp_ready c e" "once c e"
  shows "\<exists>c'. cp_do e c = Some c' \<and> cp_ok c'"
proof (cases e)
  case (GetEnd ok)
  with assms show ?thesis
    by (auto simp: cp_do_def get_end_def wrapConn_def Let_def cp_ok_def borrowed_def mset_upt_Suc split: list.splits)
next
  case (ConnClose k)
  with conn_Close_ok [OF assms(1), of k] assms(2, 3) show ?thesis by (simp add: cp_do_def cp_ready_def once_def)
next
  case (ConnMark k)
  with assms(2) have "borrowed (MarkUnusable k c) = borrowed c"
    using borrowed_mark [of k "cp_wrappers c"] by (simp add: MarkUnusable_def borrowed_def cp_ready_def)
  with ConnMark assms(1) show ?thesis by (simp add: cp_do_def cp_ok_def) (simp add: MarkUnusable_def)
next
  case CloseDrain
  with assms show ?thesis by (auto simp: cp_do_def close_drain_def cp_ok_def borrowed_def cp_ready_def split: list.splits)
qed (use assms in \<open>auto simp: cp_do_def get_begin_def close_begin_def close_chan_def cp_ok_def borrowed_def cp_ready_def\<close>)

lemma cp_reach_ok: "cp_reach c0 c \<Longrightarrow> cp_ok c0 \<Longrightarrow> cp_ok c"
  by (induction rule: cp_reach.induct) (use cp_do_ok in fastforce)+

lemma fill_ok:
  assumes "cp_ok c" "length (cp_chan c) + length oks \<le> cp_cap c" "\<not> cp_nil c" "\<not> cp_closed c"
  shows "cp_ok (snd (fill oks c))"
  using assms by (induction oks c rule: fill.induct) (auto simp: cp_ok_def borrowed_def mset_upt_Suc ac_simps)

lemma NewChannelPool_ok: "cp_ok (snd (NewChannelPool initialCap maxCap factory))"
proof -
  let ?c = "\<lparr>cp_cap = nat maxCap, cp_chan = [], cp_chanClosed = False, cp_nil = False, cp_made = 0, cp_closes = [],
            cp_wrappers = [], cp_gets = 0, cp_closing = 0, cp_closed = False\<rparr>"
  have ok: "cp_ok ?c" by (simp add: cp_ok_def borrowed_def)
  show ?thesis
  proof (cases "initialCap < 0 \<or> maxCap \<le> 0 \<or> initialCap > maxCap")
    case False
    then have "cp_ok (snd (fill (map factory [0..<nat initialCap]) ?c))" by (intro fill_ok [OF ok]) auto
    with False show ?thesis by (simp add: NewChannelPool_def Let_def)
  qed (use ok in \<open>simp add: NewChannelPool_def\<close>)
qed

lemma drain_all:
  "(close_drain ^^ Suc (length (cp_chan c))) c = c\<lparr>cp_chan := [], cp_closes := cp_closes c @ cp_chan c, cp_closed := True\<rparr>"
proof (induction "cp_chan c" arbitrary: c)
  case Nil
  then show ?case by (simp add: close_drain_def flip: Nil)
next
  case (Cons conn rest)
  let ?c = "c\<lparr>cp_chan := rest, cp_closes := cp_closes c @ [conn]\<rparr>"
  have "(close_drain ^^ Suc (length (cp_chan c))) c = (close_drain ^^ Suc (length (cp_chan ?c))) (close_drain c)"
    using funpow_Suc_right [of "Suc (length rest)" close_drain] by (simp flip: Cons.hyps(2) add: fun_eq_iff)
  also have "close_drain c = ?c" by (simp add: close_drain_def flip: Cons.hyps(2))
  finally show ?case using Cons.hyps(1) [of ?c] by (simp flip: Cons.hyps(2))
qed

section \<open>Contract\<close>

text \<open>
  C25. In every interleaving of the goroutines that use a pool, as long as each connection obtained from \<open>Get\<close> is closed
  at most once, no step panics, the pool holds at most its capacity, and every connection the
  factory made is in exactly one place: idle in the pool, in the hands of exactly one client, or closed, once. Once
  \<open>Close\<close> has closed the channel, its loop closes the idle connections, each once, and ends after one round per connection; from then on
  every connection of the factory is closed unless a client still has it.\<close>

theorem conn_pool_accounts:
  assumes "cp_reach (snd (NewChannelPool initialCap maxCap factory)) c"
  shows "length (cp_chan c) \<le> cp_cap c \<and> mset (cp_chan c) + mset (borrowed c) + mset (cp_closes c) = mset [0..<cp_made c] \<and>
    (\<forall>e. cp_ready c e \<and> once c e \<longrightarrow> cp_do e c \<noteq> None) \<and>
    (cp_chanClosed c \<longrightarrow> (close_drain ^^ Suc (length (cp_chan c))) c = c\<lparr>cp_chan := [], cp_closes := cp_closes c @ cp_chan c, cp_closed := True\<rparr>) \<and>
    (cp_closed c \<longrightarrow> mset (borrowed c) + mset (cp_closes c) = mset [0..<cp_made c])"
proof -
  have ok: "cp_ok c" using cp_reach_ok [OF assms NewChannelPool_ok] .
  then have "cp_ready c e \<and> once c e \<longrightarrow> cp_do e c \<noteq> None" for e using cp_do_ok by fastforce
  with ok drain_all [of c] show ?thesis by (auto simp: cp_ok_def)
qed

theorem conn_pool_accounts_witness:
  "\<exists>c. cp_reach (snd (NewChannelPool 1 2 (\<lambda>_. True))) c \<and> borrowed c = [0] \<and> length (cp_chan c) \<le> cp_cap c"
proof -
  let ?c = "snd (NewChannelPool 1 2 (\<lambda>_. True))"
  have c: "?c = \<lparr>cp_cap = 2, cp_chan = [0], cp_chanClosed = False, cp_nil = False, cp_made = 1, cp_closes = [],
            cp_wrappers = [], cp_gets = 0, cp_closing = 0, cp_closed = False\<rparr>" by code_simp
  let ?d = "wrapConn 0 (?c\<lparr>cp_chan := []\<rparr>)"
  have "cp_reach ?c (snd (get_begin ?c))"
    by (rule cp_reach.step [OF cp_reach.start, of _ GetBegin]) (simp_all add: cp_ready_def once_def cp_do_def)
  then have "cp_reach ?c (snd (get_end True (snd (get_begin ?c))))"
    by (rule cp_reach.step [of _ _ "GetEnd True"]) (simp_all add: cp_ready_def once_def cp_do_def get_begin_def c)
  then have r: "cp_reach ?c ?d" by (simp add: get_begin_def get_end_def c Let_def)
  have "borrowed ?d = [0]" by (simp add: borrowed_def wrapConn_def c)
  with r conn_pool_accounts [OF r] show ?thesis by blast
qed

section \<open>Two flaws\<close>

text \<open>Closing a connection of the pool twice puts it into the pool twice: two clients then share it.\<close>

theorem double_close_shares:
  "\<exists>c1 c2. conn_Close 0 (snd (get_end True (snd (get_begin (snd (NewChannelPool 1 2 (\<lambda>_. True))))))) = Some c1 \<and>
     conn_Close 0 c1 = Some c2 \<and> cp_chan c2 = [0, 0]"
proof -
  have "map_option cp_chan (conn_Close 0 (snd (get_end True (snd (get_begin (snd (NewChannelPool 1 2 (\<lambda>_. True))))))) \<bind> conn_Close 0) = Some [0, 0]"
    by code_simp
  then show ?thesis by (auto simp: bind_eq_Some_conv)
qed

end
