(* ===== verification/Spec2Isabelle.thy ===== *)
theory Spec2Isabelle
  imports Cache_Iterator Ring_Buffer Ants_Pool_Props Group_Cache_Props Consistent_Hash Single_Flight Hystrix_Command Nsq_Topic_Props Nsq_Daemon_Props Nsq_Lookupd_Props Conn_Pool
begin

text \<open>
  \<^bold>\<open>A verification development for the Go projects collected in this repository.\<close>

  The repository holds annotated copies of Go programs: \<open>bigcache\<close> (a sharded in-memory cache),
  \<open>groupcache\<close> (a distributed read-through cache), \<open>nsq\<close> (a message queue), \<open>hystrix-go\<close> (a
  circuit breaker), \<open>ants\<close>, \<open>grpool\<close> and \<open>pool\<close> (pools of goroutines and connections), \<open>ringbuffer\<close>,
  \<open>tcc-go\<close>, \<open>grpc-go\<close>, and the sources of Go 1.13, of which the programs use library packages.
  The theories follow the source files; definitions keep the source's names, with a prefix for the
  receiver where two types have a method of the same name.

  \<^bold>\<open>Conventions.\<close> A Go \<open>int\<close> is an \<open>int\<close>, unsigned types are words of their width
  (\<open>Go_Prelude\<close>). A method is a function from the state to the result and the new state. \<open>None\<close> as
  the result of an operation is a panic or, for a \<open>partial_function\<close>, a loop that does not
  end; Go errors are values of a sum type. So every theorem that shows \<open>Some\<close> shows absence of
  panics and termination; no fuel is used. A method that holds one lock for its whole body is one step;
  where the code gives up locks in between and the interleaving matters, the program is an
  \<open>inductive\<close> step relation over the points where a goroutine can be interrupted. The clock is an argument or
  a component of the state. \<open>float64\<close> values are rationals with the rounding of every
  operation (\<open>Go_Float\<close>). Maps whose order of iteration matters are association lists.

  \<^bold>\<open>bigcache.\<close>
  \<^item> \<open>Go_Binary\<close>: the library's varints and little-endian integers
    (\<open>encoding/binary\<close>).
  \<^item> \<open>Bytes_Queue\<close>: \<open>queue/bytes_queue.go\<close>, entries with varint headers in a byte array that wraps around and
    grows. The record \<open>bytes_queue\<close> has the fields of the struct. Shown: \<open>Push\<close> and \<open>Pop\<close> refine a queue
    of indexed entries, and where the reallocation reorders entries or corrupts the array.
  \<^item> \<open>Cache_Entry\<close>: the layout of an entry (\<open>encoding.go\<close>) and the hash (\<open>fnv.go\<close>), with round trips.
  \<^item> \<open>Cache_Shard\<close> (\<open>shard.go\<close>), \<open>Cache_Shard_Inv\<close> (its invariant), \<open>Cache_Shard_Props\<close> and
    \<open>Cache_Fixed_Size\<close>: every method refines an operation on a partial map from hashes to keys and values.
  \<^item> \<open>Big_Cache\<close> (\<open>bigcache.go\<close>, \<open>config.go\<close>, \<open>iterator.go\<close>), \<open>Big_Cache_Props\<close>, \<open>Cache_Iterator\<close>:
    the whole cache meets the contract \<open>evicting_map\<close> (theory \<open>Evicting_Map\<close>) over every run.

  \<^bold>\<open>Queues.\<close> \<open>Bounded_Fifo\<close> states the contract of a bounded queue as a locale and the view
  of a circular array as a list; \<open>Ring_Buffer\<close> (\<open>ringbuffer/ring_buffer.go\<close>) and \<open>Worker_Array\<close>
  (\<open>ants/worker_loop_queue.go\<close>, \<open>ants/worker_stack.go\<close>) interpret it. \<open>Heap_Order\<close> states
  the contract of a priority queue; \<open>Nsq_Pqueue\<close> and \<open>Nsq_Pqueue_Props\<close> interpret it for both
  priority queues of \<open>nsq\<close>, one on \<open>container/heap\<close> and one with its own loops.

  \<^bold>\<open>groupcache.\<close> \<open>Linked_List\<close> is \<open>container/list\<close> with its pointers in an explicit store; \<open>Lru_Cache\<close>
  is \<open>lru/lru.go\<close> on top of it, and \<open>Lru_Props\<close> interprets \<open>evicting_map\<close> for it. \<open>Byte_View\<close> holds
  \<open>byteview.go\<close>, with the readers it returns, and \<open>sinks.go\<close>, \<open>Group_Cache\<close> holds \<open>groupcache.go\<close> and \<open>peers.go\<close>: \<open>Get\<close>
  delivers the value of the key whatever is cached, and the eviction loop keeps the limit. \<open>Consistent_Hash\<close>
  is the ring of \<open>consistenthash.go\<close>, and \<open>Single_Flight\<close> is \<open>singleflight.go\<close> as a concurrent program.

  \<^bold>\<open>hystrix-go.\<close> \<open>Hystrix_Rolling\<close> holds the counters (\<open>rolling/\<close>), \<open>Hystrix_Circuit\<close> the settings,
  metrics, ticket pool and circuit breaker as sequential operations, and \<open>Hystrix_Command\<close> the two
  goroutines of every command as a transition system: an open circuit lets through one test per sleep window,
  tickets are conserved, and no command hangs.

  \<^bold>\<open>nsq.\<close> \<open>Nsq_Message\<close> holds the messages of \<open>nsqd\<close> (\<open>message.go\<close>), their identifiers (\<open>guid.go\<close>) and two helpers of
  \<open>internal/protocol\<close>. \<open>Nsq_Channel\<close> is \<open>channel.go\<close> with the delivery step of \<open>protocol_v2.go\<close>, over a backend
  given by its methods, and its invariant: the maps and the priority queues of the messages in flight and of the deferred ones
  agree. \<open>Nsq_Channel_Props\<close> shows that no run duplicates a message or loses one but to a backend that does not store it (the
  \<open>dummyBackendQueue\<close> of ephemeral channels, a failing \<open>Put\<close>), that overdue messages leave the flight, that touching is
  bounded and that closing hands everything to the backend, and two schedules that lose a message.
  \<open>Nsq_Topic\<close> is \<open>topic.go\<close> with its pump; \<open>Nsq_Topic_Props\<close> composes it with the channels: every message is
  handed once to each of them, and the ledgers of the topic and of the channels balance over every run up to what the backends discard.
  \<open>Nsq_Client\<close> holds the clients of the daemon (\<open>client_v2.go\<close>) and their authorizations, \<open>Nsq_Protocol\<close> the commands, the loop and
  the pump of a connection (\<open>protocol_v2.go\<close>) and the topics of the daemon (\<open>nsqd.go\<close>), as one transition system over topics, channels and clients.
  \<open>Nsq_Protocol_Props\<close> shows that batches are read exactly and that commands need an authorization. \<open>Nsq_Flow\<close> and \<open>Nsq_Flow_Props\<close> give the
  invariant of flow control, which relates the counter of every client to the messages in flight through the calls that channels
  make to their clients, and show it for every step. A command, a scan or the emptying of a channel is one step there, while
  the code gives up mutexes in between: two schedules inside \<open>Empty\<close> break the counter, one starves a client and one
  lets it exceed its ready count.
  \<open>Nsq_Daemon\<close> is the rest of \<open>nsqd.go\<close> around the topics: the metadata file and the scan loop with the random choice of
  channels (\<open>internal/util/rand.go\<close>). \<open>Nsq_Daemon_Props\<close> shows that a restart keeps topics, channels and pauses whatever
  operation on the file fails, that a round of the scan leaves no overdue message in flight or deferred, and a setting under which the loop has no worker.
  \<open>Nsq_Lookupd\<close> holds \<open>nsqlookupd\<close>: the registration database, the commands and the handlers; \<open>Nsq_Lookupd_Props\<close>
  shows that it implements a relation between keys and peers, the exact effect of every command and handler on it, that its
  queries agree, and what a session sees.

  \<^bold>\<open>pool.\<close> \<open>Conn_Pool\<close> is the connection pool (\<open>channel.go\<close>, \<open>conn.go\<close>) as a concurrent program: connections are
  neither lost nor shared.

  \<^bold>\<open>ants.\<close> \<open>Ants_Pool\<close> is the goroutine pool (\<open>pool.go\<close>, \<open>worker.go\<close>) over the containers of \<open>Worker_Array\<close> as a
  concurrent program with its condition variable; \<open>Ants_Pool_Props\<close> shows by an owner for every worker that each accepted task is
  executed exactly once, and schedules that exceed the capacity and that leave a caller asleep after \<open>Release\<close>.

  \<^bold>\<open>Bounds.\<close> Times are below \<open>2^62\<close> nanoseconds where a theorem needs it; request counts of a circuit
  below \<open>2^40\<close> where the rounding of floating-point operations must not decide; lengths in the
  byte queue below \<open>2^32\<close> where the code stores them in 32 bits. These bounds are hypotheses of the
  theorems, which their witnesses satisfy.

  \<^bold>\<open>Not modelled.\<close> The Go distribution apart from the library routines the programs call; \<open>grpc-go\<close> and
  \<open>tcc-go\<close>, which are mostly network, generated and glue code; the HTTP and TCP servers and
  clients, command-line applications and loggers of \<open>nsq\<close>, \<open>groupcache\<close>, \<open>bigcache\<close> and \<open>hystrix-go\<close>
  (pure input and output); the pool of \<open>ants\<close> with one function, a copy of the pool that is modelled; \<open>grpool\<close>; tests and examples.
\<close>

end
